(* ===== verification/Prelude.thy ===== *)
theory Prelude
  imports Main "HOL-Library.Word" "HOL-Library.Multiset" "HOL-Library.Monad_Syntax"
begin

text \<open>
  Shared vocabulary of the development.

  \<^item> An iterator of the C++ code is an \<open>int\<close>: an offset in the array it walks. Offsets are
    integers and not naturals because the code moves iterators below their first position.
  \<^item> Reading through an iterator is a function into \<open>option\<close>; \<open>None\<close> is a read outside the
    object, i.e. undefined behaviour. Every operation that reads returns an \<open>option\<close>, and the
    theorems show that it returns \<open>Some\<close>.
  \<^item> \<open>size_t\<close> values are naturals; a conversion from a signed distance is \<open>to_size_t\<close>, with its
    wrap-around modulo \<open>2 ^ 64\<close>.
  \<^item> A search over a partitioned range is specified by its partition point.
\<close>

named_theorems search_simps \<open>definitions of the ranges and contracts of the search classes\<close>

type_synonym iterator = int
type_synonym 'k reader = "int \<Rightarrow> 'k option"
type_synonym u8 = "8 word"
type_synonym u16 = "16 word"
type_synonym u32 = "32 word"
type_synonym u64 = "64 word"

subsection \<open>Machine sizes\<close>

definition to_size_t :: "int \<Rightarrow> nat" where
  "to_size_t d = nat (d mod 2 ^ 64)"

lemma to_size_t_id [simp]: "0 \<le> d \<Longrightarrow> d < 2 ^ 64 \<Longrightarrow> to_size_t d = nat d"
  by (simp add: to_size_t_def)

lemma to_size_t_int [simp]: "n < 2 ^ 64 \<Longrightarrow> to_size_t (int n) = n"
  by (simp add: to_size_t_def flip: of_nat_power)

lemma to_size_t_bound: "to_size_t d < 2 ^ 64"
proof -
  have "d mod 2 ^ 64 < 2 ^ 64" by simp
  then show ?thesis by (simp add: to_size_t_def nat_less_iff)
qed

text \<open>
  The conversion of a \<^verbatim>\<open>size_t\<close> to the signed \<^verbatim>\<open>difference_type\<close> of an iterator, the
  negation of a \<^verbatim>\<open>size_t\<close>, and a shift to the left by one.
\<close>

definition to_ptrdiff :: "nat \<Rightarrow> int" where
  "to_ptrdiff n = (if n mod 2 ^ 64 < 2 ^ 63 then int (n mod 2 ^ 64) else int (n mod 2 ^ 64) - 2 ^ 64)"

definition size_neg :: "nat \<Rightarrow> nat" where
  "size_neg n = to_size_t (- int n)"

definition size_shl1 :: "nat \<Rightarrow> nat" where
  "size_shl1 n = (2 * n) mod 2 ^ 64"

lemma to_ptrdiff_id [simp]: "n < 2 ^ 63 \<Longrightarrow> to_ptrdiff n = int n"
  by (simp add: to_ptrdiff_def)

lemma size_neg_pos: "0 < n \<Longrightarrow> n \<le> 2 ^ 63 \<Longrightarrow> size_neg n = 2 ^ 64 - n"
proof -
  assume n: "0 < n" "n \<le> 2 ^ 63"
  have "(- int n) mod 2 ^ 64 = (2 ^ 64 - int n) mod 2 ^ 64" by (simp add: mod_diff_eq)
  also have "\<dots> = 2 ^ 64 - int n" by (rule mod_pos_pos_trivial) (use n in auto)
  finally show ?thesis by (simp add: size_neg_def to_size_t_def nat_diff_distrib)
qed

lemma to_ptrdiff_neg [simp]:
  assumes "n \<le> 2 ^ 63"
  shows "to_ptrdiff (size_neg n) = - int n"
proof (cases "n = 0")
  case True
  then show ?thesis by (simp add: size_neg_def to_size_t_def to_ptrdiff_def)
next
  case False
  then have "size_neg n = 2 ^ 64 - n" using assms by (intro size_neg_pos) simp_all
  then show ?thesis using assms False by (simp add: to_ptrdiff_def)
qed

lemma size_shl1_id [simp]: "n < 2 ^ 63 \<Longrightarrow> size_shl1 n = 2 * n"
  by (simp add: size_shl1_def)

text \<open>
  What a lookup answers when the key is not there (\<^verbatim>\<open>util::OVERFLOW\<close> and \<^verbatim>\<open>util::NOT_FOUND\<close>): the
  largest value of its type.
\<close>

definition OVERFLOW :: u64 where "OVERFLOW = -1"
definition NOT_FOUND :: u64 where "NOT_FOUND = -1"

subsection \<open>Partition points\<close>

definition part_point :: "(int \<Rightarrow> bool) \<Rightarrow> int \<Rightarrow> int \<Rightarrow> int \<Rightarrow> bool" where
  "part_point P first last' r \<longleftrightarrow> first \<le> r \<and> r \<le> last' \<and>
     (\<forall>i. first \<le> i \<and> i < r \<longrightarrow> P i) \<and> (\<forall>i. r \<le> i \<and> i < last' \<longrightarrow> \<not> P i)"

definition partitioned :: "(int \<Rightarrow> bool) \<Rightarrow> int \<Rightarrow> int \<Rightarrow> bool" where
  "partitioned P first last' \<longleftrightarrow> (\<forall>i j. first \<le> i \<and> i \<le> j \<and> j < last' \<and> P j \<longrightarrow> P i)"

lemma partitionedD: "partitioned P a b \<Longrightarrow> P j \<Longrightarrow> a \<le> i \<Longrightarrow> i \<le> j \<Longrightarrow> j < b \<Longrightarrow> P i"
  unfolding partitioned_def by blast

lemma part_point_unique:
  assumes "part_point P a b r" and "part_point P a b s"
  shows "r = s"
proof (rule ccontr)
  assume "r \<noteq> s"
  then consider "r < s" | "s < r" by linarith
  then show False
  proof cases
    case 1
    then have "P r" "\<not> P r" using assms by (auto simp: part_point_def)
    then show False by simp
  next
    case 2
    then have "P s" "\<not> P s" using assms by (auto simp: part_point_def)
    then show False by simp
  qed
qed

lemma part_point_bounds: "part_point P a b r \<Longrightarrow> a \<le> r \<and> r \<le> b"
  by (simp add: part_point_def)

text \<open>A range may be cut on either side without moving its partition point.\<close>

lemma part_point_extend_left:
  assumes "part_point P c b r" and "a \<le> c" and "\<And>i. a \<le> i \<Longrightarrow> i < c \<Longrightarrow> P i"
  shows "part_point P a b r"
  using assms unfolding part_point_def by (metis dual_order.trans not_less)

lemma part_point_extend_right:
  assumes "part_point P a c r" and "c \<le> b" and "\<And>i. c \<le> i \<Longrightarrow> i < b \<Longrightarrow> \<not> P i"
  shows "part_point P a b r"
  using assms unfolding part_point_def by (metis dual_order.trans not_less)

lemma part_point_extend_left_part:
  assumes "part_point P (c + 1) b r" and "partitioned P a b" and "P c" and "a \<le> c" and "c < b"
  shows "part_point P a b r"
  using assms(1)
proof (rule part_point_extend_left)
  show "a \<le> c + 1" using assms(4) by simp
  show "P i" if "a \<le> i" "i < c + 1" for i
    using partitionedD [OF assms(2,3) that(1)] that assms(5) by simp
qed

lemma part_point_extend_right_part:
  assumes "part_point P a c r" and "partitioned P a b" and "\<not> P c" and "a \<le> c" and "c \<le> b"
  shows "part_point P a b r"
  using assms(1,5)
proof (rule part_point_extend_right)
  show "\<not> P i" if "c \<le> i" "i < b" for i
    using partitionedD [OF assms(2), of i c] that assms(3,4) by auto
qed

lemma partitioned_sub: "partitioned P a b \<Longrightarrow> a \<le> c \<Longrightarrow> d \<le> b \<Longrightarrow> partitioned P c d"
  unfolding partitioned_def by (meson dual_order.trans order_less_le_trans)

lemma part_point_empty: "part_point P a a a"
  by (auto simp: part_point_def)

text \<open>The executable reference: count the leading positions that satisfy \<open>P\<close>.\<close>

definition ref_point :: "(int \<Rightarrow> bool) \<Rightarrow> int \<Rightarrow> int \<Rightarrow> int" where
  "ref_point P first last' = first + int (length (takeWhile P [first..last' - 1]))"

lemma ref_point_step:
  "a < b \<Longrightarrow> ref_point P a b = (if P a then ref_point P (a + 1) b else a)"
  by (simp add: ref_point_def upto_rec1)

lemma part_point_ref:
  "a \<le> b \<Longrightarrow> partitioned P a b \<Longrightarrow> part_point P a b (ref_point P a b)"
proof (induction "nat (b - a)" arbitrary: a)
  case 0
  then have "b = a" by simp
  then show ?case by (simp add: ref_point_def part_point_empty)
next
  case (Suc n)
  then have ab: "a < b" by simp
  show ?case
  proof (cases "P a")
    case True
    have "part_point P (a + 1) b (ref_point P (a + 1) b)"
    proof (rule Suc.hyps(1))
      show "n = nat (b - (a + 1))" using Suc.hyps(2) by simp
      show "partitioned P (a + 1) b" using Suc.prems(2) by (rule partitioned_sub) simp_all
    qed (use ab in simp)
    then have "part_point P a b (ref_point P (a + 1) b)"
      by (rule part_point_extend_left_part) (use Suc.prems True ab in auto)
    then show ?thesis using ab True by (simp add: ref_point_step [of a])
  next
    case False
    then have "part_point P a b a"
      using part_point_extend_right_part [OF part_point_empty Suc.prems(2) False] ab by simp
    then show ?thesis using ab False by (simp add: ref_point_step [of a])
  qed
qed

lemma part_point_iff_ref:
  assumes "a \<le> b" and "partitioned P a b"
  shows "part_point P a b r \<longleftrightarrow> r = ref_point P a b"
  using part_point_ref [OF assms] part_point_unique by blast

subsection \<open>Readable ranges\<close>

definition readable :: "'k reader \<Rightarrow> int \<Rightarrow> int \<Rightarrow> bool" where
  "readable at first last' \<longleftrightarrow> (\<forall>i. first \<le> i \<and> i < last' \<longrightarrow> at i \<noteq> None)"

abbreviation sat :: "'k reader \<Rightarrow> ('k \<Rightarrow> bool) \<Rightarrow> int \<Rightarrow> bool" where
  "sat at P \<equiv> \<lambda>i. (case at i of None \<Rightarrow> False | Some x \<Rightarrow> P x)"

definition list_reader :: "'k list \<Rightarrow> 'k reader" where
  "list_reader xs i = (if 0 \<le> i \<and> i < int (length xs) then Some (xs ! nat i) else None)"

lemma readableE:
  assumes "readable at a b" and "a \<le> i" and "i < b"
  obtains x where "at i = Some x"
  using assms unfolding readable_def by blast

lemma readable_sub: "readable at a b \<Longrightarrow> a \<le> c \<Longrightarrow> d \<le> b \<Longrightarrow> readable at c d"
  unfolding readable_def by auto

text \<open>The test of the start position that every search begins with.\<close>

lemma start_test:
  assumes "readable at a b" and "a \<le> s" and "s \<le> b"
  shows "(if s \<noteq> b then map_option P (at s) else Some False) = Some (s < b \<and> sat at P s)"
proof (cases "s = b")
  case False
  then have "s < b" using assms(3) by simp
  with assms obtain x where "at s = Some x" by (rule_tac readableE)
  with \<open>s < b\<close> show ?thesis by simp
qed simp

lemma start_test_upper:
  assumes "readable at a b" and "a \<le> s" and "s \<le> b"
  shows "(if s = b then Some True else map_option P (at s)) = Some (\<not> (s < b \<and> sat at (\<lambda>x. \<not> P x) s))"
proof (cases "s = b")
  case False
  then have "s < b" using assms(3) by simp
  with assms obtain x where "at s = Some x" by (rule_tac readableE)
  with \<open>s < b\<close> show ?thesis by simp
qed simp

text \<open>A search that continues on the side of the start position that the test selects.\<close>

lemma from_start_point:
  assumes "partitioned Q a b" and "a \<le> s" and "s \<le> b"
    and "s < b \<Longrightarrow> Q s \<Longrightarrow> \<exists>r. right = Some r \<and> part_point Q (s + 1) b r"
    and "\<exists>r. left = Some r \<and> part_point Q a s r"
  shows "\<exists>r. (if s < b \<and> Q s then right else left) = Some r \<and> part_point Q a b r"
proof (cases "s < b \<and> Q s")
  case True
  then obtain r where r: "right = Some r" "part_point Q (s + 1) b r" using assms(4) by blast
  have "part_point Q a b r"
    using r(2) assms(1) by (rule part_point_extend_left_part) (use True assms(2) in auto)
  with True r(1) show ?thesis by simp
next
  case False
  obtain r where r: "left = Some r" "part_point Q a s r" using assms(5) by blast
  have "part_point Q a b r"
  proof (cases "s = b")
    case ne: False
    with False assms(3) have "\<not> Q s" by auto
    with r(2) assms(1) show ?thesis using assms(2,3) by (rule part_point_extend_right_part)
  qed (use r in simp)
  with False r(1) show ?thesis by auto
qed

lemma readable_list_reader:
  "0 \<le> a \<Longrightarrow> b \<le> int (length xs) \<Longrightarrow> readable (list_reader xs) a b"
  by (auto simp: readable_def list_reader_def)

lemma list_reader_nth [simp]: "i < length xs \<Longrightarrow> list_reader xs (int i) = Some (xs ! i)"
  by (simp add: list_reader_def)

text \<open>On a whole array the reference counts the leading elements.\<close>

lemma ref_point_list:
  assumes "b = int (length xs)"
  shows "ref_point (sat (list_reader xs) P) 0 b = int (length (takeWhile P xs))"
proof -
  have "[0..b - 1] = map int [0..<length xs]" 
    by (rule nth_equalityI) (use assms in auto)
  moreover have "takeWhile (sat (list_reader xs) P \<circ> int) [0..<length xs] =
      takeWhile (P \<circ> nth xs) [0..<length xs]"
    by (rule takeWhile_cong) auto
  moreover have "length (takeWhile (P \<circ> nth xs) [0..<length xs]) =
      length (takeWhile P (map (nth xs) [0..<length xs]))"
    by (simp add: takeWhile_map)
  ultimately show ?thesis by (simp add: ref_point_def takeWhile_map map_nth)
qed

end
