(* ===== verification/Search_Class.thy ===== *)
theory Search_Class
  imports Prelude
begin

text \<open>
  The interface of the search classes (\<^verbatim>\<open>src/searches/search.h\<close>): the statistics that
  \<^verbatim>\<open>Search<record>\<close> keeps, and the contract of \<^verbatim>\<open>lower_bound\<close> and \<^verbatim>\<open>upper_bound\<close> that every
  index of the testbed relies on, stated as the locale \<open>search_class\<close> and interpreted for each
  search class in the theory that models it.
\<close>

subsection \<open>Statistics\<close>

text \<open>
  The static members of \<^verbatim>\<open>Search<1>\<close> and \<^verbatim>\<open>Search<2>\<close>; \<^verbatim>\<open>Search<0>\<close> has none, so that with
  \<open>rec = 0\<close> the state is not touched. The clock is not modelled: the elapsed time of a
  search is the argument \<open>elapsed\<close>.
\<close>

record search_stat =
  timing :: u64
  search_num :: u64
  sum_search_bound :: u64
  research_num :: u64

definition initSearch :: "int \<Rightarrow> search_stat \<Rightarrow> search_stat" where
  "initSearch rec st =
     (if rec = 0 then st
      else st\<lparr>timing := 0, search_num := 0, sum_search_bound := 0, research_num := 0\<rparr>)"

definition record_end :: "int \<Rightarrow> int \<Rightarrow> int \<Rightarrow> u64 \<Rightarrow> search_stat \<Rightarrow> search_stat" where
  "record_end rec start actual elapsed st =
     (let st1 = (if rec \<noteq> 0
                 then st\<lparr>sum_search_bound := sum_search_bound st + word_of_int \<bar>actual - start\<bar>,
                         research_num := research_num st + 1\<rparr>
                 else st)
      in if rec = 2 then st1\<lparr>timing := timing st1 + elapsed, search_num := search_num st1 + 1\<rparr>
         else if rec = 1 then st1\<lparr>timing := timing st1 + elapsed, search_num := search_num st1 + 1\<rparr>
         else st1)"

text \<open>
  A sequence of calls of a search on one range, each with its key, its start position and its
  elapsed time: every call ends with \<^verbatim>\<open>record_end(start, it)\<close> on the position it returns (on an
  empty range the code records \<^verbatim>\<open>(first, first)\<close>, where \<open>start\<close> is \<open>first\<close> too).
\<close>

fun recorded_searches ::
    "(int \<Rightarrow> int \<Rightarrow> 'k \<Rightarrow> int \<Rightarrow> 'k reader \<Rightarrow> int option) \<Rightarrow> int \<Rightarrow> int \<Rightarrow> int \<Rightarrow> 'k reader
      \<Rightarrow> ('k \<times> int \<times> u64) list \<Rightarrow> search_stat \<Rightarrow> (int list \<times> search_stat) option" where
  "recorded_searches search rec first last' at [] st = Some ([], st)"
| "recorded_searches search rec first last' at ((key, start, elapsed) # qs) st = do {
     it \<leftarrow> search first last' key start at;
     (its, st') \<leftarrow> recorded_searches search rec first last' at qs (record_end rec start it elapsed st);
     Some (it # its, st')
   }"

definition searchTotalTime :: "int \<Rightarrow> search_stat \<Rightarrow> u64" where
  "searchTotalTime rec st = (if rec = 0 then 0 else timing st)"

text \<open>A run of searches, each given by its start, its result and its elapsed time.\<close>

fun record_run :: "int \<Rightarrow> (int \<times> int \<times> u64) list \<Rightarrow> search_stat \<Rightarrow> search_stat" where
  "record_run rec [] st = st"
| "record_run rec ((start, actual, elapsed) # es) st =
     record_run rec es (record_end rec start actual elapsed st)"

lemma record_run_sums:
  assumes "rec = 1 \<or> rec = 2"
  shows "sum_search_bound (record_run rec es st) =
           sum_search_bound st + (\<Sum>(s, a, e)\<leftarrow>es. word_of_int \<bar>a - s\<bar>)
       \<and> timing (record_run rec es st) = timing st + (\<Sum>(s, a, e)\<leftarrow>es. e)
       \<and> research_num (record_run rec es st) = research_num st + of_nat (length es)
       \<and> search_num (record_run rec es st) = search_num st + of_nat (length es)"
  using assms
proof (induction es arbitrary: st)
  case (Cons e es)
  obtain s a t where "e = (s, a, t)" by (cases e)
  with Cons show ?case by (auto simp: record_end_def algebra_simps)
qed simp

lemma record_run_off: "record_run 0 es st = st"
  by (induction es arbitrary: st) (auto simp: record_end_def)

subsection \<open>The contract of a search\<close>

definition sorted_range :: "'k::linorder reader \<Rightarrow> int \<Rightarrow> int \<Rightarrow> bool" where
  "sorted_range at first last' \<longleftrightarrow>
     (\<forall>i j x y. first \<le> i \<and> i \<le> j \<and> j < last' \<and> at i = Some x \<and> at j = Some y \<longrightarrow> x \<le> y)"

lemma sorted_rangeD:
  "sorted_range at a b \<Longrightarrow> at i = Some x \<Longrightarrow> at j = Some y \<Longrightarrow> a \<le> i \<Longrightarrow> i \<le> j \<Longrightarrow> j < b \<Longrightarrow> x \<le> y"
  unfolding sorted_range_def by blast

lemma sorted_range_sub: "sorted_range at a b \<Longrightarrow> a \<le> c \<Longrightarrow> d \<le> b \<Longrightarrow> sorted_range at c d"
  unfolding sorted_range_def by (meson order.trans order_less_le_trans)

text \<open>
  What a caller provides: a start position inside the range, a range whose elements can be
  read and are sorted, and a length that a \<open>double\<close> represents exactly (\<open>2 ^ 53\<close> elements are more
  than any address space holds).
\<close>

definition search_pre :: "'k::linorder reader \<Rightarrow> int \<Rightarrow> int \<Rightarrow> int \<Rightarrow> bool" where
  "search_pre at first last' start \<longleftrightarrow>
     first \<le> start \<and> start \<le> last' \<and> last' - first \<le> 2 ^ 53 \<and>
     readable at first last' \<and> sorted_range at first last'"

abbreviation below :: "'k::linorder reader \<Rightarrow> 'k \<Rightarrow> int \<Rightarrow> bool" where
  "below at key \<equiv> sat at (\<lambda>x. x < key)"

abbreviation upto_key :: "'k::linorder reader \<Rightarrow> 'k \<Rightarrow> int \<Rightarrow> bool" where
  "upto_key at key \<equiv> sat at (\<lambda>x. \<not> key < x)"

lemma partitioned_below:
  assumes "readable at a b" and "sorted_range at a b"
  shows "partitioned (below at key) a b"
  unfolding partitioned_def
proof (intro allI impI)
  fix i j assume h: "a \<le> i \<and> i \<le> j \<and> j < b \<and> below at key j"
  obtain x y where "at i = Some x" "at j = Some y"
    using assms(1) h by (meson order_le_less_trans order_trans readableE)
  moreover have "x \<le> y" using assms(2) h calculation unfolding sorted_range_def by blast
  ultimately show "below at key i" using h by auto
qed

lemma partitioned_upto:
  assumes "readable at a b" and "sorted_range at a b"
  shows "partitioned (upto_key at key) a b"
  unfolding partitioned_def
proof (intro allI impI)
  fix i j assume h: "a \<le> i \<and> i \<le> j \<and> j < b \<and> upto_key at key j"
  obtain x y where "at i = Some x" "at j = Some y"
    using assms(1) h by (meson order_le_less_trans order_trans readableE)
  moreover have "x \<le> y" using assms(2) h calculation unfolding sorted_range_def by blast
  ultimately show "upto_key at key i" using h by auto
qed

lemma search_pre_partitioned:
  assumes "search_pre at a b s"
  shows "partitioned (below at key) a b" and "partitioned (upto_key at key) a b"
  using assms partitioned_below partitioned_upto by (auto simp: search_pre_def)

lemma search_pre_list:
  assumes "sorted xs" and "0 \<le> a" and "a \<le> s" and "s \<le> b" and "b \<le> int (length xs)"
    and "length xs \<le> 2 ^ 53"
  shows "search_pre (list_reader xs) a b s"
proof -
  have "int (length xs) \<le> 2 ^ 53" using assms(6) by simp
  then have len: "b - a \<le> 2 ^ 53" using assms(2,5) by linarith
  show ?thesis
    unfolding search_pre_def
  proof (intro conjI)
    show "sorted_range (list_reader xs) a b"
      using assms by (auto simp: sorted_range_def list_reader_def intro: sorted_nth_mono)
    show "readable (list_reader xs) a b" using assms by (auto intro: readable_list_reader)
  qed (use assms len in auto)
qed

text \<open>The window that a learned index passes to a search: \<^verbatim>\<open>[lo, hi)\<close> around the position \<^verbatim>\<open>pos\<close>.\<close>

record ApproxPos =
  ap_pos :: nat
  ap_lo :: nat
  ap_hi :: nat

text \<open>The position that the search has to find: the lower bound of a key in all keys.\<close>

definition key_position :: "'k::linorder list \<Rightarrow> 'k \<Rightarrow> nat" where
  "key_position keys k = length (takeWhile (\<lambda>x. x < k) keys)"

lemma key_position:
  assumes "sorted keys"
  shows "key_position keys k \<le> length keys" "j < key_position keys k \<Longrightarrow> keys ! j < k"
    and "key_position keys k \<le> j \<Longrightarrow> j < length keys \<Longrightarrow> k \<le> keys ! j"
    and "k \<in> set keys \<Longrightarrow> key_position keys k < length keys \<and> keys ! key_position keys k = k"
proof -
  show len: "key_position keys k \<le> length keys" unfolding key_position_def by (rule length_takeWhile_le)
  show below: "keys ! j < k" if "j < key_position keys k" for j
    using that set_takeWhileD [of "keys ! j" "\<lambda>x. x < k" keys] nth_mem [of j "takeWhile (\<lambda>x. x < k) keys"]
    by (auto simp: key_position_def takeWhile_nth)
  show above: "k \<le> keys ! j" if "key_position keys k \<le> j" "j < length keys" for j
  proof -
    have "key_position keys k < length keys" using that by simp
    then have "\<not> keys ! key_position keys k < k" unfolding key_position_def by (rule nth_length_takeWhile)
    then show ?thesis using sorted_nth_mono [OF assms that] by simp
  qed
  show "key_position keys k < length keys \<and> keys ! key_position keys k = k" if mem: "k \<in> set keys"
  proof -
    obtain i where i: "i < length keys" "keys ! i = k" using mem unfolding in_set_conv_nth by blast
    have "key_position keys k \<le> i" using below [of i] i by (meson less_irrefl not_le)
    then have "key_position keys k < length keys" "keys ! key_position keys k \<le> k"
      using i sorted_nth_mono [OF assms \<open>key_position keys k \<le> i\<close>] by auto
    then show ?thesis using above [OF order_refl] by auto
  qed
qed

type_synonym 'k search = "int \<Rightarrow> int \<Rightarrow> 'k \<Rightarrow> int \<Rightarrow> 'k reader \<Rightarrow> int option"

locale search_class =
  fixes lower_bound :: "int \<Rightarrow> int \<Rightarrow> 'k::linorder \<Rightarrow> int \<Rightarrow> 'k reader \<Rightarrow> int option"
    and upper_bound :: "int \<Rightarrow> int \<Rightarrow> 'k \<Rightarrow> int \<Rightarrow> 'k reader \<Rightarrow> int option"
  assumes lower_bound_point: "search_pre at first last' start \<Longrightarrow>
      \<exists>r. lower_bound first last' key start at = Some r \<and>
          part_point (below at key) first last' r"
    and upper_bound_point: "search_pre at first last' start \<Longrightarrow>
      \<exists>r. upper_bound first last' key start at = Some r \<and>
          part_point (upto_key at key) first last' r"
begin

text \<open>Every search class returns the same position, whatever the start position.\<close>

lemma lower_bound_ref:
  assumes "search_pre at first last' start"
  shows "lower_bound first last' key start at = Some (ref_point (below at key) first last')"
proof -
  obtain r where r: "lower_bound first last' key start at = Some r"
      "part_point (below at key) first last' r"
    using lower_bound_point [OF assms] by blast
  have "first \<le> last'" using assms by (simp add: search_pre_def)
  with r(2) have "r = ref_point (below at key) first last'"
    using part_point_iff_ref search_pre_partitioned(1) [OF assms] by blast
  with r(1) show ?thesis by simp
qed

lemma upper_bound_ref:
  assumes "search_pre at first last' start"
  shows "upper_bound first last' key start at = Some (ref_point (upto_key at key) first last')"
proof -
  obtain r where r: "upper_bound first last' key start at = Some r"
      "part_point (upto_key at key) first last' r"
    using upper_bound_point [OF assms] by blast
  have "first \<le> last'" using assms by (simp add: search_pre_def)
  with r(2) have "r = ref_point (upto_key at key) first last'"
    using part_point_iff_ref search_pre_partitioned(2) [OF assms] by blast
  with r(1) show ?thesis by simp
qed

text \<open>What a sequence of lower-bound searches returns and what it adds to the statistics.\<close>

lemma recorded_lower_bounds:
  assumes "\<forall>(key, start, elapsed)\<in>set qs. search_pre at first last' start"
  shows "recorded_searches lower_bound rec first last' at qs st =
    Some (map (\<lambda>(key, start, elapsed). ref_point (below at key) first last') qs,
          record_run rec (map (\<lambda>(key, start, elapsed).
            (start, ref_point (below at key) first last', elapsed)) qs) st)"
  using assms
proof (induction qs arbitrary: st)
  case (Cons q qs)
  obtain key start elapsed where q: "q = (key, start, elapsed)" by (cases q)
  with Cons.prems have "search_pre at first last' start" by auto
  with Cons q show ?case by (simp add: lower_bound_ref)
qed simp

end

text \<open>
  A search in a window that does not begin after the position of the key finds that position, or the end of the window when the window
  ends before it.
\<close>

lemma window_search:
  assumes "search_class lb ub" and srt: "sorted keys" and "length keys \<le> 2 ^ 53"
    and w: "lo \<le> at'" "at' \<le> hi" "hi \<le> length keys" and lo: "lo \<le> key_position keys k"
  shows "lb (int lo) (int hi) k (int at') (list_reader keys) = Some (int (min hi (key_position keys k)))"
proof -
  let ?rd = "list_reader keys" and ?t = "key_position keys k"
  note t = key_position [OF srt, where k = k]
  have pre: "search_pre ?rd (int lo) (int hi) (int at')" using w assms(3) by (intro search_pre_list [OF srt]) auto
  have at: "below ?rd k (int j) \<longleftrightarrow> j < ?t" if "j < length keys" for j
    using t(2) [of j] t(3) [of j] that by (auto simp: not_less [symmetric])
  have "part_point (below ?rd k) (int lo) (int hi) (int (min hi ?t))"
    unfolding part_point_def
  proof (intro conjI allI impI)
    fix i assume i: "int lo \<le> i \<and> i < int (min hi ?t)"
    then obtain j where "i = int j" using nonneg_int_cases [of i] by fastforce
    then show "below ?rd k i" using at [of j] i w(3) by simp
  next
    fix i assume i: "int (min hi ?t) \<le> i \<and> i < int hi"
    then obtain j where "i = int j" using nonneg_int_cases [of i] by fastforce
    then show "\<not> below ?rd k i" using at [of j] i w(3) by (auto simp: min_def split: if_splits)
  qed (use w lo in auto)
  then show ?thesis
    using search_class.lower_bound_point [OF assms(1) pre, of k] part_point_unique by metis
qed

end
