(* ===== verification/Linear_Search.thy ===== *)
theory Linear_Search
  imports Search_Class
begin

text \<open>
  \<^verbatim>\<open>LinearSearch\<close> (\<^verbatim>\<open>src/searches/linear_search.h\<close>): a scan away from the start position. The
  loops compare iterators with \<^verbatim>\<open>!=\<close>, so they are partial functions: a scan that leaves the
  range, or does not stop, has the value \<open>None\<close>.
\<close>

partial_function (option) scan_forward ::
    "('k \<Rightarrow> bool) \<Rightarrow> 'k reader \<Rightarrow> int \<Rightarrow> int \<Rightarrow> int option" where
  "scan_forward P at it last' =
     (if it \<noteq> last'
      then Option.bind (at it) (\<lambda>x. if P x then scan_forward P at (it + 1) last' else Some it)
      else Some it)"

partial_function (option) scan_backward ::
    "('k \<Rightarrow> bool) \<Rightarrow> 'k reader \<Rightarrow> int \<Rightarrow> int \<Rightarrow> int option" where
  "scan_backward P at it first =
     (if it \<noteq> first
      then Option.bind (at (it - 1))
             (\<lambda>x. if P x then Some (it - 1) else scan_backward P at (it - 1) first)
      else Some it)"

definition LinearSearch_lower_bound ::
    "int \<Rightarrow> int \<Rightarrow> 'k \<Rightarrow> int \<Rightarrow> 'k reader \<Rightarrow> ('k \<Rightarrow> 'k \<Rightarrow> bool) \<Rightarrow> int option" where
  "LinearSearch_lower_bound first last' lookup_key start at lt =
     (if first = last' then Some first
      else do {
        forward \<leftarrow> (if start \<noteq> last' then map_option (\<lambda>x. lt x lookup_key) (at start)
                     else Some False);
        if forward then scan_forward (\<lambda>x. lt x lookup_key) at (start + 1) last'
        else do {
          it \<leftarrow> scan_backward (\<lambda>x. lt x lookup_key) at start first;
          x \<leftarrow> at it;
          Some (if lt x lookup_key then it + 1 else it)
        }
      })"

definition LinearSearch_upper_bound ::
    "int \<Rightarrow> int \<Rightarrow> 'k \<Rightarrow> int \<Rightarrow> 'k reader \<Rightarrow> ('k \<Rightarrow> 'k \<Rightarrow> bool) \<Rightarrow> int option" where
  "LinearSearch_upper_bound first last' lookup_key start at lt =
     (if first = last' then Some first
      else do {
        backward \<leftarrow> (if start = last' then Some True
                      else map_option (\<lambda>x. lt lookup_key x) (at start));
        if backward then do {
          it \<leftarrow> scan_backward (\<lambda>x. \<not> lt lookup_key x) at start first;
          x \<leftarrow> at it;
          Some (if \<not> lt lookup_key x then it + 1 else it)
        }
        else scan_forward (\<lambda>x. \<not> lt lookup_key x) at (start + 1) last'
      })"

subsection \<open>The scans\<close>

lemma scan_forward_point:
  assumes "it \<le> b" and "readable at it b" and "partitioned (sat at P) it b"
  shows "\<exists>r. scan_forward P at it b = Some r \<and> part_point (sat at P) it b r"
  using assms
proof (induction "nat (b - it)" arbitrary: it)
  case 0
  then have "it = b" by simp
  then show ?case by (simp add: scan_forward.simps [of P at b] part_point_empty)
next
  case (Suc n)
  then have lt: "it < b" by simp
  obtain x where x: "at it = Some x" using readableE [OF Suc.prems(2) order_refl lt] by blast
  show ?case
  proof (cases "P x")
    case True
    have "\<exists>r. scan_forward P at (it + 1) b = Some r \<and> part_point (sat at P) (it + 1) b r"
    proof (rule Suc.hyps(1))
      show "n = nat (b - (it + 1))" using Suc.hyps(2) by simp
      show "readable at (it + 1) b" using Suc.prems(2) by (rule readable_sub) simp_all
      show "partitioned (sat at P) (it + 1) b" using Suc.prems(3) by (rule partitioned_sub) simp_all
    qed (use lt in simp)
    then obtain r where "scan_forward P at (it + 1) b = Some r" and
      r: "part_point (sat at P) (it + 1) b r" by blast
    moreover have "part_point (sat at P) it b r"
      using r Suc.prems(3) by (rule part_point_extend_left_part) (use x True lt in auto)
    ultimately show ?thesis using lt x True by (simp add: scan_forward.simps [of P at it])
  next
    case False
    have "part_point (sat at P) it b it"
      using part_point_empty Suc.prems(3)
      by (rule part_point_extend_right_part) (use x False lt in auto)
    then show ?thesis using lt x False by (simp add: scan_forward.simps [of P at it])
  qed
qed

text \<open>The backward scan stops just after the partition point, or at the first position.\<close>

lemma scan_backward_stop:
  assumes "a \<le> it" and "it \<le> b" and "readable at a it"
  shows "\<exists>r. scan_backward P at it a = Some r \<and> a \<le> r \<and> r \<le> it \<and>
     (\<forall>i. r < i \<and> i < it \<longrightarrow> \<not> sat at P i) \<and> (r = a \<or> r < it \<and> sat at P r)
     \<and> (r < it \<and> \<not> sat at P r \<longrightarrow> r = a)"
  using assms
proof (induction "nat (it - a)" arbitrary: it)
  case 0
  then have "it = a" by simp
  then show ?case by (auto simp: scan_backward.simps [of P at a])
next
  case (Suc n)
  then have lt: "a < it" by simp
  obtain x where x: "at (it - 1) = Some x"
    using readableE [OF Suc.prems(3), of "it - 1"] lt by auto
  show ?case
  proof (cases "P x")
    case True
    then show ?thesis using lt x by (auto simp: scan_backward.simps [of P at it])
  next
    case False
    have "\<exists>r. scan_backward P at (it - 1) a = Some r \<and> a \<le> r \<and> r \<le> it - 1 \<and>
       (\<forall>i. r < i \<and> i < it - 1 \<longrightarrow> \<not> sat at P i) \<and> (r = a \<or> r < it - 1 \<and> sat at P r)
       \<and> (r < it - 1 \<and> \<not> sat at P r \<longrightarrow> r = a)"
    proof (rule Suc.hyps(1))
      show "n = nat (it - 1 - a)" using Suc.hyps(2) by simp
      show "readable at a (it - 1)" using Suc.prems(3) by (rule readable_sub) simp_all
    qed (use lt Suc.prems in auto)
    then obtain r where r: "scan_backward P at (it - 1) a = Some r" "a \<le> r" "r \<le> it - 1"
      "\<forall>i. r < i \<and> i < it - 1 \<longrightarrow> \<not> sat at P i" "r = a \<or> r < it - 1 \<and> sat at P r" by blast
    have "\<forall>i. r < i \<and> i < it \<longrightarrow> \<not> sat at P i"
    proof (intro allI impI)
      fix i assume "r < i \<and> i < it"
      then show "\<not> sat at P i" using r(4) x False by (cases "i = it - 1") auto
    qed
    then show ?thesis using r lt x False by (auto simp: scan_backward.simps [of P at it])
  qed
qed

lemma backward_point:
  assumes "a \<le> s" and "s \<le> b" and "a < b" and rd: "readable at a b"
    and pt: "partitioned (sat at P) a b" and stop: "s < b \<Longrightarrow> \<not> sat at P s"
  shows "\<exists>r. (do { it \<leftarrow> scan_backward P at s a; x \<leftarrow> at it; Some (if P x then it + 1 else it) })
      = Some r \<and> part_point (sat at P) a b r"
proof -
  obtain r where r: "scan_backward P at s a = Some r" "a \<le> r" "r \<le> s"
      "\<forall>i. r < i \<and> i < s \<longrightarrow> \<not> sat at P i" "r = a \<or> r < s \<and> sat at P r"
    using scan_backward_stop [OF assms(1,2), of at P] readable_sub [OF rd order_refl assms(2)]
    by blast
  have rb: "r < b" using r assms by auto
  obtain x where x: "at r = Some x" using readableE [OF rd r(2) rb] by blast
  have above: "\<not> sat at P i" if "r < i" "i < b" for i
  proof (cases "i < s")
    case True then show ?thesis using r(4) that by blast
  next
    case False
    then have "s < b" using that by simp
    then show ?thesis using stop partitionedD [OF pt _ \<open>a \<le> s\<close>, of i] False that by auto
  qed
  show ?thesis
  proof (cases "P x")
    case True
    have "part_point (sat at P) a b (r + 1)"
      unfolding part_point_def
      using r rb above partitionedD [OF pt, of r] x True by auto
    then show ?thesis using r(1) x True by simp
  next
    case False
    then have "r = a" using r(5) x by auto
    then have "part_point (sat at P) a b r"
      unfolding part_point_def
    proof (intro conjI allI impI)
      fix i assume "r \<le> i \<and> i < b"
      then show "\<not> sat at P i" using above x False by (cases "i = r") auto
    qed (use \<open>r = a\<close> rb in auto)
    then show ?thesis using r(1) x False by simp
  qed
qed

subsection \<open>The two searches, for any comparison\<close>

lemma LinearSearch_lower_bound_point:
  assumes "a \<le> s" and "s \<le> b" and rd: "readable at a b"
    and pt: "partitioned (sat at (\<lambda>x. lt x key)) a b"
  shows "\<exists>r. LinearSearch_lower_bound a b key s at lt = Some r \<and>
             part_point (sat at (\<lambda>x. lt x key)) a b r"
proof -
  let ?P = "\<lambda>x. lt x key"
  consider "a = b" | "a < b" "s < b" "sat at ?P s" | "a < b" "s < b \<longrightarrow> \<not> sat at ?P s"
    using assms by force
  then show ?thesis
  proof cases
    case 1
    then show ?thesis by (simp add: LinearSearch_lower_bound_def part_point_empty)
  next
    case 2
    obtain r where r: "scan_forward ?P at (s + 1) b = Some r" "part_point (sat at ?P) (s + 1) b r"
      using scan_forward_point [OF _ readable_sub [OF rd] partitioned_sub [OF pt], of "s + 1" b]
        2 assms(1) by auto
    have "part_point (sat at ?P) a b r"
      using r(2) pt 2(3) assms(1) 2(2) by (rule part_point_extend_left_part)
    then show ?thesis
      unfolding LinearSearch_lower_bound_def start_test [OF rd assms(1,2)] using 2 r(1) by simp
  next
    case 3
    have "\<exists>r. (do { it \<leftarrow> scan_backward ?P at s a; x \<leftarrow> at it;
        Some (if ?P x then it + 1 else it) }) = Some r \<and> part_point (sat at ?P) a b r"
      using assms(1,2) 3(1) rd pt by (rule backward_point) (use 3 in blast)
    then show ?thesis
      unfolding LinearSearch_lower_bound_def start_test [OF rd assms(1,2)] using 3 by auto
  qed
qed

text \<open>
  The upper bound is the lower bound of the complementary comparison: the two branches of the
  code are swapped, but each does the same.
\<close>

lemma LinearSearch_upper_is_lower:
  "LinearSearch_upper_bound a b key s at lt =
   LinearSearch_lower_bound a b key s at (\<lambda>x k. \<not> lt k x)"
  unfolding LinearSearch_upper_bound_def LinearSearch_lower_bound_def
  by (cases "at s") (auto cong: option.case_cong)

lemma LinearSearch_upper_bound_point:
  assumes "a \<le> s" and "s \<le> b" and "readable at a b"
    and "partitioned (sat at (\<lambda>x. \<not> lt key x)) a b"
  shows "\<exists>r. LinearSearch_upper_bound a b key s at lt = Some r \<and>
             part_point (sat at (\<lambda>x. \<not> lt key x)) a b r"
  unfolding LinearSearch_upper_is_lower using assms by (rule LinearSearch_lower_bound_point)

interpretation linear: search_class
  "\<lambda>a b key s at. LinearSearch_lower_bound a b key s at (<)"
  "\<lambda>a b key s at. LinearSearch_upper_bound a b key s at (<)"
proof unfold_locales
  fix at :: "'a::linorder reader" and a b s :: int and key
  assume pre: "search_pre at a b s"
  show "\<exists>r. LinearSearch_lower_bound a b key s at (<) = Some r \<and> part_point (below at key) a b r"
    using pre search_pre_partitioned(1) [OF pre]
    by (intro LinearSearch_lower_bound_point) (auto simp: search_pre_def)
  show "\<exists>r. LinearSearch_upper_bound a b key s at (<) = Some r \<and> part_point (upto_key at key) a b r"
    using pre search_pre_partitioned(2) [OF pre]
    by (intro LinearSearch_upper_bound_point) (auto simp: search_pre_def)
qed

subsection \<open>Correctness\<close>

text \<open>On a sorted range that can be read, and from any start position in it, the linear
  search returns: \<open>lower_bound\<close> the first position whose key is not below the lookup key, and
  \<open>upper_bound\<close> the first position whose key is above it.\<close>

theorem linear_search_correct:
  assumes "search_pre at' first last' start"
  shows "LinearSearch_lower_bound first last' key start at' (<) = Some (ref_point (below at' key) first last') \<and>
         LinearSearch_upper_bound first last' key start at' (<) = Some (ref_point (upto_key at' key) first last')"
  using linear.lower_bound_ref [OF assms] linear.upper_bound_ref [OF assms] by simp

text \<open>The same on the array \<open>2, 5, 5, 9\<close>.\<close>

theorem linear_search_correct_witness:
  "LinearSearch_lower_bound 0 4 5 3 (list_reader [2, 5, 5, 9::nat]) (<) = Some 1 \<and>
   LinearSearch_upper_bound 0 4 5 3 (list_reader [2, 5, 5, 9::nat]) (<) = Some 3"
proof -
  have "search_pre (list_reader [2, 5, 5, 9::nat]) 0 4 3"
    by (rule search_pre_list) auto
  from linear_search_correct [OF this, of 5] show ?thesis
    by (simp add: ref_point_list)
qed

end
