(* ===== verification/Binary_Search.thy ===== *)
theory Binary_Search
  imports Search_Class
begin

text \<open>
  \<^verbatim>\<open>BranchingBinarySearch\<close> (\<^verbatim>\<open>src/searches/branching_binary_search.h\<close>). The private
  \<^verbatim>\<open>lower_bound_\<close> and \<^verbatim>\<open>upper_bound_\<close> halve the length of the range, a \<^verbatim>\<open>size_t\<close>; the public
  functions first test the start position and search one of the two sides.
\<close>

fun bisect_lower :: "int \<Rightarrow> nat \<Rightarrow> 'k \<Rightarrow> 'k reader \<Rightarrow> ('k \<Rightarrow> 'k \<Rightarrow> bool) \<Rightarrow> int option" where
  "bisect_lower first len lookup_key at lt =
     (if len > 0 then
        let half = len div 2; middle = first + int half
        in Option.bind (at middle)
             (\<lambda>x. if lt x lookup_key
                   then bisect_lower (middle + 1) (len - half - 1) lookup_key at lt
                   else bisect_lower first half lookup_key at lt)
      else Some first)"

fun bisect_upper :: "int \<Rightarrow> nat \<Rightarrow> 'k \<Rightarrow> 'k reader \<Rightarrow> ('k \<Rightarrow> 'k \<Rightarrow> bool) \<Rightarrow> int option" where
  "bisect_upper first len lookup_key at lt =
     (if len > 0 then
        let half = len div 2; middle = first + int half
        in Option.bind (at middle)
             (\<lambda>x. if lt lookup_key x
                   then bisect_upper first half lookup_key at lt
                   else bisect_upper (middle + 1) (len - half - 1) lookup_key at lt)
      else Some first)"

declare bisect_lower.simps [simp del] bisect_upper.simps [simp del]

definition BranchingBinarySearch_lower_bound_range ::
    "int \<Rightarrow> int \<Rightarrow> 'k \<Rightarrow> 'k reader \<Rightarrow> ('k \<Rightarrow> 'k \<Rightarrow> bool) \<Rightarrow> int option" where
  "BranchingBinarySearch_lower_bound_range first last' lookup_key at lt =
     bisect_lower first (to_size_t (last' - first)) lookup_key at lt"

definition BranchingBinarySearch_upper_bound_range ::
    "int \<Rightarrow> int \<Rightarrow> 'k \<Rightarrow> 'k reader \<Rightarrow> ('k \<Rightarrow> 'k \<Rightarrow> bool) \<Rightarrow> int option" where
  "BranchingBinarySearch_upper_bound_range first last' lookup_key at lt =
     bisect_upper first (to_size_t (last' - first)) lookup_key at lt"

definition BranchingBinarySearch_lower_bound ::
    "int \<Rightarrow> int \<Rightarrow> 'k \<Rightarrow> int \<Rightarrow> 'k reader \<Rightarrow> ('k \<Rightarrow> 'k \<Rightarrow> bool) \<Rightarrow> int option" where
  "BranchingBinarySearch_lower_bound first last' lookup_key start at lt = do {
     right \<leftarrow> (if start \<noteq> last' then map_option (\<lambda>x. lt x lookup_key) (at start)
                else Some False);
     if right then BranchingBinarySearch_lower_bound_range (start + 1) last' lookup_key at lt
     else BranchingBinarySearch_lower_bound_range first start lookup_key at lt
   }"

definition BranchingBinarySearch_upper_bound ::
    "int \<Rightarrow> int \<Rightarrow> 'k \<Rightarrow> int \<Rightarrow> 'k reader \<Rightarrow> ('k \<Rightarrow> 'k \<Rightarrow> bool) \<Rightarrow> int option" where
  "BranchingBinarySearch_upper_bound first last' lookup_key start at lt = do {
     left \<leftarrow> (if start = last' then Some True
               else map_option (\<lambda>x. lt lookup_key x) (at start));
     if left then BranchingBinarySearch_upper_bound_range first start lookup_key at lt
     else BranchingBinarySearch_upper_bound_range (start + 1) last' lookup_key at lt
   }"

subsection \<open>Bisection\<close>

lemma bisect_0 [simp]: "bisect_lower a 0 key at lt = Some a" "bisect_upper a 0 key at lt = Some a"
  by (simp_all add: bisect_lower.simps bisect_upper.simps)

lemma bisect_lower_point:
  assumes "readable at a (a + int n)" and "partitioned (sat at (\<lambda>x. lt x key)) a (a + int n)"
  shows "\<exists>r. bisect_lower a n key at lt = Some r \<and>
             part_point (sat at (\<lambda>x. lt x key)) a (a + int n) r"
  using assms
proof (induction n arbitrary: a rule: less_induct)
  case (less n)
  let ?P = "sat at (\<lambda>x. lt x key)" and ?b = "a + int n" and ?h = "n div 2"
  let ?m = "a + int ?h"
  note rd = less.prems(1) and pt = less.prems(2)
  show ?case
  proof (cases "n = 0")
    case True
    then show ?thesis by (simp add: part_point_empty)
  next
    case False
    then have h: "?h < n" by simp
    then have m: "a \<le> ?m" "?m < ?b" by simp_all
    obtain x where x: "at ?m = Some x" using readableE [OF rd m] by blast
    show ?thesis
    proof (cases "lt x key")
      case True
      let ?n = "n - ?h - 1"
      have end_eq: "?m + 1 + int ?n = ?b" using h by simp
      have "\<exists>r. bisect_lower (?m + 1) ?n key at lt = Some r \<and>
                part_point ?P (?m + 1) (?m + 1 + int ?n) r"
        by (rule less.IH, use False in simp)
          (use rd pt in \<open>unfold end_eq, auto intro: readable_sub partitioned_sub\<close>)
      then obtain r where "bisect_lower (?m + 1) ?n key at lt = Some r"
          and r: "part_point ?P (?m + 1) ?b r" unfolding end_eq by blast
      moreover have "part_point ?P a ?b r"
        using r pt by (rule part_point_extend_left_part) (use x True m in auto)
      ultimately show ?thesis
        using False x True by (simp add: bisect_lower.simps [of a n] Let_def)
    next
      case lt: False
      have "\<exists>r. bisect_lower a ?h key at lt = Some r \<and> part_point ?P a (a + int ?h) r"
        by (rule less.IH, rule h)
          (use rd pt m in \<open>auto intro: readable_sub partitioned_sub\<close>)
      then obtain r where "bisect_lower a ?h key at lt = Some r"
          and r: "part_point ?P a ?m r" by blast
      moreover have "part_point ?P a ?b r"
        using r pt by (rule part_point_extend_right_part) (use x lt m in auto)
      ultimately show ?thesis
        using False x lt by (simp add: bisect_lower.simps [of a n] Let_def)
    qed
  qed
qed

lemma bisect_upper_is_lower:
  "bisect_upper a n key at lt = bisect_lower a n key at (\<lambda>x k. \<not> lt k x)"
proof (induction n arbitrary: a rule: less_induct)
  case (less n)
  then show ?case
    by (cases "n = 0"; cases "at (a + int (n div 2))")
      (simp_all add: bisect_upper.simps [of a n] bisect_lower.simps [of a n] Let_def)
qed

lemma BranchingBinarySearch_lower_bound_range_point:
  assumes "a \<le> b" and "b - a < 2 ^ 64" and "readable at a b"
    and "partitioned (sat at (\<lambda>x. lt x key)) a b"
  shows "\<exists>r. BranchingBinarySearch_lower_bound_range a b key at lt = Some r \<and>
             part_point (sat at (\<lambda>x. lt x key)) a b r"
proof -
  have "a + int (nat (b - a)) = b" using assms(1) by simp
  then show ?thesis
    using bisect_lower_point [of at a "nat (b - a)" lt key] assms
    by (simp add: BranchingBinarySearch_lower_bound_range_def)
qed

subsection \<open>The public searches, for any comparison\<close>

lemma BranchingBinarySearch_lower_bound_point:
  assumes "a \<le> s" and "s \<le> b" and "b - a < 2 ^ 64" and rd: "readable at a b"
    and pt: "partitioned (sat at (\<lambda>x. lt x key)) a b"
  shows "\<exists>r. BranchingBinarySearch_lower_bound a b key s at lt = Some r \<and>
             part_point (sat at (\<lambda>x. lt x key)) a b r"
  unfolding BranchingBinarySearch_lower_bound_def start_test [OF rd assms(1,2)] Option.bind.simps
  using pt assms(1,2)
proof (rule from_start_point)
  note point = BranchingBinarySearch_lower_bound_range_point
  show "\<exists>r. BranchingBinarySearch_lower_bound_range (s + 1) b key at lt = Some r \<and>
            part_point (sat at (\<lambda>x. lt x key)) (s + 1) b r" if "s < b"
    using readable_sub [OF rd, of "s + 1" b] partitioned_sub [OF pt, of "s + 1" b] that assms
    by (intro point) auto
  show "\<exists>r. BranchingBinarySearch_lower_bound_range a s key at lt = Some r \<and>
            part_point (sat at (\<lambda>x. lt x key)) a s r"
    using readable_sub [OF rd, of a s] partitioned_sub [OF pt, of a s] assms
    by (intro point) auto
qed

lemma BranchingBinarySearch_upper_is_lower:
  "BranchingBinarySearch_upper_bound a b key s at lt =
   BranchingBinarySearch_lower_bound a b key s at (\<lambda>x k. \<not> lt k x)"
  unfolding BranchingBinarySearch_upper_bound_def BranchingBinarySearch_lower_bound_def
    BranchingBinarySearch_upper_bound_range_def BranchingBinarySearch_lower_bound_range_def
    bisect_upper_is_lower
  by (cases "at s") auto

lemma BranchingBinarySearch_upper_bound_point:
  assumes "a \<le> s" and "s \<le> b" and "b - a < 2 ^ 64" and "readable at a b"
    and "partitioned (sat at (\<lambda>x. \<not> lt key x)) a b"
  shows "\<exists>r. BranchingBinarySearch_upper_bound a b key s at lt = Some r \<and>
             part_point (sat at (\<lambda>x. \<not> lt key x)) a b r"
  unfolding BranchingBinarySearch_upper_is_lower
  using assms by (rule BranchingBinarySearch_lower_bound_point)

interpretation binary: search_class
  "\<lambda>a b key s at. BranchingBinarySearch_lower_bound a b key s at (<)"
  "\<lambda>a b key s at. BranchingBinarySearch_upper_bound a b key s at (<)"
proof unfold_locales
  fix at :: "'a::linorder reader" and a b s :: int and key
  assume pre: "search_pre at a b s"
  show "\<exists>r. BranchingBinarySearch_lower_bound a b key s at (<) = Some r \<and>
            part_point (below at key) a b r"
    using pre search_pre_partitioned(1) [OF pre]
    by (intro BranchingBinarySearch_lower_bound_point) (auto simp: search_pre_def)
  show "\<exists>r. BranchingBinarySearch_upper_bound a b key s at (<) = Some r \<and>
            part_point (upto_key at key) a b r"
    using pre search_pre_partitioned(2) [OF pre]
    by (intro BranchingBinarySearch_upper_bound_point) (auto simp: search_pre_def)
qed

subsection \<open>Correctness\<close>

text \<open>The branching binary search returns the lower and the upper bound of the key on every
  sorted range, from any start position; its two halves never read outside the range.\<close>

theorem binary_search_correct:
  assumes "search_pre at' first last' start"
  shows "BranchingBinarySearch_lower_bound first last' key start at' (<) = Some (ref_point (below at' key) first last') \<and>
         BranchingBinarySearch_upper_bound first last' key start at' (<) = Some (ref_point (upto_key at' key) first last')"
  using binary.lower_bound_ref [OF assms] binary.upper_bound_ref [OF assms] by simp

text \<open>The same on the array \<open>2, 5, 5, 9\<close>.\<close>

theorem binary_search_correct_witness:
  "BranchingBinarySearch_lower_bound 0 4 5 3 (list_reader [2, 5, 5, 9::nat]) (<) = Some 1 \<and>
   BranchingBinarySearch_upper_bound 0 4 5 3 (list_reader [2, 5, 5, 9::nat]) (<) = Some 3"
proof -
  have "search_pre (list_reader [2, 5, 5, 9::nat]) 0 4 3"
    by (rule search_pre_list) auto
  from binary_search_correct [OF this, of 5] show ?thesis
    by (simp add: ref_point_list)
qed

end
