(* ===== verification/Exponential_Search.thy ===== *)
theory Exponential_Search
  imports Binary_Search
begin

text \<open>
  \<^verbatim>\<open>ExponentialSearch\<close> (\<^verbatim>\<open>src/searches/exponential_search.h\<close>): double the step away from the
  start position until the key is passed, then bisect the last interval. The probe moves
  beyond the range before the bound is tested; the model keeps those positions, and the
  theorems show that the code never reads them.

  The final bisection is called with the caller's \<^verbatim>\<open>at\<close> but without its \<^verbatim>\<open>less\<close>: it compares
  with the default \<open><\<close>, so the search is right for the default comparison only.
\<close>

partial_function (option) gallop_right ::
    "nat \<Rightarrow> ('k \<Rightarrow> bool) \<Rightarrow> 'k reader \<Rightarrow> nat \<Rightarrow> int \<Rightarrow> int \<Rightarrow> (nat \<times> int \<times> int) option" where
  "gallop_right sz P at bound l r =
     (if bound \<le> sz
      then Option.bind (at r)
             (\<lambda>x. if P x
                   then gallop_right sz P at (size_shl1 bound) r
                          (r + to_ptrdiff (size_shl1 bound))
                   else Some (bound, l, r))
      else Some (bound, l, r))"

partial_function (option) gallop_left ::
    "nat \<Rightarrow> ('k \<Rightarrow> bool) \<Rightarrow> 'k reader \<Rightarrow> nat \<Rightarrow> int \<Rightarrow> int \<Rightarrow> (nat \<times> int \<times> int) option" where
  "gallop_left sz P at bound l r =
     (if bound \<le> sz
      then Option.bind (at l)
             (\<lambda>x. if \<not> P x
                   then gallop_left sz P at (size_shl1 bound)
                          (l + to_ptrdiff (size_neg (size_shl1 bound))) l
                   else Some (bound, l, r))
      else Some (bound, l, r))"

definition exp_bounds_right ::
    "('k \<Rightarrow> bool) \<Rightarrow> 'k reader \<Rightarrow> int \<Rightarrow> int \<Rightarrow> (int \<times> int) option" where
  "exp_bounds_right P at start last' = do {
     let sz = to_size_t ((last' - start) div 2);
     (bound, l, r) \<leftarrow> gallop_right sz P at 1 start (start + to_ptrdiff 1);
     Some (l + 1, if bound > sz then last' else r)
   }"

definition exp_bounds_left ::
    "('k \<Rightarrow> bool) \<Rightarrow> 'k reader \<Rightarrow> int \<Rightarrow> int \<Rightarrow> (int \<times> int) option" where
  "exp_bounds_left P at start first = do {
     let sz = to_size_t ((start - first + 1) div 2);
     (bound, l, r) \<leftarrow> gallop_left sz P at 1 (start + to_ptrdiff (size_neg 1)) start;
     Some (if bound > sz then first else l + 1, r)
   }"

definition ExponentialSearch_lower_bound ::
    "int \<Rightarrow> int \<Rightarrow> 'k::ord \<Rightarrow> int \<Rightarrow> 'k reader \<Rightarrow> ('k \<Rightarrow> 'k \<Rightarrow> bool) \<Rightarrow> int option" where
  "ExponentialSearch_lower_bound first last' lookup_key start at lt =
     (if first = last' then Some first
      else do {
        right \<leftarrow> (if start \<noteq> last' then map_option (\<lambda>x. lt x lookup_key) (at start)
                   else Some False);
        (l, r) \<leftarrow> (if right then exp_bounds_right (\<lambda>x. lt x lookup_key) at start last'
                    else exp_bounds_left (\<lambda>x. lt x lookup_key) at start first);
        BranchingBinarySearch_lower_bound l r lookup_key l at (<)
      })"

definition ExponentialSearch_upper_bound ::
    "int \<Rightarrow> int \<Rightarrow> 'k::ord \<Rightarrow> int \<Rightarrow> 'k reader \<Rightarrow> ('k \<Rightarrow> 'k \<Rightarrow> bool) \<Rightarrow> int option" where
  "ExponentialSearch_upper_bound first last' lookup_key start at lt =
     (if first = last' then Some first
      else do {
        left \<leftarrow> (if start = last' then Some True
                  else map_option (\<lambda>x. lt lookup_key x) (at start));
        (l, r) \<leftarrow> (if left then exp_bounds_left (\<lambda>x. \<not> lt lookup_key x) at start first
                    else exp_bounds_right (\<lambda>x. \<not> lt lookup_key x) at start last');
        BranchingBinarySearch_upper_bound l r lookup_key l at (<)
      })"

subsection \<open>Galloping\<close>

text \<open>
  To the right of \<open>s\<close>, \<open>l = s + bound - 1\<close> and \<open>r = s + 2 * bound - 1\<close>; to the left,
  \<open>l = s - 2 * bound + 1\<close> and \<open>r = s - bound + 1\<close>. The probe is inside the range while
  \<open>bound \<le> sz\<close>.
\<close>

lemma gallop_right_stop:
  assumes rd: "readable at s b" and "sz < 2 ^ 61" and "2 * int sz \<le> b - s"
    and "1 \<le> bound" and "bound \<le> 2 * sz + 1" and "sat at P (s + int bound - 1)"
    and "s + int bound - 1 < b"
  shows "\<exists>bound' l r. gallop_right sz P at bound (s + int bound - 1) (s + 2 * int bound - 1)
      = Some (bound', l, r) \<and> s \<le> l \<and> l < b \<and> sat at P l \<and>
      (bound' \<le> sz \<longrightarrow> l < r \<and> r < b \<and> \<not> sat at P r)"
  using assms(4-7)
proof (induction "Suc sz - bound" arbitrary: bound rule: less_induct)
  case less
  let ?l = "s + int bound - 1" and ?r = "s + 2 * int bound - 1"
  show ?case
  proof (cases "bound \<le> sz")
    case False
    then show ?thesis using less.prems by (auto simp: gallop_right.simps [of sz P at bound])
  next
    case True
    have r: "s \<le> ?r" "?r < b" using True less.prems(1) assms(3) by auto
    obtain x where x: "at ?r = Some x" using readableE [OF rd r] by blast
    show ?thesis
    proof (cases "P x")
      case True
      have shl: "size_shl1 bound = 2 * bound" "to_ptrdiff (2 * bound) = 2 * int bound"
        using \<open>bound \<le> sz\<close> assms(2) by simp_all
      have "\<exists>bound' l r. gallop_right sz P at (2 * bound) (s + int (2 * bound) - 1)
          (s + 2 * int (2 * bound) - 1) = Some (bound', l, r) \<and> s \<le> l \<and> l < b \<and> sat at P l \<and>
          (bound' \<le> sz \<longrightarrow> l < r \<and> r < b \<and> \<not> sat at P r)"
        by (rule less.hyps) (use True x r \<open>bound \<le> sz\<close> less.prems in auto)
      moreover have "gallop_right sz P at bound ?l ?r =
          gallop_right sz P at (2 * bound) (s + int (2 * bound) - 1) (s + 2 * int (2 * bound) - 1)"
        using x True \<open>bound \<le> sz\<close>
        by (subst gallop_right.simps) (simp add: shl, simp add: algebra_simps)
      ultimately show ?thesis by simp
    next
      case False
      then show ?thesis using x \<open>bound \<le> sz\<close> r less.prems
        by (auto simp: gallop_right.simps [of sz P at bound])
    qed
  qed
qed

lemma gallop_left_stop:
  assumes rd: "readable at a b" and "sz < 2 ^ 61" and "2 * int sz \<le> s - a + 1"
    and "a \<le> s" and "s \<le> b" and "1 \<le> bound" and "int bound \<le> s - a + 1"
    and "\<And>i. s - int bound + 1 \<le> i \<Longrightarrow> i < b \<Longrightarrow> \<not> sat at P i" and pt: "partitioned (sat at P) a b"
  shows "\<exists>bound' l r. gallop_left sz P at bound (s - 2 * int bound + 1) (s - int bound + 1)
      = Some (bound', l, r) \<and> a \<le> r \<and> r \<le> b \<and> (\<forall>i. r \<le> i \<and> i < b \<longrightarrow> \<not> sat at P i) \<and>
      (bound' \<le> sz \<longrightarrow> a \<le> l \<and> l < r \<and> sat at P l)"
  using assms(6-8)
proof (induction "Suc sz - bound" arbitrary: bound rule: less_induct)
  case less
  let ?l = "s - 2 * int bound + 1" and ?r = "s - int bound + 1"
  show ?case
  proof (cases "bound \<le> sz")
    case False
    then show ?thesis using less.prems assms(5)
      by (auto simp: gallop_left.simps [of sz P at bound])
  next
    case True
    have l: "a \<le> ?l" "?l < b" using True less.prems(1) assms(3,5) by auto
    obtain x where x: "at ?l = Some x" using readableE [OF rd l] by blast
    show ?thesis
    proof (cases "P x")
      case False
      have shl: "size_shl1 bound = 2 * bound" "to_ptrdiff (size_neg (2 * bound)) = - 2 * int bound"
        using \<open>bound \<le> sz\<close> assms(2) by simp_all
      have above: "\<not> sat at P i" if "?l \<le> i" "i < b" for i
        using partitionedD [OF pt _ l(1) that] x False by auto
      have "\<exists>bound' l r. gallop_left sz P at (2 * bound) (s - 2 * int (2 * bound) + 1)
          (s - int (2 * bound) + 1) = Some (bound', l, r) \<and> a \<le> r \<and> r \<le> b \<and>
          (\<forall>i. r \<le> i \<and> i < b \<longrightarrow> \<not> sat at P i) \<and>
          (bound' \<le> sz \<longrightarrow> a \<le> l \<and> l < r \<and> sat at P l)"
        by (rule less.hyps) (use above l \<open>bound \<le> sz\<close> less.prems in auto)
      moreover have "gallop_left sz P at bound ?l ?r =
          gallop_left sz P at (2 * bound) (s - 2 * int (2 * bound) + 1) (s - int (2 * bound) + 1)"
        using x False \<open>bound \<le> sz\<close>
        by (subst gallop_left.simps) (simp add: shl, simp add: algebra_simps)
      ultimately show ?thesis by simp
    next
      case True
      then show ?thesis using x \<open>bound \<le> sz\<close> l less.prems assms(5)
        by (auto simp: gallop_left.simps [of sz P at bound])
    qed
  qed
qed

subsection \<open>The interval that is bisected\<close>

text \<open>
  The interval lies inside the range, and everything to its left satisfies the predicate and
  everything to its right does not: bisecting it finds the partition point of the range.
\<close>

definition cuts :: "(int \<Rightarrow> bool) \<Rightarrow> int \<Rightarrow> int \<Rightarrow> int \<Rightarrow> int \<Rightarrow> bool" where
  "cuts Q a b l r \<longleftrightarrow> a \<le> l \<and> l \<le> r \<and> r \<le> b \<and> (\<forall>i. a \<le> i \<and> i < l \<longrightarrow> Q i) \<and>
     (\<forall>i. r \<le> i \<and> i < b \<longrightarrow> \<not> Q i)"

lemma cuts_part_point:
  assumes "cuts Q a b l r" and "part_point Q l r m"
  shows "part_point Q a b m"
proof (rule part_point_extend_left)
  show "part_point Q l b m"
    using assms by (intro part_point_extend_right [OF assms(2)]) (auto simp: cuts_def)
qed (use assms(1) in \<open>auto simp: cuts_def\<close>)

lemma exp_bounds_right_cuts:
  assumes rd: "readable at a b" and pt: "partitioned (sat at P) a b" and "b - a \<le> 2 ^ 53"
    and "a \<le> s" and "s < b" and "sat at P s"
  shows "\<exists>l r. exp_bounds_right P at s b = Some (l, r) \<and> cuts (sat at P) a b l r"
proof -
  define sz where "sz = to_size_t ((b - s) div 2)"
  have sz: "int sz = (b - s) div 2" unfolding sz_def using assms by (subst to_size_t_id) auto
  then have small: "sz < 2 ^ 61" "2 * int sz \<le> b - s" using assms(3-5) by (auto; linarith)+
  obtain bound l r where g: "gallop_right sz P at 1 s (s + 1) = Some (bound, l, r)"
      "s \<le> l" "l < b" "sat at P l" "bound \<le> sz \<longrightarrow> l < r \<and> r < b \<and> \<not> sat at P r"
    using gallop_right_stop [OF readable_sub [OF rd assms(4) order_refl] small, of 1 P] assms
    by (auto simp: add.commute [of 1])
  have "sat at P i" if "a \<le> i" "i < l + 1" for i
    using partitionedD [OF pt g(4) that(1)] that g(3) by simp
  moreover have "\<not> sat at P i" if "bound \<le> sz" "r \<le> i" "i < b" for i
    using partitionedD [OF pt _ _ that(2,3)] that g assms(4) by auto
  ultimately have "cuts (sat at P) a b (l + 1) (if bound > sz then b else r)"
    unfolding cuts_def using g assms(4) by auto
  then show ?thesis using g(1) by (simp add: exp_bounds_right_def flip: sz_def)
qed

lemma exp_bounds_left_cuts:
  assumes rd: "readable at a b" and pt: "partitioned (sat at P) a b" and "b - a \<le> 2 ^ 53"
    and "a \<le> s" and "s \<le> b" and "s < b \<longrightarrow> \<not> sat at P s"
  shows "\<exists>l r. exp_bounds_left P at s a = Some (l, r) \<and> cuts (sat at P) a b l r"
proof -
  define sz where "sz = to_size_t ((s - a + 1) div 2)"
  have "int sz = (s - a + 1) div 2" unfolding sz_def using assms by (subst to_size_t_id) auto
  then have sz: "sz < 2 ^ 61" "2 * int sz \<le> s - a + 1" using assms(3-5) by (auto; linarith)+
  have above: "\<not> sat at P i" if "s \<le> i" "i < b" for i
    using partitionedD [OF pt _ assms(4) that] that assms(6) by auto
  obtain bound l r where g: "gallop_left sz P at 1 (s - 1) s = Some (bound, l, r)"
      "a \<le> r" "r \<le> b" "\<forall>i. r \<le> i \<and> i < b \<longrightarrow> \<not> sat at P i"
      "bound \<le> sz \<longrightarrow> a \<le> l \<and> l < r \<and> sat at P l"
    using gallop_left_stop [OF rd sz assms(4,5) _ _ _ pt, of 1] above assms by auto
  have "sat at P i" if "bound \<le> sz" "a \<le> i" "i < l + 1" for i
    using partitionedD [OF pt _ that(2)] that g by force
  then have "cuts (sat at P) a b (if bound > sz then a else l + 1) r"
    unfolding cuts_def using g by auto
  moreover have "to_ptrdiff (size_neg 1) = - 1" by simp
  ultimately show ?thesis using g(1) by (simp add: exp_bounds_left_def flip: sz_def)
qed

subsection \<open>The two searches\<close>

lemma ExponentialSearch_lower_bound_point:
  assumes pre: "search_pre at a b s"
  shows "\<exists>r. ExponentialSearch_lower_bound a b key s at (<) = Some r \<and>
             part_point (below at key) a b r"
proof -
  have h: "a \<le> s" "s \<le> b" "b - a \<le> 2 ^ 53" "readable at a b" "sorted_range at a b"
    using pre by (auto simp: search_pre_def)
  note pt = search_pre_partitioned(1) [OF pre, of key]
  show ?thesis
  proof (cases "a = b")
    case True
    then show ?thesis by (simp add: ExponentialSearch_lower_bound_def part_point_empty)
  next
    case ne: False
    obtain l r where lr: "(if s < b \<and> below at key s then exp_bounds_right (\<lambda>x. x < key) at s b
        else exp_bounds_left (\<lambda>x. x < key) at s a) = Some (l, r)" "cuts (below at key) a b l r"
      using exp_bounds_right_cuts [OF h(4) pt h(3,1)] exp_bounds_left_cuts [OF h(4) pt h(3,1,2)]
      by (cases "s < b \<and> below at key s") auto
    have sub: "l \<le> r" "r - l < 2 ^ 64" "readable at l r" "partitioned (below at key) l r"
      using lr(2) h readable_sub [OF h(4)] partitioned_sub [OF pt] by (auto simp: cuts_def)
    obtain m where "BranchingBinarySearch_lower_bound l r key l at (<) = Some m"
        "part_point (below at key) l r m"
      using BranchingBinarySearch_lower_bound_point [of l l r at "(<)" key] sub by auto
    then show ?thesis
      unfolding ExponentialSearch_lower_bound_def start_test [OF h(4,1,2)]
      using ne lr cuts_part_point by fastforce
  qed
qed

text \<open>As for the other classes, the upper bound mirrors the lower bound.\<close>

lemma ExponentialSearch_upper_bound_point:
  assumes pre: "search_pre at a b s"
  shows "\<exists>r. ExponentialSearch_upper_bound a b key s at (<) = Some r \<and>
             part_point (upto_key at key) a b r"
proof -
  have h: "a \<le> s" "s \<le> b" "b - a \<le> 2 ^ 53" "readable at a b" "sorted_range at a b"
    using pre by (auto simp: search_pre_def)
  note pt = search_pre_partitioned(2) [OF pre, of key]
  have test: "(if s = b then Some True else map_option (\<lambda>x. key < x) (at s))
      = Some (\<not> (s < b \<and> upto_key at key s))"
    using start_test [OF h(4,1,2), of "\<lambda>x. \<not> key < x"]
    by (cases "at s") (auto split: if_splits)
  show ?thesis
  proof (cases "a = b")
    case True
    then show ?thesis by (simp add: ExponentialSearch_upper_bound_def part_point_empty)
  next
    case ne: False
    obtain l r where lr: "(if s < b \<and> upto_key at key s
        then exp_bounds_right (\<lambda>x. \<not> key < x) at s b
        else exp_bounds_left (\<lambda>x. \<not> key < x) at s a) = Some (l, r)" "cuts (upto_key at key) a b l r"
      using exp_bounds_right_cuts [OF h(4) pt h(3,1)] exp_bounds_left_cuts [OF h(4) pt h(3,1,2)]
      by (cases "s < b \<and> upto_key at key s") auto
    have sub: "l \<le> r" "r - l < 2 ^ 64" "readable at l r" "partitioned (upto_key at key) l r"
      using lr(2) h readable_sub [OF h(4)] partitioned_sub [OF pt] by (auto simp: cuts_def)
    obtain m where "BranchingBinarySearch_upper_bound l r key l at (<) = Some m"
        "part_point (upto_key at key) l r m"
      using BranchingBinarySearch_upper_bound_point [of l l r at "(<)" key] sub by auto
    then show ?thesis
      unfolding ExponentialSearch_upper_bound_def test
      using ne lr cuts_part_point by fastforce
  qed
qed

interpretation exponential: search_class
  "\<lambda>a b key s at. ExponentialSearch_lower_bound a b key s at (<)"
  "\<lambda>a b key s at. ExponentialSearch_upper_bound a b key s at (<)"
  by unfold_locales
    (rule ExponentialSearch_lower_bound_point ExponentialSearch_upper_bound_point, assumption)+

subsection \<open>Correctness\<close>

text \<open>The exponential search returns the lower and the upper bound of the key on every
  sorted range: it gallops from the start position without leaving the range, although it moves an
  iterator by a negated \<open>size_t\<close>, and bisects the bracket it has found.\<close>

theorem exponential_search_correct:
  assumes "search_pre at' first last' start"
  shows "ExponentialSearch_lower_bound first last' key start at' (<) = Some (ref_point (below at' key) first last') \<and>
         ExponentialSearch_upper_bound first last' key start at' (<) = Some (ref_point (upto_key at' key) first last')"
  using exponential.lower_bound_ref [OF assms] exponential.upper_bound_ref [OF assms] by simp

text \<open>The same on the array \<open>2, 5, 5, 9\<close>.\<close>

theorem exponential_search_correct_witness:
  "ExponentialSearch_lower_bound 0 4 5 3 (list_reader [2, 5, 5, 9::nat]) (<) = Some 1 \<and>
   ExponentialSearch_upper_bound 0 4 5 3 (list_reader [2, 5, 5, 9::nat]) (<) = Some 3"
proof -
  have "search_pre (list_reader [2, 5, 5, 9::nat]) 0 4 3"
    by (rule search_pre_list) auto
  from exponential_search_correct [OF this, of 5] show ?thesis
    by (simp add: ref_point_list)
qed

end
