(* ===== verification/Doubles.thy ===== *)
theory Doubles
  imports Complex_Main Prelude
begin

text \<open>
  The \<^verbatim>\<open>double\<close> and \<^verbatim>\<open>float\<close> arithmetic that the code relies on. A number is the rational it
  denotes; an operation is the exact operation followed by a rounding. The locale \<open>rounding_to\<close>
  holds what the proofs use of the rounding (monotone, exact on the numbers of \<open>p\<close> significant
  bits); it is interpreted on \<open>double_round\<close>, \<open>float_round\<close> and \<open>ld_round\<close>, the round-to-nearest-even of
  IEEE 754 with significands of 53 and of 24 bits, and of the \<^verbatim>\<open>long double\<close> of x86-64 with 64 bits. The exponent is unbounded: the values of the code modelled here lie far inside the
  range of normal numbers, where neither overflow nor subnormal numbers occur.
\<close>

subsection \<open>Rounding to nearest, ties to even\<close>

definition round_even :: "rat \<Rightarrow> int" where
  "round_even x =
     (let n = \<lfloor>x\<rfloor>; f = x - of_int n
      in if f < 1 / 2 then n else if f > 1 / 2 then n + 1 else if even n then n else n + 1)"

lemma round_even_bounds: "\<lfloor>x\<rfloor> \<le> round_even x \<and> round_even x \<le> \<lfloor>x\<rfloor> + 1"
  by (simp add: round_even_def Let_def)

lemma round_even_mono:
  assumes "x \<le> y"
  shows "round_even x \<le> round_even y"
proof (cases "\<lfloor>x\<rfloor> = \<lfloor>y\<rfloor>")
  case True
  then show ?thesis using assms by (auto simp: round_even_def Let_def)
next
  case False
  with floor_mono [OF assms] have "\<lfloor>x\<rfloor> + 1 \<le> \<lfloor>y\<rfloor>" by simp
  then show ?thesis using round_even_bounds [of x] round_even_bounds [of y] by simp
qed

lemma round_even_of_int [simp]: "round_even (of_int n) = n"
  by (simp add: round_even_def Let_def)

subsection \<open>Binary exponents\<close>

fun nlen :: "nat \<Rightarrow> nat" where
  "nlen n = (if n = 0 then 0 else Suc (nlen (n div 2)))"

declare nlen.simps [simp del]

lemma nlen_le_iff: "nlen n \<le> k \<longleftrightarrow> n < 2 ^ k"
proof (induction n arbitrary: k rule: nlen.induct)
  case (1 n)
  show ?case
  proof (cases "n = 0")
    case True
    then show ?thesis by (simp add: nlen.simps [of 0])
  next
    case False
    show ?thesis
    proof (cases k)
      case 0
      then show ?thesis using False by (simp add: nlen.simps [of n])
    next
      case (Suc j)
      have "nlen n \<le> Suc j \<longleftrightarrow> n div 2 < 2 ^ j"
        using 1 [OF False, of j] False by (simp add: nlen.simps [of n])
      also have "\<dots> \<longleftrightarrow> n < 2 ^ Suc j" by (simp add: div_less_iff_less_mult mult.commute)
      finally show ?thesis using Suc by simp
    qed
  qed
qed

text \<open>The exponent \<open>e\<close> of a positive rational: \<open>2 ^ e \<le> x < 2 ^ (e + 1)\<close>.\<close>

definition ilog2 :: "rat \<Rightarrow> int" where
  "ilog2 x = (if x \<ge> 1 then int (nlen (nat \<lfloor>x\<rfloor>)) - 1 else - int (nlen (nat (\<lceil>1 / x\<rceil> - 1))))"

lemma ilog2_ge_iff:
  assumes "x > 0"
  shows "e \<le> ilog2 x \<longleftrightarrow> 2 powi e \<le> x"
proof (cases "x \<ge> 1")
  case True
  show ?thesis
  proof (cases "e \<ge> 0")
    case True
    then obtain k where k: "e = int k" using nonneg_int_cases by blast
    have "e \<le> ilog2 x \<longleftrightarrow> \<not> nlen (nat \<lfloor>x\<rfloor>) \<le> k" using \<open>x \<ge> 1\<close> k by (auto simp: ilog2_def)
    also have "\<dots> \<longleftrightarrow> 2 ^ k \<le> nat \<lfloor>x\<rfloor>" by (simp add: nlen_le_iff not_less)
    also have "\<dots> \<longleftrightarrow> 2 ^ k \<le> \<lfloor>x\<rfloor>" using \<open>x \<ge> 1\<close> by (simp add: le_nat_iff)
    also have "\<dots> \<longleftrightarrow> 2 powi e \<le> x" by (simp add: le_floor_iff k)
    finally show ?thesis .
  next
    case False
    then have "2 powi e \<le> (2::rat) powi 0" by (intro power_int_increasing) auto
    then have "2 powi e \<le> x" using True by simp
    moreover have "0 \<le> ilog2 x"
    proof -
      have "\<not> nlen (nat \<lfloor>x\<rfloor>) \<le> 0" using True nlen_le_iff [of "nat \<lfloor>x\<rfloor>" 0] by simp
      then show ?thesis using True by (simp add: ilog2_def)
    qed
    ultimately show ?thesis using False by simp
  qed
next
  case lt: False
  let ?m = "nat (\<lceil>1 / x\<rceil> - 1)"
  have inv: "1 < 1 / x" using lt assms by simp
  have m: "int ?m = \<lceil>1 / x\<rceil> - 1" using inv assms by (simp add: less_ceiling_iff)
  show ?thesis
  proof (cases "e \<le> 0")
    case True
    then obtain k where k: "e = - int k" by (metis minus_minus neg_0_le_iff_le nonneg_int_cases)
    have "e \<le> ilog2 x \<longleftrightarrow> ?m < 2 ^ k" using lt k nlen_le_iff [of ?m k] by (simp add: ilog2_def)
    also have "\<dots> \<longleftrightarrow> int ?m < 2 ^ k" using of_nat_less_iff [of ?m "2 ^ k", where ?'a = int] by simp
    also have "\<dots> \<longleftrightarrow> \<lceil>1 / x\<rceil> \<le> 2 ^ k" unfolding m by auto
    also have "\<dots> \<longleftrightarrow> 1 / x \<le> 2 ^ k" by (simp add: ceiling_le_iff)
    also have "\<dots> \<longleftrightarrow> 2 powi e \<le> x"
      using assms by (simp add: k power_int_minus field_simps)
    finally show ?thesis .
  next
    case False
    then have "(2::rat) powi 0 \<le> 2 powi e" by (intro power_int_increasing) auto
    then have "\<not> 2 powi e \<le> x" using lt by simp
    moreover have "\<not> e \<le> ilog2 x" using lt False by (simp add: ilog2_def)
    ultimately show ?thesis by simp
  qed
qed

lemma ilog2_less: "x > 0 \<Longrightarrow> x < 2 powi (ilog2 x + 1)"
  using ilog2_ge_iff [of x "ilog2 x + 1"] by simp

lemma ilog2_le: "x > 0 \<Longrightarrow> 2 powi ilog2 x \<le> x"
  using ilog2_ge_iff [of x "ilog2 x"] by simp

lemma ilog2_mono: "0 < x \<Longrightarrow> x \<le> y \<Longrightarrow> ilog2 x \<le> ilog2 y"
  using ilog2_ge_iff [of y "ilog2 x"] ilog2_le [of x] by simp

subsection \<open>Rounding to a significand of \<open>p\<close> bits\<close>

definition ulp :: "nat \<Rightarrow> rat \<Rightarrow> rat" where
  "ulp p x = 2 powi (ilog2 x - int p + 1)"

definition round_pos :: "nat \<Rightarrow> rat \<Rightarrow> rat" where
  "round_pos p x = of_int (round_even (x / ulp p x)) * ulp p x"

definition fp_round :: "nat \<Rightarrow> rat \<Rightarrow> rat" where
  "fp_round p x = (if x = 0 then 0 else if x > 0 then round_pos p x else - round_pos p (- x))"

definition double_round :: "rat \<Rightarrow> rat" where "double_round = fp_round 53"
definition float_round :: "rat \<Rightarrow> rat" where "float_round = fp_round 24"
definition ld_round :: "rat \<Rightarrow> rat" where "ld_round = fp_round 64"

lemma ulp_pos [simp]: "ulp p x > 0"
  by (simp add: ulp_def)

text \<open>The powers of two around \<open>x\<close> are multiples of its unit in the last place.\<close>

lemma ulp_grid: "2 powi (ilog2 x - int p + 1 + int k) = of_int (2 ^ k) * ulp p x"
proof -
  have "(2::rat) powi (ilog2 x - int p + 1 + int k) = 2 powi (int k + (ilog2 x - int p + 1))"
    by (simp add: algebra_simps)
  also have "\<dots> = 2 powi int k * 2 powi (ilog2 x - int p + 1)" by (rule power_int_add) simp
  finally show ?thesis by (simp add: ulp_def)
qed

lemma round_pos_upper:
  assumes "x > 0"
  shows "round_pos p x \<le> 2 powi (ilog2 x + 1)"
proof -
  have grid: "2 powi (ilog2 x + 1) = of_int (2 ^ p) * ulp p x"
    using ulp_grid [of x p p] by simp
  have "x / ulp p x \<le> of_int (2 ^ p)"
    using ilog2_less [OF assms] unfolding grid by (simp add: divide_le_eq)
  then have "round_even (x / ulp p x) \<le> 2 ^ p" using round_even_mono round_even_of_int by metis
  then have "of_int (round_even (x / ulp p x)) \<le> (of_int (2 ^ p) :: rat)" by (simp only: of_int_le_iff)
  then show ?thesis
    unfolding grid round_pos_def by (rule mult_right_mono) (simp add: less_imp_le)
qed

lemma round_pos_lower:
  assumes "x > 0" and "1 \<le> p"
  shows "2 powi ilog2 x \<le> round_pos p x"
proof -
  have grid: "2 powi ilog2 x = of_int (2 ^ (p - 1)) * ulp p x"
    using ulp_grid [of x p "p - 1"] assms(2) by (simp add: of_nat_diff)
  have "of_int (2 ^ (p - 1)) \<le> x / ulp p x"
    using ilog2_le [OF assms(1)] unfolding grid by (simp add: le_divide_eq)
  then have "2 ^ (p - 1) \<le> round_even (x / ulp p x)" using round_even_mono round_even_of_int by metis
  then have "(of_int (2 ^ (p - 1)) :: rat) \<le> of_int (round_even (x / ulp p x))" by (simp only: of_int_le_iff)
  then show ?thesis
    unfolding grid round_pos_def by (rule mult_right_mono) (simp add: less_imp_le)
qed

lemma round_pos_mono:
  assumes "0 < x" and "x \<le> y" and "1 \<le> p"
  shows "round_pos p x \<le> round_pos p y"
proof (cases "ilog2 x = ilog2 y")
  case True
  then have u: "ulp p y = ulp p x" by (simp add: ulp_def)
  have "x / ulp p x \<le> y / ulp p x" using assms(2) by (rule divide_right_mono) (simp add: less_imp_le)
  then have "round_even (x / ulp p x) \<le> round_even (y / ulp p x)" by (rule round_even_mono)
  then show ?thesis
    unfolding round_pos_def u by (intro mult_right_mono) (simp_all add: less_imp_le)
next
  case False
  with ilog2_mono [OF assms(1,2)] have "ilog2 x + 1 \<le> ilog2 y" by simp
  then have "2 powi (ilog2 x + 1) \<le> (2::rat) powi ilog2 y" by (rule power_int_increasing) simp_all
  then show ?thesis
    using round_pos_upper [OF assms(1), of p] round_pos_lower [of y p] assms by simp
qed

lemma round_pos_nonneg: "x > 0 \<Longrightarrow> 1 \<le> p \<Longrightarrow> 0 < round_pos p x"
  by (rule order_less_le_trans [OF _ round_pos_lower]) simp_all

lemma fp_round_mono: "1 \<le> p \<Longrightarrow> x \<le> y \<Longrightarrow> fp_round p x \<le> fp_round p y"
  using round_pos_mono [of x y p] round_pos_mono [of "- y" "- x" p]
    round_pos_nonneg [of "- x" p] round_pos_nonneg [of y p]
  by (auto simp: fp_round_def)

lemma fp_round_below:
  assumes "0 < n" and "n < 2 ^ p"
  shows "fp_round p (of_nat n * 2 powi e) = of_nat n * 2 powi e"
proof -
  let ?x = "of_nat n * 2 powi e :: rat"
  have pos: "?x > 0" using assms(1) by simp
  have "(of_nat n :: rat) < 2 ^ p" using assms(2) by (metis of_nat_less_iff of_nat_numeral of_nat_power)
  then have "?x < 2 powi int p * 2 powi e" by simp
  also have "\<dots> = 2 powi (int p + e)" by (simp add: power_int_add)
  finally have "\<not> int p + e \<le> ilog2 ?x" using ilog2_ge_iff [OF pos] by (simp add: not_le)
  then obtain k where k: "e = (ilog2 ?x - int p + 1) + int k"
    using zle_iff_zadd [of "ilog2 ?x - int p + 1" e] by auto
  have "?x = of_int (int n * 2 ^ k) * ulp p ?x"
    using ulp_grid [of ?x p k] by (subst (1) k) (simp add: mult.assoc)
  then have q: "?x / ulp p ?x = of_int (int n * 2 ^ k)"
    by (metis nonzero_mult_div_cancel_right ulp_pos less_irrefl)
  have "round_pos p ?x = of_int (int n * 2 ^ k) * ulp p ?x"
    unfolding round_pos_def q round_even_of_int ..
  also have "\<dots> = ?x" by (rule \<open>?x = of_int (int n * 2 ^ k) * ulp p ?x\<close> [symmetric])
  finally show ?thesis using pos by (simp add: fp_round_def)
qed

text \<open>A number of at most \<open>p\<close> significant bits, at any scale, is not rounded.\<close>

lemma fp_round_exact:
  assumes "1 \<le> p" and "n \<le> 2 ^ p"
  shows "fp_round p (of_nat n * 2 powi e) = of_nat n * 2 powi e"
proof -
  consider "n = 0" | "0 < n" "n < 2 ^ p" | "n = 2 ^ p" using assms(2) by linarith
  then show ?thesis
  proof cases
    case 3
    have "fp_round p (of_nat 1 * 2 powi (int p + e)) = of_nat 1 * 2 powi (int p + e)"
      using assms(1) one_less_power [of "2::nat" p] by (intro fp_round_below) auto
    then show ?thesis by (simp add: 3 power_int_add)
  qed (simp add: fp_round_def, rule fp_round_below)
qed

text \<open>The relative error is at most half a unit in the last place.\<close>

lemma round_even_error: "\<bar>of_int (round_even x) - x\<bar> \<le> 1 / 2"
proof -
  have "of_int \<lfloor>x\<rfloor> \<le> x" "x < of_int \<lfloor>x\<rfloor> + 1" by linarith+
  then show ?thesis by (auto simp: round_even_def Let_def)
qed

lemma round_pos_error:
  assumes "x > 0"
  shows "\<bar>round_pos p x - x\<bar> \<le> x / 2 ^ p"
proof -
  have "ulp p x \<noteq> 0" by (rule less_imp_neq [THEN not_sym, OF ulp_pos])
  then have "round_pos p x - x = (of_int (round_even (x / ulp p x)) - x / ulp p x) * ulp p x"
    by (simp add: round_pos_def left_diff_distrib)
  then have "\<bar>round_pos p x - x\<bar> = \<bar>of_int (round_even (x / ulp p x)) - x / ulp p x\<bar> * ulp p x"
    by (simp add: abs_mult less_imp_le)
  also have "\<dots> \<le> 1 / 2 * ulp p x"
    by (intro mult_right_mono round_even_error less_imp_le ulp_pos)
  also have "\<dots> = 2 powi (ilog2 x - int p)"
    using power_int_add [of "2 :: rat" "ilog2 x - int p" 1] by (simp add: ulp_def)
  also have "\<dots> = 2 powi ilog2 x / 2 ^ p" by (simp add: power_int_diff)
  also have "\<dots> \<le> x / 2 ^ p" using ilog2_le [OF assms] by (simp add: divide_right_mono)
  finally show ?thesis .
qed

lemma fp_round_error: "\<bar>fp_round p x - x\<bar> \<le> \<bar>x\<bar> / 2 ^ p"
  using round_pos_error [of x p] round_pos_error [of "- x" p] by (auto simp: fp_round_def)

lemma fp_round_minus: "fp_round p (- x) = - fp_round p x"
  by (simp add: fp_round_def)

subsection \<open>The interface\<close>

locale rounding_to =
  fixes rnd :: "rat \<Rightarrow> rat"
    and p :: nat
  assumes rnd_mono: "x \<le> y \<Longrightarrow> rnd x \<le> rnd y"
    and rnd_exact: "n \<le> 2 ^ p \<Longrightarrow> rnd (of_nat n * 2 powi e) = of_nat n * 2 powi e"
begin

lemma rnd_nat: "n \<le> 2 ^ p \<Longrightarrow> rnd (of_nat n) = of_nat n"
  using rnd_exact [of n 0] by simp

lemma rnd_0 [simp]: "rnd 0 = 0" and rnd_1 [simp]: "rnd 1 = 1"
  using rnd_nat [of 0] rnd_nat [of 1] by simp_all

lemma rnd_nonneg: "0 \<le> x \<Longrightarrow> 0 \<le> rnd x"
  using rnd_mono [of 0 x] by simp

lemma rnd_le_nat: "x \<le> of_nat n \<Longrightarrow> n \<le> 2 ^ p \<Longrightarrow> rnd x \<le> of_nat n"
  using rnd_mono [of x "of_nat n"] rnd_nat by simp

lemma rnd_le_1: "x \<le> 1 \<Longrightarrow> rnd x \<le> 1"
  using rnd_mono [of x 1] by simp

lemma rnd_le_exact: "x \<le> of_nat n * 2 powi e \<Longrightarrow> n \<le> 2 ^ p \<Longrightarrow> rnd x \<le> of_nat n * 2 powi e"
  using rnd_mono [of x "of_nat n * 2 powi e"] rnd_exact by simp

lemma rnd_ge_exact: "of_nat n * 2 powi e \<le> x \<Longrightarrow> n \<le> 2 ^ p \<Longrightarrow> of_nat n * 2 powi e \<le> rnd x"
  using rnd_mono [of "of_nat n * 2 powi e" x] rnd_exact by simp

text \<open>A quotient of two converted integers, the smaller by the larger, rounds into \<open>[0, 1]\<close>.\<close>

lemma rnd_quotient:
  assumes "u \<le> v" and "0 < v"
  shows "0 \<le> rnd (rnd (of_nat u) / rnd (of_nat v))" and "rnd (rnd (of_nat u) / rnd (of_nat v)) \<le> 1"
proof -
  have v: "1 \<le> rnd (of_nat v)" using rnd_mono [of 1 "of_nat v"] assms(2) by simp
  have u: "0 \<le> rnd (of_nat u)" "rnd (of_nat u) \<le> rnd (of_nat v)"
    using rnd_nonneg rnd_mono assms(1) by simp_all
  show "0 \<le> rnd (rnd (of_nat u) / rnd (of_nat v))"
    using u v by (intro rnd_nonneg) simp
  have "rnd (of_nat u) / rnd (of_nat v) \<le> 1" using u v by simp
  then show "rnd (rnd (of_nat u) / rnd (of_nat v)) \<le> 1" by (rule rnd_le_1)
qed

end

lemma fp_rounding_to: "1 \<le> p \<Longrightarrow> rounding_to (fp_round p) p"
  by unfold_locales (simp_all add: fp_round_mono fp_round_exact)

text \<open>For error bounds a rounding is also symmetric, and its relative error is bounded.\<close>

locale rounding_error = rounding_to +
  assumes rnd_minus: "rnd (- x) = - rnd x"
    and rnd_error: "\<bar>rnd x - x\<bar> \<le> \<bar>x\<bar> / 2 ^ p"
begin

lemma rnd_within: "\<bar>x\<bar> \<le> B \<Longrightarrow> \<bar>rnd x - x\<bar> \<le> B / 2 ^ p"
  using rnd_error [of x] by (meson divide_right_mono order_trans zero_le_numeral zero_le_power)

text \<open>An error of the argument and the error of the rounding add up.\<close>

lemma rnd_near: "\<bar>x - y\<bar> \<le> E \<Longrightarrow> \<bar>x\<bar> \<le> B \<Longrightarrow> \<bar>rnd x - y\<bar> \<le> E + B / 2 ^ p"
  using rnd_within [of x B] abs_triangle_ineq [of "rnd x - x" "x - y"] by simp

lemma rnd_half: "1 \<le> p \<Longrightarrow> \<bar>rnd x - x\<bar> \<le> \<bar>x\<bar> / 2"
proof -
  assume "1 \<le> p"
  then have "(2 :: rat) ^ 1 \<le> 2 ^ p" by (intro power_increasing) auto
  then have "\<bar>x\<bar> / 2 ^ p \<le> \<bar>x\<bar> / 2" by (intro divide_left_mono) auto
  with rnd_error show ?thesis by (rule order.trans)
qed

lemma rnd_twice: "1 \<le> p \<Longrightarrow> \<bar>x\<bar> \<le> B \<Longrightarrow> \<bar>rnd x\<bar> \<le> 2 * B"
  using rnd_half [of x] by linarith

lemma rnd_int: "\<bar>n\<bar> \<le> 2 ^ p \<Longrightarrow> rnd (of_int n) = of_int n"
proof (cases "0 \<le> n")
  case True
  assume "\<bar>n\<bar> \<le> 2 ^ p"
  then have "nat n \<le> 2 ^ p" using True by (simp add: nat_le_iff)
  then show ?thesis using rnd_nat [of "nat n"] True by simp
next
  case False
  assume "\<bar>n\<bar> \<le> 2 ^ p"
  then have "nat (- n) \<le> 2 ^ p" using False by (simp add: nat_le_iff)
  then show ?thesis using rnd_nat [of "nat (- n)"] rnd_minus [of "of_int (- n)"] False by simp
qed

lemma rnd_pos: "0 < x \<Longrightarrow> 1 \<le> p \<Longrightarrow> 0 < rnd x"
proof -
  assume x: "0 < x" and "1 \<le> p"
  then have "x / 2 ^ p < x" using one_less_power [of "2 :: rat" p] by (simp add: divide_less_eq)
  then show ?thesis using rnd_error [of x] x by (simp add: abs_le_iff) 
qed

end

lemma fp_rounding_error: "1 \<le> p \<Longrightarrow> rounding_error (fp_round p) p"
  using fp_rounding_to [of p] by (simp add: rounding_error_def rounding_error_axioms_def fp_round_error fp_round_minus)

locale rounding = rounding_to rnd 53 for rnd

interpretation double: rounding double_round
  unfolding double_round_def rounding_def by (rule fp_rounding_to) simp

interpretation float: rounding_to float_round 24
  unfolding float_round_def by (rule fp_rounding_to) simp

interpretation ld: rounding_error ld_round 64
  unfolding ld_round_def by (rule fp_rounding_error) simp

interpretation dbl: rounding_error double_round 53
  unfolding double_round_def by (rule fp_rounding_error) simp

subsection \<open>Conversions to integers\<close>

text \<open>
  A conversion to an integer type truncates, and is undefined when the result does not fit. \<open>round_away\<close> is \<^verbatim>\<open>std::round\<close>.
\<close>

definition int_of_fp :: "nat \<Rightarrow> rat \<Rightarrow> int option" where
  "int_of_fp w x =
     (let t = (if 0 \<le> x then \<lfloor>x\<rfloor> else \<lceil>x\<rceil>)
      in if - (2 ^ (w - 1)) \<le> t \<and> t < 2 ^ (w - 1) then Some t else None)"

definition round_away :: "rat \<Rightarrow> int" where
  "round_away x = (if 0 \<le> x then \<lfloor>x + 1 / 2\<rfloor> else \<lceil>x - 1 / 2\<rceil>)"

lemma round_away_error: "\<bar>of_int (round_away x) - x\<bar> \<le> 1 / 2"
proof (cases "0 \<le> x")
  case True
  have "of_int \<lfloor>x + 1 / 2\<rfloor> \<le> x + 1 / 2" "x + 1 / 2 < of_int \<lfloor>x + 1 / 2\<rfloor> + 1" by linarith+
  then show ?thesis using True unfolding round_away_def by (auto simp only: if_True abs_le_iff)
next
  case False
  have "x - 1 / 2 \<le> of_int \<lceil>x - 1 / 2\<rceil>" "of_int \<lceil>x - 1 / 2\<rceil> < x - 1 / 2 + 1" by linarith+
  then show ?thesis using False unfolding round_away_def by (auto simp only: if_False abs_le_iff)
qed

lemma round_away_int [simp]: "round_away (of_int n) = n"
proof -
  have "of_int n - 1 / 2 = (of_int (- n) + 1 / 2) * (- 1 :: rat)" by simp
  then have "\<lceil>of_int n - 1 / 2 :: rat\<rceil> = n" by (simp add: ceiling_eq_iff)
  moreover have "\<lfloor>of_int n + 1 / 2 :: rat\<rfloor> = n" by (simp add: floor_eq_iff)
  ultimately show ?thesis by (simp add: round_away_def)
qed

end
