(* ===== verification/Interpolation_Search.thy ===== *)
theory Interpolation_Search
  imports Linear_Search Doubles
begin

text \<open>
  \<^verbatim>\<open>InterpolationSearch\<close> (\<^verbatim>\<open>src/searches/interpolation_search.h\<close>) on the unsigned key types.
  The position is interpolated in \<^verbatim>\<open>double\<close>; the rounding \<open>rnd\<close> is a parameter of the model and
  the results hold for every rounding of the locale \<open>rounding\<close>, hence for IEEE 754. The loop
  works on the closed interval \<open>[first, last]\<close>, as the code does after \<^verbatim>\<open>--last\<close>. The
  argument \<^verbatim>\<open>less\<close> of the public functions is not used by the code.
\<close>

definition interp_offset ::
    "(rat \<Rightarrow> rat) \<Rightarrow> 'w::len word \<Rightarrow> 'w word \<Rightarrow> 'w word \<Rightarrow> int \<Rightarrow> int \<Rightarrow> int" where
  "interp_offset rnd lookup_key x_first x_last first last' =
     (let rel_position = rnd (rnd (of_nat (unat (lookup_key - x_first)))
                              / rnd (of_nat (unat (x_last - x_first))))
      in \<lfloor>rnd (rel_position * rnd (of_int (last' - first)))\<rfloor>)"

text \<open>\<^verbatim>\<open>while (mid != first && at(mid) == lookup_key) --mid\<close>\<close>

partial_function (option) skip_equal_back ::
    "'w::len word \<Rightarrow> 'w word reader \<Rightarrow> int \<Rightarrow> int \<Rightarrow> int option" where
  "skip_equal_back lookup_key at' mid first =
     (if mid \<noteq> first
      then Option.bind (at' mid)
             (\<lambda>x. if x = lookup_key then skip_equal_back lookup_key at' (mid - 1) first
                   else Some mid)
      else Some mid)"

partial_function (option) interp_lower ::
    "(rat \<Rightarrow> rat) \<Rightarrow> 'w::len word \<Rightarrow> 'w word reader \<Rightarrow> int \<Rightarrow> int \<Rightarrow> int option" where
  "interp_lower rnd lookup_key at' first last' =
     Option.bind (at' first) (\<lambda>x_first. Option.bind (at' last') (\<lambda>x_last.
       if x_first < x_last \<and> x_first < lookup_key \<and> \<not> x_last < lookup_key then
         let mid = first + interp_offset rnd lookup_key x_first x_last first last'
         in Option.bind (at' mid) (\<lambda>x_mid.
              if x_mid < lookup_key then interp_lower rnd lookup_key at' (mid + 1) last'
              else if lookup_key < x_mid then interp_lower rnd lookup_key at' first (mid - 1)
              else Option.bind (skip_equal_back lookup_key at' mid first) (\<lambda>m.
                     Option.bind (at' m) (\<lambda>x. Some (if x < lookup_key then m + 1 else m))))
       else if \<not> x_first < lookup_key then Some first else Some (last' + 1)))"

partial_function (option) interp_upper ::
    "(rat \<Rightarrow> rat) \<Rightarrow> 'w::len word \<Rightarrow> 'w word reader \<Rightarrow> int \<Rightarrow> int \<Rightarrow> int option" where
  "interp_upper rnd lookup_key at' first last' =
     Option.bind (at' first) (\<lambda>x_first. Option.bind (at' last') (\<lambda>x_last.
       if x_first < x_last \<and> \<not> lookup_key < x_first \<and> lookup_key < x_last then
         let mid = first + interp_offset rnd lookup_key x_first x_last first last'
         in Option.bind (at' mid) (\<lambda>x_mid.
              if x_mid < lookup_key then interp_upper rnd lookup_key at' (mid + 1) last'
              else if lookup_key < x_mid then interp_upper rnd lookup_key at' first (mid - 1)
              else scan_forward (\<lambda>x. x = lookup_key) at' mid (last' + 1))
       else if lookup_key < x_first then Some first else Some (last' + 1)))"

definition InterpolationSearch_lower_bound_range ::
    "(rat \<Rightarrow> rat) \<Rightarrow> int \<Rightarrow> int \<Rightarrow> 'w::len word \<Rightarrow> 'w word reader \<Rightarrow> int option" where
  "InterpolationSearch_lower_bound_range rnd first last' lookup_key at' =
     (if first = last' then Some first else interp_lower rnd lookup_key at' first (last' - 1))"

definition InterpolationSearch_upper_bound_range ::
    "(rat \<Rightarrow> rat) \<Rightarrow> int \<Rightarrow> int \<Rightarrow> 'w::len word \<Rightarrow> 'w word reader \<Rightarrow> int option" where
  "InterpolationSearch_upper_bound_range rnd first last' lookup_key at' =
     (if first = last' then Some first else interp_upper rnd lookup_key at' first (last' - 1))"

definition InterpolationSearch_lower_bound ::
    "(rat \<Rightarrow> rat) \<Rightarrow> int \<Rightarrow> int \<Rightarrow> 'w::len word \<Rightarrow> int \<Rightarrow> 'w word reader \<Rightarrow> int option" where
  "InterpolationSearch_lower_bound rnd first last' lookup_key start at' = do {
     right \<leftarrow> (if start \<noteq> last' then map_option (\<lambda>x. x < lookup_key) (at' start)
                else Some False);
     if right then InterpolationSearch_lower_bound_range rnd (start + 1) last' lookup_key at'
     else InterpolationSearch_lower_bound_range rnd first start lookup_key at'
   }"

definition InterpolationSearch_upper_bound ::
    "(rat \<Rightarrow> rat) \<Rightarrow> int \<Rightarrow> int \<Rightarrow> 'w::len word \<Rightarrow> int \<Rightarrow> 'w word reader \<Rightarrow> int option" where
  "InterpolationSearch_upper_bound rnd first last' lookup_key start at' = do {
     left \<leftarrow> (if start = last' then Some True
               else map_option (\<lambda>x. lookup_key < x) (at' start));
     if left then InterpolationSearch_upper_bound_range rnd first start lookup_key at'
     else InterpolationSearch_upper_bound_range rnd (start + 1) last' lookup_key at'
   }"

subsection \<open>The interpolated position stays in the interval\<close>

context rounding
begin

lemma interp_offset_bounds:
  assumes "first \<le> last'" and "last' - first \<le> 2 ^ 53"
    and "x_first \<le> lookup_key" and "lookup_key \<le> x_last" and "x_first < x_last"
  shows "0 \<le> interp_offset rnd lookup_key x_first x_last first last'"
    and "interp_offset rnd lookup_key x_first x_last first last' \<le> last' - first"
proof -
  let ?u = "unat (lookup_key - x_first)" and ?v = "unat (x_last - x_first)"
  let ?d = "nat (last' - first)" and ?q = "rnd (rnd (of_nat ?u) / rnd (of_nat ?v))"
  have uv: "?u \<le> ?v" "0 < ?v"
    using assms by (simp_all add: unat_sub word_le_nat_alt word_less_nat_alt diff_le_mono)
  have d: "(of_int (last' - first) :: rat) = of_nat ?d" "?d \<le> 2 ^ 53" using assms(1,2) by auto
  have q: "0 \<le> ?q" "?q \<le> 1" using rnd_quotient [OF uv] by simp_all
  have p: "0 \<le> ?q * of_nat ?d" "?q * of_nat ?d \<le> of_nat ?d"
    using q by (simp_all add: mult_left_le_one_le)
  then have r: "0 \<le> rnd (?q * of_nat ?d)" "rnd (?q * of_nat ?d) \<le> of_nat ?d"
    using rnd_nonneg rnd_le_nat d(2) by simp_all
  have eq: "interp_offset rnd lookup_key x_first x_last first last' = \<lfloor>rnd (?q * of_nat ?d)\<rfloor>"
    by (simp only: interp_offset_def Let_def d(1) rnd_nat [OF d(2)])
  show "0 \<le> interp_offset rnd lookup_key x_first x_last first last'" unfolding eq using r(1) by simp
  have "\<lfloor>rnd (?q * of_nat ?d)\<rfloor> \<le> \<lfloor>of_nat ?d :: rat\<rfloor>" using r(2) by (rule floor_mono)
  then show "interp_offset rnd lookup_key x_first x_last first last' \<le> last' - first"
    unfolding eq using assms(1) by simp
qed

end

subsection \<open>The scans over equal keys\<close>

lemma skip_equal_back_stop:
  assumes rd: "readable at' a (m + 1)" and sr: "sorted_range at' a (m + 1)"
    and "a \<le> m" and "at' m = Some key" and "below at' key a"
  shows "\<exists>r. skip_equal_back key at' m a = Some r \<and> a \<le> r \<and> r < m \<and> below at' key r \<and>
             (\<forall>i. r < i \<and> i \<le> m \<longrightarrow> at' i = Some key)"
  using assms
proof (induction "nat (m - a)" arbitrary: m)
  case 0
  then show ?case by simp
next
  case (Suc n)
  then have lt: "a < m" by simp
  obtain x where x: "at' (m - 1) = Some x" using readableE [OF Suc.prems(1), of "m - 1"] lt by auto
  have le: "x \<le> key" using sorted_rangeD [OF Suc.prems(2) x Suc.prems(4)] lt by simp
  have step: "skip_equal_back key at' m a = skip_equal_back key at' (m - 1) a"
    using lt Suc.prems(4) by (subst skip_equal_back.simps) simp
  show ?case
  proof (cases "x = key")
    case True
    have "\<exists>r. skip_equal_back key at' (m - 1) a = Some r \<and> a \<le> r \<and> r < m - 1 \<and> below at' key r \<and>
             (\<forall>i. r < i \<and> i \<le> m - 1 \<longrightarrow> at' i = Some key)"
    proof (rule Suc.hyps(1))
      show "n = nat (m - 1 - a)" using Suc.hyps(2) by simp
      show "readable at' a (m - 1 + 1)" using Suc.prems(1) by (rule readable_sub) simp_all
      show "sorted_range at' a (m - 1 + 1)" using Suc.prems(2) by (rule sorted_range_sub) simp_all
    qed (use lt x True Suc.prems(5) in auto)
    then obtain r where r: "skip_equal_back key at' (m - 1) a = Some r" "a \<le> r" "r < m - 1"
        "below at' key r" "\<forall>i. r < i \<and> i \<le> m - 1 \<longrightarrow> at' i = Some key" by blast
    have "at' i = Some key" if "r < i" "i \<le> m" for i
      using that r(5) Suc.prems(4) by (cases "i = m") auto
    then show ?thesis using r step by auto
  next
    case False
    have "skip_equal_back key at' (m - 1) a = Some (m - 1)"
      using x False by (subst skip_equal_back.simps) simp
    moreover have "at' i = Some key" if "m - 1 < i" "i \<le> m" for i
      using that Suc.prems(4) by (cases "i = m") auto
    ultimately show ?thesis using step lt x le False by auto
  qed
qed

subsection \<open>The loops\<close>

text \<open>
  What every iteration keeps of the interval \<open>[l, h]\<close> inside \<open>[a, b)\<close>: the keys before it are on
  the left of the partition point, those after it on the right.
\<close>

definition narrowed :: "(int \<Rightarrow> bool) \<Rightarrow> int \<Rightarrow> int \<Rightarrow> int \<Rightarrow> int \<Rightarrow> bool" where
  "narrowed Q a b l h \<longleftrightarrow> a \<le> l \<and> l \<le> h \<and> h < b \<and>
     (\<forall>i. a \<le> i \<and> i < l \<longrightarrow> Q i) \<and> (\<forall>i. h < i \<and> i < b \<longrightarrow> \<not> Q i)"

lemma narrowed_right:
  assumes "narrowed Q a b l h" and "partitioned Q a b" and "Q m" and "l \<le> m" and "m < h"
  shows "narrowed Q a b (m + 1) h"
  unfolding narrowed_def
proof (intro conjI allI impI)
  fix i assume "a \<le> i \<and> i < m + 1"
  then show "Q i" using partitionedD [OF assms(2,3)] assms(1,5) by (auto simp: narrowed_def)
qed (use assms in \<open>auto simp: narrowed_def\<close>)

lemma narrowed_left:
  assumes "narrowed Q a b l h" and "partitioned Q a b" and "\<not> Q m" and "l < m" and "m \<le> h"
  shows "narrowed Q a b l (m - 1)"
  unfolding narrowed_def
proof (intro conjI allI impI)
  fix i assume i: "m - 1 < i \<and> i < b"
  then show "\<not> Q i" using partitionedD [OF assms(2), of i m] assms(1,3,4) by (auto simp: narrowed_def)
qed (use assms in \<open>auto simp: narrowed_def\<close>)

lemma narrowed_left_end:
  assumes "narrowed Q a b l h" and "partitioned Q a b" and "\<not> Q l"
  shows "part_point Q a b l"
  unfolding part_point_def
proof (intro conjI allI impI)
  fix i assume "l \<le> i \<and> i < b"
  then show "\<not> Q i" using partitionedD [OF assms(2), of i l] assms by (auto simp: narrowed_def)
qed (use assms in \<open>auto simp: narrowed_def\<close>)

lemma narrowed_right_end:
  assumes "narrowed Q a b l h" and "partitioned Q a b" and "Q h"
  shows "part_point Q a b (h + 1)"
  unfolding part_point_def
proof (intro conjI allI impI)
  fix i assume "a \<le> i \<and> i < h + 1"
  then show "Q i" using partitionedD [OF assms(2,3), of i] assms(1) by (auto simp: narrowed_def)
qed (use assms in \<open>auto simp: narrowed_def\<close>)

lemma narrowed_init: "a < b \<Longrightarrow> narrowed Q a b a (b - 1)"
  by (auto simp: narrowed_def)

context rounding
begin

lemma interp_lower_point:
  assumes rd: "readable at' a b" and sr: "sorted_range at' a b" and "b - a \<le> 2 ^ 53"
    and "narrowed (below at' key) a b l h"
  shows "\<exists>r. interp_lower rnd key at' l h = Some r \<and> part_point (below at' key) a b r"
  using assms(4)
proof (induction "nat (h - l)" arbitrary: l h rule: less_induct)
  case less
  let ?Q = "below at' key"
  note pt = partitioned_below [OF rd sr, of key] and nw = less.prems
  have lh: "a \<le> l" "l \<le> h" "h < b" using nw by (auto simp: narrowed_def)
  obtain xl where xl: "at' l = Some xl" using readableE [OF rd, of l] lh by auto
  obtain xh where xh: "at' h = Some xh" using readableE [OF rd, of h] lh by auto
  have mono: "xl \<le> xh" using sorted_rangeD [OF sr xl xh] lh by simp
  show ?case
  proof (cases "xl < xh \<and> xl < key \<and> \<not> xh < key")
    case False
    show ?thesis
    proof (cases "xl < key")
      case True
      then have "xh < key" using False mono by auto
      then show ?thesis using narrowed_right_end [OF nw pt] xl xh True
        by (subst interp_lower.simps) auto
    next
      case False
      then show ?thesis using narrowed_left_end [OF nw pt] xl xh
        by (subst interp_lower.simps) auto
    qed
  next
    case loop: True
    define m where "m = l + interp_offset rnd key xl xh l h"
    have "h - l \<le> 2 ^ 53" "xl \<le> key" "key \<le> xh" "xl < xh" using loop lh assms(3) by auto
    then have m: "l \<le> m" "m \<le> h"
      using interp_offset_bounds [OF lh(2)] unfolding m_def by (simp_all add: algebra_simps)
    obtain xm where xm: "at' m = Some xm" using readableE [OF rd, of m] m lh by auto
    have unfold: "interp_lower rnd key at' l h =
        (if xm < key then interp_lower rnd key at' (m + 1) h
         else if key < xm then interp_lower rnd key at' l (m - 1)
         else Option.bind (skip_equal_back key at' m l) (\<lambda>m.
                Option.bind (at' m) (\<lambda>x. Some (if x < key then m + 1 else m))))"
      using xl xh xm loop by (subst interp_lower.simps) (simp flip: m_def)
    consider "xm < key" | "key < xm" | "xm = key" by fastforce
    then show ?thesis
    proof cases
      case 1
      then have "m < h" using loop xh xm m by (cases "m = h") auto
      then have "narrowed ?Q a b (m + 1) h" using narrowed_right [OF nw pt] xm 1 m by simp
      with less.hyps [of h "m + 1"] \<open>m < h\<close> m show ?thesis using 1 unfold by simp
    next
      case 2
      then have "l < m" using loop xl xm m by (cases "m = l") auto
      then have "narrowed ?Q a b l (m - 1)" using narrowed_left [OF nw pt] xm 2 m by simp
      with less.hyps [of "m - 1" l] \<open>l < m\<close> m show ?thesis
        using 2 unfold less_not_sym [OF 2] by simp
    next
      case 3
      have sub: "readable at' l (m + 1)" "sorted_range at' l (m + 1)"
        using readable_sub [OF rd, of l "m + 1"] sorted_range_sub [OF sr, of l "m + 1"] lh m by auto
      obtain r where r: "skip_equal_back key at' m l = Some r" "l \<le> r" "r < m" "below at' key r"
          "\<forall>i. r < i \<and> i \<le> m \<longrightarrow> at' i = Some key"
        using skip_equal_back_stop [OF sub m(1), of key] xm xl loop 3 by auto
      have "narrowed ?Q a b l r"
        using narrowed_left [OF nw pt, of "r + 1"] r m lh by auto
      then have "part_point ?Q a b (r + 1)" using narrowed_right_end pt r(4) by blast
      then show ?thesis using unfold 3 r by (auto split: option.splits)
    qed
  qed
qed

lemma interp_upper_point:
  assumes rd: "readable at' a b" and sr: "sorted_range at' a b" and "b - a \<le> 2 ^ 53"
    and "narrowed (upto_key at' key) a b l h"
  shows "\<exists>r. interp_upper rnd key at' l h = Some r \<and> part_point (upto_key at' key) a b r"
  using assms(4)
proof (induction "nat (h - l)" arbitrary: l h rule: less_induct)
  case less
  let ?Q = "upto_key at' key"
  note pt = partitioned_upto [OF rd sr, of key] and nw = less.prems
  have lh: "a \<le> l" "l \<le> h" "h < b" using nw by (auto simp: narrowed_def)
  obtain xl where xl: "at' l = Some xl" using readableE [OF rd, of l] lh by auto
  obtain xh where xh: "at' h = Some xh" using readableE [OF rd, of h] lh by auto
  have mono: "xl \<le> xh" using sorted_rangeD [OF sr xl xh] lh by simp
  show ?case
  proof (cases "xl < xh \<and> \<not> key < xl \<and> key < xh")
    case False
    show ?thesis
    proof (cases "key < xl")
      case True
      then show ?thesis using narrowed_left_end [OF nw pt] xl xh
        by (subst interp_upper.simps) auto
    next
      case le: False
      then have "\<not> key < xh" using False mono by auto
      then show ?thesis using narrowed_right_end [OF nw pt] xl xh le
        by (subst interp_upper.simps) auto
    qed
  next
    case loop: True
    define m where "m = l + interp_offset rnd key xl xh l h"
    have "h - l \<le> 2 ^ 53" "xl \<le> key" "key \<le> xh" "xl < xh" using loop lh assms(3) by auto
    then have m: "l \<le> m" "m \<le> h"
      using interp_offset_bounds [OF lh(2)] unfolding m_def by (simp_all add: algebra_simps)
    obtain xm where xm: "at' m = Some xm" using readableE [OF rd, of m] m lh by auto
    have unfold: "interp_upper rnd key at' l h =
        (if xm < key then interp_upper rnd key at' (m + 1) h
         else if key < xm then interp_upper rnd key at' l (m - 1)
         else scan_forward (\<lambda>x. x = key) at' m (h + 1))"
      using xl xh xm loop by (subst interp_upper.simps) (simp flip: m_def)
    consider "xm < key" | "key < xm" | "xm = key" by fastforce
    then show ?thesis
    proof cases
      case 1
      then have "m < h" using loop xh xm m by (cases "m = h") auto
      then have "narrowed ?Q a b (m + 1) h" using narrowed_right [OF nw pt] xm 1 m by auto
      with less.hyps [of h "m + 1"] \<open>m < h\<close> m show ?thesis using 1 unfold by simp
    next
      case 2
      then have "l < m" using loop xl xm m by (cases "m = l") auto
      then have "narrowed ?Q a b l (m - 1)" using narrowed_left [OF nw pt] xm 2 m by simp
      with less.hyps [of "m - 1" l] \<open>l < m\<close> m show ?thesis
        using 2 unfold less_not_sym [OF 2] by simp
    next
      case 3
      have sub: "readable at' m (h + 1)" using rd lh m by (auto simp: readable_def)
      have same: "sat at' (\<lambda>x. x = key) i \<longleftrightarrow> ?Q i" if i: "m \<le> i" "i < h + 1" for i
      proof -
        obtain x where "at' i = Some x" using readableE [OF sub i] by blast
        moreover have "key \<le> x"
          using sorted_rangeD [OF sr xm calculation] 3 i lh m by simp
        ultimately show ?thesis by auto
      qed
      have "partitioned (sat at' (\<lambda>x. x = key)) m (h + 1)"
        unfolding partitioned_def
      proof (intro allI impI)
        fix i j assume ij: "m \<le> i \<and> i \<le> j \<and> j < h + 1 \<and> sat at' (\<lambda>x. x = key) j"
        then have "?Q j" using same [of j] by auto
        then have "?Q i" using partitionedD [OF pt, of j i] ij lh m by auto
        then show "sat at' (\<lambda>x. x = key) i" using same [of i] ij by auto
      qed
      then obtain r where r: "scan_forward (\<lambda>x. x = key) at' m (h + 1) = Some r"
          "part_point (sat at' (\<lambda>x. x = key)) m (h + 1) r"
        using scan_forward_point [of m "h + 1" at' "\<lambda>x. x = key"] sub m by auto
      have "part_point ?Q m (h + 1) r" using r(2) same by (auto simp: part_point_def)
      then have "part_point ?Q a (h + 1) r"
      proof (rule part_point_extend_left)
        show "?Q i" if "a \<le> i" "i < m" for i
          using partitionedD [OF pt, of m i] that xm 3 m lh by auto
      qed (use lh m in auto)
      then have "part_point ?Q a b r"
        by (rule part_point_extend_right) (use nw lh in \<open>auto simp: narrowed_def\<close>)
      then show ?thesis using unfold 3 r(1) by simp
    qed
  qed
qed

lemma InterpolationSearch_lower_bound_range_point:
  assumes "a \<le> b" and "b - a \<le> 2 ^ 53" and "readable at' a b" and "sorted_range at' a b"
  shows "\<exists>r. InterpolationSearch_lower_bound_range rnd a b key at' = Some r \<and>
             part_point (below at' key) a b r"
proof (cases "a = b")
  case False
  then show ?thesis
    using interp_lower_point [OF assms(3,4,2) narrowed_init] assms(1)
    by (simp add: InterpolationSearch_lower_bound_range_def)
qed (simp add: InterpolationSearch_lower_bound_range_def part_point_empty)

lemma InterpolationSearch_upper_bound_range_point:
  assumes "a \<le> b" and "b - a \<le> 2 ^ 53" and "readable at' a b" and "sorted_range at' a b"
  shows "\<exists>r. InterpolationSearch_upper_bound_range rnd a b key at' = Some r \<and>
             part_point (upto_key at' key) a b r"
proof (cases "a = b")
  case False
  then show ?thesis
    using interp_upper_point [OF assms(3,4,2) narrowed_init] assms(1)
    by (simp add: InterpolationSearch_upper_bound_range_def)
qed (simp add: InterpolationSearch_upper_bound_range_def part_point_empty)

lemma InterpolationSearch_lower_bound_point:
  assumes pre: "search_pre at' a b s"
  shows "\<exists>r. InterpolationSearch_lower_bound rnd a b key s at' = Some r \<and>
             part_point (below at' key) a b r"
proof -
  have h: "a \<le> s" "s \<le> b" "b - a \<le> 2 ^ 53" "readable at' a b" "sorted_range at' a b"
    using pre by (auto simp: search_pre_def)
  note sub = readable_sub [OF h(4)] sorted_range_sub [OF h(5)]
  have "\<exists>r. (if s < b \<and> below at' key s
             then InterpolationSearch_lower_bound_range rnd (s + 1) b key at'
             else InterpolationSearch_lower_bound_range rnd a s key at') = Some r \<and>
        part_point (below at' key) a b r"
    using search_pre_partitioned(1) [OF pre] h(1,2)
    by (rule from_start_point; intro InterpolationSearch_lower_bound_range_point) (use sub h in auto)
  then show ?thesis
    unfolding InterpolationSearch_lower_bound_def start_test [OF h(4,1,2)] by (auto split: if_splits)
qed

lemma InterpolationSearch_upper_bound_point:
  assumes pre: "search_pre at' a b s"
  shows "\<exists>r. InterpolationSearch_upper_bound rnd a b key s at' = Some r \<and>
             part_point (upto_key at' key) a b r"
proof -
  have h: "a \<le> s" "s \<le> b" "b - a \<le> 2 ^ 53" "readable at' a b" "sorted_range at' a b"
    using pre by (auto simp: search_pre_def)
  note sub = readable_sub [OF h(4)] sorted_range_sub [OF h(5)]
  have "\<exists>r. (if s < b \<and> upto_key at' key s
             then InterpolationSearch_upper_bound_range rnd (s + 1) b key at'
             else InterpolationSearch_upper_bound_range rnd a s key at') = Some r \<and>
        part_point (upto_key at' key) a b r"
    using search_pre_partitioned(2) [OF pre] h(1,2)
    by (rule from_start_point; intro InterpolationSearch_upper_bound_range_point) (use sub h in auto)
  then show ?thesis
    unfolding InterpolationSearch_upper_bound_def start_test_upper [OF h(4,1,2)] by (auto split: if_splits)
qed

end

text \<open>
  Every rounding gives a search class; the interpretation takes the rounding of IEEE 754.
\<close>

sublocale rounding \<subseteq> interpolation: search_class
  "\<lambda>a b key s at'. InterpolationSearch_lower_bound rnd a b key s at'"
  "\<lambda>a b key s at'. InterpolationSearch_upper_bound rnd a b key s at'"
  by unfold_locales
    (rule InterpolationSearch_lower_bound_point InterpolationSearch_upper_bound_point, assumption)+

subsection \<open>Correctness\<close>

text \<open>C28. The interpolation search, with its relative position computed in \<open>double\<close>, ends and
  returns the lower and the upper bound of the key on every sorted range of machine words: the
  rounded position never leaves the interval that is left, so no read is out of range.\<close>

theorem interpolation_search_correct:
  assumes "search_pre at' first last' start"
  shows "InterpolationSearch_lower_bound double_round first last' key start at' = Some (ref_point (below at' key) first last') \<and>
         InterpolationSearch_upper_bound double_round first last' key start at' = Some (ref_point (upto_key at' key) first last')"
  using double.interpolation.lower_bound_ref [OF assms] double.interpolation.upper_bound_ref [OF assms] by simp

text \<open>The same on the array \<open>2, 5, 5, 9\<close>.\<close>

theorem interpolation_search_correct_witness:
  "InterpolationSearch_lower_bound double_round 0 4 5 3 (list_reader [2, 5, 5, 9::u64]) = Some 1 \<and>
   InterpolationSearch_upper_bound double_round 0 4 5 3 (list_reader [2, 5, 5, 9::u64]) = Some 3"
proof -
  have "search_pre (list_reader [2, 5, 5, 9::u64]) 0 4 3"
    by (rule search_pre_list) auto
  from interpolation_search_correct [OF this, of 5] show ?thesis
    by (simp add: ref_point_list)
qed

end
