(* ===== verification/Avx_Search.thy ===== *)
theory Avx_Search
  imports Linear_Search
begin

text \<open>
  \<^verbatim>\<open>LinearAVX\<close> (\<^verbatim>\<open>src/searches/linear_search_avx.h\<close>) and the unsigned comparisons it uses
  (\<^verbatim>\<open>src/util.h\<close>). A \<^verbatim>\<open>__m256i\<close> is the list of its eight 32-bit lanes, the lowest first; its four
  64-bit lanes are the pairs of those. The intrinsics are the operations of the AVX2
  instructions on these lanes: the two \<^verbatim>\<open>packs\<close> saturate and interleave the 128-bit halves,
  \<^verbatim>\<open>movemask\<close> collects the sign bits.

  The vector loads read the memory under the iterator and not through \<^verbatim>\<open>at\<close>, so the model
  has both readers; the search is right when they agree, i.e. on an array of plain keys.
\<close>

unbundle bit_operations_syntax

type_synonym m256i = "u32 list"

subsection \<open>Intrinsics\<close>

fun qwords :: "m256i \<Rightarrow> u64 list" where
  "qwords (l # h # xs) = (word_cat h l) # qwords xs"
| "qwords _ = []"

fun of_qwords :: "u64 list \<Rightarrow> m256i" where
  "of_qwords [] = []"
| "of_qwords (x # xs) = ucast x # ucast (drop_bit 32 x) # of_qwords xs"

definition mm256_set1_epi32 :: "u32 \<Rightarrow> m256i" where
  "mm256_set1_epi32 a = replicate 8 a"

definition mm256_set1_epi64x :: "u64 \<Rightarrow> m256i" where
  "mm256_set1_epi64x a = of_qwords (replicate 4 a)"

definition mm256_max_epu32 :: "m256i \<Rightarrow> m256i \<Rightarrow> m256i" where
  "mm256_max_epu32 = map2 max"

definition mm256_cmpeq_epi32 :: "m256i \<Rightarrow> m256i \<Rightarrow> m256i" where
  "mm256_cmpeq_epi32 = map2 (\<lambda>x y. if x = y then -1 else 0)"

definition mm256_xor_si256 :: "m256i \<Rightarrow> m256i \<Rightarrow> m256i" where
  "mm256_xor_si256 = map2 (XOR)"

definition mm256_cmpgt_epi64 :: "m256i \<Rightarrow> m256i \<Rightarrow> m256i" where
  "mm256_cmpgt_epi64 a b =
     of_qwords (map2 (\<lambda>x y. if sint x > sint y then -1 else 0) (qwords a) (qwords b))"

definition saturate16 :: "u32 \<Rightarrow> u16" where
  "saturate16 x = word_of_int (max (- (2 ^ 15)) (min (2 ^ 15 - 1) (sint x)))"

definition saturate8 :: "u16 \<Rightarrow> u8" where
  "saturate8 x = word_of_int (max (- (2 ^ 7)) (min (2 ^ 7 - 1) (sint x)))"

definition mm256_packs_epi32 :: "m256i \<Rightarrow> m256i \<Rightarrow> u16 list" where
  "mm256_packs_epi32 a b = map saturate16 (take 4 a @ take 4 b @ drop 4 a @ drop 4 b)"

definition mm256_packs_epi16 :: "u16 list \<Rightarrow> u16 list \<Rightarrow> u8 list" where
  "mm256_packs_epi16 a b = map saturate8 (take 8 a @ take 8 b @ drop 8 a @ drop 8 b)"

definition mm256_movemask_epi8 :: "u8 list \<Rightarrow> u32" where
  "mm256_movemask_epi8 v = horner_sum of_bool 2 (map (\<lambda>b. bit b 7) v)"

definition builtin_popcount :: "u32 \<Rightarrow> nat" where
  "builtin_popcount r = length (filter (bit r) [0..<32])"

subsection \<open>Unsigned comparisons\<close>

definition mm256_cmpge_epu32 :: "m256i \<Rightarrow> m256i \<Rightarrow> m256i" where
  "mm256_cmpge_epu32 a b = mm256_cmpeq_epi32 (mm256_max_epu32 a b) a"

definition mm256_cmple_epu32 :: "m256i \<Rightarrow> m256i \<Rightarrow> m256i" where
  "mm256_cmple_epu32 a b = mm256_cmpge_epu32 b a"

definition mm256_cmpgt_epu32 :: "m256i \<Rightarrow> m256i \<Rightarrow> m256i" where
  "mm256_cmpgt_epu32 a b = mm256_xor_si256 (mm256_cmple_epu32 a b) (mm256_set1_epi32 (-1))"

definition mm256_cmplt_epu32 :: "m256i \<Rightarrow> m256i \<Rightarrow> m256i" where
  "mm256_cmplt_epu32 a b = mm256_cmpgt_epu32 b a"

definition mm256_cmpgt_epu64 :: "m256i \<Rightarrow> m256i \<Rightarrow> m256i" where
  "mm256_cmpgt_epu64 a b =
     (let highBit = mm256_set1_epi64x 0x8000000000000000
      in mm256_cmpgt_epi64 (mm256_xor_si256 a highBit) (mm256_xor_si256 b highBit))"

definition mm256_cmplt_epu64 :: "m256i \<Rightarrow> m256i \<Rightarrow> m256i" where
  "mm256_cmplt_epu64 a b = mm256_cmpgt_epu64 b a"

definition mm256_cmpge_epu64 :: "m256i \<Rightarrow> m256i \<Rightarrow> m256i" where
  "mm256_cmpge_epu64 a b = mm256_xor_si256 (mm256_cmplt_epu64 a b) (mm256_set1_epi32 (-1))"

definition mm256_cmple_epu64 :: "m256i \<Rightarrow> m256i \<Rightarrow> m256i" where
  "mm256_cmple_epu64 a b = mm256_cmpge_epu64 b a"

subsection \<open>The block scan\<close>

text \<open>A load of \<open>lanes\<close> consecutive keys; \<open>None\<close> when one of them is outside the array.\<close>

fun load_keys :: "'k reader \<Rightarrow> int \<Rightarrow> nat \<Rightarrow> 'k list option" where
  "load_keys mem it 0 = Some []"
| "load_keys mem it (Suc n) = do { x \<leftarrow> mem it; xs \<leftarrow> load_keys mem (it + 1) n; Some (x # xs) }"

definition mm256_loadu_epi32 :: "u32 reader \<Rightarrow> int \<Rightarrow> m256i option" where
  "mm256_loadu_epi32 mem it = load_keys mem it 8"

definition mm256_loadu_epi64 :: "u64 reader \<Rightarrow> int \<Rightarrow> m256i option" where
  "mm256_loadu_epi64 mem it = map_option of_qwords (load_keys mem it 4)"

text \<open>
  One turn of the loop: four vectors are compared with the key, forwards from \<open>it\<close> or backwards
  from just before it. The result is the mask of the 32 bytes and the moved iterator.
\<close>

definition avx_block ::
    "bool \<Rightarrow> int \<Rightarrow> (int \<Rightarrow> m256i option) \<Rightarrow> (m256i \<Rightarrow> m256i) \<Rightarrow> int \<Rightarrow> (u32 \<times> int) option" where
  "avx_block direction lanes load cmp it = do {
     let step = (if direction then lanes else - lanes);
     let it0 = (if direction then it else it - lanes);
     v0 \<leftarrow> load it0;
     v1 \<leftarrow> load (it0 + step);
     v2 \<leftarrow> load (it0 + 2 * step);
     v3 \<leftarrow> load (it0 + 3 * step);
     let pack01 = mm256_packs_epi32 (cmp v0) (cmp v1);
     let pack23 = mm256_packs_epi32 (cmp v2) (cmp v3);
     let res = mm256_movemask_epi8 (mm256_packs_epi16 pack01 pack23);
     Some (res, if direction then it0 + 4 * step else it0 + 3 * step)
   }"

partial_function (option) avx_loop ::
    "bool \<Rightarrow> int \<Rightarrow> (int \<Rightarrow> m256i option) \<Rightarrow> (m256i \<Rightarrow> m256i) \<Rightarrow> nat \<Rightarrow> nat \<Rightarrow> int \<Rightarrow> u32
      \<Rightarrow> (nat \<times> int \<times> u32) option" where
  "avx_loop direction lanes load cmp n i it res =
     (if i \<le> n
      then Option.bind (avx_block direction lanes load cmp it) (\<lambda>(res', it').
             if res' \<noteq> -1 then Some (i, it', res')
             else avx_loop direction lanes load cmp n ((i + nat (4 * lanes)) mod 2 ^ 64) it' res')
      else Some (i, it, res))"

definition scan_avx ::
    "bool \<Rightarrow> int \<Rightarrow> (int \<Rightarrow> m256i option) \<Rightarrow> (m256i \<Rightarrow> m256i) \<Rightarrow> (u32 \<Rightarrow> int)
      \<Rightarrow> (int \<Rightarrow> int \<Rightarrow> int \<Rightarrow> int option) \<Rightarrow> int \<Rightarrow> int \<Rightarrow> int option" where
  "scan_avx direction lanes load cmp delta func_search move_it end_it = do {
     let n = to_size_t (if direction then end_it - move_it else move_it - end_it);
     let block = nat (4 * lanes);
     (i, it, res) \<leftarrow> (if n \<ge> block then avx_loop direction lanes load cmp n block move_it 0
                       else Some (block, move_it, 0));
     if n \<ge> block \<and> i \<le> n
     then Some (if direction then it - delta res else it + delta res)
     else if direction then func_search it end_it it
     else func_search end_it it it
   }"

definition scan_avx_u32 ::
    "bool \<Rightarrow> (int \<Rightarrow> int \<Rightarrow> int \<Rightarrow> int option) \<Rightarrow> (m256i \<Rightarrow> m256i \<Rightarrow> m256i) \<Rightarrow> int \<Rightarrow> int \<Rightarrow> u32
      \<Rightarrow> u32 reader \<Rightarrow> int option" where
  "scan_avx_u32 direction func_search func_cmp move_it end_it lookup_key mem =
     scan_avx direction 8 (mm256_loadu_epi32 mem) (\<lambda>v. func_cmp v (mm256_set1_epi32 lookup_key))
       (\<lambda>res. 32 - int (builtin_popcount res)) func_search move_it end_it"

definition scan_avx_u64 ::
    "bool \<Rightarrow> (int \<Rightarrow> int \<Rightarrow> int \<Rightarrow> int option) \<Rightarrow> (m256i \<Rightarrow> m256i \<Rightarrow> m256i) \<Rightarrow> int \<Rightarrow> int \<Rightarrow> u64
      \<Rightarrow> u64 reader \<Rightarrow> int option" where
  "scan_avx_u64 direction func_search func_cmp move_it end_it lookup_key mem =
     scan_avx direction 4 (mm256_loadu_epi64 mem) (\<lambda>v. func_cmp v (mm256_set1_epi64x lookup_key))
       (\<lambda>res. 16 - int (builtin_popcount res div 2)) func_search move_it end_it"

subsection \<open>The searches\<close>

definition LinearAVX_u32_lower_bound ::
    "int \<Rightarrow> int \<Rightarrow> u32 \<Rightarrow> int \<Rightarrow> u32 reader \<Rightarrow> u32 reader \<Rightarrow> (u32 \<Rightarrow> u32 \<Rightarrow> bool) \<Rightarrow> int option" where
  "LinearAVX_u32_lower_bound first last' lookup_key start mem at lt =
     (if first = last' then Some first
      else do {
        right \<leftarrow> (if start \<noteq> last' then map_option (\<lambda>x. x < lookup_key) (at start)
                   else Some False);
        let search = (\<lambda>a b s. LinearSearch_lower_bound a b lookup_key s at lt);
        if right
        then scan_avx_u32 True search mm256_cmplt_epu32 (start + 1) last' lookup_key mem
        else scan_avx_u32 False search mm256_cmpge_epu32 start first lookup_key mem
      })"

definition LinearAVX_u32_upper_bound ::
    "int \<Rightarrow> int \<Rightarrow> u32 \<Rightarrow> int \<Rightarrow> u32 reader \<Rightarrow> u32 reader \<Rightarrow> (u32 \<Rightarrow> u32 \<Rightarrow> bool) \<Rightarrow> int option" where
  "LinearAVX_u32_upper_bound first last' lookup_key start mem at lt =
     (if first = last' then Some first
      else do {
        left \<leftarrow> (if start = last' then Some True
                  else map_option (\<lambda>x. lookup_key < x) (at start));
        let search = (\<lambda>a b s. LinearSearch_upper_bound a b lookup_key s at lt);
        if left
        then scan_avx_u32 False search mm256_cmpgt_epu32 start first lookup_key mem
        else scan_avx_u32 True search mm256_cmple_epu32 (start + 1) last' lookup_key mem
      })"

definition LinearAVX_u64_lower_bound ::
    "int \<Rightarrow> int \<Rightarrow> u64 \<Rightarrow> int \<Rightarrow> u64 reader \<Rightarrow> u64 reader \<Rightarrow> (u64 \<Rightarrow> u64 \<Rightarrow> bool) \<Rightarrow> int option" where
  "LinearAVX_u64_lower_bound first last' lookup_key start mem at lt =
     (if first = last' then Some first
      else do {
        right \<leftarrow> (if start \<noteq> last' then map_option (\<lambda>x. x < lookup_key) (at start)
                   else Some False);
        let search = (\<lambda>a b s. LinearSearch_lower_bound a b lookup_key s at lt);
        if right
        then scan_avx_u64 True search mm256_cmplt_epu64 (start + 1) last' lookup_key mem
        else scan_avx_u64 False search mm256_cmpge_epu64 start first lookup_key mem
      })"

definition LinearAVX_u64_upper_bound ::
    "int \<Rightarrow> int \<Rightarrow> u64 \<Rightarrow> int \<Rightarrow> u64 reader \<Rightarrow> u64 reader \<Rightarrow> (u64 \<Rightarrow> u64 \<Rightarrow> bool) \<Rightarrow> int option" where
  "LinearAVX_u64_upper_bound first last' lookup_key start mem at lt =
     (if first = last' then Some first
      else do {
        left \<leftarrow> (if start = last' then Some True
                  else map_option (\<lambda>x. lookup_key < x) (at start));
        let search = (\<lambda>a b s. LinearSearch_upper_bound a b lookup_key s at lt);
        if left
        then scan_avx_u64 False search mm256_cmpgt_epu64 start first lookup_key mem
        else scan_avx_u64 True search mm256_cmple_epu64 (start + 1) last' lookup_key mem
      })"

subsection \<open>Masks\<close>

definition bmask :: "bool \<Rightarrow> 'w::len word" where
  "bmask b = (if b then -1 else 0)"

lemma bit_bmask: "bit (bmask b :: 'w::len word) n \<longleftrightarrow> n < LENGTH('w) \<and> b"
  by (simp add: bmask_def bit_simps)

lemma bmask_xor [simp]: "bmask b XOR -1 = bmask (\<not> b)"
  by (simp add: bmask_def)

lemma cmpge_epu32_mask:
  "length a = length b \<Longrightarrow> mm256_cmpge_epu32 a b = map2 (\<lambda>x y. bmask (y \<le> x)) a b"
  unfolding mm256_cmpge_epu32_def mm256_cmpeq_epi32_def mm256_max_epu32_def
  by (induction a b rule: list_induct2) (auto simp: bmask_def max_def)

lemma xor_ones_mask:
  "length bs = 8 \<Longrightarrow> mm256_xor_si256 (map bmask bs) (mm256_set1_epi32 (-1)) = map bmask (map Not bs)"
  unfolding mm256_xor_si256_def mm256_set1_epi32_def
  by (rule nth_equalityI) (simp_all add: bmask_def)

text \<open>Comparing a vector with the broadcast key: the mask of each lane.\<close>

lemma map2_replicate:
  assumes "length v = n"
  shows "map2 f v (replicate n k) = map (\<lambda>x. f x k) v" and "map2 f (replicate n k) v = map (f k) v"
  using assms by (auto simp: list_eq_iff_nth_eq)

lemma cmp_epu32_set1:
  assumes "length v = 8"
  shows "mm256_cmpge_epu32 v (mm256_set1_epi32 k) = map bmask (map (\<lambda>x. k \<le> x) v)"
    and "mm256_cmple_epu32 v (mm256_set1_epi32 k) = map bmask (map (\<lambda>x. x \<le> k) v)"
    and "mm256_cmpgt_epu32 v (mm256_set1_epi32 k) = map bmask (map (\<lambda>x. k < x) v)"
    and "mm256_cmplt_epu32 v (mm256_set1_epi32 k) = map bmask (map (\<lambda>x. x < k) v)"
proof -
  let ?k = "mm256_set1_epi32 k"
  have len: "length v = length ?k" "length ?k = length v" using assms by (simp_all add: mm256_set1_epi32_def)
  show ge: "mm256_cmpge_epu32 v ?k = map bmask (map (\<lambda>x. k \<le> x) v)"
    unfolding cmpge_epu32_mask [OF len(1)] unfolding mm256_set1_epi32_def map2_replicate(1) [OF assms] by simp
  show le: "mm256_cmple_epu32 v ?k = map bmask (map (\<lambda>x. x \<le> k) v)"
    unfolding mm256_cmple_epu32_def cmpge_epu32_mask [OF len(2)]
    unfolding mm256_set1_epi32_def map2_replicate(2) [OF assms] by simp
  show "mm256_cmpgt_epu32 v ?k = map bmask (map (\<lambda>x. k < x) v)"
    unfolding mm256_cmpgt_epu32_def le using assms by (subst xor_ones_mask) (auto simp: not_le)
  show "mm256_cmplt_epu32 v ?k = map bmask (map (\<lambda>x. x < k) v)"
    unfolding mm256_cmplt_epu32_def mm256_cmpgt_epu32_def mm256_cmple_epu32_def ge
    using assms by (subst xor_ones_mask) (auto simp: not_le)
qed

lemma word_cat_split64: "word_cat (ucast (drop_bit 32 x) :: u32) (ucast x :: u32) = (x :: u64)"
  by (rule bit_word_eqI) (auto simp: bit_word_cat_iff bit_drop_bit_eq bit_ucast_iff)

lemma qwords_of_qwords [simp]: "qwords (of_qwords xs) = xs"
  by (induction xs) (simp_all add: word_cat_split64)

lemma xor_of_qwords:
  "length xs = length ys \<Longrightarrow>
   mm256_xor_si256 (of_qwords xs) (of_qwords ys) = of_qwords (map2 (XOR) xs ys)"
  unfolding mm256_xor_si256_def
  by (induction xs ys rule: list_induct2)
    (auto simp: unsigned_xor_eq intro: bit_word_eqI simp: bit_simps)

text \<open>Flipping the sign bit turns the unsigned order into the signed one.\<close>

lemma and_exp_zero: "\<not> bit (x::'w::len word) n \<Longrightarrow> x AND 2 ^ n = 0"
  by (rule bit_word_eqI) (auto simp: bit_simps bit_exp_iff)

lemma xor_exp_add: "\<not> bit (x::'w::len word) n \<Longrightarrow> x XOR 2 ^ n = x + 2 ^ n"
  by (simp add: disjunctive_add_eq_or disjunctive_xor_eq_or and_exp_zero)

lemma flip_add: "(x XOR 2 ^ 63) + 2 ^ 63 = (x :: u64)"
proof (cases "bit x 63")
  case True
  define m :: "u64" where "m = 2 ^ 63"
  have "\<not> bit (x XOR m) 63" using True unfolding m_def by (simp only: bit_xor_iff bit_exp_iff) simp
  then have "(x XOR m) + m = (x XOR m) XOR m" unfolding m_def by (rule xor_exp_add [symmetric])
  then show ?thesis by (simp add: m_def xor.assoc)
next
  case False
  then show ?thesis using xor_exp_add [OF False] by simp
qed

lemma sint_flip: "sint (x XOR 0x8000000000000000 :: u64) = uint x - 2 ^ 63"
proof -
  have "sint (x XOR 2 ^ 63 :: u64) = take_bit 64 (uint (x XOR 2 ^ 63) + 2 ^ 63) - 2 ^ 63"
    by (simp add: sint_uint signed_take_bit_eq_take_bit_shift)
  also have "take_bit 64 (uint (x XOR 2 ^ 63) + 2 ^ 63) = uint ((x XOR 2 ^ 63) + 2 ^ 63)"
    by (simp add: uint_word_ariths take_bit_eq_mod)
  finally show ?thesis using flip_add [of x] by simp
qed
lemma sint_flip_less: "sint (x XOR 0x8000000000000000) < sint (y XOR 0x8000000000000000)
    \<longleftrightarrow> (x :: u64) < y"
  by (simp only: sint_flip word_less_def) simp

lemma cmpgt_epu64_mask:
  assumes "length xs = 4" and "length ys = 4"
  shows "mm256_cmpgt_epu64 (of_qwords xs) (of_qwords ys) =
         of_qwords (map2 (\<lambda>x y. bmask (y < x)) xs ys)"
proof -
  have "of_qwords (map2 (\<lambda>x y. if sint y < sint x then -1 else 0)
          (map (\<lambda>x. x XOR 0x8000000000000000) xs) (map (\<lambda>x. x XOR 0x8000000000000000) ys)) =
        of_qwords (map2 (\<lambda>x y. bmask (y < x)) xs ys)"
    unfolding zip_map_map map_map
    by (rule arg_cong [where f = of_qwords], rule map_cong [OF refl])
      (auto simp: bmask_def sint_flip_less)
  then show ?thesis
    using assms
    by (simp add: mm256_cmpgt_epu64_def mm256_cmpgt_epi64_def mm256_set1_epi64x_def xor_of_qwords
        map2_replicate Let_def)
qed

text \<open>A 64-bit mask is two equal 32-bit masks.\<close>

fun twice :: "'a list \<Rightarrow> 'a list" where
  "twice [] = []"
| "twice (x # xs) = x # x # twice xs"

lemma length_twice [simp]: "length (twice xs) = 2 * length xs"
  by (induction xs) auto

lemma twice_map [simp]: "twice (map f xs) = map f (twice xs)"
  by (induction xs) auto

lemma length_filter_twice: "length (filter P (twice xs)) = 2 * length (filter P xs)"
  by (induction xs) auto

lemma of_qwords_bmask: "of_qwords (map (\<lambda>x. bmask (P x)) xs) = map (\<lambda>x. bmask (P x)) (twice xs)"
proof (induction xs)
  case (Cons x xs)
  have "ucast (bmask b :: u64) = (bmask b :: u32)" "ucast (drop_bit 32 (bmask b :: u64)) = (bmask b :: u32)"
    for b by (rule bit_word_eqI; simp add: bit_bmask bit_simps)+
  with Cons show ?case by simp
qed simp

lemma cmp_epu64_set1:
  assumes "length xs = 4"
  shows "mm256_cmpgt_epu64 (of_qwords xs) (mm256_set1_epi64x k) = map bmask (twice (map (\<lambda>x. k < x) xs))"
    and "mm256_cmplt_epu64 (of_qwords xs) (mm256_set1_epi64x k) = map bmask (twice (map (\<lambda>x. x < k) xs))"
    and "mm256_cmpge_epu64 (of_qwords xs) (mm256_set1_epi64x k) = map bmask (twice (map (\<lambda>x. k \<le> x) xs))"
    and "mm256_cmple_epu64 (of_qwords xs) (mm256_set1_epi64x k) = map bmask (twice (map (\<lambda>x. x \<le> k) xs))"
proof -
  let ?k = "mm256_set1_epi64x k" and ?v = "of_qwords xs"
  show gt: "mm256_cmpgt_epu64 ?v ?k = map bmask (twice (map (\<lambda>x. k < x) xs))"
    unfolding mm256_set1_epi64x_def using assms cmpgt_epu64_mask [of xs "replicate 4 k"]
    by (simp add: map2_replicate of_qwords_bmask comp_def)
  show lt: "mm256_cmplt_epu64 ?v ?k = map bmask (twice (map (\<lambda>x. x < k) xs))"
    unfolding mm256_cmplt_epu64_def mm256_set1_epi64x_def
    using assms cmpgt_epu64_mask [of "replicate 4 k" xs]
    by (simp add: map2_replicate of_qwords_bmask comp_def)
  show "mm256_cmpge_epu64 ?v ?k = map bmask (twice (map (\<lambda>x. k \<le> x) xs))"
    unfolding mm256_cmpge_epu64_def lt using assms by (subst xor_ones_mask) (auto simp: not_less)
  show "mm256_cmple_epu64 ?v ?k = map bmask (twice (map (\<lambda>x. x \<le> k) xs))"
    unfolding mm256_cmple_epu64_def mm256_cmpge_epu64_def mm256_cmplt_epu64_def gt
    using assms by (subst xor_ones_mask) (auto simp: not_less)
qed

subsection \<open>Packing and counting\<close>

lemma saturate_bmask [simp]: "saturate16 (bmask b) = bmask b" "saturate8 (bmask b) = bmask b"
  by (cases b; simp add: saturate16_def saturate8_def bmask_def)+

lemma movemask_bmask:
  assumes "length bs = 32"
  shows "builtin_popcount (mm256_movemask_epi8 (map bmask bs)) = length (filter id bs)"
    and "mm256_movemask_epi8 (map bmask bs) = -1 \<longleftrightarrow> (\<forall>b \<in> set bs. b)"
proof -
  have bit7: "bit (bmask b :: u8) 7 = b" for b by (simp add: bmask_def)
  have mask: "mm256_movemask_epi8 (map bmask bs) = horner_sum of_bool 2 bs"
    by (simp add: mm256_movemask_epi8_def comp_def bit7)
  have bits: "bit (horner_sum of_bool 2 bs :: u32) n \<longleftrightarrow> n < 32 \<and> bs ! n" for n
    using assms by (simp add: bit_horner_sum_bit_word_iff)
  have "filter (bit (horner_sum of_bool 2 bs :: u32)) [0..<32] = filter (\<lambda>n. bs ! n) [0..<32]"
    by (rule filter_cong) (simp_all add: bits)
  moreover have "length (filter (\<lambda>n. bs ! n) [0..<32]) = length (filter id bs)"
  proof -
    have "filter id bs = filter id (map ((!) bs) [0..<32])" using map_nth [of bs] assms by simp
    then show ?thesis by (simp add: filter_map comp_def)
  qed
  ultimately show "builtin_popcount (mm256_movemask_epi8 (map bmask bs)) = length (filter id bs)"
    unfolding mask builtin_popcount_def by simp
  have "(horner_sum of_bool 2 bs :: u32) = -1 \<longleftrightarrow> (\<forall>n < 32. bs ! n)"
  proof
    assume "(horner_sum of_bool 2 bs :: u32) = -1"
    then show "\<forall>n < 32. bs ! n" using bits by (auto simp: bit_simps)
  next
    assume "\<forall>n < 32. bs ! n"
    then show "(horner_sum of_bool 2 bs :: u32) = -1" by (intro bit_word_eqI) (simp add: bits)
  qed
  then show "mm256_movemask_epi8 (map bmask bs) = -1 \<longleftrightarrow> (\<forall>b \<in> set bs. b)"
    unfolding mask using assms by (simp add: all_set_conv_all_nth)
qed

lemma pack_masks:
  assumes "length b0 = 8" "length b1 = 8" "length b2 = 8" "length b3 = 8"
  defines "m \<equiv> mm256_movemask_epi8 (mm256_packs_epi16 (mm256_packs_epi32 (map bmask b0) (map bmask b1))
                                                       (mm256_packs_epi32 (map bmask b2) (map bmask b3)))"
  shows "builtin_popcount m = length (filter id (b0 @ b1 @ b2 @ b3))"
    and "m = -1 \<longleftrightarrow> (\<forall>b \<in> set (b0 @ b1 @ b2 @ b3). b)"
proof -
  let ?p = "take 4 b0 @ take 4 b1 @ drop 4 b0 @ drop 4 b1"
  let ?q = "take 4 b2 @ take 4 b3 @ drop 4 b2 @ drop 4 b3"
  let ?r = "take 8 ?p @ take 8 ?q @ drop 8 ?p @ drop 8 ?q"
  have m: "m = mm256_movemask_epi8 (map bmask ?r)"
    unfolding m_def mm256_packs_epi32_def mm256_packs_epi16_def
    by (simp add: take_map drop_map comp_def)
  have perm: "mset ?r = mset (b0 @ b1 @ b2 @ b3)"
  proof -
    have half: "mset (take n xs) + mset (drop n xs) = mset xs" for n and xs :: "bool list"
      by (metis append_take_drop_id mset_append)
    have "mset ?r = (mset (take 8 ?p) + mset (drop 8 ?p)) + (mset (take 8 ?q) + mset (drop 8 ?q))"
      by (simp add: ac_simps)
    also have "\<dots> = mset ?p + mset ?q" by (simp only: half)
    also have "mset ?p = mset b0 + mset b1" using half [of 4 b0] half [of 4 b1] by (simp add: ac_simps)
    also have "mset ?q = mset b2 + mset b3" using half [of 4 b2] half [of 4 b3] by (simp add: ac_simps)
    finally show ?thesis by (simp add: ac_simps)
  qed
  have len: "length ?r = 32" using assms by simp
  show "builtin_popcount m = length (filter id (b0 @ b1 @ b2 @ b3))"
    unfolding m movemask_bmask(1) [OF len] using perm by (metis mset_filter size_mset)
  show "m = -1 \<longleftrightarrow> (\<forall>b \<in> set (b0 @ b1 @ b2 @ b3). b)"
    unfolding m movemask_bmask(2) [OF len] using perm by (metis set_mset_mset)
qed

subsection \<open>The block scan finds the partition point\<close>

text \<open>
  What a comparison does on a range: the load succeeds, and the sign bits of the four vectors
  of a block count the positions that satisfy \<open>Q\<close>, scaled by the width of a lane.
\<close>

definition lane_test ::
    "int \<Rightarrow> (int \<Rightarrow> m256i option) \<Rightarrow> (m256i \<Rightarrow> m256i) \<Rightarrow> (int \<Rightarrow> bool) \<Rightarrow> int \<Rightarrow> int \<Rightarrow> bool" where
  "lane_test lanes load cmp Q a b \<longleftrightarrow>
     (\<forall>it. a \<le> it \<and> it + lanes \<le> b \<longrightarrow>
        (\<exists>v bs. load it = Some v \<and> cmp v = map bmask bs \<and> length bs = 8 \<and>
                length (filter id bs) * nat lanes = 8 * card {i \<in> {it..<it + lanes}. Q i}))"

lemma lane_testE:
  assumes "lane_test lanes load cmp Q a b" and "a \<le> it" and "it + lanes \<le> b"
  obtains v bs where "load it = Some v" "cmp v = map bmask bs" "length bs = 8"
    "length (filter id bs) * nat lanes = 8 * card {i \<in> {it..<it + lanes}. Q i}"
  using assms unfolding lane_test_def by blast

lemma card_split:
  fixes a m b :: int
  assumes "a \<le> m" and "m \<le> b"
  shows "card {i \<in> {a..<b}. Q i} = card {i \<in> {a..<m}. Q i} + card {i \<in> {m..<b}. Q i}"
proof -
  have "{i \<in> {a..<b}. Q i} = {i \<in> {a..<m}. Q i} \<union> {i \<in> {m..<b}. Q i}" using assms by auto
  moreover have "card ({i \<in> {a..<m}. Q i} \<union> {i \<in> {m..<b}. Q i}) =
      card {i \<in> {a..<m}. Q i} + card {i \<in> {m..<b}. Q i}"
  proof (rule card_Un_disjoint)
    show "finite {i \<in> {a..<m}. Q i}" by (rule finite_subset [of _ "{a..<m}"]) auto
    show "finite {i \<in> {m..<b}. Q i}" by (rule finite_subset [of _ "{m..<b}"]) auto
  qed auto
  ultimately show ?thesis by simp
qed

lemma card_blocks:
  fixes it lanes :: int
  assumes "0 < lanes"
  shows "card {i \<in> {it..<it + 4 * lanes}. Q i} =
     card {i \<in> {it..<it + lanes}. Q i} + card {i \<in> {it + lanes..<it + lanes + lanes}. Q i} +
     card {i \<in> {it + 2 * lanes..<it + 2 * lanes + lanes}. Q i} +
     card {i \<in> {it + 3 * lanes..<it + 3 * lanes + lanes}. Q i}"
  using assms card_split [of it "it + lanes" "it + 4 * lanes" Q]
    card_split [of "it + lanes" "it + 2 * lanes" "it + 4 * lanes" Q]
    card_split [of "it + 2 * lanes" "it + 3 * lanes" "it + 4 * lanes" Q]
  by (simp add: algebra_simps)

lemma card_all_iff:
  assumes "finite A"
  shows "card {i \<in> A. Q i} = card A \<longleftrightarrow> (\<forall>i \<in> A. Q i)"
proof
  assume "card {i \<in> A. Q i} = card A"
  then have "{i \<in> A. Q i} = A" using assms by (intro card_subset_eq) auto
  then show "\<forall>i \<in> A. Q i" by blast
next
  assume "\<forall>i \<in> A. Q i"
  then have "{i \<in> A. Q i} = A" by blast
  then show "card {i \<in> A. Q i} = card A" by simp
qed

lemma avx_block_count:
  assumes lt: "lane_test lanes load cmp Q a b" and lanes: "0 < lanes" "nat lanes dvd 8"
    and lo: "a \<le> lo" "lo + 4 * lanes \<le> b" and "it = (if dir then lo else lo + 4 * lanes)"
  shows "\<exists>res. avx_block dir lanes load cmp it = Some (res, if dir then lo + 4 * lanes else lo) \<and>
     builtin_popcount res * nat lanes = 8 * card {i \<in> {lo..<lo + 4 * lanes}. Q i} \<and>
     (res = -1 \<longleftrightarrow> (\<forall>i \<in> {lo..<lo + 4 * lanes}. Q i))"
proof -
  obtain v0 b0 where 0: "load lo = Some v0" "cmp v0 = map bmask b0" "length b0 = 8"
      "length (filter id b0) * nat lanes = 8 * card {i \<in> {lo..<lo + lanes}. Q i}"
    using lane_testE [OF lt, of lo] lo lanes by auto
  obtain v1 b1 where 1: "load (lo + lanes) = Some v1" "cmp v1 = map bmask b1" "length b1 = 8"
      "length (filter id b1) * nat lanes = 8 * card {i \<in> {lo + lanes..<lo + lanes + lanes}. Q i}"
    using lane_testE [OF lt, of "lo + lanes"] lo lanes by auto
  obtain v2 b2 where 2: "load (lo + 2 * lanes) = Some v2" "cmp v2 = map bmask b2" "length b2 = 8"
      "length (filter id b2) * nat lanes = 8 * card {i \<in> {lo + 2 * lanes..<lo + 2 * lanes + lanes}. Q i}"
    using lane_testE [OF lt, of "lo + 2 * lanes"] lo lanes by auto
  obtain v3 b3 where 3: "load (lo + 3 * lanes) = Some v3" "cmp v3 = map bmask b3" "length b3 = 8"
      "length (filter id b3) * nat lanes = 8 * card {i \<in> {lo + 3 * lanes..<lo + 3 * lanes + lanes}. Q i}"
    using lane_testE [OF lt, of "lo + 3 * lanes"] lo lanes by auto
  define bs where "bs = (if dir then b0 @ b1 @ b2 @ b3 else b3 @ b2 @ b1 @ b0)"
  obtain res where res: "avx_block dir lanes load cmp it = Some (res, if dir then lo + 4 * lanes else lo)"
      "builtin_popcount res = length (filter id bs)" "res = -1 \<longleftrightarrow> (\<forall>b \<in> set bs. b)"
  proof (cases dir)
    case True
    then show thesis
      using that 0 1 2 3 assms(6) pack_masks [of b0 b1 b2 b3]
      by (simp add: avx_block_def bs_def Let_def)
  next
    case False
    then show thesis
      using that 0 1 2 3 assms(6) pack_masks [of b3 b2 b1 b0]
      by (simp add: avx_block_def bs_def Let_def algebra_simps)
  qed
  let ?A = "{lo..<lo + 4 * lanes}"
  have count: "length (filter id bs) * nat lanes = 8 * card {i \<in> ?A. Q i}"
    unfolding card_blocks [OF lanes(1)] using 0(4) 1(4) 2(4) 3(4)
    by (simp add: bs_def algebra_simps)
  have len: "length bs = 32" using 0 1 2 3 by (simp add: bs_def)
  have "(\<forall>b \<in> set bs. b) \<longleftrightarrow> length (filter id bs) = 32"
    using len by (metis filter_True filter_id_conv id_apply length_filter_less order_less_irrefl)
  also have "\<dots> \<longleftrightarrow> length (filter id bs) * nat lanes = 32 * nat lanes" using lanes(1) by simp
  also have "\<dots> \<longleftrightarrow> card {i \<in> ?A. Q i} = card ?A" unfolding count using lanes(1) by auto
  also have "\<dots> \<longleftrightarrow> (\<forall>i \<in> ?A. Q i)" by (rule card_all_iff) simp
  finally show ?thesis using res count by auto
qed

text \<open>
  A block that is not all ones contains the partition point, and the number of its lanes
  gives its position: \<open>Q\<close> holds on the left when scanning forwards, on the right when scanning
  backwards.
\<close>

lemma block_point:
  fixes lo hi :: int
  assumes part: "partitioned P lo hi" and "lo \<le> hi" and Q: "\<And>i. Q i \<longleftrightarrow> (P i \<longleftrightarrow> dir)"
  shows "part_point P lo hi (if dir then lo + int (card {i \<in> {lo..<hi}. Q i})
                             else hi - int (card {i \<in> {lo..<hi}. Q i}))"
proof -
  define p where "p = ref_point P lo hi"
  have p: "part_point P lo hi p" unfolding p_def using assms by (intro part_point_ref) auto
  then have "P i \<longleftrightarrow> i < p" if "lo \<le> i" "i < hi" for i
    using that by (cases "i < p") (auto simp: part_point_def)
  then have "{i \<in> {lo..<hi}. Q i} = (if dir then {lo..<p} else {p..<hi})"
    using Q p by (auto simp: part_point_def)
  then show ?thesis using p by (auto simp: part_point_def)
qed

lemma avx_loop_forward:
  assumes lt: "lane_test lanes load cmp P a b" and lanes: "0 < lanes" "nat lanes dvd 8"
    and part: "partitioned P a b" and "b - a \<le> 2 ^ 53" and "b - a = int n"
    and delta: "\<And>res c. builtin_popcount res * nat lanes = 8 * c \<Longrightarrow> delta res = 4 * lanes - int c"
    and "a \<le> it" and "it \<le> b" and "int i = it - a + 4 * lanes"
    and "\<And>j. a \<le> j \<Longrightarrow> j < it \<Longrightarrow> P j"
  shows "\<exists>i' it' res'. avx_loop True lanes load cmp n i it res = Some (i', it', res') \<and>
     (if i' \<le> n then part_point P a b (it' - delta res')
      else a \<le> it' \<and> it' \<le> b \<and> (\<forall>j. a \<le> j \<and> j < it' \<longrightarrow> P j))"
  using assms(8-)
proof (induction "nat (b - it)" arbitrary: it i res rule: less_induct)
  case less
  have lanes8: "lanes \<le> 8" using lanes by (auto dest: dvd_imp_le)
  show ?case
  proof (cases "i \<le> n")
    case False
    then show ?thesis using less.prems by (subst avx_loop.simps) auto
  next
    case True
    then have fits: "it + 4 * lanes \<le> b" using less.prems(3) assms(6) by simp
    obtain r where r: "avx_block True lanes load cmp it = Some (r, it + 4 * lanes)"
        "builtin_popcount r * nat lanes = 8 * card {i \<in> {it..<it + 4 * lanes}. P i}"
        "r = -1 \<longleftrightarrow> (\<forall>i \<in> {it..<it + 4 * lanes}. P i)"
      using avx_block_count [OF lt lanes less.prems(1) fits, of it True] by auto
    show ?thesis
    proof (cases "r = -1")
      case False
      let ?c = "card {i \<in> {it..<it + 4 * lanes}. P i}"
      have sub: "partitioned P it (it + 4 * lanes)"
        using part by (rule partitioned_sub) (use less.prems fits in auto)
      have pp: "part_point P it (it + 4 * lanes) (it + int ?c)"
        using block_point [OF sub, of P True] lanes by simp
      obtain j where j: "it \<le> j" "j < it + 4 * lanes" "\<not> P j"
        using False r(3) by (meson atLeastLessThan_iff)
      have "part_point P it b (it + int ?c)"
        using pp fits
      proof (rule part_point_extend_right)
        show "\<not> P k" if "it + 4 * lanes \<le> k" "k < b" for k
          using partitionedD [OF part, of k j] that j less.prems(1) by auto
      qed
      then have "part_point P a b (it + int ?c)"
        by (rule part_point_extend_left) (use less.prems in auto)
      moreover have "it + 4 * lanes - delta r = it + int ?c" using delta [OF r(2)] by simp
      ultimately have "part_point P a b (it + 4 * lanes - delta r)" by (simp only:)
      then show ?thesis using True False r(1) by (subst avx_loop.simps) simp
    next
      case all: True
      let ?i = "i + nat (4 * lanes)"
      have small: "?i mod 2 ^ 64 = ?i" using True assms(5,6) lanes8 by simp
      have "\<exists>i' it' res'. avx_loop True lanes load cmp n ?i (it + 4 * lanes) r = Some (i', it', res') \<and>
          (if i' \<le> n then part_point P a b (it' - delta res')
           else a \<le> it' \<and> it' \<le> b \<and> (\<forall>j. a \<le> j \<and> j < it' \<longrightarrow> P j))"
      proof (rule less.hyps)
        show "nat (b - (it + 4 * lanes)) < nat (b - it)" using fits lanes by simp
        show "P j" if "a \<le> j" "j < it + 4 * lanes" for j
          using that less.prems(4) [of j] all r(3) by (cases "j < it") auto
      qed (use less.prems fits lanes in auto)
      then show ?thesis using True all r(1) small by (subst avx_loop.simps) simp
    qed
  qed
qed

lemma avx_loop_backward:
  assumes lt: "lane_test lanes load cmp (\<lambda>i. \<not> P i) a b" and lanes: "0 < lanes" "nat lanes dvd 8"
    and part: "partitioned P a b" and "b - a \<le> 2 ^ 53" and "b - a = int n"
    and delta: "\<And>res c. builtin_popcount res * nat lanes = 8 * c \<Longrightarrow> delta res = 4 * lanes - int c"
    and "a \<le> it" and "it \<le> b" and "int i = b - it + 4 * lanes"
    and "\<And>j. it \<le> j \<Longrightarrow> j < b \<Longrightarrow> \<not> P j"
  shows "\<exists>i' it' res'. avx_loop False lanes load cmp n i it res = Some (i', it', res') \<and>
     (if i' \<le> n then part_point P a b (it' + delta res')
      else a \<le> it' \<and> it' \<le> b \<and> (\<forall>j. it' \<le> j \<and> j < b \<longrightarrow> \<not> P j))"
  using assms(8-)
proof (induction "nat (it - a)" arbitrary: it i res rule: less_induct)
  case less
  have lanes8: "lanes \<le> 8" using lanes by (auto dest: dvd_imp_le)
  show ?case
  proof (cases "i \<le> n")
    case False
    then show ?thesis using less.prems by (subst avx_loop.simps) auto
  next
    case True
    define lo where "lo = it - 4 * lanes"
    then have it: "it = lo + 4 * lanes" by simp
    have fits: "a \<le> lo" "lo + 4 * lanes \<le> b" using True less.prems assms(6) it by auto
    obtain r where r: "avx_block False lanes load cmp it = Some (r, lo)"
        "builtin_popcount r * nat lanes = 8 * card {i \<in> {lo..<lo + 4 * lanes}. \<not> P i}"
        "r = -1 \<longleftrightarrow> (\<forall>i \<in> {lo..<lo + 4 * lanes}. \<not> P i)"
      using avx_block_count [OF lt lanes fits, of it False] it by auto
    show ?thesis
    proof (cases "r = -1")
      case False
      let ?c = "card {i \<in> {lo..<it}. \<not> P i}"
      have sub: "partitioned P lo it"
        using part by (rule partitioned_sub) (use less.prems fits in auto)
      have pp: "part_point P lo it (it - int ?c)"
        using block_point [OF sub, of "\<lambda>i. \<not> P i" False] lanes it by simp
      obtain j where j: "lo \<le> j" "j < it" "P j"
        using False r(3) it by (metis atLeastLessThan_iff)
      have "part_point P lo b (it - int ?c)"
        using pp less.prems(2) by (rule part_point_extend_right) (use less.prems in auto)
      then have "part_point P a b (it - int ?c)"
        using fits(1)
      proof (rule part_point_extend_left)
        show "P k" if "a \<le> k" "k < lo" for k
          using partitionedD [OF part j(3) that(1)] that j less.prems(2) by auto
      qed
      moreover have "lo + delta r = it - int ?c" using delta [OF r(2)] it by simp
      ultimately have "part_point P a b (lo + delta r)" by (simp only:)
      then show ?thesis using True False r(1) by (subst avx_loop.simps) simp
    next
      case all: True
      let ?i = "i + nat (4 * lanes)"
      have small: "?i mod 2 ^ 64 = ?i" using True assms(5,6) lanes8 by simp
      have "\<exists>i' it' res'. avx_loop False lanes load cmp n ?i lo r = Some (i', it', res') \<and>
          (if i' \<le> n then part_point P a b (it' + delta res')
           else a \<le> it' \<and> it' \<le> b \<and> (\<forall>j. it' \<le> j \<and> j < b \<longrightarrow> \<not> P j))"
      proof (rule less.hyps)
        show "nat (lo - a) < nat (it - a)" using fits it lanes by simp
        show "\<not> P j" if "lo \<le> j" "j < b" for j
          using that less.prems(4) [of j] all r(3) it by (cases "j < it") auto
      qed (use less.prems fits lanes it in auto)
      then show ?thesis using True all r(1) small by (subst avx_loop.simps) simp
    qed
  qed
qed

lemma scan_avx_forward:
  assumes lt: "lane_test lanes load cmp P a b" and lanes: "0 < lanes" "nat lanes dvd 8"
    and part: "partitioned P a b" and "a \<le> b" and small: "b - a \<le> 2 ^ 53"
    and delta: "\<And>res c. builtin_popcount res * nat lanes = 8 * c \<Longrightarrow> delta res = 4 * lanes - int c"
    and search: "\<And>it. a \<le> it \<Longrightarrow> it \<le> b \<Longrightarrow> \<exists>r. search it b it = Some r \<and> part_point P it b r"
  shows "\<exists>r. scan_avx True lanes load cmp delta search a b = Some r \<and> part_point P a b r"
proof -
  define n where "n = to_size_t (b - a)"
  have n: "b - a = int n" unfolding n_def using assms(5,6) by simp
  show ?thesis
  proof (cases "nat (4 * lanes) \<le> n")
    case False
    then show ?thesis using search [of a] assms(5) by (simp add: scan_avx_def flip: n_def)
  next
    case True
    obtain i it res where l: "avx_loop True lanes load cmp n (nat (4 * lanes)) a 0 = Some (i, it, res)"
        "if i \<le> n then part_point P a b (it - delta res)
         else a \<le> it \<and> it \<le> b \<and> (\<forall>j. a \<le> j \<and> j < it \<longrightarrow> P j)"
      using avx_loop_forward [OF lt lanes part small n, of delta a "nat (4 * lanes)" 0] delta assms(5) lanes
      by auto
    show ?thesis
    proof (cases "i \<le> n")
      case False
      obtain r where "search it b it = Some r" "part_point P it b r"
        using search [of it] False l(2) by auto
      moreover from this(2) have "part_point P a b r"
        by (rule part_point_extend_left) (use False l(2) in auto)
      ultimately show ?thesis using l(1) True False by (simp add: scan_avx_def flip: n_def)
    qed (use l True in \<open>simp add: scan_avx_def flip: n_def\<close>)
  qed
qed

lemma scan_avx_backward:
  assumes lt: "lane_test lanes load cmp (\<lambda>i. \<not> P i) a b" and lanes: "0 < lanes" "nat lanes dvd 8"
    and part: "partitioned P a b" and "a \<le> b" and small: "b - a \<le> 2 ^ 53"
    and delta: "\<And>res c. builtin_popcount res * nat lanes = 8 * c \<Longrightarrow> delta res = 4 * lanes - int c"
    and search: "\<And>it. a \<le> it \<Longrightarrow> it \<le> b \<Longrightarrow> \<exists>r. search a it it = Some r \<and> part_point P a it r"
  shows "\<exists>r. scan_avx False lanes load cmp delta search b a = Some r \<and> part_point P a b r"
proof -
  define n where "n = to_size_t (b - a)"
  have n: "b - a = int n" unfolding n_def using assms(5,6) by simp
  show ?thesis
  proof (cases "nat (4 * lanes) \<le> n")
    case False
    then show ?thesis using search [of b] assms(5) by (simp add: scan_avx_def flip: n_def)
  next
    case True
    obtain i it res where l: "avx_loop False lanes load cmp n (nat (4 * lanes)) b 0 = Some (i, it, res)"
        "if i \<le> n then part_point P a b (it + delta res)
         else a \<le> it \<and> it \<le> b \<and> (\<forall>j. it \<le> j \<and> j < b \<longrightarrow> \<not> P j)"
      using avx_loop_backward [OF lt lanes part small n, of delta b "nat (4 * lanes)" 0] delta assms(5) lanes
      by auto
    show ?thesis
    proof (cases "i \<le> n")
      case False
      obtain r where "search a it it = Some r" "part_point P a it r"
        using search [of it] False l(2) by auto
      moreover from this(2) have "part_point P a b r"
        by (rule part_point_extend_right) (use False l(2) in auto)
      ultimately show ?thesis using l(1) True False by (simp add: scan_avx_def flip: n_def)
    qed (use l True in \<open>simp add: scan_avx_def flip: n_def\<close>)
  qed
qed

subsection \<open>The comparisons on an array of keys\<close>

lemma load_keys_count:
  assumes "readable mem it (it + int n)"
  shows "\<exists>xs. load_keys mem it n = Some xs \<and> length xs = n \<and>
     length (filter R xs) = card {i \<in> {it..<it + int n}. sat mem R i}"
  using assms
proof (induction n arbitrary: it)
  case (Suc n)
  obtain x where x: "mem it = Some x" using readableE [OF Suc.prems, of it] by auto
  have "readable mem (it + 1) (it + 1 + int n)" using Suc.prems by (rule readable_sub) simp_all
  then obtain xs where xs: "load_keys mem (it + 1) n = Some xs" "length xs = n"
      "length (filter R xs) = card {i \<in> {it + 1..<it + 1 + int n}. sat mem R i}"
    using Suc.IH by blast
  have "{i \<in> {it..<it + 1}. sat mem R i} = (if R x then {it} else {})" using x by auto
  then have "card {i \<in> {it..<it + int (Suc n)}. sat mem R i} =
      (if R x then 1 else 0) + card {i \<in> {it + 1..<it + 1 + int n}. sat mem R i}"
    using card_split [of it "it + 1" "it + int (Suc n)" "sat mem R"] by (simp add: algebra_simps)
  then show ?case using x xs by simp
qed simp

lemma lane_test_cong:
  assumes "lane_test lanes load cmp Q a b" and "\<And>i. a \<le> i \<Longrightarrow> i < b \<Longrightarrow> Q i \<longleftrightarrow> Q' i"
  shows "lane_test lanes load cmp Q' a b"
proof -
  have "{i \<in> {it..<it + lanes}. Q' i} = {i \<in> {it..<it + lanes}. Q i}" if "a \<le> it" "it + lanes \<le> b" for it
    using that assms(2) by auto
  then show ?thesis using assms(1) unfolding lane_test_def by simp
qed

lemma lane_test_u32:
  assumes rd: "readable mem a b"
    and cmp: "\<And>v. length v = 8 \<Longrightarrow> func_cmp v (mm256_set1_epi32 key) = map bmask (map R v)"
  shows "lane_test 8 (mm256_loadu_epi32 mem) (\<lambda>v. func_cmp v (mm256_set1_epi32 key)) (sat mem R) a b"
  unfolding lane_test_def
proof (intro allI impI)
  fix it :: int
  assume "a \<le> it \<and> it + 8 \<le> b"
  then have "readable mem it (it + int 8)" using readable_sub [OF rd] by simp
  then obtain v where "load_keys mem it 8 = Some v" "length v = 8"
      "length (filter R v) = card {i \<in> {it..<it + 8}. sat mem R i}"
    using load_keys_count [of mem it 8 R] by auto
  then show "\<exists>v bs. mm256_loadu_epi32 mem it = Some v \<and>
      func_cmp v (mm256_set1_epi32 key) = map bmask bs \<and> length bs = 8 \<and>
      length (filter id bs) * nat 8 = 8 * card {i \<in> {it..<it + 8}. sat mem R i}"
    using cmp [of v]
    by (intro exI [of _ v] exI [of _ "map R v"]) (simp add: mm256_loadu_epi32_def filter_map comp_def)
qed

lemma lane_test_u64:
  assumes rd: "readable mem a b"
    and cmp: "\<And>xs. length xs = 4 \<Longrightarrow>
      func_cmp (of_qwords xs) (mm256_set1_epi64x key) = map bmask (twice (map R xs))"
  shows "lane_test 4 (mm256_loadu_epi64 mem) (\<lambda>v. func_cmp v (mm256_set1_epi64x key)) (sat mem R) a b"
  unfolding lane_test_def
proof (intro allI impI)
  fix it :: int
  assume "a \<le> it \<and> it + 4 \<le> b"
  then have "readable mem it (it + int 4)" using readable_sub [OF rd] by simp
  then obtain xs where xs: "load_keys mem it 4 = Some xs" "length xs = 4"
      "length (filter R xs) = card {i \<in> {it..<it + 4}. sat mem R i}"
    using load_keys_count [of mem it 4 R] by auto
  have "length (filter id (twice (map R xs))) = 2 * length (filter R xs)"
    unfolding length_filter_twice by (simp add: filter_map comp_def)
  then show "\<exists>v bs. mm256_loadu_epi64 mem it = Some v \<and>
      func_cmp v (mm256_set1_epi64x key) = map bmask bs \<and> length bs = 8 \<and>
      length (filter id bs) * nat 4 = 8 * card {i \<in> {it..<it + 4}. sat mem R i}"
    using cmp [of xs] xs
    by (intro exI [of _ "of_qwords xs"] exI [of _ "twice (map R xs)"])
      (simp add: mm256_loadu_epi64_def)
qed

subsection \<open>Scanning from the start position\<close>

text \<open>
  Both directions at once, for both widths: the forward comparison tests \<open>R\<close>, the backward one
  its negation, and the remaining keys go to the linear search.
\<close>

lemma avx_from_start:
  assumes rd: "readable at a b" and pt: "partitioned (sat at R) a b" and "a \<le> s" "s \<le> b"
    and small: "b - a \<le> 2 ^ 53" and lanes: "0 < lanes" "nat lanes dvd 8"
    and delta: "\<And>res c. builtin_popcount res * nat lanes = 8 * c \<Longrightarrow> delta res = 4 * lanes - int c"
    and fwd: "lane_test lanes load cmp (sat at R) a b"
    and bwd: "lane_test lanes load cmp' (sat at (\<lambda>x. \<not> R x)) a b"
    and search: "\<And>c d s. a \<le> c \<Longrightarrow> c \<le> s \<Longrightarrow> s \<le> d \<Longrightarrow> d \<le> b \<Longrightarrow>
      \<exists>r. search c d s = Some r \<and> part_point (sat at R) c d r"
  shows "\<exists>r. (if s < b \<and> sat at R s then scan_avx True lanes load cmp delta search (s + 1) b
             else scan_avx False lanes load cmp' delta search s a) = Some r \<and>
             part_point (sat at R) a b r"
  using pt assms(3,4)
proof (rule from_start_point)
  show "\<exists>r. scan_avx True lanes load cmp delta search (s + 1) b = Some r \<and>
            part_point (sat at R) (s + 1) b r" if "s < b"
  proof (rule scan_avx_forward [OF _ lanes])
    show "lane_test lanes load cmp (sat at R) (s + 1) b"
      using fwd assms(3) unfolding lane_test_def by (meson order.trans zle_add1_eq_le less_imp_le)
    show "partitioned (sat at R) (s + 1) b" using pt by (rule partitioned_sub) (use assms(3) in auto)
    show "\<exists>r. search it b it = Some r \<and> part_point (sat at R) it b r" if "s + 1 \<le> it" "it \<le> b" for it
      using search [of it it b] that assms(3) by simp
  qed (use that assms(3) small delta in auto)
  show "\<exists>r. scan_avx False lanes load cmp' delta search s a = Some r \<and> part_point (sat at R) a s r"
  proof (rule scan_avx_backward [OF _ lanes])
    have "lane_test lanes load cmp' (\<lambda>i. \<not> sat at R i) a b"
      using bwd by (rule lane_test_cong) (use rd in \<open>auto simp: readable_def split: option.splits\<close>)
    then show "lane_test lanes load cmp' (\<lambda>i. \<not> sat at R i) a s"
      using assms(4) unfolding lane_test_def by (meson order.trans)
    show "partitioned (sat at R) a s" using pt by (rule partitioned_sub) (use assms(4) in auto)
    show "\<exists>r. search a it it = Some r \<and> part_point (sat at R) a it r" if "a \<le> it" "it \<le> s" for it
      using search [of a it it] that assms(4) by simp
  qed (use assms(3,4) small delta in auto)
qed

lemma linear_sub_point:
  assumes "search_pre at a b s"
  shows "a \<le> c \<Longrightarrow> c \<le> t \<Longrightarrow> t \<le> d \<Longrightarrow> d \<le> b \<Longrightarrow>
      \<exists>r. LinearSearch_lower_bound c d key t at (<) = Some r \<and> part_point (below at key) c d r"
    and "a \<le> c \<Longrightarrow> c \<le> t \<Longrightarrow> t \<le> d \<Longrightarrow> d \<le> b \<Longrightarrow>
      \<exists>r. LinearSearch_upper_bound c d key t at (<) = Some r \<and> part_point (upto_key at key) c d r"
proof -
  assume h: "a \<le> c" "c \<le> t" "t \<le> d" "d \<le> b"
  have "readable at c d" "sorted_range at c d" "d - c \<le> 2 ^ 53"
    using assms h readable_sub sorted_range_sub by (auto simp: search_pre_def)
  then have pre: "search_pre at c d t" using h by (simp add: search_pre_def)
  show "\<exists>r. LinearSearch_lower_bound c d key t at (<) = Some r \<and> part_point (below at key) c d r"
    using pre by (rule linear.lower_bound_point)
  show "\<exists>r. LinearSearch_upper_bound c d key t at (<) = Some r \<and> part_point (upto_key at key) c d r"
    using pre by (rule linear.upper_bound_point)
qed

lemma LinearAVX_u32_lower_bound_point:
  assumes pre: "search_pre at a b s"
  shows "\<exists>r. LinearAVX_u32_lower_bound a b key s at at (<) = Some r \<and> part_point (below at key) a b r"
proof (cases "a = b")
  case False
  have h: "readable at a b" "a \<le> s" "s \<le> b" "b - a \<le> 2 ^ 53" using pre by (auto simp: search_pre_def)
  have "\<exists>r. (if s < b \<and> below at key s
      then scan_avx_u32 True (\<lambda>a b s. LinearSearch_lower_bound a b key s at (<)) mm256_cmplt_epu32 (s + 1) b key at
      else scan_avx_u32 False (\<lambda>a b s. LinearSearch_lower_bound a b key s at (<)) mm256_cmpge_epu32 s a key at)
      = Some r \<and> part_point (below at key) a b r"
    unfolding scan_avx_u32_def
    by (rule avx_from_start [OF h(1) search_pre_partitioned(1) [OF pre] h(2,3,4)])
      (use cmp_epu32_set1 linear_sub_point(1) [OF pre] in
        \<open>auto intro!: lane_test_u32 [OF h(1)] simp: not_less\<close>)
  then show ?thesis
    unfolding LinearAVX_u32_lower_bound_def start_test [OF h(1,2,3)] using False by (auto split: if_splits)
qed (simp add: LinearAVX_u32_lower_bound_def part_point_empty)

lemma LinearAVX_u32_upper_bound_point:
  assumes pre: "search_pre at a b s"
  shows "\<exists>r. LinearAVX_u32_upper_bound a b key s at at (<) = Some r \<and> part_point (upto_key at key) a b r"
proof (cases "a = b")
  case False
  have h: "readable at a b" "a \<le> s" "s \<le> b" "b - a \<le> 2 ^ 53" using pre by (auto simp: search_pre_def)
  have "\<exists>r. (if s < b \<and> upto_key at key s
      then scan_avx_u32 True (\<lambda>a b s. LinearSearch_upper_bound a b key s at (<)) mm256_cmple_epu32 (s + 1) b key at
      else scan_avx_u32 False (\<lambda>a b s. LinearSearch_upper_bound a b key s at (<)) mm256_cmpgt_epu32 s a key at)
      = Some r \<and> part_point (upto_key at key) a b r"
    unfolding scan_avx_u32_def
    by (rule avx_from_start [OF h(1) search_pre_partitioned(2) [OF pre] h(2,3,4)])
      (use cmp_epu32_set1 linear_sub_point(2) [OF pre] in
        \<open>auto intro!: lane_test_u32 [OF h(1)] simp: not_le not_less\<close>)
  then show ?thesis
    unfolding LinearAVX_u32_upper_bound_def start_test_upper [OF h(1,2,3)] using False by (auto split: if_splits)
qed (simp add: LinearAVX_u32_upper_bound_def part_point_empty)

lemma LinearAVX_u64_lower_bound_point:
  assumes pre: "search_pre at a b s"
  shows "\<exists>r. LinearAVX_u64_lower_bound a b key s at at (<) = Some r \<and> part_point (below at key) a b r"
proof (cases "a = b")
  case False
  have h: "readable at a b" "a \<le> s" "s \<le> b" "b - a \<le> 2 ^ 53" using pre by (auto simp: search_pre_def)
  have "\<exists>r. (if s < b \<and> below at key s
      then scan_avx_u64 True (\<lambda>a b s. LinearSearch_lower_bound a b key s at (<)) mm256_cmplt_epu64 (s + 1) b key at
      else scan_avx_u64 False (\<lambda>a b s. LinearSearch_lower_bound a b key s at (<)) mm256_cmpge_epu64 s a key at)
      = Some r \<and> part_point (below at key) a b r"
    unfolding scan_avx_u64_def
    by (rule avx_from_start [OF h(1) search_pre_partitioned(1) [OF pre] h(2,3,4)])
      (use cmp_epu64_set1 linear_sub_point(1) [OF pre] in
        \<open>auto intro!: lane_test_u64 [OF h(1)] simp: not_less\<close>)
  then show ?thesis
    unfolding LinearAVX_u64_lower_bound_def start_test [OF h(1,2,3)] using False by (auto split: if_splits)
qed (simp add: LinearAVX_u64_lower_bound_def part_point_empty)

lemma LinearAVX_u64_upper_bound_point:
  assumes pre: "search_pre at a b s"
  shows "\<exists>r. LinearAVX_u64_upper_bound a b key s at at (<) = Some r \<and> part_point (upto_key at key) a b r"
proof (cases "a = b")
  case False
  have h: "readable at a b" "a \<le> s" "s \<le> b" "b - a \<le> 2 ^ 53" using pre by (auto simp: search_pre_def)
  have "\<exists>r. (if s < b \<and> upto_key at key s
      then scan_avx_u64 True (\<lambda>a b s. LinearSearch_upper_bound a b key s at (<)) mm256_cmple_epu64 (s + 1) b key at
      else scan_avx_u64 False (\<lambda>a b s. LinearSearch_upper_bound a b key s at (<)) mm256_cmpgt_epu64 s a key at)
      = Some r \<and> part_point (upto_key at key) a b r"
    unfolding scan_avx_u64_def
    by (rule avx_from_start [OF h(1) search_pre_partitioned(2) [OF pre] h(2,3,4)])
      (use cmp_epu64_set1 linear_sub_point(2) [OF pre] in
        \<open>auto intro!: lane_test_u64 [OF h(1)] simp: not_le not_less\<close>)
  then show ?thesis
    unfolding LinearAVX_u64_upper_bound_def start_test_upper [OF h(1,2,3)] using False by (auto split: if_splits)
qed (simp add: LinearAVX_u64_upper_bound_def part_point_empty)

interpretation avx32: search_class
  "\<lambda>a b key s at. LinearAVX_u32_lower_bound a b key s at at (<)"
  "\<lambda>a b key s at. LinearAVX_u32_upper_bound a b key s at at (<)"
  by unfold_locales
    (rule LinearAVX_u32_lower_bound_point LinearAVX_u32_upper_bound_point, assumption)+

interpretation avx64: search_class
  "\<lambda>a b key s at. LinearAVX_u64_lower_bound a b key s at at (<)"
  "\<lambda>a b key s at. LinearAVX_u64_upper_bound a b key s at at (<)"
  by unfold_locales
    (rule LinearAVX_u64_lower_bound_point LinearAVX_u64_upper_bound_point, assumption)+

subsection \<open>Correctness\<close>

text \<open>The vectorised linear search over 32-bit keys returns the lower and the upper bound of
  the key on every sorted range: comparing a block of lanes as unsigned numbers, packing the masks
  and counting the set bits gives the position that the scalar search gives.\<close>

theorem avx_search_u32_correct:
  assumes "search_pre at' first last' start"
  shows "LinearAVX_u32_lower_bound first last' key start at' at' (<) = Some (ref_point (below at' key) first last') \<and>
         LinearAVX_u32_upper_bound first last' key start at' at' (<) = Some (ref_point (upto_key at' key) first last')"
  using avx32.lower_bound_ref [OF assms] avx32.upper_bound_ref [OF assms] by simp

text \<open>The same on the array \<open>2, 5, 5, 9\<close>.\<close>

theorem avx_search_u32_correct_witness:
  "LinearAVX_u32_lower_bound 0 4 5 3 (list_reader [2, 5, 5, 9::u32]) (list_reader [2, 5, 5, 9::u32]) (<) = Some 1 \<and>
   LinearAVX_u32_upper_bound 0 4 5 3 (list_reader [2, 5, 5, 9::u32]) (list_reader [2, 5, 5, 9::u32]) (<) = Some 3"
proof -
  have "search_pre (list_reader [2, 5, 5, 9::u32]) 0 4 3"
    by (rule search_pre_list) auto
  from avx_search_u32_correct [OF this, of 5] show ?thesis
    by (simp add: ref_point_list)
qed

text \<open>C27. The vectorised linear search over 64-bit keys returns the lower and the upper bound of
  the key on every sorted range: comparing a block of lanes as unsigned numbers, packing the masks
  and counting the set bits gives the position that the scalar search gives.\<close>

theorem avx_search_u64_correct:
  assumes "search_pre at' first last' start"
  shows "LinearAVX_u64_lower_bound first last' key start at' at' (<) = Some (ref_point (below at' key) first last') \<and>
         LinearAVX_u64_upper_bound first last' key start at' at' (<) = Some (ref_point (upto_key at' key) first last')"
  using avx64.lower_bound_ref [OF assms] avx64.upper_bound_ref [OF assms] by simp

text \<open>The same on the array \<open>2, 5, 5, 9\<close>.\<close>

theorem avx_search_u64_correct_witness:
  "LinearAVX_u64_lower_bound 0 4 5 3 (list_reader [2, 5, 5, 9::u64]) (list_reader [2, 5, 5, 9::u64]) (<) = Some 1 \<and>
   LinearAVX_u64_upper_bound 0 4 5 3 (list_reader [2, 5, 5, 9::u64]) (list_reader [2, 5, 5, 9::u64]) (<) = Some 3"
proof -
  have "search_pre (list_reader [2, 5, 5, 9::u64]) 0 4 3"
    by (rule search_pre_list) auto
  from avx_search_u64_correct [OF this, of 5] show ?thesis
    by (simp add: ref_point_list)
qed

end
