(* ===== verification/Util.thy ===== *)
theory Util
  imports Prelude "HOL-Library.List_Lexorder"
begin

text \<open>
  The utilities of the testbed (\<^verbatim>\<open>src/util.h\<close>): the pairs of a data set and the operations of a
  workload, their files, the conversion of keys to strings whose order is that of the keys, and the
  generator of pseudo-random numbers. A file is the list of its bytes; a read beyond its end is
  \<open>None\<close>.
\<close>

subsection \<open>Data\<close>

datatype DataType = UINT32 | UINT64 | STRING

record 'k KeyValue =
  kv_key :: 'k
  kv_value :: u64

record 'k Operation =
  op_op :: u8
  op_lo_key :: 'k
  op_hi_key :: 'k
  op_result :: u64

definition LOOKUP :: u8 where "LOOKUP = 0"
definition RANGE_QUERY :: u8 where "RANGE_QUERY = 1"
definition INSERT :: u8 where "INSERT = 2"

type_synonym bytes = "u8 list"

subsection \<open>Bytes of an integer\<close>

text \<open>The \<open>n\<close> bytes of an integer in memory, least significant first, and back.\<close>

fun le_bytes :: "nat \<Rightarrow> nat \<Rightarrow> bytes" where
  "le_bytes 0 x = []"
| "le_bytes (Suc n) x = of_nat (x mod 256) # le_bytes n (x div 256)"

fun of_le :: "bytes \<Rightarrow> nat" where
  "of_le [] = 0"
| "of_le (b # bs) = unat b + 256 * of_le bs"

definition bswap32 :: "u32 \<Rightarrow> u32" where
  "bswap32 w = of_nat (of_le (rev (le_bytes 4 (unat w))))"

definition bswap64 :: "u64 \<Rightarrow> u64" where
  "bswap64 w = of_nat (of_le (rev (le_bytes 8 (unat w))))"

text \<open>\<^verbatim>\<open>convert2String\<close> for the three key types.\<close>

definition convert2String_u32 :: "u32 \<Rightarrow> bytes" where
  "convert2String_u32 key = le_bytes 4 (unat (bswap32 key))"

definition convert2String_u64 :: "u64 \<Rightarrow> bytes" where
  "convert2String_u64 key = le_bytes 8 (unat (bswap64 key))"

definition convert2String_string :: "bytes \<Rightarrow> bytes" where
  "convert2String_string key = key @ [0]"

subsection \<open>File names\<close>

definition get_suffix :: "string \<Rightarrow> string" where
  "get_suffix filename =
     (let pos = length filename - 1 - length (takeWhile (\<lambda>c. c \<noteq> CHR ''_'') (rev filename))
      in if CHR ''_'' \<notin> set filename \<or> pos = length filename - 1 then '''' else drop (pos + 1) filename)"

definition resolve_type :: "string \<Rightarrow> DataType option" where
  "resolve_type filename =
     (let suffix = get_suffix filename
      in if suffix = ''uint32'' then Some UINT32
         else if suffix = ''uint64'' then Some UINT64
         else if suffix = ''string'' then Some STRING
         else None)"

subsection \<open>Uniqueness and values\<close>

text \<open>The loop of \<^verbatim>\<open>is_unique\<close> from index \<open>i\<close> on.\<close>

fun is_unique_from :: "'t list \<Rightarrow> nat \<Rightarrow> nat \<Rightarrow> bool" where
  "is_unique_from data i 0 = True"
| "is_unique_from data i (Suc n) =
     (if data ! i = data ! (i - 1) then False else is_unique_from data (i + 1) n)"

definition is_unique :: "'t list \<Rightarrow> bool" where
  "is_unique data = is_unique_from data 1 (length data - 1)"

definition is_unique_kv :: "'k KeyValue list \<Rightarrow> bool" where
  "is_unique_kv data = is_unique (map kv_key data)"

fun add_values_from :: "'k list \<Rightarrow> nat \<Rightarrow> 'k KeyValue list" where
  "add_values_from [] i = []"
| "add_values_from (k # ks) i = \<lparr>kv_key = k, kv_value = of_nat i\<rparr> # add_values_from ks (i + 1)"

definition add_values :: "'k list \<Rightarrow> 'k KeyValue list" where
  "add_values keys = add_values_from keys 0"

subsection \<open>Files\<close>

definition read_bytes :: "nat \<Rightarrow> bytes \<Rightarrow> (bytes \<times> bytes) option" where
  "read_bytes n f = (if n \<le> length f then Some (take n f, drop n f) else None)"

definition read_le :: "nat \<Rightarrow> bytes \<Rightarrow> (nat \<times> bytes) option" where
  "read_le n f = map_option (\<lambda>(bs, f'). (of_le bs, f')) (read_bytes n f)"

text \<open>The members of the element types, in the order in which the code reads and writes them.\<close>

definition out_u32 :: "u32 \<Rightarrow> bytes" where "out_u32 x = le_bytes 4 (unat x)"
definition out_u64 :: "u64 \<Rightarrow> bytes" where "out_u64 x = le_bytes 8 (unat x)"
definition out_u8 :: "u8 \<Rightarrow> bytes" where "out_u8 x = le_bytes 1 (unat x)"

definition in_u32 :: "bytes \<Rightarrow> (u32 \<times> bytes) option" where
  "in_u32 f = map_option (\<lambda>(x, f'). (of_nat x, f')) (read_le 4 f)"
definition in_u64 :: "bytes \<Rightarrow> (u64 \<times> bytes) option" where
  "in_u64 f = map_option (\<lambda>(x, f'). (of_nat x, f')) (read_le 8 f)"
definition in_u8 :: "bytes \<Rightarrow> (u8 \<times> bytes) option" where
  "in_u8 f = map_option (\<lambda>(x, f'). (of_nat x, f')) (read_le 1 f)"

text \<open>A string: its length as a \<^verbatim>\<open>uint32_t\<close> and that many characters.\<close>

definition out_string :: "bytes \<Rightarrow> bytes" where
  "out_string s = (let len = word_of_nat (length s) :: u32 in out_u32 len @ take (unat len) s)"

definition in_string :: "bytes \<Rightarrow> (bytes \<times> bytes) option" where
  "in_string f = do { (len, f) \<leftarrow> in_u32 f; read_bytes (unat len) f }"

text \<open>
  The packed structs, whose memory is written as it is (for a key type of 32 or of 64 bits, given by
  its own reader and writer), and the cases for string keys.
\<close>

definition out_kv :: "('k \<Rightarrow> bytes) \<Rightarrow> 'k KeyValue \<Rightarrow> bytes" where
  "out_kv out kv = out (kv_key kv) @ out_u64 (kv_value kv)"

definition in_kv :: "(bytes \<Rightarrow> ('k \<times> bytes) option) \<Rightarrow> bytes \<Rightarrow> ('k KeyValue \<times> bytes) option" where
  "in_kv inp f = do {
     (k, f) \<leftarrow> inp f; (v, f) \<leftarrow> in_u64 f; Some (\<lparr>kv_key = k, kv_value = v\<rparr>, f) }"

definition out_op :: "('k \<Rightarrow> bytes) \<Rightarrow> 'k Operation \<Rightarrow> bytes" where
  "out_op out x = out_u8 (op_op x) @ out (op_lo_key x) @ out (op_hi_key x) @ out_u64 (op_result x)"

definition in_op :: "(bytes \<Rightarrow> ('k \<times> bytes) option) \<Rightarrow> bytes \<Rightarrow> ('k Operation \<times> bytes) option" where
  "in_op inp f = do {
     (a, f) \<leftarrow> in_u8 f; (l, f) \<leftarrow> inp f; (h, f) \<leftarrow> inp f; (r, f) \<leftarrow> in_u64 f;
     Some (\<lparr>op_op = a, op_lo_key = l, op_hi_key = h, op_result = r\<rparr>, f) }"

definition out_kv_string :: "bytes KeyValue \<Rightarrow> bytes" where
  "out_kv_string kv = out_u64 (kv_value kv) @ out_string (kv_key kv)"

definition in_kv_string :: "bytes \<Rightarrow> (bytes KeyValue \<times> bytes) option" where
  "in_kv_string f = do {
     (v, f) \<leftarrow> in_u64 f; (k, f) \<leftarrow> in_string f; Some (\<lparr>kv_key = k, kv_value = v\<rparr>, f) }"

definition out_op_string :: "bytes Operation \<Rightarrow> bytes" where
  "out_op_string x =
     out_u8 (op_op x) @ out_u64 (op_result x) @ out_string (op_lo_key x) @ out_string (op_hi_key x)"

definition in_op_string :: "bytes \<Rightarrow> (bytes Operation \<times> bytes) option" where
  "in_op_string f = do {
     (a, f) \<leftarrow> in_u8 f; (r, f) \<leftarrow> in_u64 f; (l, f) \<leftarrow> in_string f; (h, f) \<leftarrow> in_string f;
     Some (\<lparr>op_op = a, op_lo_key = l, op_hi_key = h, op_result = r\<rparr>, f) }"

text \<open>The vectors: their size and their elements one after the other.\<close>

definition out_data :: "('t \<Rightarrow> bytes) \<Rightarrow> 't list \<Rightarrow> bytes" where
  "out_data out data = out_u64 (word_of_nat (length data)) @ concat (map out data)"

fun in_elements :: "(bytes \<Rightarrow> ('t \<times> bytes) option) \<Rightarrow> nat \<Rightarrow> bytes \<Rightarrow> ('t list \<times> bytes) option" where
  "in_elements inp 0 f = Some ([], f)"
| "in_elements inp (Suc n) f = do {
     (x, f) \<leftarrow> inp f; (xs, f) \<leftarrow> in_elements inp n f; Some (x # xs, f) }"

definition in_data :: "(bytes \<Rightarrow> ('t \<times> bytes) option) \<Rightarrow> bytes \<Rightarrow> ('t list \<times> bytes) option" where
  "in_data inp f = do { (size, f) \<leftarrow> in_u64 f; in_elements inp (unat size) f }"

definition write_data_multithread :: "('t \<Rightarrow> bytes) \<Rightarrow> 't list list \<Rightarrow> bytes" where
  "write_data_multithread out data =
     out_u64 (word_of_nat (length data)) @ concat (map (out_data out) data)"

definition load_data_multithread :: "(bytes \<Rightarrow> ('t \<times> bytes) option) \<Rightarrow> bytes \<Rightarrow> 't list list option" where
  "load_data_multithread inp f = do {
     (len, f) \<leftarrow> in_u64 f;
     (data, f) \<leftarrow> in_elements (in_data inp) (unat len) f;
     Some data
   }"

definition load_data :: "(bytes \<Rightarrow> ('t \<times> bytes) option) \<Rightarrow> bytes \<Rightarrow> 't list option" where
  "load_data inp f = map_option fst (in_data inp f)"

definition write_data :: "('t \<Rightarrow> bytes) \<Rightarrow> 't list \<Rightarrow> bytes" where
  "write_data out data = out_data out data"

subsection \<open>Random numbers\<close>

text \<open>\<^verbatim>\<open>FastRandom\<close>: the state is its seed, every draw returns the new one.\<close>

unbundle bit_operations_syntax

definition RandUint32 :: "u64 \<Rightarrow> u32 \<times> u64" where
  "RandUint32 seed =
     (let s1 = seed XOR push_bit 13 seed;
          s2 = s1 XOR drop_bit 15 s1;
          s3 = s2 XOR push_bit 5 s2
      in (ucast s3, s3))"

definition RandUint32_range :: "u32 \<Rightarrow> u32 \<Rightarrow> u64 \<Rightarrow> (u32 \<times> u64) option" where
  "RandUint32_range inclusive_min inclusive_max seed =
     (let (r, seed') = RandUint32 seed
      in if inclusive_max - inclusive_min + 1 = 0 then None
         else Some (inclusive_min + r mod (inclusive_max - inclusive_min + 1), seed'))"

definition RandBool :: "u64 \<Rightarrow> bool \<times> u64" where
  "RandBool seed = (let (r, seed') = RandUint32 seed in (r mod 2 = 0, seed'))"

subsection \<open>Integers and their bytes\<close>

lemma length_le_bytes [simp]: "length (le_bytes n x) = n"
  by (induction n arbitrary: x) auto

lemma of_le_bytes: "of_le (le_bytes n x) = x mod 256 ^ n"
proof (induction n arbitrary: x)
  case (Suc n)
  have "unat (word_of_nat (x mod 256) :: u8) = x mod 256" by (simp add: unat_of_nat)
  then show ?case by (simp add: Suc mod_mult2_eq)
qed simp

lemma le_bytes_of_le: "le_bytes (length bs) (of_le bs) = bs"
proof (induction bs)
  case (Cons b bs)
  have b: "unat b < 256" using unsigned_less [of b, where ?'a = nat] by simp
  have "(unat b + 256 * of_le bs) mod 256 = unat b" "(unat b + 256 * of_le bs) div 256 = of_le bs"
    using b by simp_all
  then show ?case using Cons by simp
qed simp

lemma of_le_bound: "of_le bs < 256 ^ length bs"
proof -
  have "of_le bs = of_le (le_bytes (length bs) (of_le bs))" by (simp add: le_bytes_of_le)
  then show ?thesis unfolding of_le_bytes by (metis mod_less_divisor zero_less_numeral zero_less_power)
qed

text \<open>The bytes of a swapped integer are those of the integer in reverse, most significant first.\<close>

lemma le_bytes_swap:
  assumes "n = LENGTH('w::len) div 8" and "8 dvd LENGTH('w)"
  shows "le_bytes n (unat (of_nat (of_le (rev (le_bytes n (unat (w :: 'w word))))) :: 'w word)) = rev (le_bytes n (unat w))"
proof -
  have "(256::nat) ^ n = (2 ^ 8) ^ n" by simp
  also have "\<dots> = 2 ^ (8 * n)" by (simp only: power_mult)
  also have "8 * n = LENGTH('w)" using assms by simp
  finally have p: "(256::nat) ^ n = 2 ^ LENGTH('w)" .
  have "of_le (rev (le_bytes n (unat w))) < 256 ^ n"
    using of_le_bound [of "rev (le_bytes n (unat w))"] by simp
  then have "unat (of_nat (of_le (rev (le_bytes n (unat w)))) :: 'w word) = of_le (rev (le_bytes n (unat w)))"
    unfolding p by (simp add: unat_of_nat)
  then show ?thesis using le_bytes_of_le [of "rev (le_bytes n (unat w))"] by simp
qed

lemma convert2String_bytes:
  "convert2String_u32 x = rev (le_bytes 4 (unat x))" "convert2String_u64 y = rev (le_bytes 8 (unat y))"
  unfolding convert2String_u32_def bswap32_def convert2String_u64_def bswap64_def
  by (rule le_bytes_swap; simp)+

text \<open>Most significant byte first, the order of the byte strings is the order of the numbers.\<close>

fun be_bytes :: "nat \<Rightarrow> nat \<Rightarrow> bytes" where
  "be_bytes 0 x = []"
| "be_bytes (Suc n) x = of_nat (x div 256 ^ n mod 256) # be_bytes n x"

lemma be_bytes_snoc: "be_bytes (Suc n) x = be_bytes n (x div 256) @ [of_nat (x mod 256)]"
  by (induction n arbitrary: x) (auto simp: div_mult2_eq mult.commute)

lemma rev_le_bytes: "rev (le_bytes n x) = be_bytes n x"
  by (induction n arbitrary: x) (auto simp: be_bytes_snoc simp del: be_bytes.simps(2))

lemma less_snoc:
  fixes xs ys :: "'a::linorder list"
  assumes "length xs = length ys"
  shows "xs @ [a] < ys @ [b] \<longleftrightarrow> xs < ys \<or> xs = ys \<and> a < b"
  using assms by (induction xs ys rule: list_induct2) auto

lemma be_bytes_inj: "x < 256 ^ n \<Longrightarrow> y < 256 ^ n \<Longrightarrow> be_bytes n x = be_bytes n y \<Longrightarrow> x = y"
  by (metis mod_less of_le_bytes rev_le_bytes rev_rev_ident)

lemma div_mod_less:
  fixes x y m :: nat
  assumes "0 < m"
  shows "x < y \<longleftrightarrow> x div m < y div m \<or> x div m = y div m \<and> x mod m < y mod m"
proof (cases "x div m" "y div m" rule: linorder_cases)
  case equal
  have "x = x div m * m + x mod m" "y = x div m * m + y mod m"
    by (metis div_mult_mod_eq) (metis equal div_mult_mod_eq)
  then show ?thesis using equal by linarith
next
  case less
  then have "x < y" by (meson div_le_mono leI leD)
  then show ?thesis using less by simp
next
  case greater
  then have "\<not> x < y" by (meson div_le_mono leI leD less_imp_le)
  then show ?thesis using greater by simp
qed

lemma be_bytes_less:
  "x < 256 ^ n \<Longrightarrow> y < 256 ^ n \<Longrightarrow> be_bytes n x < be_bytes n y \<longleftrightarrow> x < y"
proof (induction n arbitrary: x y)
  case (Suc n)
  have div: "x div 256 < 256 ^ n" "y div 256 < 256 ^ n" using Suc.prems by (auto simp: div_less_iff_less_mult)
  have bytes: "(word_of_nat (x mod 256) :: u8) < word_of_nat (y mod 256) \<longleftrightarrow> x mod 256 < y mod 256"
    by (simp add: word_less_nat_alt unat_of_nat)
  have len: "length (be_bytes n z) = n" for z by (induction n) auto
  have "be_bytes (Suc n) x < be_bytes (Suc n) y \<longleftrightarrow>
      x div 256 < y div 256 \<or> x div 256 = y div 256 \<and> x mod 256 < y mod 256"
    unfolding be_bytes_snoc using less_snoc [of "be_bytes n (x div 256)" "be_bytes n (y div 256)"]
      Suc.IH [OF div] be_bytes_inj [OF div] bytes by (auto simp: len)
  also have "\<dots> \<longleftrightarrow> x < y"
    by (rule div_mod_less [symmetric]) simp
  finally show ?case .
qed simp

text \<open>C24. The conversion of integer keys to strings is strictly monotone, so the string indexes keep
  the keys in their order.\<close>

theorem convert2String_order:
  "(convert2String_u32 a < convert2String_u32 b \<longleftrightarrow> a < b) \<and>
   (convert2String_u64 c < convert2String_u64 d \<longleftrightarrow> c < d)"
proof -
  have "unat a < 256 ^ 4" "unat b < 256 ^ 4" "unat c < 256 ^ 8" "unat d < 256 ^ 8"
    using unsigned_less [of a, where ?'a = nat] unsigned_less [of b, where ?'a = nat]
      unsigned_less [of c, where ?'a = nat] unsigned_less [of d, where ?'a = nat] by simp_all
  then show ?thesis
    unfolding convert2String_bytes rev_le_bytes by (simp add: be_bytes_less word_less_nat_alt)
qed

text \<open>C25. Strings with their terminating zero byte are prefix-free: for two different keys without zero
  bytes, neither converted key is a prefix of the other, and their order is that of the keys.\<close>

theorem convert2String_string_prefix_free:
  assumes "0 \<notin> set a" and "0 \<notin> set b" and "a \<noteq> b"
  shows "take (length (convert2String_string a)) (convert2String_string b) \<noteq> convert2String_string a \<and>
    (convert2String_string a < convert2String_string b \<longleftrightarrow> a < b)"
proof -
  have order: "u @ [0] < v @ [0] \<longleftrightarrow> u < v" if "0 \<notin> set u" "0 \<notin> set v" "u \<noteq> v" for u v :: bytes
    using that
  proof (induction u arbitrary: v)
    case Nil
    then show ?case by (cases v) (auto simp: word_neq_0_conv [symmetric] word_gt_0)
  next
    case (Cons x u)
    then show ?case by (cases v) (auto simp: word_gt_0)
  qed
  have "take (length (u @ [0])) (v @ [0]) \<noteq> u @ [0]" if "0 \<notin> set u" "0 \<notin> set v" "u \<noteq> v" for u v :: bytes
    using that
  proof (induction u arbitrary: v)
    case Nil
    then show ?case by (cases v) auto
  next
    case (Cons x u)
    then show ?case by (cases v) auto
  qed
  then show ?thesis using order assms by (simp add: convert2String_string_def)
qed

text \<open>The keys \<^verbatim>\<open>ab\<close> and \<^verbatim>\<open>abc\<close>.\<close>

theorem convert2String_string_prefix_free_witness:
  "take (length (convert2String_string [97, 98])) (convert2String_string [97, 98, 99])
     \<noteq> convert2String_string [97, 98]
   \<and> convert2String_string [97, 98] < convert2String_string [97, 98, 99]"
  using convert2String_string_prefix_free [of "[97, 98]" "[97, 98, 99]"] by simp

subsection \<open>Files are read back as they were written\<close>

locale codec =
  fixes out :: "'t \<Rightarrow> bytes"
    and inp :: "bytes \<Rightarrow> ('t \<times> bytes) option"
    and ok :: "'t \<Rightarrow> bool"
  assumes in_out: "ok x \<Longrightarrow> inp (out x @ f) = Some (x, f)"
begin

lemma in_elements_out:
  "\<forall>x\<in>set xs. ok x \<Longrightarrow> in_elements inp (length xs) (concat (map out xs) @ f) = Some (xs, f)"
  by (induction xs) (auto simp: in_out)

end

lemma in_word_out:
  assumes "n = LENGTH('w::len) div 8" and "8 dvd LENGTH('w)"
  shows "map_option (\<lambda>(x, f'). (word_of_nat x :: 'w word, f')) (read_le n (le_bytes n (unat x) @ f)) = Some (x, f)"
proof -
  have "(256::nat) ^ n = (2 ^ 8) ^ n" by simp
  also have "\<dots> = 2 ^ (8 * n)" by (simp only: power_mult)
  also have "8 * n = LENGTH('w)" using assms by simp
  finally have "unat x < 256 ^ n" using unsigned_less [of x, where ?'a = nat] by simp
  then show ?thesis by (simp add: read_le_def read_bytes_def of_le_bytes)
qed

interpretation u8_codec: codec out_u8 in_u8 "\<lambda>_. True"
  unfolding out_u8_def in_u8_def by unfold_locales (rule in_word_out; simp)

interpretation u32_codec: codec out_u32 in_u32 "\<lambda>_. True"
  by unfold_locales (simp add: out_u32_def in_u32_def in_word_out)

interpretation u64_codec: codec out_u64 in_u64 "\<lambda>_. True"
  by unfold_locales (simp add: out_u64_def in_u64_def in_word_out)

interpretation string_codec: codec out_string in_string "\<lambda>s. length s < 2 ^ 32"
proof unfold_locales
  fix s f :: bytes assume "length s < 2 ^ 32"
  then have "unat (word_of_nat (length s) :: u32) = length s" by (simp add: unat_of_nat)
  then show "in_string (out_string s @ f) = Some (s, f)"
    by (simp add: in_string_def out_string_def u32_codec.in_out read_bytes_def)
qed

text \<open>The compound formats inherit the round trip from the format of their keys or elements.\<close>

lemma codec_kv:
  assumes "codec out inp ok"
  shows "codec (out_kv out) (in_kv inp) (\<lambda>kv. ok (kv_key kv))"
  using codec.in_out [OF assms] by unfold_locales (simp add: out_kv_def in_kv_def u64_codec.in_out)

lemma codec_op:
  assumes "codec out inp ok"
  shows "codec (out_op out) (in_op inp) (\<lambda>x. ok (op_lo_key x) \<and> ok (op_hi_key x))"
  using codec.in_out [OF assms]
  by unfold_locales (simp add: out_op_def in_op_def u64_codec.in_out u8_codec.in_out)

lemma codec_data:
  assumes "codec out inp ok"
  shows "codec (out_data out) (in_data inp) (\<lambda>xs. length xs < 2 ^ 64 \<and> (\<forall>x\<in>set xs. ok x))"
proof
  fix xs :: "'a list" and f assume xs: "length xs < 2 ^ 64 \<and> (\<forall>x\<in>set xs. ok x)"
  then have "unat (word_of_nat (length xs) :: u64) = length xs" by (simp add: unat_of_nat)
  then show "in_data inp (out_data out xs @ f) = Some (xs, f)"
    using xs codec.in_elements_out [OF assms] by (simp add: in_data_def out_data_def u64_codec.in_out)
qed

interpretation kv_string_codec: codec out_kv_string in_kv_string "\<lambda>kv. length (kv_key kv) < 2 ^ 32"
  by unfold_locales (simp add: out_kv_string_def in_kv_string_def u64_codec.in_out string_codec.in_out)

interpretation op_string_codec: codec out_op_string in_op_string
    "\<lambda>x. length (op_lo_key x) < 2 ^ 32 \<and> length (op_hi_key x) < 2 ^ 32"
  by unfold_locales
    (simp add: out_op_string_def in_op_string_def u64_codec.in_out u8_codec.in_out string_codec.in_out)

lemma load_write_data:
  assumes "codec out inp ok" and "length xs < 2 ^ 64" and "\<forall>x\<in>set xs. ok x"
  shows "load_data inp (write_data out xs) = Some xs"
  using codec.in_out [OF codec_data [OF assms(1)], of xs "[]"] assms(2,3)
  by (simp add: load_data_def write_data_def)

lemma load_write_data_multithread:
  assumes "codec out inp ok" and "length xss < 2 ^ 64"
    and "\<forall>xs\<in>set xss. length xs < 2 ^ 64 \<and> (\<forall>x\<in>set xs. ok x)"
  shows "load_data_multithread inp (write_data_multithread out xss) = Some xss"
proof -
  have "unat (word_of_nat (length xss) :: u64) = length xss" using assms(2) by (simp add: unat_of_nat)
  then show ?thesis
    using codec.in_elements_out [OF codec_data [OF assms(1)] assms(3), of "[]"]
    by (simp add: load_data_multithread_def write_data_multithread_def u64_codec.in_out)
qed



subsection \<open>Data sets\<close>

lemma is_unique_from_iff:
  "i + n \<le> length data \<Longrightarrow> is_unique_from data i n \<longleftrightarrow> (\<forall>j. i \<le> j \<and> j < i + n \<longrightarrow> data ! j \<noteq> data ! (j - 1))"
proof (induction n arbitrary: i)
  case (Suc n)
  have "is_unique_from data (i + 1) n \<longleftrightarrow> (\<forall>j. i + 1 \<le> j \<and> j < i + 1 + n \<longrightarrow> data ! j \<noteq> data ! (j - 1))"
    by (rule Suc.IH) (use Suc.prems in simp)
  then show ?case by (auto simp: less_Suc_eq_le le_less_Suc_eq Suc_le_eq nat_less_le)
qed auto

text \<open>On a sorted array \<^verbatim>\<open>is_unique\<close> decides whether all keys are different, although it compares
  neighbours only, and the values that \<^verbatim>\<open>add_values\<close> gives the keys are their positions.\<close>

theorem is_unique_add_values:
  assumes "sorted (keys :: 'k::linorder list)" and "i < length keys"
  shows "(is_unique keys \<longleftrightarrow> distinct keys) \<and> length (add_values keys) = length keys \<and>
    kv_key (add_values keys ! i) = keys ! i \<and> kv_value (add_values keys ! i) = of_nat i"
proof -
  have "is_unique keys \<longleftrightarrow> (\<forall>j. 1 \<le> j \<and> j < length keys \<longrightarrow> keys ! j \<noteq> keys ! (j - 1))"
    unfolding is_unique_def using assms(2) by (subst is_unique_from_iff) auto
  also have "\<dots> \<longleftrightarrow> distinct keys"
  proof
    assume *: "\<forall>j. 1 \<le> j \<and> j < length keys \<longrightarrow> keys ! j \<noteq> keys ! (j - 1)"
    have "keys ! a < keys ! b" if "a < b" "b < length keys" for a b
    proof -
      have "keys ! (b - 1) < keys ! b"
        using * that sorted_nth_mono [OF assms(1), of "b - 1" b] by (simp add: order_less_le eq_commute)
      moreover have "keys ! a \<le> keys ! (b - 1)" using that by (intro sorted_nth_mono [OF assms(1)]) auto
      ultimately show ?thesis by simp
    qed
    then show "distinct keys"
      unfolding distinct_conv_nth by (metis linorder_neqE_nat less_irrefl)
  qed (auto simp: distinct_conv_nth)
  finally have u: "is_unique keys \<longleftrightarrow> distinct keys" .
  have "length (add_values_from ks m) = length ks \<and> (i < length ks \<longrightarrow>
      kv_key (add_values_from ks m ! i) = ks ! i \<and> kv_value (add_values_from ks m ! i) = of_nat (m + i))" for ks :: "'k list" and m i
    by (induction ks arbitrary: m i) (auto simp: nth_Cons split: nat.split)
  then show ?thesis using u assms(2) by (simp add: add_values_def)
qed

text \<open>Four keys, one of them twice.\<close>

theorem is_unique_add_values_witness:
  "\<not> is_unique [2, 5, 5, 9::nat] \<and> kv_value (add_values [2, 5, 5, 9::nat] ! 3) = 3"
  using is_unique_add_values [of "[2, 5, 5, 9::nat]" 3] by simp

lemma word_offset_bounds:
  fixes lo hi d :: "'w::len word"
  assumes "lo \<le> hi" and "d \<le> hi - lo"
  shows "lo \<le> lo + d \<and> lo + d \<le> hi"
proof -
  have "unat (hi - lo) = unat hi - unat lo" using assms(1) by (simp add: unat_sub)
  then have "unat lo + unat d \<le> unat hi" using assms by (simp add: word_le_nat_alt)
  moreover from this have "unat (lo + d) = unat lo + unat d"
    by (intro unat_add_lem [THEN iffD1] le_less_trans [OF _ unsigned_less [of hi]])
  ultimately show ?thesis by (simp add: word_le_nat_alt)
qed

lemma RandUint32_range_result:
  assumes "lo \<le> hi"
  shows "(RandUint32_range lo hi seed = None \<longleftrightarrow> lo = 0 \<and> hi = - 1) \<and>
    (\<forall>r seed'. RandUint32_range lo hi seed = Some (r, seed') \<longrightarrow> lo \<le> r \<and> r \<le> hi)"
proof -
  obtain r s where r: "RandUint32 seed = (r, s)" by fastforce
  have "hi - lo + 1 = 0 \<longleftrightarrow> hi - lo = - 1" by (simp add: eq_neg_iff_add_eq_0)
  moreover have "hi - lo = - 1 \<longleftrightarrow> lo = 0 \<and> hi = - 1"
  proof
    assume d: "hi - lo = - 1"
    have "unat hi - unat lo = unat (- 1 :: u32)" using assms by (simp add: d [symmetric] unat_sub)
    then have "unat hi = 2 ^ 32 - 1 \<and> unat lo = 0"
      using unsigned_less [of hi, where ?'a = nat] by (simp add: unsigned_minus_1_eq_mask mask_eq_exp_minus_1) linarith
    then show "lo = 0 \<and> hi = - 1" using d by (simp add: unat_eq_zero)
  qed simp
  ultimately have none: "hi - lo + 1 = 0 \<longleftrightarrow> lo = 0 \<and> hi = - 1" by simp
  have "x mod (hi - lo + 1) \<le> hi - lo" if "hi - lo + 1 \<noteq> 0" for x
  proof -
    have "x mod (hi - lo + 1) < hi - lo + 1" using that by (simp add: word_mod_less_divisor word_gt_0)
    moreover have "unat (hi - lo + 1) = unat (hi - lo) + 1" using that using unatSuc [of "hi - lo"] by (simp add: add.commute)
    ultimately show ?thesis by (simp add: word_less_nat_alt word_le_nat_alt)
  qed
  then show ?thesis using none word_offset_bounds [OF assms] by (auto simp: RandUint32_range_def r)
qed

text \<open>A bounded draw of the random generator lies between its bounds; the division is by zero exactly
  when the bounds span all 32-bit numbers.\<close>

theorem RandUint32_range_bounds:
  assumes "lo \<le> hi"
  shows "(RandUint32_range lo hi seed = None \<longleftrightarrow> lo = 0 \<and> hi = - 1) \<and>
    (\<forall>r seed'. RandUint32_range lo hi seed = Some (r, seed') \<longrightarrow> lo \<le> r \<and> r \<le> hi)"
  using RandUint32_range_result [OF assms] .

text \<open>A die.\<close>

theorem RandUint32_range_bounds_witness:
  "\<exists>r seed'. RandUint32_range 1 6 2305843008139952128 = Some (r, seed') \<and> 1 \<le> r \<and> r \<le> 6"
  using RandUint32_range_bounds [of 1 6 2305843008139952128] by (cases "RandUint32_range 1 6 2305843008139952128") auto

end
