(* ===== verification/Generate.thy ===== *)
theory Generate
  imports Util Doubles
begin

text \<open>
  The workload generator (\<^verbatim>\<open>src/generate.cc\<close>): it splits a sorted data set into bulk-loaded pairs and
  insertions, lays the operations out (in order, shuffled or in blocks), and fills in the keys and
  the expected results of the queries by replaying the workload on a \<^verbatim>\<open>multimap\<close>.

  \<open>None\<close> is every outcome without a workload: an exit with an error message, an access outside a
  container, a conversion out of range, a loop that does not end. \<^verbatim>\<open>std::shuffle\<close> and \<^verbatim>\<open>std::sample\<close>,
  whose results the standard leaves open, are arguments. A \<^verbatim>\<open>multimap\<close> is the list of its pairs in
  iteration order; the order of pairs with equal keys has no effect on any result. The random
  generator \<^verbatim>\<open>ranny\<close> is its seed, passed along.
\<close>

subsection \<open>Random numbers\<close>

definition ScaleFactor :: "u64 \<Rightarrow> rat \<times> u64" where
  "ScaleFactor seed =
     (let (r, seed') = RandUint32 seed
      in (float_round (float_round (of_nat (unat r)) / float_round (2 ^ 32 - 1)), seed'))"

text \<open>
  What depends on the key type: whether keys are strings, the key of a new operation, the cap on the largest key of the \<^verbatim>\<open>fb\<close> data
  set, and the key at a fraction of a range, computed with \<^verbatim>\<open>float\<close> and converted back.
\<close>

record 'k key_type =
  kt_string :: bool
  kt_default :: 'k
  kt_cap :: "'k \<Rightarrow> 'k"
  kt_draw :: "rat \<Rightarrow> 'k \<Rightarrow> 'k \<Rightarrow> 'k option"

definition word_draw :: "rat \<Rightarrow> 'w::len word \<Rightarrow> 'w word \<Rightarrow> 'w word option" where
  "word_draw scale min_key max_key =
     (let x = float_round (float_round (scale * float_round (of_nat (unat (max_key - min_key))))
                + float_round (of_nat (unat min_key)))
      in if 0 \<le> x \<and> x < 2 ^ LENGTH('w) then Some (of_int \<lfloor>x\<rfloor>) else None)"

definition uint32_keys :: "u32 key_type" where
  "uint32_keys = \<lparr>kt_string = False, kt_default = 0, kt_cap = id, kt_draw = word_draw\<rparr>"

definition uint64_keys :: "bool \<Rightarrow> u64 key_type" where
  "uint64_keys is_fb =
     \<lparr>kt_string = False, kt_default = 0, kt_cap = (\<lambda>k. if is_fb \<and> k > 77308821508 then 77308821508 else k), kt_draw = word_draw\<rparr>"

definition string_keys :: "bytes key_type" where
  "string_keys = \<lparr>kt_string = True, kt_default = [], kt_cap = id, kt_draw = (\<lambda>_ _ _. None)\<rparr>"

subsection \<open>Layout of the operations\<close>

definition generate_permute :: "(nat list \<Rightarrow> nat list) \<Rightarrow> nat \<Rightarrow> nat \<Rightarrow> bool \<Rightarrow> nat list" where
  "generate_permute shuffle lo hi is_shuffle = (if is_shuffle then shuffle [lo..<hi] else [lo..<hi])"

text \<open>One of the three inner loops: \<open>permute[pos++] = cur++\<close>, \<open>n\<close> times.\<close>

fun write_run :: "nat \<Rightarrow> nat list \<times> nat \<times> nat \<Rightarrow> (nat list \<times> nat \<times> nat) option" where
  "write_run 0 s = Some s"
| "write_run (Suc n) (permute, pos, cur) =
     (if pos < length permute then write_run n (permute[pos := cur], pos + 1, cur + 1) else None)"

record layout =
  ly_permute :: "nat list"
  ly_cur :: nat
  ly_insert_cur :: nat
  ly_lookup_cur :: nat
  ly_range_query_cur :: nat

definition layout_block :: "nat \<Rightarrow> nat \<Rightarrow> nat \<Rightarrow> layout \<Rightarrow> layout option" where
  "layout_block block_insert_cnt block_lookup_cnt block_range_query_cnt l = do {
     (permute, insert_cur, cur) \<leftarrow> write_run block_insert_cnt (ly_permute l, ly_insert_cur l, ly_cur l);
     (permute, lookup_cur, cur) \<leftarrow> write_run block_lookup_cnt (permute, ly_lookup_cur l, cur);
     (permute, range_query_cur, cur) \<leftarrow> write_run block_range_query_cnt (permute, ly_range_query_cur l, cur);
     Some \<lparr>ly_permute = permute, ly_cur = cur, ly_insert_cur = insert_cur, ly_lookup_cur = lookup_cur,
           ly_range_query_cur = range_query_cur\<rparr>
   }"

text \<open>The blocks from \<open>i\<close> on, \<open>n\<close> of them; the last block takes what is left.\<close>

fun layout_blocks :: "nat \<Rightarrow> nat \<Rightarrow> nat \<Rightarrow> nat \<Rightarrow> nat \<Rightarrow> nat \<Rightarrow> nat \<Rightarrow> layout \<Rightarrow> layout option" where
  "layout_blocks op_cnt insert_cnt range_query_cnt lookup_cnt block_num 0 i l = Some l"
| "layout_blocks op_cnt insert_cnt range_query_cnt lookup_cnt block_num (Suc n) i l = do {
     l' \<leftarrow> layout_block
       (if i \<noteq> block_num - 1 then insert_cnt div block_num else insert_cnt - ly_insert_cur l)
       (if i \<noteq> block_num - 1 then lookup_cnt div block_num else insert_cnt + lookup_cnt - ly_lookup_cur l)
       (if i \<noteq> block_num - 1 then range_query_cnt div block_num else op_cnt - ly_range_query_cur l) l;
     layout_blocks op_cnt insert_cnt range_query_cnt lookup_cnt block_num n (i + 1) l'
   }"

definition generate_permute_blockwise :: "nat \<Rightarrow> nat \<Rightarrow> nat \<Rightarrow> nat \<Rightarrow> nat \<Rightarrow> nat list option" where
  "generate_permute_blockwise op_cnt insert_cnt range_query_cnt lookup_cnt block_num =
     map_option ly_permute
       (layout_blocks op_cnt insert_cnt range_query_cnt lookup_cnt block_num block_num 0
         \<lparr>ly_permute = replicate op_cnt 0, ly_cur = 0, ly_insert_cur = 0, ly_lookup_cur = insert_cnt,
          ly_range_query_cur = insert_cnt + lookup_cnt\<rparr>)"

subsection \<open>Insertions and bulk loading\<close>

datatype InsertPat = Equality | Delta | Hotspot

definition insert_range :: "InsertPat \<Rightarrow> rat \<Rightarrow> nat \<Rightarrow> nat \<Rightarrow> nat \<times> nat" where
  "insert_range pat hotspot_ratio insert_cnt sz =
     (case pat of
        Equality \<Rightarrow> (0, sz)
      | Delta \<Rightarrow> (to_size_t (int sz - int insert_cnt), sz)
      | Hotspot \<Rightarrow>
          let lo = nat \<lfloor>double_round (double_round (3 / 10) * double_round (of_nat sz))\<rfloor>
          in (lo, nat \<lfloor>double_round (double_round (of_nat lo)
                    + double_round (hotspot_ratio * double_round (of_nat sz)))\<rfloor>))"

definition insert_op :: "'k KeyValue \<Rightarrow> 'k Operation \<Rightarrow> 'k Operation" where
  "insert_op kv x = x\<lparr>op_op := INSERT, op_lo_key := kv_key kv, op_result := kv_value kv\<rparr>"

text \<open>\<open>ops[op_id[i]]\<close> becomes the insertion of the \<open>i\<close>-th of the given pairs, from \<open>i\<close> on.\<close>

fun set_inserts :: "nat list \<Rightarrow> nat \<Rightarrow> 'k KeyValue list \<Rightarrow> 'k Operation list \<Rightarrow> 'k Operation list option" where
  "set_inserts op_id i [] ops = Some ops"
| "set_inserts op_id i (kv # kvs) ops =
     (if i < length op_id \<and> op_id ! i < length ops
      then set_inserts op_id (i + 1) kvs (ops[op_id ! i := insert_op kv (ops ! (op_id ! i))])
      else None)"

definition generate_inserts ::
    "(nat list \<Rightarrow> nat list) \<Rightarrow> 'k::linorder Operation list \<Rightarrow> nat list \<Rightarrow> 'k KeyValue list \<Rightarrow> nat \<Rightarrow> InsertPat
      \<Rightarrow> rat \<Rightarrow> ('k Operation list \<times> 'k KeyValue list) option" where
  "generate_inserts shuffle ops op_id data_vec insert_cnt pat hotspot_ratio = do {
     let (lo, hi) = insert_range pat hotspot_ratio insert_cnt (length data_vec);
     if lo > length data_vec \<or> hi > length data_vec then None
     else if pat = Delta then do {
       ops' \<leftarrow> set_inserts op_id 0 (drop lo data_vec) ops;
       Some (ops', take lo data_vec @ drop hi data_vec)
     }
     else do {
       let kvs = map (\<lambda>i. data_vec ! i) (generate_permute shuffle lo hi True);
       ops' \<leftarrow> set_inserts op_id 0 (take insert_cnt kvs) ops;
       Some (ops', take lo data_vec @ sort_key kv_key (drop insert_cnt kvs) @ drop hi data_vec)
     }
   }"

subsection \<open>Queries\<close>

type_synonym 'k multimap = "('k \<times> u64) list"

definition multimap_emplace :: "'k::linorder \<times> u64 \<Rightarrow> 'k multimap \<Rightarrow> 'k multimap" where
  "multimap_emplace p m = takeWhile (\<lambda>q. fst q \<le> fst p) m @ p # dropWhile (\<lambda>q. fst q \<le> fst p) m"

text \<open>The pairs that a query scans: those of the \<^verbatim>\<open>multimap\<close>, or of the sorted vector when nothing is inserted.\<close>

definition query_pairs :: "bool \<Rightarrow> 'k multimap \<Rightarrow> 'k KeyValue list \<Rightarrow> 'k multimap" where
  "query_pairs is_insert data_map data_vec =
     (if is_insert then data_map else map (\<lambda>kv. (kv_key kv, kv_value kv)) data_vec)"

definition exists_key :: "'k multimap \<Rightarrow> 'k \<Rightarrow> bool" where
  "exists_key m k \<longleftrightarrow> k \<in> fst ` set m"

partial_function (option) draw_negative ::
    "'k key_type \<Rightarrow> 'k multimap \<Rightarrow> 'k \<Rightarrow> 'k \<Rightarrow> u64 \<Rightarrow> ('k \<times> u64) option" where
  "draw_negative K m min_key max_key seed =
     (case ScaleFactor seed of (s, seed') \<Rightarrow>
        Option.bind (kt_draw K s min_key max_key) (\<lambda>k.
          if exists_key m k then draw_negative K m min_key max_key seed' else Some (k, seed')))"

text \<open>A pair drawn from \<open>data_vec\<close>; the size is truncated to 32 bits.\<close>

definition draw_existing :: "'k KeyValue list \<Rightarrow> u64 \<Rightarrow> ('k \<times> u64) option" where
  "draw_existing data_vec seed = do {
     (offset, seed') \<leftarrow> RandUint32_range 0 (word_of_int (int (length data_vec) - 1)) seed;
     if unat offset < length data_vec then Some (kv_key (data_vec ! unat offset), seed') else None
   }"

definition generate_lookup ::
    "'k::linorder key_type \<Rightarrow> bool \<Rightarrow> rat \<Rightarrow> 'k multimap \<Rightarrow> 'k KeyValue list \<Rightarrow> 'k Operation \<Rightarrow> u64
      \<Rightarrow> ('k Operation \<times> u64) option" where
  "generate_lookup K is_insert negative_lookup_ratio data_map data_vec x seed = do {
     let m = query_pairs is_insert data_map data_vec;
     if m = [] then None else do {
       let (min_key, max_key) = (fst (hd m), kt_cap K (fst (last m)));
       let (negative, seed) =
         (if \<not> kt_string K \<and> negative_lookup_ratio > 0
          then (let (s, seed) = ScaleFactor seed in (s < negative_lookup_ratio, seed)) else (False, seed));
       if negative then do {
         (k, seed) \<leftarrow> draw_negative K m min_key max_key seed;
         Some (x\<lparr>op_lo_key := k, op_result := NOT_FOUND\<rparr>, seed)
       }
       else do {
         (k, seed) \<leftarrow> draw_existing data_vec seed;
         Some (x\<lparr>op_lo_key := k, op_result := 0\<rparr>, seed)
       }
     }
   }"

definition max_num_retries :: nat where "max_num_retries = 100"
definition max_num :: nat where "max_num = 100"
definition range_error :: rat where "range_error = double_round (1 / 20)"

definition min_num :: nat where
  "min_num = nat \<lfloor>double_round (double_round (1 - range_error) * of_nat max_num)\<rfloor>"

definition range_step :: "rat \<Rightarrow> nat" where
  "range_step s = nat \<lfloor>double_round (double_round (1 - double_round (s * range_error)) * of_nat max_num)\<rfloor>"

text \<open>A string key not beyond \<open>max_key\<close>: redrawn, every time counted as a retry.\<close>

function draw_low_string ::
    "'k::linorder KeyValue list \<Rightarrow> 'k \<Rightarrow> nat \<Rightarrow> u64 \<Rightarrow> ('k \<times> nat \<times> u64) option" where
  "draw_low_string data_vec max_key num_retries seed =
     Option.bind (draw_existing data_vec seed) (\<lambda>(k, seed').
       if k > max_key then
         if num_retries + 1 > max_num_retries then None
         else draw_low_string data_vec max_key (num_retries + 1) seed'
       else Some (k, num_retries, seed'))"
  by pat_completeness auto
termination
  by (relation "measure (\<lambda>(_, _, r, _). max_num_retries - r)") (auto simp: max_num_retries_def)

declare draw_low_string.simps [simp del]

definition draw_low ::
    "'k::linorder key_type \<Rightarrow> 'k KeyValue list \<Rightarrow> 'k \<Rightarrow> 'k \<Rightarrow> nat \<Rightarrow> u64 \<Rightarrow> ('k \<times> nat \<times> u64) option" where
  "draw_low K data_vec min_key max_key num_retries seed =
     (if kt_string K then draw_low_string data_vec max_key num_retries seed
      else (let (s, seed) = ScaleFactor seed
            in map_option (\<lambda>k. (k, num_retries, seed)) (kt_draw K s min_key max_key)))"

text \<open>One attempt at a range query: its bounds, the number and the sum of the pairs it scans.\<close>

definition range_attempt ::
    "'k::linorder key_type \<Rightarrow> 'k multimap \<Rightarrow> 'k KeyValue list \<Rightarrow> nat \<Rightarrow> u64
      \<Rightarrow> (('k \<times> 'k \<times> nat \<times> u64) \<times> nat \<times> u64) option" where
  "range_attempt K m data_vec num_retries seed =
     (if length m < max_num + 1 then None
      else do {
        (lo_key, num_retries, seed) \<leftarrow>
          draw_low K data_vec (fst (hd m)) (fst (m ! (length m - max_num - 1))) num_retries seed;
        let lo = length (takeWhile (\<lambda>p. fst p < lo_key) m);
        let (s, seed) = ScaleFactor seed;
        if lo + range_step s < length m then do {
          let hi_key = fst (m ! (lo + range_step s));
          let scanned = takeWhile (\<lambda>p. fst p \<le> hi_key) (drop lo m);
          Some ((lo_key, hi_key, length scanned, sum_list (map snd scanned)), num_retries, seed)
        }
        else None
      })"

lemma draw_low_string_retries:
  "draw_low_string vec mx r seed = Some (k, r', seed') \<Longrightarrow> r \<le> r'"
proof (induction vec mx r seed rule: draw_low_string.induct)
  case (1 data_vec max_key num_retries seed)
  then show ?case
    by (subst (asm) (2) draw_low_string.simps) (fastforce split: if_splits bind_splits)
qed

lemma range_attempt_retries:
  "range_attempt K m vec r seed = Some (q, r', seed') \<Longrightarrow> r \<le> r'"
  by (auto simp: range_attempt_def draw_low_def Let_def draw_low_string_retries
      split: if_splits bind_splits prod.splits)

function generate_range ::
    "'k::linorder key_type \<Rightarrow> 'k multimap \<Rightarrow> 'k KeyValue list \<Rightarrow> 'k Operation \<Rightarrow> nat \<Rightarrow> u64
      \<Rightarrow> ('k Operation \<times> u64) option" where
  "generate_range K m data_vec x num_retries seed =
     (case range_attempt K m data_vec num_retries seed of
        None \<Rightarrow> None
      | Some ((lo_key, hi_key, num_qualifying, result), num_retries', seed') \<Rightarrow>
          if num_qualifying > max_num \<or> num_qualifying < min_num then
            if num_retries' + 1 > max_num_retries then None
            else generate_range K m data_vec x (num_retries' + 1) seed'
          else Some (x\<lparr>op_lo_key := lo_key, op_hi_key := hi_key, op_result := result\<rparr>, seed'))"
  by pat_completeness auto
termination
  by (relation "measure (\<lambda>(_, _, _, _, r, _). max_num_retries - r)")
    (auto dest!: range_attempt_retries)

declare generate_range.simps [simp del]

fun generate_equality_lookups ::
    "'k::linorder key_type \<Rightarrow> bool \<Rightarrow> rat \<Rightarrow> 'k multimap \<Rightarrow> 'k KeyValue list \<Rightarrow> u64 \<Rightarrow> 'k Operation list
      \<Rightarrow> ('k Operation list \<times> u64) option" where
  "generate_equality_lookups K is_insert nl data_map data_vec seed [] = Some ([], seed)"
| "generate_equality_lookups K is_insert nl data_map data_vec seed (x # xs) =
     (if op_op x = INSERT then do {
        (ys, seed) \<leftarrow> generate_equality_lookups K is_insert nl
          (multimap_emplace (op_lo_key x, op_result x) data_map)
          (data_vec @ [\<lparr>kv_key = op_lo_key x, kv_value = op_result x\<rparr>]) seed xs;
        Some (x # ys, seed)
      }
      else if op_op x = LOOKUP then do {
        (y, seed) \<leftarrow> generate_lookup K is_insert nl data_map data_vec x seed;
        (ys, seed) \<leftarrow> generate_equality_lookups K is_insert nl data_map data_vec seed xs;
        Some (y # ys, seed)
      }
      else if op_op x = RANGE_QUERY then do {
        (y, seed) \<leftarrow> generate_range K (query_pairs is_insert data_map data_vec) data_vec x 0 seed;
        (ys, seed) \<leftarrow> generate_equality_lookups K is_insert nl data_map data_vec seed xs;
        Some (y # ys, seed)
      }
      else None)"

subsection \<open>Statistics\<close>

record op_stats =
  st_negative :: nat
  st_lookup :: nat
  st_rq :: nat
  st_insert :: nat

fun count_ops :: "'k Operation list \<Rightarrow> op_stats \<Rightarrow> op_stats" where
  "count_ops [] st = st"
| "count_ops (x # xs) st =
     (if op_op x = LOOKUP then
        count_ops xs (st\<lparr>st_negative := st_negative st + (if op_result x = NOT_FOUND then 1 else 0),
                         st_lookup := st_lookup st + 1\<rparr>)
      else if op_op x = RANGE_QUERY then count_ops xs (st\<lparr>st_rq := st_rq st + 1\<rparr>)
      else if op_op x = INSERT then count_ops xs (st\<lparr>st_insert := st_insert st + 1\<rparr>)
      else count_ops xs st)"

text \<open>The counters behind the printed ratios, for every thread.\<close>

definition print_op_stats :: "'k Operation list list \<Rightarrow> op_stats list" where
  "print_op_stats opss = map (\<lambda>ops. count_ops ops \<lparr>st_negative = 0, st_lookup = 0, st_rq = 0, st_insert = 0\<rparr>) opss"

subsection \<open>Numbers in file names\<close>

fun decimal :: "nat \<Rightarrow> string" where
  "decimal n = (if n < 10 then [char_of (48 + n)] else decimal (n div 10) @ [char_of (48 + n mod 10)])"

declare decimal.simps [simp del]

definition THOUSAND :: nat where "THOUSAND = 1000"
definition MILLION :: nat where "MILLION = 1000 * THOUSAND"
definition BILLION :: nat where "BILLION = 1000 * MILLION"

definition to_nice_number :: "nat \<Rightarrow> string" where
  "to_nice_number num =
     (if num \<ge> BILLION \<and> num div BILLION * BILLION = num then decimal (num div BILLION) @ ''B''
      else if num \<ge> MILLION \<and> num div MILLION * MILLION = num then decimal (num div MILLION) @ ''M''
      else if num \<ge> THOUSAND \<and> num div THOUSAND * THOUSAND = num then decimal (num div THOUSAND) @ ''K''
      else decimal num)"

subsection \<open>The workload\<close>

text \<open>The numbers of insertions, lookups and range queries.\<close>

definition op_counts :: "nat \<Rightarrow> rat \<Rightarrow> rat \<Rightarrow> nat \<times> nat \<times> nat" where
  "op_counts op_cnt insert_ratio range_query_ratio =
     (let insert_cnt = nat \<lfloor>double_round (double_round (of_nat op_cnt) * insert_ratio)\<rfloor>
      in if double_round (insert_ratio + range_query_ratio) \<ge> 1 then (insert_cnt, 0, op_cnt - insert_cnt)
         else let range_query_cnt = nat \<lfloor>double_round (double_round (of_nat op_cnt) * range_query_ratio)\<rfloor>
              in (insert_cnt, op_cnt - insert_cnt - range_query_cnt, range_query_cnt))"

text \<open>The loops that mark the lookups and the range queries.\<close>

fun set_kind :: "u8 \<Rightarrow> nat list \<Rightarrow> 'k Operation list \<Rightarrow> 'k Operation list option" where
  "set_kind kind [] ops = Some ops"
| "set_kind kind (j # js) ops =
     (if j < length ops then set_kind kind js (ops[j := (ops ! j)\<lparr>op_op := kind\<rparr>]) else None)"

text \<open>The distribution of the operations over the threads.\<close>

fun distribute :: "'k Operation list \<Rightarrow> 'k Operation list list \<Rightarrow> u64 \<Rightarrow> ('k Operation list list \<times> u64) option" where
  "distribute [] opss seed = Some (opss, seed)"
| "distribute (e # es) opss seed = do {
     (i, seed) \<leftarrow> RandUint32_range 0 (word_of_int (int (length opss) - 1)) seed;
     if unat i < length opss then distribute es (opss[unat i := opss ! unat i @ [e]]) seed else None
   }"

definition insert_vec :: "'k Operation list \<Rightarrow> ('k \<times> u64) list" where
  "insert_vec ops = map (\<lambda>e. (op_lo_key e, op_result e)) (filter (\<lambda>e. op_op e = INSERT) ops)"

text \<open>The pairs a thread starts from: the bulk-loaded ones and the insertions of the other threads.\<close>

definition thread_map :: "'k::linorder KeyValue list \<Rightarrow> 'k Operation list list \<Rightarrow> nat \<Rightarrow> 'k multimap" where
  "thread_map bulk_loads opss i =
     (let other_vec = map (\<lambda>kv. (kv_key kv, kv_value kv)) bulk_loads
            @ concat (map (\<lambda>j. insert_vec (opss ! j)) (filter (\<lambda>j. j \<noteq> i) [0..<length opss]));
          other_vec = (if length opss > 1 then sort_key fst (sort_key snd other_vec) else other_vec)
      in foldl (\<lambda>m e. multimap_emplace e m) [] other_vec)"

text \<open>The threads from \<open>i\<close> on, \<open>n\<close> of them, with one generator for all.\<close>

fun generate_threads ::
    "'k::linorder key_type \<Rightarrow> bool \<Rightarrow> rat \<Rightarrow> 'k KeyValue list \<Rightarrow> 'k Operation list list \<Rightarrow> nat \<Rightarrow> nat \<Rightarrow> u64
      \<Rightarrow> 'k Operation list list option" where
  "generate_threads K is_insert nl bulk_loads opss 0 i seed = Some []"
| "generate_threads K is_insert nl bulk_loads opss (Suc n) i seed = do {
     (ys, seed) \<leftarrow> generate_equality_lookups K is_insert nl
       (if is_insert then thread_map bulk_loads opss i else []) bulk_loads seed (opss ! i);
     yss \<leftarrow> generate_threads K is_insert nl bulk_loads opss n (i + 1) seed;
     Some (ys # yss)
   }"

text \<open>The bulk-loaded pairs and the operations with their kinds, before the queries are filled in.\<close>

definition generate_layout ::
    "'k::linorder key_type \<Rightarrow> (nat list \<Rightarrow> nat list) \<Rightarrow> (nat \<Rightarrow> 'k KeyValue list \<Rightarrow> 'k KeyValue list)
      \<Rightarrow> 'k KeyValue list \<Rightarrow> nat \<Rightarrow> rat \<Rightarrow> rat \<Rightarrow> InsertPat \<Rightarrow> rat \<Rightarrow> bool \<Rightarrow> nat \<Rightarrow> nat option
      \<Rightarrow> ('k KeyValue list \<times> 'k Operation list) option" where
  "generate_layout K shuffle sample org_vec op_cnt range_query_ratio insert_ratio pat hotspot_ratio mix block_num bulkload_cnt = do {
     let (insert_cnt, lookup_cnt, range_query_cnt) = op_counts op_cnt insert_ratio range_query_ratio;
     if insert_cnt > length org_vec
       \<or> (case bulkload_cnt of None \<Rightarrow> False | Some c \<Rightarrow> (insert_cnt + c) mod 2 ^ 64 > length org_vec) then None
     else do {
       let tot_ops = replicate op_cnt \<lparr>op_op = 0, op_lo_key = kt_default K, op_hi_key = kt_default K, op_result = 0\<rparr>;
       op_id \<leftarrow> (if block_num = 1 then Some (generate_permute shuffle 0 op_cnt mix)
                  else generate_permute_blockwise op_cnt insert_cnt range_query_cnt lookup_cnt block_num);
       let op_id = (if insert_ratio > 0 \<and> mix then sort (take insert_cnt op_id) @ drop insert_cnt op_id else op_id);
       (tot_ops, bulk_loads) \<leftarrow>
         (if insert_ratio > 0 then do {
            (ops, bulk) \<leftarrow> generate_inserts shuffle tot_ops op_id org_vec insert_cnt pat hotspot_ratio;
            Some (ops, case bulkload_cnt of None \<Rightarrow> bulk | Some c \<Rightarrow> sample c bulk)
          }
          else Some (tot_ops, case bulkload_cnt of None \<Rightarrow> org_vec | Some c \<Rightarrow> sample c org_vec));
       tot_ops \<leftarrow> set_kind LOOKUP (take lookup_cnt (drop insert_cnt op_id)) tot_ops;
       tot_ops \<leftarrow> set_kind RANGE_QUERY (drop (insert_cnt + lookup_cnt) op_id) tot_ops;
       Some (bulk_loads, tot_ops)
     }
   }"

text \<open>The bulk-loading file and the operations of every thread; the file names are left out.\<close>

definition generate ::
    "'k::linorder key_type \<Rightarrow> (nat list \<Rightarrow> nat list) \<Rightarrow> (nat \<Rightarrow> 'k KeyValue list \<Rightarrow> 'k KeyValue list)
      \<Rightarrow> 'k list \<Rightarrow> nat \<Rightarrow> rat \<Rightarrow> rat \<Rightarrow> rat \<Rightarrow> InsertPat \<Rightarrow> rat \<Rightarrow> nat \<Rightarrow> bool \<Rightarrow> nat \<Rightarrow> nat option
      \<Rightarrow> ('k KeyValue list option \<times> 'k Operation list list) option" where
  "generate K shuffle sample keys op_cnt range_query_ratio negative_lookup_ratio insert_ratio pat hotspot_ratio
       thread_num mix block_num bulkload_cnt =
     (if \<not> sorted keys \<or> thread_num = 0 then None
      else do {
        (bulk_loads, tot_ops) \<leftarrow> generate_layout K shuffle sample (add_values keys) op_cnt range_query_ratio
          insert_ratio pat hotspot_ratio mix block_num bulkload_cnt;
        (opss, seed) \<leftarrow> (if thread_num > 1 then distribute tot_ops (replicate thread_num []) 42
                          else Some ([tot_ops], 42));
        opss \<leftarrow> generate_threads K (insert_ratio > 0) negative_lookup_ratio bulk_loads opss thread_num 0 seed;
        Some (if insert_ratio > 0 \<or> bulkload_cnt \<noteq> None then Some bulk_loads else None, opss)
      })"

text \<open>
  The checks that \<^verbatim>\<open>main\<close> makes on its options before it generates anything; \<open>False\<close> is the exit with
  an error message.
\<close>

definition generate_options_ok :: "nat \<Rightarrow> bool \<Rightarrow> nat \<Rightarrow> rat \<Rightarrow> rat \<Rightarrow> rat \<Rightarrow> rat \<Rightarrow> bool" where
  "generate_options_ok thread_num mix block_num negative_lookup_ratio range_query_ratio insert_ratio hotspot_ratio \<longleftrightarrow>
     \<not> (block_num > 1 \<and> (thread_num > 1 \<or> mix)) \<and>
     \<not> (negative_lookup_ratio < 0 \<or> negative_lookup_ratio > 1 \<or> range_query_ratio < 0 \<or> range_query_ratio > 1
        \<or> insert_ratio < 0 \<or> insert_ratio > 1 \<or> hotspot_ratio \<le> 0 \<or> hotspot_ratio > 1)"

end
