(* ===== verification/Benchmark.thy ===== *)
theory Benchmark
  imports Util Doubles
begin

text \<open>
  The benchmark (\<^verbatim>\<open>src/benchmark.h\<close>): the boundaries of the phases of a workload, the loop that
  executes and verifies its operations, one or several workers, the latency statistics, and the
  repeated runs. An index is the record of its operations (\<^verbatim>\<open>src/competitors/base.h\<close>); an
  operation that leaves the defined behaviour of the index is \<open>None\<close>. The clock is an argument.
\<close>

subsection \<open>Indexes and workers\<close>

record ('k, 'i) index_ops =
  ix_Build :: "'k KeyValue list \<Rightarrow> 'i option"
  ix_EqualityLookup :: "'i \<Rightarrow> 'k \<Rightarrow> u32 \<Rightarrow> u64 option"
  ix_RangeQuery :: "'i \<Rightarrow> 'k \<Rightarrow> 'k \<Rightarrow> u32 \<Rightarrow> u64 option"
  ix_Insert :: "'k KeyValue \<Rightarrow> u32 \<Rightarrow> 'i \<Rightarrow> 'i option"

record 'k FGParam =
  fg_ops :: "'k Operation list"
  fg_keys :: "'k list"
  fg_start :: nat
  fg_limit :: nat
  fg_thread_id :: u32

text \<open>What the workers share, and what belongs to one of them.\<close>

record 'i shared =
  sh_index :: 'i
  sh_running :: bool
  sh_run_failed :: bool

record worker =
  wk_idx :: nat
  wk_flag :: bool
  wk_op_cnt :: "nat option"
  wk_ns :: "u64 list"
  wk_done :: bool

subsection \<open>The core loop\<close>

definition lookup_wrong :: "'k list \<Rightarrow> 'k \<Rightarrow> u64 \<Rightarrow> u64 \<Rightarrow> bool" where
  "lookup_wrong keys lo_key expected idx \<longleftrightarrow>
     (expected = NOT_FOUND \<and> idx \<noteq> OVERFLOW) \<or>
     (expected = 0 \<and> (unat idx \<ge> length keys \<or> keys ! unat idx \<noteq> lo_key))"

text \<open>The \<^verbatim>\<open>switch\<close> over the kind of the operation; the second result says whether it failed.\<close>

definition run_op ::
    "bool \<Rightarrow> bool \<Rightarrow> ('k, 'i) index_ops \<Rightarrow> 'k list \<Rightarrow> u32 \<Rightarrow> 'k Operation \<Rightarrow> 'i \<Rightarrow> ('i \<times> bool) option" where
  "run_op time_each verify I keys thread_id x i =
     (if op_op x = LOOKUP then do {
        idx \<leftarrow> ix_EqualityLookup I i (op_lo_key x) thread_id;
        Some (i, time_each \<and> verify \<and> lookup_wrong keys (op_lo_key x) (op_result x) idx)
      }
      else if op_op x = RANGE_QUERY then do {
        actual \<leftarrow> ix_RangeQuery I i (op_lo_key x) (op_hi_key x) thread_id;
        Some (i, time_each \<and> verify \<and> actual \<noteq> op_result x)
      }
      else if op_op x = INSERT then do {
        i' \<leftarrow> ix_Insert I \<lparr>kv_key = op_lo_key x, kv_value = op_result x\<rparr> thread_id i;
        Some (i', False)
      }
      else Some (i, True))"

text \<open>
  One turn of the loop of a worker: an iteration, or what follows the last one. \<open>clock\<close> gives the
  time that the operation at an index takes.
\<close>

definition core_iter ::
    "bool \<Rightarrow> bool \<Rightarrow> ('k, 'i) index_ops \<Rightarrow> (nat \<Rightarrow> u64) \<Rightarrow> 'k FGParam \<Rightarrow> 'i shared \<times> worker
      \<Rightarrow> ('i shared \<times> worker) option" where
  "core_iter time_each verify I clock fg = (\<lambda>(sh, w).
     if wk_idx w < fg_limit fg then
       if wk_idx w < length (fg_ops fg) then do {
         let w = (if \<not> sh_running sh \<and> \<not> wk_flag w
                  then w\<lparr>wk_flag := True, wk_op_cnt := Some (wk_idx w - fg_start fg)\<rparr> else w);
         (i', failed) \<leftarrow> run_op time_each verify I (fg_keys fg) (fg_thread_id fg)
                           (fg_ops fg ! wk_idx w) (sh_index sh);
         let sh = sh\<lparr>sh_index := i', sh_run_failed := sh_run_failed sh \<or> failed\<rparr>;
         if sh_run_failed sh then Some (sh, w\<lparr>wk_done := True\<rparr>)
         else if time_each then
           if wk_idx w - fg_start fg < length (wk_ns w)
           then Some (sh, w\<lparr>wk_idx := wk_idx w + 1,
                            wk_ns := (wk_ns w)[wk_idx w - fg_start fg := clock (wk_idx w)]\<rparr>)
           else None
         else Some (sh, w\<lparr>wk_idx := wk_idx w + 1\<rparr>)
       }
       else None
     else if \<not> wk_flag w
       then Some (sh\<lparr>sh_running := False\<rparr>,
                  w\<lparr>wk_op_cnt := Some (fg_limit fg - fg_start fg), wk_done := True\<rparr>)
       else Some (sh, w\<lparr>wk_done := True\<rparr>))"

definition worker_start :: "'k FGParam \<Rightarrow> u64 list \<Rightarrow> worker" where
  "worker_start fg ns = \<lparr>wk_idx = fg_start fg, wk_flag = False, wk_op_cnt = None, wk_ns = ns, wk_done = False\<rparr>"

lemma core_iter_progress:
  assumes "core_iter time_each verify I clock fg (sh, w) = Some (sh', w')" and "\<not> wk_done w"
  shows "wk_done w' \<or> (wk_idx w < fg_limit fg \<and> wk_idx w' = wk_idx w + 1 \<and> \<not> wk_done w')"
  using assms by (auto simp: core_iter_def Let_def split: if_splits bind_splits)

text \<open>A single worker repeats its turns until it is done.\<close>

function DoOpsCoreLoop ::
    "bool \<Rightarrow> bool \<Rightarrow> ('k, 'i) index_ops \<Rightarrow> (nat \<Rightarrow> u64) \<Rightarrow> 'k FGParam \<Rightarrow> 'i shared \<times> worker
      \<Rightarrow> ('i shared \<times> worker) option" where
  "DoOpsCoreLoop time_each verify I clock fg s =
     (if wk_done (snd s) then Some s
      else case core_iter time_each verify I clock fg s of
        None \<Rightarrow> None
      | Some s' \<Rightarrow> DoOpsCoreLoop time_each verify I clock fg s')"
  by pat_completeness auto
termination
  by (relation "measure (\<lambda>(_, _, _, _, fg, s). if wk_done (snd s) then 0 else Suc (fg_limit fg - wk_idx (snd s)))")
    (auto dest!: core_iter_progress)

declare DoOpsCoreLoop.simps [simp del]

text \<open>
  Several workers take their turns in any order; a turn is atomic. The state is what they share and
  the list of the workers.
\<close>

inductive worker_step ::
    "bool \<Rightarrow> bool \<Rightarrow> ('k, 'i) index_ops \<Rightarrow> (nat \<Rightarrow> nat \<Rightarrow> u64) \<Rightarrow> 'k FGParam list
      \<Rightarrow> 'i shared \<times> worker list \<Rightarrow> 'i shared \<times> worker list \<Rightarrow> bool"
  for time_each verify I clock fgs where
  turn: "\<lbrakk>j < length ws; \<not> wk_done (ws ! j);
          core_iter time_each verify I (clock j) (fgs ! j) (sh, ws ! j) = Some (sh', w')\<rbrakk>
    \<Longrightarrow> worker_step time_each verify I clock fgs (sh, ws) (sh', ws[j := w'])"

subsection \<open>The phases of a workload\<close>

text \<open>The next boundary of a block-wise workload: the first operation from \<open>cur\<close> on that is an insertion
  (for even \<open>j\<close>) or is none (for odd \<open>j\<close>), or the end.\<close>

function seek_bound :: "'k Operation list \<Rightarrow> nat \<Rightarrow> nat \<Rightarrow> nat" where
  "seek_bound ops j cur =
     (if cur < length ops then
        if (op_op (ops ! cur) = INSERT) \<noteq> odd j then cur else seek_bound ops j (cur + 1)
      else cur)"
  by pat_completeness auto
termination by (relation "measure (\<lambda>(ops, j, cur). length ops - cur)") auto

declare seek_bound.simps [simp del]

text \<open>The boundaries from the \<open>j\<close>-th on (\<open>n\<close> of them), and the longest segment.\<close>

fun block_bounds :: "'k Operation list \<Rightarrow> nat \<Rightarrow> nat \<Rightarrow> nat \<Rightarrow> nat \<Rightarrow> nat list \<times> nat" where
  "block_bounds ops 0 j cur ind = ([], ind)"
| "block_bounds ops (Suc n) j cur ind =
     (let b = seek_bound ops j cur;
          (bs, ind') = block_bounds ops n (j + 1) b (max (b - cur) ind)
      in (b # bs, ind'))"

definition insert_bound :: "'k Operation list \<Rightarrow> nat" where
  "insert_bound ops = length (takeWhile (\<lambda>x. op_op x = INSERT) ops)"

definition thread_bounds :: "bool \<Rightarrow> 'k Operation list list \<Rightarrow> nat list" where
  "thread_bounds flag opss = concat (map (\<lambda>ops. [0, if flag then 0 else insert_bound ops, length ops]) opss)"

definition thread_ns_size :: "bool \<Rightarrow> 'k Operation list list \<Rightarrow> nat" where
  "thread_ns_size flag opss =
     (let insert_cnt = (if flag then 0 else sum_list (map insert_bound opss));
          tot_cnt = sum_list (map length opss)
      in max insert_cnt (tot_cnt - insert_cnt))"

record 'k bench =
  bn_keys :: "'k list"
  bn_index_data :: "'k KeyValue list"
  bn_ops :: "'k Operation list list"
  bn_num_threads :: nat
  bn_num_blocks :: nat
  bn_flag :: bool
  bn_bound_points :: "nat list"
  bn_ns_size :: nat

text \<open>
  The constructor, after its files are read: \<open>bulk\<close> is the bulk-loading file when the name of the
  workload asks for one, and \<^verbatim>\<open>is_mix\<close>, \<^verbatim>\<open>insert_ratio\<close>, \<^verbatim>\<open>num_blocks\<close> are the parts of that name.
  \<open>None\<close> is the exit with an error message.
\<close>

definition Benchmark_init ::
    "('k::linorder) list \<Rightarrow> 'k Operation list list \<Rightarrow> 'k KeyValue list option \<Rightarrow> bool \<Rightarrow> rat \<Rightarrow> nat \<Rightarrow> nat
      \<Rightarrow> 'k bench option" where
  "Benchmark_init keys opss bulk is_mix insert_ratio num_blocks num_threads = do {
     let flag = (is_mix \<or> insert_ratio = 0 \<or> insert_ratio = 1);
     if num_blocks > 1 \<and> (num_threads > 1 \<or> flag) then None else do {
       index_data \<leftarrow> (case bulk of Some d \<Rightarrow> Some d
                        | None \<Rightarrow> if sorted keys then Some (add_values keys) else None);
       if num_blocks > 1 then do {
         let (bs, ind) = block_bounds (opss ! 0) (2 * num_blocks) 1 0 0;
         Some \<lparr>bn_keys = keys, bn_index_data = index_data, bn_ops = opss, bn_num_threads = num_threads,
               bn_num_blocks = num_blocks, bn_flag = flag, bn_bound_points = 0 # bs, bn_ns_size = ind\<rparr>
       }
       else Some \<lparr>bn_keys = keys, bn_index_data = index_data, bn_ops = opss, bn_num_threads = num_threads,
               bn_num_blocks = num_blocks, bn_flag = flag,
               bn_bound_points = thread_bounds flag (take num_threads opss),
               bn_ns_size = thread_ns_size flag (take num_threads opss)\<rparr>
     }
   }"

definition phase_count :: "'k bench \<Rightarrow> nat" where
  "phase_count b = (2 - of_bool (bn_flag b)) * bn_num_blocks b"

text \<open>The first and last operation of worker \<open>wi\<close> in phase \<open>i\<close>.\<close>

definition phase_start :: "'k bench \<Rightarrow> nat \<Rightarrow> nat \<Rightarrow> nat" where
  "phase_start b i wi =
     (if bn_num_blocks b > 1 then bn_bound_points b ! i else bn_bound_points b ! (3 * wi + i))"

definition phase_limit :: "'k bench \<Rightarrow> nat \<Rightarrow> nat \<Rightarrow> nat" where
  "phase_limit b i wi =
     (if bn_num_blocks b > 1 then bn_bound_points b ! (i + 1)
      else bn_bound_points b ! (3 * wi + i + 1 + of_bool (bn_flag b)))"

text \<open>Where the latencies of a worker begin in \<^verbatim>\<open>individual_ns\<close>: \<^verbatim>\<open>exe_cnt\<close> after the workers before it.\<close>

fun exe_cnt :: "'k bench \<Rightarrow> nat \<Rightarrow> nat \<Rightarrow> nat" where
  "exe_cnt b i 0 = 0"
| "exe_cnt b i (Suc wi) = exe_cnt b i wi + (phase_limit b i wi - phase_start b i wi)"

definition fg_param :: "'k bench \<Rightarrow> nat \<Rightarrow> nat \<Rightarrow> 'k FGParam" where
  "fg_param b i wi =
     \<lparr>fg_ops = bn_ops b ! wi, fg_keys = bn_keys b, fg_start = phase_start b i wi,
      fg_limit = phase_limit b i wi, fg_thread_id = of_nat wi\<rparr>"

subsection \<open>Statistics\<close>

text \<open>
  What the environment gives to a run: the time of the operation at an index of a phase, the time of
  a whole phase, and the square root of the C library (\<open>None\<close> for a result that is not a number).
\<close>

record env =
  en_clock :: "nat \<Rightarrow> nat \<Rightarrow> u64"
  en_timing :: "nat \<Rightarrow> u64"
  en_sqrt :: "rat \<Rightarrow> rat option"

text \<open>The division of doubles; \<open>None\<close> is an infinity or not a number.\<close>

definition double_div :: "rat \<Rightarrow> rat \<Rightarrow> rat option" where
  "double_div x y = (if y = 0 then None else Some (double_round (x / y)))"

record LatencyStat =
  ls_avg :: rat
  ls_mean_square :: "rat option"
  ls_p50 :: u64
  ls_p99 :: u64
  ls_p999 :: u64
  ls_max :: u64

definition percentile_index :: "rat \<Rightarrow> nat \<Rightarrow> nat" where
  "percentile_index q cnt = nat \<lfloor>double_round (double_round (of_nat cnt) * double_round q)\<rfloor>"

definition ns_sum :: "u64 list \<Rightarrow> rat" where
  "ns_sum ns = foldl (\<lambda>s x. double_round (s + double_round (of_nat (unat x)))) 0 ns"

text \<open>The squares are products of \<^verbatim>\<open>uint64_t\<close>, which wrap around, before they are added as doubles.\<close>

definition ns_square_sum :: "u64 list \<Rightarrow> rat" where
  "ns_square_sum ns = foldl (\<lambda>s x. double_round (s + double_round (of_nat (unat (x * x))))) 0 ns"

definition ns_mean_square :: "(rat \<Rightarrow> rat option) \<Rightarrow> u64 list \<Rightarrow> rat option" where
  "ns_mean_square fsqrt ns =
     (let cnt = double_round (of_nat (length ns)); s = ns_sum ns
      in Option.bind
           (double_div (double_round (ns_square_sum ns - double_round (double_round (s * s) / cnt)))
              (double_round (of_nat (length ns - 1))))
           fsqrt)"

text \<open>The statistics of the first \<open>cnt\<close> latencies, which are sorted in place.\<close>

definition sort_prefix :: "nat \<Rightarrow> u64 list \<Rightarrow> u64 list" where
  "sort_prefix cnt ns = sort (take cnt ns) @ drop cnt ns"

definition latency_stat :: "(rat \<Rightarrow> rat option) \<Rightarrow> nat \<Rightarrow> u64 list \<Rightarrow> LatencyStat option" where
  "latency_stat fsqrt cnt ns =
     (let sorted_ns = sort_prefix cnt ns
      in if 0 < cnt \<and> cnt \<le> length ns
            \<and> percentile_index (1 / 2) cnt < length ns \<and> percentile_index (99 / 100) cnt < length ns
            \<and> percentile_index (999 / 1000) cnt < length ns
         then Some \<lparr>ls_avg = double_round (ns_sum (take cnt ns) / double_round (of_nat cnt)),
                ls_mean_square = ns_mean_square fsqrt (take cnt ns),
                ls_p50 = sorted_ns ! percentile_index (1 / 2) cnt,
                ls_p99 = sorted_ns ! percentile_index (99 / 100) cnt,
                ls_p999 = sorted_ns ! percentile_index (999 / 1000) cnt,
                ls_max = sorted_ns ! (cnt - 1)\<rparr>
         else None)"

subsection \<open>Runs\<close>

text \<open>
  The phases from \<open>i\<close> on (\<open>n\<close> of them) with one worker: the index, the buffer of latencies and the
  statistics so far go in; the second result says whether the run failed. The options
  \<^verbatim>\<open>track_errors\<close>, \<^verbatim>\<open>fence\<close> and \<^verbatim>\<open>cold_cache\<close> do not change the results and are left out.
\<close>

definition throughput :: "u64 \<Rightarrow> nat \<Rightarrow> rat option" where
  "throughput timing op_cnt =
     double_div (double_round (double_round (of_nat op_cnt) * 1000)) (double_round (of_nat (unat timing)))"

fun DoOps_phases ::
    "bool \<Rightarrow> bool \<Rightarrow> ('k, 'i) index_ops \<Rightarrow> env \<Rightarrow> 'k bench \<Rightarrow> nat \<Rightarrow> nat
      \<Rightarrow> 'i \<times> u64 list \<times> LatencyStat list \<times> rat option list
      \<Rightarrow> (('i \<times> u64 list \<times> LatencyStat list \<times> rat option list) \<times> bool) option" where
  "DoOps_phases time_each verify I E b 0 i s = Some (s, False)"
| "DoOps_phases time_each verify I E b (Suc n) i (index, ns, stats, throughputs) = do {
     let fg = fg_param b i 0;
     let cnt = exe_cnt b i 1;
     (sh, w) \<leftarrow> DoOpsCoreLoop time_each verify I (en_clock E i) fg
       (\<lparr>sh_index = index, sh_running = True, sh_run_failed = False\<rparr>, worker_start fg ns);
     if sh_run_failed sh then Some ((sh_index sh, wk_ns w, stats, throughputs), True)
     else if time_each then do {
       stat \<leftarrow> latency_stat (en_sqrt E) cnt (wk_ns w);
       DoOps_phases time_each verify I E b n (i + 1)
         (sh_index sh, sort_prefix cnt (wk_ns w), stats @ [stat], throughputs)
     }
     else do {
       op_cnt \<leftarrow> wk_op_cnt w;
       DoOps_phases time_each verify I E b n (i + 1) (sh_index sh, wk_ns w, stats, throughputs @ [throughput (en_timing E i) op_cnt])
     }
   }"

definition DoOps ::
    "bool \<Rightarrow> bool \<Rightarrow> bool \<Rightarrow> ('k, 'i) index_ops \<Rightarrow> env \<Rightarrow> 'k bench
      \<Rightarrow> 'i \<times> u64 list \<times> LatencyStat list \<times> rat option list
      \<Rightarrow> (('i \<times> u64 list \<times> LatencyStat list \<times> rat option list) \<times> bool) option" where
  "DoOps build time_each verify I E b s =
     (if build then Some (s, False) else DoOps_phases time_each verify I E b (phase_count b) 0 s)"

text \<open>The repetitions of a run with one worker: a fresh index each time, until a run fails.\<close>

fun Run_repeats ::
    "nat \<Rightarrow> bool \<Rightarrow> bool \<Rightarrow> bool \<Rightarrow> ('k, 'i) index_ops \<Rightarrow> (nat \<Rightarrow> env) \<Rightarrow> 'k bench
      \<Rightarrow> u64 list \<times> LatencyStat list \<times> rat option list \<Rightarrow> ((LatencyStat list \<times> rat option list) \<times> bool) option" where
  "Run_repeats 0 build through verify I E b (ns, stats, throughputs) = Some ((stats, throughputs), False)"
| "Run_repeats (Suc n) build through verify I E b (ns, stats, throughputs) = do {
     index \<leftarrow> ix_Build I (bn_index_data b);
     ((_, ns', stats', throughputs'), failed) \<leftarrow>
       DoOps build (\<not> through) (\<not> through \<and> verify) I (E n) b (index, ns, stats, throughputs);
     if failed then Some ((stats', throughputs'), True)
     else Run_repeats n build through verify I E b (ns', stats', throughputs')
   }"

text \<open>\<open>ns\<close> is the array \<^verbatim>\<open>individual_ns\<close> as it was allocated, of \<^verbatim>\<open>bn_ns_size\<close> elements.\<close>

definition Run ::
    "nat \<Rightarrow> bool \<Rightarrow> bool \<Rightarrow> bool \<Rightarrow> ('k, 'i) index_ops \<Rightarrow> (nat \<Rightarrow> env) \<Rightarrow> 'k bench \<Rightarrow> u64 list
      \<Rightarrow> ((LatencyStat list \<times> rat option list) \<times> bool) option" where
  "Run num_repeats build through verify I E b ns =
     Run_repeats num_repeats build through verify I E b (ns, [], [])"

end
