(* ===== verification/Benchmark_Correct.thy ===== *)
theory Benchmark_Correct
  imports Benchmark
begin

text \<open>
  What the benchmark promises: the phases cover the workload and fit their buffer, the latency
  statistics are defined and ordered, the workers of a concurrent run execute all their operations,
  and an index that keeps its contract passes the verification of every consistent workload. The
  contract is the locale \<open>index_contract\<close>.
\<close>

subsection \<open>Boundaries\<close>

lemma seek_bound_props:
  assumes "cur \<le> length ops"
  shows "cur \<le> seek_bound ops j cur \<and> seek_bound ops j cur \<le> length ops \<and>
    (\<forall>i. cur \<le> i \<and> i < seek_bound ops j cur \<longrightarrow> (op_op (ops ! i) = INSERT) = odd j)"
  using assms
proof (induction ops j cur rule: seek_bound.induct)
  case (1 ops j cur)
  show ?case
  proof (cases "cur < length ops \<and> (op_op (ops ! cur) = INSERT) = odd j")
    case True
    then have eq: "seek_bound ops j cur = seek_bound ops j (cur + 1)" by (subst seek_bound.simps) simp
    have "cur + 1 \<le> seek_bound ops j (cur + 1) \<and> seek_bound ops j (cur + 1) \<le> length ops \<and>
        (\<forall>i. cur + 1 \<le> i \<and> i < seek_bound ops j (cur + 1) \<longrightarrow> (op_op (ops ! i) = INSERT) = odd j)"
      using 1 True by simp
    then show ?thesis unfolding eq using True by (metis Suc_eq_plus1 Suc_leD le_neq_implies_less Suc_leI)
  next
    case False
    then have "seek_bound ops j cur = cur" by (subst seek_bound.simps) auto
    then show ?thesis using "1.prems" by auto
  qed
qed

text \<open>The scan does not stop inside a run of the right kind.\<close>

lemma seek_bound_skip:
  assumes "cur \<le> length ops" and "e \<le> length ops"
    and "\<And>i. cur \<le> i \<Longrightarrow> i < e \<Longrightarrow> (op_op (ops ! i) = INSERT) = odd j"
  shows "e \<le> seek_bound ops j cur"
  using assms
proof (induction ops j cur rule: seek_bound.induct)
  case (1 ops j cur)
  show ?case
  proof (cases "cur < e")
    case True
    then have "seek_bound ops j cur = seek_bound ops j (cur + 1)"
      using "1.prems" by (subst seek_bound.simps) simp
    then show ?thesis using 1 True by simp
  next
    case False
    then show ?thesis using seek_bound_props [OF "1.prems"(1), of j] by simp
  qed
qed

lemma block_bounds_props:
  assumes "block_bounds ops n j cur ind = (bs, ind')" and "cur \<le> length ops" and "k < n"
  shows "length bs = n \<and> (cur # bs) ! k \<le> bs ! k \<and> bs ! k \<le> length ops \<and> bs ! k - (cur # bs) ! k \<le> ind' \<and>
    ind \<le> ind' \<and> (\<forall>i. (cur # bs) ! k \<le> i \<and> i < bs ! k \<longrightarrow> (op_op (ops ! i) = INSERT) = odd (j + k))"
  using assms
proof (induction n arbitrary: j cur ind bs k)
  case (Suc n)
  define b where "b = seek_bound ops j cur"
  obtain bs' where bs': "block_bounds ops n (j + 1) b (max (b - cur) ind) = (bs', ind')" "bs = b # bs'"
    using Suc.prems(1) by (auto simp: b_def Let_def split: prod.splits)
  note b = seek_bound_props [OF Suc.prems(2), of j, folded b_def]
  have len: "length bs' = n \<and> max (b - cur) ind \<le> ind'"
  proof (cases n)
    case 0
    then show ?thesis using bs'(1) by auto
  next
    case (Suc m)
    then show ?thesis using Suc.IH [OF bs'(1), of 0] b by simp
  qed
  show ?case
  proof (cases k)
    case 0
    then show ?thesis using b bs'(2) len by auto
  next
    case (Suc m)
    with Suc.prems have "m < n" by simp
    from Suc.IH [OF bs'(1) _ this] b show ?thesis using Suc len bs'(2) by simp
  qed
qed simp

text \<open>A workload of \<open>n\<close> alternating runs is covered by \<open>n\<close> segments.\<close>

lemma block_bounds_cover:
  assumes "block_bounds ops (length runs) j cur ind = (bs, ind')" and "cur \<le> length ops"
    and "drop m ops = concat runs" and "m \<le> cur"
    and "\<And>k x. k < length runs \<Longrightarrow> x \<in> set (runs ! k) \<Longrightarrow> (op_op x = INSERT) = odd (j + k)"
    and "runs \<noteq> []"
  shows "bs ! (length runs - 1) = length ops"
  using assms
proof (induction runs arbitrary: j cur ind bs m)
  case (Cons r runs)
  define b where "b = seek_bound ops j cur"
  obtain bs' where bs': "block_bounds ops (length runs) (j + 1) b (max (b - cur) ind) = (bs', ind')" "bs = b # bs'"
    using Cons.prems(1) by (auto simp: b_def Let_def split: prod.splits)
  note b = seek_bound_props [OF Cons.prems(2), of j, folded b_def]
  have m: "m \<le> length ops" using Cons.prems(2,4) by simp
  have len: "m + length (r @ concat runs) = length ops"
    using arg_cong [OF Cons.prems(3), of length] m by simp
  have "m + length r \<le> b" unfolding b_def
  proof (rule seek_bound_skip [OF Cons.prems(2)])
    show "m + length r \<le> length ops" using len by simp
    fix i assume i: "cur \<le> i" "i < m + length r"
    have "ops ! i = drop m ops ! (i - m)" using i Cons.prems(4) m by simp
    also have "\<dots> = r ! (i - m)" using i Cons.prems(3,4) by (simp add: nth_append)
    finally show "(op_op (ops ! i) = INSERT) = odd j"
      using Cons.prems(5) [of 0 "ops ! i"] i Cons.prems(4) by simp
  qed
  show ?case
  proof (cases "runs = []")
    case True
    then show ?thesis using \<open>m + length r \<le> b\<close> b len bs'(2) by simp
  next
    case False
    have "bs' ! (length runs - 1) = length ops"
    proof (rule Cons.IH [OF bs'(1) _ _ \<open>m + length r \<le> b\<close> _ False])
      show "b \<le> length ops" using b by simp
      show "drop (m + length r) ops = concat runs"
        using Cons.prems(3) by (metis add.commute append_eq_conv_conj concat.simps(2) drop_drop)
      show "(op_op x = INSERT) = odd (j + 1 + k)" if "k < length runs" "x \<in> set (runs ! k)" for k x
        using Cons.prems(5) [of "Suc k" x] that by simp
    qed
    then show ?thesis using bs'(2) False by (cases "length runs") auto
  qed
qed simp

lemma block_phase_bounds:
  assumes "Benchmark_init keys [ops] bulk False insert_ratio num_blocks 1 = Some b" and "1 < num_blocks"
    and "ops = concat (map (\<lambda>(ins, qs). ins @ qs) blocks)" and "length blocks = num_blocks"
    and "\<forall>(ins, qs)\<in>set blocks. (\<forall>x\<in>set ins. op_op x = INSERT) \<and> (\<forall>x\<in>set qs. op_op x \<noteq> INSERT)"
  shows "phase_count b = 2 * num_blocks \<and> phase_start b 0 0 = 0 \<and>
    phase_limit b (phase_count b - 1) 0 = length ops \<and>
    (\<forall>i<phase_count b. phase_start b i 0 \<le> phase_limit b i 0 \<and>
       phase_start b (i + 1) 0 = phase_limit b i 0 \<and>
       phase_limit b i 0 - phase_start b i 0 \<le> bn_ns_size b \<and>
       (\<forall>j. phase_start b i 0 \<le> j \<and> j < phase_limit b i 0 \<longrightarrow> (op_op (ops ! j) = INSERT) = even i))"
proof -
  obtain bs ind where bs: "block_bounds ops (2 * num_blocks) 1 0 0 = (bs, ind)" by fastforce
  with assms(1,2) have b: "bn_bound_points b = 0 # bs" "bn_ns_size b = ind" "bn_num_blocks b = num_blocks" "\<not> bn_flag b"
    by (auto simp: Benchmark_init_def Let_def split: if_splits bind_splits)
  have pc: "phase_count b = 2 * num_blocks" using b by (simp add: phase_count_def)
  define runs where "runs = concat (map (\<lambda>(ins, qs). [ins, qs]) blocks)"
  have runs: "length runs = 2 * length blocks" "concat runs = ops"
    unfolding runs_def assms(3) by (induction blocks) auto
  have kind: "(op_op x = INSERT) = odd (1 + k)" if "k < length runs" "x \<in> set (runs ! k)" for k x
    using that assms(5) unfolding runs_def
  proof (induction blocks arbitrary: k)
    case (Cons p blocks)
    obtain ins qs where p: "p = (ins, qs)" by fastforce
    consider "k = 0" | "k = 1" | l where "k = Suc (Suc l)" by (metis One_nat_def not0_implies_Suc)
    then show ?case
    proof cases
      case 3
      then show ?thesis using Cons.IH [of l] Cons.prems p by simp
    qed (use Cons.prems p in auto)
  qed simp
  have "bs ! (length runs - 1) = length ops"
    using bs runs assms(2,4) kind by (intro block_bounds_cover [of ops runs 1 0 0 bs ind 0]) auto
  then have "phase_limit b (phase_count b - 1) 0 = length ops"
    using assms(2,4) b runs by (simp add: phase_limit_def pc)
  moreover have "phase_start b i 0 = (0 # bs) ! i" "phase_limit b i 0 = bs ! i" for i
    using assms(2) b by (simp_all add: phase_start_def phase_limit_def)
  ultimately show ?thesis
    using block_bounds_props [OF bs] pc b by simp
qed

text \<open>C20. A block-wise workload of \<^verbatim>\<open>num_blocks\<close> blocks, insertions followed by queries, is cut into \<open>2 *\<close>
  \<^verbatim>\<open>num_blocks\<close> phases that follow each other without a gap from the first to the last operation;
  the even phases hold insertions only, the odd ones queries only, and the latencies of every phase
  fit the array \<^verbatim>\<open>individual_ns\<close>.\<close>

theorem block_phases_cover:
  assumes "Benchmark_init keys [ops] bulk False insert_ratio num_blocks 1 = Some b" and "1 < num_blocks"
    and "ops = concat (map (\<lambda>(ins, qs). ins @ qs) blocks)" and "length blocks = num_blocks"
    and "\<forall>(ins, qs)\<in>set blocks. (\<forall>x\<in>set ins. op_op x = INSERT) \<and> (\<forall>x\<in>set qs. op_op x \<noteq> INSERT)"
  shows "phase_count b = 2 * num_blocks \<and> phase_start b 0 0 = 0 \<and>
    phase_limit b (phase_count b - 1) 0 = length ops \<and>
    (\<forall>i<phase_count b. phase_start b i 0 \<le> phase_limit b i 0 \<and>
       phase_start b (i + 1) 0 = phase_limit b i 0 \<and>
       phase_limit b i 0 - phase_start b i 0 \<le> bn_ns_size b \<and>
       (\<forall>j. phase_start b i 0 \<le> j \<and> j < phase_limit b i 0 \<longrightarrow> (op_op (ops ! j) = INSERT) = even i))"
  using block_phase_bounds [OF assms] .

text \<open>Two blocks; the first one has an insertion, a lookup and a range query.\<close>

theorem block_phases_cover_witness:
  "\<exists>b. Benchmark_init [1, 2, 3::nat]
     [[\<lparr>op_op = 2, op_lo_key = 2, op_hi_key = 0, op_result = 1\<rparr>, \<lparr>op_op = 0, op_lo_key = 2, op_hi_key = 0, op_result = 0\<rparr>,
       \<lparr>op_op = 1, op_lo_key = 1, op_hi_key = 2, op_result = 1\<rparr>, \<lparr>op_op = 2, op_lo_key = 3, op_hi_key = 0, op_result = 2\<rparr>,
       \<lparr>op_op = 0, op_lo_key = 3, op_hi_key = 0, op_result = 0\<rparr>]]
     None False (1 / 2) 2 1 = Some b \<and> phase_limit b 3 0 = 5 \<and> phase_start b 1 0 = phase_limit b 0 0"
proof -
  let ?ops = "[\<lparr>op_op = 2, op_lo_key = 2, op_hi_key = 0, op_result = 1\<rparr>, \<lparr>op_op = 0, op_lo_key = 2, op_hi_key = 0, op_result = 0\<rparr>,
       \<lparr>op_op = 1, op_lo_key = 1, op_hi_key = 2, op_result = 1\<rparr>, \<lparr>op_op = 2, op_lo_key = 3, op_hi_key = 0, op_result = 2\<rparr>,
       \<lparr>op_op = 0, op_lo_key = 3, op_hi_key = 0, op_result = 0\<rparr>] :: nat Operation list"
  let ?blocks = "[(take 1 ?ops, take 2 (drop 1 ?ops)), (take 1 (drop 3 ?ops), drop 4 ?ops)]"
  have "Benchmark_init [1, 2, 3] [?ops] None False (1 / 2) 2 1 \<noteq> None"
    by (simp add: Benchmark_init_def split: prod.splits)
  then obtain b where b: "Benchmark_init [1, 2, 3] [?ops] None False (1 / 2) 2 1 = Some b" by blast
  from block_phases_cover [OF b, of ?blocks]
  have "phase_count b = 4 \<and> phase_limit b (phase_count b - 1) 0 = 5 \<and> phase_start b 1 0 = phase_limit b 0 0"
    by (auto simp: INSERT_def)
  then show ?thesis using b by auto
qed

subsection \<open>The slices of the workers\<close>

lemma nth_concat_triples:
  "wi < length xs \<Longrightarrow> c < 3 \<Longrightarrow>
   concat (map (\<lambda>x. [f x, g x, h x]) xs) ! (3 * wi + c) = [f (xs ! wi), g (xs ! wi), h (xs ! wi)] ! c"
proof (induction xs arbitrary: wi)
  case (Cons x xs)
  show ?case
  proof (cases wi)
    case 0
    then show ?thesis using Cons.prems by (simp add: nth_append nth_Cons')
  next
    case (Suc m)
    then show ?thesis using Cons by (simp add: nth_append)
  qed
qed simp

lemma exe_cnt_sum:
  assumes "\<And>j. j < length opss \<Longrightarrow> phase_limit b i j - phase_start b i j = g (opss ! j)" and "n \<le> length opss"
  shows "exe_cnt b i n = sum_list (map g (take n opss))"
  using assms(2) by (induction n) (simp_all add: assms(1) take_Suc_conv_app_nth)

lemma sum_list_take_le: "sum_list (map (g :: 'a \<Rightarrow> nat) (take n xs)) \<le> sum_list (map g xs)"
  by (metis append_take_drop_id le_add1 map_append sum_list_append)

lemma insert_bound_le: "insert_bound ops \<le> length ops"
  unfolding insert_bound_def by (rule length_takeWhile_le)

lemma sum_list_insert_bounds:
  "sum_list (map (\<lambda>ops. length ops - insert_bound ops) opss) + sum_list (map insert_bound opss) = sum_list (map length opss)"
proof (induction opss)
  case (Cons ops opss)
  then show ?case using insert_bound_le [of ops] by simp
qed simp

lemma worker_slice_bounds:
  assumes "Benchmark_init keys opss bulk is_mix insert_ratio 1 num_threads = Some b"
    and "length opss = num_threads" and "i < phase_count b" and "wi < num_threads"
  shows "phase_start b i wi \<le> phase_limit b i wi \<and> phase_limit b i wi \<le> length (opss ! wi) \<and>
    exe_cnt b i wi + (phase_limit b i wi - phase_start b i wi) \<le> bn_ns_size b \<and>
    (\<forall>j<wi. exe_cnt b i j + (phase_limit b i j - phase_start b i j) \<le> exe_cnt b i wi) \<and>
    (if phase_count b = 1 then phase_start b 0 wi = 0 \<and> phase_limit b 0 wi = length (opss ! wi)
     else phase_count b = 2 \<and> phase_start b 0 wi = 0 \<and> phase_start b 1 wi = phase_limit b 0 wi \<and>
       phase_limit b 1 wi = length (opss ! wi) \<and>
       (\<forall>j<phase_limit b 0 wi. op_op (opss ! wi ! j) = INSERT))"
proof -
  define flag where "flag = (is_mix \<or> insert_ratio = 0 \<or> insert_ratio = 1)"
  have b: "bn_bound_points b = thread_bounds flag opss" "bn_ns_size b = thread_ns_size flag opss"
      "bn_num_blocks b = 1" "bn_flag b = flag"
    using assms(1,2) by (auto simp: Benchmark_init_def Let_def flag_def split: if_splits bind_splits)
  have pc: "phase_count b = 2 - of_bool flag" using b by (simp add: phase_count_def)
  have at: "bn_bound_points b ! (3 * j + c) = [0, if flag then 0 else insert_bound (opss ! j), length (opss ! j)] ! c"
    if "j < length opss" "c < 3" for j c
    by (cases flag) (simp_all add: b(1) thread_bounds_def nth_concat_triples [OF that])
  have se: "phase_start b i' j = [0, if flag then 0 else insert_bound (opss ! j), length (opss ! j)] ! i'"
      "phase_limit b i' j = [0, if flag then 0 else insert_bound (opss ! j), length (opss ! j)] ! (i' + 1 + of_bool flag)"
    if "j < length opss" "i' < phase_count b" for i' j
    using that at [of j i'] at [of j "i' + 1 + of_bool flag"] by (auto simp: phase_start_def phase_limit_def b(3,4) pc)
  define g where "g = (\<lambda>ops :: 'a Operation list. if flag then length ops else if i = 0 then insert_bound ops else length ops - insert_bound ops)"
  have seg: "phase_limit b i j - phase_start b i j = g (opss ! j)" if "j < length opss" for j
    using se [OF that assms(3)] assms(3) by (auto simp: g_def pc less_Suc_eq numeral_2_eq_2)
  have cnt: "exe_cnt b i n = sum_list (map g (take n opss))" if "n \<le> length opss" for n
    using exe_cnt_sum [OF seg that] .
  have le: "exe_cnt b i j \<le> exe_cnt b i n" if "j \<le> n" "n \<le> length opss" for j n
    using sum_list_take_le [of g j "take n opss"] that by (simp add: cnt min_absorb1)
  have "sum_list (map g opss) \<le> bn_ns_size b"
    using sum_list_insert_bounds [of opss] by (cases "i = 0") (auto simp: b(2) thread_ns_size_def g_def Let_def)
  then have fit: "exe_cnt b i (Suc wi) \<le> bn_ns_size b"
    using sum_list_take_le [of g "Suc wi" opss] assms(2,4) by (subst cnt) auto
  have disj: "\<forall>j<wi. exe_cnt b i (Suc j) \<le> exe_cnt b i wi"
    using le assms(2,4) by (auto simp del: exe_cnt.simps)
  have ins: "op_op (opss ! wi ! j) = INSERT" if "j < insert_bound (opss ! wi)" for j
    using set_takeWhileD [OF nth_mem [OF that [unfolded insert_bound_def]]] takeWhile_nth [OF that [unfolded insert_bound_def]]
    by simp
  have "wi < length opss" using assms(2,4) by simp
  then show ?thesis
    using fit disj se [of wi 0] se [of wi 1] se [OF _ assms(3)] insert_bound_le [of "opss ! wi"] ins assms(3)
    by (cases flag) (auto simp: pc less_Suc_eq numeral_2_eq_2)
qed



subsection \<open>Latency statistics\<close>

lemma double_round_999: "0 \<le> double_round q \<and> double_round q \<le> of_nat 1023 * 2 powi - 10"
  if "0 \<le> q" "q \<le> 999 / 1000" for q
proof -
  have "q \<le> of_nat 1023 * 2 powi - 10" using that(2) by (simp add: power_int_minus)
  then show ?thesis using double.rnd_le_exact [of q 1023 "- 10"] double.rnd_nonneg that(1) by simp
qed

lemma percentile_index_less:
  assumes "0 < cnt" and "cnt \<le> 2 ^ 53" and "0 \<le> q" and "q \<le> 999 / 1000"
  shows "percentile_index q cnt < cnt"
proof -
  let ?d = "double_round q"
  note d = double_round_999 [OF assms(3,4)]
  have n: "double_round (of_nat cnt) = of_nat cnt" using double.rnd_nat assms(2) by simp
  have prod: "of_nat cnt * ?d \<le> of_nat cnt * (of_nat 1023 * 2 powi - 10)"
    using d by (intro mult_left_mono) auto
  have "double_round (of_nat cnt * ?d) < of_nat cnt"
  proof (cases "cnt < 1024")
    case True
    have "of_nat cnt * (of_nat 1023 * 2 powi - 10) = of_nat (cnt * 1023) * (2::rat) powi - 10" by simp
    then have "double_round (of_nat cnt * ?d) \<le> of_nat (cnt * 1023) * 2 powi - 10"
      using double.rnd_le_exact [of "of_nat cnt * ?d" "cnt * 1023" "- 10"] prod True by simp
    also have "\<dots> < of_nat cnt" using assms(1) by (simp add: power_int_minus)
    finally show ?thesis .
  next
    case False
    have "of_nat cnt * (of_nat 1023 * 2 powi - 10) \<le> (of_nat (cnt - 1) :: rat)"
      using False by (simp add: power_int_minus of_nat_diff field_simps)
    then have "double_round (of_nat cnt * ?d) \<le> of_nat (cnt - 1)"
      using double.rnd_le_nat [of "of_nat cnt * ?d" "cnt - 1"] prod assms(2) by simp
    also have "\<dots> < (of_nat cnt :: rat)" using assms(1) by simp
    finally show ?thesis .
  qed
  then have "\<lfloor>double_round (of_nat cnt * ?d)\<rfloor> < int cnt" by (simp add: floor_less_iff)
  then show ?thesis using assms(1) by (simp add: percentile_index_def n nat_less_iff)
qed

lemma percentile_index_mono:
  assumes "q \<le> r"
  shows "percentile_index q cnt \<le> percentile_index r cnt"
  unfolding percentile_index_def using assms
  by (intro nat_mono floor_mono double.rnd_mono mult_left_mono double.rnd_nonneg) auto

lemma latency_stat_defined:
  assumes "0 < cnt" and "cnt \<le> length ns" and "cnt \<le> 2 ^ 53"
  shows "\<exists>st. latency_stat fsqrt cnt ns = Some st"
proof -
  have "percentile_index q cnt < length ns" if "0 \<le> q" "q \<le> 999 / 1000" for q
    using percentile_index_less [OF assms(1,3) that] assms(2) by simp
  then show ?thesis using assms(1,2) by (simp add: latency_stat_def Let_def)
qed

text \<open>C22. For at least one measured operation the statistics are read inside the array and ordered: the
  median, the 99th and the 99.9th percentile are measured latencies, each at most the next, and the
  last one is at most the maximum of all measured latencies. For none they are not defined, the
  maximum being read before the start of the array.\<close>

theorem latency_stat_ordered:
  assumes "cnt \<le> length ns" and "cnt \<le> 2 ^ 53"
  shows "(cnt = 0 \<longrightarrow> latency_stat fsqrt cnt ns = None) \<and>
    (0 < cnt \<longrightarrow> (\<exists>st. latency_stat fsqrt cnt ns = Some st \<and>
       ls_p50 st \<le> ls_p99 st \<and> ls_p99 st \<le> ls_p999 st \<and> ls_p999 st \<le> ls_max st \<and>
       {ls_p50 st, ls_p99 st, ls_p999 st} \<subseteq> set (take cnt ns) \<and> ls_max st = Max (set (take cnt ns))))"
proof (intro conjI impI)
  assume pos: "0 < cnt"
  let ?s = "sort (take cnt ns)"
  let ?a = "percentile_index (1 / 2) cnt" and ?b = "percentile_index (99 / 100) cnt" and ?c = "percentile_index (999 / 1000) cnt"
  have len: "length ?s = cnt" using assms(1) by simp
  have idx: "?a \<le> ?b" "?b \<le> ?c" "?c < cnt"
    using percentile_index_less [OF pos assms(2)] by (simp_all add: percentile_index_mono)
  have at: "sort_prefix cnt ns ! i = ?s ! i" if "i < cnt" for i
    using that len by (simp add: sort_prefix_def nth_append)
  have mem: "?s ! i \<in> set (take cnt ns)" if "i < cnt" for i
    using that len by (metis nth_mem set_sort)
  have mono: "?s ! i \<le> ?s ! j" if "i \<le> j" "j < cnt" for i j
    using that len by (simp add: sorted_nth_mono)
  have "?s ! (cnt - 1) = Max (set (take cnt ns))"
  proof (rule Max_eqI [symmetric])
    fix y assume "y \<in> set (take cnt ns)"
    then obtain i where "i < cnt" "y = ?s ! i" using len by (metis in_set_conv_nth set_sort)
    then show "y \<le> ?s ! (cnt - 1)" using mono by simp
  qed (use mem pos in auto)
  then show "\<exists>st. latency_stat fsqrt cnt ns = Some st \<and>
       ls_p50 st \<le> ls_p99 st \<and> ls_p99 st \<le> ls_p999 st \<and> ls_p999 st \<le> ls_max st \<and>
       {ls_p50 st, ls_p99 st, ls_p999 st} \<subseteq> set (take cnt ns) \<and> ls_max st = Max (set (take cnt ns))"
    using idx pos assms(1) mono mem by (simp add: latency_stat_def Let_def at)
qed (simp add: latency_stat_def)

text \<open>Three latencies in a larger array.\<close>

theorem latency_stat_ordered_witness:
  "\<exists>st. latency_stat Some 3 [30, 10, 20, 99] = Some st \<and> ls_p50 st \<le> ls_max st \<and> ls_max st = 30"
  using latency_stat_ordered [of 3 "[30, 10, 20, 99]" Some] by force

subsection \<open>Concurrent workers\<close>

text \<open>What holds of one worker at every moment, and what the workers know of each other.\<close>

definition worker_inv :: "bool \<Rightarrow> 'k FGParam \<Rightarrow> worker \<Rightarrow> bool" where
  "worker_inv failed fg w \<longleftrightarrow> fg_start fg \<le> wk_idx w \<and> wk_idx w \<le> fg_limit fg \<and>
     (wk_flag w \<longrightarrow> (\<exists>c. wk_op_cnt w = Some c \<and> c < fg_limit fg - fg_start fg)) \<and>
     (wk_done w \<and> \<not> failed \<longrightarrow> wk_idx w = fg_limit fg \<and>
        (wk_flag w \<or> wk_op_cnt w = Some (fg_limit fg - fg_start fg)))"

definition running_inv :: "'k FGParam list \<Rightarrow> 'i shared \<times> worker list \<Rightarrow> bool" where
  "running_inv fgs = (\<lambda>(sh, ws). length ws = length fgs \<and>
     (\<forall>j<length ws. worker_inv (sh_run_failed sh) (fgs ! j) (ws ! j)) \<and>
     (sh_running sh \<and> \<not> sh_run_failed sh \<longrightarrow> (\<forall>j<length ws. \<not> wk_flag (ws ! j) \<and> \<not> wk_done (ws ! j))) \<and>
     (\<not> sh_running sh \<longrightarrow> (\<exists>j<length ws. wk_done (ws ! j) \<and> wk_op_cnt (ws ! j) = Some (fg_limit (fgs ! j) - fg_start (fgs ! j)))))"

inductive_cases worker_stepE: "worker_step time_each verify I clock fgs (sh, ws) s"

text \<open>The effect of a turn, by cases: an operation, a failed operation, the end.\<close>

lemma core_iter_cases:
  assumes "core_iter time_each verify I clock fg (sh, w) = Some (sh', w')"
  obtains
    (oper) i failed where "wk_idx w < fg_limit fg"
      "sh' = sh\<lparr>sh_index := i, sh_run_failed := sh_run_failed sh \<or> failed\<rparr>"
      "wk_flag w' = (wk_flag w \<or> \<not> sh_running sh)"
      "wk_op_cnt w' = (if \<not> sh_running sh \<and> \<not> wk_flag w then Some (wk_idx w - fg_start fg) else wk_op_cnt w)"
      "if sh_run_failed sh' then wk_idx w' = wk_idx w \<and> wk_done w' else wk_idx w' = wk_idx w + 1 \<and> wk_done w' = wk_done w"
  | (last_turn) "\<not> wk_idx w < fg_limit fg" "\<not> wk_flag w" "sh' = sh\<lparr>sh_running := False\<rparr>"
      "w' = w\<lparr>wk_op_cnt := Some (fg_limit fg - fg_start fg), wk_done := True\<rparr>"
  | (late) "\<not> wk_idx w < fg_limit fg" "wk_flag w" "sh' = sh" "w' = w\<lparr>wk_done := True\<rparr>"
proof (cases "wk_idx w < fg_limit fg")
  case True
  define w1 where "w1 = (if \<not> sh_running sh \<and> \<not> wk_flag w
    then w\<lparr>wk_flag := True, wk_op_cnt := Some (wk_idx w - fg_start fg)\<rparr> else w)"
  then have w1: "wk_idx w1 = wk_idx w" "wk_done w1 = wk_done w" "wk_flag w1 = (wk_flag w \<or> \<not> sh_running sh)"
    "wk_op_cnt w1 = (if \<not> sh_running sh \<and> \<not> wk_flag w then Some (wk_idx w - fg_start fg) else wk_op_cnt w)"
    by auto
  obtain i failed where "run_op time_each verify I (fg_keys fg) (fg_thread_id fg) (fg_ops fg ! wk_idx w) (sh_index sh) = Some (i, failed)"
    using assms True w1(1) unfolding core_iter_def w1_def [symmetric] Let_def by (auto split: if_splits bind_splits)
  with assms True show ?thesis
    unfolding core_iter_def Let_def prod.case w1_def [symmetric]
    by (intro oper [of failed i]) (auto simp: w1 split: if_splits)
next
  case False
  then show ?thesis using assms last_turn late by (cases "wk_flag w") (auto simp: core_iter_def)
qed

lemma running_inv_update:
  assumes "j < length ws" and "length ws = length fgs" and "worker_inv (sh_run_failed sh) (fgs ! j) w"
    and "\<And>k. k < length ws \<Longrightarrow> worker_inv (sh_run_failed sh) (fgs ! k) (ws ! k)"
    and "sh_running sh \<Longrightarrow> \<not> sh_run_failed sh \<Longrightarrow> \<not> wk_flag w \<and> \<not> wk_done w"
    and "\<And>k. sh_running sh \<Longrightarrow> \<not> sh_run_failed sh \<Longrightarrow> k < length ws \<Longrightarrow> \<not> wk_flag (ws ! k) \<and> \<not> wk_done (ws ! k)"
    and "\<not> sh_running sh \<Longrightarrow> wk_done w \<and> wk_op_cnt w = Some (fg_limit (fgs ! j) - fg_start (fgs ! j)) \<or>
      (\<exists>k<length ws. k \<noteq> j \<and> wk_done (ws ! k) \<and> wk_op_cnt (ws ! k) = Some (fg_limit (fgs ! k) - fg_start (fgs ! k)))"
  shows "running_inv fgs (sh, ws[j := w])"
proof -
  have "\<exists>k<length ws. wk_done (ws[j := w] ! k) \<and> wk_op_cnt (ws[j := w] ! k) = Some (fg_limit (fgs ! k) - fg_start (fgs ! k))"
    if "\<not> sh_running sh"
    using assms(7) [OF that] assms(1) by (metis nth_list_update_eq nth_list_update_neq)
  moreover have "worker_inv (sh_run_failed sh) (fgs ! k) (ws[j := w] ! k)" if "k < length ws" for k
    using assms(1,3,4) that by (auto simp: nth_list_update)
  moreover have "\<not> wk_flag (ws[j := w] ! k) \<and> \<not> wk_done (ws[j := w] ! k)"
    if "k < length ws" "sh_running sh" "\<not> sh_run_failed sh" for k
    using assms(1,5,6) that by (auto simp: nth_list_update)
  ultimately show ?thesis using assms(2) by (simp add: running_inv_def)
qed

lemma worker_step_inv:
  assumes "worker_step time_each verify I clock fgs s s'" and "running_inv fgs s"
  shows "running_inv fgs s'"
  using assms(1)
proof cases
  case (turn j ws sh sh' w')
  have len: "length ws = length fgs"
    and inv: "\<And>k. k < length ws \<Longrightarrow> worker_inv (sh_run_failed sh) (fgs ! k) (ws ! k)"
    and running: "sh_running sh \<Longrightarrow> \<not> sh_run_failed sh \<Longrightarrow> k < length ws \<Longrightarrow> \<not> wk_flag (ws ! k) \<and> \<not> wk_done (ws ! k)" for k
    using assms(2) turn(1) by (auto simp: running_inv_def)
  have stopped: "\<exists>k<length ws. k \<noteq> j \<and> wk_done (ws ! k) \<and> wk_op_cnt (ws ! k) = Some (fg_limit (fgs ! k) - fg_start (fgs ! k))"
    if "\<not> sh_running sh"
    using assms(2) turn(1,4) that by (auto simp: running_inv_def)
  have mono: "worker_inv (sh_run_failed sh') (fgs ! k) (ws ! k)" if "k < length ws" "sh_run_failed sh \<longrightarrow> sh_run_failed sh'" for k
    using inv [OF that(1)] that(2) by (auto simp: worker_inv_def)
  note upd = running_inv_update [OF turn(3) len, of sh' w', folded turn(2)]
  from turn(5) show ?thesis
  proof (cases rule: core_iter_cases)
    case (oper i failed)
    have "worker_inv (sh_run_failed sh') (fgs ! j) w'"
      using inv [OF turn(3)] oper(1,2,5) turn(4) unfolding worker_inv_def oper(3,4)
      by (auto split: if_splits)
    then show ?thesis using oper mono running stopped turn(3,4)
      by (intro upd) (auto split: if_splits)
  next
    case last_turn
    have "worker_inv (sh_run_failed sh') (fgs ! j) w'"
      using inv [OF turn(3)] last_turn by (auto simp: worker_inv_def)
    then show ?thesis using last_turn mono by (intro upd) auto
  next
    case late
    have "worker_inv (sh_run_failed sh') (fgs ! j) w'"
      using inv [OF turn(3)] late by (auto simp: worker_inv_def)
    then show ?thesis using late mono running running [OF _ _ turn(3)] stopped by (intro upd) auto
  qed
qed

text \<open>The turns that are left: one for every operation, and the last one.\<close>

definition turns_left :: "'k FGParam list \<Rightarrow> worker list \<Rightarrow> nat" where
  "turns_left fgs ws = (\<Sum>j<length ws. if wk_done (ws ! j) then 0 else Suc (fg_limit (fgs ! j) - wk_idx (ws ! j)))"

lemma worker_step_turns:
  assumes "worker_step time_each verify I clock fgs s s'"
  shows "turns_left fgs (snd s') < turns_left fgs (snd s)"
  using assms
proof cases
  case (turn j ws sh sh' w')
  let ?t = "\<lambda>w. if wk_done w then 0 else Suc (fg_limit (fgs ! j) - wk_idx w)"
  have "?t w' < ?t (ws ! j)"
    using core_iter_progress [OF turn(5,4)] turn(4) by auto
  then have "(\<Sum>k<length ws. if wk_done (ws[j := w'] ! k) then 0 else Suc (fg_limit (fgs ! k) - wk_idx (ws[j := w'] ! k)))
      < (\<Sum>k<length ws. if wk_done (ws ! k) then 0 else Suc (fg_limit (fgs ! k) - wk_idx (ws ! k)))"
    using turn(3) by (intro sum_strict_mono_ex1) (auto simp: nth_list_update)
  then show ?thesis by (simp add: turn turns_left_def)
qed

text \<open>C19. A concurrent run ends, whatever the order in which the workers take their turns: there are at
  most as many turns as operations and workers. When it has ended without a failure, every worker
  has executed all its operations; the operations counted for the throughput are at most those it has,
  and for one worker, the one that ended the measurement, all of them.\<close>

theorem concurrent_run_counts:
  assumes "(worker_step time_each verify I clock fgs ^^ n)
      (\<lparr>sh_index = i, sh_running = True, sh_run_failed = False\<rparr>, map2 worker_start fgs nss) (sh, ws)"
    and "length nss = length fgs" and "\<forall>fg\<in>set fgs. fg_start fg \<le> fg_limit fg" and "fgs \<noteq> []"
  shows "n \<le> (\<Sum>fg\<leftarrow>fgs. Suc (fg_limit fg - fg_start fg)) \<and>
    ((\<forall>w\<in>set ws. wk_done w) \<and> \<not> sh_run_failed sh \<longrightarrow>
      (\<forall>j<length fgs. wk_idx (ws ! j) = fg_limit (fgs ! j) \<and>
        (\<exists>c. wk_op_cnt (ws ! j) = Some c \<and> c \<le> fg_limit (fgs ! j) - fg_start (fgs ! j))) \<and>
      (\<exists>j<length fgs. wk_op_cnt (ws ! j) = Some (fg_limit (fgs ! j) - fg_start (fgs ! j))))"
proof -
  let ?s = "(\<lparr>sh_index = i, sh_running = True, sh_run_failed = False\<rparr>, map2 worker_start fgs nss)"
  have init: "running_inv fgs ?s"
    using assms(2,3) by (auto simp: running_inv_def worker_inv_def worker_start_def)
  have "running_inv fgs s \<and> n + turns_left fgs (snd s) \<le> turns_left fgs (snd ?s)"
    if "(worker_step time_each verify I clock fgs ^^ n) ?s s" for n s
    using that
  proof (induction n arbitrary: s)
    case 0
    then show ?case using init by simp
  next
    case (Suc n)
    then obtain s1 where s1: "(worker_step time_each verify I clock fgs ^^ n) ?s s1" "worker_step time_each verify I clock fgs s1 s"
      by auto
    then show ?case using Suc.IH [OF s1(1)] worker_step_inv [OF s1(2)] worker_step_turns [OF s1(2)] by linarith
  qed
  note inv = this [OF assms(1)]
  have "turns_left fgs (snd ?s) = (\<Sum>fg\<leftarrow>fgs. Suc (fg_limit fg - fg_start fg))"
    using assms(2) by (simp add: turns_left_def worker_start_def sum_list_sum_nth atLeast0LessThan)
  then have "n \<le> (\<Sum>fg\<leftarrow>fgs. Suc (fg_limit fg - fg_start fg))" using inv by simp
  moreover have "length ws = length fgs" using inv by (simp add: running_inv_def)
  moreover have "\<not> sh_running sh" if "\<forall>w\<in>set ws. wk_done w" "\<not> sh_run_failed sh"
  proof -
    have "0 < length ws" using inv assms(4) by (simp add: running_inv_def)
    then show ?thesis using inv that nth_mem [of 0 ws] by (auto simp: running_inv_def)
  qed
  ultimately show ?thesis
    using inv by (fastforce simp: running_inv_def worker_inv_def)
qed

text \<open>Two workers, the first one with one lookup: the second one has nothing to do and ends the measurement, then
  the first one executes its lookup, which is not counted.\<close>

definition zero_index :: "(nat, nat) index_ops" where
  "zero_index = \<lparr>ix_Build = (\<lambda>_. Some 0), ix_EqualityLookup = (\<lambda>_ _ _. Some 0), ix_RangeQuery = (\<lambda>_ _ _ _. Some 0),
     ix_Insert = (\<lambda>_ _ i. Some i)\<rparr>"

definition two_workers :: "nat FGParam list" where
  "two_workers =
     [\<lparr>fg_ops = [\<lparr>op_op = 0, op_lo_key = 5, op_hi_key = 0, op_result = 0\<rparr>], fg_keys = [5], fg_start = 0, fg_limit = 1, fg_thread_id = 0\<rparr>,
      \<lparr>fg_ops = [], fg_keys = [5], fg_start = 0, fg_limit = 0, fg_thread_id = 1\<rparr>]"

lemma two_workers_run:
  "(worker_step True True zero_index (\<lambda>_ _. 7) two_workers ^^ 3)
     (\<lparr>sh_index = 0, sh_running = True, sh_run_failed = False\<rparr>, map2 worker_start two_workers [[0], []])
     (\<lparr>sh_index = 0, sh_running = False, sh_run_failed = False\<rparr>,
      [\<lparr>wk_idx = 1, wk_flag = True, wk_op_cnt = Some 0, wk_ns = [7], wk_done = True\<rparr>,
       \<lparr>wk_idx = 0, wk_flag = False, wk_op_cnt = Some 0, wk_ns = [], wk_done = True\<rparr>])"
proof -
  let ?w = "\<lparr>wk_idx = 0, wk_flag = False, wk_op_cnt = None, wk_ns = [0], wk_done = False\<rparr>"
  let ?v = "\<lparr>wk_idx = 0, wk_flag = False, wk_op_cnt = None, wk_ns = [], wk_done = False\<rparr>"
  let ?v' = "?v\<lparr>wk_op_cnt := Some 0, wk_done := True\<rparr>"
  let ?w' = "?w\<lparr>wk_flag := True, wk_op_cnt := Some 0, wk_idx := 1, wk_ns := [7]\<rparr>"
  let ?sh = "\<lparr>sh_index = 0, sh_running = True, sh_run_failed = False\<rparr>"
  let ?sh' = "\<lparr>sh_index = 0, sh_running = False, sh_run_failed = False\<rparr>"
  let ?step = "worker_step True True zero_index (\<lambda>_ _. 7) two_workers"
  have init: "map2 worker_start two_workers [[0], []] = [?w, ?v]"
    by (simp add: two_workers_def worker_start_def)
  have "?step (?sh, [?w, ?v]) (?sh', [?w, ?v][1 := ?v'])"
    by (rule worker_step.turn) (simp_all add: core_iter_def two_workers_def)
  moreover have "?step (?sh', [?w, ?v']) (?sh', [?w, ?v'][0 := ?w'])"
    by (rule worker_step.turn)
      (simp_all add: core_iter_def run_op_def LOOKUP_def lookup_wrong_def NOT_FOUND_def two_workers_def zero_index_def)
  moreover have "?step (?sh', [?w', ?v']) (?sh', [?w', ?v'][0 := ?w'\<lparr>wk_done := True\<rparr>])"
    by (rule worker_step.turn) (simp_all add: core_iter_def two_workers_def)
  ultimately show ?thesis unfolding init by (auto simp: numeral_3_eq_3)
qed

theorem concurrent_run_counts_witness:
  "3 \<le> (\<Sum>fg\<leftarrow>two_workers. Suc (fg_limit fg - fg_start fg)) \<and>
   (\<exists>sh ws. (worker_step True True zero_index (\<lambda>_ _. 7) two_workers ^^ 3)
     (\<lparr>sh_index = 0, sh_running = True, sh_run_failed = False\<rparr>, map2 worker_start two_workers [[0], []]) (sh, ws) \<and>
     wk_op_cnt (ws ! 0) = Some 0 \<and>
     (\<exists>j<length two_workers. wk_op_cnt (ws ! j) = Some (fg_limit (two_workers ! j) - fg_start (two_workers ! j))))"
proof -
  let ?ws = "[\<lparr>wk_idx = 1, wk_flag = True, wk_op_cnt = Some 0, wk_ns = [7], wk_done = True\<rparr>,
       \<lparr>wk_idx = 0, wk_flag = False, wk_op_cnt = Some 0, wk_ns = [], wk_done = True\<rparr>]"
  have "length [[0], []] = length two_workers" "\<forall>fg\<in>set two_workers. fg_start fg \<le> fg_limit fg" "two_workers \<noteq> []"
    by (simp_all add: two_workers_def)
  note counts = concurrent_run_counts [OF two_workers_run this]
  moreover have "\<forall>w\<in>set ?ws. wk_done w" "wk_op_cnt (?ws ! 0) = Some 0" by simp_all
  ultimately show ?thesis using two_workers_run by fastforce
qed

end
