(* ===== verification/Benchmark_Verify.thy ===== *)
theory Benchmark_Verify
  imports Benchmark_Correct
begin

text \<open>
  The contract between the benchmark and its indexes, and what it gives: the operations of a consistent
  workload pass the verification of the core loop, in every phase and every repetition. The locale
  \<open>index_contract\<close> holds the laws; the theories of the indexes interpret it.
\<close>

subsection \<open>Consistent workloads\<close>

definition kv_pairs :: "'k KeyValue list \<Rightarrow> ('k \<times> u64) list" where
  "kv_pairs data = map (\<lambda>kv. (kv_key kv, kv_value kv)) data"

definition pair_sum :: "('k::linorder \<times> u64) list \<Rightarrow> 'k \<Rightarrow> 'k \<Rightarrow> u64" where
  "pair_sum kvs lo hi = (\<Sum>(k, v)\<leftarrow>filter (\<lambda>(k, v). lo \<le> k \<and> k \<le> hi) kvs. v)"

text \<open>The values are the positions of their keys in the data set.\<close>

definition positions :: "'k list \<Rightarrow> ('k \<times> u64) list \<Rightarrow> bool" where
  "positions keys kvs \<longleftrightarrow> (\<forall>(k, v)\<in>set kvs. unat v < length keys \<and> keys ! unat v = k)"

text \<open>
  The expected results of a workload on an index with the pairs \<open>kvs\<close>: a lookup names a key that is
  there, or expects none; a range query expects the sum of the values; an insertion is one
  that the index accepts.
\<close>

fun ops_consistent ::
    "'k::linorder list \<Rightarrow> (('k \<times> u64) list \<Rightarrow> bool) \<Rightarrow> ('k \<times> u64) list \<Rightarrow> 'k Operation list \<Rightarrow> bool" where
  "ops_consistent keys accepts kvs [] = True"
| "ops_consistent keys accepts kvs (x # xs) =
     (if op_op x = LOOKUP then
        (if op_result x = NOT_FOUND then op_lo_key x \<notin> fst ` set kvs
         else op_result x = 0 \<and> op_lo_key x \<in> fst ` set kvs)
        \<and> ops_consistent keys accepts kvs xs
      else if op_op x = RANGE_QUERY then
        op_result x = pair_sum kvs (op_lo_key x) (op_hi_key x) \<and> ops_consistent keys accepts kvs xs
      else if op_op x = INSERT then
        accepts (kvs @ [(op_lo_key x, op_result x)]) \<and> positions keys [(op_lo_key x, op_result x)]
        \<and> ops_consistent keys accepts (kvs @ [(op_lo_key x, op_result x)]) xs
      else False)"

definition contents_after :: "('k \<times> u64) list \<Rightarrow> 'k Operation list \<Rightarrow> ('k \<times> u64) list" where
  "contents_after kvs xs = kvs @ map (\<lambda>x. (op_lo_key x, op_result x)) (filter (\<lambda>x. op_op x = INSERT) xs)"

lemma op_codes [simp]: "LOOKUP \<noteq> INSERT" "INSERT \<noteq> LOOKUP" "RANGE_QUERY \<noteq> INSERT" "INSERT \<noteq> RANGE_QUERY"
  "LOOKUP \<noteq> RANGE_QUERY" "RANGE_QUERY \<noteq> LOOKUP"
  by (simp_all add: LOOKUP_def INSERT_def RANGE_QUERY_def)

lemma contents_after_append: "contents_after kvs (xs @ ys) = contents_after (contents_after kvs xs) ys"
  by (simp add: contents_after_def)

lemma ops_consistent_append:
  "ops_consistent keys accepts kvs (xs @ ys) \<longleftrightarrow>
   ops_consistent keys accepts kvs xs \<and> ops_consistent keys accepts (contents_after kvs xs) ys"
  by (induction xs arbitrary: kvs) (auto simp: contents_after_def)

text \<open>The pairs of a data set without bulk-loading file: every key with its position.\<close>

lemma kv_pairs_add_values: "kv_pairs (add_values keys) = zip keys (map of_nat [0..<length keys])"
proof -
  have "kv_pairs (add_values_from ks m) = zip ks (map of_nat [m..<m + length ks])" for ks :: "'a list" and m
    by (induction ks arbitrary: m) (auto simp: kv_pairs_def upt_conv_Cons simp del: upt_Suc)
  from this [of keys 0] show ?thesis by (simp add: add_values_def)
qed

lemma keys_add_values [simp]: "map fst (kv_pairs (add_values keys)) = keys"
  by (simp add: kv_pairs_add_values)

lemma positions_add_values:
  assumes "length keys \<le> 2 ^ 64"
  shows "positions keys (kv_pairs (add_values keys))"
proof -
  have "unat (word_of_nat i :: u64) = i" if "i < length keys" for i
    using that assms by (simp add: unat_of_nat)
  then show ?thesis by (auto simp: positions_def kv_pairs_add_values in_set_zip)
qed

text \<open>The operations of the phases \<open>i, i + 1, \<dots>\<close>, \<open>n\<close> of them, of a single worker.\<close>

definition phase_ops :: "'k bench \<Rightarrow> nat \<Rightarrow> 'k Operation list" where
  "phase_ops b i = take (phase_limit b i 0 - phase_start b i 0) (drop (phase_start b i 0) (bn_ops b ! 0))"

definition phase_ok :: "bool \<Rightarrow> 'k bench \<Rightarrow> nat \<Rightarrow> bool" where
  "phase_ok time_each b i \<longleftrightarrow> phase_start b i 0 \<le> phase_limit b i 0 \<and> phase_limit b i 0 \<le> length (bn_ops b ! 0) \<and>
     phase_limit b i 0 - phase_start b i 0 \<le> bn_ns_size b \<and> length (bn_ops b ! 0) \<le> 2 ^ 53 \<and>
     (time_each \<longrightarrow> phase_start b i 0 < phase_limit b i 0)"

lemma concat_segments:
  assumes "bd 0 = 0" and "\<And>j. j < n \<Longrightarrow> bd j \<le> bd (Suc j)"
  shows "concat (map (\<lambda>j. take (bd (Suc j) - bd j) (drop (bd j) xs)) [0..<n]) = take (bd n) xs"
  using assms(2)
proof (induction n)
  case (Suc n)
  have "take (bd n) xs @ take (bd (Suc n) - bd n) (drop (bd n) xs) = take (bd (Suc n)) xs"
    using Suc.prems [of n] by (metis lessI le_add_diff_inverse take_add)
  then show ?case using Suc by simp
qed (simp add: assms(1))

text \<open>A workload without blocks, or one of \<open>n\<close> blocks, each with insertions followed by queries.\<close>

definition block_wise :: "nat \<Rightarrow> 'k Operation list \<Rightarrow> bool" where
  "block_wise n ops \<longleftrightarrow> n = 1 \<or> 1 < n \<and> (\<exists>blocks. ops = concat (map (\<lambda>(ins, qs). ins @ qs) blocks) \<and> length blocks = n \<and>
     (\<forall>(ins, qs)\<in>set blocks. (\<forall>x\<in>set ins. op_op x = INSERT) \<and> (\<forall>x\<in>set qs. op_op x \<noteq> INSERT)))"

lemma phase_chain:
  assumes "Benchmark_init keys [ops] bulk is_mix insert_ratio num_blocks 1 = Some b" and "block_wise num_blocks ops"
  shows "phase_start b 0 0 = 0 \<and> phase_limit b (phase_count b - 1) 0 = length ops \<and> 0 < phase_count b \<and>
    (\<forall>i<phase_count b. phase_start b i 0 \<le> phase_limit b i 0 \<and> phase_limit b i 0 - phase_start b i 0 \<le> bn_ns_size b) \<and>
    (\<forall>i. i + 1 < phase_count b \<longrightarrow> phase_start b (i + 1) 0 = phase_limit b i 0)"
  using assms(2) unfolding block_wise_def
proof (elim disjE exE conjE)
  assume nb: "num_blocks = 1"
  note slices = worker_slice_bounds [OF assms(1) [unfolded nb], of _ 0]
  have pc: "phase_count b = 1 \<or> phase_count b = 2"
    using assms(1) nb by (auto simp: Benchmark_init_def Let_def phase_count_def split: if_splits bind_splits)
  moreover have "phase_start b i 0 \<le> phase_limit b i 0 \<and> phase_limit b i 0 - phase_start b i 0 \<le> bn_ns_size b"
    if "i < phase_count b" for i
    using slices [OF _ that] by simp
  moreover have "if phase_count b = 1 then phase_start b 0 0 = 0 \<and> phase_limit b 0 0 = length ops
      else phase_start b 0 0 = 0 \<and> phase_start b 1 0 = phase_limit b 0 0 \<and> phase_limit b 1 0 = length ops"
    using slices [of 0] pc by (auto split: if_splits)
  ultimately show ?thesis by (elim disjE) simp_all
next
  fix blocks
  assume *: "ops = concat (map (\<lambda>(ins, qs). ins @ qs) blocks)" "length blocks = num_blocks" "1 < num_blocks"
    "\<forall>(ins, qs)\<in>set blocks. (\<forall>x\<in>set ins. op_op x = INSERT) \<and> (\<forall>x\<in>set qs. op_op x \<noteq> INSERT)"
  have "\<not> is_mix" using assms(1) *(3) by (auto simp: Benchmark_init_def Let_def split: if_splits)
  then have "Benchmark_init keys [ops] bulk False insert_ratio num_blocks 1 = Some b" using assms(1) by simp
  from block_phase_bounds [OF this *(3,1,2,4)] *(3) show ?thesis by auto
qed

lemma phases_concat:
  assumes "Benchmark_init keys [ops] bulk is_mix insert_ratio num_blocks 1 = Some b" and "block_wise num_blocks ops"
  shows "concat (map (phase_ops b) [0..<phase_count b]) = ops \<and>
    (\<forall>i<phase_count b. phase_start b i 0 \<le> phase_limit b i 0 \<and> phase_limit b i 0 \<le> length ops \<and>
       phase_limit b i 0 - phase_start b i 0 \<le> bn_ns_size b)"
proof -
  note chain = phase_chain [OF assms]
  have b: "bn_ops b = [ops]"
    using assms(1) by (auto simp: Benchmark_init_def Let_def split: if_splits bind_splits prod.splits)
  define bd where "bd j = (if j = 0 then 0 else phase_limit b (j - 1) 0)" for j
  have se: "phase_start b j 0 = bd j" "phase_limit b j 0 = bd (Suc j)" if "j < phase_count b" for j
    using chain that by (cases j; simp add: bd_def)+
  have mono: "bd j \<le> bd (Suc j)" if "j < phase_count b" for j using chain se that by metis
  have bd: "bd 0 = 0" "bd (phase_count b) = length ops" using chain by (simp_all add: bd_def)
  have segs: "map (phase_ops b) [0..<phase_count b] = map (\<lambda>j. take (bd (Suc j) - bd j) (drop (bd j) ops)) [0..<phase_count b]"
    using se by (simp add: phase_ops_def b)
  have "concat (map (phase_ops b) [0..<phase_count b]) = ops"
    unfolding segs using concat_segments [OF bd(1) mono, where xs = ops and n = "phase_count b"] bd(2) by simp
  moreover have "bd j \<le> length ops" if "j \<le> phase_count b" for j
    using that unfolding bd(2) [symmetric] by (induction rule: inc_induct) (use mono in \<open>auto intro: order.trans\<close>)
  ultimately show ?thesis using chain se by (metis Suc_leI)
qed

subsection \<open>The contract\<close>

locale index_contract =
  fixes I :: "('k::linorder, 'i) index_ops"
    and represents :: "'i \<Rightarrow> ('k \<times> u64) list \<Rightarrow> bool"
    and builds :: "('k \<times> u64) list \<Rightarrow> bool"
    and accepts :: "('k \<times> u64) list \<Rightarrow> bool"
  assumes Build_ok: "builds (kv_pairs data) \<Longrightarrow> \<exists>i. ix_Build I data = Some i \<and> represents i (kv_pairs data)"
    and EqualityLookup_ok: "represents i kvs \<Longrightarrow>
      \<exists>r. ix_EqualityLookup I i k t = Some r \<and> (if k \<in> fst ` set kvs then (k, r) \<in> set kvs else r = OVERFLOW)"
    and RangeQuery_ok: "represents i kvs \<Longrightarrow> ix_RangeQuery I i lo hi t = Some (pair_sum kvs lo hi)"
    and Insert_ok: "represents i kvs \<Longrightarrow> accepts (kvs @ [(k, v)]) \<Longrightarrow>
      \<exists>i'. ix_Insert I \<lparr>kv_key = k, kv_value = v\<rparr> t i = Some i' \<and> represents i' (kvs @ [(k, v)])"
begin

lemma run_op_consistent:
  assumes "represents i kvs" and "positions keys kvs" and "ops_consistent keys accepts kvs [x]"
  shows "\<exists>i'. run_op time_each verify I keys t x i = Some (i', False) \<and>
    represents i' (contents_after kvs [x]) \<and> positions keys (contents_after kvs [x])"
proof -
  consider (look) "op_op x = LOOKUP" | (range) "op_op x = RANGE_QUERY" | (ins) "op_op x = INSERT"
    using assms(3) by (auto split: if_splits)
  then show ?thesis
  proof cases
    case look
    obtain r where r: "ix_EqualityLookup I i (op_lo_key x) t = Some r"
        "if op_lo_key x \<in> fst ` set kvs then (op_lo_key x, r) \<in> set kvs else r = OVERFLOW"
      using EqualityLookup_ok [OF assms(1)] by blast
    have "\<not> lookup_wrong keys (op_lo_key x) (op_result x) r"
      using r(2) assms(2,3) look
      by (auto simp: lookup_wrong_def positions_def NOT_FOUND_def split: if_splits)
    then show ?thesis using r(1) look assms by (simp add: run_op_def contents_after_def)
  next
    case range
    then show ?thesis using assms RangeQuery_ok [OF assms(1)] by (simp add: run_op_def contents_after_def)
  next
    case ins
    then have acc: "accepts (kvs @ [(op_lo_key x, op_result x)])" "positions keys [(op_lo_key x, op_result x)]"
      using assms(3) by auto
    with Insert_ok [OF assms(1) acc(1), of t] ins assms(2) show ?thesis
      by (auto simp: run_op_def contents_after_def positions_def)
  qed
qed

lemma core_iter_consistent:
  assumes "represents i kvs" and "positions keys kvs" and "ops_consistent keys accepts kvs [fg_ops fg ! wk_idx w]"
    and "keys = fg_keys fg" and "fg_start fg \<le> wk_idx w" and "wk_idx w < fg_limit fg" and "fg_limit fg \<le> length (fg_ops fg)"
    and "time_each \<longrightarrow> fg_limit fg - fg_start fg \<le> length (wk_ns w)"
  shows "\<exists>i' ns'. core_iter time_each verify I clock fg (\<lparr>sh_index = i, sh_running = True, sh_run_failed = False\<rparr>, w) =
      Some (\<lparr>sh_index = i', sh_running = True, sh_run_failed = False\<rparr>, w\<lparr>wk_idx := wk_idx w + 1, wk_ns := ns'\<rparr>) \<and>
    represents i' (contents_after kvs [fg_ops fg ! wk_idx w]) \<and> positions keys (contents_after kvs [fg_ops fg ! wk_idx w]) \<and>
    length ns' = length (wk_ns w)"
proof -
  obtain i' where i': "run_op time_each verify I keys (fg_thread_id fg) (fg_ops fg ! wk_idx w) i = Some (i', False)"
      "represents i' (contents_after kvs [fg_ops fg ! wk_idx w])" "positions keys (contents_after kvs [fg_ops fg ! wk_idx w])"
    using run_op_consistent [OF assms(1-3)] by blast
  then show ?thesis
    using assms(4-8)
    by (intro exI [of _ i'] exI [of _ "if time_each then (wk_ns w)[wk_idx w - fg_start fg := clock (wk_idx w)] else wk_ns w"])
      (auto simp: core_iter_def)
qed

lemma core_loop_consistent:
  assumes "represents i kvs" and "positions keys kvs"
    and "ops_consistent keys accepts kvs (take (fg_limit fg - wk_idx w) (drop (wk_idx w) (fg_ops fg)))"
    and "keys = fg_keys fg" and "fg_start fg \<le> wk_idx w" and "wk_idx w \<le> fg_limit fg" and "fg_limit fg \<le> length (fg_ops fg)"
    and "time_each \<longrightarrow> fg_limit fg - fg_start fg \<le> length (wk_ns w)" and "\<not> wk_flag w" and "\<not> wk_done w"
  shows "\<exists>i' w'. DoOpsCoreLoop time_each verify I clock fg (\<lparr>sh_index = i, sh_running = True, sh_run_failed = False\<rparr>, w) =
      Some (\<lparr>sh_index = i', sh_running = False, sh_run_failed = False\<rparr>, w') \<and>
    represents i' (contents_after kvs (take (fg_limit fg - wk_idx w) (drop (wk_idx w) (fg_ops fg)))) \<and>
    positions keys (contents_after kvs (take (fg_limit fg - wk_idx w) (drop (wk_idx w) (fg_ops fg)))) \<and>
    length (wk_ns w') = length (wk_ns w) \<and> wk_op_cnt w' = Some (fg_limit fg - fg_start fg)"
  using assms
proof (induction "fg_limit fg - wk_idx w" arbitrary: w i kvs)
  case 0
  then have "wk_idx w = fg_limit fg" by simp
  then show ?case using 0
    by (subst DoOpsCoreLoop.simps) (simp add: core_iter_def DoOpsCoreLoop.simps contents_after_def)
next
  case (Suc n)
  let ?x = "fg_ops fg ! wk_idx w"
  let ?w = "\<lambda>ns. w\<lparr>wk_idx := wk_idx w + 1, wk_ns := ns\<rparr>"
  let ?rest = "take (fg_limit fg - (wk_idx w + 1)) (drop (wk_idx w + 1) (fg_ops fg))"
  have lt: "wk_idx w < fg_limit fg" using Suc.hyps(2) by simp
  then have split: "take (fg_limit fg - wk_idx w) (drop (wk_idx w) (fg_ops fg)) = [?x] @ ?rest"
    using Suc.prems(7) by (simp add: Cons_nth_drop_Suc [symmetric] Suc_diff_Suc [symmetric])
  note cons = Suc.prems(3) [unfolded split ops_consistent_append]
  obtain i' ns' where step: "core_iter time_each verify I clock fg (\<lparr>sh_index = i, sh_running = True, sh_run_failed = False\<rparr>, w) =
      Some (\<lparr>sh_index = i', sh_running = True, sh_run_failed = False\<rparr>, ?w ns')"
    "represents i' (contents_after kvs [?x])" "positions keys (contents_after kvs [?x])" "length ns' = length (wk_ns w)"
    using core_iter_consistent [OF Suc.prems(1,2) conjunct1 [OF cons] Suc.prems(4,5) lt Suc.prems(7,8)] by blast
  have "\<exists>i'' w'. DoOpsCoreLoop time_each verify I clock fg (\<lparr>sh_index = i', sh_running = True, sh_run_failed = False\<rparr>, ?w ns') =
      Some (\<lparr>sh_index = i'', sh_running = False, sh_run_failed = False\<rparr>, w') \<and>
    represents i'' (contents_after (contents_after kvs [?x]) ?rest) \<and>
    positions keys (contents_after (contents_after kvs [?x]) ?rest) \<and>
    length (wk_ns w') = length ns' \<and> wk_op_cnt w' = Some (fg_limit fg - fg_start fg)"
    using Suc.hyps(1) [of "?w ns'" i' "contents_after kvs [?x]"] Suc.hyps(2) Suc.prems step(2-4) cons lt by simp
  then show ?case
    unfolding split contents_after_append using step(1,4) Suc.prems(10) by (subst DoOpsCoreLoop.simps) simp
qed


lemma DoOps_phases_consistent:
  assumes "represents index kvs" and "positions (bn_keys b) kvs"
    and "ops_consistent (bn_keys b) accepts kvs (concat (map (phase_ops b) [i..<i + n]))"
    and "\<And>j. i \<le> j \<Longrightarrow> j < i + n \<Longrightarrow> phase_ok time_each b j" and "length ns = bn_ns_size b"
  shows "\<exists>index' ns' stats' counts'. DoOps_phases time_each verify I E b n i (index, ns, stats, counts) =
      Some ((index', ns', stats', counts'), False) \<and> length ns' = length ns"
  using assms
proof (induction n arbitrary: i index kvs ns stats counts)
  case (Suc n)
  let ?fg = "fg_param b i 0"
  have ph: "phase_ok time_each b i" using Suc.prems(4) by simp
  have "[i..<i + Suc n] = i # [i + 1..<i + 1 + n]" by (simp add: upt_conv_Cons)
  note cons = Suc.prems(3) [unfolded this list.map concat.simps ops_consistent_append]
  have seg: "take (fg_limit ?fg - wk_idx (worker_start ?fg ns)) (drop (wk_idx (worker_start ?fg ns)) (fg_ops ?fg)) = phase_ops b i"
    by (simp add: worker_start_def fg_param_def phase_ops_def)
  obtain index' w where loop: "DoOpsCoreLoop time_each verify I (en_clock E i) ?fg
        (\<lparr>sh_index = index, sh_running = True, sh_run_failed = False\<rparr>, worker_start ?fg ns) =
      Some (\<lparr>sh_index = index', sh_running = False, sh_run_failed = False\<rparr>, w)"
    "represents index' (contents_after kvs (phase_ops b i))" "positions (bn_keys b) (contents_after kvs (phase_ops b i))"
    "length (wk_ns w) = length ns" "wk_op_cnt w = Some (fg_limit ?fg - fg_start ?fg)"
    using core_loop_consistent [where fg = ?fg and w = "worker_start ?fg ns" and time_each = time_each
        and verify = verify and clock = "en_clock E i", unfolded seg, OF Suc.prems(1,2) conjunct1 [OF cons]] ph Suc.prems(5)
    by (auto simp: fg_param_def worker_start_def phase_ok_def)
  have rest: "\<exists>index'' ns'' stats'' counts''. DoOps_phases time_each verify I E b n (i + 1) (index', ns', stats', counts') =
      Some ((index'', ns'', stats'', counts''), False) \<and> length ns'' = length ns" if "length ns' = length ns" for ns' stats' counts'
    using Suc.IH [OF loop(2,3) conjunct2 [OF cons], of ns' stats' counts'] Suc.prems(4,5) that by simp
  show ?case
  proof (cases time_each)
    case True
    have "exe_cnt b i 1 \<le> 2 ^ 53 \<and> 0 < exe_cnt b i 1 \<and> exe_cnt b i 1 \<le> length (wk_ns w)"
      using ph True Suc.prems(5) loop(4) by (auto simp: phase_ok_def)
    then obtain st where "latency_stat (en_sqrt E) (exe_cnt b i 1) (wk_ns w) = Some st"
      using latency_stat_defined by blast
    moreover have "length (sort_prefix (exe_cnt b i 1) (wk_ns w)) = length ns"
      using loop(4) by (simp add: sort_prefix_def)
    ultimately show ?thesis using loop(1) rest True by simp
  next
    case False
    then show ?thesis using loop(1,4,5) rest by (simp add: Let_def)
  qed
qed simp

lemma Run_consistent:
  assumes "builds (kv_pairs (bn_index_data b))" and "positions (bn_keys b) (kv_pairs (bn_index_data b))"
    and "ops_consistent (bn_keys b) accepts (kv_pairs (bn_index_data b)) (concat (map (phase_ops b) [0..<phase_count b]))"
    and "\<And>i. i < phase_count b \<Longrightarrow> phase_ok (\<not> through \<and> \<not> build) b i" and "length ns = bn_ns_size b"
  shows "\<exists>r. Run num_repeats build through verify I E b ns = Some (r, False)"
proof -
  obtain index where index: "ix_Build I (bn_index_data b) = Some index" "represents index (kv_pairs (bn_index_data b))"
    using Build_ok [OF assms(1)] by blast
  have ops: "\<exists>index' ns' stats' counts'. DoOps build (\<not> through) (\<not> through \<and> verify) I e b (index, ns, stats, counts) =
      Some ((index', ns', stats', counts'), False) \<and> length ns' = length ns"
    if "length ns = bn_ns_size b" for ns stats counts e
    using DoOps_phases_consistent [OF index(2) assms(2), of 0 "phase_count b" "\<not> through" ns "\<not> through \<and> verify" e stats counts]
      assms(3,4) that by (cases build) (auto simp: DoOps_def)
  have "\<exists>r. Run_repeats n build through verify I E b (ns, stats, counts) = Some (r, False)"
    if "length ns = bn_ns_size b" for n ns stats counts
    using that
  proof (induction n arbitrary: ns stats counts)
    case (Suc n)
    then obtain index' ns' stats' counts' where
      "DoOps build (\<not> through) (\<not> through \<and> verify) I (E n) b (index, ns, stats, counts) =
        Some ((index', ns', stats', counts'), False)" "length ns' = length ns"
      using ops by blast
    then show ?case using Suc index(1) by simp
  qed simp
  then show ?thesis using assms(5) by (simp add: Run_def)
qed

text \<open>A run of one worker on a consistent workload passes, whether it is cut into blocks or not.\<close>

lemma verification_passes:
  assumes "Benchmark_init keys [ops] bulk is_mix insert_ratio num_blocks 1 = Some b" and "block_wise num_blocks ops"
    and "builds (kv_pairs (bn_index_data b))" and "positions keys (kv_pairs (bn_index_data b))"
    and "ops_consistent keys accepts (kv_pairs (bn_index_data b)) ops" and "length ops \<le> 2 ^ 53"
    and "through \<or> build \<or> (\<forall>i<phase_count b. phase_start b i 0 < phase_limit b i 0)"
    and "length ns = bn_ns_size b"
  shows "\<exists>r. Run num_repeats build through verify I E b ns = Some (r, False)"
proof (rule Run_consistent)
  have b: "bn_keys b = keys" "bn_ops b = [ops]"
    using assms(1) by (auto simp: Benchmark_init_def Let_def split: if_splits bind_splits prod.splits)
  note phases = phases_concat [OF assms(1,2)]
  show "phase_ok (\<not> through \<and> \<not> build) b i" if "i < phase_count b" for i
    using phases that assms(6,7) by (auto simp: phase_ok_def b)
  show "ops_consistent (bn_keys b) accepts (kv_pairs (bn_index_data b)) (concat (map (phase_ops b) [0..<phase_count b]))"
    using phases assms(5) b by simp
  show "positions (bn_keys b) (kv_pairs (bn_index_data b))" using assms(4) b by simp
qed (use assms(3,8) in auto)

end

end
