(* ===== verification/Generate_Layout.thy ===== *)
theory Generate_Layout
  imports Generate Benchmark_Verify
begin

text \<open>
  The layout of a generated workload: the block-wise numbering is a permutation under which the
  operations fall into blocks of insertions followed by queries, and the insertions together with
  the bulk-loaded pairs are the data set.
\<close>

subsection \<open>Block-wise numbering\<close>

lemma write_run_result:
  "pos + n \<le> length p \<Longrightarrow> write_run n (p, pos, cur) = Some (take pos p @ [cur..<cur + n] @ drop (pos + n) p, pos + n, cur + n)"
proof (induction n arbitrary: p pos cur)
  case (Suc n)
  have "take (Suc pos) (p[pos := cur]) = take pos p @ [cur]"
    using Suc.prems by (simp add: take_Suc_conv_app_nth)
  moreover have "[cur..<cur + Suc n] = cur # [cur + 1..<cur + 1 + n]" by (simp add: upt_conv_Cons)
  ultimately show ?case using Suc.prems Suc.IH [of "pos + 1" "p[pos := cur]" "cur + 1"] by simp
qed simp

lemma write_run_segment:
  assumes "length X = n" and "pos = length P"
  shows "write_run n (P @ X @ Q, pos, cur) = Some (P @ [cur..<cur + n] @ Q, pos + n, cur + n)"
  using assms write_run_result [of pos n "P @ X @ Q" cur] by simp

text \<open>The numbers that go to the insertions, lookups and range queries of blocks of given sizes.\<close>

fun lay :: "nat \<Rightarrow> (nat \<times> nat \<times> nat) list \<Rightarrow> nat list \<times> nat list \<times> nat list" where
  "lay c [] = ([], [], [])"
| "lay c ((a, l, r) # bs) =
     (let (I, L, R) = lay (c + a + l + r) bs
      in ([c..<c + a] @ I, [c + a..<c + a + l] @ L, [c + a + l..<c + a + l + r] @ R))"

fun layout_seq :: "(nat \<times> nat \<times> nat) list \<Rightarrow> layout \<Rightarrow> layout option" where
  "layout_seq [] s = Some s"
| "layout_seq ((a, l, r) # bs) s = Option.bind (layout_block a l r s) (layout_seq bs)"

definition block_total :: "(nat \<times> nat \<times> nat) list \<Rightarrow> nat" where
  "block_total bs = sum_list (map (\<lambda>(a, l, r). a + l + r) bs)"

lemma layout_block_result:
  assumes "length X = a" and "length Y = l" and "length Z = r"
  shows "layout_block a l r \<lparr>ly_permute = P0 @ X @ P1 @ Y @ P2 @ Z @ P3, ly_cur = c, ly_insert_cur = length P0,
      ly_lookup_cur = length P0 + a + length P1, ly_range_query_cur = length P0 + a + length P1 + l + length P2\<rparr> =
    Some \<lparr>ly_permute = P0 @ [c..<c + a] @ P1 @ [c + a..<c + a + l] @ P2 @ [c + a + l..<c + a + l + r] @ P3,
      ly_cur = c + a + l + r, ly_insert_cur = length P0 + a,
      ly_lookup_cur = length P0 + a + length P1 + l, ly_range_query_cur = length P0 + a + length P1 + l + length P2 + r\<rparr>"
  using assms write_run_segment [of X a "length P0" P0 "P1 @ Y @ P2 @ Z @ P3" c]
    write_run_segment [of Y l "length P0 + a + length P1" "P0 @ [c..<c + a] @ P1" "P2 @ Z @ P3" "c + a"]
    write_run_segment [of Z r "length P0 + a + length P1 + l + length P2"
      "P0 @ [c..<c + a] @ P1 @ [c + a..<c + a + l] @ P2" P3 "c + a + l"]
  by (simp add: layout_block_def)

lemma split_prefix: "n \<le> length X \<Longrightarrow> \<exists>X1 X2. X = X1 @ X2 \<and> length X1 = n"
  by (metis append_take_drop_id length_take min_absorb2)

lemma layout_seq_result:
  assumes "length X = sum_list (map fst bs)" and "length Y = sum_list (map (\<lambda>b. fst (snd b)) bs)" and "length Z = sum_list (map (\<lambda>b. snd (snd b)) bs)"
    and "lay c bs = (I, L, R)"
  shows "\<exists>s. layout_seq bs \<lparr>ly_permute = P0 @ X @ P1 @ Y @ P2 @ Z @ P3, ly_cur = c, ly_insert_cur = length P0,
      ly_lookup_cur = length P0 + length X + length P1,
      ly_range_query_cur = length P0 + length X + length P1 + length Y + length P2\<rparr> = Some s \<and>
    ly_permute s = P0 @ I @ P1 @ L @ P2 @ R @ P3"
  using assms
proof (induction bs arbitrary: X Y Z c I L R P0 P1 P2)
  case (Cons b bs)
  obtain a l r where b: "b = (a, l, r)" by (cases b)
  obtain X1 X2 where X: "X = X1 @ X2" "length X1 = a" using split_prefix [of a X] Cons.prems(1) b by auto
  obtain Y1 Y2 where Y: "Y = Y1 @ Y2" "length Y1 = l" using split_prefix [of l Y] Cons.prems(2) b by auto
  obtain Z1 Z2 where Z: "Z = Z1 @ Z2" "length Z1 = r" using split_prefix [of r Z] Cons.prems(3) b by auto
  obtain I' L' R' where lay: "lay (c + a + l + r) bs = (I', L', R')" by (cases "lay (c + a + l + r) bs")
  have eqs: "I = [c..<c + a] @ I'" "L = [c + a..<c + a + l] @ L'" "R = [c + a + l..<c + a + l + r] @ R'"
    using Cons.prems(4) b lay by simp_all
  note blk = layout_block_result [OF X(2) Y(2) Z(2), of P0 "X2 @ P1" "Y2 @ P2" "Z2 @ P3" c]
  have len: "length X2 = sum_list (map fst bs)" "length Y2 = sum_list (map (\<lambda>b. fst (snd b)) bs)" "length Z2 = sum_list (map (\<lambda>b. snd (snd b)) bs)"
    using Cons.prems(1-3) b X Y Z by simp_all
  note IH = Cons.IH [OF len lay, of "P0 @ [c..<c + a]" "P1 @ [c + a..<c + a + l]" "P2 @ [c + a + l..<c + a + l + r]"]
  show ?case using IH blk X Y Z by (simp add: b eqs ac_simps)
qed simp

lemma lay_lengths:
  "lay c bs = (I, L, R) \<Longrightarrow> length I = sum_list (map fst bs) \<and> length L = sum_list (map (\<lambda>b. fst (snd b)) bs) \<and> length R = sum_list (map (\<lambda>b. snd (snd b)) bs)"
  by (induction c bs arbitrary: I L R rule: lay.induct) (auto split: prod.splits)

lemma upt_split: "[c..<c + (m + n)] = [c..<c + m] @ [c + m..<c + m + n]"
  by (metis add.assoc le_add1 upt_add_eq_append)

lemma lay_mset: "lay c bs = (I, L, R) \<Longrightarrow> mset (I @ L @ R) = mset [c..<c + block_total bs]"
proof (induction c bs arbitrary: I L R rule: lay.induct)
  case (2 c a l r bs)
  obtain I' L' R' where lay: "lay (c + a + l + r) bs = (I', L', R')" by (cases "lay (c + a + l + r) bs")
  have "[c..<c + block_total ((a, l, r) # bs)] =
      [c..<c + a] @ [c + a..<c + a + l] @ [c + a + l..<c + a + l + r] @ [c + a + l + r..<c + a + l + r + block_total bs]"
    using upt_split [of c a "l + r + block_total bs"] upt_split [of "c + a" l "r + block_total bs"]
      upt_split [of "c + a + l" r "block_total bs"] by (simp add: block_total_def add.assoc)
  then show ?case using "2.IH" [OF lay] "2.prems" lay by (auto simp: ac_simps)
qed (simp add: block_total_def)

text \<open>The blocks of the generator: equal shares, and what is left for the last one.\<close>

definition block_sizes :: "nat \<Rightarrow> nat \<Rightarrow> nat \<Rightarrow> nat \<Rightarrow> nat \<Rightarrow> (nat \<times> nat \<times> nat) list" where
  "block_sizes ic lc rc block_num n =
     replicate (n - 1) (ic div block_num, lc div block_num, rc div block_num) @
     [(ic - (block_num - 1) * (ic div block_num), lc - (block_num - 1) * (lc div block_num),
       rc - (block_num - 1) * (rc div block_num))]"

lemma layout_block_fields:
  "layout_block a l r s = Some s' \<Longrightarrow> ly_insert_cur s' = ly_insert_cur s + a \<and> ly_lookup_cur s' = ly_lookup_cur s + l \<and>
    ly_range_query_cur s' = ly_range_query_cur s + r"
proof -
  have run: "write_run n (p, pos, cur) = Some (p', pos', cur') \<Longrightarrow> pos' = pos + n" for n p pos cur p' pos' cur'
    by (induction n arbitrary: p pos cur) (fastforce split: if_splits)+
  show "layout_block a l r s = Some s' \<Longrightarrow> ?thesis"
    by (auto simp: layout_block_def dest!: run split: bind_splits)
qed

lemma layout_Nil [simp]: "layout_seq [] = Some" "layout_blocks oc ic rc lc block_num 0 i = Some"
  by (simp_all add: fun_eq_iff)

lemma layout_blocks_seq:
  assumes "i + n = block_num" and "0 < n" and "ly_insert_cur s = i * (ic div block_num)"
    and "ly_lookup_cur s = ic + i * (lc div block_num)" and "ly_range_query_cur s = ic + lc + i * (rc div block_num)"
  shows "layout_blocks (ic + lc + rc) ic rc lc block_num n i s = layout_seq (block_sizes ic lc rc block_num n) s"
  using assms
proof (induction n arbitrary: i s)
  case (Suc n)
  show ?case
  proof (cases "n = 0")
    case True
    then show ?thesis using Suc.prems by (auto simp: block_sizes_def)
  next
    case False
    then obtain m where m: "n = Suc m" by (cases n) auto
    have sizes: "block_sizes ic lc rc block_num (Suc n) =
        (ic div block_num, lc div block_num, rc div block_num) # block_sizes ic lc rc block_num n"
      by (simp add: block_sizes_def m)
    have "i \<noteq> block_num - 1" using Suc.prems(1) False by simp
    moreover have "layout_blocks (ic + lc + rc) ic rc lc block_num n (i + 1) s' = layout_seq (block_sizes ic lc rc block_num n) s'"
      if "layout_block (ic div block_num) (lc div block_num) (rc div block_num) s = Some s'" for s'
      using layout_block_fields [OF that] Suc.IH [of "i + 1" s'] Suc.prems False by simp
    ultimately show ?thesis by (simp add: sizes cong: Option.bind_cong)
  qed
qed simp

lemma blockwise_result:
  assumes "0 < block_num" and "lay 0 (block_sizes ic lc rc block_num block_num) = (I, L, R)"
  shows "generate_permute_blockwise (ic + lc + rc) ic rc lc block_num = Some (I @ L @ R)"
    and "length I = ic" and "length L = lc" and "length R = rc" and "mset (I @ L @ R) = mset [0..<ic + lc + rc]"
proof -
  let ?bs = "block_sizes ic lc rc block_num block_num"
  have share: "(block_num - 1) * (n div block_num) \<le> n" for n
    by (metis diff_le_self mult_le_mono1 order.trans times_div_less_eq_dividend)
  have sums: "sum_list (map fst ?bs) = ic" "sum_list (map (\<lambda>b. fst (snd b)) ?bs) = lc" "sum_list (map (\<lambda>b. snd (snd b)) ?bs) = rc"
    using share by (simp_all add: block_sizes_def sum_list_replicate)
  then show len: "length I = ic" "length L = lc" "length R = rc" using lay_lengths [OF assms(2)] by simp_all
  have "block_total bs = sum_list (map fst bs) + sum_list (map (\<lambda>b. fst (snd b)) bs) + sum_list (map (\<lambda>b. snd (snd b)) bs)" for bs
    unfolding block_total_def by (induction bs) auto
  then show "mset (I @ L @ R) = mset [0..<ic + lc + rc]" using lay_mset [OF assms(2)] sums by simp
  have "replicate (ic + lc + rc) 0 = [] @ replicate ic 0 @ [] @ replicate lc 0 @ [] @ replicate rc (0::nat) @ []"
    by (simp add: replicate_add add.assoc)
  then show "generate_permute_blockwise (ic + lc + rc) ic rc lc block_num = Some (I @ L @ R)"
    using layout_seq_result [of "replicate ic 0" ?bs "replicate lc 0" "replicate rc 0" 0 I L R "[]" "[]" "[]" "[]"]
      layout_blocks_seq [of 0 block_num block_num _ ic lc rc] sums assms
    by (auto simp: generate_permute_blockwise_def)
qed

subsection \<open>Operations in the order of their numbers\<close>

text \<open>
  The operations as the generator numbers them: position \<open>j\<close> is the operation at \<open>p ! j\<close>. An update at
  \<open>p ! j\<close> is one at \<open>j\<close> of this view.
\<close>

abbreviation view :: "nat list \<Rightarrow> 'a list \<Rightarrow> 'a list" where
  "view p ops \<equiv> map (\<lambda>j. ops ! j) p"

lemma view_update:
  assumes "distinct p" and "i < length p" and "p ! i < length ops"
  shows "view p (ops[p ! i := v]) = (view p ops)[i := v]"
  using assms by (intro nth_equalityI) (auto simp: nth_list_update nth_eq_iff_index_eq)

lemma view_mset:
  assumes "mset p = mset [0..<length ops]"
  shows "mset (view p ops) = mset ops"
proof -
  have "mset (view p ops) = image_mset (\<lambda>j. ops ! j) (mset [0..<length ops])" using assms by (metis mset_map)
  also have "\<dots> = mset (map (\<lambda>j. ops ! j) [0..<length ops])" by (simp only: mset_map)
  finally show ?thesis by (simp add: map_nth)
qed

lemma set_inserts_view:
  assumes "distinct p" and "\<forall>q\<in>set p. q < length ops" and "i + length kvs \<le> length p"
  shows "\<exists>ops'. set_inserts p i kvs ops = Some ops' \<and> length ops' = length ops \<and>
    view p ops' = take i (view p ops) @ map2 insert_op kvs (drop i (view p ops)) @ drop (i + length kvs) (view p ops)"
  using assms(2,3)
proof (induction kvs arbitrary: i ops)
  case (Cons kv kvs)
  let ?V = "view p ops" and ?ops = "ops[p ! i := insert_op kv (ops ! (p ! i))]"
  have i: "i < length p" "p ! i < length ops" using Cons.prems by auto
  have V: "view p ?ops = ?V[i := insert_op kv (?V ! i)]" using view_update [OF assms(1) i] i by simp
  obtain ops' where ops': "set_inserts p (i + 1) kvs ?ops = Some ops'" "length ops' = length ops"
    "view p ops' = take (i + 1) (view p ?ops) @ map2 insert_op kvs (drop (i + 1) (view p ?ops)) @ drop (i + 1 + length kvs) (view p ?ops)"
    using Cons.IH [of ?ops "i + 1"] Cons.prems by auto
  have "drop i ?V = ?V ! i # drop (i + 1) ?V" using i Cons_nth_drop_Suc [of i ?V] by simp
  then show ?case using ops' i unfolding V by (simp add: take_Suc_conv_app_nth drop_update_cancel)
qed simp

lemma set_kind_view:
  assumes "distinct p" and "\<forall>q\<in>set p. q < length ops" and "i + n \<le> length p"
  shows "\<exists>ops'. set_kind kind (take n (drop i p)) ops = Some ops' \<and> length ops' = length ops \<and>
    view p ops' = take i (view p ops) @ map (\<lambda>x. x\<lparr>op_op := kind\<rparr>) (take n (drop i (view p ops))) @ drop (i + n) (view p ops)"
  using assms(2,3)
proof (induction n arbitrary: i ops)
  case (Suc n)
  let ?V = "view p ops" and ?ops = "ops[p ! i := (ops ! (p ! i))\<lparr>op_op := kind\<rparr>]"
  have i: "i < length p" "p ! i < length ops" using Suc.prems by auto
  have V: "view p ?ops = ?V[i := (?V ! i)\<lparr>op_op := kind\<rparr>]" using view_update [OF assms(1) i] i by simp
  obtain ops' where ops': "set_kind kind (take n (drop (i + 1) p)) ?ops = Some ops'" "length ops' = length ops"
    "view p ops' = take (i + 1) (view p ?ops) @ map (\<lambda>x. x\<lparr>op_op := kind\<rparr>) (take n (drop (i + 1) (view p ?ops))) @ drop (i + 1 + n) (view p ?ops)"
    using Suc.IH [of ?ops "i + 1"] Suc.prems by auto
  have "drop i ?V = ?V ! i # drop (i + 1) ?V" "drop i p = p ! i # drop (i + 1) p" 
    using i Cons_nth_drop_Suc [of i ?V] Cons_nth_drop_Suc [of i p] by simp_all
  then show ?case using ops' i unfolding V by (simp add: take_Suc_conv_app_nth drop_update_cancel)
qed simp

subsection \<open>Blocks\<close>

lemma lay_ge: "lay c bs = (I, L, R) \<Longrightarrow> q \<in> set I \<Longrightarrow> c \<le> q"
  by (induction c bs arbitrary: I L R rule: lay.induct) (fastforce split: prod.splits)+

lemma lay_blocks:
  assumes "lay c bs = (I, L, R)" and "length ops = c + block_total bs"
    and "\<And>q. c \<le> q \<Longrightarrow> q < length ops \<Longrightarrow> (op_op (ops ! q) = INSERT) = (q \<in> set I)"
  shows "\<exists>blocks. drop c ops = concat (map (\<lambda>(ins, qs). ins @ qs) blocks) \<and> length blocks = length bs \<and>
    (\<forall>(ins, qs)\<in>set blocks. (\<forall>x\<in>set ins. op_op x = INSERT) \<and> (\<forall>x\<in>set qs. op_op x \<noteq> INSERT))"
  using assms
proof (induction c bs arbitrary: I L R rule: lay.induct)
  case (1 c)
  then show ?case by (simp add: block_total_def)
next
  case (2 c a l r bs)
  let ?e = "c + a + l + r"
  obtain I' L' R' where lay: "lay ?e bs = (I', L', R')" by (cases "lay ?e bs")
  have I: "I = [c..<c + a] @ I'" using "2.prems"(1) lay by simp
  have len: "length ops = ?e + block_total bs" using "2.prems"(2) by (simp add: block_total_def)
  have I': "q \<in> set I' \<Longrightarrow> ?e \<le> q" for q using lay_ge [OF lay] .
  obtain blocks where blocks: "drop ?e ops = concat (map (\<lambda>(ins, qs). ins @ qs) blocks)" "length blocks = length bs"
    "\<forall>(ins, qs)\<in>set blocks. (\<forall>x\<in>set ins. op_op x = INSERT) \<and> (\<forall>x\<in>set qs. op_op x \<noteq> INSERT)"
    using "2.IH" [OF lay len] "2.prems"(3) I by fastforce
  let ?ins = "take a (drop c ops)" and ?qs = "take (l + r) (drop (c + a) ops)"
  have "drop c ops = ?ins @ ?qs @ drop ?e ops"
    by (metis add.assoc append_take_drop_id drop_drop add.commute)
  moreover have "\<forall>x\<in>set ?ins. op_op x = INSERT"
    using "2.prems"(3) len by (auto simp: in_set_conv_nth I)
  moreover have "\<forall>x\<in>set ?qs. op_op x \<noteq> INSERT"
    using "2.prems"(3) len I' by (fastforce simp: in_set_conv_nth I)
  ultimately show ?case using blocks by (intro exI [of _ "(?ins, ?qs) # blocks"]) auto
qed

subsection \<open>Insertions\<close>

lemma floor_double_le:
  assumes "0 \<le> x" and "x < 2 ^ 52"
  shows "of_int \<lfloor>double_round x\<rfloor> \<le> x + 1 / 2"
proof -
  define n where "n = nat \<lfloor>x\<rfloor>"
  have n: "of_nat n \<le> x" "x < of_nat n + 1" using assms(1) by (simp_all add: n_def) linarith+
  have "(of_nat n :: rat) < of_nat (2 ^ 52)" using n(1) assms(2) by simp
  then have le: "n < 2 ^ 52" by (simp only: of_nat_less_iff)
  show ?thesis
  proof (cases "x < of_nat n + 1 / 2")
    case True
    have half: "of_nat n + 1 / 2 = of_nat (2 * n + 1) * (2::rat) powi - 1" by (simp add: power_int_minus)
    have "x \<le> of_nat (2 * n + 1) * 2 powi - 1" using True half by linarith
    then have "double_round x \<le> of_nat n + 1 / 2"
      unfolding half using le by (intro double.rnd_le_exact) auto
    then have "\<lfloor>double_round x\<rfloor> \<le> int n" by (simp add: floor_le_iff)
    then have "of_int \<lfloor>double_round x\<rfloor> \<le> (of_nat n :: rat)" by (metis of_int_le_iff of_int_of_nat_eq)
    then show ?thesis using n(1) by linarith
  next
    case False
    have "double_round x \<le> of_nat (n + 1)" using n(2) le by (intro double.rnd_le_nat) auto
    then have "of_int \<lfloor>double_round x\<rfloor> \<le> (of_nat (n + 1) :: rat)" using of_int_floor_le order.trans by blast
    then show ?thesis using False by simp
  qed
qed

lemma op_counts_sum:
  assumes "op_counts op_cnt ir rq = (ic, lc, rc)" and "op_cnt < 2 ^ 52" and "0 \<le> ir" and "ir \<le> 1" and "0 \<le> rq" and "rq \<le> 1"
  shows "ic + lc + rc = op_cnt"
proof -
  have n: "double_round (of_nat op_cnt) = of_nat op_cnt" using assms(2) by (intro double.rnd_nat) simp
  have "(of_nat op_cnt :: rat) < of_nat (2 ^ 52)" using assms(2) by (simp only: of_nat_less_iff)
  then have real: "(of_nat op_cnt :: rat) < 2 ^ 52" by simp
  have cnt: "of_nat (nat \<lfloor>double_round (of_nat op_cnt * q)\<rfloor>) \<le> of_nat op_cnt * q + 1 / 2 \<and>
      nat \<lfloor>double_round (of_nat op_cnt * q)\<rfloor> \<le> op_cnt" if "0 \<le> q" "q \<le> 1" for q
  proof -
    have q: "0 \<le> of_nat op_cnt * q" "of_nat op_cnt * q \<le> of_nat op_cnt" using that by (auto simp: mult_left_le)
    have "double_round (of_nat op_cnt * q) \<le> of_nat op_cnt" using q(2) assms(2) by (intro double.rnd_le_nat) auto
    then show ?thesis
      using floor_double_le [OF q(1)] q real double.rnd_nonneg [OF q(1)] by (simp add: nat_le_iff floor_le_iff)
  qed
  show ?thesis
  proof (cases "double_round (ir + rq) \<ge> 1")
    case True
    then show ?thesis using assms(1) cnt [OF assms(3,4)] by (auto simp: op_counts_def n Let_def)
  next
    case False
    then have "ir + rq < 1" using double.rnd_mono [of 1 "ir + rq"] by (cases "1 \<le> ir + rq") auto
    then have lt: "of_nat op_cnt * (ir + rq) < (of_nat op_cnt :: rat)" if "0 < op_cnt" using that by simp
    have counts: "ic = nat \<lfloor>double_round (of_nat op_cnt * ir)\<rfloor>" "rc = nat \<lfloor>double_round (of_nat op_cnt * rq)\<rfloor>"
      "lc = op_cnt - ic - rc" using assms(1) False by (auto simp: op_counts_def n Let_def)
    have "(of_nat (ic + rc) :: rat) < of_nat (op_cnt + 1)" if "0 < op_cnt"
      using cnt [OF assms(3,4)] cnt [OF assms(5,6)] lt [OF that] by (simp add: counts distrib_left)
    then have "ic + rc \<le> op_cnt"
      using cnt [OF assms(3,4)] cnt [OF assms(5,6)] by (cases "op_cnt = 0") (auto simp: counts)
    then show ?thesis using counts(3) by simp
  qed
qed

text \<open>The range of pairs to insert from is a range.\<close>

lemma insert_range_le:
  assumes "insert_range pat hr ic n = (lo, hi)" and "ic \<le> n" and "n \<le> 2 ^ 53" and "0 \<le> hr" and "lo \<le> n"
  shows "lo \<le> hi" and "pat = Delta \<Longrightarrow> lo = n - ic \<and> hi = n" and "pat = Equality \<Longrightarrow> lo = 0 \<and> hi = n"
proof -
  show *: "lo = n - ic \<and> hi = n" if "pat = Delta"
    using assms(1-3) that by (auto simp: insert_range_def nat_diff_distrib)
  show e: "lo = 0 \<and> hi = n" if "pat = Equality" using assms(1) that by (simp add: insert_range_def)
  show "lo \<le> hi"
  proof (cases pat)
    case Hotspot
    let ?d = "double_round (hr * double_round (of_nat n))"
    have "0 \<le> ?d" using assms(4) by (intro double.rnd_nonneg mult_nonneg_nonneg) auto
    moreover have "double_round (of_nat lo) = of_nat lo" using assms(3,5) by (intro double.rnd_nat) simp
    ultimately have "double_round (of_nat lo) \<le> double_round (double_round (of_nat lo) + ?d)"
      by (metis add.right_neutral add_left_mono double.rnd_mono)
    then have "int lo \<le> \<lfloor>double_round (double_round (of_nat lo) + ?d)\<rfloor>"
      using \<open>double_round (of_nat lo) = of_nat lo\<close> by (simp add: le_floor_iff)
    moreover have "hi = nat \<lfloor>double_round (double_round (of_nat lo) + ?d)\<rfloor>"
      using assms(1) Hotspot by (auto simp: insert_range_def Let_def)
    ultimately show ?thesis by linarith
  qed (use * e in auto)
qed

text \<open>
  What \<^verbatim>\<open>generate_inserts\<close> does: some pairs, the first operations in the numbering, are inserted, the
  others are bulk-loaded, in order.
\<close>

lemma sorted_middle:
  assumes "sorted (map f (xs @ ys @ zs))" and "set ws \<subseteq> set ys"
  shows "sorted (map f (xs @ sort_key f ws @ zs))"
  using assms by (fastforce simp: sorted_append)

lemma generate_inserts_result:
  assumes "generate_inserts shuffle ops p data ic pat hr = Some (ops', bulk)"
    and "\<forall>xs. mset (shuffle xs) = mset xs" and "sorted (map kv_key data)"
    and "distinct p" and "\<forall>q\<in>set p. q < length ops" and "ic \<le> length p" and "ic \<le> length data"
    and "length data \<le> 2 ^ 53" and "0 \<le> hr"
  shows "\<exists>K. length K \<le> ic \<and> (pat \<noteq> Hotspot \<longrightarrow> length K = ic) \<and> mset (K @ bulk) = mset data \<and>
    sorted (map kv_key bulk) \<and> length ops' = length ops \<and>
    view p ops' = map2 insert_op K (view p ops) @ drop (length K) (view p ops)"
proof -
  obtain lo hi where r: "insert_range pat hr ic (length data) = (lo, hi)" by fastforce
  then have in_range: "lo \<le> length data" "hi \<le> length data"
    using assms(1) by (auto simp: generate_inserts_def split: if_splits)
  note range = insert_range_le [OF r assms(7,8,9) in_range(1)]
  let ?kvs = "map (\<lambda>i. data ! i) (shuffle [lo..<hi])"
  define K where "K = (if pat = Delta then drop lo data else take ic ?kvs)"
  have len: "length ?kvs = hi - lo" using assms(2) by (metis length_map length_upt mset_eq_length)
  have K: "length K \<le> ic \<and> (pat \<noteq> Hotspot \<longrightarrow> length K = ic)"
    using range assms(7) len by (cases pat) (auto simp: K_def)
  have view: "\<exists>o'. set_inserts p 0 K ops = Some o' \<and> length o' = length ops \<and>
      view p o' = map2 insert_op K (view p ops) @ drop (length K) (view p ops)"
    using set_inserts_view [OF assms(4,5), of 0 K] K assms(6) by simp
  have mid: "data = take lo data @ take (hi - lo) (drop lo data) @ drop hi data"
    using range(1) by (metis append_take_drop_id drop_drop le_add_diff_inverse2)
  have "map (\<lambda>i. data ! i) [lo..<hi] = take (hi - lo) (drop lo data)"
    using range(1) in_range(2) by (intro nth_equalityI) auto
  then have mset_kvs: "mset ?kvs = mset (take (hi - lo) (drop lo data))"
    using assms(2) by (metis mset_map)
  show ?thesis
  proof (cases "pat = Delta")
    case True
    then have "ops' = the (set_inserts p 0 K ops) \<and> bulk = take lo data @ drop hi data"
      using assms(1) r view in_range by (auto simp: generate_inserts_def K_def)
    moreover have "hi = length data" using range(2) True by simp
    moreover have "mset (drop lo data @ take lo data) = mset data"
      by (metis append_take_drop_id mset_append union_commute)
    ultimately show ?thesis
      using K view True assms(3) by (intro exI [of _ K]) (auto simp: K_def sorted_map sorted_wrt_take simp del: mset_append)
  next
    case False
    then have res: "ops' = the (set_inserts p 0 K ops) \<and> bulk = take lo data @ sort_key kv_key (drop ic ?kvs) @ drop hi data"
      using assms(1) r view in_range by (auto simp: generate_inserts_def K_def generate_permute_def)
    have "set (drop ic ?kvs) \<subseteq> set (take (hi - lo) (drop lo data))"
      by (metis mset_kvs set_drop_subset set_mset_mset)
    then have "sorted (map kv_key bulk)" using sorted_middle assms(3) mid res by metis
    moreover have "mset (K @ bulk) = mset data"
    proof -
      have "mset K + mset (drop ic ?kvs) = mset (take (hi - lo) (drop lo data))"
        unfolding K_def using False by (simp flip: mset_kvs mset_append)
      then show ?thesis using res arg_cong [OF mid, of mset] by (simp add: ac_simps)
    qed
    ultimately show ?thesis using K view res by (intro exI [of _ K]) auto
  qed
qed

subsection \<open>The whole layout\<close>

definition new_op :: "'k key_type \<Rightarrow> 'k Operation" where
  "new_op K = \<lparr>op_op = 0, op_lo_key = kt_default K, op_hi_key = kt_default K, op_result = 0\<rparr>"

text \<open>The operations in the order of their numbers: insertions, lookups, range queries.\<close>

definition numbered_ops :: "'k key_type \<Rightarrow> 'k KeyValue list \<Rightarrow> nat \<Rightarrow> nat \<Rightarrow> 'k Operation list" where
  "numbered_ops T K m rc =
     map (\<lambda>kv. insert_op kv (new_op T)) K @ replicate m (new_op T) @ replicate rc ((new_op T)\<lparr>op_op := RANGE_QUERY\<rparr>)"

lemma new_op_kind: "op_op (new_op T) = LOOKUP" "(new_op T)\<lparr>op_op := LOOKUP\<rparr> = new_op T"
  by (simp_all add: new_op_def LOOKUP_def)

lemma map2_insert_op_replicate:
  "length K \<le> n \<Longrightarrow> map2 insert_op K (replicate n d) = map (\<lambda>kv. insert_op kv d) K"
proof (induction K arbitrary: n)
  case (Cons kv K)
  then show ?case by (cases n) auto
qed simp

lemma set_kinds_numbered:
  assumes "distinct p" and "\<forall>q\<in>set p. q < length ops" and "length p = ic + lc + rc"
    and "view p ops = map (\<lambda>kv. insert_op kv (new_op T)) K @ replicate (ic + lc + rc - length K) (new_op T)"
    and "length K \<le> ic"
    and "set_kind LOOKUP (take lc (drop ic p)) ops = Some ops1"
    and "set_kind RANGE_QUERY (drop (ic + lc) p) ops1 = Some ops2"
  shows "length ops2 = length ops \<and> view p ops2 = numbered_ops T K (ic + lc - length K) rc"
proof -
  have ops1: "length ops1 = length ops" "view p ops1 = take ic (view p ops) @
      map (\<lambda>x. x\<lparr>op_op := LOOKUP\<rparr>) (take lc (drop ic (view p ops))) @ drop (ic + lc) (view p ops)"
    using set_kind_view [OF assms(1,2), of ic lc LOOKUP] assms(3,6) by auto
  have "drop ic (view p ops) = replicate (lc + rc) (new_op T)" using assms(4,5) by simp
  then have "map (\<lambda>x. x\<lparr>op_op := LOOKUP\<rparr>) (take lc (drop ic (view p ops))) = take lc (drop ic (view p ops))"
    by (simp add: new_op_kind)
  then have v1: "view p ops1 = view p ops"
    using ops1(2) by (metis append_assoc append_take_drop_id take_add)
  have "take rc (drop (ic + lc) p) = drop (ic + lc) p" using assms(3) by simp
  then have "length ops2 = length ops1" "view p ops2 = take (ic + lc) (view p ops1) @
      map (\<lambda>x. x\<lparr>op_op := RANGE_QUERY\<rparr>) (take rc (drop (ic + lc) (view p ops1))) @ drop (ic + lc + rc) (view p ops1)"
    using set_kind_view [OF assms(1), of ops1 "ic + lc" rc RANGE_QUERY] assms(2,3,7) ops1(1) by auto
  then show ?thesis using v1 ops1(1) assms(3,4,5) by (simp add: numbered_ops_def take_map)
qed

lemma numbered_mset:
  assumes "mset p = mset [0..<length ops]" and "view p ops = numbered_ops T K m rc"
  shows "mset (insert_vec ops) = mset (kv_pairs K)"
    and "mset (map op_op ops) = replicate_mset (length K) INSERT + replicate_mset m LOOKUP + replicate_mset rc RANGE_QUERY"
proof -
  have ops: "mset ops = mset (numbered_ops T K m rc)" using view_mset [OF assms(1)] assms(2) by simp
  have "mset (insert_vec ops) = mset (insert_vec (numbered_ops T K m rc))"
    by (simp add: insert_vec_def ops)
  also have "insert_vec (numbered_ops T K m rc) = kv_pairs K"
    by (simp add: insert_vec_def numbered_ops_def kv_pairs_def insert_op_def new_op_kind o_def)
  finally show "mset (insert_vec ops) = mset (kv_pairs K)" .
  have "mset (map op_op ops) = mset (map op_op (numbered_ops T K m rc))" by (simp add: ops)
  also have "map op_op (numbered_ops T K m rc) = replicate (length K) INSERT @ replicate m LOOKUP @ replicate rc RANGE_QUERY"
    by (simp add: numbered_ops_def insert_op_def new_op_kind o_def map_replicate_const)
  finally show "mset (map op_op ops) = replicate_mset (length K) INSERT + replicate_mset m LOOKUP + replicate_mset rc RANGE_QUERY"
    by simp
qed

lemma block_wise_positions:
  assumes "lay 0 (block_sizes ic lc rc block_num block_num) = (I, L, R)" and "0 < block_num"
    and "length ops = ic + lc + rc" and "\<forall>j<length ops. (op_op (ops ! ((I @ L @ R) ! j)) = INSERT) = (j < ic)"
  shows "block_wise block_num ops"
proof -
  note res = blockwise_result [OF assms(2,1)]
  have total: "block_total (block_sizes ic lc rc block_num block_num) = ic + lc + rc"
    using arg_cong [OF lay_mset [OF assms(1)], of size] res(2-4) by simp
  have "(op_op (ops ! q) = INSERT) = (q \<in> set I)" if "q < length ops" for q
  proof -
    have "q \<in> set (I @ L @ R)" using that assms(3) res(5) by (metis atLeastLessThan_iff le0 set_mset_mset set_upt)
    then obtain j where j: "j < length (I @ L @ R)" "q = (I @ L @ R) ! j" by (metis in_set_conv_nth)
    have "distinct (I @ L @ R)" using res(5) by (metis distinct_upt mset_eq_imp_distinct_iff)
    then have disj: "set I \<inter> set (L @ R) = {}" by simp
    have "q \<in> set I \<longleftrightarrow> j < ic"
    proof (cases "j < ic")
      case True
      then show ?thesis using j res(2) by (simp add: nth_append)
    next
      case False
      then have "q = (L @ R) ! (j - ic)" "j - ic < length (L @ R)" using j res(2) by (simp_all add: nth_append)
      then have "q \<in> set (L @ R)" by (metis nth_mem)
      then show ?thesis using disj False by blast
    qed
    then show ?thesis using assms(3,4) j res(2-4) by simp
  qed
  then obtain blocks where "ops = concat (map (\<lambda>(ins, qs). ins @ qs) blocks)" "length blocks = block_num"
    "\<forall>(ins, qs)\<in>set blocks. (\<forall>x\<in>set ins. op_op x = INSERT) \<and> (\<forall>x\<in>set qs. op_op x \<noteq> INSERT)"
    using lay_blocks [OF assms(1), of ops] total assms(2,3) by (auto simp: block_sizes_def)
  then show ?thesis using assms(2) by (cases "block_num = 1") (auto simp: block_wise_def)
qed

lemma numbered_block_wise:
  assumes "lay 0 (block_sizes ic lc rc block_num block_num) = (I, L, R)" and "1 < block_num"
    and "view (I @ L @ R) ops = numbered_ops T K m rc" and "length K = ic" and "length ops = ic + lc + rc"
  shows "block_wise block_num ops"
proof (rule block_wise_positions [OF assms(1)])
  have "0 < block_num" using assms(2) by simp
  note len = blockwise_result(2-4) [OF this assms(1)]
  have "(op_op (ops ! ((I @ L @ R) ! j)) = INSERT) = (j < ic)" if "j < length ops" for j
  proof -
    have "ops ! ((I @ L @ R) ! j) = numbered_ops T K m rc ! j"
      using that len assms(5) by (simp add: assms(3) [symmetric] del: map_append append_assoc)
    moreover have "length (numbered_ops T K m rc) = length ops"
      using len assms(5) by (simp add: assms(3) [symmetric])
    ultimately show ?thesis
      using that assms(4) by (auto simp: numbered_ops_def nth_append insert_op_def new_op_kind)
  qed
  then show "\<forall>j<length ops. (op_op (ops ! ((I @ L @ R) ! j)) = INSERT) = (j < ic)" by blast
qed (use assms(2,5) in auto)

end
