(* ===== verification/Generate_Queries.thy ===== *)
theory Generate_Queries
  imports Generate Benchmark_Verify
begin

text \<open>
  The queries of a generated workload are right: replayed on the pairs that are loaded and
  inserted before them, the lookups name keys that are there or are not, as announced, and the range
  queries announce the sum of the values they scan.
\<close>

subsection \<open>Sorted pairs\<close>

lemma mset_multimap_emplace [simp]: "mset (multimap_emplace p m) = add_mset p (mset m)"
  unfolding multimap_emplace_def by (metis add_mset_add_single mset.simps(2) mset_append takeWhile_dropWhile_id union_mset_add_mset_right)

lemma sorted_dropWhile_greater:
  "sorted (map fst m) \<Longrightarrow> q \<in> set (dropWhile (\<lambda>q. fst q \<le> k) m) \<Longrightarrow> k < fst q"
  by (induction m) (auto split: if_splits)

lemma sorted_multimap_emplace:
  assumes "sorted (map fst m)"
  shows "sorted (map fst (multimap_emplace p m))"
proof -
  have "sorted (map fst (takeWhile (\<lambda>q. fst q \<le> fst p) m))"
    using assms by (metis sorted_append map_append takeWhile_dropWhile_id)
  moreover have "sorted (map fst (dropWhile (\<lambda>q. fst q \<le> fst p) m))"
    using assms by (metis sorted_append map_append takeWhile_dropWhile_id)
  moreover have "fst q \<le> fst p" if "q \<in> set (takeWhile (\<lambda>q. fst q \<le> fst p) m)" for q
    using set_takeWhileD [OF that] by simp
  moreover have "fst p < fst q" if "q \<in> set (dropWhile (\<lambda>q. fst q \<le> fst p) m)" for q
    using sorted_dropWhile_greater [OF assms that] .
  ultimately show ?thesis
    unfolding multimap_emplace_def by (fastforce simp: sorted_append intro: less_imp_le)
qed

lemma takeWhile_sorted: "sorted (map fst m) \<Longrightarrow> takeWhile (\<lambda>p. fst p \<le> hi) m = filter (\<lambda>p. fst p \<le> hi) m"
proof (induction m)
  case (Cons p m)
  then show ?case by (auto intro!: filter_False [symmetric])
qed simp

lemma dropWhile_sorted: "sorted (map fst m) \<Longrightarrow> dropWhile (\<lambda>p. fst p < lo) m = filter (\<lambda>p. lo \<le> fst p) m"
proof (induction m)
  case (Cons p m)
  then show ?case by (auto intro!: filter_True [symmetric])
qed simp

text \<open>What a range query scans is what lies between its bounds.\<close>

lemma scan_range:
  assumes "sorted (map fst m)"
  shows "takeWhile (\<lambda>p. fst p \<le> hi) (drop (length (takeWhile (\<lambda>p. fst p < lo) m)) m) =
    filter (\<lambda>p. lo \<le> fst p \<and> fst p \<le> hi) m"
proof -
  have "sorted (map fst (filter (\<lambda>p. lo \<le> fst p) m))" using assms by (rule sorted_filter)
  then show ?thesis
    unfolding dropWhile_eq_drop [symmetric] dropWhile_sorted [OF assms]
    by (simp add: takeWhile_sorted conj_commute)
qed

lemma pair_sum_mset: "pair_sum kvs lo hi = (\<Sum>p\<in>#filter_mset (\<lambda>p. lo \<le> fst p \<and> fst p \<le> hi) (mset kvs). snd p)"
  by (simp add: pair_sum_def case_prod_unfold flip: sum_mset_sum_list mset_filter mset_map)

subsection \<open>The state of the generator\<close>

text \<open>
  The \<^verbatim>\<open>multimap\<close> and the vector hold the same pairs; without insertions only the vector is used,
  and it is sorted.
\<close>

definition gen_inv :: "bool \<Rightarrow> 'k::linorder multimap \<Rightarrow> 'k KeyValue list \<Rightarrow> bool" where
  "gen_inv is_insert data_map data_vec \<longleftrightarrow>
     (if is_insert then sorted (map fst data_map) \<and> mset data_map = mset (kv_pairs data_vec)
      else sorted (map kv_key data_vec))"

lemma gen_inv_query:
  assumes "gen_inv is_insert data_map data_vec"
  shows "sorted (map fst (query_pairs is_insert data_map data_vec))"
    and "mset (query_pairs is_insert data_map data_vec) = mset (kv_pairs data_vec)"
    and "set (query_pairs is_insert data_map data_vec) = set (kv_pairs data_vec)"
proof -
  show "sorted (map fst (query_pairs is_insert data_map data_vec))"
    using assms by (simp add: gen_inv_def query_pairs_def o_def split: if_splits)
  show *: "mset (query_pairs is_insert data_map data_vec) = mset (kv_pairs data_vec)"
    using assms by (simp add: gen_inv_def query_pairs_def kv_pairs_def split: if_splits)
  show "set (query_pairs is_insert data_map data_vec) = set (kv_pairs data_vec)"
    using * by (metis set_mset_mset)
qed

lemma gen_inv_insert:
  assumes "gen_inv True data_map data_vec"
  shows "gen_inv True (multimap_emplace (k, v) data_map) (data_vec @ [\<lparr>kv_key = k, kv_value = v\<rparr>])"
  using assms by (simp add: gen_inv_def sorted_multimap_emplace kv_pairs_def)

subsection \<open>Lookups\<close>

lemma draw_negative_absent:
  assumes "draw_negative K m mn mx seed = Some (k, seed')"
  shows "k \<notin> fst ` set m"
proof -
  have "fst (k, seed') \<notin> fst ` set m"
  proof (rule draw_negative.raw_induct [where P = "\<lambda>K m mn mx seed r. fst r \<notin> fst ` set m", OF _ assms])
    fix draw K m mn mx seed r
    assume IH: "\<And>K m mn mx seed r. draw K m mn mx seed = Some r \<Longrightarrow> fst r \<notin> fst ` set m"
      and step: "(case ScaleFactor seed of (s, seed') \<Rightarrow> Option.bind (kt_draw K s mn mx)
        (\<lambda>k. if exists_key m k then draw K m mn mx seed' else Some (k, seed'))) = Some r"
    show "fst r \<notin> fst ` set m"
      using step IH by (auto simp: exists_key_def intro: rev_image_eqI split: prod.splits if_splits bind_splits)
  qed
  then show ?thesis by simp
qed

lemma draw_existing_present:
  "draw_existing vec seed = Some (k, seed') \<Longrightarrow> k \<in> fst ` set (kv_pairs vec)"
  by (force simp: draw_existing_def kv_pairs_def image_image split: if_splits bind_splits)

lemma generate_lookup_right:
  assumes "generate_lookup K is_insert nl data_map data_vec x seed = Some (y, seed')"
    and "gen_inv is_insert data_map data_vec"
  shows "op_op y = op_op x \<and> (if op_result y = NOT_FOUND then op_lo_key y \<notin> fst ` set (kv_pairs data_vec)
     else op_result y = 0 \<and> op_lo_key y \<in> fst ` set (kv_pairs data_vec))"
  using assms(1) gen_inv_query(3) [OF assms(2)]
  by (auto simp: generate_lookup_def Let_def NOT_FOUND_def dest!: draw_negative_absent draw_existing_present
      intro: rev_image_eqI split: if_splits prod.splits bind_splits)

subsection \<open>Range queries\<close>

lemma range_attempt_sum:
  assumes "range_attempt K m vec r seed = Some ((lo, hi, n, v), r', seed')" and "sorted (map fst m)"
  shows "v = pair_sum m lo hi \<and> n = length (filter (\<lambda>p. lo \<le> fst p \<and> fst p \<le> hi) m)"
  using assms(1) unfolding range_attempt_def Let_def scan_range [OF assms(2)]
  by (auto simp: pair_sum_def case_prod_unfold split: if_splits prod.splits bind_splits)

lemma generate_range_right:
  assumes "generate_range K m vec x r seed = Some (y, seed')" and "sorted (map fst m)"
  shows "op_op y = op_op x \<and> op_result y = pair_sum m (op_lo_key y) (op_hi_key y) \<and>
    length (filter (\<lambda>p. op_lo_key y \<le> fst p \<and> fst p \<le> op_hi_key y) m) \<in> {min_num..max_num}"
  using assms
proof (induction K m vec x r seed rule: generate_range.induct)
  case (1 K m vec x r seed)
  obtain lo hi n v r' seed1 where a: "range_attempt K m vec r seed = Some ((lo, hi, n, v), r', seed1)"
    using 1(2) by (subst (asm) generate_range.simps) (auto split: option.splits)
  note sum = range_attempt_sum [OF a 1(3)]
  show ?case
  proof (cases "n > max_num \<or> n < min_num")
    case True
    then have "generate_range K m vec x (r' + 1) seed1 = Some (y, seed')" "\<not> max_num_retries < r' + 1"
      using 1(2) a by (auto simp: generate_range.simps [of K m vec x r] split: if_splits)
    then show ?thesis using 1(1) [OF a refl refl refl refl refl True] 1(3) by simp
  next
    case False
    then show ?thesis using 1(2) a sum by (subst (asm) generate_range.simps) auto
  qed
qed

subsection \<open>The whole workload\<close>

text \<open>The insertions of a workload are ones that the index accepts.\<close>

fun inserts_ok ::
    "'k list \<Rightarrow> (('k \<times> u64) list \<Rightarrow> bool) \<Rightarrow> ('k \<times> u64) list \<Rightarrow> 'k Operation list \<Rightarrow> bool" where
  "inserts_ok keys accepts kvs [] = True"
| "inserts_ok keys accepts kvs (x # xs) =
     (if op_op x = INSERT
      then accepts (kvs @ [(op_lo_key x, op_result x)]) \<and> positions keys [(op_lo_key x, op_result x)]
        \<and> inserts_ok keys accepts (kvs @ [(op_lo_key x, op_result x)]) xs
      else inserts_ok keys accepts kvs xs)"

lemma generated_queries_right:
  assumes "generate_equality_lookups K is_insert nl data_map data_vec seed xs = Some (ys, seed')"
    and "gen_inv is_insert data_map data_vec" and "inserts_ok keys accepts (kv_pairs data_vec) xs"
    and "\<not> is_insert \<longrightarrow> (\<forall>x\<in>set xs. op_op x \<noteq> INSERT)"
  shows "ops_consistent keys accepts (kv_pairs data_vec) ys \<and> map op_op ys = map op_op xs"
  using assms
proof (induction xs arbitrary: data_map data_vec seed ys)
  case (Cons x xs)
  consider (ins) "op_op x = INSERT" | (look) "op_op x = LOOKUP" | (range) "op_op x = RANGE_QUERY"
    using Cons.prems(1) by (auto split: if_splits)
  then show ?case
  proof cases
    case ins
    let ?vec = "data_vec @ [\<lparr>kv_key = op_lo_key x, kv_value = op_result x\<rparr>]"
    have vec: "kv_pairs ?vec = kv_pairs data_vec @ [(op_lo_key x, op_result x)]" by (simp add: kv_pairs_def)
    obtain zs where "generate_equality_lookups K is_insert nl
        (multimap_emplace (op_lo_key x, op_result x) data_map) ?vec seed xs = Some (zs, seed')" "ys = x # zs"
      using Cons.prems(1) ins by (auto split: bind_splits)
    then show ?thesis
      using Cons.IH [of "multimap_emplace (op_lo_key x, op_result x) data_map" ?vec seed zs] Cons.prems(2-4) ins
        gen_inv_insert [of data_map data_vec "op_lo_key x" "op_result x"] by (auto simp: vec)
  next
    case look
    then obtain y seed1 zs where y: "generate_lookup K is_insert nl data_map data_vec x seed = Some (y, seed1)"
        "generate_equality_lookups K is_insert nl data_map data_vec seed1 xs = Some (zs, seed')" "ys = y # zs"
      using Cons.prems(1) by (auto split: bind_splits)
    then show ?thesis
      using Cons.IH [OF y(2)] Cons.prems(2-4) look generate_lookup_right [OF y(1) Cons.prems(2)] by auto
  next
    case range
    then obtain y seed1 zs where y: "generate_range K (query_pairs is_insert data_map data_vec) data_vec x 0 seed = Some (y, seed1)"
        "generate_equality_lookups K is_insert nl data_map data_vec seed1 xs = Some (zs, seed')" "ys = y # zs"
      using Cons.prems(1) by (auto split: bind_splits)
    have "pair_sum (query_pairs is_insert data_map data_vec) = pair_sum (kv_pairs data_vec)"
      using gen_inv_query(2) [OF Cons.prems(2)] by (intro ext) (simp add: pair_sum_mset)
    then show ?thesis
      using Cons.IH [OF y(2)] Cons.prems(2-4) range generate_range_right [OF y(1) gen_inv_query(1) [OF Cons.prems(2)]] y(3)
      by auto
  qed
qed simp

end
