(* ===== verification/Generate_Correct.thy ===== *)
theory Generate_Correct
  imports Generate_Layout Generate_Queries "HOL-Library.Sublist"
begin

text \<open>
  The properties of the workload generator: the layout of a workload, the split of the data set,
  the composition, and the workload of one thread as a whole.
\<close>

subsection \<open>Layout\<close>

lemma perm_upt:
  assumes "mset p = mset [0..<n]"
  shows "distinct p" and "\<forall>q\<in>set p. q < n" and "length p = n"
proof -
  show "distinct p" using assms by (metis distinct_upt mset_eq_imp_distinct_iff)
  show "\<forall>q\<in>set p. q < n" using assms by (metis atLeastLessThan_iff set_mset_mset set_upt)
  show "length p = n" using assms by (metis length_upt minus_nat.diff_0 mset_eq_length)
qed

lemma view_replicate: "\<forall>q\<in>set p. q < n \<Longrightarrow> view p (replicate n d) = replicate (length p) d"
  by (auto simp: map_replicate_const [symmetric])

text \<open>
  A layout that is generated: its operations are those of \<open>numbered_ops\<close> in another order, the insertions
  and the pairs that are left are the data set, and blocks come out as blocks.
\<close>

definition layout_ok ::
    "'k::linorder key_type \<Rightarrow> 'k KeyValue list \<Rightarrow> nat \<Rightarrow> nat \<Rightarrow> nat \<Rightarrow> InsertPat \<Rightarrow> nat \<Rightarrow> nat option
      \<Rightarrow> 'k KeyValue list \<Rightarrow> 'k Operation list \<Rightarrow> bool" where
  "layout_ok T data ic lc rc pat block_num bulkload_cnt bulk ops \<longleftrightarrow>
     (\<exists>K rest. length K \<le> ic \<and> (pat \<noteq> Hotspot \<longrightarrow> length K = ic) \<and> mset (K @ rest) = mset data \<and>
        sorted (map kv_key rest) \<and> subseq bulk rest \<and> (bulkload_cnt = None \<longrightarrow> bulk = rest) \<and>
        length ops = ic + lc + rc \<and> mset (insert_vec ops) = mset (kv_pairs K) \<and>
        mset (map op_op ops) = replicate_mset (length K) INSERT + replicate_mset (ic + lc - length K) LOOKUP
          + replicate_mset rc RANGE_QUERY \<and>
        (pat \<noteq> Hotspot \<or> block_num = 1 \<longrightarrow> block_wise block_num ops))"

lemma permutation_result:
  assumes "(if block_num = 1 then Some (generate_permute shuffle 0 (ic + lc + rc) mix)
      else generate_permute_blockwise (ic + lc + rc) ic rc lc block_num) = Some p"
    and "\<forall>xs. mset (shuffle xs) = mset xs" and "0 < block_num"
  shows "mset p = mset [0..<ic + lc + rc]"
proof (cases "block_num = 1")
  case True
  then show ?thesis using assms by (auto simp: generate_permute_def)
next
  case False
  obtain I L R where "lay 0 (block_sizes ic lc rc block_num block_num) = (I, L, R)" by (cases "lay 0 (block_sizes ic lc rc block_num block_num)")
  from blockwise_result [OF assms(3) this] show ?thesis using assms(1) False by auto
qed

lemma generate_layout_result:
  assumes gen: "generate_layout T shuffle sample data op_cnt rq ir pat hr mix block_num bulkload_cnt = Some (bulk, ops)"
    and shuffle: "\<forall>xs. mset (shuffle xs) = mset xs" and sample: "\<forall>c xs. subseq (sample c xs) xs"
    and data: "sorted (map kv_key data)" "length data \<le> 2 ^ 53" and cnt: "op_cnt < 2 ^ 52"
    and ratios: "0 \<le> ir" "ir \<le> 1" "0 \<le> rq" "rq \<le> 1" "0 \<le> hr"
    and blocks: "0 < block_num" "1 < block_num \<longrightarrow> \<not> mix"
    and counts: "op_counts op_cnt ir rq = (ic, lc, rc)"
  shows "layout_ok T data ic lc rc (if ir > 0 then pat else Equality) block_num bulkload_cnt bulk ops"
proof -
  have sum: "ic + lc + rc = op_cnt" using op_counts_sum [OF counts cnt ratios(1-4)] .
  have ic0: "ic = 0" if "\<not> ir > 0" using counts that ratios(1) by (auto simp: op_counts_def Let_def split: if_splits)
  let ?tot = "replicate (ic + lc + rc) (new_op T)"
  obtain p0 where p0: "(if block_num = 1 then Some (generate_permute shuffle 0 (ic + lc + rc) mix)
      else generate_permute_blockwise (ic + lc + rc) ic rc lc block_num) = Some p0"
    using gen counts sum by (auto simp: generate_layout_def Let_def split: if_splits bind_splits)
  define p where "p = (if ir > 0 \<and> mix then sort (take ic p0) @ drop ic p0 else p0)"
  have perm: "mset p = mset [0..<ic + lc + rc]"
  proof -
    have "mset (sort (take ic p0) @ drop ic p0) = mset p0" by (metis append_take_drop_id mset_append mset_sort)
    then show ?thesis using permutation_result [OF p0 shuffle blocks(1)] by (simp add: p_def)
  qed
  note p = perm_upt [OF perm]
  have V: "view p ?tot = replicate (ic + lc + rc) (new_op T)" using view_replicate [OF p(2)] p(3) by simp
  obtain ops0 bulk0 where step: "(if ir > 0 then generate_inserts shuffle ?tot p data ic pat hr else Some (?tot, data)) = Some (ops0, bulk0)"
      "bulk = (case bulkload_cnt of None \<Rightarrow> bulk0 | Some c \<Rightarrow> sample c bulk0)"
    and kinds: "\<exists>ops1. set_kind LOOKUP (take lc (drop ic p)) ops0 = Some ops1 \<and> set_kind RANGE_QUERY (drop (ic + lc) p) ops1 = Some ops"
    and ic: "ic \<le> length data"
    using gen counts sum p0 by (auto simp: generate_layout_def Let_def p_def new_op_def split: if_splits bind_splits)
  have "\<exists>K. length K \<le> ic \<and> ((if ir > 0 then pat else Equality) \<noteq> Hotspot \<longrightarrow> length K = ic) \<and> mset (K @ bulk0) = mset data \<and>
    sorted (map kv_key bulk0) \<and> length ops0 = ic + lc + rc \<and>
    view p ops0 = map2 insert_op K (view p ?tot) @ drop (length K) (view p ?tot)"
  proof (cases "ir > 0")
    case True
    then show ?thesis
      using generate_inserts_result [OF _ shuffle data(1) p(1), of ?tot ic pat hr ops0 bulk0] p step(1) ic data(2) ratios(5) by auto
  next
    case False
    then show ?thesis using step(1) data(1) ic0 by (intro exI [of _ "[]"]) auto
  qed
  then obtain K where K: "length K \<le> ic" "(if ir > 0 then pat else Equality) \<noteq> Hotspot \<longrightarrow> length K = ic" "mset (K @ bulk0) = mset data"
    "sorted (map kv_key bulk0)" "length ops0 = ic + lc + rc"
    "view p ops0 = map2 insert_op K (view p ?tot) @ drop (length K) (view p ?tot)"
    by blast
  then have V0: "view p ops0 = map (\<lambda>kv. insert_op kv (new_op T)) K @ replicate (ic + lc + rc - length K) (new_op T)"
    unfolding V by (simp add: map2_insert_op_replicate)
  obtain ops1 where "set_kind LOOKUP (take lc (drop ic p)) ops0 = Some ops1" "set_kind RANGE_QUERY (drop (ic + lc) p) ops1 = Some ops"
    using kinds by blast
  from set_kinds_numbered [OF p(1) _ p(3) V0 K(1) this]
  have final: "length ops = ic + lc + rc" "view p ops = numbered_ops T K (ic + lc - length K) rc" using p(2) K(5) by auto
  have "block_wise block_num ops" if "(if ir > 0 then pat else Equality) \<noteq> Hotspot" "block_num \<noteq> 1"
  proof -
    obtain I L R where lay: "lay 0 (block_sizes ic lc rc block_num block_num) = (I, L, R)"
      by (cases "lay 0 (block_sizes ic lc rc block_num block_num)")
    have "1 < block_num" using blocks(1) that(2) by simp
    moreover have "p = I @ L @ R"
      using p0 blockwise_result(1) [OF blocks(1) lay] that(2) blocks(2) calculation by (simp add: p_def)
    ultimately show ?thesis using numbered_block_wise [OF lay] final K(2) that(1) by simp
  qed
  then have wise: "(if ir > 0 then pat else Equality) \<noteq> Hotspot \<or> block_num = 1 \<longrightarrow> block_wise block_num ops"
    by (cases "block_num = 1") (simp_all add: block_wise_def)
  have "subseq bulk bulk0" "bulkload_cnt = None \<longrightarrow> bulk = bulk0" using step(2) sample by (auto split: option.splits)
  moreover have "mset p = mset [0..<length ops]" using perm final(1) by simp
  note numbered_mset [OF this final(2)]
  ultimately show ?thesis
    unfolding layout_ok_def using K(1-4) final(1) wise by blast
qed

subsection \<open>One thread\<close>

definition unique_upto :: "nat \<Rightarrow> ('k \<times> u64) list \<Rightarrow> bool" where
  "unique_upto n kvs \<longleftrightarrow> distinct (map fst kvs) \<and> length kvs \<le> n"

lemma inserts_ok_unique:
  assumes "unique_upto n (kvs @ insert_vec xs)" and "positions keys (insert_vec xs)"
  shows "inserts_ok keys (unique_upto n) kvs xs"
  using assms
proof (induction xs arbitrary: kvs)
  case (Cons x xs)
  show ?case
  proof (cases "op_op x = INSERT")
    case True
    have "insert_vec (x # xs) = (op_lo_key x, op_result x) # insert_vec xs" using True by (simp add: insert_vec_def)
    then show ?thesis using Cons.IH [of "kvs @ [(op_lo_key x, op_result x)]"] Cons.prems True
      by (auto simp: unique_upto_def positions_def)
  next
    case False
    then have "insert_vec (x # xs) = insert_vec xs" by (simp add: insert_vec_def)
    then show ?thesis using Cons False by simp
  qed
qed simp

lemma block_wise_kinds:
  fixes xs ys :: "'a Operation list"
  assumes "block_wise n xs" and "map op_op ys = map op_op xs"
  shows "block_wise n ys"
proof -
  have "\<exists>blocks'. ys = concat (map (\<lambda>(ins, qs). ins @ qs) blocks') \<and> length blocks' = length blocks \<and>
      (\<forall>(ins, qs)\<in>set blocks'. (\<forall>x\<in>set ins. op_op x = INSERT) \<and> (\<forall>x\<in>set qs. op_op x \<noteq> INSERT))"
    if "map op_op ys = map op_op (concat (map (\<lambda>(ins, qs). ins @ qs) blocks))"
      "\<forall>(ins, qs)\<in>set blocks. (\<forall>x\<in>set ins. op_op x = INSERT) \<and> (\<forall>x\<in>set qs. op_op x \<noteq> INSERT)"
    for blocks :: "('a Operation list \<times> 'a Operation list) list" and ys :: "'a Operation list"
    using that
  proof (induction blocks arbitrary: ys)
    case (Cons b blocks)
    obtain ins qs where b: "b = (ins, qs)" by fastforce
    define u v w where "u = take (length ins) ys" and "v = take (length qs) (drop (length ins) ys)"
      and "w = drop (length qs) (drop (length ins) ys)"
    note uvw = this
    have kinds: "map op_op ys = map op_op ins @ map op_op qs @ map op_op (concat (map (\<lambda>(ins, qs). ins @ qs) blocks))"
      using Cons.prems(1) b by simp
    have "ys = u @ v @ w" unfolding uvw by (metis append_take_drop_id)
    moreover have "map op_op u = map op_op ins" "map op_op v = map op_op qs"
      "map op_op w = map op_op (concat (map (\<lambda>(ins, qs). ins @ qs) blocks))"
      unfolding uvw by (simp_all add: kinds flip: take_map drop_map)
    ultimately have ys: "ys = u @ v @ w" "map op_op u = map op_op ins" "map op_op v = map op_op qs"
      "map op_op w = map op_op (concat (map (\<lambda>(ins, qs). ins @ qs) blocks))" by simp_all
    have sets: "op_op ` set u = op_op ` set ins" "op_op ` set v = op_op ` set qs"
      using ys(2,3) by (metis set_map)+
    have "\<forall>y\<in>op_op ` set ins. y = INSERT" "\<forall>y\<in>op_op ` set qs. y \<noteq> INSERT" using Cons.prems(2) b by auto
    then have "\<forall>x\<in>set u. op_op x = INSERT" "\<forall>x\<in>set v. op_op x \<noteq> INSERT" unfolding sets [symmetric] by blast+
    moreover obtain blocks' where "w = concat (map (\<lambda>(ins, qs). ins @ qs) blocks')" "length blocks' = length blocks"
      "\<forall>(ins, qs)\<in>set blocks'. (\<forall>x\<in>set ins. op_op x = INSERT) \<and> (\<forall>x\<in>set qs. op_op x \<noteq> INSERT)"
      using Cons.IH [OF ys(4)] Cons.prems(2) by auto
    ultimately show ?case using ys(1) by (intro exI [of _ "(u, v) # blocks'"]) auto
  qed simp
  note kinds = this
  show ?thesis
  proof (cases "n = 1")
    case False
    then obtain blocks where "xs = concat (map (\<lambda>(ins, qs). ins @ qs) blocks)" "length blocks = n" "1 < n"
      "\<forall>(ins, qs)\<in>set blocks. (\<forall>x\<in>set ins. op_op x = INSERT) \<and> (\<forall>x\<in>set qs. op_op x \<noteq> INSERT)"
      using assms(1) unfolding block_wise_def by blast
    then show ?thesis using kinds [of ys blocks] assms(2) unfolding block_wise_def by simp
  qed (simp add: block_wise_def)
qed

lemma foldl_emplace:
  assumes "sorted (map fst m)"
  shows "sorted (map fst (foldl (\<lambda>m e. multimap_emplace e m) m es)) \<and>
    mset (foldl (\<lambda>m e. multimap_emplace e m) m es) = mset m + mset es"
  using assms by (induction es arbitrary: m) (auto simp: sorted_multimap_emplace)

lemma thread_map_inv: "gen_inv True (thread_map bulk [ops] 0) bulk"
proof -
  have "thread_map bulk [ops] 0 = foldl (\<lambda>m e. multimap_emplace e m) [] (kv_pairs bulk)"
    by (simp add: thread_map_def kv_pairs_def)
  then show ?thesis using foldl_emplace [of "[]" "kv_pairs bulk"] by (simp add: gen_inv_def)
qed

lemma distinct_subseq: "subseq xs ys \<Longrightarrow> distinct ys \<Longrightarrow> distinct xs"
  by (induction rule: list_emb.induct) (auto dest: list_emb_set)

lemma sorted_subseq: "subseq xs ys \<Longrightarrow> sorted (ys :: 'a::linorder list) \<Longrightarrow> sorted xs"
  by (induction rule: list_emb.induct) (auto dest: list_emb_set)

text \<open>The workload of a single thread: the pairs to load, and operations whose expected results are right.\<close>

lemma generate_one_thread:
  assumes gen: "generate T shuffle sample keys op_cnt rq nl ir pat hr 1 mix block_num bulkload_cnt = Some (bulk, opss)"
    and opts: "generate_options_ok 1 mix block_num nl rq ir hr" "0 < block_num" "op_cnt < 2 ^ 52"
    and shuffle: "\<forall>xs. mset (shuffle xs) = mset xs" and sample: "\<forall>c xs. subseq (sample c xs) xs"
    and keys: "distinct keys" "length keys \<le> 2 ^ 53"
    and counts: "op_counts op_cnt ir rq = (ic, lc, rc)"
  shows "\<exists>ops loads. opss = [ops] \<and> loads = (case bulk of None \<Rightarrow> add_values keys | Some d \<Rightarrow> d) \<and>
    sorted (map kv_key loads) \<and> unique_upto (2 ^ 53) (kv_pairs loads) \<and> positions keys (kv_pairs loads) \<and>
    ops_consistent keys (unique_upto (2 ^ 53)) (kv_pairs loads) ops \<and> length ops = op_cnt \<and>
    (pat \<noteq> Hotspot \<or> block_num = 1 \<longrightarrow> block_wise block_num ops) \<and>
    (pat \<noteq> Hotspot \<longrightarrow> mset (map op_op ops) =
       replicate_mset ic INSERT + replicate_mset lc LOOKUP + replicate_mset rc RANGE_QUERY)"
proof -
  let ?data = "add_values keys"
  obtain loads tot where lay: "generate_layout T shuffle sample ?data op_cnt rq ir pat hr mix block_num bulkload_cnt = Some (loads, tot)"
    and sorted: "sorted keys" and bulk: "bulk = (if ir > 0 \<or> bulkload_cnt \<noteq> None then Some loads else None)"
    and thr: "generate_threads T (ir > 0) nl loads [tot] 1 0 42 = Some opss"
    using gen by (auto simp: generate_def split: if_splits bind_splits)
  obtain ops seed where ops: "generate_equality_lookups T (ir > 0) nl (if ir > 0 then thread_map loads [tot] 0 else []) loads 42 tot = Some (ops, seed)"
      "opss = [ops]"
    using thr by (auto split: bind_splits)
  have r: "0 \<le> ir" "ir \<le> 1" "0 \<le> rq" "rq \<le> 1" "0 \<le> hr" "1 < block_num \<longrightarrow> \<not> mix"
    using opts(1) by (auto simp: generate_options_ok_def)
  have kd: "map kv_key ?data = keys" using keys_add_values [of keys] by (simp add: kv_pairs_def o_def)
  then have data: "sorted (map kv_key ?data)" "length ?data \<le> 2 ^ 53"
    using sorted keys(2) length_map [of kv_key ?data] by simp_all
  note lok = generate_layout_result [OF lay shuffle sample data opts(3) r(1-5) opts(2) r(6) counts, unfolded layout_ok_def]
  obtain K rest where K: "mset (K @ rest) = mset ?data" "sorted (map kv_key rest)" "subseq loads rest"
    "bulkload_cnt = None \<longrightarrow> loads = rest" "length tot = ic + lc + rc" "mset (insert_vec tot) = mset (kv_pairs K)"
    and Ki: "length K \<le> ic" "(if ir > 0 then pat else Equality) \<noteq> Hotspot \<longrightarrow> length K = ic" and wise: "(if ir > 0 then pat else Equality) \<noteq> Hotspot \<or> block_num = 1 \<longrightarrow> block_wise block_num tot"
    and kinds: "mset (map op_op tot) = replicate_mset (length K) INSERT + replicate_mset (ic + lc - length K) LOOKUP + replicate_mset rc RANGE_QUERY"
    using lok by blast
  have all: "mset (kv_pairs K) + mset (kv_pairs rest) = mset (kv_pairs ?data)"
    using arg_cong [OF K(1), of "image_mset (\<lambda>kv. (kv_key kv, kv_value kv))"] by (simp add: kv_pairs_def)
  let ?all = "kv_pairs rest @ insert_vec tot"
  have perm: "mset ?all = mset (kv_pairs ?data)" using all K(6) by (simp add: ac_simps)
  have "mset (map fst ?all) = mset (map fst (kv_pairs ?data))" by (simp only: mset_map perm)
  then have keys_all: "distinct (map fst ?all)" "length (map fst ?all) = length keys"
    using keys(1) keys_add_values [of keys] by (metis mset_eq_imp_distinct_iff mset_eq_length)+
  have sub: "subseq (kv_pairs loads @ insert_vec tot) ?all"
    unfolding kv_pairs_def using K(3) by (intro list_emb_append_mono subseq_map) auto
  have unique: "unique_upto (2 ^ 53) (kv_pairs loads @ insert_vec tot)"
    using distinct_subseq [OF subseq_map [OF sub] keys_all(1)] list_emb_length [OF sub] keys_all(2) keys(2)
    by (simp add: unique_upto_def)
  have "set (kv_pairs loads @ insert_vec tot) \<subseteq> set (kv_pairs ?data)"
    using list_emb_set [OF sub] arg_cong [OF perm, of set_mset] by (metis set_mset_mset subsetI)
  moreover have "positions keys (kv_pairs ?data)" using keys(2) by (intro positions_add_values) simp
  ultimately have pos: "positions keys (kv_pairs loads)" "positions keys (insert_vec tot)"
    by (auto simp: positions_def)
  have sl: "sorted (map kv_key loads)" using sorted_subseq [OF subseq_map [OF K(3)] K(2)] .
  have "gen_inv (ir > 0) (if ir > 0 then thread_map loads [tot] 0 else []) loads"
    using thread_map_inv [of loads tot] sl by (simp add: gen_inv_def)
  moreover have "\<not> ir > 0 \<longrightarrow> (\<forall>x\<in>set tot. op_op x \<noteq> INSERT)"
  proof (intro impI ballI)
    fix x assume "\<not> ir > 0" "x \<in> set tot"
    then have "ic = 0" "op_op x \<in># mset (map op_op tot)"
      using counts r(1) by (auto simp: op_counts_def Let_def split: if_splits)
    then show "op_op x \<noteq> INSERT" unfolding kinds using Ki by (auto split: if_splits)
  qed
  ultimately have "ops_consistent keys (unique_upto (2 ^ 53)) (kv_pairs loads) ops" "map op_op ops = map op_op tot"
    using generated_queries_right [OF ops(1)] inserts_ok_unique [OF unique pos(2)] by blast+
  moreover have "length ops = op_cnt"
    using K(5) op_counts_sum [OF counts opts(3) r(1-4)] calculation(2) by (metis length_map)
  moreover have "pat \<noteq> Hotspot \<or> block_num = 1 \<longrightarrow> block_wise block_num ops"
    using wise block_wise_kinds [OF _ calculation(2)] by (auto split: if_splits)
  moreover have "pat \<noteq> Hotspot \<longrightarrow> mset (map op_op ops) =
      replicate_mset ic INSERT + replicate_mset lc LOOKUP + replicate_mset rc RANGE_QUERY"
    unfolding calculation(2) kinds using Ki(2) by auto
  moreover have "loads = (case bulk of None \<Rightarrow> ?data | Some d \<Rightarrow> d)"
  proof (cases "bulk = None")
    case True
    then have "\<not> ir > 0" "bulkload_cnt = None" using bulk by (auto split: if_splits)
    then show ?thesis using lay True by (auto simp: generate_layout_def split: if_splits bind_splits prod.splits)
  qed (use bulk in \<open>auto split: if_splits\<close>)
  moreover have "unique_upto (2 ^ 53) (kv_pairs loads)" using unique by (auto simp: unique_upto_def)
  ultimately show ?thesis using ops(2) sl pos(1) by blast
qed

subsection \<open>Numbers in file names\<close>

definition undecimal :: "string \<Rightarrow> nat" where
  "undecimal = foldl (\<lambda>a c. 10 * a + (of_char c - 48)) 0"

lemma decimal_digits: "\<forall>c\<in>set (decimal n). 48 \<le> (of_char c :: nat) \<and> (of_char c :: nat) \<le> 57"
  by (induction n rule: decimal.induct) (subst decimal.simps, auto)

lemma undecimal_decimal: "undecimal (decimal n) = n"
proof (induction n rule: decimal.induct)
  case (1 n)
  show ?case
  proof (cases "n < 10")
    case True
    then show ?thesis by (subst decimal.simps) (simp add: undecimal_def)
  next
    case False
    then have "undecimal (decimal n) = 10 * undecimal (decimal (n div 10)) + n mod 10"
      by (subst decimal.simps) (simp add: undecimal_def)
    then show ?thesis using 1 False by simp
  qed
qed

lemma decimal_inj: "decimal m = decimal n \<Longrightarrow> m = n"
  by (metis undecimal_decimal)

lemma decimal_ne_unit: "c \<in> {CHR ''K'', CHR ''M'', CHR ''B''} \<Longrightarrow> decimal n \<noteq> decimal m @ [c]"
  using decimal_digits [of n] by auto

text \<open>Different operation counts give different numbers in the name of the workload file, so the workloads
  of one data set and one set of ratios do not overwrite each other.\<close>

theorem to_nice_number_inj: "inj to_nice_number"
proof (rule injI)
  fix m n assume "to_nice_number m = to_nice_number n"
  then show "m = n"
    by (auto simp: to_nice_number_def decimal_ne_unit decimal_ne_unit [symmetric] dest!: decimal_inj split: if_splits)
qed

subsection \<open>Properties\<close>

text \<open>C34. The block-wise numbering is a permutation of the positions, and operations that are insertions exactly
  under the first \<^verbatim>\<open>insert_cnt\<close> numbers fall into \<^verbatim>\<open>block_num\<close> blocks of insertions followed by queries, as
  the benchmark expects them.\<close>

theorem blockwise_permutation:
  assumes "0 < block_num"
  shows "\<exists>p. generate_permute_blockwise (ic + lc + rc) ic rc lc block_num = Some p \<and>
    mset p = mset [0..<ic + lc + rc] \<and>
    (\<forall>ops :: 'k Operation list. length ops = ic + lc + rc \<and>
       (\<forall>j<length ops. (op_op (ops ! (p ! j)) = INSERT) = (j < ic)) \<longrightarrow> block_wise block_num ops)"
proof -
  obtain I L R where lay: "lay 0 (block_sizes ic lc rc block_num block_num) = (I, L, R)"
    by (cases "lay 0 (block_sizes ic lc rc block_num block_num)")
  note res = blockwise_result [OF assms lay]
  have "block_wise block_num ops" if ops: "length ops = ic + lc + rc"
    "\<forall>j<length ops. (op_op (ops ! ((I @ L @ R) ! j)) = INSERT) = (j < ic)" for ops :: "'k Operation list"
    using block_wise_positions [OF lay assms ops] .
  then show ?thesis using res(1,5) by blast
qed

text \<open>Five insertions, three lookups and two range queries in two blocks.\<close>

theorem blockwise_permutation_witness:
  "\<exists>p. generate_permute_blockwise 10 5 2 3 2 = Some p \<and> mset p = mset [0..<10] \<and> p = [0, 1, 4, 5, 6, 2, 7, 8, 3, 9]"
proof -
  have "generate_permute_blockwise 10 5 2 3 2 = Some [0, 1, 4, 5, 6, 2, 7, 8, 3, 9]"
    by code_simp
  then show ?thesis using blockwise_permutation [of 2 5 3 2] by (auto simp del: mset.simps mset_upt)
qed

text \<open>C35. For the patterns \<^verbatim>\<open>equality\<close> and \<^verbatim>\<open>delta\<close> the data set is split: \<^verbatim>\<open>insert_cnt\<close> pairs become the insertions, in
  the order of the given positions, and all others, sorted, are bulk-loaded.\<close>

theorem generate_inserts_partition:
  assumes "pat \<noteq> Hotspot" and "\<forall>xs. mset (shuffle xs) = mset xs" and "sorted (map kv_key data)"
    and "distinct op_id" and "\<forall>q\<in>set op_id. q < length ops" and "insert_cnt \<le> length op_id"
    and "insert_cnt \<le> length data" and "length data \<le> 2 ^ 53"
  shows "\<exists>ops' bulk K. generate_inserts shuffle ops op_id data insert_cnt pat hotspot_ratio = Some (ops', bulk) \<and>
    length K = insert_cnt \<and> mset (K @ bulk) = mset data \<and> sorted (map kv_key bulk) \<and>
    (\<forall>j<length op_id. ops' ! (op_id ! j) =
       (if j < insert_cnt then insert_op (K ! j) (ops ! (op_id ! j)) else ops ! (op_id ! j)))"
proof -
  have range: "insert_range pat r insert_cnt (length data) = (if pat = Delta then length data - insert_cnt else 0, length data)" for r
    using assms(1,7,8) by (cases pat) (auto simp: insert_range_def nat_diff_distrib)
  define K where "K = (if pat = Delta then drop (length data - insert_cnt) data
    else take insert_cnt (map (\<lambda>i. data ! i) (shuffle [0..<length data])))"
  have len: "length (shuffle [0..<length data]) = length data"
    using assms(2) by (metis length_upt minus_nat.diff_0 mset_eq_length)
  then have K: "length K = insert_cnt" using assms(7) by (simp add: K_def)
  obtain ops' where "set_inserts op_id 0 K ops = Some ops'"
    using set_inserts_view [OF assms(4,5), of 0 K] K assms(6) by auto
  then have "\<exists>bulk. \<forall>r. generate_inserts shuffle ops op_id data insert_cnt pat r = Some (ops', bulk)"
    using assms(1) unfolding generate_inserts_def range by (cases "pat = Delta") (auto simp: K_def generate_permute_def Let_def)
  then obtain bulk where gen: "generate_inserts shuffle ops op_id data insert_cnt pat 0 = Some (ops', bulk)"
      "generate_inserts shuffle ops op_id data insert_cnt pat hotspot_ratio = Some (ops', bulk)" by blast
  obtain K' where K': "length K' = insert_cnt" "mset (K' @ bulk) = mset data" "sorted (map kv_key bulk)"
    "view op_id ops' = map2 insert_op K' (view op_id ops) @ drop (length K') (view op_id ops)"
    using generate_inserts_result [OF gen(1) assms(2-8)] assms(1) by auto
  have "ops' ! (op_id ! j) = (if j < insert_cnt then insert_op (K' ! j) (ops ! (op_id ! j)) else ops ! (op_id ! j))"
    if "j < length op_id" for j
    using arg_cong [OF K'(4), of "\<lambda>xs. xs ! j"] that K'(1) assms(6) by (simp add: nth_append)
  then show ?thesis using gen(2) K'(1-3) by blast
qed

text \<open>Three pairs, two of which are inserted at the positions 1 and 0, without shuffling.\<close>

theorem generate_inserts_partition_witness:
  "\<exists>ops' bulk K. generate_inserts id (replicate 2 (new_op uint32_keys)) [1, 0] (add_values [3, 5, 9]) 2 Equality (1 / 10) =
     Some (ops', bulk) \<and> length K = 2 \<and> mset (K @ bulk) = mset (add_values [3, 5, 9 :: u32])"
  using generate_inserts_partition [of Equality id "add_values [3, 5, 9 :: u32]" "[1, 0]" "replicate 2 (new_op uint32_keys)" 2 "1 / 10"]
  by (auto simp: add_values_def)

text \<open>C36. The option check accepts a hotspot ratio of 1, but the hotspot starts at 30 percent of the data, so
  it ends beyond the data and the insertions read outside the vector.\<close>

theorem hotspot_out_of_bounds:
  assumes "4 \<le> length data" and "length data < 2 ^ 52"
  shows "generate_options_ok 1 False 1 0 0 (1 / 2) 1 \<and>
    generate_inserts shuffle ops op_id data insert_cnt Hotspot 1 = None"
proof -
  let ?n = "length data" and ?q = "double_round (3 / 10)"
  have n: "double_round (of_nat ?n) = of_nat ?n" using assms(2) by (intro double.rnd_nat) simp
  have q: "of_nat 1 * 2 powi - 2 \<le> ?q" "?q \<le> 1"
    by (rule double.rnd_ge_exact, simp_all add: power_int_minus double.rnd_le_1)
  define lo where "lo = nat \<lfloor>double_round (?q * of_nat ?n)\<rfloor>"
  have "?q * of_nat ?n \<le> of_nat ?n" using mult_right_mono [OF q(2), of "of_nat ?n"] by simp
  then have "double_round (?q * of_nat ?n) \<le> of_nat ?n" using assms(2) by (intro double.rnd_le_nat) auto
  then have le: "lo \<le> ?n" by (simp add: lo_def nat_le_iff floor_le_iff)
  have "1 \<le> (1 / 4) * (of_nat ?n :: rat)" using assms(1) by simp
  also have "\<dots> \<le> ?q * of_nat ?n" using q(1) by (intro mult_right_mono) (simp_all add: power_int_minus)
  finally have "1 \<le> double_round (?q * of_nat ?n)" using double.rnd_mono [of 1] by simp
  then have pos: "1 \<le> lo" by (simp add: lo_def le_nat_iff le_floor_iff)
  have "double_round (of_nat lo) = of_nat lo" "double_round (of_nat lo + of_nat ?n) = of_nat lo + of_nat ?n"
    using double.rnd_nat [of lo] double.rnd_nat [of "lo + ?n"] le assms(2) by simp_all
  then have "insert_range Hotspot 1 insert_cnt ?n = (lo, lo + ?n)"
    by (simp add: insert_range_def n lo_def [symmetric] Let_def flip: of_nat_add)
  then show ?thesis using pos by (simp add: generate_inserts_def generate_options_ok_def)
qed

text \<open>Ten keys.\<close>

theorem hotspot_out_of_bounds_witness:
  "generate_inserts id (replicate 5 (new_op uint32_keys)) [0..<5] (add_values (map of_nat [0..<10])) 5 Hotspot 1 = None"
proof -
  have "length (add_values (map of_nat [0..<10] :: u32 list)) = 10"
    using arg_cong [OF keys_add_values [of "map of_nat [0..<10] :: u32 list"], of length] by (simp add: kv_pairs_def)
  then show ?thesis
    using hotspot_out_of_bounds [of "add_values (map of_nat [0..<10] :: u32 list)"] by simp
qed

end
