(* ===== verification/Dynamic_Pgm.thy ===== *)
theory Dynamic_Pgm
  imports Search_Class
begin

text \<open>
  The dynamic PGM-index (\<^verbatim>\<open>src/competitors/PGM-index/include/pgm_index_dynamic.hpp\<close>) and its
  wrapper \<^verbatim>\<open>src/competitors/dynamic_pgm_index.h\<close>: a sequence of sorted levels, level \<open>i\<close> with room
  for \<open>2 ^ i\<close> items, the lowest one a buffer for new items. A full buffer is merged with the levels
  above it into the first level with room (the logarithmic method).

  The class template has two class parameters, which are arguments here: \<^verbatim>\<open>SearchClass\<close> (its
  \<^verbatim>\<open>lower_bound\<close>, the argument \<open>search\<close>) and \<^verbatim>\<open>PGMType\<close>, the index built on the large levels (its
  empty value, its constructor and \<^verbatim>\<open>find_approximate_position\<close>, the fields of \<open>pgm_ops\<close>). The
  threshold \<^verbatim>\<open>MinIndexedLevel\<close> is a field too. Accesses outside a vector and reads of items that
  were never written are the value \<open>None\<close>.
\<close>

subsection \<open>Items and state\<close>

record 'k item =
  item_first :: 'k
  item_second :: u64
  item_flag :: bool

abbreviation deleted :: "'k item \<Rightarrow> bool" where
  "deleted \<equiv> item_flag"

definition Item :: "'k \<Rightarrow> u64 \<Rightarrow> 'k item" where
  "Item k v = \<lparr>item_first = k, item_second = v, item_flag = False\<rparr>"

record ('k, 'p) pgm_ops =
  MinIndexedLevel :: nat
  pgm_empty :: 'p
  pgm_build :: "'k item list \<Rightarrow> 'p option"
  pgm_find :: "'p \<Rightarrow> 'k \<Rightarrow> ApproxPos option"

record ('k, 'p) dpgm =
  used_levels :: nat
  data_levels :: "'k item list list"
  pgm_levels :: "'p list"

definition min_level :: nat where "min_level = 6"
definition init_levels :: nat where "init_levels = 15"
definition max_fully_allocated_level :: nat where
  "max_fully_allocated_level = max 15 (min_level + 1)"

definition get_level :: "('k, 'p) dpgm \<Rightarrow> nat \<Rightarrow> 'k item list option" where
  "get_level s level =
     (if min_level \<le> level \<and> level - min_level < length (data_levels s)
      then Some (data_levels s ! (level - min_level)) else None)"

definition set_level :: "('k, 'p) dpgm \<Rightarrow> nat \<Rightarrow> 'k item list \<Rightarrow> ('k, 'p) dpgm option" where
  "set_level s level xs =
     (if min_level \<le> level \<and> level - min_level < length (data_levels s)
      then Some (s\<lparr>data_levels := (data_levels s)[level - min_level := xs]\<rparr>) else None)"

definition get_pgm :: "('k, 'p) pgm_ops \<Rightarrow> ('k, 'p) dpgm \<Rightarrow> nat \<Rightarrow> 'p option" where
  "get_pgm P s level =
     (if MinIndexedLevel P \<le> level \<and> level - MinIndexedLevel P < length (pgm_levels s)
      then Some (pgm_levels s ! (level - MinIndexedLevel P)) else None)"

definition set_pgm :: "('k, 'p) pgm_ops \<Rightarrow> ('k, 'p) dpgm \<Rightarrow> nat \<Rightarrow> 'p \<Rightarrow> ('k, 'p) dpgm option" where
  "set_pgm P s level p =
     (if MinIndexedLevel P \<le> level \<and> level - MinIndexedLevel P < length (pgm_levels s)
      then Some (s\<lparr>pgm_levels := (pgm_levels s)[level - MinIndexedLevel P := p]\<rparr>) else None)"

text \<open>\<^verbatim>\<open>std::lower_bound\<close> on a sorted level: the number of items whose key is below.\<close>

definition item_lower_bound :: "'k::linorder item list \<Rightarrow> 'k \<Rightarrow> nat" where
  "item_lower_bound xs k = length (takeWhile (\<lambda>x. item_first x < k) xs)"

subsection \<open>Merging\<close>

fun merge :: "bool \<Rightarrow> 'k::linorder item list \<Rightarrow> 'k item list \<Rightarrow> 'k item list" where
  "merge skip [] ys = ys"
| "merge skip (x # xs) [] = x # xs"
| "merge skip (x # xs) (y # ys) =
     (if item_first y < item_first x then y # merge skip (x # xs) ys
      else if item_first x < item_first y then x # merge skip xs (y # ys)
      else if skip \<and> deleted x then merge skip xs ys
      else x # merge skip xs ys)"

text \<open>
  The temporary vectors: their items are uninitialised (\<open>None\<close>) until written. Writing a sequence
  at the beginning of a vector and reading a prefix of it.
\<close>

type_synonym 'k buffer = "'k item option list"

definition write_buf :: "'k buffer \<Rightarrow> 'k item list \<Rightarrow> 'k buffer option" where
  "write_buf buf xs = (if length xs \<le> length buf then Some (map Some xs @ drop (length xs) buf) else None)"

definition read_buf :: "'k buffer \<Rightarrow> nat \<Rightarrow> 'k item list option" where
  "read_buf buf n = (if n \<le> length buf then those (take n buf) else None)"

definition resize_buf :: "'k buffer \<Rightarrow> nat \<Rightarrow> 'k buffer" where
  "resize_buf buf n = take n buf @ replicate (n - length buf) None"

definition clear_level :: "('k, 'p) pgm_ops \<Rightarrow> ('k, 'p) dpgm \<Rightarrow> nat \<Rightarrow> ('k, 'p) dpgm option" where
  "clear_level P s i = do {
     s1 \<leftarrow> set_level s i [];
     if i \<ge> MinIndexedLevel P then set_pgm P s1 i (pgm_empty P) else Some s1
   }"

text \<open>The loop \<^verbatim>\<open>for (i = 1 + min_level; i <= limit; ++i)\<close> of the pairwise merge.\<close>

function merge_loop ::
    "('k::linorder, 'p) pgm_ops \<Rightarrow> nat \<Rightarrow> nat \<Rightarrow> nat \<Rightarrow> 'k buffer \<Rightarrow> 'k buffer \<Rightarrow> nat \<Rightarrow> ('k, 'p) dpgm
      \<Rightarrow> ('k buffer \<times> 'k buffer \<times> nat \<times> ('k, 'p) dpgm) option" where
  "merge_loop P md limit i tmp_a tmp_b actual_size s =
     (if i \<le> limit then do {
        let alternate = ((i - min_level) mod 2 = md);
        level_data \<leftarrow> get_level s i;
        tmp \<leftarrow> read_buf (if alternate then tmp_a else tmp_b) actual_size;
        let out = merge (int i = int (used_levels s) - 1) tmp level_data;
        new_buf \<leftarrow> write_buf (if alternate then tmp_b else tmp_a) out;
        s' \<leftarrow> clear_level P s i;
        merge_loop P md limit (i + 1) (if alternate then tmp_a else new_buf)
          (if alternate then new_buf else tmp_b) (length out) s'
      }
      else Some (tmp_a, tmp_b, actual_size, s))"
  by pat_completeness auto
termination by (relation "measure (\<lambda>(P, md, limit, i, _). Suc limit - i)") auto

declare merge_loop.simps [simp del]

definition pairwise_logarithmic_merge ::
    "('k::linorder, 'p) pgm_ops \<Rightarrow> 'k item \<Rightarrow> nat \<Rightarrow> nat \<Rightarrow> nat \<Rightarrow> ('k, 'p) dpgm \<Rightarrow> ('k, 'p) dpgm option" where
  "pairwise_logarithmic_merge P new_item up_to_level size_hint insertion_point s = do {
     let target_level = up_to_level + 1;
     target_level_data \<leftarrow> get_level s target_level;
     let tmp_a = replicate size_hint None;
     let tmp_b = replicate (size_hint + length target_level_data) None;
     let md = (up_to_level - min_level) mod 2;
     level0 \<leftarrow> get_level s min_level;
     let first = take insertion_point level0 @ new_item # drop insertion_point level0;
     tmp_a \<leftarrow> (if md \<noteq> 0 then write_buf tmp_a first else Some tmp_a);
     tmp_b \<leftarrow> (if md \<noteq> 0 then Some tmp_b else write_buf tmp_b first);
     let limit = (if target_level_data = [] then up_to_level else up_to_level + 1);
     (tmp_a, tmp_b, actual_size, s) \<leftarrow>
       merge_loop P md limit (1 + min_level) tmp_a tmp_b (2 ^ (1 + min_level)) s;
     let tmp_b = resize_buf tmp_b actual_size;
     s \<leftarrow> set_level s min_level [];
     out \<leftarrow> those tmp_b;
     s \<leftarrow> set_level s target_level out;
     if target_level \<ge> MinIndexedLevel P then do {
       p \<leftarrow> pgm_build P out;
       set_pgm P s target_level p
     }
     else Some s
   }"

subsection \<open>Insertion\<close>

text \<open>The loop that looks for the first level with enough free slots.\<close>

function find_target :: "('k, 'p) dpgm \<Rightarrow> nat \<Rightarrow> nat \<Rightarrow> (nat \<times> nat) option" where
  "find_target s i slots_required =
     (if i < used_levels s then do {
        level_data \<leftarrow> get_level s i;
        let slots_left_in_level = to_size_t (2 ^ i - int (length level_data));
        if slots_required \<le> slots_left_in_level then Some (i, slots_required)
        else find_target s (i + 1) (slots_required + length level_data)
      }
      else Some (i, slots_required))"
  by pat_completeness auto
termination by (relation "measure (\<lambda>(s, i, _). used_levels s - i)") auto

declare find_target.simps [simp del]

definition add_level :: "('k, 'p) pgm_ops \<Rightarrow> nat \<Rightarrow> ('k, 'p) dpgm \<Rightarrow> ('k, 'p) dpgm" where
  "add_level P i s =
     (if i = used_levels s
      then s\<lparr>used_levels := used_levels s + 1, data_levels := data_levels s @ [[]],
             pgm_levels := (if int i - int (MinIndexedLevel P) \<ge> int (length (pgm_levels s))
                            then pgm_levels s @ [pgm_empty P] else pgm_levels s)\<rparr>
      else s)"

definition insert_item :: "('k::linorder, 'p) pgm_ops \<Rightarrow> 'k item \<Rightarrow> ('k, 'p) dpgm \<Rightarrow> ('k, 'p) dpgm option" where
  "insert_item P new_item s = do {
     level0 \<leftarrow> get_level s min_level;
     let insertion_point = item_lower_bound level0 (item_first new_item);
     if insertion_point \<noteq> length level0
        \<and> item_first (level0 ! insertion_point) = item_first new_item
        \<and> item_second (level0 ! insertion_point) = item_second new_item
     then Some s
     else do {
       let first_level_max_size = 2 ^ (min_level + 1) - 1;
       if length level0 < first_level_max_size
       then do {
         s' \<leftarrow> set_level s min_level
                (take insertion_point level0 @ new_item # drop insertion_point level0);
         Some (s'\<lparr>used_levels := (if used_levels s = min_level then min_level + 1 else used_levels s)\<rparr>)
       }
       else do {
         (i, slots_required) \<leftarrow> find_target s (min_level + 1) (first_level_max_size + 1);
         pairwise_logarithmic_merge P new_item (i - 1) slots_required insertion_point (add_level P i s)
       }
     }
   }"

definition dpgm_insert :: "('k::linorder, 'p) pgm_ops \<Rightarrow> 'k \<Rightarrow> u64 \<Rightarrow> ('k, 'p) dpgm \<Rightarrow> ('k, 'p) dpgm option" where
  "dpgm_insert P key v s = insert_item P (Item key v) s"

text \<open>
  \<^verbatim>\<open>erase\<close> inserts a tombstone, whose value field is not initialised; \<open>garbage\<close> is that value.
\<close>

definition dpgm_erase :: "('k::linorder, 'p) pgm_ops \<Rightarrow> u64 \<Rightarrow> 'k \<Rightarrow> ('k, 'p) dpgm \<Rightarrow> ('k, 'p) dpgm option" where
  "dpgm_erase P garbage key s =
     insert_item P \<lparr>item_first = key, item_second = garbage, item_flag = True\<rparr> s"

subsection \<open>Construction\<close>

text \<open>
  \<^verbatim>\<open>reserve\<close> does not change a level, but it is called on \<^verbatim>\<open>get_level(i)\<close> for every \<open>i\<close> up to
  \<^verbatim>\<open>max_fully_allocated_level\<close>, which has to exist.
\<close>

definition reserve_levels :: "('k, 'p) dpgm \<Rightarrow> ('k, 'p) dpgm option" where
  "reserve_levels s =
     (if (\<forall>i\<in>set [min_level..<max_fully_allocated_level + 1]. get_level s i \<noteq> None) then Some s else None)"

definition dpgm_default :: "('k, 'p) dpgm option" where
  "dpgm_default =
     reserve_levels \<lparr>used_levels = min_level, data_levels = replicate (init_levels - min_level) [],
                    pgm_levels = []\<rparr>"

text \<open>\<^verbatim>\<open>std::ceil(std::log2(n))\<close> for \<open>n\<close> of at least one.\<close>

fun ceil_log2 :: "nat \<Rightarrow> nat" where
  "ceil_log2 n = (if n \<le> 1 then 0 else Suc (ceil_log2 ((n + 1) div 2)))"

declare ceil_log2.simps [simp del]

definition dpgm_bulk_load :: "('k::linorder, 'p) pgm_ops \<Rightarrow> ('k \<times> u64) list \<Rightarrow> ('k, 'p) dpgm option" where
  "dpgm_bulk_load P kvs =
     (if kvs = [] \<or> ceil_log2 (length kvs) + 1 < min_level then None
      else do {
        let used = ceil_log2 (length kvs) + 1;
        s \<leftarrow> reserve_levels \<lparr>used_levels = used, data_levels = replicate (used - min_level) [],
                              pgm_levels = []\<rparr>;
        let target = map (\<lambda>(k, v). Item k v) kvs;
        s \<leftarrow> set_level s (used - 1) target;
        if used - 1 \<ge> MinIndexedLevel P
        then do {
          p \<leftarrow> pgm_build P target;
          set_pgm P (s\<lparr>pgm_levels := replicate (used - MinIndexedLevel P) (pgm_empty P)\<rparr>) (used - 1) p
        }
        else Some s
      })"

subsection \<open>Lookups\<close>

text \<open>
  The position of a key in a level: \<^verbatim>\<open>std::lower_bound\<close> on the whole level below
  \<^verbatim>\<open>MinIndexedLevel\<close>, the search class on the range of the index from there on.
\<close>

definition level_position ::
    "('k::linorder, 'p) pgm_ops \<Rightarrow> 'k search \<Rightarrow> ('k, 'p) dpgm \<Rightarrow> nat \<Rightarrow> 'k item list \<Rightarrow> 'k \<Rightarrow> nat option" where
  "level_position P search s i level key =
     (if i < MinIndexedLevel P then Some (item_lower_bound level key)
      else do {
        p \<leftarrow> get_pgm P s i;
        approx_pos \<leftarrow> pgm_find P p key;
        it \<leftarrow> search (int (ap_lo approx_pos)) (int (ap_hi approx_pos)) key (int (ap_pos approx_pos))
               (list_reader (map item_first level));
        Some (nat it)
      })"

text \<open>
  Iterators are pairs of a level and a position in it. \<open>find_from\<close> is the body of \<^verbatim>\<open>find\<close> from level
  \<open>i\<close> on; its result \<open>Some None\<close> is \<^verbatim>\<open>end()\<close>.
\<close>

function find_from ::
    "('k::linorder, 'p) pgm_ops \<Rightarrow> 'k search \<Rightarrow> ('k, 'p) dpgm \<Rightarrow> 'k \<Rightarrow> nat \<Rightarrow> (nat \<times> nat) option option" where
  "find_from P search s key i =
     (if i < used_levels s then do {
        level \<leftarrow> get_level s i;
        if level = [] then find_from P search s key (i + 1)
        else do {
          it \<leftarrow> level_position P search s i level key;
          if it \<noteq> length level then do {
            x \<leftarrow> (if it < length level then Some (level ! it) else None);
            if item_first x = key then Some (if deleted x then None else Some (i, it))
            else find_from P search s key (i + 1)
          }
          else find_from P search s key (i + 1)
        }
      }
      else Some None)"
  by pat_completeness auto
termination by (relation "measure (\<lambda>(P, search, s, key, i). used_levels s - i)") auto

declare find_from.simps [simp del]

definition dpgm_find ::
    "('k::linorder, 'p) pgm_ops \<Rightarrow> 'k search \<Rightarrow> 'k \<Rightarrow> ('k, 'p) dpgm \<Rightarrow> (nat \<times> nat) option option" where
  "dpgm_find P search key s = find_from P search s key min_level"

definition deref :: "('k, 'p) dpgm \<Rightarrow> nat \<times> nat \<Rightarrow> 'k item option" where
  "deref s it = do {
     level \<leftarrow> get_level s (fst it);
     if snd it < length level then Some (level ! snd it) else None
   }"

definition skip_deleted :: "'k item list \<Rightarrow> nat \<Rightarrow> nat" where
  "skip_deleted level it = it + length (takeWhile deleted (drop it level))"

definition skip_below :: "'k::linorder item list \<Rightarrow> 'k \<Rightarrow> nat \<Rightarrow> nat" where
  "skip_below level key it = it + length (takeWhile (\<lambda>x. item_first x < key) (drop it level))"

text \<open>
  The two loops of \<^verbatim>\<open>lower_bound\<close>: one iterator per level with an item that is not below the key,
  and the first of those with the smallest key.
\<close>

function lower_bound_from ::
    "('k::linorder, 'p) pgm_ops \<Rightarrow> 'k search \<Rightarrow> ('k, 'p) dpgm \<Rightarrow> 'k \<Rightarrow> nat
      \<Rightarrow> (nat \<times> nat) option \<Rightarrow> (nat \<times> nat) list \<Rightarrow> ((nat \<times> nat) option \<times> (nat \<times> nat) list) option" where
  "lower_bound_from P search s key i lo pairs =
     (if i < used_levels s then do {
        level \<leftarrow> get_level s i;
        if level = [] then lower_bound_from P search s key (i + 1) lo pairs
        else do {
          pos \<leftarrow> level_position P search s i level key;
          let it = (if i < MinIndexedLevel P then skip_deleted level pos else skip_below level key pos);
          if it \<noteq> length level then do {
            x \<leftarrow> deref s (i, it);
            smaller \<leftarrow> (case lo of None \<Rightarrow> Some True
                        | Some l \<Rightarrow> map_option (\<lambda>y. item_first x < item_first y) (deref s l));
            lower_bound_from P search s key (i + 1) (if smaller then Some (i, it) else lo)
              (pairs @ [(i, it)])
          }
          else lower_bound_from P search s key (i + 1) lo pairs
        }
      }
      else Some (lo, pairs))"
  by pat_completeness auto
termination by (relation "measure (\<lambda>(P, search, s, key, i, _). used_levels s - i)") auto

declare lower_bound_from.simps [simp del]

subsection \<open>Iterators\<close>

record dpgm_iterator =
  iter_it :: "(nat \<times> nat) option"
  iter_level :: nat
  initial_pairs :: "(nat \<times> nat) list"
  iter_queue :: "(nat \<times> nat) list"

definition dpgm_end :: dpgm_iterator where
  "dpgm_end = \<lparr>iter_it = None, iter_level = 255, initial_pairs = [], iter_queue = []\<rparr>"

definition dpgm_lower_bound ::
    "('k::linorder, 'p) pgm_ops \<Rightarrow> 'k search \<Rightarrow> 'k \<Rightarrow> ('k, 'p) dpgm \<Rightarrow> dpgm_iterator option" where
  "dpgm_lower_bound P search key s = do {
     (lo, pairs) \<leftarrow> lower_bound_from P search s key min_level None [];
     Some (case lo of
         None \<Rightarrow> dpgm_end
       | Some l \<Rightarrow> \<lparr>iter_it = Some l, iter_level = used_levels s, initial_pairs = pairs, iter_queue = []\<rparr>)
   }"

text \<open>
  The top of the priority queue: the smallest key, and among equal keys the lowest level.
\<close>

fun queue_top :: "('k::linorder, 'p) dpgm \<Rightarrow> nat \<times> nat \<Rightarrow> (nat \<times> nat) list \<Rightarrow> (nat \<times> nat) option" where
  "queue_top s p [] = Some p"
| "queue_top s p (q # qs) = do {
     x \<leftarrow> deref s p;
     y \<leftarrow> deref s q;
     queue_top s (if item_first y < item_first x \<or> item_first x = item_first y \<and> fst q < fst p
                  then q else p) qs
   }"

definition advance_queue :: "('k::linorder, 'p) dpgm \<Rightarrow> dpgm_iterator \<Rightarrow> dpgm_iterator option" where
  "advance_queue s iter =
     (case iter_queue iter of
        [] \<Rightarrow> Some dpgm_end
      | p # ps \<Rightarrow> do {
          top \<leftarrow> queue_top s p ps;
          level \<leftarrow> get_level s (fst top);
          let queue = remove1 top (p # ps);
          let queue = (if snd top + 1 \<noteq> length level then queue @ [(fst top, snd top + 1)] else queue);
          Some (iter\<lparr>iter_it := Some top, iter_queue := queue\<rparr>)
        })"

text \<open>
  The loop of \<^verbatim>\<open>lazy_initialize_queue\<close> over the levels from \<open>i\<close> on. It starts at the level stored in
  the iterator, which is \<open>0\<close> for the iterators that \<^verbatim>\<open>find\<close> returns.
\<close>

function lazy_pairs ::
    "('k::linorder, 'p) pgm_ops \<Rightarrow> 'k search \<Rightarrow> ('k, 'p) dpgm \<Rightarrow> 'k \<Rightarrow> nat \<Rightarrow> (nat \<times> nat) list
      \<Rightarrow> (nat \<times> nat) list option" where
  "lazy_pairs P search s key i pairs =
     (if i < used_levels s then do {
        level \<leftarrow> get_level s i;
        if level = [] then lazy_pairs P search s key (i + 1) pairs
        else do {
          pos \<leftarrow> level_position P search s i level key;
          let it = skip_below level key pos;
          lazy_pairs P search s key (i + 1) (if it \<noteq> length level then pairs @ [(i, it)] else pairs)
        }
      }
      else Some pairs)"
  by pat_completeness auto
termination by (relation "measure (\<lambda>(P, search, s, key, i, _). used_levels s - i)") auto

declare lazy_pairs.simps [simp del]

definition lazy_initialize_queue ::
    "('k::linorder, 'p) pgm_ops \<Rightarrow> 'k search \<Rightarrow> ('k, 'p) dpgm \<Rightarrow> dpgm_iterator \<Rightarrow> dpgm_iterator option" where
  "lazy_initialize_queue P search s iter =
     (if iter_level iter = 255 then Some iter
      else do {
        it \<leftarrow> iter_it iter;
        x \<leftarrow> deref s it;
        pairs \<leftarrow> lazy_pairs P search s (item_first x) (iter_level iter) (initial_pairs iter);
        iter' \<leftarrow> advance_queue s (iter\<lparr>initial_pairs := pairs, iter_queue := pairs\<rparr>);
        Some (iter'\<lparr>iter_level := 255\<rparr>)
      })"

definition iter_next ::
    "('k::linorder, 'p) pgm_ops \<Rightarrow> 'k search \<Rightarrow> ('k, 'p) dpgm \<Rightarrow> dpgm_iterator \<Rightarrow> dpgm_iterator option" where
  "iter_next P search s iter = Option.bind (lazy_initialize_queue P search s iter) (advance_queue s)"

text \<open>The iterator that \<^verbatim>\<open>find\<close> builds for a position, and \<^verbatim>\<open>count\<close>.\<close>

definition find_iterator :: "(nat \<times> nat) option \<Rightarrow> dpgm_iterator" where
  "find_iterator r =
     (case r of None \<Rightarrow> dpgm_end
      | Some l \<Rightarrow> \<lparr>iter_it = Some l, iter_level = 0, initial_pairs = [], iter_queue = []\<rparr>)"

definition dpgm_count ::
    "('k::linorder, 'p) pgm_ops \<Rightarrow> 'k search \<Rightarrow> 'k \<Rightarrow> ('k, 'p) dpgm \<Rightarrow> nat option" where
  "dpgm_count P search key s =
     map_option (\<lambda>r. if iter_it (find_iterator r) = iter_it dpgm_end then 0 else 1)
       (dpgm_find P search key s)"

subsection \<open>The wrapper\<close>

definition DynamicPGM_Build :: "('k::linorder, 'p) pgm_ops \<Rightarrow> ('k \<times> u64) list \<Rightarrow> ('k, 'p) dpgm option" where
  "DynamicPGM_Build P data = dpgm_bulk_load P data"

definition DynamicPGM_EqualityLookup ::
    "('k::linorder, 'p) pgm_ops \<Rightarrow> 'k search \<Rightarrow> ('k, 'p) dpgm \<Rightarrow> 'k \<Rightarrow> u64 option" where
  "DynamicPGM_EqualityLookup P search s lookup_key = do {
     it \<leftarrow> dpgm_find P search lookup_key s;
     case it of None \<Rightarrow> Some OVERFLOW | Some l \<Rightarrow> map_option item_second (deref s l)
   }"

partial_function (option) range_loop ::
    "('k::linorder, 'p) pgm_ops \<Rightarrow> 'k search \<Rightarrow> ('k, 'p) dpgm \<Rightarrow> 'k \<Rightarrow> dpgm_iterator \<Rightarrow> u64 \<Rightarrow> u64 option" where
  "range_loop P search s upper_key it result =
     (case iter_it it of
        None \<Rightarrow> Some result
      | Some l \<Rightarrow> Option.bind (deref s l) (\<lambda>x.
          if item_first x \<le> upper_key
          then Option.bind (iter_next P search s it)
                 (\<lambda>it'. range_loop P search s upper_key it' (result + item_second x))
          else Some result))"

definition DynamicPGM_RangeQuery ::
    "('k::linorder, 'p) pgm_ops \<Rightarrow> 'k search \<Rightarrow> ('k, 'p) dpgm \<Rightarrow> 'k \<Rightarrow> 'k \<Rightarrow> u64 option" where
  "DynamicPGM_RangeQuery P search s lower_key upper_key = do {
     it \<leftarrow> dpgm_lower_bound P search lower_key s;
     range_loop P search s upper_key it 0
   }"

definition DynamicPGM_Insert ::
    "('k::linorder, 'p) pgm_ops \<Rightarrow> 'k \<times> u64 \<Rightarrow> ('k, 'p) dpgm \<Rightarrow> ('k, 'p) dpgm option" where
  "DynamicPGM_Insert P data s = dpgm_insert P (fst data) (snd data) s"

end
