(* ===== verification/Dynamic_Pgm_Merge.thy ===== *)
theory Dynamic_Pgm_Merge
  imports Dynamic_Pgm
begin

text \<open>
  Correctness of the merges of the dynamic PGM-index: what \<open>merge\<close> keeps of its arguments, and that
  the pairwise merge of the full levels into an empty one never leaves its buffers.
\<close>

subsection \<open>Merging two levels\<close>

abbreviation item_keys :: "'k item list \<Rightarrow> 'k list" where
  "item_keys \<equiv> map item_first"

abbreviation sorted_items :: "'k::linorder item list \<Rightarrow> bool" where
  "sorted_items xs \<equiv> sorted (item_keys xs)"

lemma merge_Nil2 [simp]: "merge skip xs [] = xs"
  by (cases xs) simp_all

lemma set_merge: "set (merge skip xs ys) \<subseteq> set xs \<union> set ys"
  by (induction skip xs ys rule: merge.induct) auto

lemma length_merge: "length (merge skip xs ys) \<le> length xs + length ys"
  by (induction skip xs ys rule: merge.induct) auto

lemma sorted_merge:
  "sorted_items xs \<Longrightarrow> sorted_items ys \<Longrightarrow> sorted_items (merge skip xs ys)"
proof (induction skip xs ys rule: merge.induct)
  case (3 skip x xs y ys)
  have keys: "\<And>sk zs ws z. z \<in> set (merge sk zs ws) \<Longrightarrow> z \<in> set zs \<or> z \<in> set ws"
    using set_merge by blast
  show ?case using 3 by (auto dest!: keys) (meson less_imp_le order.trans)+
qed auto

text \<open>With no key on both sides nothing is dropped.\<close>

lemma mset_merge:
  "set (item_keys xs) \<inter> set (item_keys ys) = {} \<Longrightarrow> mset (merge skip xs ys) = mset xs + mset ys"
  by (induction skip xs ys rule: merge.induct) auto

text \<open>The newest item of a key: the first one in the order of the levels.\<close>

definition newest :: "'k item list \<Rightarrow> 'k \<Rightarrow> 'k item option" where
  "newest xs k = List.find (\<lambda>x. item_first x = k) xs"

lemma newest_simps [simp]:
  "newest [] k = None"
  "newest (x # xs) k = (if item_first x = k then Some x else newest xs k)"
  by (simp_all add: newest_def)

lemma newest_append:
  "newest (xs @ ys) k = (case newest xs k of None \<Rightarrow> newest ys k | Some x \<Rightarrow> Some x)"
  by (induction xs) auto

lemma newest_None: "newest xs k = None \<longleftrightarrow> k \<notin> set (item_keys xs)"
  by (induction xs) auto

lemma newest_above:
  assumes "sorted_items (x # xs)" and "k < item_first x"
  shows "newest (x # xs) k = None"
  unfolding newest_None using assms by (auto simp: less_le_not_le dest: leD)

text \<open>Without tombstones on the left, the merged level gives the left side precedence.\<close>

lemma newest_merge:
  assumes "sorted_items xs" and "sorted_items ys" and "\<not> skip \<or> (\<forall>x\<in>set xs. \<not> deleted x)"
  shows "newest (merge skip xs ys) k = newest (xs @ ys) k"
  using assms
proof (induction skip xs ys rule: merge.induct)
  case (3 skip x xs y ys)
  have "newest (x # xs) k = None" if "item_first y < item_first x" "item_first y = k"
    using newest_above [OF 3(5)] that by simp
  then show ?case using 3 by (auto simp: newest_append split: option.splits)
qed (auto simp: newest_append split: option.splits)

subsection \<open>Buffers\<close>

definition holds :: "'k buffer \<Rightarrow> 'k item list \<Rightarrow> bool" where
  "holds buf xs \<longleftrightarrow> length xs \<le> length buf \<and> take (length xs) buf = map Some xs"

lemma those_map_Some [simp]: "those (map Some xs) = Some xs"
  by (induction xs) auto

lemma read_holds: "holds buf xs \<Longrightarrow> read_buf buf (length xs) = Some xs"
  by (simp add: holds_def read_buf_def)

lemma write_holds:
  assumes "length xs \<le> length buf"
  shows "\<exists>buf'. write_buf buf xs = Some buf' \<and> holds buf' xs \<and> length buf' = length buf"
  using assms by (simp add: write_buf_def holds_def)

lemma resize_holds: "holds buf xs \<Longrightarrow> those (resize_buf buf (length xs)) = Some xs"
  by (simp add: holds_def resize_buf_def)

subsection \<open>Access to the levels\<close>

lemma get_level_nth:
  "min_level \<le> i \<Longrightarrow> i - min_level < length (data_levels s) \<Longrightarrow>
     get_level s i = Some (data_levels s ! (i - min_level))"
  by (simp add: get_level_def)

lemma clear_level_nth:
  assumes "min_level \<le> i" and "i - min_level < length (data_levels s)"
    and "MinIndexedLevel P \<le> i \<Longrightarrow> i - MinIndexedLevel P < length (pgm_levels s)"
  shows "clear_level P s i = Some (s\<lparr>data_levels := (data_levels s)[i - min_level := []],
     pgm_levels := (if MinIndexedLevel P \<le> i
                    then (pgm_levels s)[i - MinIndexedLevel P := pgm_empty P] else pgm_levels s)\<rparr>)"
  using assms by (simp add: clear_level_def set_level_def set_pgm_def)

text \<open>The levels from \<open>i\<close> up to \<open>limit\<close>, merged one after the other into \<open>acc\<close>.\<close>

definition merged :: "nat \<Rightarrow> 'k::linorder item list list \<Rightarrow> nat \<Rightarrow> nat \<Rightarrow> 'k item list \<Rightarrow> 'k item list" where
  "merged used D i limit acc =
     fold (\<lambda>j acc. merge (int j = int used - 1) acc (D ! (j - min_level))) [i..<limit + 1] acc"

definition levels_size :: "'k item list list \<Rightarrow> nat \<Rightarrow> nat \<Rightarrow> nat" where
  "levels_size D i limit = (\<Sum>j\<leftarrow>[i..<limit + 1]. length (D ! (j - min_level)))"

lemma merged_step:
  "i \<le> limit \<Longrightarrow> merged used D i limit acc =
     merged used D (i + 1) limit (merge (int i = int used - 1) acc (D ! (i - min_level)))"
  by (simp add: merged_def upt_conv_Cons del: upt_Suc)

lemma levels_size_step:
  "i \<le> limit \<Longrightarrow> levels_size D i limit = length (D ! (i - min_level)) + levels_size D (i + 1) limit"
  by (simp add: levels_size_def upt_conv_Cons del: upt_Suc)

lemma merged_stop: "limit < i \<Longrightarrow> merged used D i limit acc = acc"
  by (simp add: merged_def)

lemma levels_size_stop: "limit < i \<Longrightarrow> levels_size D i limit = 0"
  by (simp add: levels_size_def)

lemma merged_cong:
  assumes "\<And>j. i \<le> j \<Longrightarrow> D ! (j - min_level) = E ! (j - min_level)"
  shows "merged used D i limit acc = merged used E i limit acc"
    and "levels_size D i limit = levels_size E i limit"
  using assms by (auto simp: merged_def levels_size_def simp del: upt_Suc
      intro!: fold_cong arg_cong [where f = sum_list])

text \<open>
  A vector whose entries for the levels \<open>i\<close> to \<open>limit\<close> are overwritten, where entry \<open>0\<close> is that of
  level \<open>c\<close>; and what clearing those levels leaves of the state.
\<close>

definition blank :: "'a \<Rightarrow> nat \<Rightarrow> nat \<Rightarrow> nat \<Rightarrow> 'a list \<Rightarrow> 'a list" where
  "blank z c i limit xs =
     map (\<lambda>j. if i \<le> j + c \<and> j + c \<le> limit then z else xs ! j) [0..<length xs]"

lemma length_blank [simp]: "length (blank z c i limit xs) = length xs"
  by (simp add: blank_def)

lemma nth_blank [simp]:
  "j < length xs \<Longrightarrow> blank z c i limit xs ! j = (if i \<le> j + c \<and> j + c \<le> limit then z else xs ! j)"
  by (simp add: blank_def)

lemma blank_stop [simp]: "limit < i \<Longrightarrow> blank z c i limit xs = xs"
  by (rule nth_equalityI) auto

lemma blank_step:
  assumes "i \<le> limit" and "c \<le> i"
  shows "blank z c (i + 1) limit (xs[i - c := z]) = blank z c i limit xs"
  by (rule nth_equalityI) (use assms in \<open>auto simp: nth_list_update\<close>)

lemma blank_step_below: "i < c \<Longrightarrow> blank z c (i + 1) limit xs = blank z c i limit xs"
  by (rule nth_equalityI) auto

definition cleared :: "('k, 'p) pgm_ops \<Rightarrow> nat \<Rightarrow> nat \<Rightarrow> ('k, 'p) dpgm \<Rightarrow> ('k, 'p) dpgm" where
  "cleared P i limit s = s\<lparr>
     data_levels := blank [] min_level i limit (data_levels s),
     pgm_levels := blank (pgm_empty P) (MinIndexedLevel P) i limit (pgm_levels s)\<rparr>"

lemma cleared_stop: "limit < i \<Longrightarrow> cleared P i limit s = s"
  by (simp add: cleared_def)

lemma cleared_step:
  assumes "i \<le> limit" and "min_level \<le> i"
  shows "cleared P (i + 1) limit (s\<lparr>data_levels := (data_levels s)[i - min_level := []],
     pgm_levels := (if MinIndexedLevel P \<le> i
                    then (pgm_levels s)[i - MinIndexedLevel P := pgm_empty P] else pgm_levels s)\<rparr>)
     = cleared P i limit s"
proof (cases "MinIndexedLevel P \<le> i")
  case True
  then show ?thesis unfolding cleared_def
    by (simp add: blank_step [OF assms, simplified] blank_step [OF assms(1) True, simplified])
next
  case False
  then have "i < MinIndexedLevel P" by simp
  then show ?thesis
    unfolding cleared_def by (simp add: blank_step [OF assms, simplified] blank_step_below [simplified])
qed

subsection \<open>The pairwise merge\<close>

lemma odd_mod_flip: "m < 2 \<Longrightarrow> Suc d mod 2 = m \<longleftrightarrow> d mod 2 \<noteq> m"
  by presburger

text \<open>
  The loop keeps the merged items in one of the two buffers; which one depends on the parity of
  the level, so that after the last level below an empty target it is the second one.
\<close>

lemma merge_loop_result:
  assumes "md < 2" and "min_level < i" and "limit - min_level < length (data_levels s)"
    and "\<forall>j. MinIndexedLevel P \<le> j \<and> j \<le> limit \<longrightarrow> j - MinIndexedLevel P < length (pgm_levels s)"
    and "holds (if (i - min_level) mod 2 = md then tmp_a else tmp_b) acc"
    and "length acc + levels_size (data_levels s) i limit \<le> length tmp_a"
    and "length acc + levels_size (data_levels s) i limit \<le> length tmp_b"
  shows "\<exists>a b. merge_loop P md limit i tmp_a tmp_b (length acc) s =
      Some (a, b, length (merged (used_levels s) (data_levels s) i limit acc), cleared P i limit s) \<and>
      holds (if (max i (limit + 1) - min_level) mod 2 = md then a else b)
        (merged (used_levels s) (data_levels s) i limit acc) \<and>
      length a = length tmp_a \<and> length b = length tmp_b"
  using assms
proof (induction "Suc limit - i" arbitrary: i tmp_a tmp_b acc s)
  case 0
  then show ?case
    by (auto simp: merge_loop.simps [of P md limit i] merged_stop cleared_stop max_def)
next
  case (Suc n)
  then have le: "i \<le> limit" by simp
  let ?lev = "data_levels s ! (i - min_level)"
  let ?out = "merge (int i = int (used_levels s) - 1) acc ?lev"
  let ?alt = "(i - min_level) mod 2 = md"
  let ?s = "s\<lparr>data_levels := (data_levels s)[i - min_level := []],
     pgm_levels := (if MinIndexedLevel P \<le> i
                    then (pgm_levels s)[i - MinIndexedLevel P := pgm_empty P] else pgm_levels s)\<rparr>"
  have level: "get_level s i = Some ?lev" using Suc.prems le by (intro get_level_nth) auto
  have clear: "clear_level P s i = Some ?s" using Suc.prems le by (intro clear_level_nth) auto
  have size: "length ?out + levels_size (data_levels s) (i + 1) limit
      \<le> length acc + levels_size (data_levels s) i limit"
    using length_merge [of "int i = int (used_levels s) - 1" acc ?lev]
    by (simp add: levels_size_step [OF le])
  then have fits: "length ?out \<le> length (if ?alt then tmp_b else tmp_a)"
    using Suc.prems(6,7) by (cases ?alt; simp)
  obtain nb where nb: "write_buf (if ?alt then tmp_b else tmp_a) ?out = Some nb" "holds nb ?out"
      "length nb = length (if ?alt then tmp_b else tmp_a)"
    using write_holds [OF fits] by auto
  have "data_levels ?s ! (j - min_level) = data_levels s ! (j - min_level)" if "i + 1 \<le> j" for j
    using that Suc.prems(2) by simp
  from merged_cong [OF this]
  have same: "levels_size (data_levels ?s) (i + 1) limit = levels_size (data_levels s) (i + 1) limit"
    "merged (used_levels s) (data_levels ?s) (i + 1) limit x = merged (used_levels s) (data_levels s) (i + 1) limit x"
    for x by auto
  have par: "(i + 1 - min_level) mod 2 = md \<longleftrightarrow> \<not> ?alt"
    using odd_mod_flip [OF Suc.prems(1), of "i - min_level"] Suc.prems(2) by (simp add: Suc_diff_le)
  have step: "merge_loop P md limit i tmp_a tmp_b (length acc) s =
      merge_loop P md limit (i + 1) (if ?alt then tmp_a else nb) (if ?alt then nb else tmp_b) (length ?out) ?s"
    using le level clear nb(1) read_holds [OF Suc.prems(5)] by (simp add: merge_loop.simps [of P md limit i])
  have "\<exists>a b. merge_loop P md limit (i + 1) (if ?alt then tmp_a else nb) (if ?alt then nb else tmp_b)
        (length ?out) ?s =
      Some (a, b, length (merged (used_levels ?s) (data_levels ?s) (i + 1) limit ?out), cleared P (i + 1) limit ?s) \<and>
      holds (if (max (i + 1) (limit + 1) - min_level) mod 2 = md then a else b)
        (merged (used_levels ?s) (data_levels ?s) (i + 1) limit ?out) \<and>
      length a = length (if ?alt then tmp_a else nb) \<and> length b = length (if ?alt then nb else tmp_b)"
  proof (rule Suc.hyps(1))
    show "holds (if (i + 1 - min_level) mod 2 = md then if ?alt then tmp_a else nb
        else if ?alt then nb else tmp_b) ?out"
      using nb(2) par by simp
  qed (use Suc.hyps(2) Suc.prems size nb(3) same(1) in auto)
  then show ?case
    unfolding step same cleared_step [OF le less_imp_le [OF Suc.prems(2)]]
    using le same(2) nb(3) by (auto simp: merged_step [OF le] max_def split: if_splits)
qed

text \<open>The last turn of the loop, apart from the others.\<close>

lemma merge_loop_last:
  "i \<le> Suc limit \<Longrightarrow> merge_loop P md (Suc limit) i a b n s =
     Option.bind (merge_loop P md limit i a b n s)
       (\<lambda>(a, b, n, s). merge_loop P md (Suc limit) (Suc limit) a b n s)"
proof (induction "Suc limit - i" arbitrary: i a b n s)
  case 0
  then have "i = Suc limit" by simp
  then show ?case by (simp add: merge_loop.simps [of P md limit "Suc limit"])
next
  case (Suc m)
  then have le: "i \<le> limit" by simp
  have m: "m = Suc limit - (i + 1)" "i + 1 \<le> Suc limit" using Suc.hyps(2) by simp_all
  show ?case
    unfolding merge_loop.simps [of P md "Suc limit" i] merge_loop.simps [of P md limit i]
    using le by (simp add: Let_def Suc.hyps(1) [OF m, simplified] cong: Option.bind_cong)
qed

end
