(* ===== verification/Dynamic_Pgm_Insert.thy ===== *)
theory Dynamic_Pgm_Insert
  imports Dynamic_Pgm_Merge
begin

text \<open>
  Insertion into the dynamic PGM-index: the invariant of the levels, what each path of
  \<open>insert_item\<close> does to them, and that inserting a fresh key always succeeds and adds exactly that
  item.
\<close>

subsection \<open>The merged levels\<close>

lemma drop_take_step:
  "i < m \<Longrightarrow> m \<le> length D \<Longrightarrow> drop i (take m D) = D ! i # drop (Suc i) (take m D)"
  by (metis Cons_nth_drop_Suc length_take min.absorb2 nth_take)

definition between :: "'k item list list \<Rightarrow> nat \<Rightarrow> nat \<Rightarrow> 'k item list" where
  "between D i limit = concat (drop (i - min_level) (take (limit + 1 - min_level) D))"

lemma between_step:
  assumes "i \<le> limit" and "min_level \<le> i" and "limit + 1 - min_level \<le> length D"
  shows "between D i limit = D ! (i - min_level) @ between D (i + 1) limit"
proof -
  have "i - min_level < limit + 1 - min_level" using assms(1,2) by simp
  from drop_take_step [OF this assms(3)] show ?thesis
    using assms(2) by (simp add: between_def Suc_diff_le)
qed

lemma between_stop: "limit < i \<Longrightarrow> between D i limit = []"
  by (simp add: between_def)

lemma levels_size_between:
  assumes "min_level \<le> i" and "limit + 1 - min_level \<le> length D"
  shows "levels_size D i limit = length (between D i limit)"
  using assms
proof (induction "Suc limit - i" arbitrary: i)
  case 0
  then show ?case by (simp add: levels_size_stop between_stop)
next
  case (Suc n)
  then have "i \<le> limit" by simp
  moreover have "levels_size D (i + 1) limit = length (between D (i + 1) limit)"
    by (rule Suc.hyps(1)) (use Suc in auto)
  ultimately show ?case
    using between_step [OF _ Suc.prems] by (simp add: levels_size_step)
qed

lemma set_merged:
  assumes "min_level \<le> i" and "limit + 1 - min_level \<le> length D"
  shows "set (merged used D i limit acc) \<subseteq> set acc \<union> set (between D i limit)"
  using assms
proof (induction "Suc limit - i" arbitrary: i acc)
  case 0
  then show ?case by (simp add: merged_stop)
next
  case (Suc n)
  then have le: "i \<le> limit" by simp
  let ?m = "merge (int i = int used - 1) acc (D ! (i - min_level))"
  have "set (merged used D (i + 1) limit ?m) \<subseteq> set ?m \<union> set (between D (i + 1) limit)"
    by (rule Suc.hyps(1)) (use Suc in auto)
  also have "\<dots> \<subseteq> (set acc \<union> set (D ! (i - min_level))) \<union> set (between D (i + 1) limit)"
    by (rule Un_mono [OF set_merge subset_refl])
  finally show ?case
    unfolding merged_step [OF le] between_step [OF le Suc.prems] set_append Un_assoc .
qed

lemma sorted_merged:
  assumes "min_level \<le> i" and "limit + 1 - min_level \<le> length D"
    and "sorted_items acc" and "\<forall>xs\<in>set D. sorted_items xs"
  shows "sorted_items (merged used D i limit acc)"
  using assms
proof (induction "Suc limit - i" arbitrary: i acc)
  case 0
  then show ?case by (simp add: merged_stop)
next
  case (Suc n)
  then have le: "i \<le> limit" by simp
  let ?m = "merge (int i = int used - 1) acc (D ! (i - min_level))"
  have "D ! (i - min_level) \<in> set D" using Suc.prems(1,2) le by (intro nth_mem) linarith
  then have "sorted_items ?m" using Suc.prems(3,4) by (intro sorted_merge) auto
  then have "sorted_items (merged used D (i + 1) limit ?m)"
    by (intro Suc.hyps(1)) (use Suc in auto)
  then show ?case unfolding merged_step [OF le] .
qed

lemma length_merged: "length (merged used D i limit acc) \<le> length acc + levels_size D i limit"
proof (induction "Suc limit - i" arbitrary: i acc)
  case 0
  then show ?case by (simp add: merged_stop)
next
  case (Suc n)
  then have le: "i \<le> limit" by simp
  let ?m = "merge (int i = int used - 1) acc (D ! (i - min_level))"
  have "length (merged used D (i + 1) limit ?m) \<le> length ?m + levels_size D (i + 1) limit"
    by (rule Suc.hyps(1)) (use Suc.hyps(2) in simp)
  also have "\<dots> \<le> length acc + levels_size D i limit"
    using length_merge [of "int i = int used - 1" acc "D ! (i - min_level)"]
    by (simp add: levels_size_step [OF le])
  finally show ?case unfolding merged_step [OF le] .
qed

text \<open>Fresh keys: the merged level has all items of its parts.\<close>

lemma mset_merged:
  assumes "min_level \<le> i" and "limit + 1 - min_level \<le> length D"
    and "distinct (item_keys (acc @ between D i limit))"
  shows "mset (merged used D i limit acc) = mset acc + mset (between D i limit)"
  using assms
proof (induction "Suc limit - i" arbitrary: i acc)
  case 0
  then show ?case by (simp add: merged_stop between_stop)
next
  case (Suc n)
  then have le: "i \<le> limit" by simp
  let ?lev = "D ! (i - min_level)"
  let ?m = "merge (int i = int used - 1) acc ?lev"
  note step = between_step [OF le Suc.prems(1,2)]
  have m: "mset ?m = mset acc + mset ?lev"
    using Suc.prems(3) unfolding step by (intro mset_merge) auto
  have "mset (item_keys (?m @ between D (i + 1) limit)) = mset (item_keys (acc @ between D i limit))"
    unfolding step by (simp add: m)
  then have "distinct (item_keys (?m @ between D (i + 1) limit))"
    using Suc.prems(3) mset_eq_imp_distinct_iff by blast
  then have "mset (merged used D (i + 1) limit ?m) = mset ?m + mset (between D (i + 1) limit)"
    by (intro Suc.hyps(1)) (use Suc in auto)
  then show ?case unfolding merged_step [OF le] step by (simp add: m)
qed

text \<open>Last write wins: without tombstones the merged level answers for its parts in order.\<close>

lemma newest_merged:
  assumes "min_level \<le> i" and "limit + 1 - min_level \<le> length D"
    and "sorted_items acc" and "\<forall>xs\<in>set D. sorted_items xs"
    and "\<forall>x\<in>set acc \<union> set (between D i limit). \<not> deleted x"
  shows "newest (merged used D i limit acc) k = newest (acc @ between D i limit) k"
  using assms
proof (induction "Suc limit - i" arbitrary: i acc)
  case 0
  then show ?case by (simp add: merged_stop between_stop)
next
  case (Suc n)
  then have le: "i \<le> limit" by simp
  let ?lev = "D ! (i - min_level)"
  let ?m = "merge (int i = int used - 1) acc ?lev"
  note step = between_step [OF le Suc.prems(1,2)]
  have lev: "sorted_items ?lev" using Suc.prems(1,2,4) le by (auto intro!: nth_mem)
  have m: "newest ?m k = newest (acc @ ?lev) k"
    using Suc.prems(3,5) lev by (intro newest_merge) auto
  have "newest (merged used D (i + 1) limit ?m) k = newest (?m @ between D (i + 1) limit) k"
  proof (rule Suc.hyps(1))
    show "sorted_items ?m" using Suc.prems(3) lev by (rule sorted_merge)
    show "\<forall>x\<in>set ?m \<union> set (between D (i + 1) limit). \<not> deleted x"
      using set_merge [of "int i = int used - 1" acc ?lev] Suc.prems(5) unfolding step by auto
  qed (use Suc in auto)
  then show ?case unfolding merged_step [OF le] step
    by (simp add: newest_append m split: option.split)
qed

subsection \<open>The invariant\<close>

text \<open>
  What every state of the index satisfies: the levels are sorted, the buffer is not over-full, the
  levels that are not used are empty, and the index of every large level is the one that was built
  on it.
\<close>

definition dpgm_wf :: "('k::linorder, 'p) pgm_ops \<Rightarrow> ('k, 'p) dpgm \<Rightarrow> bool" where
  "dpgm_wf P s \<longleftrightarrow>
     min_level < MinIndexedLevel P \<and> min_level < used_levels s
     \<and> used_levels s \<le> min_level + length (data_levels s)
     \<and> (\<forall>xs\<in>set (data_levels s). sorted_items xs)
     \<and> length (data_levels s ! 0) < 2 ^ (min_level + 1)
     \<and> (\<forall>j<length (data_levels s). used_levels s \<le> j + min_level \<longrightarrow> data_levels s ! j = [])
     \<and> (\<forall>i. MinIndexedLevel P \<le> i \<and> i < used_levels s \<longrightarrow>
          i - MinIndexedLevel P < length (pgm_levels s)
          \<and> (data_levels s ! (i - min_level) \<noteq> [] \<longrightarrow>
               pgm_build P (data_levels s ! (i - min_level)) = Some (pgm_levels s ! (i - MinIndexedLevel P))))"

text \<open>
  How full the levels are while no key is inserted twice: a used level above the buffer is empty or
  more than half full, and the last one is not empty.
\<close>

definition level_fill :: "nat \<Rightarrow> nat \<Rightarrow> bool" where
  "level_fill i n \<longleftrightarrow> n = 0 \<or> 2 ^ (i - 1) < n \<and> n \<le> 2 ^ i"

definition dpgm_fill :: "('k, 'p) dpgm \<Rightarrow> bool" where
  "dpgm_fill s \<longleftrightarrow>
     (\<forall>i. min_level < i \<and> i < used_levels s \<longrightarrow> level_fill i (length (data_levels s ! (i - min_level))))
     \<and> (min_level + 1 < used_levels s \<longrightarrow> data_levels s ! (used_levels s - 1 - min_level) \<noteq> [])"

abbreviation dpgm_items :: "('k, 'p) dpgm \<Rightarrow> 'k item multiset" where
  "dpgm_items s \<equiv> mset (concat (data_levels s))"

text \<open>
  What the dynamic index needs of the index of a level, as the documentation of the PGM-index states it: built on a sorted level of at most \<open>N\<close> items with keys
  of \<open>K\<close>, it gives every key a range in the level, which starts at or before the position of the key and reaches it when
  the key is present.
\<close>

definition range_ok :: "'k::linorder item list \<Rightarrow> 'k \<Rightarrow> ApproxPos \<Rightarrow> bool" where
  "range_ok xs k ap \<longleftrightarrow> ap_lo ap \<le> ap_pos ap \<and> ap_pos ap \<le> ap_hi ap \<and> ap_hi ap \<le> length xs
     \<and> ap_lo ap \<le> item_lower_bound xs k \<and> (k \<in> set (item_keys xs) \<longrightarrow> item_lower_bound xs k \<le> ap_hi ap)"

definition pgm_covers :: "('k::linorder, 'p) pgm_ops \<Rightarrow> 'k set \<Rightarrow> nat \<Rightarrow> bool" where
  "pgm_covers P K N \<longleftrightarrow> N \<le> 2 ^ 53 \<and> (\<forall>xs. sorted_items xs \<and> xs \<noteq> [] \<and> set (item_keys xs) \<subseteq> K \<and> length xs \<le> N \<longrightarrow>
     (\<exists>p. pgm_build P xs = Some p \<and> (\<forall>k. \<exists>ap. pgm_find P p k = Some ap \<and> range_ok xs k ap)))"

lemma pgm_coversD:
  assumes "pgm_covers P K N" and "sorted_items xs" and "xs \<noteq> []" and "set (item_keys xs) \<subseteq> K" and "length xs \<le> N"
  shows "\<exists>p. pgm_build P xs = Some p \<and> (\<forall>k. \<exists>ap. pgm_find P p k = Some ap \<and> range_ok xs k ap)"
  using assms unfolding pgm_covers_def by blast

lemma pgm_covers_bound: "pgm_covers P K N \<Longrightarrow> N \<le> 2 ^ 53"
  by (simp add: pgm_covers_def)

definition dpgm_bounded :: "'k set \<Rightarrow> nat \<Rightarrow> ('k, 'p) dpgm \<Rightarrow> bool" where
  "dpgm_bounded K N s \<longleftrightarrow> set (item_keys (concat (data_levels s))) \<subseteq> K \<and> size (dpgm_items s) \<le> N"

lemma dpgm_fill_used:
  assumes "dpgm_wf P s" and "dpgm_fill s" and "size (dpgm_items s) < 2 ^ n"
  shows "used_levels s \<le> max 7 (n + 1)"
proof (rule ccontr)
  assume "\<not> ?thesis"
  then have used: "min_level + 1 < used_levels s" "n + 1 < used_levels s" by (auto simp: min_level_def)
  let ?j = "used_levels s - 1 - min_level"
  have "min_level < used_levels s - 1 \<and> used_levels s - 1 < used_levels s" using used(1) by linarith
  then have "level_fill (used_levels s - 1) (length (data_levels s ! ?j))" "data_levels s ! ?j \<noteq> []"
    using assms(2) used(1) unfolding dpgm_fill_def by blast+
  then have "2 ^ (used_levels s - 2) < length (data_levels s ! ?j)"
    by (auto simp: level_fill_def numeral_2_eq_2)
  also have "\<dots> \<le> length (concat (data_levels s))"
  proof -
    have "?j < length (data_levels s)" using assms(1) used by (auto simp: dpgm_wf_def)
    then have "data_levels s ! ?j \<in> set (data_levels s)" by simp
    then show ?thesis unfolding length_concat by (intro member_le_sum_list) auto
  qed
  also have "\<dots> < 2 ^ n" using assms(3) by simp
  finally have "used_levels s - 2 < n" by simp
  with used show False by simp
qed

subsection \<open>The level that receives the merged items\<close>

lemma find_target_result:
  assumes "dpgm_fill s" and "used_levels s \<le> 63" and "used_levels s \<le> min_level + length (data_levels s)"
    and "min_level < i" and "i \<le> used_levels s"
    and "slots = 2 ^ (min_level + 1) + levels_size (data_levels s) (min_level + 1) (i - 1)"
    and "i = min_level + 1 \<or> 2 ^ (i - 1) < slots" and "slots \<le> 2 ^ i"
  shows "\<exists>j r. find_target s i slots = Some (j, r) \<and> i \<le> j \<and> j \<le> used_levels s
      \<and> r = 2 ^ (min_level + 1) + levels_size (data_levels s) (min_level + 1) (j - 1)
      \<and> (j = min_level + 1 \<or> 2 ^ (j - 1) < r) \<and> r \<le> 2 ^ j
      \<and> (j < used_levels s \<longrightarrow> data_levels s ! (j - min_level) = [])"
  using assms(4-)
proof (induction "used_levels s - i" arbitrary: i slots)
  case 0
  then show ?case by (auto simp: find_target.simps [of s i])
next
  case (Suc n)
  then have lt: "i < used_levels s" by simp
  let ?lev = "data_levels s ! (i - min_level)"
  have lev: "get_level s i = Some ?lev" using lt Suc.prems(1) assms(3) by (intro get_level_nth) auto
  have fill: "level_fill i (length ?lev)" using assms(1) lt Suc.prems(1) by (auto simp: dpgm_fill_def)
  then have cap: "length ?lev \<le> 2 ^ i" by (auto simp: level_fill_def)
  have "(2::int) ^ i \<le> 2 ^ 63" using lt assms(2) by (intro power_increasing) auto
  moreover have "int (length ?lev) \<le> 2 ^ i" using cap by (metis of_nat_le_iff of_nat_numeral of_nat_power)
  ultimately have "to_size_t (2 ^ i - int (length ?lev)) = nat (2 ^ i - int (length ?lev))"
    by (intro to_size_t_id) auto
  also have "\<dots> = 2 ^ i - length ?lev" by (simp add: nat_diff_distrib' nat_power_eq)
  finally have left: "to_size_t (2 ^ i - int (length ?lev)) = 2 ^ i - length ?lev" .
  show ?case
  proof (cases "slots \<le> 2 ^ i - length ?lev")
    case True
    have "2 ^ i = 2 * (2::nat) ^ (i - 1)" using Suc.prems(1) by (cases i) auto
    moreover have "slots = 2 ^ i" if "i = min_level + 1" using Suc.prems(3) that by (simp add: levels_size_stop)
    moreover have "0 < (2::nat) ^ (i - 1)" by simp
    ultimately have "\<not> 2 ^ (i - 1) < length ?lev" using True Suc.prems(4) by linarith
    then have "?lev = []" using fill by (auto simp: level_fill_def)
    with True show ?thesis using lt lev left Suc.prems by (simp add: find_target.simps [of s i])
  next
    case False
    have size: "levels_size (data_levels s) (min_level + 1) i =
        levels_size (data_levels s) (min_level + 1) (i - 1) + length ?lev"
      using Suc.prems(1) by (cases i) (auto simp: levels_size_def)
    have "\<exists>j r. find_target s (i + 1) (slots + length ?lev) = Some (j, r) \<and> i + 1 \<le> j \<and> j \<le> used_levels s
      \<and> r = 2 ^ (min_level + 1) + levels_size (data_levels s) (min_level + 1) (j - 1)
      \<and> (j = min_level + 1 \<or> 2 ^ (j - 1) < r) \<and> r \<le> 2 ^ j
      \<and> (j < used_levels s \<longrightarrow> data_levels s ! (j - min_level) = [])"
    proof (rule Suc.hyps(1))
      show "i + 1 = min_level + 1 \<or> 2 ^ (i + 1 - 1) < slots + length ?lev"
        using False cap unfolding add_diff_cancel_right' by linarith
      show "slots + length ?lev \<le> 2 ^ (i + 1)" using Suc.prems(5) cap by simp
      show "slots + length ?lev = 2 ^ (min_level + 1) + levels_size (data_levels s) (min_level + 1) (i + 1 - 1)"
        using Suc.prems(3) size by simp
    qed (use Suc.hyps(2) Suc.prems(1) lt in auto)
    then show ?thesis using lt lev left False by (auto simp: find_target.simps [of s i])
  qed
qed

subsection \<open>The three outcomes of an insertion\<close>

text \<open>The buffer with the new item in place.\<close>

definition buffer_with :: "'k::linorder item list \<Rightarrow> 'k item \<Rightarrow> 'k item list" where
  "buffer_with xs x =
     take (item_lower_bound xs (item_first x)) xs @ x # drop (item_lower_bound xs (item_first x)) xs"

lemma item_lower_bound_split:
  "take (item_lower_bound xs k) xs = takeWhile (\<lambda>x. item_first x < k) xs"
  "drop (item_lower_bound xs k) xs = dropWhile (\<lambda>x. item_first x < k) xs"
  by (simp_all add: item_lower_bound_def takeWhile_eq_take [symmetric] dropWhile_eq_drop [symmetric])

lemma sorted_buffer_with:
  assumes "sorted_items xs"
  shows "sorted_items (buffer_with xs x)"
proof -
  let ?t = "takeWhile (\<lambda>y. item_first y < item_first x) xs"
  let ?d = "dropWhile (\<lambda>y. item_first y < item_first x) xs"
  have sd: "sorted_items (?t @ ?d)" using assms by simp
  have below: "item_first y < item_first x" if "y \<in> set ?t" for y using set_takeWhileD [OF that] by simp
  have above: "item_first x \<le> item_first y" if "y \<in> set ?d" for y
  proof (cases ?d)
    case Nil
    with that show ?thesis by (simp only: list.set empty_iff)
  next
    case (Cons z zs)
    then have "\<not> item_first z < item_first x" by (metis dropWhile_eq_Cons_conv)
    moreover have "item_first z \<le> item_first y" using sd that Cons by (auto simp: sorted_append)
    ultimately show ?thesis by simp
  qed
  show ?thesis
    using sd unfolding buffer_with_def item_lower_bound_split map_append list.map sorted_append
    by (auto dest!: below above)
qed

lemma mset_buffer_with: "mset (buffer_with xs x) = add_mset x (mset xs)"
proof -
  have "mset xs = mset (take n xs) + mset (drop n xs)" for n
    by (metis append_take_drop_id mset_append)
  then show ?thesis by (simp add: buffer_with_def)
qed

lemma length_buffer_with [simp]: "length (buffer_with xs x) = Suc (length xs)"
  using arg_cong [OF mset_buffer_with, of size xs x] by simp

lemma newest_buffer_with:
  assumes "sorted_items xs"
  shows "newest (buffer_with xs x) k = (if k = item_first x then Some x else newest xs k)"
proof -
  have "newest (takeWhile (\<lambda>y. item_first y < item_first x) xs) (item_first x) = None"
    unfolding newest_None by (auto dest: set_takeWhileD)
  moreover have "newest xs k = newest (takeWhile (\<lambda>y. item_first y < item_first x) xs
      @ dropWhile (\<lambda>y. item_first y < item_first x) xs) k" by simp
  ultimately show ?thesis
    unfolding buffer_with_def item_lower_bound_split
    by (simp add: newest_append del: takeWhile_dropWhile_id split: option.split)
qed

text \<open>The items that a merge puts into level \<open>i\<close>, and the state after a merge when the old content of that level is empty.\<close>

abbreviation merge_out :: "('k::linorder, 'p) dpgm \<Rightarrow> nat \<Rightarrow> 'k item \<Rightarrow> 'k item list" where
  "merge_out s i x \<equiv>
     merged (used_levels s) (data_levels s) (min_level + 1) (i - 1) (buffer_with (data_levels s ! 0) x)"

definition merged_state ::
    "('k::linorder, 'p) pgm_ops \<Rightarrow> 'k item \<Rightarrow> nat \<Rightarrow> ('k, 'p) dpgm \<Rightarrow> ('k, 'p) dpgm" where
  "merged_state P x i s =
     (let D = data_levels s;
          out = merge_out s i x;
          C = cleared P (min_level + 1) (i - 1) s
      in s\<lparr>data_levels := (data_levels C)[0 := [], i - min_level := out],
           pgm_levels := (if MinIndexedLevel P \<le> i
                          then (pgm_levels C)[i - MinIndexedLevel P := the (pgm_build P out)]
                          else pgm_levels C)\<rparr>)"

lemma pairwise_result:
  assumes "min_level < i" and "i - min_level < length (data_levels s)"
    and "data_levels s ! (i - min_level) = []"
    and "length (data_levels s ! 0) = 2 ^ (min_level + 1) - 1"
    and "min_level < MinIndexedLevel P"
    and "\<forall>j. MinIndexedLevel P \<le> j \<and> j \<le> i \<longrightarrow> j - MinIndexedLevel P < length (pgm_levels s)"
    and "slots = 2 ^ (min_level + 1) + levels_size (data_levels s) (min_level + 1) (i - 1)"
    and "MinIndexedLevel P \<le> i \<Longrightarrow> pgm_build P (merge_out s i x) \<noteq> None"
  shows "pairwise_logarithmic_merge P x (i - 1) slots (item_lower_bound (data_levels s ! 0) (item_first x)) s
     = Some (merged_state P x i s)"
proof -
  let ?D = "data_levels s" and ?md = "(i - 1 - min_level) mod 2"
  let ?first = "buffer_with (?D ! 0) x"
  let ?out = "merged (used_levels s) ?D (min_level + 1) (i - 1) ?first"
  have len: "length ?first = 2 ^ (min_level + 1)" using assms(4) by simp
  have target: "get_level s i = Some []" using assms(1-3) by (simp add: get_level_nth)
  have level0: "get_level s min_level = Some (?D ! 0)" using assms(2) by (cases "?D") (auto simp: get_level_def)
  define ta :: "'a buffer" where "ta = replicate slots None"
  obtain f where f: "write_buf ta ?first = Some f" "holds f ?first" "length f = slots"
    using write_holds [of ?first ta] len assms(7) by (auto simp: ta_def)
  let ?a = "if ?md \<noteq> 0 then f else ta" and ?b = "if ?md \<noteq> 0 then ta else f"
  have "\<exists>a b. merge_loop P ?md (i - 1) (min_level + 1) ?a ?b (length ?first) s =
      Some (a, b, length ?out, cleared P (min_level + 1) (i - 1) s) \<and>
      holds (if (max (min_level + 1) (i - 1 + 1) - min_level) mod 2 = ?md then a else b) ?out \<and>
      length a = length ?a \<and> length b = length ?b"
  proof (rule merge_loop_result)
    show "i - 1 - min_level < length ?D" using assms(2) by linarith
    show "\<forall>j. MinIndexedLevel P \<le> j \<and> j \<le> i - 1 \<longrightarrow> j - MinIndexedLevel P < length (pgm_levels s)"
      using assms(6) by (meson diff_le_self order.trans)
    show "holds (if (min_level + 1 - min_level) mod 2 = ?md then ?a else ?b) ?first"
      using f(2) by (cases "?md = 0") auto
    show "length ?first + levels_size ?D (min_level + 1) (i - 1) \<le> length ?a"
      "length ?first + levels_size ?D (min_level + 1) (i - 1) \<le> length ?b"
      unfolding len using f(3) assms(7) by (simp_all add: ta_def)
  qed simp_all
  moreover have "(max (min_level + 1) (i - 1 + 1) - min_level) mod 2 \<noteq> ?md"
    using odd_mod_flip [of ?md "i - 1 - min_level"] assms(1) by (simp add: max_def Suc_diff_Suc)
  ultimately obtain a b where loop: "merge_loop P ?md (i - 1) (min_level + 1) ?a ?b (length ?first) s =
      Some (a, b, length ?out, cleared P (min_level + 1) (i - 1) s)" "holds b ?out" by auto
  define C where "C = cleared P (min_level + 1) (i - 1) s"
  have C: "length (data_levels C) = length ?D" "length (pgm_levels C) = length (pgm_levels s)"
    "s\<lparr>data_levels := d, pgm_levels := p\<rparr> = C\<lparr>data_levels := d, pgm_levels := p\<rparr>" for d p
    by (simp_all add: C_def cleared_def)
  have idx: "i - 1 + 1 = i" "1 + min_level = min_level + 1" using assms(1) by simp_all
  have sets: "set_level C min_level [] = Some (C\<lparr>data_levels := (data_levels C)[0 := []]\<rparr>)"
    "set_level (C\<lparr>data_levels := (data_levels C)[0 := []]\<rparr>) i ?out =
       Some (C\<lparr>data_levels := (data_levels C)[0 := [], i - min_level := ?out]\<rparr>)"
    "MinIndexedLevel P \<le> i \<Longrightarrow>
       set_pgm P (C\<lparr>data_levels := (data_levels C)[0 := [], i - min_level := ?out]\<rparr>) i (the (pgm_build P ?out)) =
       Some (C\<lparr>data_levels := (data_levels C)[0 := [], i - min_level := ?out],
              pgm_levels := (pgm_levels C)[i - MinIndexedLevel P := the (pgm_build P ?out)]\<rparr>)"
    using assms(1,2,6) C by (auto simp: set_level_def set_pgm_def)
  have bufs: "(if ?md \<noteq> 0 then write_buf ta ?first else Some ta) = Some ?a"
    "(if ?md \<noteq> 0 then Some ta else write_buf ta ?first) = Some ?b" using f(1) by simp_all
  note resized = resize_holds [OF loop(2)]
  note loop' = loop(1) [unfolded len, folded C_def]
  have "pairwise_logarithmic_merge P x (i - 1) slots (item_lower_bound (?D ! 0) (item_first x)) s =
    (if MinIndexedLevel P \<le> i
     then Option.bind (pgm_build P ?out) (set_pgm P (C\<lparr>data_levels := (data_levels C)[0 := [], i - min_level := ?out]\<rparr>) i)
     else Some (C\<lparr>data_levels := (data_levels C)[0 := [], i - min_level := ?out]\<rparr>))"
    unfolding pairwise_logarithmic_merge_def idx target bind.bind_lunit level0 Let_def list.size add_0_right
      ta_def [symmetric] buffer_with_def [symmetric] if_True refl
    using bufs loop' sets(1,2) resized by (cases "?md = 0") simp_all
  also have "\<dots> = Some (merged_state P x i s)"
    unfolding merged_state_def Let_def C_def [symmetric] C(3) using sets(3) assms(8) by (cases "pgm_build P ?out") auto
  finally show ?thesis .
qed

lemma wf_nonempty: "dpgm_wf P s \<Longrightarrow> 0 < length (data_levels s)"
  by (auto simp: dpgm_wf_def)

lemma add_level_facts:
  assumes "dpgm_wf P s" and "i \<le> used_levels s"
  shows "dpgm_wf P (add_level P i s)" and "i < used_levels (add_level P i s)"
    and "i - min_level < length (data_levels (add_level P i s))"
    and "concat (data_levels (add_level P i s)) = concat (data_levels s)"
    and "data_levels (add_level P i s) ! 0 = data_levels s ! 0"
    and "\<forall>j<length (data_levels s). data_levels (add_level P i s) ! j = data_levels s ! j"
    and "i = used_levels s \<Longrightarrow> data_levels (add_level P i s) ! (i - min_level) = []"
proof -
  let ?s = "add_level P i s"
  note wf = assms(1) [unfolded dpgm_wf_def]
  show "i < used_levels ?s" using assms(2) by (auto simp: add_level_def)
  show "i - min_level < length (data_levels ?s)" using wf assms(2) by (auto simp: add_level_def)
  show "concat (data_levels ?s) = concat (data_levels s)" by (simp add: add_level_def)
  show nth: "\<forall>j<length (data_levels s). data_levels ?s ! j = data_levels s ! j"
    by (simp add: add_level_def nth_append)
  then show zero: "data_levels ?s ! 0 = data_levels s ! 0" using wf_nonempty [OF assms(1)] by blast
  show "data_levels ?s ! (i - min_level) = []" if "i = used_levels s"
    using wf that by (auto simp: add_level_def nth_append)
  show "dpgm_wf P ?s"
  proof (cases "i = used_levels s")
    case True
    have idx: "j - MinIndexedLevel P < length (pgm_levels ?s)
        \<and> (data_levels ?s ! (j - min_level) \<noteq> [] \<longrightarrow>
             pgm_build P (data_levels ?s ! (j - min_level)) = Some (pgm_levels ?s ! (j - MinIndexedLevel P)))"
      if "MinIndexedLevel P \<le> j" "j < used_levels ?s" for j
    proof (cases "j = i")
      case False
      then have "j < used_levels s" using that True by (auto simp: add_level_def)
      then have j: "j - MinIndexedLevel P < length (pgm_levels s)" "j - min_level < length (data_levels s)"
        using wf that(1) by auto
      have "pgm_levels ?s ! (j - MinIndexedLevel P) = pgm_levels s ! (j - MinIndexedLevel P)"
        using j(1) by (simp add: add_level_def nth_append)
      then show ?thesis using wf that(1) \<open>j < used_levels s\<close> j nth by (auto simp: add_level_def)
    next
      case j: True
      have "data_levels ?s ! (i - min_level) = []" using wf True by (auto simp: add_level_def nth_append)
      moreover have "i - MinIndexedLevel P \<le> length (pgm_levels s)"
      proof (cases "MinIndexedLevel P < i")
        case True
        then have "MinIndexedLevel P \<le> i - 1 \<and> i - 1 < used_levels s" using \<open>i = used_levels s\<close> by simp
        then have "i - 1 - MinIndexedLevel P < length (pgm_levels s)" using wf by blast
        then show ?thesis using True by linarith
      qed simp
      then have "i - MinIndexedLevel P < length (pgm_levels ?s)" using True that j by (auto simp: add_level_def)
      ultimately show ?thesis using j by simp
    qed
    have rest: "data_levels ?s ! j = []" if "j < length (data_levels ?s)" "used_levels ?s \<le> j + min_level" for j
      using wf that True by (auto simp: add_level_def nth_append less_Suc_eq)
    show ?thesis
      unfolding dpgm_wf_def
    proof (intro conjI)
      show "length (data_levels ?s ! 0) < 2 ^ (min_level + 1)" unfolding zero using wf by blast
      show "used_levels ?s \<le> min_level + length (data_levels ?s)" using wf True by (simp add: add_level_def)
      show "\<forall>xs\<in>set (data_levels ?s). sorted_items xs" using wf True by (simp add: add_level_def)
      show "min_level < used_levels ?s" using wf True by (simp add: add_level_def)
    qed (use wf idx rest in blast)+
  next
    case False
    then show ?thesis using assms(1) by (simp add: add_level_def)
  qed
qed

lemma levels_split_at:
  assumes "min_level < i" and "i - min_level < length D"
  shows "concat D = D ! 0 @ between D (min_level + 1) (i - 1) @ D ! (i - min_level)
    @ concat (drop (Suc (i - min_level)) D)"
proof -
  have "D = take (i - min_level) D @ D ! (i - min_level) # drop (Suc (i - min_level)) D"
    using assms(2) by (rule id_take_nth_drop)
  then have "concat D = concat (take (i - min_level) D) @ D ! (i - min_level) @ concat (drop (Suc (i - min_level)) D)"
    by (metis concat.simps(2) concat_append)
  moreover have "take (i - min_level) D = D ! 0 # drop 1 (take (i - min_level) D)"
    using drop_take_step [of 0 "i - min_level" D] assms(1,2) by simp
  then have "concat (take (i - min_level) D) = D ! 0 @ concat (drop 1 (take (i - min_level) D))"
    by (metis concat.simps(2))
  ultimately show ?thesis using assms(1) by (simp add: between_def)
qed

lemma merge_out_facts:
  assumes wf: "dpgm_wf P s" and i: "min_level < i" "i < used_levels s"
  shows "sorted_items (merge_out s i x)"
    and "set (merge_out s i x) \<subseteq> insert x (set (concat (data_levels s)))"
    and "length (merge_out s i x) \<le> Suc (size (dpgm_items s))"
proof -
  let ?D = "data_levels s"
  note w = wf [unfolded dpgm_wf_def]
  have len: "i - min_level < length ?D" using w i by linarith
  then have lim: "i - 1 + 1 - min_level \<le> length ?D" using i(1) by simp
  note split = levels_split_at [OF i(1) len]
  have "?D ! 0 \<in> set ?D" using wf_nonempty [OF wf] by simp
  then have "sorted_items (buffer_with (?D ! 0) x)" using w by (intro sorted_buffer_with) blast
  then show "sorted_items (merge_out s i x)" using w lim by (intro sorted_merged) auto
  have "set (buffer_with (?D ! 0) x) = insert x (set (?D ! 0))"
    using arg_cong [OF mset_buffer_with [of "?D ! 0" x], of set_mset] by simp
  then show "set (merge_out s i x) \<subseteq> insert x (set (concat ?D))"
    using set_merged [OF _ lim, of "min_level + 1" "used_levels s" "buffer_with (?D ! 0) x"] unfolding split by auto
  have "length (merge_out s i x) \<le> Suc (length (?D ! 0)) + length (between ?D (min_level + 1) (i - 1))"
    using length_merged [of "used_levels s" ?D "min_level + 1" "i - 1" "buffer_with (?D ! 0) x"]
      levels_size_between [OF _ lim, of "min_level + 1"] by simp
  then show "length (merge_out s i x) \<le> Suc (size (dpgm_items s))" unfolding split by simp
qed

lemma merge_out_builds:
  assumes "pgm_covers P K N" and "dpgm_wf P s" and "min_level < i" and "i < used_levels s"
    and "dpgm_bounded K N s" and "item_first x \<in> K" and "size (dpgm_items s) < N" and "merge_out s i x \<noteq> []"
  shows "pgm_build P (merge_out s i x) \<noteq> None"
proof -
  note m = merge_out_facts [OF assms(2-4), where x = x]
  have "set (item_keys (merge_out s i x)) \<subseteq> K" using m(2) assms(5,6) by (auto simp: dpgm_bounded_def)
  then show ?thesis using pgm_coversD [OF assms(1) m(1) assms(8)] m(3) assms(7) by fastforce
qed

lemma merged_state_data:
  assumes "min_level < i" and "i - min_level < length (data_levels s)"
  shows "data_levels (merged_state P x i s) = replicate (i - min_level) []
     @ merged (used_levels s) (data_levels s) (min_level + 1) (i - 1) (buffer_with (data_levels s ! 0) x)
     # drop (Suc (i - min_level)) (data_levels s)"
proof (rule nth_equalityI)
  fix j assume "j < length (data_levels (merged_state P x i s))"
  then have "0 < length (data_levels s)" "j < length (data_levels s)"
    by (auto simp: merged_state_def Let_def cleared_def)
  then show "data_levels (merged_state P x i s) ! j = (replicate (i - min_level) []
     @ merged (used_levels s) (data_levels s) (min_level + 1) (i - 1) (buffer_with (data_levels s ! 0) x)
     # drop (Suc (i - min_level)) (data_levels s)) ! j"
    using assms
    by (cases "j = 0")
      (auto simp: merged_state_def Let_def cleared_def nth_append nth_list_update nth_Cons')
qed (use assms in \<open>auto simp: merged_state_def Let_def cleared_def\<close>)

lemma levels_split:
  assumes "min_level < i" and "i - min_level < length D" and "D ! (i - min_level) = []"
  shows "concat D = D ! 0 @ between D (min_level + 1) (i - 1) @ concat (drop (Suc (i - min_level)) D)"
  using levels_split_at [OF assms(1,2)] assms(3) by simp

lemma merged_state_nth:
  assumes "min_level < i" and "i - min_level < length (data_levels s)" and "j < length (data_levels s)"
  shows "data_levels (merged_state P x i s) ! j =
     (if j < i - min_level then []
      else if j = i - min_level
      then merged (used_levels s) (data_levels s) (min_level + 1) (i - 1) (buffer_with (data_levels s ! 0) x)
      else data_levels s ! j)"
  using assms by (auto simp: merged_state_data nth_append nth_Cons')

lemma merged_state_wf:
  assumes wf: "dpgm_wf P s" and i: "min_level < i" "i < used_levels s"
    and build: "MinIndexedLevel P \<le> i \<Longrightarrow> pgm_build P (merge_out s i x) \<noteq> None"
  shows "dpgm_wf P (merged_state P x i s)"
proof -
  let ?s = "merged_state P x i s" and ?D = "data_levels s" and ?out = "merge_out s i x"
  note w = wf [unfolded dpgm_wf_def]
  have len: "i - min_level < length ?D" using w i by linarith
  have used: "used_levels ?s = used_levels s" by (simp add: merged_state_def Let_def)
  have length: "length (data_levels ?s) = length ?D" using i(1) len by (simp add: merged_state_data)
  have pgms: "length (pgm_levels ?s) = length (pgm_levels s)"
    by (simp add: merged_state_def Let_def cleared_def)
  have nth: "data_levels ?s ! j = (if j < i - min_level then [] else if j = i - min_level then ?out else ?D ! j)"
    if "j < length ?D" for j
    by (rule merged_state_nth [OF i(1) len that])
  have "sorted_items ?out" by (rule merge_out_facts(1) [OF wf i])
  moreover have "set (data_levels ?s) \<subseteq> {[], ?out} \<union> set ?D"
    unfolding merged_state_data [OF i(1) len] by (auto dest: in_set_dropD)
  ultimately have sorted: "\<forall>xs\<in>set (data_levels ?s). sorted_items xs" using w by auto
  have idx: "j - MinIndexedLevel P < length (pgm_levels ?s) \<and>
      (data_levels ?s ! (j - min_level) \<noteq> [] \<longrightarrow>
        pgm_build P (data_levels ?s ! (j - min_level)) = Some (pgm_levels ?s ! (j - MinIndexedLevel P)))"
    if j: "MinIndexedLevel P \<le> j" "j < used_levels s" for j
  proof -
    have in_range: "j - MinIndexedLevel P < length (pgm_levels s)" "j - min_level < length ?D" "min_level < j"
      using w j by auto
    consider "j < i" | "j = i" | "i < j" by linarith
    then show ?thesis
    proof cases
      case 1
      then have "j - min_level < i - min_level" using in_range(3) by linarith
      then show ?thesis using nth [OF in_range(2)] in_range(1) pgms by simp
    next
      case 2
      then show ?thesis
        using nth [OF in_range(2)] in_range(1) j(1) pgms build
        by (auto simp: merged_state_def Let_def cleared_def)
    next
      case 3
      then have "j - min_level \<noteq> i - min_level" "\<not> j - min_level < i - min_level" using i(1) by linarith+
      then have "data_levels ?s ! (j - min_level) = ?D ! (j - min_level)" using nth [OF in_range(2)] by simp
      moreover have "pgm_levels ?s ! (j - MinIndexedLevel P) = pgm_levels s ! (j - MinIndexedLevel P)"
        using 3 j(1) in_range(1) i(1) by (auto simp: merged_state_def Let_def cleared_def nth_list_update)
      ultimately show ?thesis using w j pgms by simp
    qed
  qed
  show ?thesis
    unfolding dpgm_wf_def used length
  proof (intro conjI)
    show "length (data_levels ?s ! 0) < 2 ^ (min_level + 1)"
      using nth [OF wf_nonempty [OF wf]] i(1) by simp
    show "\<forall>j<length ?D. used_levels s \<le> j + min_level \<longrightarrow> data_levels ?s ! j = []"
      using nth w i by auto
  qed (use w sorted idx in blast)+
qed

lemma merged_state_size:
  assumes wf: "dpgm_wf P s" and i: "min_level < i" "i < used_levels s"
    and empty: "data_levels s ! (i - min_level) = []"
  shows "size (dpgm_items (merged_state P x i s)) \<le> Suc (size (dpgm_items s))"
proof -
  have len: "i - min_level < length (data_levels s)" using wf i by (auto simp: dpgm_wf_def)
  then have "i - 1 + 1 - min_level \<le> length (data_levels s)" using i(1) by simp
  from levels_size_between [OF _ this, of "min_level + 1"] show ?thesis
    using length_merged [of "used_levels s" "data_levels s" "min_level + 1" "i - 1" "buffer_with (data_levels s ! 0) x"]
    unfolding merged_state_data [OF i(1) len] levels_split [OF i(1) len empty] by simp
qed

lemma merged_state_items:
  assumes wf: "dpgm_wf P s" and i: "min_level < i" "i < used_levels s"
    and empty: "data_levels s ! (i - min_level) = []"
    and fresh: "distinct (item_keys (x # concat (data_levels s)))"
  shows "dpgm_items (merged_state P x i s) = add_mset x (dpgm_items s)"
    and "length (data_levels (merged_state P x i s) ! (i - min_level))
         = Suc (length (data_levels s ! 0)) + levels_size (data_levels s) (min_level + 1) (i - 1)"
proof -
  let ?D = "data_levels s"
  let ?out = "merged (used_levels s) ?D (min_level + 1) (i - 1) (buffer_with (?D ! 0) x)"
  have len: "i - min_level < length ?D" using wf i by (auto simp: dpgm_wf_def)
  have lim: "i - 1 + 1 - min_level \<le> length ?D" using len i(1) by simp
  note split = levels_split [OF i(1) len empty]
  have "distinct (item_keys (x # ?D ! 0 @ between ?D (min_level + 1) (i - 1)))"
    using fresh unfolding split by auto
  moreover have "mset (item_keys (buffer_with (?D ! 0) x @ between ?D (min_level + 1) (i - 1))) =
      mset (item_keys (x # ?D ! 0 @ between ?D (min_level + 1) (i - 1)))"
    by (simp add: mset_buffer_with)
  ultimately have "distinct (item_keys (buffer_with (?D ! 0) x @ between ?D (min_level + 1) (i - 1)))"
    using mset_eq_imp_distinct_iff by blast
  then have out: "mset ?out = add_mset x (mset (?D ! 0)) + mset (between ?D (min_level + 1) (i - 1))"
    using lim by (subst mset_merged) (auto simp: mset_buffer_with)
  show "dpgm_items (merged_state P x i s) = add_mset x (dpgm_items s)"
    unfolding merged_state_data [OF i(1) len] split using out by simp
  show "length (data_levels (merged_state P x i s) ! (i - min_level)) =
      Suc (length (?D ! 0)) + levels_size ?D (min_level + 1) (i - 1)"
    using arg_cong [OF out, of size] lim
    by (simp add: merged_state_nth [OF i(1) len len] levels_size_between)
qed

subsection \<open>Inserting a fresh key\<close>

lemma merge_path:
  assumes wf: "dpgm_wf P s" and fill: "dpgm_fill s" and used: "used_levels s \<le> 63"
    and full: "length (data_levels s ! 0) = 2 ^ (min_level + 1) - 1"
    and build: "\<And>i. min_level < i \<Longrightarrow> i \<le> used_levels s \<Longrightarrow>
      data_levels (add_level P i s) ! (i - min_level) = [] \<Longrightarrow> pgm_build P (merge_out (add_level P i s) i x) \<noteq> None"
  shows "\<exists>i r. find_target s (min_level + 1) (2 ^ (min_level + 1)) = Some (i, r)
    \<and> min_level < i \<and> i \<le> used_levels s
    \<and> (i = min_level + 1 \<or> 2 ^ (i - 1) < r) \<and> r \<le> 2 ^ i
    \<and> r = 2 ^ (min_level + 1) + levels_size (data_levels (add_level P i s)) (min_level + 1) (i - 1)
    \<and> data_levels (add_level P i s) ! (i - min_level) = []
    \<and> pairwise_logarithmic_merge P x (i - 1) r (item_lower_bound (data_levels s ! 0) (item_first x)) (add_level P i s)
      = Some (merged_state P x i (add_level P i s))"
proof -
  note w = wf [unfolded dpgm_wf_def]
  have "\<exists>i r. find_target s (min_level + 1) (2 ^ (min_level + 1)) = Some (i, r)
      \<and> min_level + 1 \<le> i \<and> i \<le> used_levels s
      \<and> r = 2 ^ (min_level + 1) + levels_size (data_levels s) (min_level + 1) (i - 1)
      \<and> (i = min_level + 1 \<or> 2 ^ (i - 1) < r) \<and> r \<le> 2 ^ i
      \<and> (i < used_levels s \<longrightarrow> data_levels s ! (i - min_level) = [])"
    by (rule find_target_result [OF fill used]) (use w in \<open>auto simp: levels_size_stop\<close>)
  then obtain i r where t: "find_target s (min_level + 1) (2 ^ (min_level + 1)) = Some (i, r)"
      "min_level < i" "i \<le> used_levels s"
      "r = 2 ^ (min_level + 1) + levels_size (data_levels s) (min_level + 1) (i - 1)"
      "i = min_level + 1 \<or> 2 ^ (i - 1) < r" "r \<le> 2 ^ i"
      "i < used_levels s \<longrightarrow> data_levels s ! (i - min_level) = []" by auto
  let ?s = "add_level P i s"
  note al = add_level_facts [OF wf t(3)]
  have same: "levels_size (data_levels ?s) (min_level + 1) (i - 1) = levels_size (data_levels s) (min_level + 1) (i - 1)"
  proof -
    have "data_levels ?s ! (j - min_level) = data_levels s ! (j - min_level)" if "j < used_levels s" "min_level < j" for j
      using al(6) w that by (metis add.commute less_diff_conv2 less_imp_le_nat order_less_le_trans)
    then show ?thesis
      unfolding levels_size_def using t(2,3) by (intro arg_cong [where f = sum_list] map_cong) auto
  qed
  have target: "data_levels ?s ! (i - min_level) = []"
  proof (cases "i < used_levels s")
    case True
    then have "i - min_level < length (data_levels s)" using w t(2) by linarith
    then show ?thesis using True t(7) al(6) by simp
  next
    case False
    then show ?thesis using al(7) t(3) by simp
  qed
  note w' = al(1) [unfolded dpgm_wf_def]
  have "pairwise_logarithmic_merge P x (i - 1) r (item_lower_bound (data_levels ?s ! 0) (item_first x)) ?s
      = Some (merged_state P x i ?s)"
    by (rule pairwise_result) (use t same target al full w' build [OF t(2,3) target] in auto)
  then show ?thesis using t same target al(5) by auto
qed

lemma merged_state_fill:
  assumes wf: "dpgm_wf P s" and fill: "dpgm_fill s" and i: "min_level < i" "i \<le> used_levels s"
    and out: "level_fill i (length (data_levels (merged_state P x i (add_level P i s)) ! (i - min_level)))"
    and ne: "data_levels (merged_state P x i (add_level P i s)) ! (i - min_level) \<noteq> []"
  shows "dpgm_fill (merged_state P x i (add_level P i s))"
proof -
  let ?a = "add_level P i s" and ?s = "merged_state P x i (add_level P i s)"
  note al = add_level_facts [OF wf i(2)]
  note w = wf [unfolded dpgm_wf_def]
  note w' = al(1) [unfolded dpgm_wf_def]
  have used: "used_levels ?s = used_levels ?a" by (simp add: merged_state_def Let_def)
  have top: "used_levels ?a = used_levels s \<or> i = used_levels ?a - 1" by (auto simp: add_level_def)
  have nth: "data_levels ?s ! (j - min_level) =
      (if j < i then [] else if j = i then data_levels ?s ! (i - min_level) else data_levels ?a ! (j - min_level))"
    if "min_level < j" "j < used_levels ?a" for j
    using that w' i(1) al(3) by (auto simp: merged_state_nth)
  have old: "data_levels ?a ! (j - min_level) = data_levels s ! (j - min_level)" "j < used_levels s"
    if "i < j" "j < used_levels ?a" for j
    using that al(6) w i by (auto simp: add_level_def split: if_splits)
  have each: "level_fill j (length (data_levels ?s ! (j - min_level)))"
    if "min_level < j" "j < used_levels ?a" for j
    using nth [OF that] old [of j] out fill that unfolding dpgm_fill_def
    by (cases "i < j") (auto simp: level_fill_def)
  have last: "data_levels ?s ! (used_levels ?a - 1 - min_level) \<noteq> []"
  proof (cases "i = used_levels ?a - 1")
    case False
    then have "i < used_levels ?a - 1" "used_levels ?a = used_levels s" using al(2) top by linarith+
    then show ?thesis
      using nth [of "used_levels ?a - 1"] old [of "used_levels ?a - 1"] fill i(1) unfolding dpgm_fill_def by auto
  qed (use ne in simp)
  show ?thesis unfolding dpgm_fill_def used using each last by blast
qed

lemma set_level0:
  "0 < length (data_levels s) \<Longrightarrow>
     set_level s min_level xs = Some (s\<lparr>data_levels := (data_levels s)[0 := xs]\<rparr>)"
  by (simp add: set_level_def)

lemma concat_split0: "D \<noteq> [] \<Longrightarrow> concat D = D ! 0 @ concat (tl D)"
  by (cases D) auto

lemma concat_update0: "D \<noteq> [] \<Longrightarrow> concat (D[0 := xs]) = xs @ concat (tl D)"
  by (cases D) auto

lemma buffer_path_wf:
  assumes wf: "dpgm_wf P s" and room: "length (data_levels s ! 0) < 2 ^ (min_level + 1) - 1"
  shows "dpgm_wf P (s\<lparr>data_levels := (data_levels s)[0 := buffer_with (data_levels s ! 0) x]\<rparr>)"
proof -
  note w = wf [unfolded dpgm_wf_def]
  have ne: "0 < length (data_levels s)" by (rule wf_nonempty [OF wf])
  have "sorted_items (data_levels s ! 0)" using w nth_mem [OF ne] by blast
  then have "\<forall>xs\<in>set ((data_levels s)[0 := buffer_with (data_levels s ! 0) x]). sorted_items xs"
    using w sorted_buffer_with by (auto dest!: subsetD [OF set_update_subset_insert])
  moreover have "(data_levels s)[0 := buffer_with (data_levels s ! 0) x] ! j = data_levels s ! j" if "0 < j" for j
    using that by simp
  ultimately show ?thesis
    using w ne room unfolding dpgm_wf_def by auto
qed

lemma insertion_point_new:
  assumes "k \<notin> set (item_keys xs)" and "item_lower_bound xs k \<noteq> length xs"
  shows "item_first (xs ! item_lower_bound xs k) \<noteq> k"
proof -
  have "item_lower_bound xs k \<le> length xs" unfolding item_lower_bound_def by (rule length_takeWhile_le)
  then have "xs ! item_lower_bound xs k \<in> set xs" using assms(2) by (intro nth_mem) linarith
  then show ?thesis using assms(1) by (metis image_eqI list.set_map)
qed

lemma insert_item_buffer:
  assumes wf: "dpgm_wf P s" and room: "length (data_levels s ! 0) < 2 ^ (min_level + 1) - 1"
    and new: "item_first x \<notin> set (item_keys (data_levels s ! 0))"
  shows "insert_item P x s = Some (s\<lparr>data_levels := (data_levels s)[0 := buffer_with (data_levels s ! 0) x]\<rparr>)"
proof -
  let ?l = "data_levels s ! 0" and ?ip = "item_lower_bound (data_levels s ! 0) (item_first x)"
  have ne: "0 < length (data_levels s)" by (rule wf_nonempty [OF wf])
  have get: "get_level s min_level = Some ?l" using ne by (simp add: get_level_def)
  have "?ip \<noteq> length ?l \<longrightarrow> item_first (?l ! ?ip) \<noteq> item_first x" using insertion_point_new [OF new] by blast
  moreover have "used_levels s \<noteq> min_level" using wf by (auto simp: dpgm_wf_def)
  ultimately show ?thesis
    using room unfolding insert_item_def get by (auto simp: Let_def set_level0 [OF ne] buffer_with_def)
qed

lemma insert_fresh:
  assumes wf: "dpgm_wf P s" and fill: "dpgm_fill s" and used: "used_levels s \<le> 63"
    and fresh: "distinct (item_keys (x # concat (data_levels s)))"
    and cov: "pgm_covers P K N" "dpgm_bounded K N s" "item_first x \<in> K" "size (dpgm_items s) < N"
  shows "\<exists>s'. insert_item P x s = Some s' \<and> dpgm_wf P s' \<and> dpgm_fill s' \<and>
     dpgm_items s' = add_mset x (dpgm_items s)"
proof -
  let ?D = "data_levels s"
  note w = wf [unfolded dpgm_wf_def]
  have ne: "?D \<noteq> []" using wf_nonempty [OF wf] by auto
  have new: "item_first x \<notin> set (item_keys (?D ! 0))"
    using fresh unfolding concat_split0 [OF ne] by auto
  show ?thesis
  proof (cases "length (?D ! 0) < 2 ^ (min_level + 1) - 1")
    case True
    have "?D[0 := xs] ! j = ?D ! j" if "0 < j" for j xs using that by simp
    then have "dpgm_fill (s\<lparr>data_levels := ?D[0 := buffer_with (?D ! 0) x]\<rparr>)"
      using fill unfolding dpgm_fill_def by auto
    moreover have "mset (concat (?D[0 := buffer_with (?D ! 0) x])) = add_mset x (dpgm_items s)"
      unfolding concat_update0 [OF ne] concat_split0 [OF ne] by (simp add: mset_buffer_with)
    ultimately show ?thesis
      using insert_item_buffer [OF wf True new] buffer_path_wf [OF wf True] by auto
  next
    case False
    with w have full: "length (?D ! 0) = 2 ^ (min_level + 1) - 1" by linarith
    let ?ip = "item_lower_bound (?D ! 0) (item_first x)"
    have build: "pgm_build P (merge_out (add_level P i s) i x) \<noteq> None"
      if i: "min_level < i" "i \<le> used_levels s" "data_levels (add_level P i s) ! (i - min_level) = []" for i
    proof -
      note al = add_level_facts [OF wf i(2)]
      have "length (merge_out (add_level P i s) i x) > 0"
        using merged_state_items(2) [OF al(1) i(1) al(2) i(3), of x] fresh unfolding al(4)
        by (simp add: merged_state_nth [OF i(1) al(3) al(3)])
      then show ?thesis
        using merge_out_builds [OF cov(1) al(1) i(1) al(2), of x] cov(2-4) unfolding dpgm_bounded_def al(4) by auto
    qed
    obtain i r where t: "find_target s (min_level + 1) (2 ^ (min_level + 1)) = Some (i, r)"
      "min_level < i" "i \<le> used_levels s" "i = min_level + 1 \<or> 2 ^ (i - 1) < r" "r \<le> 2 ^ i"
      "r = 2 ^ (min_level + 1) + levels_size (data_levels (add_level P i s)) (min_level + 1) (i - 1)"
      "data_levels (add_level P i s) ! (i - min_level) = []"
      "pairwise_logarithmic_merge P x (i - 1) r ?ip (add_level P i s) = Some (merged_state P x i (add_level P i s))"
      using merge_path [OF wf fill used full build] by blast
    note al = add_level_facts [OF wf t(3)]
    let ?s = "merged_state P x i (add_level P i s)"
    have items: "dpgm_items ?s = add_mset x (dpgm_items s)"
      "length (data_levels ?s ! (i - min_level)) = r"
      using merged_state_items [OF al(1) t(2) al(2) t(7), of x] fresh full t(6) unfolding al(4,5) by auto
    have "0 < r" using t(6) by simp
    have "level_fill i r" using t(4,5,6) by (auto simp: level_fill_def levels_size_stop)
    then have "dpgm_fill ?s"
      using merged_state_fill [OF wf fill t(2,3)] items(2) \<open>0 < r\<close> by fastforce
    moreover have "insert_item P x s = Some ?s"
    proof -
      have get: "get_level s min_level = Some (?D ! 0)" using ne by (simp add: get_level_def)
      have "\<not> (?ip \<noteq> length (?D ! 0) \<and> item_first (?D ! 0 ! ?ip) = item_first x
          \<and> item_second (?D ! 0 ! ?ip) = item_second x)" using insertion_point_new [OF new] by blast
      then show ?thesis using False t(1,8) unfolding insert_item_def get by (auto simp: Let_def)
    qed
    moreover have "dpgm_wf P ?s" by (rule merged_state_wf [OF al(1) t(2) al(2) build [OF t(2,3,7)]])
    ultimately show ?thesis using items(1) by blast
  qed
qed

end
