(* ===== verification/Dynamic_Pgm_Lookup.thy ===== *)
theory Dynamic_Pgm_Lookup
  imports Dynamic_Pgm_Insert
begin

text \<open>
  Lookups in the dynamic PGM-index: \<open>find\<close> returns the newest item of a key, and the merging
  iterator of \<open>lower_bound\<close> visits all items from a key on in order. What the lookups need of the
  index of a large level is the predicate \<open>pgm_covers\<close>.
\<close>

subsection \<open>Positions in a sorted level\<close>

lemma item_lower_bound_le: "item_lower_bound xs k \<le> length xs"
  unfolding item_lower_bound_def by (rule length_takeWhile_le)

lemma item_lower_bound_below: "j < item_lower_bound xs k \<Longrightarrow> item_first (xs ! j) < k"
  unfolding item_lower_bound_def using set_takeWhileD nth_mem takeWhile_nth by metis

lemma item_lower_bound_above:
  assumes "sorted_items xs" and "item_lower_bound xs k \<le> j" and "j < length xs"
  shows "k \<le> item_first (xs ! j)"
proof -
  have "item_lower_bound xs k < length xs" using assms by simp
  then have "\<not> item_first (xs ! item_lower_bound xs k) < k"
    unfolding item_lower_bound_def by (rule nth_length_takeWhile)
  moreover have "item_first (xs ! item_lower_bound xs k) \<le> item_first (xs ! j)"
    using sorted_nth_mono [OF assms(1), of "item_lower_bound xs k" j] assms(2,3) by simp
  ultimately show ?thesis by simp
qed

lemma newest_at_lower_bound:
  assumes "sorted_items xs"
  shows "newest xs k =
     (if item_lower_bound xs k < length xs \<and> item_first (xs ! item_lower_bound xs k) = k
      then Some (xs ! item_lower_bound xs k) else None)"
  using assms
proof (induction xs)
  case (Cons x xs)
  have *: "k \<notin> set (item_keys xs)" if "k < item_first x" using Cons.prems that by auto
  then have "newest xs k = None" if "k < item_first x" using that newest_None by metis
  then show ?case
    using Cons by (cases "item_first x" k rule: linorder_cases) (auto simp: item_lower_bound_def)
qed (simp add: item_lower_bound_def)

lemma item_lower_bound_point:
  assumes "sorted_items xs" and "a \<le> item_lower_bound xs k" and "item_lower_bound xs k \<le> b" and "b \<le> length xs"
  shows "part_point (below (list_reader (item_keys xs)) k) (int a) (int b) (int (item_lower_bound xs k))"
  unfolding part_point_def
proof (intro conjI allI impI)
  fix i :: int assume i: "int a \<le> i \<and> i < int (item_lower_bound xs k)"
  then have "nat i < item_lower_bound xs k" by linarith
  moreover from this have "nat i < length xs" using item_lower_bound_le order_less_le_trans by blast
  ultimately show "below (list_reader (item_keys xs)) k i"
    using i item_lower_bound_below [of "nat i" xs k] by (auto simp: list_reader_def)
next
  fix i :: int assume i: "int (item_lower_bound xs k) \<le> i \<and> i < int b"
  then have "item_lower_bound xs k \<le> nat i" "nat i < length xs" "0 \<le> i" using assms(4) by linarith+
  then show "\<not> below (list_reader (item_keys xs)) k i"
    using item_lower_bound_above [OF assms(1), of k "nat i"] by (auto simp: list_reader_def)
qed (use assms in auto)

subsection \<open>The position of a key in a level\<close>

lemma dpgm_bounded_level:
  assumes "dpgm_bounded K N s" and "xs \<in> set (data_levels s)"
  shows "set (item_keys xs) \<subseteq> K \<and> length xs \<le> N"
proof -
  have "length xs \<le> size (dpgm_items s)" using assms(2) by (auto simp: length_concat intro!: member_le_sum_list)
  moreover have "set (item_keys xs) \<subseteq> set (item_keys (concat (data_levels s)))" using assms(2) by auto
  ultimately show ?thesis using assms(1) unfolding dpgm_bounded_def by (meson order.trans)
qed

lemma between_all:
  assumes "dpgm_wf P s"
  shows "between (data_levels s) min_level (used_levels s - 1) = concat (data_levels s)"
proof -
  note w = assms [unfolded dpgm_wf_def]
  let ?n = "used_levels s - min_level"
  have "\<forall>xs\<in>set (drop ?n (data_levels s)). xs = []"
    using w by (auto simp: in_set_conv_nth add.commute less_diff_conv)
  then have "concat (drop ?n (data_levels s)) = []" by simp
  then have "concat (data_levels s) = concat (take ?n (data_levels s))"
    by (metis append_take_drop_id concat_append append_Nil2)
  then show ?thesis using w by (simp add: between_def)
qed

text \<open>The answer of \<open>EqualityLookup\<close>.\<close>

definition lookup_spec :: "'k item list \<Rightarrow> 'k \<Rightarrow> u64" where
  "lookup_spec xs k =
     (case newest xs k of None \<Rightarrow> OVERFLOW | Some x \<Rightarrow> if deleted x then OVERFLOW else item_second x)"

context search_class
begin

lemma level_position_result:
  assumes wf: "dpgm_wf P s" and cov: "pgm_covers P K N" "dpgm_bounded K N s" and i: "min_level \<le> i" "i < used_levels s"
    and ne: "data_levels s ! (i - min_level) \<noteq> []"
  shows "\<exists>it. level_position P lower_bound s i (data_levels s ! (i - min_level)) k = Some it
    \<and> it \<le> item_lower_bound (data_levels s ! (i - min_level)) k
    \<and> (k \<in> set (item_keys (data_levels s ! (i - min_level))) \<longrightarrow>
         it = item_lower_bound (data_levels s ! (i - min_level)) k)"
proof (cases "i < MinIndexedLevel P")
  case True
  then show ?thesis by (simp add: level_position_def)
next
  case False
  let ?l = "data_levels s ! (i - min_level)"
  let ?rd = "list_reader (item_keys ?l)"
  note w = wf [unfolded dpgm_wf_def]
  have mem: "?l \<in> set (data_levels s)" using w i by (intro nth_mem) linarith
  then have sorted: "sorted_items ?l" using w by blast
  have keys: "set (item_keys ?l) \<subseteq> K" and len: "length ?l \<le> N"
    using dpgm_bounded_level [OF cov(2) mem] by blast+
  obtain p ap where p: "pgm_build P ?l = Some p" "pgm_find P p k = Some ap" "range_ok ?l k ap"
    using pgm_coversD [OF cov(1) sorted ne keys len] by blast
  then have pgm: "get_pgm P s i = Some p" using w i ne False by (auto simp: get_pgm_def)
  note ap = p(3) [unfolded range_ok_def]
  have "search_pre ?rd (int (ap_lo ap)) (int (ap_hi ap)) (int (ap_pos ap))"
    using sorted ap len pgm_covers_bound [OF cov(1)] by (intro search_pre_list) auto
  then obtain r where r: "lower_bound (int (ap_lo ap)) (int (ap_hi ap)) k (int (ap_pos ap)) ?rd = Some r"
      "part_point (below ?rd k) (int (ap_lo ap)) (int (ap_hi ap)) r"
    using lower_bound_point by blast
  have "nat r \<le> item_lower_bound ?l k \<and> (k \<in> set (item_keys ?l) \<longrightarrow> nat r = item_lower_bound ?l k)"
  proof (cases "item_lower_bound ?l k \<le> ap_hi ap")
    case True
    with ap have "part_point (below ?rd k) (int (ap_lo ap)) (int (ap_hi ap)) (int (item_lower_bound ?l k))"
      by (intro item_lower_bound_point [OF sorted]) auto
    with r(2) have "r = int (item_lower_bound ?l k)" by (rule part_point_unique)
    then show ?thesis by simp
  next
    case False
    then show ?thesis using ap r(2) by (auto simp: part_point_def)
  qed
  then show ?thesis using False pgm p(2) r(1) by (simp add: level_position_def)
qed

subsubsection \<open>Finding a key\<close>

text \<open>
  From level \<open>i\<close> on, \<open>find\<close> answers with the newest item of the key in the levels that are left.
\<close>

lemma find_from_result:
  assumes wf: "dpgm_wf P s" and cov: "pgm_covers P K N" "dpgm_bounded K N s"
    and i: "min_level \<le> i"
  shows "\<exists>r. find_from P lower_bound s k i = Some r
    \<and> (case newest (between (data_levels s) i (used_levels s - 1)) k of
         None \<Rightarrow> r = None
       | Some x \<Rightarrow> if deleted x then r = None else \<exists>it. r = Some it \<and> deref s it = Some x)"
  using i
proof (induction "used_levels s - i" arbitrary: i)
  case 0
  then have "between (data_levels s) i (used_levels s - 1) = []"
    using wf by (cases "used_levels s = i") (auto simp: between_def dpgm_wf_def)
  then show ?case using 0 by (simp add: find_from.simps [of P lower_bound s k i])
next
  case (Suc n)
  then have lt: "i < used_levels s" by simp
  let ?D = "data_levels s" and ?l = "data_levels s ! (i - min_level)"
  note w = wf [unfolded dpgm_wf_def]
  have in_D: "i - min_level < length ?D" using w lt Suc.prems by linarith
  have get: "get_level s i = Some ?l" using in_D Suc.prems by (simp add: get_level_nth)
  have sorted: "sorted_items ?l" using w nth_mem [OF in_D] by blast
  have split: "between ?D i (used_levels s - 1) = ?l @ between ?D (i + 1) (used_levels s - 1)"
    using lt Suc.prems w by (intro between_step) auto
  have IH: "\<exists>r. find_from P lower_bound s k (i + 1) = Some r
    \<and> (case newest (between ?D (i + 1) (used_levels s - 1)) k of
         None \<Rightarrow> r = None
       | Some x \<Rightarrow> if deleted x then r = None else \<exists>it. r = Some it \<and> deref s it = Some x)"
    by (rule Suc.hyps(1)) (use Suc in auto)
  show ?case
  proof (cases "?l = []")
    case True
    then show ?thesis using IH split get lt by (simp add: find_from.simps [of P lower_bound s k i])
  next
    case False
    obtain it where it: "level_position P lower_bound s i ?l k = Some it" "it \<le> item_lower_bound ?l k"
        "k \<in> set (item_keys ?l) \<longrightarrow> it = item_lower_bound ?l k"
      using level_position_result [OF wf cov Suc.prems lt False] by blast
    note nl = newest_at_lower_bound [OF sorted, of k]
    show ?thesis
    proof (cases "newest ?l k")
      case None
      then have "k \<notin> set (item_keys ?l)" using newest_None by metis
      then have "it < length ?l \<Longrightarrow> item_first (?l ! it) \<noteq> k" by (metis image_eqI list.set_map nth_mem)
      moreover have "it \<le> length ?l" using it(2) item_lower_bound_le order.trans by blast
      ultimately have "find_from P lower_bound s k i = find_from P lower_bound s k (i + 1)"
        using False it(1) get lt by (auto simp: find_from.simps [of P lower_bound s k i])
      then show ?thesis using IH split None by (simp add: newest_append)
    next
      case (Some x)
      then have "k \<in> set (item_keys ?l)" using newest_None by (metis option.distinct(1))
      then have "it = item_lower_bound ?l k" using it(3) by blast
      then have x: "it < length ?l" "?l ! it = x" "item_first x = k" using nl Some by (auto split: if_splits)
      then have "find_from P lower_bound s k i = Some (if deleted x then None else Some (i, it))"
        using False it(1) get lt by (auto simp: find_from.simps [of P lower_bound s k i])
      moreover have "deref s (i, it) = Some x" using x get by (simp add: deref_def)
      ultimately show ?thesis using split Some by (simp add: newest_append)
    qed
  qed
qed

lemma EqualityLookup_newest:
  assumes "dpgm_wf P s" and "pgm_covers P K N" and "dpgm_bounded K N s"
  shows "DynamicPGM_EqualityLookup P lower_bound s k = Some (lookup_spec (concat (data_levels s)) k)"
  using find_from_result [OF assms order.refl, of k] unfolding between_all [OF assms(1)]
  by (auto simp: DynamicPGM_EqualityLookup_def dpgm_find_def lookup_spec_def
      split: option.splits if_splits)

end

subsection \<open>The queue of an iterator\<close>

definition queue_items :: "('k, 'p) dpgm \<Rightarrow> (nat \<times> nat) list \<Rightarrow> 'k item multiset" where
  "queue_items s q = (\<Sum>(l, p)\<leftarrow>q. mset (drop p (data_levels s ! (l - min_level))))"

definition queue_valid :: "('k, 'p) dpgm \<Rightarrow> (nat \<times> nat) list \<Rightarrow> bool" where
  "queue_valid s q \<longleftrightarrow> (\<forall>it\<in>set q. deref s it \<noteq> None)"

lemma queue_items_simps [simp]:
  "queue_items s [] = {#}"
  "queue_items s ((l, p) # q) = mset (drop p (data_levels s ! (l - min_level))) + queue_items s q"
  "queue_items s (q @ q') = queue_items s q + queue_items s q'"
  by (simp_all add: queue_items_def)

lemma deref_facts:
  assumes "deref s (l, p) = Some x"
  shows "get_level s l = Some (data_levels s ! (l - min_level))"
    and "l - min_level < length (data_levels s)"
    and "p < length (data_levels s ! (l - min_level))" and "x = data_levels s ! (l - min_level) ! p"
    and "drop p (data_levels s ! (l - min_level)) = x # drop (Suc p) (data_levels s ! (l - min_level))"
proof -
  show "get_level s l = Some (data_levels s ! (l - min_level))" "l - min_level < length (data_levels s)"
    and p: "p < length (data_levels s ! (l - min_level))" and x: "x = data_levels s ! (l - min_level) ! p"
    using assms by (auto simp: deref_def get_level_def bind_eq_Some_conv split: if_splits)
  show "drop p (data_levels s ! (l - min_level)) = x # drop (Suc p) (data_levels s ! (l - min_level))"
    unfolding x by (rule Cons_nth_drop_Suc [OF p, symmetric])
qed

lemma queue_top_min:
  assumes "queue_valid s (p # ps)"
  shows "\<exists>t x. queue_top s p ps = Some t \<and> t \<in> set (p # ps) \<and> deref s t = Some x
    \<and> (\<forall>q\<in>set (p # ps). \<forall>y. deref s q = Some y \<longrightarrow> item_first x \<le> item_first y)"
  using assms
proof (induction ps arbitrary: p)
  case Nil
  then show ?case by (auto simp: queue_valid_def)
next
  case (Cons q ps)
  obtain x y where xy: "deref s p = Some x" "deref s q = Some y"
    using Cons.prems by (auto simp: queue_valid_def)
  let ?b = "if item_first y < item_first x \<or> item_first x = item_first y \<and> fst q < fst p then q else p"
  have "queue_valid s (?b # ps)" using Cons.prems by (auto simp: queue_valid_def)
  from Cons.IH [OF this] obtain t z where t: "queue_top s ?b ps = Some t" "t \<in> set (?b # ps)" "deref s t = Some z"
    "\<forall>r\<in>set (?b # ps). \<forall>y. deref s r = Some y \<longrightarrow> item_first z \<le> item_first y" by blast
  have "item_first z \<le> item_first x \<and> item_first z \<le> item_first y"
    using t(4) xy by (auto split: if_splits)
  then have "\<forall>r\<in>set (p # q # ps). \<forall>y. deref s r = Some y \<longrightarrow> item_first z \<le> item_first y"
    using t(4) xy by auto
  moreover have "t \<in> set (p # q # ps)" using t(2) by (auto split: if_splits)
  ultimately show ?case using t(1,3) xy by auto
qed

lemma queue_top_snoc:
  assumes "queue_valid s (p # ps)" and "deref s q = Some y" and "\<forall>r\<in>set (p # ps). fst r < fst q"
  shows "\<exists>t x. queue_top s p ps = Some t \<and> deref s t = Some x \<and>
    queue_top s p (ps @ [q]) = Some (if item_first y < item_first x then q else t)"
  using assms
proof (induction ps arbitrary: p)
  case Nil
  then show ?case by (auto simp: queue_valid_def)
next
  case (Cons r ps)
  obtain x z where xz: "deref s p = Some x" "deref s r = Some z"
    using Cons.prems by (auto simp: queue_valid_def)
  let ?b = "if item_first z < item_first x \<or> item_first x = item_first z \<and> fst r < fst p then r else p"
  have "\<exists>t x. queue_top s ?b ps = Some t \<and> deref s t = Some x \<and>
      queue_top s ?b (ps @ [q]) = Some (if item_first y < item_first x then q else t)"
    by (rule Cons.IH) (use Cons.prems in \<open>auto simp: queue_valid_def\<close>)
  then show ?case using xz by simp
qed

lemma queue_items_remove1:
  "(l, p) \<in> set q \<Longrightarrow>
     queue_items s q = mset (drop p (data_levels s ! (l - min_level))) + queue_items s (remove1 (l, p) q)"
  by (induction q) auto

lemma queue_items_from:
  "y \<in># queue_items s q \<Longrightarrow> \<exists>(l, p)\<in>set q. y \<in> set (drop p (data_levels s ! (l - min_level)))"
  by (induction q) auto

text \<open>Advancing the queue takes a smallest item out of it.\<close>

lemma advance_queue_step:
  assumes sorted: "\<forall>xs\<in>set (data_levels s). sorted_items xs"
    and valid: "queue_valid s (iter_queue it)" and ne: "iter_queue it \<noteq> []"
  shows "\<exists>top x q. advance_queue s it = Some (it\<lparr>iter_it := Some top, iter_queue := q\<rparr>)
    \<and> deref s top = Some x \<and> queue_valid s q
    \<and> queue_items s (iter_queue it) = add_mset x (queue_items s q)
    \<and> (\<forall>y\<in>#queue_items s (iter_queue it). item_first x \<le> item_first y)
    \<and> (\<forall>p ps. iter_queue it = p # ps \<longrightarrow> queue_top s p ps = Some top)"
proof -
  obtain p ps where q: "iter_queue it = p # ps" using ne by (cases "iter_queue it") auto
  obtain t x where t: "queue_top s p ps = Some t" "t \<in> set (p # ps)" "deref s t = Some x"
    "\<forall>q\<in>set (p # ps). \<forall>y. deref s q = Some y \<longrightarrow> item_first x \<le> item_first y"
    using queue_top_min valid unfolding q by blast
  obtain l j where lj: "t = (l, j)" by (cases t)
  note d = deref_facts [OF t(3) [unfolded lj]]
  let ?lev = "data_levels s ! (l - min_level)"
  let ?q = "remove1 t (p # ps) @ (if j + 1 \<noteq> length ?lev then [(l, j + 1)] else [])"
  have adv: "advance_queue s it = Some (it\<lparr>iter_it := Some t, iter_queue := ?q\<rparr>)"
    using t(1) d(1) by (auto simp: advance_queue_def q lj Let_def)
  have items: "queue_items s (p # ps) = add_mset x (queue_items s ?q)"
  proof -
    have "mset (drop (Suc j) ?lev) = queue_items s (if j + 1 \<noteq> length ?lev then [(l, j + 1)] else [])"
      using d(3) by auto
    then show ?thesis using queue_items_remove1 t(2) d(5) unfolding lj
      by (metis (no_types, lifting) add.commute mset.simps(2) queue_items_simps(3) union_mset_add_mset_left)
  qed
  have "queue_valid s ?q"
    using valid d unfolding q queue_valid_def
    by (auto simp: deref_def split: if_splits dest: notin_set_remove1)
  moreover have "item_first x \<le> item_first y" if y: "y \<in># queue_items s (p # ps)" for y
  proof -
    obtain m n where mn: "(m, n) \<in> set (p # ps)" "y \<in> set (drop n (data_levels s ! (m - min_level)))"
      using queue_items_from [OF y] by blast
    obtain z where z: "deref s (m, n) = Some z" using valid mn(1) unfolding q queue_valid_def by blast
    note dz = deref_facts [OF z]
    have "sorted_items (drop n (data_levels s ! (m - min_level)))"
      using sorted nth_mem [OF dz(2)] by (simp add: sorted_wrt_drop drop_map [symmetric])
    then have "item_first z \<le> item_first y" using mn(2) unfolding dz(5) by auto
    then show ?thesis using t(4) mn(1) z order.trans by blast
  qed
  ultimately show ?thesis using adv t(1,3) items unfolding q by blast
qed

subsection \<open>Range queries\<close>

definition range_sum :: "('k item \<Rightarrow> bool) \<Rightarrow> 'k item multiset \<Rightarrow> u64" where
  "range_sum Q M = (\<Sum>x\<in>#filter_mset Q M. item_second x)"

lemma range_sum_simps [simp]:
  "range_sum Q {#} = 0"
  "range_sum Q (add_mset x M) = (if Q x then item_second x + range_sum Q M else range_sum Q M)"
  "range_sum Q (M + N) = range_sum Q M + range_sum Q N"
  by (simp_all add: range_sum_def)

lemma range_sum_none: "(\<And>x. x \<in># M \<Longrightarrow> \<not> Q x) \<Longrightarrow> range_sum Q M = 0"
  by (induction M) auto

text \<open>The loop of a range query, once the queue of its iterator is initialised.\<close>

lemma range_loop_sum:
  assumes sorted: "\<forall>xs\<in>set (data_levels s). sorted_items xs"
    and "iter_level it = 255" and "iter_it it = Some l" and "deref s l = Some x"
    and "queue_valid s (iter_queue it)"
    and "\<forall>y\<in>#queue_items s (iter_queue it). item_first x \<le> item_first y"
  shows "range_loop P search s upper it res =
    Some (res + range_sum (\<lambda>y. item_first y \<le> upper) (add_mset x (queue_items s (iter_queue it))))"
  using assms(2-)
proof (induction "size (queue_items s (iter_queue it))" arbitrary: it l x res rule: less_induct)
  case less
  let ?S = "range_sum (\<lambda>y. item_first y \<le> upper)"
  show ?case
  proof (cases "item_first x \<le> upper")
    case False
    then have "?S (queue_items s (iter_queue it)) = 0"
      using less.prems(5) by (intro range_sum_none) fastforce
    then show ?thesis using False less.prems(2,3) by (simp add: range_loop.simps [of P search s upper it])
  next
    case le: True
    have next_adv: "iter_next P search s it = advance_queue s it"
      using less.prems(1) by (simp add: iter_next_def lazy_initialize_queue_def)
    show ?thesis
    proof (cases "iter_queue it = []")
      case True
      then show ?thesis
        using le less.prems(2,3) next_adv
        by (simp add: range_loop.simps [of P search s upper it] advance_queue_def dpgm_end_def
            range_loop.simps [of P search s upper "\<lparr>iter_it = None, iter_level = 255, initial_pairs = [], iter_queue = []\<rparr>"])
    next
      case False
      then obtain t z q where a: "advance_queue s it = Some (it\<lparr>iter_it := Some t, iter_queue := q\<rparr>)"
        "deref s t = Some z" "queue_valid s q" "queue_items s (iter_queue it) = add_mset z (queue_items s q)"
        "\<forall>y\<in>#queue_items s (iter_queue it). item_first z \<le> item_first y"
        using advance_queue_step [OF sorted less.prems(4)] by blast
      let ?it = "it\<lparr>iter_it := Some t, iter_queue := q\<rparr>"
      have "range_loop P search s upper ?it (res + item_second x) =
          Some (res + item_second x + ?S (add_mset z (queue_items s (iter_queue ?it))))"
        by (rule less.hyps) (use a less.prems in auto)
      then show ?thesis
        using le less.prems(2,3) next_adv a(1,4)
        by (simp add: range_loop.simps [of P search s upper it] add.assoc)
    qed
  qed
qed

text \<open>
  The iterator that \<open>lower_bound\<close> returns initialises its queue on the first step; from there on it
  behaves like the iterator over that queue.
\<close>

lemma range_loop_start:
  assumes sorted: "\<forall>xs\<in>set (data_levels s). sorted_items xs" and "used_levels s < 255"
    and valid: "queue_valid s (p # ps)" and top: "queue_top s p ps = Some t"
  shows "range_loop P search s upper
      \<lparr>iter_it = Some t, iter_level = used_levels s, initial_pairs = p # ps, iter_queue = []\<rparr> 0
    = Some (range_sum (\<lambda>y. item_first y \<le> upper) (queue_items s (p # ps)))"
proof -
  let ?it = "\<lparr>iter_it = Some t, iter_level = used_levels s, initial_pairs = p # ps, iter_queue = []\<rparr>"
  let ?full = "?it\<lparr>iter_queue := p # ps\<rparr>"
  have "queue_valid s (iter_queue ?full)" using valid by simp
  from advance_queue_step [OF sorted this]
  obtain x q where a: "advance_queue s ?full = Some (?full\<lparr>iter_it := Some t, iter_queue := q\<rparr>)"
    "deref s t = Some x" "queue_valid s q" "queue_items s (p # ps) = add_mset x (queue_items s q)"
    "\<forall>y\<in>#queue_items s (p # ps). item_first x \<le> item_first y"
    using top by auto
  let ?init = "?it\<lparr>iter_level := 255, iter_queue := q\<rparr>"
  have "lazy_pairs P search s (item_first x) (used_levels s) (p # ps) = Some (p # ps)"
    by (simp add: lazy_pairs.simps)
  then have "lazy_initialize_queue P search s ?it = Some ?init"
    using assms(2) a(1,2) by (simp add: lazy_initialize_queue_def)
  then have eq: "iter_next P search s ?it = iter_next P search s ?init"
    by (simp add: iter_next_def lazy_initialize_queue_def)
  have "range_loop P search s upper ?it 0 = range_loop P search s upper ?init 0"
    by (subst (1 2) range_loop.simps, simp only: eq, simp)
  also have "\<dots> = Some (0 + range_sum (\<lambda>y. item_first y \<le> upper) (add_mset x (queue_items s (iter_queue ?init))))"
    by (rule range_loop_sum [OF sorted]) (use a in auto)
  finally show ?thesis using a(4) by simp
qed

text \<open>The iterators that \<open>lower_bound\<close> collects: in every level the position of the key.\<close>

definition start_pairs :: "('k::linorder, 'p) dpgm \<Rightarrow> 'k \<Rightarrow> nat \<Rightarrow> nat \<Rightarrow> (nat \<times> nat) list" where
  "start_pairs s k i n =
     concat (map (\<lambda>j. let lev = data_levels s ! (j - min_level)
                      in if item_lower_bound lev k \<noteq> length lev then [(j, item_lower_bound lev k)] else [])
       [i..<n])"

lemma start_pairs_snoc:
  "i \<le> n \<Longrightarrow> start_pairs s k i (Suc n) = start_pairs s k i n @
     (let lev = data_levels s ! (n - min_level)
      in if item_lower_bound lev k \<noteq> length lev then [(n, item_lower_bound lev k)] else [])"
  by (simp add: start_pairs_def)

lemma start_pairs_facts:
  assumes "it \<in> set (start_pairs s k i n)"
  shows "i \<le> fst it" and "fst it < n"
    and "snd it = item_lower_bound (data_levels s ! (fst it - min_level)) k"
    and "snd it < length (data_levels s ! (fst it - min_level))"
proof -
  have *: "item_lower_bound lev k \<noteq> length lev \<Longrightarrow> item_lower_bound lev k < length lev" for lev :: "'a item list"
    using item_lower_bound_le [of lev k] by linarith
  show "i \<le> fst it" "fst it < n" "snd it = item_lower_bound (data_levels s ! (fst it - min_level)) k"
    "snd it < length (data_levels s ! (fst it - min_level))"
    using assms * by (auto simp: start_pairs_def Let_def split: if_splits)
qed

lemma start_pairs_valid:
  assumes "min_level \<le> i" and "n \<le> min_level + length (data_levels s)"
  shows "queue_valid s (start_pairs s k i n)"
  unfolding queue_valid_def
proof
  fix it assume "it \<in> set (start_pairs s k i n)"
  from start_pairs_facts [OF this] assms show "deref s it \<noteq> None"
    by (auto simp: deref_def get_level_def)
qed

lemma drop_lower_bound:
  assumes "sorted_items xs"
  shows "mset (drop (item_lower_bound xs k) xs) = filter_mset (\<lambda>x. k \<le> item_first x) (mset xs)"
proof -
  have split: "xs = takeWhile (\<lambda>x. item_first x < k) xs @ drop (item_lower_bound xs k) xs"
    unfolding item_lower_bound_split by simp
  have lo: "filter (\<lambda>x. k \<le> item_first x) (takeWhile (\<lambda>x. item_first x < k) xs) = []"
    by (auto simp: filter_empty_conv dest!: set_takeWhileD)
  have hi: "filter (\<lambda>x. k \<le> item_first x) (drop (item_lower_bound xs k) xs) = drop (item_lower_bound xs k) xs"
    using item_lower_bound_above [OF assms, of k]
    by (auto simp: filter_id_conv in_set_conv_nth)
  have "filter (\<lambda>x. k \<le> item_first x) xs = drop (item_lower_bound xs k) xs"
    by (subst split) (simp only: filter_append lo hi append_Nil)
  then show ?thesis by (metis mset_filter)
qed

lemma start_pairs_items:
  assumes sorted: "\<forall>xs\<in>set (data_levels s). sorted_items xs" and i: "min_level \<le> i"
    and "i \<le> n" and "n \<le> min_level + length (data_levels s)"
  shows "queue_items s (start_pairs s k i n) =
    filter_mset (\<lambda>x. k \<le> item_first x)
      (mset (concat (drop (i - min_level) (take (n - min_level) (data_levels s)))))"
  using assms(3,4)
proof (induction n rule: dec_induct)
  case base
  then show ?case by (simp add: start_pairs_def)
next
  case (step n)
  let ?lev = "data_levels s ! (n - min_level)"
  have len: "n - min_level < length (data_levels s)" using step i by linarith
  have "sorted_items ?lev" using sorted nth_mem [OF len] by blast
  note dl = drop_lower_bound [OF this, of k]
  have "take (Suc n - min_level) (data_levels s) = take (n - min_level) (data_levels s) @ [?lev]"
    using len step(1) i by (simp add: Suc_diff_le take_Suc_conv_app_nth)
  then have "drop (i - min_level) (take (Suc n - min_level) (data_levels s)) =
      drop (i - min_level) (take (n - min_level) (data_levels s)) @ [?lev]"
    using len step(1) by simp
  moreover have "drop (item_lower_bound ?lev k) ?lev = []" if "item_lower_bound ?lev k = length ?lev"
    using that by simp
  ultimately show ?case
    using step dl by (auto simp: start_pairs_snoc Let_def)
qed

lemma skip_below_lower_bound:
  "it \<le> item_lower_bound xs k \<Longrightarrow> skip_below xs k it = item_lower_bound xs k"
proof (induction xs arbitrary: it)
  case (Cons x xs)
  then show ?case
    by (cases it) (auto simp: skip_below_def item_lower_bound_def split: if_splits)
qed (simp add: skip_below_def item_lower_bound_def)

text \<open>The first of the collected iterators with a smallest key.\<close>

definition best :: "('k::linorder, 'p) dpgm \<Rightarrow> (nat \<times> nat) list \<Rightarrow> (nat \<times> nat) option" where
  "best s q = (case q of [] \<Rightarrow> None | p # ps \<Rightarrow> queue_top s p ps)"

lemma best_snoc:
  assumes "queue_valid s q" and "deref s r = Some y" and "\<forall>p\<in>set q. fst p < fst r"
  shows "Option.bind (case best s q of None \<Rightarrow> Some True
            | Some l \<Rightarrow> map_option (\<lambda>x. item_first y < item_first x) (deref s l))
           (\<lambda>smaller. f (if smaller then Some r else best s q)) = f (best s (q @ [r]))"
proof (cases q)
  case (Cons p ps)
  from queue_top_snoc [OF assms(1) [unfolded Cons] assms(2)] assms(3) Cons
  obtain t x where "queue_top s p ps = Some t" "deref s t = Some x"
    "queue_top s p (ps @ [r]) = Some (if item_first y < item_first x then r else t)" by auto
  then show ?thesis using Cons by (simp add: best_def)
qed (simp add: best_def)

context search_class
begin

lemma lower_bound_from_result:
  assumes wf: "dpgm_wf P s" and cov: "pgm_covers P K N" "dpgm_bounded K N s"
    and live: "\<forall>x\<in>set (concat (data_levels s)). \<not> deleted x"
    and i: "min_level \<le> i" "i \<le> used_levels s"
  shows "lower_bound_from P lower_bound s k i (best s (start_pairs s k min_level i)) (start_pairs s k min_level i)
    = Some (best s (start_pairs s k min_level (used_levels s)), start_pairs s k min_level (used_levels s))"
  using i
proof (induction "used_levels s - i" arbitrary: i)
  case 0
  then show ?case by (simp add: lower_bound_from.simps [of P lower_bound s k i])
next
  case (Suc n)
  then have lt: "i < used_levels s" by simp
  let ?l = "data_levels s ! (i - min_level)" and ?q = "start_pairs s k min_level i"
  let ?lb = "item_lower_bound (data_levels s ! (i - min_level)) k"
  note w = wf [unfolded dpgm_wf_def]
  have in_D: "i - min_level < length (data_levels s)" using w lt Suc.prems by linarith
  have get: "get_level s i = Some ?l" using in_D Suc.prems by (simp add: get_level_nth)
  have IH: "lower_bound_from P lower_bound s k (i + 1) (best s (start_pairs s k min_level (i + 1)))
      (start_pairs s k min_level (i + 1))
    = Some (best s (start_pairs s k min_level (used_levels s)), start_pairs s k min_level (used_levels s))"
    by (rule Suc.hyps(1)) (use Suc lt in auto)
  show ?case
  proof (cases "?l = []")
    case True
    then have "start_pairs s k min_level (i + 1) = ?q"
      using Suc.prems(1) by (simp add: start_pairs_snoc Let_def item_lower_bound_def)
    then show ?thesis
      using IH True lt get by (simp add: lower_bound_from.simps [of P lower_bound s k i])
  next
    case False
    obtain pos where pos: "level_position P lower_bound s i ?l k = Some pos" "pos \<le> ?lb"
      using level_position_result [OF wf cov Suc.prems(1) lt False] by blast
    have dead: "\<forall>x\<in>set ?l. \<not> deleted x" using live nth_mem [OF in_D] by auto
    have "skip_deleted ?l j = j" for j
    proof -
      have "\<forall>x\<in>set (drop j ?l). \<not> deleted x" using dead by (meson in_set_dropD)
      then show ?thesis unfolding skip_deleted_def by (cases "drop j ?l") auto
    qed
    moreover have "pos = ?lb" if "i < MinIndexedLevel P"
      using pos(1) that by (simp add: level_position_def)
    ultimately have it: "(if i < MinIndexedLevel P then skip_deleted ?l pos else skip_below ?l k pos) = ?lb"
      using skip_below_lower_bound [OF pos(2)] by simp
    show ?thesis
    proof (cases "?lb = length ?l")
      case True
      then have "start_pairs s k min_level (i + 1) = ?q"
        using Suc.prems(1) by (simp add: start_pairs_snoc Let_def)
      then show ?thesis
        using IH False True it pos(1) lt get by (simp add: lower_bound_from.simps [of P lower_bound s k i] Let_def)
    next
      case ne: False
      then have "?lb < length ?l" using item_lower_bound_le [of ?l k] by linarith
      then have y: "deref s (i, ?lb) = Some (?l ! ?lb)" using get by (simp add: deref_def)
      have snoc: "start_pairs s k min_level (i + 1) = ?q @ [(i, ?lb)]"
        using Suc.prems(1) ne by (simp add: start_pairs_snoc Let_def)
      have valid: "queue_valid s ?q" using w Suc.prems by (intro start_pairs_valid) auto
      have lower: "\<forall>p\<in>set ?q. fst p < fst (i, ?lb)" using start_pairs_facts(2) by fastforce
      have "lower_bound_from P lower_bound s k i (best s ?q) ?q =
        Option.bind (case best s ?q of None \<Rightarrow> Some True
            | Some l \<Rightarrow> map_option (\<lambda>x. item_first (?l ! ?lb) < item_first x) (deref s l))
          (\<lambda>smaller. lower_bound_from P lower_bound s k (i + 1)
             (if smaller then Some (i, ?lb) else best s ?q) (?q @ [(i, ?lb)]))"
        by (subst lower_bound_from.simps)
          (simp only: lt get False ne it pos(1) y Option.bind.simps Let_def if_True if_False simp_thms)
      also have "\<dots> = lower_bound_from P lower_bound s k (i + 1) (best s (?q @ [(i, ?lb)])) (?q @ [(i, ?lb)])"
        by (rule best_snoc [OF valid y lower])
      finally show ?thesis using IH unfolding snoc by simp
    qed
  qed
qed

lemma RangeQuery_sum:
  assumes wf: "dpgm_wf P s" and cov: "pgm_covers P K N" "dpgm_bounded K N s"
    and live: "\<forall>x\<in>set (concat (data_levels s)). \<not> deleted x" and used: "used_levels s < 255"
  shows "DynamicPGM_RangeQuery P lower_bound s lower upper =
    Some (range_sum (\<lambda>x. lower \<le> item_first x \<and> item_first x \<le> upper) (dpgm_items s))"
proof -
  note w = wf [unfolded dpgm_wf_def]
  let ?q = "start_pairs s lower min_level (used_levels s)"
  have sorted: "\<forall>xs\<in>set (data_levels s). sorted_items xs" using w by blast
  have "start_pairs s lower min_level min_level = []" by (simp add: start_pairs_def)
  moreover have "min_level \<le> used_levels s" using w by simp
  ultimately have lb: "lower_bound_from P lower_bound s lower min_level None [] = Some (best s ?q, ?q)"
    using lower_bound_from_result [OF wf cov live order.refl, of lower] by (simp add: best_def)
  have valid: "queue_valid s ?q" using w by (intro start_pairs_valid) auto
  have "concat (take (used_levels s - min_level) (data_levels s)) = concat (data_levels s)"
    using between_all [OF wf] w by (simp add: between_def)
  then have items: "queue_items s ?q = filter_mset (\<lambda>x. lower \<le> item_first x) (dpgm_items s)"
    using w start_pairs_items [OF sorted order.refl, of "used_levels s" lower] by simp
  have sum: "range_sum (\<lambda>y. item_first y \<le> upper) (queue_items s ?q) =
      range_sum (\<lambda>x. lower \<le> item_first x \<and> item_first x \<le> upper) (dpgm_items s)"
    unfolding items range_sum_def by (simp add: filter_filter_mset conj_commute)
  show ?thesis
  proof (cases ?q)
    case Nil
    have "DynamicPGM_RangeQuery P lower_bound s lower upper = range_loop P lower_bound s upper dpgm_end 0"
      unfolding DynamicPGM_RangeQuery_def dpgm_lower_bound_def lb by (simp add: Nil best_def)
    also have "\<dots> = Some 0" by (subst range_loop.simps) (simp add: dpgm_end_def)
    finally show ?thesis using sum Nil by simp
  next
    case (Cons p ps)
    obtain t where t: "queue_top s p ps = Some t" using queue_top_min valid Cons by metis
    have "DynamicPGM_RangeQuery P lower_bound s lower upper = range_loop P lower_bound s upper
        \<lparr>iter_it = Some t, iter_level = used_levels s, initial_pairs = p # ps, iter_queue = []\<rparr> 0"
      unfolding DynamicPGM_RangeQuery_def dpgm_lower_bound_def lb by (simp add: Cons best_def t)
    also have "\<dots> = Some (range_sum (\<lambda>y. item_first y \<le> upper) (queue_items s (p # ps)))"
      by (rule range_loop_start [OF sorted used _ t]) (use valid Cons in simp)
    finally show ?thesis using sum Cons by simp
  qed
qed

end

end
