(* ===== verification/Dynamic_Pgm_Correct.thy ===== *)
theory Dynamic_Pgm_Correct
  imports Dynamic_Pgm_Lookup Binary_Search
begin

text \<open>
  The dynamic PGM-index as a map: construction, sequences of insertions, lookups and range queries,
  and the states in which the code leaves its vectors.
\<close>

subsection \<open>Construction\<close>

lemma ceil_log2_le: "n \<le> 2 ^ ceil_log2 n"
proof (induction n rule: ceil_log2.induct)
  case (1 n)
  show ?case
  proof (cases "n \<le> 1")
    case False
    then have "(n + 1) div 2 \<le> 2 ^ ceil_log2 ((n + 1) div 2)" using 1 by simp
    then have "n \<le> 2 * 2 ^ ceil_log2 ((n + 1) div 2)" by linarith
    then show ?thesis using False by (simp add: ceil_log2.simps [of n])
  qed (simp add: ceil_log2.simps [of n])
qed

lemma ceil_log2_gt: "1 < n \<Longrightarrow> 2 ^ (ceil_log2 n - 1) < n"
proof (induction n rule: ceil_log2.induct)
  case (1 n)
  show ?case
  proof (cases "(n + 1) div 2 \<le> 1")
    case True
    then have "n = 2" using 1(2) by simp
    then show ?thesis by (simp add: ceil_log2.simps)
  next
    case False
    let ?h = "(n + 1) div 2"
    have "2 ^ (ceil_log2 ?h - 1) < ?h" using 1 False by simp
    moreover have "ceil_log2 ?h > 0" using False by (subst ceil_log2.simps) simp
    then have "(2::nat) ^ ceil_log2 ?h = 2 * 2 ^ (ceil_log2 ?h - 1)" by (cases "ceil_log2 ?h") auto
    ultimately have "2 ^ ceil_log2 ?h < n" by linarith
    then show ?thesis using 1(2) by (simp add: ceil_log2.simps [of n])
  qed
qed

lemma ceil_log2_bounds:
  assumes "2 ^ m < n"
  shows "m < ceil_log2 n"
proof (rule ccontr)
  assume "\<not> ?thesis"
  then have "(2::nat) ^ ceil_log2 n \<le> 2 ^ m" by (intro power_increasing) auto
  then show False using ceil_log2_le [of n] assms by linarith
qed

lemma ceil_log2_bounds':
  assumes "n \<le> 2 ^ m"
  shows "ceil_log2 n \<le> m"
proof (cases "n \<le> 1")
  case False
  then have "(2::nat) ^ (ceil_log2 n - 1) < 2 ^ m" using ceil_log2_gt [of n] assms by linarith
  then have "ceil_log2 n - 1 < m" by simp
  then show ?thesis by linarith
qed (simp add: ceil_log2.simps)

lemma reserve_ok:
  "reserve_levels s = (if max_fully_allocated_level - min_level < length (data_levels s) then Some s else None)"
proof -
  have "(\<forall>i\<in>set [min_level..<max_fully_allocated_level + 1]. get_level s i \<noteq> None)
      \<longleftrightarrow> max_fully_allocated_level - min_level < length (data_levels s)"
    by (auto simp: get_level_def max_fully_allocated_level_def min_level_def)
  then show ?thesis by (simp add: reserve_levels_def)
qed

abbreviation items_of :: "('k \<times> u64) list \<Rightarrow> 'k item list" where
  "items_of kvs \<equiv> map (\<lambda>(k, v). Item k v) kvs"

lemma item_keys_of: "item_keys (items_of kvs) = map fst kvs"
  by (auto simp: Item_def)

lemma update_last_replicate: "(replicate (Suc m) [])[m := t] = replicate m [] @ [t]"
  by (induction m) auto

lemma bulk_load_result:
  assumes sorted: "sorted (map fst kvs)" and large: "2 ^ 14 < length kvs"
    and P: "min_level < MinIndexedLevel P" and cov: "pgm_covers P K N" "fst ` set kvs \<subseteq> K" "length kvs \<le> N"
  shows "\<exists>s. DynamicPGM_Build P kvs = Some s \<and> dpgm_wf P s \<and> dpgm_fill s \<and> dpgm_items s = mset (items_of kvs)"
proof -
  let ?u = "ceil_log2 (length kvs) + 1" and ?t = "items_of kvs"
  have u: "16 \<le> ?u" using ceil_log2_bounds [OF large] by simp
  let ?D = "(replicate (?u - min_level) [])[?u - 1 - min_level := ?t]"
  let ?ps = "if ?u - 1 \<ge> MinIndexedLevel P
    then (replicate (?u - MinIndexedLevel P) (pgm_empty P))[?u - 1 - MinIndexedLevel P := the (pgm_build P ?t)] else []"
  let ?s = "\<lparr>used_levels = ?u, data_levels = ?D, pgm_levels = ?ps\<rparr>"
  have "kvs \<noteq> []" using large by auto
  have "set (item_keys ?t) \<subseteq> K" "sorted_items ?t" using cov(2) sorted unfolding item_keys_of by simp_all
  then obtain p where p: "pgm_build P ?t = Some p"
    using pgm_coversD [OF cov(1), of ?t] cov(3) \<open>kvs \<noteq> []\<close> by auto
  then have load: "DynamicPGM_Build P kvs = Some ?s"
    using u \<open>kvs \<noteq> []\<close> by (auto simp: DynamicPGM_Build_def dpgm_bulk_load_def reserve_ok set_level_def set_pgm_def Let_def
        max_fully_allocated_level_def min_level_def)
  have nth: "?D ! j = (if j = ?u - 1 - min_level then ?t else [])" if "j < ?u - min_level" for j
    using that by simp
  have zero: "?D ! 0 = []" using u nth [of 0] by (simp add: min_level_def)
  have "dpgm_wf P ?s"
    unfolding dpgm_wf_def
  proof (intro conjI)
    show "\<forall>xs\<in>set (data_levels ?s). sorted_items xs"
      using sorted set_update_subset_insert [of "replicate (?u - min_level) []" "?u - 1 - min_level" ?t]
      by (auto simp: item_keys_of simp del: map_map split: if_splits)
    show "\<forall>j<length (data_levels ?s). used_levels ?s \<le> j + min_level \<longrightarrow> data_levels ?s ! j = []"
      by auto
    show "\<forall>i. MinIndexedLevel P \<le> i \<and> i < used_levels ?s \<longrightarrow>
          i - MinIndexedLevel P < length (pgm_levels ?s) \<and>
          (data_levels ?s ! (i - min_level) \<noteq> [] \<longrightarrow>
           pgm_build P (data_levels ?s ! (i - min_level)) = Some (pgm_levels ?s ! (i - MinIndexedLevel P)))"
    proof (intro allI impI)
      fix i assume i: "MinIndexedLevel P \<le> i \<and> i < used_levels ?s"
      then have "i - min_level < ?u - min_level" using P by auto
      moreover have "i = ?u - 1" if "i - min_level = ?u - 1 - min_level" using that i P u by linarith
      ultimately show "i - MinIndexedLevel P < length (pgm_levels ?s) \<and>
          (data_levels ?s ! (i - min_level) \<noteq> [] \<longrightarrow>
           pgm_build P (data_levels ?s ! (i - min_level)) = Some (pgm_levels ?s ! (i - MinIndexedLevel P)))"
        using i nth [of "i - min_level"] p by (cases "i = ?u - 1") auto
    qed
  qed (use P u zero in \<open>auto simp: min_level_def\<close>)
  moreover have "dpgm_fill ?s"
    unfolding dpgm_fill_def
  proof (intro conjI allI impI)
    have n: "level_fill (?u - 1) (length ?t)"
      using ceil_log2_gt [of "length kvs"] ceil_log2_le [of "length kvs"] large by (simp add: level_fill_def)
    fix i assume i: "min_level < i \<and> i < used_levels ?s"
    then have j: "i - min_level < ?u - min_level" by auto
    show "level_fill i (length (data_levels ?s ! (i - min_level)))"
    proof (cases "i = ?u - 1")
      case True
      then show ?thesis using n nth [OF j] by simp
    next
      case False
      then have "i - min_level \<noteq> ?u - 1 - min_level" using i by auto
      then show ?thesis using nth [OF j] by (simp add: level_fill_def)
    qed
  next
    show "data_levels ?s ! (used_levels ?s - 1 - min_level) \<noteq> []"
      using nth [of "?u - 1 - min_level"] u \<open>kvs \<noteq> []\<close> by (simp add: min_level_def)
  qed
  moreover have "mset (concat ?D) = mset ?t"
  proof -
    have "?u - min_level = Suc (?u - 1 - min_level)" using u by (simp add: min_level_def)
    then have "?D = replicate (?u - 1 - min_level) [] @ [?t]" by (simp only: update_last_replicate)
    then show ?thesis by (simp only: concat_append) simp
  qed
  ultimately show ?thesis using load by auto
qed

subsection \<open>Sequences of insertions\<close>

fun insert_all :: "('k::linorder, 'p) pgm_ops \<Rightarrow> ('k \<times> u64) list \<Rightarrow> ('k, 'p) dpgm \<Rightarrow> ('k, 'p) dpgm option" where
  "insert_all P [] s = Some s"
| "insert_all P (kv # kvs) s = Option.bind (DynamicPGM_Insert P kv s) (insert_all P kvs)"

lemma distinct_mset_keys:
  "distinct (item_keys xs) \<longleftrightarrow> distinct (item_keys ys)" if "mset xs = mset ys"
  using that mset_eq_imp_distinct_iff [of "item_keys xs" "item_keys ys"] by simp

lemma insert_all_fresh:
  assumes "dpgm_wf P s" and "dpgm_fill s"
    and "distinct (map fst kvs @ item_keys (concat (data_levels s)))"
    and "pgm_covers P K N" and "dpgm_bounded K N s" and "fst ` set kvs \<subseteq> K" and "length kvs + size (dpgm_items s) \<le> N"
  shows "\<exists>s'. insert_all P kvs s = Some s' \<and> dpgm_wf P s' \<and> dpgm_fill s'
     \<and> dpgm_items s' = mset (items_of kvs) + dpgm_items s"
  using assms(1-3,5-)
proof (induction kvs arbitrary: s)
  case (Cons kv kvs)
  let ?x = "Item (fst kv) (snd kv)"
  have "used_levels s \<le> max 7 (54 + 1)"
    using Cons.prems(6) pgm_covers_bound [OF assms(4)] by (intro dpgm_fill_used [OF Cons.prems(1,2)]) simp
  then have used: "used_levels s \<le> 63" by simp
  have "distinct (item_keys (?x # concat (data_levels s)))" using Cons.prems(3) by (auto simp: Item_def)
  moreover have "item_first ?x \<in> K" "size (dpgm_items s) < N" using Cons.prems(5,6) by (simp_all add: Item_def)
  ultimately have "\<exists>s'. insert_item P ?x s = Some s' \<and> dpgm_wf P s' \<and> dpgm_fill s' \<and> dpgm_items s' = add_mset ?x (dpgm_items s)"
    using insert_fresh [OF Cons.prems(1,2) used _ assms(4) Cons.prems(4)] by blast
  then  obtain s1 where s1: "insert_item P ?x s = Some s1" "dpgm_wf P s1" "dpgm_fill s1"
    "dpgm_items s1 = add_mset ?x (dpgm_items s)" by blast
  have "mset (item_keys (concat (data_levels s1))) = add_mset (fst kv) (mset (item_keys (concat (data_levels s))))"
    using s1(4) by (simp add: Item_def)
  then have "mset (map fst kvs @ item_keys (concat (data_levels s1))) =
      mset (map fst (kv # kvs) @ item_keys (concat (data_levels s)))" by simp
  then have "distinct (map fst kvs @ item_keys (concat (data_levels s1)))"
    using Cons.prems(3) mset_eq_imp_distinct_iff by blast
  moreover have size: "length kvs + size (dpgm_items s1) \<le> N" using Cons.prems(6) unfolding s1(4) by simp
  moreover have "dpgm_bounded K N s1"
    using size Cons.prems(4,5) arg_cong [OF s1(4), of "\<lambda>M. item_first ` set_mset M"] by (auto simp: dpgm_bounded_def Item_def)
  moreover have "fst ` set kvs \<subseteq> K" using Cons.prems(5) by simp
  ultimately obtain s' where "insert_all P kvs s1 = Some s'" "dpgm_wf P s'" "dpgm_fill s'"
    "dpgm_items s' = mset (items_of kvs) + dpgm_items s1"
    using Cons.IH [OF s1(2,3)] by blast
  then show ?case using s1(1,4) by (cases kv) (auto simp: DynamicPGM_Insert_def dpgm_insert_def)
qed simp

text \<open>With distinct keys a lookup depends only on the items, not on their order.\<close>

lemma newest_distinct:
  "distinct (item_keys xs) \<Longrightarrow> newest xs k = Some x \<longleftrightarrow> x \<in> set xs \<and> item_first x = k"
  by (induction xs) auto

lemma newest_in: "newest xs k = Some x \<Longrightarrow> x \<in> set xs"
  by (induction xs) (auto split: if_splits)

lemma lookup_spec_items:
  assumes "mset xs = mset (items_of kvs)" and "distinct (map fst kvs)"
  shows "lookup_spec xs k = (case map_of kvs k of None \<Rightarrow> OVERFLOW | Some v \<Rightarrow> v)"
proof -
  have keys: "distinct (item_keys (items_of kvs))" using assms(2) unfolding item_keys_of .
  then have "distinct (item_keys xs)" using distinct_mset_keys [OF assms(1)] by blast
  note nd = newest_distinct [OF this]
  have set: "set xs = set (items_of kvs)" using assms(1) by (metis set_mset_mset)
  show ?thesis
  proof (cases "map_of kvs k")
    case None
    then have "k \<notin> set (map fst kvs)" by (simp add: map_of_eq_None_iff)
    moreover have "set (item_keys xs) = set (map fst kvs)"
      unfolding set_map set by (force simp: Item_def image_image)
    ultimately have "newest xs k = None" using newest_None [of xs k] by simp
    then show ?thesis using None by (simp add: lookup_spec_def)
  next
    case (Some v)
    then have "Item k v \<in> set xs" using set map_of_SomeD [OF Some] by force
    then have "newest xs k = Some (Item k v)" using nd by (simp add: Item_def)
    then show ?thesis using Some by (simp add: lookup_spec_def Item_def)
  qed
qed

lemma range_sum_items:
  "range_sum (\<lambda>x. lo \<le> item_first x \<and> item_first x \<le> hi) (mset (items_of kvs)) =
     (\<Sum>(k, v)\<leftarrow>filter (\<lambda>(k, v). lo \<le> k \<and> k \<le> hi) kvs. v)"
  by (induction kvs) (auto simp: Item_def)

subsection \<open>The index is a map\<close>

lemma dpgm_bounded_items:
  assumes "dpgm_items s = mset (items_of kvs)" and "fst ` set kvs \<subseteq> K" and "length kvs \<le> N"
  shows "dpgm_bounded K N s"
proof -
  have "set (concat (data_levels s)) = set (items_of kvs)" using assms(1) by (metis set_mset_mset)
  then have "set (item_keys (concat (data_levels s))) = set (item_keys (items_of kvs))" unfolding set_map by simp
  also have "\<dots> = fst ` set kvs" unfolding item_keys_of by simp
  finally have "set (item_keys (concat (data_levels s))) \<subseteq> K" using assms(2) by simp
  moreover have "size (dpgm_items s) \<le> N" unfolding assms(1) using assms(3) by simp
  ultimately show ?thesis unfolding dpgm_bounded_def ..
qed

lemma dynamic_pgm_queries:
  assumes "search_class lb ub"
    and "dpgm_wf P s" and "dpgm_fill s" and "pgm_covers P K N"
    and "dpgm_items s = mset (items_of kvs)" and "distinct (map fst kvs)" and "fst ` set kvs \<subseteq> K" and "length kvs \<le> N"
  shows "DynamicPGM_EqualityLookup P lb s k = Some (case map_of kvs k of None \<Rightarrow> OVERFLOW | Some v \<Rightarrow> v)"
    and "DynamicPGM_RangeQuery P lb s lo hi =
      Some (\<Sum>(k, v)\<leftarrow>filter (\<lambda>(k, v). lo \<le> k \<and> k \<le> hi) kvs. v)"
proof -
  have small: "dpgm_bounded K N s" by (rule dpgm_bounded_items [OF assms(5,7,8)])
  then have "used_levels s \<le> max 7 (54 + 1)"
    using pgm_covers_bound [OF assms(4)] by (intro dpgm_fill_used [OF assms(2,3)]) (simp add: dpgm_bounded_def)
  then have used: "used_levels s < 255" by simp
  have "set (concat (data_levels s)) = set (items_of kvs)" using assms(5) by (metis set_mset_mset)
  then have live: "\<forall>x\<in>set (concat (data_levels s)). \<not> deleted x" by (auto simp: Item_def)
  show "DynamicPGM_EqualityLookup P lb s k = Some (case map_of kvs k of None \<Rightarrow> OVERFLOW | Some v \<Rightarrow> v)"
    unfolding search_class.EqualityLookup_newest [OF assms(1,2,4) small]
    by (simp add: lookup_spec_items [OF assms(5,6)])
  show "DynamicPGM_RangeQuery P lb s lo hi = Some (\<Sum>(k, v)\<leftarrow>filter (\<lambda>(k, v). lo \<le> k \<and> k \<le> hi) kvs. v)"
    unfolding search_class.RangeQuery_sum [OF assms(1,2,4) small live used] assms(5)
    by (simp only: range_sum_items)
qed

text \<open>C4. Build and insert: on a sorted array of more than \<open>2 ^ 14\<close> pairs, followed by any sequence of
  insertions of fresh keys, every insertion stays inside its vectors and returns; an equality
  lookup then gives the value of the key, or \<^verbatim>\<open>OVERFLOW\<close> for a key that is not there, and a range
  query gives the sum, modulo \<open>2 ^ 64\<close>, of the values of the keys in the range.\<close>

theorem dynamic_pgm_correct:
  assumes "sorted (map fst data)" and "2 ^ 14 < length data"
    and "distinct (map fst (data @ kvs))" and "min_level < MinIndexedLevel P"
    and "pgm_covers P K N" and "fst ` set (data @ kvs) \<subseteq> K" and "length (data @ kvs) \<le> N"
  shows "\<exists>s s'. DynamicPGM_Build P data = Some s \<and> insert_all P kvs s = Some s' \<and>
    (\<forall>k. DynamicPGM_EqualityLookup P (\<lambda>a b key s at. BranchingBinarySearch_lower_bound a b key s at (<)) s' k =
        Some (case map_of (data @ kvs) k of None \<Rightarrow> OVERFLOW | Some v \<Rightarrow> v)) \<and>
    (\<forall>lo hi. DynamicPGM_RangeQuery P (\<lambda>a b key s at. BranchingBinarySearch_lower_bound a b key s at (<)) s' lo hi =
        Some (\<Sum>(k, v)\<leftarrow>filter (\<lambda>(k, v). lo \<le> k \<and> k \<le> hi) (data @ kvs). v))"
proof -
  obtain s where s: "DynamicPGM_Build P data = Some s" "dpgm_wf P s" "dpgm_fill s"
    "dpgm_items s = mset (items_of data)"
    using bulk_load_result [OF assms(1,2,4,5)] assms(6,7) by auto
  have "mset (map fst kvs @ item_keys (concat (data_levels s))) = mset (map fst (data @ kvs))"
    using arg_cong [OF s(4), of "image_mset item_first"] item_keys_of [of data]
    by (simp flip: mset_map del: map_map)
  then have "distinct (map fst kvs @ item_keys (concat (data_levels s)))"
    using assms(3) mset_eq_imp_distinct_iff by blast
  moreover have "dpgm_bounded K N s" using assms(6,7) by (intro dpgm_bounded_items [OF s(4)]) auto
  moreover have "fst ` set kvs \<subseteq> K" "length kvs + size (dpgm_items s) \<le> N" using assms(6,7) s(4) by auto
  ultimately obtain s' where s': "insert_all P kvs s = Some s'" "dpgm_wf P s'" "dpgm_fill s'"
    "dpgm_items s' = mset (items_of kvs) + dpgm_items s"
    using insert_all_fresh [OF s(2,3) _ assms(5)] by blast
  then have "dpgm_items s' = mset (items_of (data @ kvs))" using s(4) by simp
  from dynamic_pgm_queries [OF binary.search_class_axioms s'(2,3) assms(5) this assms(3,6,7)]
  show ?thesis using s(1) s'(1) by blast
qed

text \<open>
  A large array of even keys followed by two odd ones, with an index whose approximate range is the
  whole level.
\<close>

definition whole_level :: "('k, nat) pgm_ops" where
  "whole_level = \<lparr>MinIndexedLevel = 18, pgm_empty = 0, pgm_build = (\<lambda>xs. Some (length xs)),
     pgm_find = (\<lambda>n k. Some \<lparr>ap_pos = 0, ap_lo = 0, ap_hi = n\<rparr>)\<rparr>"

lemma whole_level_covers: "pgm_covers whole_level UNIV (2 ^ 53)"
  by (auto simp: pgm_covers_def whole_level_def range_ok_def item_lower_bound_le)

theorem dynamic_pgm_correct_witness:
  "\<exists>s s'. DynamicPGM_Build whole_level (map (\<lambda>i. (2 * i, of_nat i)) [0..<20000]) = Some s \<and>
     insert_all whole_level [(5, 70), (1, 90)] s = Some s' \<and>
     DynamicPGM_EqualityLookup whole_level
       (\<lambda>a b key s at. BranchingBinarySearch_lower_bound a b key s at (<)) s' (1::nat) = Some 90"
proof -
  let ?data = "map (\<lambda>i. (2 * i, of_nat i :: u64)) [0..<20000] :: (nat \<times> u64) list"
  have keys: "map fst ?data = map ((*) 2) [0..<20000]" by simp
  have "sorted (map fst ?data)" unfolding keys by (simp add: sorted_map sorted_wrt_mono_rel [OF _ sorted_upt])
  moreover have "(2::nat) ^ 14 < length ?data" by simp
  moreover have "distinct (map fst (?data @ [(5, 70), (1, 90)]))"
    unfolding map_append keys by (auto simp: distinct_map inj_on_def) presburger
  moreover have "length (?data @ [(5, 70), (1, 90)]) \<le> 2 ^ 53" by simp
  moreover have "min_level < MinIndexedLevel whole_level" by (simp add: whole_level_def min_level_def)
  ultimately have "\<exists>s s'. DynamicPGM_Build whole_level ?data = Some s \<and>
     insert_all whole_level [(5, 70), (1, 90)] s = Some s' \<and>
     DynamicPGM_EqualityLookup whole_level
       (\<lambda>a b key s at. BranchingBinarySearch_lower_bound a b key s at (<)) s' 1 =
     Some (case map_of (?data @ [(5, 70), (1, 90)]) 1 of None \<Rightarrow> OVERFLOW | Some v \<Rightarrow> v)"
    using dynamic_pgm_correct [OF _ _ _ _ whole_level_covers subset_UNIV, of ?data "[(5, 70), (1, 90)]"] by meson
  moreover have "map_of ?data 1 = None" by (auto simp: map_of_eq_None_iff)
  ultimately show ?thesis by (simp add: map_add_def)
qed

subsection \<open>One insertion is an update\<close>

text \<open>
  The newest items after a merge into an empty level: those of the buffer with the new item, then
  those of the levels.
\<close>

lemma merge_out_newest:
  assumes wf: "dpgm_wf P s" and i: "min_level < i" "i < used_levels s"
    and live: "\<forall>y\<in>set (concat (data_levels s)). \<not> deleted y" "\<not> deleted x"
  shows "newest (merge_out s i x) k = newest (buffer_with (data_levels s ! 0) x @ between (data_levels s) (min_level + 1) (i - 1)) k"
proof -
  let ?D = "data_levels s" and ?b = "buffer_with (data_levels s ! 0) x"
  note w = wf [unfolded dpgm_wf_def]
  have len: "i - min_level < length ?D" using w i by auto
  have sorted0: "sorted_items (?D ! 0)" using w nth_mem [OF wf_nonempty [OF wf]] by blast
  have "set ?b = insert x (set (?D ! 0))"
    using arg_cong [OF mset_buffer_with [of "?D ! 0" x], of set_mset] by simp
  then have no_del: "\<forall>y\<in>set ?b \<union> set (between ?D (min_level + 1) (i - 1)). \<not> deleted y"
    using live unfolding levels_split_at [OF i(1) len] by auto
  show ?thesis
    by (rule newest_merged [OF _ _ sorted_buffer_with [OF sorted0] _ no_del]) (use w len i in auto)
qed

lemma merge_out_nonempty:
  assumes "dpgm_wf P s" and "min_level < i" "i < used_levels s"
    and "\<forall>y\<in>set (concat (data_levels s)). \<not> deleted y" "\<not> deleted x"
  shows "merge_out s i x \<noteq> []"
proof
  assume e: "merge_out s i x = []"
  have "sorted_items (data_levels s ! 0)" using assms(1) nth_mem [OF wf_nonempty [OF assms(1)]] unfolding dpgm_wf_def by blast
  from newest_buffer_with [OF this, of x "item_first x"] show False
    using merge_out_newest [OF assms, of "item_first x"] unfolding e newest_append by simp
qed

lemma merged_state_newest:
  assumes wf: "dpgm_wf P s" and i: "min_level < i" "i < used_levels s"
    and empty: "data_levels s ! (i - min_level) = []"
    and live: "\<forall>y\<in>set (concat (data_levels s)). \<not> deleted y" "\<not> deleted x"
  shows "newest (concat (data_levels (merged_state P x i s))) k =
    (if k = item_first x then Some x else newest (concat (data_levels s)) k)"
proof -
  let ?D = "data_levels s" and ?b = "buffer_with (data_levels s ! 0) x"
  note w = wf [unfolded dpgm_wf_def]
  have len: "i - min_level < length ?D" using w i by auto
  note split = levels_split [OF i(1) len empty]
  have sorted0: "sorted_items (?D ! 0)" using w nth_mem [OF wf_nonempty [OF wf]] by blast
  note merge_out_newest [OF wf i live, of k]
  moreover have "concat (replicate n [] @ xs # D) = xs @ concat D" for n and xs :: "'a item list" and D
    by (induction n) auto
  ultimately show ?thesis
    unfolding merged_state_data [OF i(1) len] split
    by (simp add: newest_append newest_buffer_with [OF sorted0] split: option.split)
qed

lemma insert_item_newest:
  assumes wf: "dpgm_wf P s" and fill: "dpgm_fill s" and used: "used_levels s \<le> 63"
    and live: "\<forall>y\<in>set (concat (data_levels s)). \<not> deleted y" "\<not> deleted x"
    and cov: "pgm_covers P K N" "dpgm_bounded K N s" "item_first x \<in> K" "size (dpgm_items s) < N"
  shows "\<exists>s'. insert_item P x s = Some s' \<and> dpgm_wf P s' \<and> dpgm_bounded K N s' \<and>
    (\<forall>k. map_option item_second (newest (concat (data_levels s')) k) =
      (if k = item_first x then Some (item_second x)
       else map_option item_second (newest (concat (data_levels s)) k))) \<and>
    (\<forall>y\<in>set (concat (data_levels s')). \<not> deleted y)"
proof -
  let ?D = "data_levels s"
  let ?ip = "item_lower_bound (?D ! 0) (item_first x)"
  note w = wf [unfolded dpgm_wf_def]
  have ne: "?D \<noteq> []" using wf_nonempty [OF wf] by auto
  have get: "get_level s min_level = Some (?D ! 0)" using ne by (simp add: get_level_def)
  have sorted0: "sorted_items (?D ! 0)" using w nth_mem [of 0 ?D] ne by auto
  define same where "same \<longleftrightarrow> ?ip \<noteq> length (?D ! 0) \<and> item_first (?D ! 0 ! ?ip) = item_first x
    \<and> item_second (?D ! 0 ! ?ip) = item_second x"
  consider (same) same | (room) "\<not> same" "length (?D ! 0) < 2 ^ (min_level + 1) - 1"
    | (full) "\<not> same" "length (?D ! 0) = 2 ^ (min_level + 1) - 1"
    using w by linarith
  then show ?thesis
  proof cases
    case same
    then have "insert_item P x s = Some s"
      unfolding insert_item_def get by (simp add: Let_def same_def)
    moreover have "newest (concat ?D) (item_first x) = Some (?D ! 0 ! ?ip)"
      using same item_lower_bound_le [of "?D ! 0" "item_first x"]
      unfolding concat_split0 [OF ne] newest_append newest_at_lower_bound [OF sorted0] same_def
      by (simp add: order_less_le)
    ultimately show ?thesis using wf live same cov(2) by (auto simp: same_def)
  next
    case room
    let ?s = "s\<lparr>data_levels := ?D[0 := buffer_with (?D ! 0) x]\<rparr>"
    have "used_levels s \<noteq> min_level" using w by simp
    then have ins: "insert_item P x s = Some ?s"
      using room unfolding insert_item_def get same_def
      by (auto simp: Let_def set_level0 [of s] ne buffer_with_def)
    have cc: "concat (data_levels ?s) = buffer_with (?D ! 0) x @ concat (tl ?D)"
      using concat_update0 [OF ne] by simp
    have buffer: "set (buffer_with (?D ! 0) x) = insert x (set (?D ! 0))"
      using arg_cong [OF mset_buffer_with [of "?D ! 0" x], of set_mset] by simp
    then have "\<forall>y\<in>set (concat (data_levels ?s)). \<not> deleted y"
      using live unfolding cc concat_split0 [OF ne] by auto
    moreover have "newest (concat (data_levels ?s)) k = (if k = item_first x then Some x else newest (concat ?D) k)" for k
      unfolding cc concat_split0 [OF ne] newest_append newest_buffer_with [OF sorted0] by simp
    moreover have "size (dpgm_items ?s) \<le> Suc (size (dpgm_items s))"
      unfolding cc concat_split0 [OF ne] by simp
    then have "dpgm_bounded K N ?s"
      using cov buffer unfolding dpgm_bounded_def cc concat_split0 [OF ne] by auto
    ultimately show ?thesis using ins buffer_path_wf [OF wf room(2)] by auto
  next
    case full
    have build: "pgm_build P (merge_out (add_level P i s) i x) \<noteq> None"
      if i: "min_level < i" "i \<le> used_levels s" "data_levels (add_level P i s) ! (i - min_level) = []" for i
    proof -
      note al = add_level_facts [OF wf i(2)]
      have "merge_out (add_level P i s) i x \<noteq> []"
        by (rule merge_out_nonempty [OF al(1) i(1) al(2) live(1) [folded al(4)] live(2)])
      then show ?thesis
        using merge_out_builds [OF cov(1) al(1) i(1) al(2), of x] cov(2-4) unfolding dpgm_bounded_def al(4) by auto
    qed
    obtain i r where t: "find_target s (min_level + 1) (2 ^ (min_level + 1)) = Some (i, r)"
      "min_level < i" "i \<le> used_levels s" "data_levels (add_level P i s) ! (i - min_level) = []"
      "pairwise_logarithmic_merge P x (i - 1) r ?ip (add_level P i s) = Some (merged_state P x i (add_level P i s))"
      using merge_path [OF wf fill used full(2) build] by blast
    note al = add_level_facts [OF wf t(3)]
    let ?a = "add_level P i s"
    let ?s = "merged_state P x i ?a"
    have ins: "insert_item P x s = Some ?s"
      using full t(1,5) unfolding insert_item_def get same_def by (auto simp: Let_def)
    have live': "\<forall>y\<in>set (concat (data_levels ?a)). \<not> deleted y" using live(1) unfolding al(4) .
    note nw = merged_state_newest [OF al(1) t(2) al(2) t(4) live' live(2), unfolded al(4)]
    note len = al(3)
    note split = levels_split [OF t(2) len t(4)]
    note out = merge_out_facts [OF al(1) t(2) al(2), of x]
    have cc: "concat (data_levels ?s) = merge_out ?a i x @ concat (drop (Suc (i - min_level)) (data_levels ?a))"
      unfolding merged_state_data [OF t(2) len] by simp
    have sub: "set (concat (data_levels ?s)) \<subseteq> insert x (set (concat (data_levels ?a)))"
      using out(2) unfolding cc split by auto
    then have "\<forall>y\<in>set (concat (data_levels ?s)). \<not> deleted y" using live' live(2) by auto
    moreover have "size (dpgm_items ?s) \<le> Suc (size (dpgm_items s))"
      using merged_state_size [OF al(1) t(2) al(2) t(4), of x] unfolding al(4) by simp
    then have "dpgm_bounded K N ?s" using sub cov(2-4) unfolding dpgm_bounded_def al(4) by auto
    ultimately show ?thesis using ins nw merged_state_wf [OF al(1) t(2) al(2) build [OF t(2-4)]] by auto
  qed
qed

text \<open>C5. One insertion updates the map, whether or not the key was there: from a state of the index
  that satisfies its invariant and has no tombstones, \<^verbatim>\<open>Insert\<close> returns, the lookup of the inserted
  key gives the inserted value, and the lookup of every other key gives what it gave before.\<close>

theorem dynamic_pgm_insert_lookup:
  assumes "dpgm_wf P s" and "dpgm_fill s" and "pgm_covers P K N"
    and "\<forall>y\<in>set (concat (data_levels s)). \<not> deleted y"
    and "dpgm_bounded K N s" and "key \<in> K" and "size (dpgm_items s) < N"
  shows "\<exists>s'. DynamicPGM_Insert P (key, v) s = Some s' \<and> dpgm_wf P s' \<and>
    (\<forall>k. DynamicPGM_EqualityLookup P (\<lambda>a b key s at. BranchingBinarySearch_lower_bound a b key s at (<)) s' k =
       (if k = key then Some v
        else DynamicPGM_EqualityLookup P (\<lambda>a b key s at. BranchingBinarySearch_lower_bound a b key s at (<)) s k))"
proof -
  have "size (dpgm_items s) < 2 ^ 53" using assms(7) pgm_covers_bound [OF assms(3)] by simp
  from dpgm_fill_used [OF assms(1,2) this] have "used_levels s \<le> max 7 (53 + 1)" .
  then have used: "used_levels s \<le> 63" by simp
  have "\<not> deleted (Item key v)" "item_first (Item key v) \<in> K" using assms(6) by (simp_all add: Item_def)
  from insert_item_newest [OF assms(1,2) used assms(4) this(1) assms(3,5) this(2) assms(7)]
  obtain s' where s': "insert_item P (Item key v) s = Some s'" "dpgm_wf P s'"
    "dpgm_bounded K N s'" "\<forall>y\<in>set (concat (data_levels s')). \<not> deleted y"
    and nw: "\<And>k. map_option item_second (newest (concat (data_levels s')) k) =
      (if k = key then Some v else map_option item_second (newest (concat (data_levels s)) k))"
    by (auto simp: Item_def)
  have live: "lookup_spec xs k = (case map_option item_second (newest xs k) of None \<Rightarrow> OVERFLOW | Some v \<Rightarrow> v)"
    if "\<forall>y\<in>set xs. \<not> deleted y" for xs :: "'a item list" and k
    using that newest_in by (fastforce simp: lookup_spec_def split: option.split)
  note new = search_class.EqualityLookup_newest [OF binary.search_class_axioms s'(2) assms(3) s'(3)]
  note old = search_class.EqualityLookup_newest
    [OF binary.search_class_axioms assms(1,3,5)]
  show ?thesis
    unfolding DynamicPGM_Insert_def dpgm_insert_def
    using s'(1,2) by (auto simp: new old live [OF s'(4)] live [OF assms(4)] nw)
qed

text \<open>The update of a key of the buffer.\<close>

theorem dynamic_pgm_insert_lookup_witness:
  "\<exists>s'. DynamicPGM_Insert whole_level (5, 70)
       \<lparr>used_levels = 7, data_levels = [[Item (3::nat) 30, Item 5 50]], pgm_levels = []\<rparr> = Some s' \<and>
     DynamicPGM_EqualityLookup whole_level
       (\<lambda>a b key s at. BranchingBinarySearch_lower_bound a b key s at (<)) s' 5 = Some 70"
proof -
  let ?s = "\<lparr>used_levels = 7, data_levels = [[Item (3::nat) 30, Item 5 50]], pgm_levels = []\<rparr> :: (nat, nat) dpgm"
  have "dpgm_wf whole_level ?s"
    by (auto simp: dpgm_wf_def whole_level_def min_level_def Item_def)
  moreover have "dpgm_fill ?s" by (auto simp: dpgm_fill_def min_level_def)
  ultimately show ?thesis
    using dynamic_pgm_insert_lookup [OF _ _ whole_level_covers, of ?s 5 70] by (auto simp: Item_def dpgm_bounded_def)
qed

subsection \<open>Accesses outside the vectors\<close>

text \<open>C31. The constructors reserve memory in levels that do not exist: the default constructor always,
  the bulk-loading constructor for every array of at most \<open>2 ^ 14\<close> pairs.\<close>

theorem dynamic_pgm_constructors_out_of_bounds:
  "dpgm_default = (None :: ('k, 'p) dpgm option) \<and>
   (length kvs \<le> 2 ^ 14 \<longrightarrow> dpgm_bulk_load P kvs = None)"
proof -
  have "dpgm_bulk_load P kvs = None" if "length kvs \<le> 2 ^ 14"
    using ceil_log2_bounds' [OF that]
    by (auto simp: dpgm_bulk_load_def Let_def reserve_ok max_fully_allocated_level_def min_level_def)
  moreover have "dpgm_default = (None :: ('k, 'p) dpgm option)"
    by (simp add: dpgm_default_def reserve_ok max_fully_allocated_level_def min_level_def init_levels_def)
  ultimately show ?thesis by simp
qed

text \<open>An array of one hundred pairs.\<close>

theorem dynamic_pgm_constructors_out_of_bounds_witness:
  "dpgm_bulk_load whole_level (map (\<lambda>i. (i, 0)) [0..<100::nat]) = (None :: (nat, nat) dpgm option)"
proof -
  have "length (map (\<lambda>i. (i, 0 :: u64)) [0..<100::nat]) \<le> 2 ^ 14" by simp
  then show ?thesis
    using dynamic_pgm_constructors_out_of_bounds [of "map (\<lambda>i. (i, 0)) [0..<100::nat]" whole_level] by blast
qed


text \<open>C32. When the level that receives the merged items is not empty, the last merge writes into the
  smaller of the two temporary vectors: if no key occurs twice, it writes past its end.\<close>

theorem dynamic_pgm_merge_nonempty_target:
  assumes wf: "dpgm_wf P s" and i: "min_level < i" "i < used_levels s"
    and target: "data_levels s ! (i - min_level) \<noteq> []"
    and full: "length (data_levels s ! 0) = 2 ^ (min_level + 1) - 1"
    and fresh: "distinct (item_keys (x # concat (data_levels s)))"
    and slots: "slots = 2 ^ (min_level + 1) + levels_size (data_levels s) (min_level + 1) (i - 1)"
  shows "pairwise_logarithmic_merge P x (i - 1) slots (item_lower_bound (data_levels s ! 0) (item_first x)) s = None"
proof -
  let ?D = "data_levels s" and ?md = "(i - 1 - min_level) mod 2" and ?t = "data_levels s ! (i - min_level)"
  let ?first = "buffer_with (?D ! 0) x"
  let ?M = "merged (used_levels s) ?D (min_level + 1) (i - 1) ?first"
  note w = wf [unfolded dpgm_wf_def]
  have len: "i - min_level < length ?D" using w i by linarith
  have lim: "i - 1 + 1 - min_level \<le> length ?D" using len i(1) by simp
  have flen: "length ?first = 2 ^ (min_level + 1)" using full by simp
  have get: "get_level s i = Some ?t" "get_level s min_level = Some (?D ! 0)"
    using len i(1) by (auto simp: get_level_def)
  obtain fa where fa: "write_buf (replicate slots None) ?first = Some fa" "holds fa ?first" "length fa = slots"
    using write_holds [of ?first "replicate slots None"] flen slots by auto
  obtain fb where fb: "write_buf (replicate (slots + length ?t) None) ?first = Some fb" "holds fb ?first"
      "length fb = slots + length ?t"
    using write_holds [of ?first "replicate (slots + length ?t) None"] flen slots by auto
  let ?a = "if ?md \<noteq> 0 then fa else replicate slots None"
  let ?b = "if ?md \<noteq> 0 then replicate (slots + length ?t) None else fb"
  have lens: "length ?a = slots" "length ?b = slots + length ?t" using fa(3) fb(3) by simp_all
  have "\<exists>a b. merge_loop P ?md (i - 1) (min_level + 1) ?a ?b (length ?first) s =
      Some (a, b, length ?M, cleared P (min_level + 1) (i - 1) s) \<and>
      holds (if (max (min_level + 1) (i - 1 + 1) - min_level) mod 2 = ?md then a else b) ?M \<and>
      length a = length ?a \<and> length b = length ?b"
  proof (rule merge_loop_result)
    show "\<forall>j. MinIndexedLevel P \<le> j \<and> j \<le> i - 1 \<longrightarrow> j - MinIndexedLevel P < length (pgm_levels s)"
      using w i(2) by auto
    show "holds (if (min_level + 1 - min_level) mod 2 = ?md then ?a else ?b) ?first"
      using fa(2) fb(2) by (cases "?md = 0") auto
    show "i - 1 - min_level < length ?D" using len by linarith
  qed (use slots flen lens in auto)
  moreover have flip: "(i - min_level) mod 2 \<noteq> ?md"
    using odd_mod_flip [of ?md "i - 1 - min_level"] i(1) by (simp add: Suc_diff_Suc)
  ultimately obtain a b where loop: "merge_loop P ?md (i - 1) (min_level + 1) ?a ?b (length ?first) s =
      Some (a, b, length ?M, cleared P (min_level + 1) (i - 1) s)" "holds b ?M" "length a = slots"
    using i(1) lens(1) by (auto simp: max_def)
  note split = levels_split_at [OF i(1) len]
  have "mset (item_keys (?first @ between ?D (min_level + 1) (i - 1))) =
      mset (item_keys (x # ?D ! 0 @ between ?D (min_level + 1) (i - 1)))" by (simp add: mset_buffer_with)
  moreover have "distinct (item_keys (x # ?D ! 0 @ between ?D (min_level + 1) (i - 1)))"
    using fresh unfolding split by auto
  ultimately have "distinct (item_keys (?first @ between ?D (min_level + 1) (i - 1)))"
    using mset_eq_imp_distinct_iff by blast
  then have out: "mset ?M = add_mset x (mset (?D ! 0)) + mset (between ?D (min_level + 1) (i - 1))"
    using lim by (subst mset_merged) (auto simp: mset_buffer_with)
  have Mlen: "length ?M = slots"
    using arg_cong [OF out, of size] full slots levels_size_between [OF _ lim, of "min_level + 1"] by simp
  have "set ?M = insert x (set (?D ! 0)) \<union> set (between ?D (min_level + 1) (i - 1))"
    using arg_cong [OF out, of set_mset] by simp
  moreover have "set (item_keys (x # ?D ! 0 @ between ?D (min_level + 1) (i - 1))) \<inter> set (item_keys ?t) = {}"
    using fresh unfolding split by auto
  ultimately have "set (item_keys ?M) \<inter> set (item_keys ?t) = {}" by auto
  then have big: "slots < length (merge skip ?M ?t)" for skip
    using arg_cong [OF mset_merge, of ?M ?t size skip] Mlen target by simp
  let ?C = "cleared P (min_level + 1) (i - 1) s"
  have "get_level ?C i = Some ?t" using len i(1) by (auto simp: get_level_def cleared_def)
  moreover have "write_buf a (merge skip ?M ?t) = None" for skip
    using big [of skip] loop(3) by (simp add: write_buf_def)
  ultimately have last: "merge_loop P ?md i i a b (length ?M) ?C = None"
    using flip read_holds [OF loop(2)] by (subst merge_loop.simps) (simp add: Let_def)
  have "Suc (i - 1) = i" using i(1) by simp
  then have all: "merge_loop P ?md i (min_level + 1) ?a ?b (2 ^ (min_level + 1)) s = None"
    using merge_loop_last [of "min_level + 1" "i - 1" P ?md ?a ?b "2 ^ (min_level + 1)" s] loop(1) last i(1)
    unfolding flen by simp
  have idx: "i - 1 + 1 = i" "1 + min_level = min_level + 1" using i(1) by simp_all
  have bufs: "(if ?md \<noteq> 0 then write_buf (replicate slots None) ?first else Some (replicate slots None)) = Some ?a"
    "(if ?md \<noteq> 0 then Some (replicate (slots + length ?t) None)
      else write_buf (replicate (slots + length ?t) None) ?first) = Some ?b" using fa(1) fb(1) by simp_all
  show ?thesis
    unfolding pairwise_logarithmic_merge_def idx get Option.bind.simps Let_def buffer_with_def [symmetric]
    using bufs all target by (cases "?md = 0") simp_all
qed

text \<open>
  Level 7 is occupied, so the buffer is merged into level 8, which holds an item.
\<close>

theorem dynamic_pgm_merge_nonempty_target_witness:
  "pairwise_logarithmic_merge whole_level (Item 1000 0) 7 (2 ^ 7 + 1) 127
     \<lparr>used_levels = 9, data_levels = [map (\<lambda>i. Item i 0) [0..<127::nat], [Item 500 0], [Item 600 0]],
      pgm_levels = []\<rparr> = None"
proof -
  let ?b = "map (\<lambda>i. Item i 0) [0..<127::nat]"
  let ?s = "\<lparr>used_levels = 9, data_levels = [?b, [Item 500 0], [Item 600 0]], pgm_levels = []\<rparr> :: (nat, nat) dpgm"
  have keys: "item_keys ?b = [0..<127]" by (simp add: Item_def map_idI)
  have "sorted_items ?b" unfolding keys by simp
  then have wf: "dpgm_wf whole_level ?s"
    by (auto simp: dpgm_wf_def whole_level_def min_level_def less_Suc_eq numeral_3_eq_3 simp del: upt_Suc)
  have "distinct (item_keys (Item 1000 0 # concat (data_levels ?s)))"
    using keys by (simp del: map_map add: Item_def)
  moreover have "item_lower_bound ?b 1000 = 127" 
    by (subst item_lower_bound_def, subst takeWhile_eq_all_conv [THEN iffD2]) (auto simp: Item_def)
  moreover have "levels_size (data_levels ?s) (min_level + 1) (8 - 1) = 1"
    by (simp add: levels_size_def min_level_def)
  ultimately show ?thesis
    using dynamic_pgm_merge_nonempty_target [OF wf, of 8 "Item 1000 0" "2 ^ 7 + 1"]
    by (simp add: min_level_def Item_def)
qed

text \<open>An iterator that \<^verbatim>\<open>find\<close> returns cannot be incremented: its queue is initialised from level
  \<open>0\<close> on, and no such level exists.\<close>

theorem dynamic_pgm_find_iterator_increment:
  assumes "0 < used_levels s"
  shows "iter_next P search s (find_iterator (Some l)) = None"
proof -
  have "lazy_pairs P search s k 0 pairs = None" for k pairs
    using assms by (subst lazy_pairs.simps) (simp add: get_level_def min_level_def)
  then show ?thesis
    by (cases "deref s l") (simp_all add: iter_next_def find_iterator_def lazy_initialize_queue_def)
qed

text \<open>The iterator at the first item of a small index.\<close>

theorem dynamic_pgm_find_iterator_increment_witness:
  "iter_next whole_level (\<lambda>a b key s at. BranchingBinarySearch_lower_bound a b key s at (<))
     \<lparr>used_levels = 7, data_levels = [[Item (3::nat) 30, Item 5 50]], pgm_levels = []\<rparr>
     (find_iterator (Some (6, 0))) = None"
  by (rule dynamic_pgm_find_iterator_increment) simp

end
