(* ===== verification/Dynamic_Pgm_Bench.thy ===== *)
theory Dynamic_Pgm_Bench
  imports Benchmark_Verify Dynamic_Pgm_Correct
begin

text \<open>
  The dynamic PGM-index as an index of the benchmark: its wrapper keeps the contract of
  \<open>index_contract\<close>, so the verification of a consistent workload never fails on it.
\<close>

definition DynamicPGM :: "('k::linorder, 'p) pgm_ops \<Rightarrow> ('k, ('k, 'p) dpgm) index_ops" where
  "DynamicPGM P =
     \<lparr>ix_Build = (\<lambda>data. DynamicPGM_Build P (map (\<lambda>itm. (kv_key itm, kv_value itm)) data)),
      ix_EqualityLookup = (\<lambda>s lookup_key thread_id. DynamicPGM_EqualityLookup P
        (\<lambda>a b key s at'. BranchingBinarySearch_lower_bound a b key s at' (<)) s lookup_key),
      ix_RangeQuery = (\<lambda>s lower_key upper_key thread_id. DynamicPGM_RangeQuery P
        (\<lambda>a b key s at'. BranchingBinarySearch_lower_bound a b key s at' (<)) s lower_key upper_key),
      ix_Insert = (\<lambda>data thread_id s. DynamicPGM_Insert P (kv_key data, kv_value data) s)\<rparr>"

text \<open>The keys \<open>K\<close> and the number \<open>N\<close> of items for which the index of a level works.\<close>

definition dpgm_accepts :: "'k set \<Rightarrow> nat \<Rightarrow> ('k \<times> u64) list \<Rightarrow> bool" where
  "dpgm_accepts K N kvs \<longleftrightarrow> distinct (map fst kvs) \<and> fst ` set kvs \<subseteq> K \<and> length kvs \<le> N"

definition dpgm_represents :: "('k::linorder, 'p) pgm_ops \<Rightarrow> 'k set \<Rightarrow> nat \<Rightarrow> ('k, 'p) dpgm \<Rightarrow> ('k \<times> u64) list \<Rightarrow> bool" where
  "dpgm_represents P K N s kvs \<longleftrightarrow> dpgm_wf P s \<and> dpgm_fill s \<and> dpgm_items s = mset (items_of kvs) \<and> dpgm_accepts K N kvs"

definition dpgm_builds :: "'k set \<Rightarrow> nat \<Rightarrow> ('k::linorder \<times> u64) list \<Rightarrow> bool" where
  "dpgm_builds K N kvs \<longleftrightarrow> sorted (map fst kvs) \<and> 2 ^ 14 < length kvs \<and> dpgm_accepts K N kvs"

lemma dpgm_insert_represents:
  assumes "pgm_covers P K N" and "dpgm_represents P K N s kvs" and "dpgm_accepts K N (kvs @ [(k, v)])"
  shows "\<exists>s'. DynamicPGM_Insert P (k, v) s = Some s' \<and> dpgm_represents P K N s' (kvs @ [(k, v)])"
proof -
  have s: "dpgm_wf P s" "dpgm_fill s" "dpgm_items s = mset (items_of kvs)"
    using assms(2) by (auto simp: dpgm_represents_def)
  have "mset (item_keys (concat (data_levels s))) = mset (map fst kvs)"
    using arg_cong [OF s(3), of "image_mset item_first"] item_keys_of [of kvs]
    by (simp flip: mset_map del: map_map)
  then have "mset (map fst [(k, v)] @ item_keys (concat (data_levels s))) = mset (map fst (kvs @ [(k, v)]))" by simp
  then have "distinct (map fst [(k, v)] @ item_keys (concat (data_levels s)))"
    using assms(3) mset_eq_imp_distinct_iff unfolding dpgm_accepts_def by blast
  moreover have "fst ` set [(k, v)] \<subseteq> K" "length [(k, v)] + size (dpgm_items s) \<le> N"
    using assms(3) s(3) by (simp_all add: dpgm_accepts_def)
  moreover have "dpgm_bounded K N s"
    using assms(2) by (intro dpgm_bounded_items [OF s(3)]) (auto simp: dpgm_represents_def dpgm_accepts_def)
  ultimately obtain s' where "insert_all P [(k, v)] s = Some s'" "dpgm_wf P s'" "dpgm_fill s'"
    "dpgm_items s' = mset (items_of [(k, v)]) + dpgm_items s"
    using insert_all_fresh [OF s(1,2) _ assms(1)] by blast
  then show ?thesis
    using assms(3) s(3) by (auto simp: dpgm_represents_def bind_eq_Some_conv)
qed

lemma dynamic_pgm_contract:
  assumes "min_level < MinIndexedLevel P" and "pgm_covers P K N"
  shows "index_contract (DynamicPGM P) (dpgm_represents P K N) (dpgm_builds K N) (dpgm_accepts K N)"
proof
  fix data :: "'a KeyValue list" assume "dpgm_builds K N (kv_pairs data)"
  then have b: "sorted (map fst (kv_pairs data))" "2 ^ 14 < length (kv_pairs data)" "fst ` set (kv_pairs data) \<subseteq> K"
      "length (kv_pairs data) \<le> N" "dpgm_accepts K N (kv_pairs data)"
    by (auto simp: dpgm_builds_def dpgm_accepts_def)
  from bulk_load_result [OF b(1,2) assms b(3,4)] b(5)
  show "\<exists>i. ix_Build (DynamicPGM P) data = Some i \<and> dpgm_represents P K N i (kv_pairs data)"
    by (auto simp: DynamicPGM_def dpgm_represents_def kv_pairs_def)
next
  fix i kvs k t assume r: "dpgm_represents P K N i kvs"
  note q = dynamic_pgm_queries [OF binary.search_class_axioms _ _ assms(2)]
  have "ix_EqualityLookup (DynamicPGM P) i k t = Some (case map_of kvs k of None \<Rightarrow> OVERFLOW | Some v \<Rightarrow> v)"
    using r q(1) by (simp add: DynamicPGM_def dpgm_represents_def dpgm_accepts_def)
  then show "\<exists>r. ix_EqualityLookup (DynamicPGM P) i k t = Some r \<and>
      (if k \<in> fst ` set kvs then (k, r) \<in> set kvs else r = OVERFLOW)"
    by (cases "map_of kvs k") (simp_all add: map_of_eq_None_iff, metis image_eqI fst_conv map_of_SomeD)
next
  fix i kvs lo hi t assume r: "dpgm_represents P K N i kvs"
  then show "ix_RangeQuery (DynamicPGM P) i lo hi t = Some (pair_sum kvs lo hi)"
    using dynamic_pgm_queries(2) [OF binary.search_class_axioms _ _ assms(2)]
    by (simp add: DynamicPGM_def dpgm_represents_def dpgm_accepts_def pair_sum_def)
next
  fix i kvs k v t
  assume "dpgm_represents P K N i kvs" "dpgm_accepts K N (kvs @ [(k, v)])"
  then show "\<exists>i'. ix_Insert (DynamicPGM P) \<lparr>kv_key = k, kv_value = v\<rparr> t i = Some i' \<and>
      dpgm_represents P K N i' (kvs @ [(k, v)])"
    using dpgm_insert_represents [OF assms(2)] by (simp add: DynamicPGM_def)
qed



end
