(* ===== verification/Workload_Run.thy ===== *)
theory Workload_Run
  imports Generate_Correct Dynamic_Pgm_Bench
begin

text \<open>
  The workload generator, the benchmark and the dynamic PGM-index together: what \<^verbatim>\<open>generate\<close> writes for one
  thread is a workload that the benchmark verifies without a failure.
\<close>

subsection \<open>Composition of the generated workload\<close>

lemma count_ops_count:
  "count_ops ops st = \<lparr>
     st_negative = st_negative st + length (filter (\<lambda>x. op_op x = LOOKUP \<and> op_result x = NOT_FOUND) ops),
     st_lookup = st_lookup st + count (mset (map op_op ops)) LOOKUP,
     st_rq = st_rq st + count (mset (map op_op ops)) RANGE_QUERY,
     st_insert = st_insert st + count (mset (map op_op ops)) INSERT\<rparr>"
  by (induction ops arbitrary: st) auto

text \<open>C2. A workload generated for one thread, from distinct keys, is right: the pairs to load are sorted and have the
  positions of their keys as values, the expected result of every operation is the one that a map would
  give at that point of the sequence, and the operations are as many of each kind as the ratios say.\<close>

theorem generated_workload_right:
  assumes "generate T shuffle sample keys op_cnt rq nl ir pat hr 1 mix block_num bulkload_cnt = Some (bulk, opss)"
    and "generate_options_ok 1 mix block_num nl rq ir hr" and "0 < block_num" and "op_cnt < 2 ^ 52"
    and "\<forall>xs. mset (shuffle xs) = mset xs" and "\<forall>c xs. subseq (sample c xs) xs"
    and "distinct keys" and "length keys \<le> 2 ^ 53" and "pat \<noteq> Hotspot"
    and "op_counts op_cnt ir rq = (ic, lc, rc)"
  shows "\<exists>ops loads. opss = [ops] \<and> loads = (case bulk of None \<Rightarrow> add_values keys | Some d \<Rightarrow> d) \<and>
    sorted (map kv_key loads) \<and> positions keys (kv_pairs loads) \<and>
    ops_consistent keys (unique_upto (2 ^ 53)) (kv_pairs loads) ops \<and> block_wise block_num ops \<and>
    (\<exists>neg. print_op_stats opss = [\<lparr>st_negative = neg, st_lookup = lc, st_rq = rc, st_insert = ic\<rparr>]) \<and>
    ic + lc + rc = op_cnt"
proof -
  obtain ops loads where res: "opss = [ops]" "loads = (case bulk of None \<Rightarrow> add_values keys | Some d \<Rightarrow> d)"
    "sorted (map kv_key loads)" "positions keys (kv_pairs loads)"
    "ops_consistent keys (unique_upto (2 ^ 53)) (kv_pairs loads) ops" "length ops = op_cnt" "block_wise block_num ops"
    and kinds: "mset (map op_op ops) = replicate_mset ic INSERT + replicate_mset lc LOOKUP + replicate_mset rc RANGE_QUERY"
    using generate_one_thread [OF assms(1-8,10)] assms(9) by blast
  have "size (mset (map op_op ops)) = ic + lc + rc" unfolding kinds by simp
  moreover have "\<exists>neg. print_op_stats opss = [\<lparr>st_negative = neg, st_lookup = lc, st_rq = rc, st_insert = ic\<rparr>]"
    by (simp add: print_op_stats_def res(1) count_ops_count kinds [unfolded mset_map] op_codes)
  ultimately show ?thesis using res by simp
qed

subsection \<open>A lookup workload\<close>

text \<open>A concrete workload: one lookup of an existing key.\<close>

definition lookup_keys :: "u32 list" where
  "lookup_keys = map of_nat [0..<20000]"

lemma lookup_keys: "length lookup_keys = 20000" "sorted lookup_keys" "distinct lookup_keys"
proof -
  have mono: "(of_nat i :: u32) < of_nat j" if "i < j" "j < 20000" for i j :: nat
    using that by (simp add: word_less_nat_alt unat_of_nat)
  show "sorted lookup_keys" unfolding lookup_keys_def
    by (auto simp: sorted_iff_nth_mono intro: less_imp_le mono split: nat_diff_split elim: le_neq_implies_less)
      (metis mono le_less order_refl)
  show "distinct lookup_keys" unfolding lookup_keys_def
    by (auto simp: distinct_map inj_on_def) (metis mono less_irrefl linorder_neqE_nat)
qed (simp add: lookup_keys_def)

definition lookup_workload :: "(u32 KeyValue list option \<times> u32 Operation list list) option" where
  "lookup_workload = generate uint32_keys id take lookup_keys 1 0 0 0 Equality (1 / 10) 1 False 1 None"

lemma draw_existing_total:
  assumes "vec \<noteq> []" and "length vec < 2 ^ 32"
  shows "\<exists>k seed'. draw_existing vec seed = Some (k, seed')"
proof -
  let ?hi = "word_of_int (int (length vec) - 1) :: u32"
  have hi: "unat ?hi = length vec - 1"
    using assms by (cases vec) (simp_all add: unat_of_nat)
  then have "?hi \<noteq> - 1" using assms by (auto dest: arg_cong [of _ _ unat] simp: unsigned_minus_1_eq_mask mask_eq_exp_minus_1)
  then obtain r s where rs: "RandUint32_range 0 ?hi seed = Some (r, s)" "r \<le> ?hi"
    using RandUint32_range_result [of 0 ?hi seed] by auto
  then have "unat r < length vec" using assms hi by (simp add: word_le_nat_alt) (use assms(1) in \<open>cases vec; simp\<close>)
  then show ?thesis using rs(1) by (simp add: draw_existing_def)
qed

lemma lookup_workload_Some: "\<exists>k. lookup_workload = Some (None, [[\<lparr>op_op = LOOKUP, op_lo_key = k, op_hi_key = 0, op_result = 0\<rparr>]])"
proof -
  let ?data = "add_values lookup_keys"
  have len: "length ?data = 20000"
    using arg_cong [OF keys_add_values [of lookup_keys], of length] by (simp add: kv_pairs_def lookup_keys)
  then obtain k s where "draw_existing ?data 42 = Some (k, s)" using draw_existing_total [of ?data 42] by (cases ?data) auto
  moreover have "?data \<noteq> []" using len by auto
  ultimately show ?thesis using lookup_keys(2) len
    by (simp add: lookup_workload_def generate_def generate_layout_def op_counts_def generate_permute_def
        generate_lookup_def query_pairs_def uint32_keys_def op_codes)
qed

lemma take_subseq: "\<forall>c xs. subseq (take c xs) xs"
  by (metis append_take_drop_id list_emb_append2 subseq_order.refl subseq_rev_drop_many)

lemma lookup_data: "length (add_values lookup_keys) = 20000"
  using arg_cong [OF keys_add_values [of lookup_keys], of length] by (simp add: kv_pairs_def lookup_keys)

theorem generated_workload_right_witness:
  "\<exists>ops neg. lookup_workload = Some (None, [ops]) \<and> sorted (map kv_key (add_values lookup_keys)) \<and>
     ops_consistent lookup_keys (unique_upto (2 ^ 53)) (kv_pairs (add_values lookup_keys)) ops \<and>
     print_op_stats [ops] = [\<lparr>st_negative = neg, st_lookup = 1, st_rq = 0, st_insert = 0\<rparr>]"
proof -
  obtain ops where w: "lookup_workload = Some (None, [ops])" using lookup_workload_Some by blast
  have "op_counts 1 0 0 = (0, 1, 0)" by (simp add: op_counts_def)
  then show ?thesis
    using generated_workload_right [OF w [unfolded lookup_workload_def] _ _ _ _ take_subseq lookup_keys(3)] w
    by (simp add: generate_options_ok_def lookup_keys) blast
qed

subsection \<open>The generated workload passes\<close>

text \<open>Distinct keys of the data set are accepted when the data set is.\<close>

lemma unique_positions_accepts:
  assumes "unique_upto n kvs" and "positions keys kvs" and "set keys \<subseteq> K" and "length keys \<le> N"
  shows "dpgm_accepts K N kvs"
proof -
  have keys: "fst ` set kvs \<subseteq> set keys" using assms(2) by (force simp: positions_def)
  have dist: "distinct (map fst kvs)" using assms(1) by (simp add: unique_upto_def)
  then have "length kvs = card (fst ` set kvs)" using distinct_card [of "map fst kvs"] by simp
  also have "\<dots> \<le> length keys" using card_mono [OF _ keys] card_length [of keys] by simp
  finally show ?thesis using keys dist assms(3,4) by (auto simp: dpgm_accepts_def)
qed

lemma ops_consistent_accepts:
  assumes "ops_consistent keys A kvs ops" and "positions keys kvs"
    and "\<And>kvs. A kvs \<Longrightarrow> positions keys kvs \<Longrightarrow> B kvs"
  shows "ops_consistent keys B kvs ops"
  using assms(1,2)
proof (induction ops arbitrary: kvs)
  case (Cons x ops)
  have "positions keys (kvs @ [kv])" if "positions keys [kv]" for kv using that Cons.prems(2) by (auto simp: positions_def)
  then show ?case using Cons assms(3) by (auto split: if_splits)
qed simp

lemma ops_consistent_no_insert:
  assumes "ops_consistent keys A kvs ops" and "INSERT \<notin> set (map op_op ops)"
  shows "ops_consistent keys B kvs ops"
  using assms by (induction ops arbitrary: kvs) (auto split: if_splits)

text \<open>
  What an index with a contract needs to pass: it builds on the loaded pairs, and it accepts the insertions, if there are any.
\<close>

lemma generated_workload_runs:
  assumes contract: "index_contract I represents builds accepts"
    and gen: "generate T shuffle sample keys op_cnt rq nl ir pat hr 1 mix block_num bulkload_cnt = Some (bulk, opss)"
      "generate_options_ok 1 mix block_num nl rq ir hr" "0 < block_num" "op_cnt < 2 ^ 52"
      "\<forall>xs. mset (shuffle xs) = mset xs" "\<forall>c xs. subseq (sample c xs) xs"
      "distinct keys" "length keys \<le> 2 ^ 53"
    and pat: "pat \<noteq> Hotspot \<or> block_num = 1"
    and init: "Benchmark_init keys opss bulk is_mix insert_ratio block_num 1 = Some b"
    and b: "sorted (map kv_key (bn_index_data b)) \<Longrightarrow> unique_upto (2 ^ 53) (kv_pairs (bn_index_data b)) \<Longrightarrow>
      positions keys (kv_pairs (bn_index_data b)) \<Longrightarrow> builds (kv_pairs (bn_index_data b))"
    and a: "ir = 0 \<and> pat \<noteq> Hotspot \<or> (\<forall>kvs. unique_upto (2 ^ 53) kvs \<and> positions keys kvs \<longrightarrow> accepts kvs)"
    and run: "through \<or> build \<or> (\<forall>i<phase_count b. phase_start b i 0 < phase_limit b i 0)" "length ns = bn_ns_size b"
  shows "\<exists>r. Run num_repeats build through verify I E b ns = Some (r, False)"
proof -
  obtain ic lc rc where counts: "op_counts op_cnt ir rq = (ic, lc, rc)" by (cases "op_counts op_cnt ir rq")
  then obtain ops loads where res: "opss = [ops]" "loads = (case bulk of None \<Rightarrow> add_values keys | Some d \<Rightarrow> d)"
    "sorted (map kv_key loads)" "unique_upto (2 ^ 53) (kv_pairs loads)" "positions keys (kv_pairs loads)"
    "ops_consistent keys (unique_upto (2 ^ 53)) (kv_pairs loads) ops" "length ops = op_cnt" "block_wise block_num ops"
    and kinds: "pat \<noteq> Hotspot \<longrightarrow>
      mset (map op_op ops) = replicate_mset ic INSERT + replicate_mset lc LOOKUP + replicate_mset rc RANGE_QUERY"
    using generate_one_thread [OF gen] pat by blast
  have data: "bn_index_data b = loads"
    using init res(2) by (auto simp: Benchmark_init_def Let_def split: if_splits option.splits prod.splits)
  have "ops_consistent keys accepts (kv_pairs loads) ops"
  proof (cases "ir = 0 \<and> pat \<noteq> Hotspot")
    case True
    then have "ic = 0" using counts by (auto simp: op_counts_def Let_def split: if_splits)
    then have "INSERT \<notin># mset (map op_op ops)" using kinds True by (simp del: mset_map add: op_codes)
    then have "INSERT \<notin> set (map op_op ops)" unfolding set_mset_mset .
    with res(6) show ?thesis by (rule ops_consistent_no_insert)
  next
    case False
    then show ?thesis using ops_consistent_accepts [OF res(6,5)] a by blast
  qed
  moreover have "builds (kv_pairs loads)" using b res(3-5) unfolding data by blast
  moreover have "length ops \<le> 2 ^ 53" using res(7) gen(4) by simp
  ultimately show ?thesis
    using res(5) run unfolding data [symmetric]
    by (intro index_contract.verification_passes [OF contract init [unfolded res(1)] res(8)])
qed

text \<open>Generator, benchmark and dynamic PGM-index together: a workload generated for one thread from distinct keys, of
  which more than \<open>2 ^ 14\<close> are bulk-loaded, runs on the dynamic PGM-index without a failed verification and
  with all statistics defined, for every number of repetitions; whatever index the large levels have, as long as its windows are right for the keys.\<close>

theorem generated_workload_passes:
  assumes "generate T shuffle sample keys op_cnt rq nl ir pat hr 1 mix block_num bulkload_cnt = Some (bulk, opss)"
    and "generate_options_ok 1 mix block_num nl rq ir hr" and "0 < block_num" and "op_cnt < 2 ^ 52"
    and "\<forall>xs. mset (shuffle xs) = mset xs" and "\<forall>c xs. subseq (sample c xs) xs"
    and "distinct keys" and "set keys \<subseteq> K" and "length keys \<le> N" and "pat \<noteq> Hotspot \<or> block_num = 1"
    and "Benchmark_init keys opss bulk is_mix insert_ratio block_num 1 = Some b" and "2 ^ 14 < length (bn_index_data b)"
    and "min_level < MinIndexedLevel P" and "pgm_covers P K N"
    and "through \<or> build \<or> (\<forall>i<phase_count b. phase_start b i 0 < phase_limit b i 0)"
    and "length ns = bn_ns_size b"
  shows "\<exists>r. Run num_repeats build through verify (DynamicPGM P) E b ns = Some (r, False)"
proof -
  have len: "length keys \<le> 2 ^ 53" using assms(9) pgm_covers_bound [OF assms(14)] by simp
  note accepts = unique_positions_accepts [OF _ _ assms(8,9)]
  show ?thesis
    by (rule generated_workload_runs [OF dynamic_pgm_contract [OF assms(13,14)] assms(1-7) len assms(10,11) _ _ assms(15,16)])
      (use accepts assms(12) in \<open>auto simp: dpgm_builds_def kv_pairs_def o_def\<close>)
qed

theorem generated_workload_passes_witness:
  "\<exists>opss b r. lookup_workload = Some (None, opss) \<and> Benchmark_init lookup_keys opss None False 0 1 1 = Some b \<and>
     Run 3 False False True (DynamicPGM whole_level) (\<lambda>_. \<lparr>en_clock = \<lambda>_ _. 1, en_timing = \<lambda>_. 2, en_sqrt = Some\<rparr>) b [0] = Some (r, False)"
proof -
  obtain op where w: "lookup_workload = Some (None, [[op]])" using lookup_workload_Some by blast
  obtain b where b: "Benchmark_init lookup_keys [[op]] None False 0 1 1 = Some b" "bn_index_data b = add_values lookup_keys"
      "bn_ns_size b = 1" "phase_count b = 1" "phase_start b 0 0 = 0" "phase_limit b 0 0 = 1"
    using lookup_keys(2)
    by (simp add: Benchmark_init_def thread_ns_size_def thread_bounds_def phase_count_def phase_start_def phase_limit_def)
  have "\<exists>r. Run 3 False False True (DynamicPGM whole_level) (\<lambda>_. \<lparr>en_clock = \<lambda>_ _. 1, en_timing = \<lambda>_. 2, en_sqrt = Some\<rparr>) b [0] = Some (r, False)"
    by (rule generated_workload_passes [OF w [unfolded lookup_workload_def] _ _ _ _ take_subseq lookup_keys(3) subset_UNIV _ _ b(1) _ _ whole_level_covers])
      (simp_all add: generate_options_ok_def lookup_keys b lookup_data whole_level_def min_level_def)
  then show ?thesis using w b(1) by blast
qed

end
