(* ===== verification/Hull_Geometry.thy ===== *)
theory Hull_Geometry
  imports Complex_Main Prelude "HOL-Library.Sublist"
begin

text \<open>
  The geometry behind the piecewise linear model, over the rational plane: lines between lower and upper
  points, the two extreme lines, and the convex hulls from which the extreme lines are updated when an upper or a lower point
  is added. Reflection at the x-axis swaps the roles of upper and lower points.
\<close>

subsection \<open>Lines\<close>

type_synonym rpoint = "rat \<times> rat"
type_synonym line = "rat \<times> rat"

definition ev :: "line \<Rightarrow> rat \<Rightarrow> rat" where
  "ev f x = fst f * x + snd f"

definition slp :: "rpoint \<Rightarrow> rpoint \<Rightarrow> rat" where
  "slp p q = (snd q - snd p) / (fst q - fst p)"

text \<open>The line of slope \<open>a\<close> through a point, and the line through two points.\<close>

definition ray :: "rat \<Rightarrow> rpoint \<Rightarrow> line" where
  "ray a p = (a, snd p - a * fst p)"

definition thru :: "rpoint \<Rightarrow> rpoint \<Rightarrow> line" where
  "thru p q = ray (slp p q) p"

lemma fst_ray [simp]: "fst (ray a p) = a"
  by (simp add: ray_def)

lemma ev_ray: "ev (ray a p) x = snd p + a * (x - fst p)"
  by (simp add: ev_def ray_def algebra_simps)

lemma ev_ray_self [simp]: "ev (ray a p) (fst p) = snd p"
  by (simp add: ev_ray)

lemma fst_thru [simp]: "fst (thru p q) = slp p q"
  by (simp add: thru_def)

lemma ev_thru [simp]: "ev (thru p q) (fst p) = snd p" "fst p \<noteq> fst q \<Longrightarrow> ev (thru p q) (fst q) = snd q"
  by (simp_all add: thru_def ev_ray slp_def)

lemma ev_from: "ev f x = ev f x0 + fst f * (x - x0)"
  by (simp add: ev_def algebra_simps)

lemma slp_sym: "slp p q = slp q p"
  by (simp add: slp_def minus_divide_divide [of "snd q - snd p", symmetric])

lemma thru_sym: "fst p \<noteq> fst q \<Longrightarrow> thru p q = thru q p"
  using ev_thru [of p q] ev_from [of "thru p q" "fst q" "fst p"]
  by (simp add: thru_def ray_def slp_sym [of q p] slp_def field_simps)

lemma thru_ray: "fst p \<noteq> fst q \<Longrightarrow> thru p q = ray (slp p q) q"
  by (metis slp_sym thru_def thru_sym)

text \<open>Lines are compared by their slopes away from a point where their order is known.\<close>

lemma line_right:
  assumes "ev f x0 \<le> ev g x0" and "fst f \<le> fst g" and "x0 \<le> x"
  shows "ev f x \<le> ev g x"
  using assms mult_right_mono [of "fst f" "fst g" "x - x0"] ev_from [of f x x0] ev_from [of g x x0] by simp

lemma line_left:
  assumes "ev f x0 \<le> ev g x0" and "fst g \<le> fst f" and "x \<le> x0"
  shows "ev f x \<le> ev g x"
  using assms mult_right_mono [of "fst g" "fst f" "x0 - x"] ev_from [of f x x0] ev_from [of g x x0]
  by (simp add: algebra_simps)

lemma slope_le:
  assumes "ev f x0 \<le> ev g x0" and "ev g x \<le> ev f x" and "x0 < x"
  shows "fst g \<le> fst f"
proof (rule ccontr)
  assume "\<not> fst g \<le> fst f"
  then have "fst f * (x - x0) < fst g * (x - x0)" using assms(3) by simp
  then show False using assms(1,2) ev_from [of f x x0] ev_from [of g x x0] by simp
qed

text \<open>A line above two points is above the points below their chord.\<close>

lemma above_chord:
  assumes "snd p \<le> ev f (fst p)" and "snd r \<le> ev f (fst r)" and "fst p < fst q" and "fst q < fst r"
    and "snd q \<le> ev (thru p r) (fst q)"
  shows "snd q \<le> ev f (fst q)"
proof (cases "fst f \<le> slp p r")
  case True
  have "ev (thru p r) (fst q) \<le> ev f (fst q)"
    by (rule line_left [of _ "fst r"]) (use assms True in simp_all)
  then show ?thesis using assms(5) by simp
next
  case False
  have "ev (thru p r) (fst q) \<le> ev f (fst q)"
    by (rule line_right [of _ "fst p"]) (use assms False in simp_all)
  then show ?thesis using assms(5) by simp
qed

subsection \<open>Hulls\<close>

definition turn :: "rpoint \<Rightarrow> rpoint \<Rightarrow> rpoint \<Rightarrow> rat" where
  "turn p q r = (fst q - fst p) * (snd r - snd p) - (snd q - snd p) * (fst r - fst p)"

lemma turn_chord:
  assumes "fst p < fst r"
  shows "turn p q r \<le> 0 \<longleftrightarrow> ev (thru p r) (fst q) \<le> snd q" and "0 \<le> turn p q r \<longleftrightarrow> snd q \<le> ev (thru p r) (fst q)"
  using assms by (simp_all add: turn_def thru_def ev_ray slp_def field_simps)

text \<open>\<open>increasing\<close> in x; \<open>bends b\<close> to the right everywhere (\<open>b\<close> true), or to the left.\<close>

definition increasing :: "rpoint list \<Rightarrow> bool" where
  "increasing ps \<longleftrightarrow> sorted_wrt (\<lambda>p q. fst p < fst q) ps"

fun concave :: "rpoint list \<Rightarrow> bool" where
  "concave (p # q # r # ps) \<longleftrightarrow> turn p q r < 0 \<and> concave (q # r # ps)"
| "concave ps \<longleftrightarrow> True"

text \<open>The part of a hull from its first point of smallest slope to \<open>p\<close> on, as the scan of the code finds it.\<close>

fun tangent :: "rpoint \<Rightarrow> rpoint list \<Rightarrow> rpoint list" where
  "tangent p (q # r # qs) =
     (if (snd r - snd p) * (fst q - fst p) > (fst r - fst p) * (snd q - snd p) then q # r # qs else tangent p (r # qs))"
| "tangent p qs = qs"

text \<open>A new point on a hull of upper points, given from its last point on.\<close>

fun cover :: "rpoint \<Rightarrow> rpoint list \<Rightarrow> rpoint list" where
  "cover p (q # r # qs) = (if turn r q p \<le> 0 then cover p (r # qs) else p # q # r # qs)"
| "cover p qs = p # qs"

lemma steeper:
  assumes "fst q < fst p" and "fst r < fst p"
  shows "(snd r - snd p) * (fst q - fst p) > (fst r - fst p) * (snd q - snd p) \<longleftrightarrow> slp q p < slp r p"
  using assms by (simp add: slp_def field_simps)

lemma slp_turn:
  assumes "fst q < fst p" and "fst r < fst p"
  shows "slp q p < slp r p \<longleftrightarrow> 0 < turn q r p"
  using assms by (simp add: slp_def turn_def field_simps)

lemma climb_step:
  assumes "fst q < fst r" and "fst r < fst t" and "fst t < fst p" and "turn q r t < 0" and "slp q p < slp r p"
  shows "slp r p < slp t p"
proof -
  have "(fst r - fst q) * turn r t p = (fst t - fst r) * turn q r p - (fst p - fst r) * turn q r t"
    by (simp add: turn_def algebra_simps)
  moreover have "0 < (fst t - fst r) * turn q r p" using assms slp_turn [of q p r] by simp
  moreover have "(fst p - fst r) * turn q r t < 0" using assms by (simp add: mult_pos_neg)
  ultimately have "0 < (fst r - fst q) * turn r t p" by linarith
  then show ?thesis using assms slp_turn [of r p t] by (simp add: zero_less_mult_iff)
qed

lemma climb:
  assumes "concave (q # r # ps)" and "increasing (q # r # ps)" and "slp q p < slp r p" and "t \<in> set ps" and "fst t < fst p"
  shows "slp q p < slp t p"
  using assms
proof (induction ps arbitrary: q r)
  case (Cons u ps)
  have "fst q < fst r" "fst r < fst u" "fst u < fst p" using Cons.prems(2,4,5) by (auto simp: increasing_def)
  then have u: "slp r p < slp u p" using Cons.prems(1,3) by (intro climb_step [of q r u p]) simp_all
  have "slp r p < slp t p"
  proof (cases "t = u")
    case False
    have "concave (r # u # ps)" "increasing (r # u # ps)" using Cons.prems(1,2) by (simp_all add: increasing_def)
    then show ?thesis using Cons.IH [OF _ _ u _ Cons.prems(5)] Cons.prems(4) False by simp
  qed (use u in simp)
  then show ?case using Cons.prems(3) by (rule order.strict_trans [rotated])
qed simp

text \<open>\<open>before p r\<close>: \<open>r\<close> is left of \<open>p\<close>, or just below it.\<close>

definition before :: "rpoint \<Rightarrow> rpoint \<Rightarrow> bool" where
  "before p r \<longleftrightarrow> fst r < fst p \<or> fst r = fst p \<and> snd r < snd p"

lemma tangent_min:
  assumes "increasing lo" and "concave lo" and "lo \<noteq> []" and "fst (hd lo) < fst p" and "\<forall>r\<in>set lo. before p r"
  shows "suffix (tangent p lo) lo \<and> tangent p lo \<noteq> [] \<and> fst (hd (tangent p lo)) < fst p \<and>
    (\<forall>r\<in>set lo. fst r < fst p \<longrightarrow> slp (hd (tangent p lo)) p \<le> slp r p)"
  using assms
proof (induction p lo rule: tangent.induct)
  case (1 p q r qs)
  show ?case
  proof (cases "(snd r - snd p) * (fst q - fst p) > (fst r - fst p) * (snd q - snd p)")
    case True
    have "slp q p \<le> slp t p" if "t \<in> set (r # qs)" "fst t < fst p" for t
    proof -
      have "fst r < fst p" using that 1(2) by (auto simp: increasing_def)
      then have "slp q p < slp r p" using True 1(5) by (simp add: steeper)
      then show ?thesis using climb [OF 1(3,2), of p t] that by (cases "t = r") simp_all
    qed
    then show ?thesis using True 1(5) by auto
  next
    case False
    have r: "fst r < fst p"
    proof (rule ccontr)
      assume "\<not> fst r < fst p"
      then have "fst r = fst p" "snd r < snd p" using 1(6) by (auto simp: before_def)
      then show False using False 1(5) by (auto simp: mult_neg_neg)
    qed
    then have rq: "slp r p \<le> slp q p" using False 1(5) steeper [of q p r] by (simp add: not_less)
    have "concave (r # qs)" using 1(3) by (cases qs) simp_all
    then have IH: "suffix (tangent p (r # qs)) (r # qs)" "tangent p (r # qs) \<noteq> []" "fst (hd (tangent p (r # qs))) < fst p"
        "\<forall>t\<in>set (r # qs). fst t < fst p \<longrightarrow> slp (hd (tangent p (r # qs))) p \<le> slp t p"
      using 1(1) [OF False] 1(2,6) r by (auto simp: increasing_def)
    have "slp (hd (tangent p (r # qs))) p \<le> slp q p" using IH(4) r rq by (force intro: order.trans)
    moreover have "tangent p (q # r # qs) = tangent p (r # qs)" using False by (simp only: tangent.simps if_False)
    ultimately show ?thesis using IH by (auto simp: suffix_Cons)
  qed
qed (simp_all add: before_def)

lemma tangent_last: "lo \<noteq> [] \<Longrightarrow> tangent p lo \<noteq> [] \<and> last (tangent p lo) = last lo"
  by (induction p lo rule: tangent.induct) auto

lemma concave_suffix: "suffix qs ps \<Longrightarrow> concave ps \<Longrightarrow> concave qs"
proof (induction ps)
  case (Cons p ps)
  then show ?case by (cases ps rule: concave.cases) (auto simp: suffix_Cons)
qed simp

subsection \<open>Reflection\<close>

definition mir :: "rpoint \<Rightarrow> rpoint" where
  "mir p = (fst p, - snd p)"

lemma mir_simps [simp]: "fst (mir p) = fst p" "snd (mir p) = - snd p" "mir (mir p) = p" "mir \<circ> mir = id"
  "turn (mir p) (mir q) (mir r) = - turn p q r" "slp (mir p) (mir q) = - slp p q"
  by (auto simp: mir_def turn_def slp_def algebra_simps diff_divide_distrib)

definition neg :: "line \<Rightarrow> line" where
  "neg f = (- fst f, - snd f)"

lemma neg_simps [simp]: "fst (neg f) = - fst f" "ev (neg f) x = - ev f x" "neg (neg f) = f"
  by (simp_all add: neg_def ev_def)

lemma thru_mir [simp]: "thru (mir p) (mir q) = neg (thru p q)"
  by (simp add: thru_def ray_def neg_def)

text \<open>A hull of upper points bends to the left.\<close>

definition convex :: "rpoint list \<Rightarrow> bool" where
  "convex up \<longleftrightarrow> concave (map mir up)"

lemma concave_snoc: "concave (ps @ [q, r, t]) \<longleftrightarrow> concave (ps @ [q, r]) \<and> turn q r t < 0"
proof (induction ps)
  case (Cons a ps)
  then show ?case by (cases ps rule: concave.cases) auto
qed simp

lemma concave_two [simp]: "concave [a, b]" "concave [a]" "concave []" by simp_all

lemma convex_snoc: "convex (ps @ [q, r, t]) \<longleftrightarrow> convex (ps @ [q, r]) \<and> 0 < turn q r t"
  using concave_snoc [of "map mir ps" "mir q" "mir r" "mir t"] by (simp add: convex_def)

lemma cover_Cons: "qs \<noteq> [] \<Longrightarrow> \<exists>ps. cover p qs = p # ps \<and> suffix ps qs \<and> ps \<noteq> []"
  by (induction p qs rule: cover.induct) (auto simp: suffix_Cons)

lemma cover_convex: "convex (rev qs) \<Longrightarrow> convex (rev (cover p qs))"
proof (induction p qs rule: cover.induct)
  case (1 p q r qs)
  have "convex (rev qs @ [r, q])" using 1(2) by simp
  moreover have "convex (rev (r # qs))"
    using 1(2) by (cases qs) (simp_all add: convex_def concave_snoc [of _ "mir _" "mir r" "mir q", simplified])
  ultimately show ?case using 1(1) convex_snoc [of "rev qs" r q p] by auto
qed (simp_all add: convex_def)

text \<open>A line below the remaining points is below the removed ones.\<close>

lemma cover_below:
  assumes "\<forall>q\<in>set (cover p qs). ev f (fst q) \<le> snd q" and "sorted_wrt (\<lambda>a b. fst b < fst a) (p # qs)"
  shows "\<forall>q\<in>set qs. ev f (fst q) \<le> snd q"
  using assms
proof (induction p qs rule: cover.induct)
  case (1 p q r qs)
  show ?case
  proof (cases "turn r q p \<le> 0")
    case True
    then have IH: "\<forall>t\<in>set (r # qs). ev f (fst t) \<le> snd t" using 1 by simp
    have p: "ev f (fst p) \<le> snd p" using cover_Cons [of "q # r # qs" p] 1(2) by auto
    have "snd (mir q) \<le> ev (neg f) (fst (mir q))"
      using IH p True 1(3) turn_chord(2) [of "mir r" "mir p" "mir q"]
      by (intro above_chord [of "mir r" "neg f" "mir p" "mir q"]) simp_all
    then show ?thesis using IH by simp
  qed (use 1 in simp)
qed simp_all

subsection \<open>The extreme lines\<close>

text \<open>A line between the lower points \<open>Ls\<close> and the upper points \<open>Us\<close>.\<close>

definition fits :: "line \<Rightarrow> rpoint set \<Rightarrow> rpoint set \<Rightarrow> bool" where
  "fits f Ls Us \<longleftrightarrow> (\<forall>p\<in>Ls. snd p \<le> ev f (fst p)) \<and> (\<forall>p\<in>Us. ev f (fst p) \<le> snd p)"

text \<open>
  The lines of smallest and of largest slope, from the ends of the two hulls. The hulls are \<open>good\<close> for the points when both lines
  fit all points, and when a line of a slope between theirs that fits the points of the hulls fits all points.
\<close>

abbreviation line_min :: "rpoint list \<Rightarrow> rpoint list \<Rightarrow> line" where
  "line_min lo up \<equiv> thru (hd up) (last lo)"

abbreviation line_max :: "rpoint list \<Rightarrow> rpoint list \<Rightarrow> line" where
  "line_max lo up \<equiv> thru (hd lo) (last up)"

definition between :: "rpoint list \<Rightarrow> rpoint list \<Rightarrow> line \<Rightarrow> bool" where
  "between lo up f \<longleftrightarrow> fst (line_min lo up) \<le> fst f \<and> fst f \<le> fst (line_max lo up)"

definition good :: "rpoint set \<Rightarrow> rpoint set \<Rightarrow> rpoint list \<Rightarrow> rpoint list \<Rightarrow> bool" where
  "good Ls Us lo up \<longleftrightarrow> lo \<noteq> [] \<and> up \<noteq> [] \<and> set lo \<subseteq> Ls \<and> set up \<subseteq> Us \<and> increasing lo \<and> increasing up \<and> concave lo \<and> convex up \<and>
     fst (hd up) < fst (last lo) \<and> fst (hd lo) < fst (last up) \<and> fits (line_min lo up) Ls Us \<and> fits (line_max lo up) Ls Us \<and>
     (\<forall>f. between lo up f \<and> (\<forall>p\<in>set lo. snd p \<le> ev f (fst p)) \<longrightarrow> (\<forall>p\<in>Ls. snd p \<le> ev f (fst p))) \<and>
     (\<forall>f. between lo up f \<and> (\<forall>p\<in>set up. ev f (fst p) \<le> snd p) \<longrightarrow> (\<forall>p\<in>Us. ev f (fst p) \<le> snd p))"

lemma goodD:
  assumes "good Ls Us lo up"
  shows "lo \<noteq> []" "up \<noteq> []" "set lo \<subseteq> Ls" "set up \<subseteq> Us" "increasing lo" "increasing up" "concave lo" "convex up"
    "fst (hd up) < fst (last lo)" "fst (hd lo) < fst (last up)" "fits (line_min lo up) Ls Us" "fits (line_max lo up) Ls Us"
    "between lo up f \<Longrightarrow> \<forall>p\<in>set lo. snd p \<le> ev f (fst p) \<Longrightarrow> p \<in> Ls \<Longrightarrow> snd p \<le> ev f (fst p)"
    "between lo up f \<Longrightarrow> \<forall>p\<in>set up. ev f (fst p) \<le> snd p \<Longrightarrow> p \<in> Us \<Longrightarrow> ev f (fst p) \<le> snd p"
  using assms unfolding good_def by blast+

text \<open>Every line that fits has a slope between those of the extreme lines, and values between theirs to the right of the points.\<close>

lemma fits_between:
  assumes "good Ls Us lo up" and "fits f Ls Us"
  shows "between lo up f"
proof -
  note g = goodD [OF assms(1)]
  have "hd up \<in> Us" "last lo \<in> Ls" "hd lo \<in> Ls" "last up \<in> Us" using g(1-4) by auto
  then have "ev f (fst (hd up)) \<le> snd (hd up)" "snd (last lo) \<le> ev f (fst (last lo))"
      "ev f (fst (last up)) \<le> snd (last up)" "snd (hd lo) \<le> ev f (fst (hd lo))"
    using assms(2) by (auto simp: fits_def)
  then show ?thesis
    using slope_le [of f "fst (hd up)" "line_min lo up" "fst (last lo)"] slope_le [of "line_max lo up" "fst (hd lo)" f "fst (last up)"] g(9,10)
    by (simp add: between_def)
qed

lemma line_min_below:
  assumes "good Ls Us lo up" and "between lo up f" and "snd (last lo) \<le> ev f (fst (last lo))" and "fst (last lo) \<le> x"
  shows "ev (line_min lo up) x \<le> ev f x"
  using assms(2-4) goodD(9) [OF assms(1)]
  by (intro line_right [of "line_min lo up" "fst (last lo)" f x]) (simp_all add: between_def)

lemma line_max_above:
  assumes "good Ls Us lo up" and "between lo up f" and "ev f (fst (last up)) \<le> snd (last up)" and "fst (last up) \<le> x"
  shows "ev f x \<le> ev (line_max lo up) x"
  using assms(2-4) goodD(10) [OF assms(1)]
  by (intro line_right [of f "fst (last up)" "line_max lo up" x]) (simp_all add: between_def)

lemma mir_hd [simp]: "xs \<noteq> [] \<Longrightarrow> hd (map mir xs) = mir (hd xs)" "xs \<noteq> [] \<Longrightarrow> last (map mir xs) = mir (last xs)"
  by (simp_all add: hd_map last_map)

lemma fits_mir: "fits f (mir ` Us) (mir ` Ls) \<longleftrightarrow> fits (neg f) Ls Us"
  by (auto simp: fits_def)

lemma increasing_mir [simp]: "increasing (map mir ps) = increasing ps"
  by (simp add: increasing_def sorted_wrt_map)

lemma good_mir:
  assumes "good Ls Us lo up"
  shows "good (mir ` Us) (mir ` Ls) (map mir up) (map mir lo)"
proof -
  note g = goodD [OF assms]
  have ends: "line_min (map mir up) (map mir lo) = neg (line_max lo up)" "line_max (map mir up) (map mir lo) = neg (line_min lo up)"
    using g(1,2) by simp_all
  have btw: "between (map mir up) (map mir lo) f \<longleftrightarrow> between lo up (neg f)" for f
    unfolding between_def ends by auto
  have "snd p \<le> ev f (fst p)" if "between (map mir up) (map mir lo) f" "\<forall>p\<in>set (map mir up). snd p \<le> ev f (fst p)" "p \<in> mir ` Us" for f p
    using g(14) [of "neg f"] that unfolding btw by fastforce
  moreover have "ev f (fst p) \<le> snd p" if "between (map mir up) (map mir lo) f" "\<forall>p\<in>set (map mir lo). ev f (fst p) \<le> snd p" "p \<in> mir ` Ls" for f p
    using g(13) [of "neg f"] that unfolding btw by fastforce
  ultimately show ?thesis
    unfolding good_def ends fits_mir using g(1-12) by (auto simp: convex_def)
qed

subsection \<open>Adding points\<close>

lemma add_upper_keep:
  assumes "good Ls Us lo up" and "\<forall>u\<in>Us. fst u < fst p" and "ev (line_max lo up) (fst p) \<le> snd p"
  shows "good Ls (insert p Us) lo up"
proof -
  note g = goodD [OF assms(1)]
  have lu: "last up \<in> Us" using g(2,4) by auto
  then have x: "fst (last up) \<le> fst p" using assms(2) by auto
  have "ev (line_min lo up) (fst p) \<le> snd p"
    using line_max_above [OF assms(1) fits_between [OF assms(1) g(11)] _ x] g(11) lu assms(3) by (force simp: fits_def)
  moreover have "ev f (fst p) \<le> snd p" if "between lo up f" "\<forall>q\<in>set up. ev f (fst q) \<le> snd q" for f
    using line_max_above [OF assms(1) that(1) _ x] that(2) g(2) assms(3) by (force simp: last_in_set)
  ultimately show ?thesis
    unfolding good_def using g assms(3) by (intro conjI) (auto simp: fits_def)
qed

text \<open>Between the extreme lines there is one that fits and goes through a point between them.\<close>

lemma fits_through:
  assumes "fits f Ls Us" and "fits g Ls Us" and "ev f x \<le> y" and "y < ev g x"
  shows "\<exists>h. fits h Ls Us \<and> ev h x = y"
proof -
  define t where "t = (y - ev f x) / (ev g x - ev f x)"
  have t: "0 \<le> t" "t \<le> 1" using assms(3,4) by (simp_all add: t_def divide_le_eq)
  define h where "h = ((1 - t) * fst f + t * fst g, (1 - t) * snd f + t * snd g)"
  have ev: "ev h z = (1 - t) * ev f z + t * ev g z" for z by (simp add: h_def ev_def algebra_simps)
  have "ev h x = ev f x + t * (ev g x - ev f x)" by (simp add: ev algebra_simps)
  then have "ev h x = y" using assms(3,4) by (simp add: t_def)
  moreover have "fits h Ls Us"
    unfolding fits_def ev
  proof (intro conjI ballI)
    fix p assume "p \<in> Ls"
    then have "snd p \<le> ev f (fst p)" "snd p \<le> ev g (fst p)" using assms(1,2) by (auto simp: fits_def)
    then have "(1 - t) * snd p + t * snd p \<le> (1 - t) * ev f (fst p) + t * ev g (fst p)"
      using t by (intro add_mono mult_left_mono) auto
    then show "snd p \<le> (1 - t) * ev f (fst p) + t * ev g (fst p)" by (simp add: algebra_simps)
  next
    fix p assume "p \<in> Us"
    then have "ev f (fst p) \<le> snd p" "ev g (fst p) \<le> snd p" using assms(1,2) by (auto simp: fits_def)
    then have "(1 - t) * ev f (fst p) + t * ev g (fst p) \<le> (1 - t) * snd p + t * snd p"
      using t by (intro add_mono mult_left_mono) auto
    then show "(1 - t) * ev f (fst p) + t * ev g (fst p) \<le> snd p" by (simp add: algebra_simps)
  qed
  ultimately show ?thesis by blast
qed

text \<open>The line through a new upper point and its tangent point.\<close>

lemma tangent_fits:
  assumes "good Ls Us lo up" and "\<forall>u\<in>Us. fst u < fst p" and "\<forall>l\<in>Ls. before p l"
    and "ev (line_min lo up) (fst p) \<le> snd p" and "snd p < ev (line_max lo up) (fst p)"
  defines "s \<equiv> slp (hd (tangent p lo)) p"
  shows "between lo up (ray s p)" and "fits (ray s p) Ls Us"
    and "\<And>q. q \<in> set lo \<Longrightarrow> snd q \<le> ev (ray s p) (fst q)" and "fst (hd (tangent p lo)) < fst p"
proof -
  note g = goodD [OF assms(1)]
  have "last up \<in> Us" using g(2,4) by auto
  then have "fst (last up) < fst p" using assms(2) by blast
  then have "fst (hd lo) < fst p" using g(10) by simp
  then have tan: "suffix (tangent p lo) lo" "tangent p lo \<noteq> []" "fst (hd (tangent p lo)) < fst p"
      "\<And>r. r \<in> set lo \<Longrightarrow> fst r < fst p \<Longrightarrow> s \<le> slp r p"
    using tangent_min [OF g(5,7,1), of p] assms(3) g(3) unfolding s_def by blast+
  show "fst (hd (tangent p lo)) < fst p" by (rule tan(3))
  have hd_in: "hd (tangent p lo) \<in> set lo" using tan(1,2) hd_in_set set_mono_suffix by blast
  show lo: "snd q \<le> ev (ray s p) (fst q)" if "q \<in> set lo" for q
  proof (cases "fst q < fst p")
    case True
    have "ev (thru q p) (fst q) \<le> ev (ray s p) (fst q)"
      by (rule line_left [of "thru q p" "fst p" "ray s p"]) (use tan(4) [OF that True] True in simp_all)
    then show ?thesis by simp
  next
    case False
    then have "fst q = fst p" "snd q < snd p" using assms(3) that g(3) by (auto simp: before_def)
    then show ?thesis by simp
  qed
  obtain h where h: "fits h Ls Us" "ev h (fst p) = snd p"
    using fits_through [OF g(11,12) assms(4,5)] by blast
  have "snd (hd (tangent p lo)) \<le> ev h (fst (hd (tangent p lo)))" using h(1) hd_in g(3) by (auto simp: fits_def)
  then have hs: "fst h \<le> s"
    using slope_le [of "thru (hd (tangent p lo)) p" "fst (hd (tangent p lo))" h "fst p"] tan(3) h(2) by (simp add: s_def)
  have "slp (hd lo) p \<le> fst (line_max lo up)"
    using slope_le [of "line_max lo up" "fst (hd lo)" "thru (hd lo) p" "fst p"] \<open>fst (hd lo) < fst p\<close> assms(5) by simp
  then have "s \<le> fst (line_max lo up)" using tan(4) [of "hd lo"] g(1) \<open>fst (hd lo) < fst p\<close> by simp
  then show btw: "between lo up (ray s p)"
    using fits_between [OF assms(1) h(1)] hs by (simp add: between_def)
  have "ev (ray s p) (fst u) \<le> snd u" if "u \<in> Us" for u
  proof -
    have "ev (ray s p) (fst u) \<le> ev h (fst u)"
      by (rule line_left [of "ray s p" "fst p" h]) (use hs h(2) assms(2) that in auto)
    then show ?thesis using h(1) that by (force simp: fits_def)
  qed
  then show "fits (ray s p) Ls Us" using g(13) [OF btw] lo by (auto simp: fits_def)
qed

lemma add_upper:
  assumes "good Ls Us lo up" and "\<forall>u\<in>Us. fst u < fst p" and "\<forall>l\<in>Ls. before p l"
    and "ev (line_min lo up) (fst p) \<le> snd p" and "snd p < ev (line_max lo up) (fst p)"
  shows "good Ls (insert p Us) (tangent p lo) (rev (cover p (rev up)))"
proof -
  note g = goodD [OF assms(1)] and tan = tangent_fits [OF assms]
  let ?lo = "tangent p lo" and ?up = "rev (cover p (rev up))"
  let ?ray = "ray (slp (hd ?lo) p) p"
  have suf: "suffix ?lo lo" using tangent_min [OF g(5,7,1)] tan(4) assms(3) g(3,10) assms(2) g(2,4)
    by (meson last_in_set order.strict_trans subset_iff)
  have lo: "?lo \<noteq> []" "last ?lo = last lo" using tangent_last [OF g(1)] by auto
  have in_lo: "set ?lo \<subseteq> set lo" using suf by (rule set_mono_suffix)
  have "rev up \<noteq> []" using g(2) by simp
  from cover_Cons [OF this, of p] obtain ps where ps: "cover p (rev up) = p # ps" "suffix ps (rev up)" "ps \<noteq> []" by blast
  then obtain zs where zs: "up = rev ps @ rev zs" by (auto simp: suffix_def) (metis rev_append rev_rev_ident)
  have up: "?up \<noteq> []" "last ?up = p" "hd ?up = hd up" using ps(1,3) zs by simp_all
  have in_up: "set ?up \<subseteq> insert p (set up)" using ps(1) zs by auto
  have max: "line_max ?lo ?up = ?ray" using tan(4) up(2) by (simp add: thru_ray)
  have min: "line_min ?lo ?up = line_min lo up" using lo(2) up(3) by simp
  have btw: "between lo up f" if "between ?lo ?up f" for f
    using that tan(1) unfolding between_def max min by simp
  have "increasing ?lo" using g(5) suf unfolding increasing_def suffix_def by (metis sorted_wrt_append)
  moreover have up_sorted: "sorted_wrt (\<lambda>a b. fst a < fst b) (up @ [p])"
    using g(6) assms(2) g(4) by (auto simp: increasing_def sorted_wrt_append)
  then have "increasing ?up" unfolding increasing_def ps(1) using zs by (auto simp: sorted_wrt_append)
  moreover have "convex ?up" using cover_convex [of "rev up" p] g(8) by simp
  moreover have "snd q \<le> ev f (fst q)" if f: "between ?lo ?up f" "\<forall>q\<in>set ?lo. snd q \<le> ev f (fst q)" and "q \<in> Ls" for f q
  proof (rule g(13) [OF btw [OF f(1)] _ that(3)], intro ballI)
    fix r assume r: "r \<in> set lo"
    obtain ys where ys: "lo = ys @ ?lo" using suf by (auto simp: suffix_def)
    show "snd r \<le> ev f (fst r)"
    proof (cases "r \<in> set ?lo")
      case False
      then have "fst r < fst (hd ?lo)" using r ys g(5) lo(1) unfolding increasing_def
        by (metis Un_iff hd_in_set set_append sorted_wrt_append)
      have "ev ?ray (fst r) \<le> ev f (fst r)"
      proof (rule line_left [of _ "fst (hd ?lo)"])
        have "ev ?ray (fst (hd ?lo)) = snd (hd ?lo)" using tan(4) thru_ray [of "hd ?lo" p] ev_thru(1) [of "hd ?lo" p] by simp
        then show "ev ?ray (fst (hd ?lo)) \<le> ev f (fst (hd ?lo))" using f(2) lo(1) by simp
      qed (use f(1) max \<open>fst r < fst (hd ?lo)\<close> in \<open>simp_all add: between_def\<close>)
      then show ?thesis using tan(3) [OF r] by simp
    qed (use f(2) in blast)
  qed
  moreover have "ev f (fst q) \<le> snd q"
    if f: "between ?lo ?up f" "\<forall>q\<in>set ?up. ev f (fst q) \<le> snd q" and q: "q \<in> insert p Us" for f q
  proof (cases "q = p")
    case False
    have "sorted_wrt (\<lambda>a b. fst b < fst a) (p # rev up)" using up_sorted by (simp add: sorted_wrt_append sorted_wrt_rev)
    then have "\<forall>q\<in>set up. ev f (fst q) \<le> snd q" using cover_below [of p "rev up" f] f(2) by simp
    then show ?thesis using g(14) [OF btw [OF f(1)]] q False by auto
  qed (use f(2) ps(1) in simp)
  moreover have "fits (line_min lo up) Ls (insert p Us)" "fits ?ray Ls (insert p Us)"
    using g(11) tan(2) assms(4) by (auto simp: fits_def)
  ultimately show ?thesis
    unfolding good_def max min using lo(1) up(1) in_lo in_up g(3,4,9) concave_suffix [OF suf g(7)] tan(4) lo(2) up(2,3)
    by (intro conjI allI impI ballI) auto
qed

text \<open>The same for lower points, by reflection.\<close>

lemma mir_image [simp]: "mir ` mir ` A = A" "map mir (map mir ps) = ps"
  by (simp_all add: image_image)

lemma add_lower_keep:
  assumes "good Ls Us lo up" and "\<forall>l\<in>Ls. fst l < fst p" and "snd p \<le> ev (line_min lo up) (fst p)"
  shows "good (insert p Ls) Us lo up"
proof -
  note g = goodD [OF assms(1)]
  have "good (mir ` Us) (insert (mir p) (mir ` Ls)) (map mir up) (map mir lo)"
    using assms(2,3) g(1,2) by (intro add_upper_keep [OF good_mir [OF assms(1)]]) auto
  from good_mir [OF this] show ?thesis by (simp del: map_map)
qed

lemma add_lower:
  assumes "good Ls Us lo up" and "\<forall>l\<in>Ls. fst l < fst p" and "\<forall>u\<in>Us. before (mir p) (mir u)"
    and "snd p \<le> ev (line_max lo up) (fst p)" and "ev (line_min lo up) (fst p) < snd p"
  shows "good (insert p Ls) Us (rev (map mir (cover (mir p) (map mir (rev lo))))) (map mir (tangent (mir p) (map mir up)))"
proof -
  note g = goodD [OF assms(1)]
  have "good (mir ` Us) (insert (mir p) (mir ` Ls)) (tangent (mir p) (map mir up)) (rev (cover (mir p) (rev (map mir lo))))"
    using assms(2-5) g(1,2) by (intro add_upper [OF good_mir [OF assms(1)]]) auto
  from good_mir [OF this] show ?thesis by (simp add: rev_map del: map_map)
qed

text \<open>A point beyond the extreme lines fits with no line.\<close>

lemma outside:
  assumes "good Ls Us lo up" and "\<forall>l\<in>Ls. fst l < fst p" and "\<forall>u\<in>Us. fst u < fst p"
  shows "snd p < ev (line_min lo up) (fst p) \<Longrightarrow> \<not> fits f Ls (insert p Us)"
    and "ev (line_max lo up) (fst p) < snd p \<Longrightarrow> \<not> fits f (insert p Ls) Us"
proof -
  note g = goodD [OF assms(1)]
  have ends: "last lo \<in> Ls" "last up \<in> Us" using g(1-4) by auto
  then have x: "fst (last lo) \<le> fst p" "fst (last up) \<le> fst p" using assms(2,3) by auto
  show "\<not> fits f Ls (insert p Us)" if "snd p < ev (line_min lo up) (fst p)"
  proof
    assume f: "fits f Ls (insert p Us)"
    then have "fits f Ls Us" by (simp add: fits_def)
    then have "ev (line_min lo up) (fst p) \<le> ev f (fst p)"
      using ends by (intro line_min_below [OF assms(1) fits_between [OF assms(1)] _ x(1)]) (auto simp: fits_def)
    then show False using f that by (simp add: fits_def)
  qed
  show "\<not> fits f (insert p Ls) Us" if "ev (line_max lo up) (fst p) < snd p"
  proof
    assume f: "fits f (insert p Ls) Us"
    then have "fits f Ls Us" by (simp add: fits_def)
    then have "ev f (fst p) \<le> ev (line_max lo up) (fst p)"
      using ends by (intro line_max_above [OF assms(1) fits_between [OF assms(1)] _ x(2)]) (auto simp: fits_def)
    then show False using f that by (simp add: fits_def)
  qed
qed

text \<open>The hulls of two points.\<close>

lemma good_two:
  assumes "fst p < fst q" and "fst r = fst p" and "fst t = fst q" and "snd p \<le> snd r" and "snd q \<le> snd t"
  shows "good {p, q} {r, t} [p, q] [r, t]"
proof -
  have on: "ev (thru a b) (fst b) = snd b" if "fst a \<noteq> fst b" for a b using that by simp
  have lines: "ev (thru r q) (fst p) = snd r" "ev (thru r q) (fst t) = snd q" "ev (thru p t) (fst q) = snd t"
      "ev (thru p t) (fst r) = snd p"
    using ev_thru [of r q] ev_thru [of p t] assms(1-3) by simp_all
  then show ?thesis using assms lines ev_thru [of r q] ev_thru [of p t]
    by (auto simp: good_def fits_def increasing_def convex_def)
qed

end
