(* ===== verification/Piecewise_Linear.thy ===== *)
theory Piecewise_Linear
  imports Prelude
begin

text \<open>
  The piecewise linear model of the PGM-index, \<^verbatim>\<open>PGM-index/include/piecewise_linear_model.hpp\<close>: points are
  added one by one to a model that keeps the two extreme lines within an error of all of them, and two convex
  hulls to update these lines; a point that no line fits starts a new segment. Coordinates are integers. The products of two
  differences are computed in \<^verbatim>\<open>__int128\<close>; a product or a difference of products beyond its range is \<open>None\<close>, as is an
  exception. Differences of coordinates are differences of 64-bit values and fit.
\<close>

subsection \<open>Slopes and points\<close>

type_synonym slope = "int \<times> int"
type_synonym point = "int \<times> int"

definition i128 :: "int \<Rightarrow> int option" where
  "i128 v = (if - (2 ^ 127) \<le> v \<and> v < 2 ^ 127 then Some v else None)"

definition point_minus :: "point \<Rightarrow> point \<Rightarrow> slope" where
  "point_minus p q = (fst p - fst q, snd p - snd q)"

definition slope_less :: "slope \<Rightarrow> slope \<Rightarrow> bool option" where
  "slope_less s p = do { a \<leftarrow> i128 (snd s * fst p); b \<leftarrow> i128 (fst s * snd p); Some (a < b) }"

definition slope_greater :: "slope \<Rightarrow> slope \<Rightarrow> bool option" where
  "slope_greater s p = do { a \<leftarrow> i128 (snd s * fst p); b \<leftarrow> i128 (fst s * snd p); Some (a > b) }"

definition slope_eq :: "slope \<Rightarrow> slope \<Rightarrow> bool option" where
  "slope_eq s p = do { a \<leftarrow> i128 (snd s * fst p); b \<leftarrow> i128 (fst s * snd p); Some (a = b) }"

definition cross :: "point \<Rightarrow> point \<Rightarrow> point \<Rightarrow> int option" where
  "cross O1 A B = do {
     let OA = point_minus A O1;
     let OB = point_minus B O1;
     a \<leftarrow> i128 (fst OA * snd OB);
     b \<leftarrow> i128 (snd OA * fst OB);
     i128 (a - b)
   }"

subsection \<open>The model\<close>

text \<open>
  The hulls store points without the error; \<open>upper_at\<close> and \<open>lower_at\<close> are the index operators of \<^verbatim>\<open>Hull\<close>, which add it.
\<close>

record plm =
  plm_error :: int
  lower :: "point list"
  upper :: "point list"
  first_x :: int
  last_x :: int
  lower_start :: nat
  upper_start :: nat
  points_in_hull :: nat
  rectangle :: "point list"

definition plm_init :: "int \<Rightarrow> plm" where
  "plm_init err = \<lparr>plm_error = err, lower = [], upper = [], first_x = 0, last_x = 0, lower_start = 0, upper_start = 0,
     points_in_hull = 0, rectangle = replicate 4 (0, 0)\<rparr>"

definition upper_at :: "int \<Rightarrow> point list \<Rightarrow> nat \<Rightarrow> point" where
  "upper_at err h i = (fst (h ! i), snd (h ! i) + err)"

definition lower_at :: "int \<Rightarrow> point list \<Rightarrow> nat \<Rightarrow> point" where
  "lower_at err h i = (fst (h ! i), snd (h ! i) + - err)"

text \<open>The searches for the extreme slopes.\<close>

function min_slope :: "int \<Rightarrow> point list \<Rightarrow> point \<Rightarrow> nat \<Rightarrow> slope \<Rightarrow> nat \<Rightarrow> nat option" where
  "min_slope err h p1 i best best_i =
     (if i < length h then do {
        let val = point_minus (lower_at err h i) p1;
        stop \<leftarrow> slope_greater val best;
        if stop then Some best_i else min_slope err h p1 (i + 1) val i
      }
      else Some best_i)"
  by pat_completeness auto
termination by (relation "measure (\<lambda>(err, h, p1, i, _). length h - i)") auto

function max_slope :: "int \<Rightarrow> point list \<Rightarrow> point \<Rightarrow> nat \<Rightarrow> slope \<Rightarrow> nat \<Rightarrow> nat option" where
  "max_slope err h p2 i best best_i =
     (if i < length h then do {
        let val = point_minus (upper_at err h i) p2;
        stop \<leftarrow> slope_less val best;
        if stop then Some best_i else max_slope err h p2 (i + 1) val i
      }
      else Some best_i)"
  by pat_completeness auto
termination by (relation "measure (\<lambda>(err, h, p2, i, _). length h - i)") auto

declare min_slope.simps [simp del] max_slope.simps [simp del]

text \<open>The loops that remove points from the ends of the hulls.\<close>

fun trim_upper :: "int \<Rightarrow> point list \<Rightarrow> nat \<Rightarrow> point \<Rightarrow> nat \<Rightarrow> nat option" where
  "trim_upper err h start p1 (Suc (Suc e)) =
     (if Suc (Suc e) \<ge> start + 2 then do {
        c \<leftarrow> cross (upper_at err h e) (upper_at err h (Suc e)) p1;
        if c \<le> 0 then trim_upper err h start p1 (Suc e) else Some (Suc (Suc e))
      }
      else Some (Suc (Suc e)))"
| "trim_upper err h start p1 e = Some e"

fun trim_lower :: "int \<Rightarrow> point list \<Rightarrow> nat \<Rightarrow> point \<Rightarrow> nat \<Rightarrow> nat option" where
  "trim_lower err h start p2 (Suc (Suc e)) =
     (if Suc (Suc e) \<ge> start + 2 then do {
        c \<leftarrow> cross (lower_at err h e) (lower_at err h (Suc e)) p2;
        if c \<ge> 0 then trim_lower err h start p2 (Suc e) else Some (Suc (Suc e))
      }
      else Some (Suc (Suc e)))"
| "trim_lower err h start p2 e = Some e"

text \<open>The two halves of \<^verbatim>\<open>add_point\<close> that update the line of largest slope and the line of smallest slope.\<close>

definition update_upper :: "point \<Rightarrow> point \<Rightarrow> plm \<Rightarrow> plm option" where
  "update_upper p p1 s = do {
     let err = plm_error s;
     if lower_start s < length (lower s) then do {
       min_i \<leftarrow> min_slope err (lower s) p1 (lower_start s + 1)
                  (point_minus (lower_at err (lower s) (lower_start s)) p1) (lower_start s);
       e \<leftarrow> trim_upper err (upper s) (upper_start s) p1 (length (upper s));
       Some (s\<lparr>rectangle := (rectangle s)[1 := lower_at err (lower s) min_i, 3 := p1], lower_start := min_i,
               upper := take e (upper s) @ [p]\<rparr>)
     }
     else None
   }"

definition update_lower :: "point \<Rightarrow> point \<Rightarrow> plm \<Rightarrow> plm option" where
  "update_lower p p2 s = do {
     let err = plm_error s;
     if upper_start s < length (upper s) then do {
       max_i \<leftarrow> max_slope err (upper s) p2 (upper_start s + 1)
                  (point_minus (upper_at err (upper s) (upper_start s)) p2) (upper_start s);
       e \<leftarrow> trim_lower err (lower s) (lower_start s) p2 (length (lower s));
       Some (s\<lparr>rectangle := (rectangle s)[0 := upper_at err (upper s) max_i, 2 := p2], upper_start := max_i,
               lower := take e (lower s) @ [p]\<rparr>)
     }
     else None
   }"

definition add_point :: "point \<Rightarrow> plm \<Rightarrow> (bool \<times> plm) option" where
  "add_point p s =
     (let (x, y) = p in
      if points_in_hull s > 0 \<and> x \<le> last_x s then None
      else do {
        let s = s\<lparr>last_x := x\<rparr>;
        let p1 = (x, y + plm_error s);
        let p2 = (x, y - plm_error s);
        if points_in_hull s = 0 then
          Some (True, s\<lparr>first_x := x, rectangle := (rectangle s)[0 := p1, 1 := p2], upper := [p], lower := [p],
                        upper_start := 0, lower_start := 0, points_in_hull := 1\<rparr>)
        else if points_in_hull s = 1 then
          Some (True, s\<lparr>rectangle := (rectangle s)[2 := p2, 3 := p1], upper := upper s @ [p], lower := lower s @ [p],
                        points_in_hull := 2\<rparr>)
        else do {
          let slope1 = point_minus (rectangle s ! 2) (rectangle s ! 0);
          let slope2 = point_minus (rectangle s ! 3) (rectangle s ! 1);
          outside_line1 \<leftarrow> slope_less (point_minus p1 (rectangle s ! 2)) slope1;
          outside_line2 \<leftarrow> slope_greater (point_minus p2 (rectangle s ! 3)) slope2;
          if outside_line1 \<or> outside_line2 then Some (False, s\<lparr>points_in_hull := 0\<rparr>)
          else do {
            below2 \<leftarrow> slope_less (point_minus p1 (rectangle s ! 1)) slope2;
            s \<leftarrow> (if below2 then update_upper p p1 s else Some s);
            above1 \<leftarrow> slope_greater (point_minus p2 (rectangle s ! 0)) slope1;
            s \<leftarrow> (if above1 then update_lower p p2 s else Some s);
            Some (True, s\<lparr>points_in_hull := points_in_hull s + 1\<rparr>)
          }
        }
      })"

record canonical_segment =
  cs_rectangle :: "point list"
  cs_first :: int

definition get_segment :: "plm \<Rightarrow> canonical_segment" where
  "get_segment s =
     (if points_in_hull s = 1
      then \<lparr>cs_rectangle = [rectangle s ! 0, rectangle s ! 1, rectangle s ! 0, rectangle s ! 1], cs_first = first_x s\<rparr>
      else \<lparr>cs_rectangle = rectangle s, cs_first = first_x s\<rparr>)"

definition one_point :: "canonical_segment \<Rightarrow> bool" where
  "one_point cs \<longleftrightarrow> cs_rectangle cs ! 0 = cs_rectangle cs ! 2 \<and> cs_rectangle cs ! 1 = cs_rectangle cs ! 3"

subsection \<open>Segmentation\<close>

lemma add_point_False: "add_point p s = Some (False, s') \<Longrightarrow> points_in_hull s \<noteq> 0 \<and> points_in_hull s' = 0"
  by (cases p) (auto simp: add_point_def Let_def split: if_splits bind_splits)

lemma add_point_first: "points_in_hull s = 0 \<Longrightarrow> \<exists>s'. add_point p s = Some (True, s') \<and> points_in_hull s' = 1"
  by (cases p) (simp add: add_point_def)

text \<open>
  The loop of \<^verbatim>\<open>make_segmentation\<close> from position \<open>i\<close> on: \<open>p\<close> is the point added last, \<open>start\<close> where the current segment begins. A point that
  does not fit is added again, as the first one of the next segment. The result is the sequence of the calls of \<^verbatim>\<open>out\<close>.
\<close>

function segmentation_loop ::
    "(nat \<Rightarrow> point) \<Rightarrow> nat \<Rightarrow> nat \<Rightarrow> nat \<Rightarrow> point \<Rightarrow> plm \<Rightarrow> (nat \<times> nat \<times> canonical_segment) list option" where
  "segmentation_loop inp n i start p s =
     (if i < n then
        let next_p = inp i in
        if i \<noteq> start \<and> fst next_p = fst p then segmentation_loop inp n (i + 1) start p s
        else
          (case add_point next_p s of
             None \<Rightarrow> None
           | Some (True, s') \<Rightarrow> segmentation_loop inp n (i + 1) start next_p s'
           | Some (False, s') \<Rightarrow>
               map_option ((#) (start, i, get_segment s')) (segmentation_loop inp n i i next_p s'))
      else Some [(start, n, get_segment s)])"
  by pat_completeness auto
termination
  by (relation "measures [\<lambda>(inp, n, i, start, p, s). n - i, \<lambda>(inp, n, i, start, p, s). if points_in_hull s = 0 then 0 else 1]")
    (auto dest: add_point_False)

declare segmentation_loop.simps [simp del]

definition make_segmentation :: "nat \<Rightarrow> int \<Rightarrow> (nat \<Rightarrow> point) \<Rightarrow> (nat \<times> nat \<times> canonical_segment) list option" where
  "make_segmentation n err inp =
     (if n = 0 then Some []
      else if err < 0 then None
      else do {
        (_, s) \<leftarrow> add_point (inp 0) (plm_init err);
        segmentation_loop inp n 1 0 (inp 0) s
      })"

text \<open>
  \<^verbatim>\<open>make_segmentation_par\<close> with the one chunk that its constant \<^verbatim>\<open>parallelism\<close> gives: from \<open>2 ^ 20\<close> points on the segments are collected
  with their ends, and passed on in order.
\<close>

fun pass_on :: "nat \<Rightarrow> (canonical_segment \<times> nat) list \<Rightarrow> (nat \<times> nat \<times> canonical_segment) list" where
  "pass_on start [] = []"
| "pass_on start ((cs, e) # v) = (start, e, cs) # pass_on e v"

definition make_segmentation_par :: "nat \<Rightarrow> int \<Rightarrow> (nat \<Rightarrow> point) \<Rightarrow> (nat \<times> nat \<times> canonical_segment) list option" where
  "make_segmentation_par n err inp =
     (if n < 2 ^ 20 then make_segmentation n err inp
      else map_option (\<lambda>v. pass_on 0 (map (\<lambda>(_, e, cs). (cs, e)) v)) (make_segmentation n err inp))"

end
