(* ===== verification/Piecewise_Linear_Correct.thy ===== *)
theory Piecewise_Linear_Correct
  imports Hull_Geometry Piecewise_Linear
begin

text \<open>
  The piecewise linear model keeps the two extreme lines and hulls that are \<open>good\<close> in the sense of \<open>Hull_Geometry\<close>, for the points
  of the current segment shifted by the error; no product overflows. So a segment ends exactly where no line fits any more, and the
  segmentation has the least number of segments.
\<close>

subsection \<open>Exact arithmetic\<close>

definition rp :: "point \<Rightarrow> rpoint" where
  "rp p = (of_int (fst p), of_int (snd p))"

lemma rp_simps [simp]: "fst (rp p) = of_int (fst p)" "snd (rp p) = of_int (snd p)"
  by (simp_all add: rp_def)

text \<open>Points with 64-bit keys and with positions, shifted by errors, whose products of differences fit.\<close>

definition wide :: "point \<Rightarrow> bool" where
  "wide p \<longleftrightarrow> 0 \<le> fst p \<and> fst p < 2 ^ 64 \<and> - (2 ^ 60) \<le> snd p \<and> snd p \<le> 2 ^ 61"

lemma i128_product:
  assumes "\<bar>a\<bar> < 2 ^ 64" and "\<bar>b\<bar> < 2 ^ 62"
  shows "\<bar>a * b\<bar> < 2 ^ 126" and "i128 (a * b) = Some (a * b)" and "i128 (b * a) = Some (b * a)"
proof -
  have "\<bar>a\<bar> * \<bar>b\<bar> < 2 ^ 64 * 2 ^ 62" using assms by (intro mult_strict_mono) auto
  then show *: "\<bar>a * b\<bar> < 2 ^ 126" by (simp add: abs_mult)
  then show "i128 (a * b) = Some (a * b)" by (simp add: i128_def abs_less_iff)
  then show "i128 (b * a) = Some (b * a)" by (simp add: mult.commute)
qed

lemma wide_minus: "wide p \<Longrightarrow> wide q \<Longrightarrow> \<bar>fst p - fst q\<bar> < 2 ^ 64 \<and> \<bar>snd p - snd q\<bar> < 2 ^ 62"
  by (auto simp: wide_def abs_less_iff)

lemma slope_compare:
  assumes "wide p" "wide q" "wide r" "wide t"
  shows "slope_less (point_minus p q) (point_minus r t) =
      Some ((snd (rp p) - snd (rp q)) * (fst (rp r) - fst (rp t)) < (fst (rp p) - fst (rp q)) * (snd (rp r) - snd (rp t)))"
    and "slope_greater (point_minus p q) (point_minus r t) =
      Some ((fst (rp p) - fst (rp q)) * (snd (rp r) - snd (rp t)) < (snd (rp p) - snd (rp q)) * (fst (rp r) - fst (rp t)))"
  using i128_product [of "fst r - fst t" "snd p - snd q"] i128_product [of "fst p - fst q" "snd r - snd t"]
    wide_minus [OF assms(1,2)] wide_minus [OF assms(3,4)]
  by (simp_all add: slope_less_def slope_greater_def point_minus_def flip: of_int_mult of_int_diff)

lemma cross_turn:
  assumes "wide p" "wide q" "wide r"
  shows "\<exists>c. cross p q r = Some c \<and> of_int c = turn (rp p) (rp q) (rp r)"
proof -
  let ?a = "(fst q - fst p) * (snd r - snd p)" and ?b = "(fst r - fst p) * (snd q - snd p)"
  note a = i128_product [of "fst q - fst p" "snd r - snd p"] and b = i128_product [of "fst r - fst p" "snd q - snd p"]
  have "\<bar>?a\<bar> < 2 ^ 126" "\<bar>?b\<bar> < 2 ^ 126" using a(1) b(1) wide_minus assms by blast+
  then have "i128 (?a - ?b) = Some (?a - ?b)" by (simp add: i128_def abs_less_iff)
  then show ?thesis
    using a(2) b(3) wide_minus [OF assms(2,1)] wide_minus [OF assms(3,1)]
    by (simp add: cross_def point_minus_def turn_def mult.commute)
qed

subsection \<open>The loops on the hulls\<close>

definition low :: "int \<Rightarrow> point \<Rightarrow> point" where
  "low err p = (fst p, snd p + - err)"

definition upp :: "int \<Rightarrow> point \<Rightarrow> point" where
  "upp err p = (fst p, snd p + err)"

lemma lower_at_nth: "i < length h \<Longrightarrow> lower_at err h i = map (low err) h ! i"
  by (simp add: lower_at_def low_def)

lemma upper_at_nth: "i < length h \<Longrightarrow> upper_at err h i = map (upp err) h ! i"
  by (simp add: upper_at_def upp_def)

lemma drop_two: "Suc i < length xs \<Longrightarrow> drop i xs = xs ! i # xs ! Suc i # drop (Suc (Suc i)) xs"
  by (metis Cons_nth_drop_Suc Suc_lessD)

lemma min_slope_tangent:
  assumes "\<forall>q\<in>set h. wide (low err q)" and "wide p" and "i < length h"
  shows "\<exists>m. min_slope err h p (i + 1) (point_minus (lower_at err h i) p) i = Some m \<and> m < length h \<and> i \<le> m \<and>
    drop m (map (rp \<circ> low err) h) = tangent (rp p) (drop i (map (rp \<circ> low err) h))"
  using assms(3)
proof (induction "length h - i" arbitrary: i)
  case (Suc n)
  show ?case
  proof (cases "Suc i < length h")
    case True
    let ?q = "low err (h ! i)" and ?r = "low err (h ! Suc i)"
    have w: "wide ?q" "wide ?r" using assms(1) True by auto
    have "n = length h - Suc i" using Suc.hyps(2) by simp
    from Suc.hyps(1) [OF this True] obtain m where m: "min_slope err h p (Suc i + 1) (point_minus (lower_at err h (Suc i)) p) (Suc i) = Some m" "m < length h" "Suc i \<le> m"
        "drop m (map (rp \<circ> low err) h) = tangent (rp p) (drop (Suc i) (map (rp \<circ> low err) h))"
      by auto
    moreover have "drop i (map (rp \<circ> low err) h) = rp ?q # rp ?r # drop (Suc (Suc i)) (map (rp \<circ> low err) h)"
      "drop (Suc i) (map (rp \<circ> low err) h) = rp ?r # drop (Suc (Suc i)) (map (rp \<circ> low err) h)"
      using drop_two [of i "map (rp \<circ> low err) h"] Cons_nth_drop_Suc [of "Suc i" "map (rp \<circ> low err) h"] True by simp_all
    ultimately show ?thesis
      using True m slope_compare(2) [OF w(2) assms(2) w(1) assms(2)]
      by (intro exI [of _ "if (fst (rp ?r) - fst (rp p)) * (snd (rp ?q) - snd (rp p)) < (snd (rp ?r) - snd (rp p)) * (fst (rp ?q) - fst (rp p))
          then i else m"], subst min_slope.simps) (simp add: lower_at_nth)
  next
    case False
    then have "drop i (map (rp \<circ> low err) h) = [rp (low err (h ! i))]"
      using Cons_nth_drop_Suc [of i "map (rp \<circ> low err) h"] Suc.prems by simp
    then show ?thesis using False Suc.prems by (subst min_slope.simps) simp
  qed
qed simp

lemma max_slope_tangent:
  assumes "\<forall>q\<in>set h. wide (upp err q)" and "wide p" and "i < length h"
  shows "\<exists>m. max_slope err h p (i + 1) (point_minus (upper_at err h i) p) i = Some m \<and> m < length h \<and> i \<le> m \<and>
    drop m (map (mir \<circ> rp \<circ> upp err) h) = tangent (mir (rp p)) (drop i (map (mir \<circ> rp \<circ> upp err) h))"
  using assms(3)
proof (induction "length h - i" arbitrary: i)
  case (Suc n)
  show ?case
  proof (cases "Suc i < length h")
    case True
    let ?q = "upp err (h ! i)" and ?r = "upp err (h ! Suc i)"
    have w: "wide ?q" "wide ?r" using assms(1) True by auto
    have "n = length h - Suc i" using Suc.hyps(2) by simp
    from Suc.hyps(1) [OF this True] obtain m where m: "max_slope err h p (Suc i + 1) (point_minus (upper_at err h (Suc i)) p) (Suc i) = Some m" "m < length h" "Suc i \<le> m"
        "drop m (map (mir \<circ> rp \<circ> upp err) h) = tangent (mir (rp p)) (drop (Suc i) (map (mir \<circ> rp \<circ> upp err) h))"
      by auto
    moreover have "drop i (map (mir \<circ> rp \<circ> upp err) h) = mir (rp ?q) # mir (rp ?r) # drop (Suc (Suc i)) (map (mir \<circ> rp \<circ> upp err) h)"
      "drop (Suc i) (map (mir \<circ> rp \<circ> upp err) h) = mir (rp ?r) # drop (Suc (Suc i)) (map (mir \<circ> rp \<circ> upp err) h)"
      using drop_two [of i "map (mir \<circ> rp \<circ> upp err) h"] Cons_nth_drop_Suc [of "Suc i" "map (mir \<circ> rp \<circ> upp err) h"] True by simp_all
    moreover have "(snd (mir (rp ?r)) - snd (mir (rp p))) * (fst (mir (rp ?q)) - fst (mir (rp p))) >
          (fst (mir (rp ?r)) - fst (mir (rp p))) * (snd (mir (rp ?q)) - snd (mir (rp p))) \<longleftrightarrow>
        (snd (rp ?r) - snd (rp p)) * (fst (rp ?q) - fst (rp p)) < (fst (rp ?r) - fst (rp p)) * (snd (rp ?q) - snd (rp p))"
      by (simp add: algebra_simps)
    ultimately show ?thesis
      using True m slope_compare(1) [OF w(2) assms(2) w(1) assms(2)]
      by (intro exI [of _ "if (snd (rp ?r) - snd (rp p)) * (fst (rp ?q) - fst (rp p)) < (fst (rp ?r) - fst (rp p)) * (snd (rp ?q) - snd (rp p))
          then i else m"], subst max_slope.simps) (simp add: upper_at_nth)
  next
    case False
    then have "drop i (map (mir \<circ> rp \<circ> upp err) h) = [mir (rp (upp err (h ! i)))]"
      using Cons_nth_drop_Suc [of i "map (mir \<circ> rp \<circ> upp err) h"] Suc.prems by simp
    then show ?thesis using False Suc.prems by (subst max_slope.simps) simp
  qed
qed simp

lemma rev_take_two: "Suc n < length xs \<Longrightarrow> k \<le> n \<Longrightarrow>
    rev (drop k (take (Suc (Suc n)) xs)) = xs ! Suc n # xs ! n # rev (drop k (take n xs))"
  by (simp add: take_Suc_conv_app_nth)

lemma rev_take_one: "n < length xs \<Longrightarrow> k \<le> n \<Longrightarrow> rev (drop k (take (Suc n) xs)) = xs ! n # rev (drop k (take n xs))"
  by (simp add: take_Suc_conv_app_nth)

lemma trim_upper_cover:
  assumes "\<forall>q\<in>set h. wide (upp err q)" and "wide p" and "k < e" and "e \<le> length h"
  shows "\<exists>m. trim_upper err h k p e = Some m \<and> k < m \<and> m \<le> e \<and>
    cover (rp p) (rev (drop k (take e (map (rp \<circ> upp err) h)))) = rp p # rev (drop k (take m (map (rp \<circ> upp err) h)))"
  using assms(3,4)
proof (induction e)
  case (Suc e)
  define H where "H = map (rp \<circ> upp err) h"
  have H: "length H = length h" "\<And>j. j < length h \<Longrightarrow> H ! j = (rp \<circ> upp err) (h ! j)" by (simp_all add: H_def)
  have "\<exists>m. trim_upper err h k p (Suc e) = Some m \<and> k < m \<and> m \<le> Suc e \<and>
      cover (rp p) (rev (drop k (take (Suc e) H))) = rp p # rev (drop k (take m H))"
  proof (cases "k < e")
    case True
    then obtain e' where e': "e = Suc e'" by (cases e) auto
    let ?q = "upp err (h ! e)" and ?r = "upp err (h ! e')"
    have len: "e < length h" "k \<le> e'" using Suc.prems True e' by simp_all
    have w: "wide ?q" "wide ?r" using assms(1) len e' by simp_all
    from cross_turn [OF w(2,1) assms(2)] obtain c where c: "cross ?r ?q p = Some c" "of_int c = turn (rp ?r) (rp ?q) (rp p)" by blast
    have "rev (drop k (take (Suc e) H)) = (rp ?q) # (rp ?r) # rev (drop k (take e' H))"
      using rev_take_two [of e' H k] len e' by (simp add: H)
    moreover have "rev (drop k (take e H)) = (rp ?r) # rev (drop k (take e' H))"
      using rev_take_one [of e' H k] len e' by (simp add: H)
    moreover have "c \<le> 0 \<longleftrightarrow> turn ((rp ?r)) ((rp ?q)) ((rp p)) \<le> 0" using c(2) by (simp flip: c(2))
    moreover obtain m where "trim_upper err h k p e = Some m" "k < m" "m \<le> e"
        "cover ((rp p)) (rev (drop k (take e H))) = (rp p) # rev (drop k (take m H))"
      using Suc.IH [OF True Suc_leD [OF Suc.prems(2)]] unfolding H_def by blast
    ultimately show ?thesis using True len c(1) e' by (auto simp: upper_at_nth)
  next
    case False
    then have "k = e" "trim_upper err h k p (Suc e) = Some (Suc e)" using Suc.prems by (cases e; simp)+
    then show ?thesis using Suc.prems rev_take_one [of e H k] by (simp add: H)
  qed
  then show ?case by (simp add: H_def o_def)
qed simp

lemma trim_lower_cover:
  assumes "\<forall>q\<in>set h. wide (low err q)" and "wide p" and "k < e" and "e \<le> length h"
  shows "\<exists>m. trim_lower err h k p e = Some m \<and> k < m \<and> m \<le> e \<and>
    cover (mir (rp p)) (rev (drop k (take e (map (mir \<circ> rp \<circ> low err) h)))) =
      mir (rp p) # rev (drop k (take m (map (mir \<circ> rp \<circ> low err) h)))"
  using assms(3,4)
proof (induction e)
  case (Suc e)
  define H where "H = map (mir \<circ> rp \<circ> low err) h"
  have H: "length H = length h" "\<And>j. j < length h \<Longrightarrow> H ! j = (mir \<circ> rp \<circ> low err) (h ! j)" by (simp_all add: H_def)
  have "\<exists>m. trim_lower err h k p (Suc e) = Some m \<and> k < m \<and> m \<le> Suc e \<and>
      cover (mir (rp p)) (rev (drop k (take (Suc e) H))) = mir (rp p) # rev (drop k (take m H))"
  proof (cases "k < e")
    case True
    then obtain e' where e': "e = Suc e'" by (cases e) auto
    let ?q = "low err (h ! e)" and ?r = "low err (h ! e')"
    have len: "e < length h" "k \<le> e'" using Suc.prems True e' by simp_all
    have w: "wide ?q" "wide ?r" using assms(1) len e' by simp_all
    from cross_turn [OF w(2,1) assms(2)] obtain c where c: "cross ?r ?q p = Some c" "of_int c = turn (rp ?r) (rp ?q) (rp p)" by blast
    have "rev (drop k (take (Suc e) H)) = mir (rp ?q) # mir (rp ?r) # rev (drop k (take e' H))"
      using rev_take_two [of e' H k] len e' by (simp add: H)
    moreover have "rev (drop k (take e H)) = mir (rp ?r) # rev (drop k (take e' H))"
      using rev_take_one [of e' H k] len e' by (simp add: H)
    moreover have "c \<ge> 0 \<longleftrightarrow> turn (mir (rp ?r)) (mir (rp ?q)) (mir (rp p)) \<le> 0" using c(2) by (simp flip: c(2))
    moreover obtain m where "trim_lower err h k p e = Some m" "k < m" "m \<le> e"
        "cover (mir (rp p)) (rev (drop k (take e H))) = mir (rp p) # rev (drop k (take m H))"
      using Suc.IH [OF True Suc_leD [OF Suc.prems(2)]] unfolding H_def by blast
    ultimately show ?thesis using True len c(1) e' by (auto simp: lower_at_nth)
  next
    case False
    then have "k = e" "trim_lower err h k p (Suc e) = Some (Suc e)" using Suc.prems by (cases e; simp)+
    then show ?thesis using Suc.prems rev_take_one [of e H k] by (simp add: H)
  qed
  then show ?case by (simp add: H_def o_def)
qed simp

subsection \<open>The two updates\<close>

text \<open>The used parts of the hulls, shifted by the error, and what the rectangle is made of.\<close>

definition lows :: "plm \<Rightarrow> point list" where
  "lows s = map (low (plm_error s)) (drop (lower_start s) (lower s))"

definition ups :: "plm \<Rightarrow> point list" where
  "ups s = map (upp (plm_error s)) (drop (upper_start s) (upper s))"

definition hulls_ok :: "rpoint set \<Rightarrow> rpoint set \<Rightarrow> plm \<Rightarrow> bool" where
  "hulls_ok Ls Us s \<longleftrightarrow> good Ls Us (map rp (lows s)) (map rp (ups s)) \<and>
     rectangle s = [hd (ups s), hd (lows s), last (lows s), last (ups s)] \<and>
     (\<forall>q\<in>set (lower s). wide (low (plm_error s) q)) \<and> (\<forall>q\<in>set (upper s). wide (upp (plm_error s) q))"

definition same_segment :: "plm \<Rightarrow> plm \<Rightarrow> bool" where
  "same_segment s s' \<longleftrightarrow> plm_error s' = plm_error s \<and> first_x s' = first_x s \<and> last_x s' = last_x s \<and>
     points_in_hull s' = points_in_hull s"

lemma map_drop_comp: "map rp (map f (drop k h)) = drop k (map (rp \<circ> f) h)"
  by (simp add: drop_map)

lemma update_upper_ok:
  assumes "hulls_ok Ls Us s" and "wide p" and "wide p1" and "p1 = upp (plm_error s) p"
    and "\<forall>u\<in>Us. fst u < fst (rp p1)" and "\<forall>l\<in>Ls. before (rp p1) l"
    and "ev (line_min (map rp (lows s)) (map rp (ups s))) (fst (rp p1)) \<le> snd (rp p1)"
    and "snd (rp p1) < ev (line_max (map rp (lows s)) (map rp (ups s))) (fst (rp p1))"
  shows "\<exists>s'. update_upper p p1 s = Some s' \<and> hulls_ok Ls (insert (rp p1) Us) s' \<and> same_segment s s' \<and>
    set (lower s') \<subseteq> insert p (set (lower s)) \<and> set (upper s') \<subseteq> insert p (set (upper s)) \<and>
    hd (ups s') = hd (ups s) \<and> last (lows s') = last (lows s) \<and> last (ups s') = p1"
proof -
  let ?e = "plm_error s"
  let ?L = "map (rp \<circ> low ?e) (lower s)" and ?U = "map (rp \<circ> upp ?e) (upper s)"
  have good: "good Ls Us (map rp (lows s)) (map rp (ups s))" and wide: "\<forall>q\<in>set (lower s). wide (low ?e q)" "\<forall>q\<in>set (upper s). wide (upp ?e q)"
      and rect: "rectangle s = [hd (ups s), hd (lows s), last (lows s), last (ups s)]"
    using assms(1) by (auto simp: hulls_ok_def)
  have start: "lower_start s < length (lower s)" "upper_start s < length (upper s)"
    using goodD(1,2) [OF good] by (simp_all add: lows_def ups_def)
  obtain m where m: "min_slope ?e (lower s) p1 (lower_start s + 1) (point_minus (lower_at ?e (lower s) (lower_start s)) p1) (lower_start s) = Some m"
      "m < length (lower s)" "lower_start s \<le> m" "drop m ?L = tangent (rp p1) (drop (lower_start s) ?L)"
    using min_slope_tangent [OF wide(1) assms(3) start(1)] by blast
  obtain e where e: "trim_upper ?e (upper s) (upper_start s) p1 (length (upper s)) = Some e" "upper_start s < e" "e \<le> length (upper s)"
      "cover (rp p1) (rev (drop (upper_start s) ?U)) = rp p1 # rev (drop (upper_start s) (take e ?U))"
    using trim_upper_cover [OF wide(2) assms(3) start(2) order.refl] by auto
  let ?s = "s\<lparr>rectangle := (rectangle s)[1 := lower_at ?e (lower s) m, 3 := p1], lower_start := m, upper := take e (upper s) @ [p]\<rparr>"
  have lows: "map rp (lows ?s) = tangent (rp p1) (map rp (lows s))"
    using m(4) by (simp add: lows_def drop_map)
  have ups: "ups ?s = map (upp ?e) (drop (upper_start s) (take e (upper s))) @ [p1]"
    using e(2,3) assms(4) by (simp add: ups_def)
  then have "map rp (ups ?s) = drop (upper_start s) (take e ?U) @ [rp p1]" by (simp only: map_append) (simp add: drop_map take_map)
  moreover have "rev (cover (rp p1) (rev (map rp (ups s)))) = drop (upper_start s) (take e ?U) @ [rp p1]"
    unfolding ups_def map_drop_comp e(4) by simp
  ultimately have "good Ls (insert (rp p1) Us) (map rp (lows ?s)) (map rp (ups ?s))"
    using add_upper [OF good assms(5-8)] lows by simp
  moreover have "hd (ups ?s) = hd (ups s)"
    unfolding ups using e(2,3) by (simp add: ups_def hd_drop_conv_nth hd_append hd_map)
  moreover have "last (ups ?s) = p1" unfolding ups by simp
  moreover have "hd (lows ?s) = lower_at ?e (lower s) m" "last (lows ?s) = last (lows s)"
    using m(2) start(1) by (simp_all add: lows_def hd_map hd_drop_conv_nth lower_at_def low_def last_map)
  moreover have "update_upper p p1 s = Some ?s" using m(1) e(1) start(1) by (simp add: update_upper_def)
  moreover have "wide (upp ?e p)" using assms(3,4) by simp
  moreover have "set (take e (upper s)) \<subseteq> set (upper s)" by (rule set_take_subset)
  ultimately show ?thesis
    using rect wide by (intro exI [of _ ?s]) (auto simp: hulls_ok_def same_segment_def)
qed

lemma update_lower_ok:
  assumes "hulls_ok Ls Us s" and "wide p" and "wide p2" and "p2 = low (plm_error s) p"
    and "\<forall>l\<in>Ls. fst l < fst (rp p2)" and "\<forall>u\<in>Us. before (mir (rp p2)) (mir u)"
    and "snd (rp p2) \<le> ev (line_max (map rp (lows s)) (map rp (ups s))) (fst (rp p2))"
    and "ev (line_min (map rp (lows s)) (map rp (ups s))) (fst (rp p2)) < snd (rp p2)"
  shows "\<exists>s'. update_lower p p2 s = Some s' \<and> hulls_ok (insert (rp p2) Ls) Us s' \<and> same_segment s s' \<and>
    set (lower s') \<subseteq> insert p (set (lower s)) \<and> set (upper s') \<subseteq> insert p (set (upper s))"
proof -
  let ?e = "plm_error s"
  let ?L = "map (mir \<circ> rp \<circ> low ?e) (lower s)" and ?U = "map (mir \<circ> rp \<circ> upp ?e) (upper s)"
  have good: "good Ls Us (map rp (lows s)) (map rp (ups s))" and wide: "\<forall>q\<in>set (lower s). wide (low ?e q)" "\<forall>q\<in>set (upper s). wide (upp ?e q)"
      and rect: "rectangle s = [hd (ups s), hd (lows s), last (lows s), last (ups s)]"
    using assms(1) by (auto simp: hulls_ok_def)
  have start: "lower_start s < length (lower s)" "upper_start s < length (upper s)"
    using goodD(1,2) [OF good] by (simp_all add: lows_def ups_def)
  obtain m where m: "max_slope ?e (upper s) p2 (upper_start s + 1) (point_minus (upper_at ?e (upper s) (upper_start s)) p2) (upper_start s) = Some m"
      "m < length (upper s)" "upper_start s \<le> m" "drop m ?U = tangent (mir (rp p2)) (drop (upper_start s) ?U)"
    using max_slope_tangent [OF wide(2) assms(3) start(2)] by blast
  obtain e where e: "trim_lower ?e (lower s) (lower_start s) p2 (length (lower s)) = Some e" "lower_start s < e" "e \<le> length (lower s)"
      "cover (mir (rp p2)) (rev (drop (lower_start s) ?L)) = mir (rp p2) # rev (drop (lower_start s) (take e ?L))"
    using trim_lower_cover [OF wide(1) assms(3) start(1) order.refl] by auto
  let ?s = "s\<lparr>rectangle := (rectangle s)[0 := upper_at ?e (upper s) m, 2 := p2], upper_start := m, lower := take e (lower s) @ [p]\<rparr>"
  have comp: "map mir (map rp (map f (drop k h))) = drop k (map (mir \<circ> rp \<circ> f) h)" for f k and h :: "point list"
    by (simp add: drop_map o_assoc)
  have "map mir (map rp (ups ?s)) = tangent (mir (rp p2)) (map mir (map rp (ups s)))"
    unfolding ups_def comp using m(4) by simp
  then have ups: "map rp (ups ?s) = map mir (tangent (mir (rp p2)) (map mir (map rp (ups s))))"
    by (metis mir_image(2))
  have lows: "lows ?s = map (low ?e) (drop (lower_start s) (take e (lower s))) @ [p2]"
    using e(2,3) assms(4) by (simp add: lows_def)
  then have "map rp (lows ?s) = map rp (map (low ?e) (drop (lower_start s) (take e (lower s)))) @ [rp p2]"
    by (simp only: map_append) simp
  moreover have "rev (cover (mir (rp p2)) (map mir (rev (map rp (lows s))))) =
      map mir (map rp (map (low ?e) (drop (lower_start s) (take e (lower s)))) @ [rp p2])"
    using e(4) unfolding lows_def rev_map [symmetric] comp by (simp add: drop_map take_map o_assoc)
  then have "rev (map mir (cover (mir (rp p2)) (map mir (rev (map rp (lows s)))))) =
      map rp (map (low ?e) (drop (lower_start s) (take e (lower s)))) @ [rp p2]"
    by (simp only: rev_map) (simp only: mir_image)
  ultimately have "good (insert (rp p2) Ls) Us (map rp (lows ?s)) (map rp (ups ?s))"
    using add_lower [OF good assms(5-8)] ups by simp
  moreover have "hd (lows ?s) = hd (lows s)"
    unfolding lows using e(2,3) by (simp add: lows_def hd_drop_conv_nth hd_append hd_map)
  moreover have "last (lows ?s) = p2" unfolding lows by simp
  moreover have "hd (ups ?s) = upper_at ?e (upper s) m" "last (ups ?s) = last (ups s)"
    using m(2) start(2) by (simp_all add: ups_def hd_map hd_drop_conv_nth upper_at_def upp_def last_map)
  moreover have "update_lower p p2 s = Some ?s" using m(1) e(1) start(2) by (simp add: update_lower_def)
  moreover have "wide (low ?e p)" using assms(3,4) by simp
  moreover have "set (take e (lower s)) \<subseteq> set (lower s)" by (rule set_take_subset)
  ultimately show ?thesis
    using rect wide by (intro exI [of _ ?s]) (auto simp: hulls_ok_def same_segment_def)
qed

subsection \<open>Adding a point\<close>

definition pos_ok :: "point \<Rightarrow> bool" where
  "pos_ok p \<longleftrightarrow> 0 \<le> fst p \<and> fst p < 2 ^ 64 \<and> 0 \<le> snd p \<and> snd p \<le> 2 ^ 60"

text \<open>A line approximates a point with an error of at most \<open>err\<close>.\<close>

definition near :: "int \<Rightarrow> line \<Rightarrow> point \<Rightarrow> bool" where
  "near err f p \<longleftrightarrow> \<bar>ev f (of_int (fst p)) - of_int (snd p)\<bar> \<le> of_int err"

definition feasible :: "int \<Rightarrow> point list \<Rightarrow> bool" where
  "feasible err S \<longleftrightarrow> (\<exists>f. \<forall>p\<in>set S. near err f p)"

definition Lset :: "int \<Rightarrow> point list \<Rightarrow> rpoint set" where
  "Lset err S = rp ` low err ` set S"

definition Uset :: "int \<Rightarrow> point list \<Rightarrow> rpoint set" where
  "Uset err S = rp ` upp err ` set S"

lemma fits_near: "fits f (Lset err S) (Uset err S) \<longleftrightarrow> (\<forall>p\<in>set S. near err f p)"
  by (auto simp: fits_def Lset_def Uset_def near_def low_def upp_def abs_le_iff algebra_simps)

lemma sets_snoc: "Lset err (S @ [p]) = insert (rp (low err p)) (Lset err S)" "Uset err (S @ [p]) = insert (rp (upp err p)) (Uset err S)"
  by (simp_all add: Lset_def Uset_def)

definition plm_ok :: "plm \<Rightarrow> point list \<Rightarrow> bool" where
  "plm_ok s S \<longleftrightarrow> S \<noteq> [] \<and> sorted_wrt (\<lambda>p q. fst p < fst q) S \<and> (\<forall>p\<in>set S. pos_ok p) \<and>
     0 < plm_error s \<and> plm_error s \<le> 2 ^ 60 \<and> points_in_hull s = length S \<and> last_x s = fst (last S) \<and> first_x s = fst (hd S) \<and>
     set (lower s) \<subseteq> set S \<and> set (upper s) \<subseteq> set S \<and>
     (if length S = 1
      then lower s = S \<and> upper s = S \<and> lower_start s = 0 \<and> upper_start s = 0 \<and>
        (\<exists>c d. rectangle s = [upp (plm_error s) (hd S), low (plm_error s) (hd S), c, d])
      else hulls_ok (Lset (plm_error s) S) (Uset (plm_error s) S) s)"

lemma wide_shift:
  assumes "pos_ok p" and "0 < err" and "err \<le> 2 ^ 60"
  shows "wide p" "wide (low err p)" "wide (upp err p)"
  using assms by (simp_all add: pos_ok_def wide_def low_def upp_def)

lemma beyond:
  assumes "fst p < fst q"
  shows "snd r < ev (thru p q) (fst r) \<longleftrightarrow> (snd r - snd q) * (fst q - fst p) < (fst r - fst q) * (snd q - snd p)"
    and "snd r < ev (thru p q) (fst r) \<longleftrightarrow> (snd r - snd p) * (fst q - fst p) < (fst r - fst p) * (snd q - snd p)"
    and "ev (thru p q) (fst r) < snd r \<longleftrightarrow> (fst r - fst q) * (snd q - snd p) < (snd r - snd q) * (fst q - fst p)"
    and "ev (thru p q) (fst r) < snd r \<longleftrightarrow> (fst r - fst p) * (snd q - snd p) < (snd r - snd p) * (fst q - fst p)"
  using assms by (simp_all add: thru_def ev_ray slp_def field_simps)

lemma pos_before:
  assumes "sorted_wrt (\<lambda>p q. fst p < fst q) S" and "S \<noteq> []" and "fst (last S) < fst p" and "q \<in> set S"
  shows "fst q < (fst p :: int)"
proof -
  obtain xs x where "S = xs @ [x]" using assms(2) by (cases S rule: rev_cases) auto
  then show ?thesis using assms by (auto simp: sorted_wrt_append)
qed

lemma second_point:
  assumes "plm_ok s S" and "length S = 1" and "pos_ok p" and "fst (last S) < fst p"
  shows "\<exists>s'. add_point p s = Some (True, s') \<and> plm_ok s' (S @ [p])"
proof -
  let ?e = "plm_error s"
  obtain q c d where q: "S = [q]" "rectangle s = [upp ?e q, low ?e q, c, d]" "lower s = [q]" "upper s = [q]"
      "lower_start s = 0" "upper_start s = 0"
    using assms(1,2) by (cases S) (auto simp: plm_ok_def)
  have e: "0 < ?e" "?e \<le> 2 ^ 60" "pos_ok q" and x: "points_in_hull s = 1" "last_x s = fst q" "first_x s = fst q"
    using assms(1) q(1) by (auto simp: plm_ok_def)
  let ?s = "s\<lparr>last_x := fst p, rectangle := [upp ?e q, low ?e q, low ?e p, upp ?e p], upper := [q, p], lower := [q, p], points_in_hull := 2\<rparr>"
  have "add_point p s = Some (True, ?s)"
    using assms(4) q x by (cases p) (simp add: add_point_def low_def upp_def)
  moreover have "good {rp (low ?e q), rp (low ?e p)} {rp (upp ?e q), rp (upp ?e p)} [rp (low ?e q), rp (low ?e p)] [rp (upp ?e q), rp (upp ?e p)]"
    using assms(4) q(1) e(1) by (intro good_two) (simp_all add: low_def upp_def)
  then have "plm_ok ?s (S @ [p])"
    using assms(3,4) q e x wide_shift [OF assms(3) e(1,2)] wide_shift [OF e(3,1,2)]
    by (simp add: plm_ok_def hulls_ok_def lows_def ups_def Lset_def Uset_def)
  ultimately show ?thesis by blast
qed

abbreviation pmin :: "plm \<Rightarrow> line" where
  "pmin s \<equiv> line_min (map rp (lows s)) (map rp (ups s))"

abbreviation pmax :: "plm \<Rightarrow> line" where
  "pmax s \<equiv> line_max (map rp (lows s)) (map rp (ups s))"

text \<open>The two halves of an addition, taken or not; \<open>p1\<close> and \<open>p2\<close> are the upper and the lower point.\<close>

lemma upper_half:
  assumes "hulls_ok Ls Us s" and "wide p" and "wide p1" and "p1 = upp (plm_error s) p"
    and "\<forall>u\<in>Us. fst u < fst (rp p1)" and "\<forall>l\<in>Ls. fst l < fst (rp p1)" and "ev (pmin s) (fst (rp p1)) \<le> snd (rp p1)"
    and "y \<le> snd (rp p1)" and "y \<le> ev (pmax s) (fst (rp p1))"
  shows "\<exists>s'. (if snd (rp p1) < ev (pmax s) (fst (rp p1)) then update_upper p p1 s else Some s) = Some s' \<and>
    hulls_ok Ls (insert (rp p1) Us) s' \<and> same_segment s s' \<and>
    set (lower s') \<subseteq> insert p (set (lower s)) \<and> set (upper s') \<subseteq> insert p (set (upper s)) \<and>
    hd (ups s') = hd (ups s) \<and> last (lows s') = last (lows s) \<and> y \<le> ev (pmax s') (fst (rp p1))"
proof (cases "snd (rp p1) < ev (pmax s) (fst (rp p1))")
  case True
  have "\<forall>l\<in>Ls. before (rp p1) l" using assms(6) by (simp add: before_def)
  from update_upper_ok [OF assms(1-5) this assms(7) True] obtain s' where s': "update_upper p p1 s = Some s'"
      "hulls_ok Ls (insert (rp p1) Us) s'" "same_segment s s'" "set (lower s') \<subseteq> insert p (set (lower s))"
      "set (upper s') \<subseteq> insert p (set (upper s))" "hd (ups s') = hd (ups s)" "last (lows s') = last (lows s)" "last (ups s') = p1"
    by blast
  have g: "good Ls (insert (rp p1) Us) (map rp (lows s')) (map rp (ups s'))" using s'(2) by (simp add: hulls_ok_def)
  have last: "last (map rp (ups s')) = rp p1" using goodD(2) [OF g] s'(8) by (simp add: last_map)
  have "ev (pmax s') (fst (rp p1)) = snd (rp p1)"
    unfolding last using goodD(10) [OF g] last by (intro ev_thru(2)) simp
  then show ?thesis using True s' assms(8) by auto
next
  case False
  have "good Ls (insert (rp p1) Us) (map rp (lows s)) (map rp (ups s))"
    using add_upper_keep [of Ls Us _ _ "rp p1"] assms(1,5) False by (simp add: hulls_ok_def not_less)
  then show ?thesis using False assms(1,9) by (auto simp: hulls_ok_def same_segment_def)
qed

lemma lower_half:
  assumes "hulls_ok Ls Us s" and "wide p" and "wide p2" and "p2 = low (plm_error s) p"
    and "\<forall>l\<in>Ls. fst l < fst (rp p2)" and "\<forall>u\<in>Us. before (mir (rp p2)) (mir u)" and "snd (rp p2) \<le> ev (pmax s) (fst (rp p2))"
  shows "\<exists>s'. (if ev (pmin s) (fst (rp p2)) < snd (rp p2) then update_lower p p2 s else Some s) = Some s' \<and>
    hulls_ok (insert (rp p2) Ls) Us s' \<and> same_segment s s' \<and>
    set (lower s') \<subseteq> insert p (set (lower s)) \<and> set (upper s') \<subseteq> insert p (set (upper s))"
proof (cases "ev (pmin s) (fst (rp p2)) < snd (rp p2)")
  case True
  then show ?thesis using update_lower_ok [OF assms True] by simp
next
  case False
  have "good (insert (rp p2) Ls) Us (map rp (lows s)) (map rp (ups s))"
    using add_lower_keep [of Ls Us _ _ "rp p2"] assms(1,5) False by (simp add: hulls_ok_def not_less)
  then show ?thesis using False assms(1) by (auto simp: hulls_ok_def same_segment_def)
qed

lemma hulls_okD:
  assumes "hulls_ok Ls Us s"
  shows "good Ls Us (map rp (lows s)) (map rp (ups s))" "lows s \<noteq> []" "ups s \<noteq> []"
    "rectangle s = [hd (ups s), hd (lows s), last (lows s), last (ups s)]"
    "pmin s = thru (rp (hd (ups s))) (rp (last (lows s)))" "pmax s = thru (rp (hd (lows s))) (rp (last (ups s)))"
    "fst (hd (ups s)) < fst (last (lows s))" "fst (hd (lows s)) < fst (last (ups s))"
    "q \<in> set (rectangle s) \<Longrightarrow> wide q"
proof -
  show g: "good Ls Us (map rp (lows s)) (map rp (ups s))" and r: "rectangle s = [hd (ups s), hd (lows s), last (lows s), last (ups s)]"
    using assms by (simp_all add: hulls_ok_def)
  show ne: "lows s \<noteq> []" "ups s \<noteq> []" using goodD(1,2) [OF g] by auto
  then show "pmin s = thru (rp (hd (ups s))) (rp (last (lows s)))" "pmax s = thru (rp (hd (lows s))) (rp (last (ups s)))"
    by (simp_all add: hd_map last_map)
  show "fst (hd (ups s)) < fst (last (lows s))" "fst (hd (lows s)) < fst (last (ups s))"
    using goodD(9,10) [OF g] ne by (simp_all add: hd_map last_map)
  have "\<forall>q\<in>set (lows s) \<union> set (ups s). wide q"
    using assms by (auto simp: hulls_ok_def lows_def ups_def dest: in_set_dropD)
  then show "q \<in> set (rectangle s) \<Longrightarrow> wide q" using ne by (auto simp: r)
qed

text \<open>The comparisons of \<^verbatim>\<open>add_point\<close> decide where the new points are with respect to the extreme lines.\<close>

lemma add_point_tests:
  assumes "hulls_ok Ls Us s" and "wide p1" and "wide p2"
  shows "slope_less (point_minus p1 (rectangle s ! 2)) (point_minus (rectangle s ! 2) (rectangle s ! 0)) =
      Some (snd (rp p1) < ev (pmin s) (fst (rp p1)))"
    and "slope_greater (point_minus p2 (rectangle s ! 3)) (point_minus (rectangle s ! 3) (rectangle s ! 1)) =
      Some (ev (pmax s) (fst (rp p2)) < snd (rp p2))"
    and "slope_less (point_minus p1 (rectangle s ! 1)) (point_minus (rectangle s ! 3) (rectangle s ! 1)) =
      Some (snd (rp p1) < ev (pmax s) (fst (rp p1)))"
    and "slope_greater (point_minus p2 (rectangle s ! 0)) (point_minus (rectangle s ! 2) (rectangle s ! 0)) =
      Some (ev (pmin s) (fst (rp p2)) < snd (rp p2))"
proof -
  note h = hulls_okD [OF assms(1)]
  have w: "wide (rectangle s ! 0)" "wide (rectangle s ! 1)" "wide (rectangle s ! 2)" "wide (rectangle s ! 3)"
    using h(9) by (simp_all add: h(4))
  have x: "fst (rp (rectangle s ! 0)) < fst (rp (rectangle s ! 2))" "fst (rp (rectangle s ! 1)) < fst (rp (rectangle s ! 3))"
    using h(7,8) by (simp_all add: h(4))
  have l: "pmin s = thru (rp (rectangle s ! 0)) (rp (rectangle s ! 2))" "pmax s = thru (rp (rectangle s ! 1)) (rp (rectangle s ! 3))"
    unfolding h(5,6) by (simp_all add: h(4))
  show "slope_less (point_minus p1 (rectangle s ! 2)) (point_minus (rectangle s ! 2) (rectangle s ! 0)) =
      Some (snd (rp p1) < ev (pmin s) (fst (rp p1)))"
    unfolding l slope_compare [OF assms(2) w(3) w(3) w(1)] beyond(1) [OF x(1)] ..
  show "slope_greater (point_minus p2 (rectangle s ! 3)) (point_minus (rectangle s ! 3) (rectangle s ! 1)) =
      Some (ev (pmax s) (fst (rp p2)) < snd (rp p2))"
    unfolding l slope_compare [OF assms(3) w(4) w(4) w(2)] beyond(3) [OF x(2)] ..
  show "slope_less (point_minus p1 (rectangle s ! 1)) (point_minus (rectangle s ! 3) (rectangle s ! 1)) =
      Some (snd (rp p1) < ev (pmax s) (fst (rp p1)))"
    unfolding l slope_compare [OF assms(2) w(2) w(4) w(2)] beyond(2) [OF x(2)] ..
  show "slope_greater (point_minus p2 (rectangle s ! 0)) (point_minus (rectangle s ! 2) (rectangle s ! 0)) =
      Some (ev (pmin s) (fst (rp p2)) < snd (rp p2))"
    unfolding l slope_compare [OF assms(3) w(1) w(3) w(1)] beyond(4) [OF x(1)] ..
qed

lemma add_point_later:
  assumes "1 < points_in_hull s" and "last_x s < fst p"
  defines "s0 \<equiv> s\<lparr>last_x := fst p\<rparr>" and "p1 \<equiv> upp (plm_error s) p" and "p2 \<equiv> low (plm_error s) p"
  shows "add_point p s = do {
     outside_line1 \<leftarrow> slope_less (point_minus p1 (rectangle s0 ! 2)) (point_minus (rectangle s0 ! 2) (rectangle s0 ! 0));
     outside_line2 \<leftarrow> slope_greater (point_minus p2 (rectangle s0 ! 3)) (point_minus (rectangle s0 ! 3) (rectangle s0 ! 1));
     if outside_line1 \<or> outside_line2 then Some (False, s0\<lparr>points_in_hull := 0\<rparr>)
     else do {
       below2 \<leftarrow> slope_less (point_minus p1 (rectangle s0 ! 1)) (point_minus (rectangle s0 ! 3) (rectangle s0 ! 1));
       s \<leftarrow> (if below2 then update_upper p p1 s0 else Some s0);
       above1 \<leftarrow> slope_greater (point_minus p2 (rectangle s ! 0)) (point_minus (rectangle s0 ! 2) (rectangle s0 ! 0));
       s \<leftarrow> (if above1 then update_lower p p2 s else Some s);
       Some (True, s\<lparr>points_in_hull := points_in_hull s + 1\<rparr>)
     }
   }"
  unfolding assms(3-5) using assms(1,2) by (cases p) (simp add: add_point_def low_def upp_def Let_def cong: if_cong)

lemma later_point:
  assumes "plm_ok s S" and "length S \<noteq> 1" and "pos_ok p" and "fst (last S) < fst p"
  shows "if feasible (plm_error s) (S @ [p]) then \<exists>s'. add_point p s = Some (True, s') \<and> plm_ok s' (S @ [p])
    else \<exists>s'. add_point p s = Some (False, s') \<and> s' = s\<lparr>last_x := fst p, points_in_hull := 0\<rparr>"
proof -
  let ?e = "plm_error s" and ?s0 = "s\<lparr>last_x := fst p\<rparr>"
  let ?L = "Lset ?e S" and ?U = "Uset ?e S" and ?p1 = "upp ?e p" and ?p2 = "low ?e p"
  have e: "0 < ?e" "?e \<le> 2 ^ 60" and n: "S \<noteq> []" "points_in_hull s = length S" "length S > 1" and x: "last_x s = fst (last S)"
      and subs: "set (lower s) \<subseteq> set S" "set (upper s) \<subseteq> set S" and srt: "sorted_wrt (\<lambda>p q. fst p < fst q) S"
      and pos: "\<forall>p\<in>set S. pos_ok p" and first: "first_x s = fst (hd S)"
    using assms(1,2) by (cases S; auto simp: plm_ok_def split: if_splits)+
  note w = wide_shift [OF assms(3) e]
  have h: "hulls_ok ?L ?U ?s0" using assms(1,2) by (simp add: plm_ok_def hulls_ok_def lows_def ups_def)
  note g = hulls_okD(1) [OF h]
  have left: "\<forall>l\<in>?L. fst l < fst (rp ?p2)" "\<forall>u\<in>?U. fst u < fst (rp ?p1)" "\<forall>l\<in>?L. fst l < fst (rp ?p1)" "\<forall>u\<in>?U. fst u < fst (rp ?p2)"
    using pos_before [OF srt n(1) assms(4)] by (auto simp: Lset_def Uset_def low_def upp_def)
  note tests = add_point_tests [OF h w(3,2)]
  have start: "add_point p s = (if snd (rp ?p1) < ev (pmin ?s0) (fst (rp ?p1)) \<or> ev (pmax ?s0) (fst (rp ?p2)) < snd (rp ?p2)
      then Some (False, ?s0\<lparr>points_in_hull := 0\<rparr>)
      else do {
        s \<leftarrow> (if snd (rp ?p1) < ev (pmax ?s0) (fst (rp ?p1)) then update_upper p ?p1 ?s0 else Some ?s0);
        above1 \<leftarrow> slope_greater (point_minus ?p2 (rectangle s ! 0)) (point_minus (rectangle ?s0 ! 2) (rectangle ?s0 ! 0));
        s \<leftarrow> (if above1 then update_lower p ?p2 s else Some s);
        Some (True, s\<lparr>points_in_hull := points_in_hull s + 1\<rparr>)
      })"
    using n x assms(4) by (subst add_point_later) (simp_all only: tests(1-3) bind.bind_lunit)
  have L1: "Lset ?e (S @ [p]) = insert (rp ?p2) ?L" and U1: "Uset ?e (S @ [p]) = insert (rp ?p1) ?U" by (simp_all add: sets_snoc)
  show ?thesis
  proof (cases "snd (rp ?p1) < ev (pmin ?s0) (fst (rp ?p1)) \<or> ev (pmax ?s0) (fst (rp ?p2)) < snd (rp ?p2)")
    case True
    have "\<not> fits f (insert (rp ?p2) ?L) (insert (rp ?p1) ?U)" for f
      using True outside(1) [OF g left(3,2), of f] outside(2) [OF g left(1,4), of f] by (auto simp: fits_def)
    then have "\<not> feasible ?e (S @ [p])" unfolding feasible_def fits_near [symmetric] L1 U1 by simp
    then show ?thesis using start True by simp
  next
    case False
    have "snd (rp ?p2) \<le> snd (rp ?p1)" "fst (rp ?p2) = fst (rp ?p1)" using e by (simp_all add: low_def upp_def)
    with upper_half [OF h w(1,3) _ left(2,3), of "snd (rp ?p2)"] False obtain s1 where
      s1: "(if snd (rp ?p1) < ev (pmax ?s0) (fst (rp ?p1)) then update_upper p ?p1 ?s0 else Some ?s0) = Some s1"
        "hulls_ok ?L (insert (rp ?p1) ?U) s1" "same_segment ?s0 s1" "set (lower s1) \<subseteq> insert p (set (lower s))"
        "set (upper s1) \<subseteq> insert p (set (upper s))" "hd (ups s1) = hd (ups ?s0)" "last (lows s1) = last (lows ?s0)"
        "snd (rp ?p2) \<le> ev (pmax s1) (fst (rp ?p2))"
      by (auto simp: not_less)
    have "rectangle s1 ! 0 = rectangle ?s0 ! 0" "rectangle s1 ! 2 = rectangle ?s0 ! 2"
      using s1(6,7) unfolding hulls_okD(4) [OF s1(2)] hulls_okD(4) [OF h] by simp_all
    then have above: "slope_greater (point_minus ?p2 (rectangle s1 ! 0)) (point_minus (rectangle ?s0 ! 2) (rectangle ?s0 ! 0)) =
        Some (ev (pmin s1) (fst (rp ?p2)) < snd (rp ?p2))"
      using add_point_tests(4) [OF s1(2) w(3,2)] by simp
    have "before (mir (rp ?p2)) (mir u)" if "u \<in> insert (rp ?p1) ?U" for u
      using that left(4) e by (auto simp: before_def low_def upp_def)
    then obtain s2 where
      s2: "(if ev (pmin s1) (fst (rp ?p2)) < snd (rp ?p2) then update_lower p ?p2 s1 else Some s1) = Some s2"
        "hulls_ok (insert (rp ?p2) ?L) (insert (rp ?p1) ?U) s2" "same_segment s1 s2"
        "set (lower s2) \<subseteq> insert p (set (lower s1))" "set (upper s2) \<subseteq> insert p (set (upper s1))"
      using lower_half [OF s1(2) w(1,2) _ left(1) _ s1(8)] s1(3) by (auto simp: same_segment_def)
    let ?s = "s2\<lparr>points_in_hull := points_in_hull s2 + 1\<rparr>"
    have fields: "plm_error s2 = ?e" "first_x s2 = fst (hd S)" "last_x s2 = fst p" "points_in_hull s2 = length S"
      using s1(3) s2(3) first n(2) by (simp_all add: same_segment_def)
    have "add_point p s = Some (True, ?s)" using start False s1(1) above s2(1) by simp
    moreover have h': "hulls_ok (Lset ?e (S @ [p])) (Uset ?e (S @ [p])) ?s"
      using s2(2) unfolding L1 U1 by (simp add: hulls_ok_def lows_def ups_def)
    moreover have "plm_ok ?s (S @ [p])"
      unfolding plm_ok_def using h' fields e n assms(3) pos srt pos_before [OF srt n(1) assms(4)] s1(4,5) s2(4,5) subs
      by (auto simp: sorted_wrt_append)
    moreover have "feasible ?e (S @ [p])"
      unfolding feasible_def fits_near [symmetric] using goodD(11) [OF hulls_okD(1) [OF h']] by blast
    ultimately show ?thesis by auto
  qed
qed

end
