(* ===== verification/Segmentation.thy ===== *)
theory Segmentation
  imports Piecewise_Linear_Correct
begin

text \<open>
  The segmentation of a sequence of points: every segment approximates its points within the error, and no
  sequence of lines does so with fewer segments.
\<close>

subsection \<open>Segments\<close>

definition cs_line_min :: "canonical_segment \<Rightarrow> line" where
  "cs_line_min cs = thru (rp (cs_rectangle cs ! 0)) (rp (cs_rectangle cs ! 2))"

definition cs_line_max :: "canonical_segment \<Rightarrow> line" where
  "cs_line_max cs = thru (rp (cs_rectangle cs ! 1)) (rp (cs_rectangle cs ! 3))"

text \<open>The rectangle of a segment: four of its points, shifted by the error, or twice its only point.\<close>

definition corners :: "int \<Rightarrow> canonical_segment \<Rightarrow> point list \<Rightarrow> bool" where
  "corners err cs S \<longleftrightarrow>
     (if length S = 1 then cs_rectangle cs = [upp err (hd S), low err (hd S), upp err (hd S), low err (hd S)]
      else \<exists>p0\<in>set S. \<exists>p1\<in>set S. \<exists>p2\<in>set S. \<exists>p3\<in>set S.
        cs_rectangle cs = [upp err p0, low err p1, low err p2, upp err p3] \<and> fst p0 < fst p2 \<and> fst p1 < fst p3)"

text \<open>The segment has the first key of its points, and both of its lines approximate them.\<close>

definition segment_ok :: "int \<Rightarrow> canonical_segment \<Rightarrow> point list \<Rightarrow> bool" where
  "segment_ok err cs S \<longleftrightarrow> S \<noteq> [] \<and> cs_first cs = fst (hd S) \<and> corners err cs S \<and>
     (\<forall>p\<in>set S. near err (cs_line_min cs) p \<and> near err (cs_line_max cs) p)"

lemma hulls_corners:
  assumes "plm_ok s S" and "length S \<noteq> 1" and "cs_rectangle cs = rectangle s"
  shows "corners (plm_error s) cs S"
proof -
  have h: "hulls_ok (Lset (plm_error s) S) (Uset (plm_error s) S) s" using assms(1,2) by (simp add: plm_ok_def)
  note g = goodD [OF hulls_okD(1) [OF h]]
  have ne: "lows s \<noteq> []" "ups s \<noteq> []" using g(1,2) by auto
  have sub: "set (lows s) \<subseteq> low (plm_error s) ` set S" "set (ups s) \<subseteq> upp (plm_error s) ` set S"
    using assms(1) by (auto simp: plm_ok_def lows_def ups_def dest!: in_set_dropD)
  obtain p0 where p0: "p0 \<in> set S" "hd (ups s) = upp (plm_error s) p0" using subsetD [OF sub(2) hd_in_set [OF ne(2)]] by blast
  obtain p1 where p1: "p1 \<in> set S" "hd (lows s) = low (plm_error s) p1" using subsetD [OF sub(1) hd_in_set [OF ne(1)]] by blast
  obtain p2 where p2: "p2 \<in> set S" "last (lows s) = low (plm_error s) p2" using subsetD [OF sub(1) last_in_set [OF ne(1)]] by blast
  obtain p3 where p3: "p3 \<in> set S" "last (ups s) = upp (plm_error s) p3" using subsetD [OF sub(2) last_in_set [OF ne(2)]] by blast
  have "fst p0 < fst p2" "fst p1 < fst p3"
    using g(9,10) ne p0 p1 p2 p3 by (simp_all add: hd_map last_map low_def upp_def)
  moreover have "cs_rectangle cs = [hd (ups s), hd (lows s), last (lows s), last (ups s)]"
    using h assms(3) by (simp add: hulls_ok_def)
  ultimately show ?thesis using assms(2) p0 p1 p2 p3 unfolding corners_def by auto
qed

lemma segment_hulls:
  assumes "plm_ok s S" and "length S \<noteq> 1" and "cs_rectangle cs = rectangle s" and "cs_first cs = first_x s"
  shows "segment_ok (plm_error s) cs S"
proof -
  have h: "hulls_ok (Lset (plm_error s) S) (Uset (plm_error s) S) s" using assms(1,2) by (simp add: plm_ok_def)
  have "cs_line_min cs = pmin s" "cs_line_max cs = pmax s"
    unfolding cs_line_min_def cs_line_max_def assms(3) hulls_okD(4-6) [OF h] by simp_all
  then show ?thesis
    using goodD(11,12) [OF hulls_okD(1) [OF h]] assms(1,4) hulls_corners [OF assms(1-3)]
    unfolding fits_near by (simp add: segment_ok_def plm_ok_def)
qed

lemma get_segment_ok:
  assumes "plm_ok s S"
  shows "segment_ok (plm_error s) (get_segment s) S"
proof (cases "length S = 1")
  case True
  then obtain q where "S = [q]" by (cases S) auto
  then show ?thesis
    using assms by (auto simp: plm_ok_def get_segment_def segment_ok_def cs_line_min_def cs_line_max_def near_def thru_def ev_ray slp_def
        low_def upp_def corners_def)
next
  case False
  then show ?thesis using assms by (intro segment_hulls) (auto simp: get_segment_def plm_ok_def)
qed

lemma first_point:
  assumes "points_in_hull s = 0" and "length (rectangle s) = 4" and "pos_ok p" and "0 < plm_error s" and "plm_error s \<le> 2 ^ 60"
  shows "\<exists>s'. add_point p s = Some (True, s') \<and> plm_ok s' [p] \<and> plm_error s' = plm_error s"
proof -
  obtain a b c d where "rectangle s = [a, b, c, d]"
    using assms(2) by (auto simp: eval_nat_numeral length_Suc_conv)
  then show ?thesis using assms by (cases p) (simp add: add_point_def plm_ok_def low_def upp_def)
qed

subsection \<open>The points of a segment\<close>

text \<open>The points at the positions from \<open>a\<close> to \<open>b\<close> that the segmentation uses: of consecutive points with one key only the first.\<close>

definition kept :: "(nat \<Rightarrow> point) \<Rightarrow> nat \<Rightarrow> nat \<Rightarrow> point list" where
  "kept inp a b = map inp (filter (\<lambda>i. i = a \<or> fst (inp (i - 1)) \<noteq> fst (inp i)) [a..<b])"

lemma kept_Suc: "a \<le> b \<Longrightarrow> kept inp a (Suc b) = kept inp a b @ (if b = a \<or> fst (inp (b - 1)) \<noteq> fst (inp b) then [inp b] else [])"
  by (simp add: kept_def)

lemma kept_self [simp]: "kept inp a a = []" "kept inp a (Suc a) = [inp a]"
  by (simp_all add: kept_def)

lemma kept_last: "a < b \<Longrightarrow> kept inp a b \<noteq> [] \<and> fst (last (kept inp a b)) = fst (inp (b - 1))"
proof (induction b)
  case (Suc b)
  then show ?case using kept_Suc [of a b inp] by (cases "a = b") (auto simp: less_Suc_eq)
qed simp

lemma kept_subset:
  assumes "c \<le> a" and "b \<le> d" and "a = c \<or> fst (inp (a - 1)) \<noteq> fst (inp a)"
  shows "set (kept inp a b) \<subseteq> set (kept inp c d)"
  using assms by (auto simp: kept_def)

lemma feasible_subset: "feasible err S \<Longrightarrow> set T \<subseteq> set S \<Longrightarrow> feasible err T"
  by (auto simp: feasible_def)

subsection \<open>The greedy segmentation\<close>

text \<open>
  What \<^verbatim>\<open>make_segmentation\<close> returns: adjacent segments from \<open>start\<close> to \<open>n\<close>, each of which (except the last) cannot take the next point
  and ends where the key changes.
\<close>

fun greedy :: "int \<Rightarrow> (nat \<Rightarrow> point) \<Rightarrow> nat \<Rightarrow> nat \<Rightarrow> (nat \<times> nat \<times> canonical_segment) list \<Rightarrow> bool" where
  "greedy err inp n start [] = False"
| "greedy err inp n start ((a, b, cs) # segs) \<longleftrightarrow> a = start \<and> a < b \<and> b \<le> n \<and> segment_ok err cs (kept inp a b) \<and>
     (if segs = [] then b = n
      else b < n \<and> \<not> feasible err (kept inp a (Suc b)) \<and> fst (inp (b - 1)) \<noteq> fst (inp b) \<and> greedy err inp n b segs)"

lemma segmentation_loop_result:
  assumes "\<forall>j<n. pos_ok (inp j)" and "\<forall>j. j + 1 < n \<longrightarrow> fst (inp j) \<le> fst (inp (j + 1))"
    and "plm_ok s (kept inp start i)" and "plm_error s = err" and "start < i" and "i \<le> n" and "fst p = fst (inp (i - 1))"
  shows "\<exists>segs. segmentation_loop inp n i start p s = Some segs \<and> greedy err inp n start segs"
  using assms(3-)
proof (induction "n - i" arbitrary: i start p s rule: less_induct)
  case less
  note last = kept_last [OF less.prems(3), of inp]
  show ?case
  proof (cases "i < n")
    case False
    then show ?thesis
      using less.prems get_segment_ok [OF less.prems(1)] by (subst segmentation_loop.simps) auto
  next
    case True
    note pos = assms(1) [rule_format, OF True]
    show ?thesis
    proof (cases "fst (inp i) = fst p")
      case True
      then have "kept inp start (Suc i) = kept inp start i" using less.prems(3,5) by (simp add: kept_Suc)
      moreover have "n - Suc i < n - i" using \<open>i < n\<close> by simp
      ultimately show ?thesis
        using less.hyps [of "Suc i" s start p] less.prems True \<open>i < n\<close> by (subst segmentation_loop.simps) simp
    next
      case False
      have "fst (inp (i - 1)) \<le> fst (inp i)" using assms(2) [rule_format, of "i - 1"] \<open>i < n\<close> less.prems(3) by simp
      then have lt: "fst (last (kept inp start i)) < fst (inp i)" using last False less.prems(5) by simp
      have ext: "kept inp start (Suc i) = kept inp start i @ [inp i]" using less.prems(3,5) False by (simp add: kept_Suc)
      show ?thesis
      proof (cases "length (kept inp start i) = 1 \<or> feasible err (kept inp start (Suc i))")
        case True
        then have "\<exists>s'. add_point (inp i) s = Some (True, s') \<and> plm_ok s' (kept inp start (Suc i))"
          using second_point [OF less.prems(1) _ pos lt] later_point [OF less.prems(1) _ pos lt] less.prems(2)
          unfolding ext by (cases "length (kept inp start i) = 1") auto
        then obtain s' where s': "add_point (inp i) s = Some (True, s')" "plm_ok s' (kept inp start (Suc i))" by blast
        have err: "plm_error s' = err"
          using s'(1) less.prems(2)
          by (cases "inp i") (auto simp: add_point_def Let_def update_upper_def update_lower_def split: if_splits bind_splits)
        show ?thesis
          using less.hyps [of "Suc i" s' start "inp i"] less.prems s' err False \<open>i < n\<close> by (subst segmentation_loop.simps) simp
      next
        case inf: False
        let ?s = "s\<lparr>last_x := fst (inp i), points_in_hull := 0\<rparr>"
        have fail: "add_point (inp i) s = Some (False, ?s)"
          using later_point [OF less.prems(1) _ pos lt] inf less.prems(2) unfolding ext by auto
        have "hulls_ok (Lset err (kept inp start i)) (Uset err (kept inp start i)) s" "0 < err" "err \<le> 2 ^ 60"
          using less.prems(1,2) inf by (auto simp: plm_ok_def)
        then have "length (rectangle s) = 4" using hulls_okD(4) by simp
        then obtain s' where s': "add_point (inp i) ?s = Some (True, s')" "plm_ok s' [inp i]" "plm_error s' = err"
          using first_point [of ?s "inp i"] pos less.prems(2) \<open>0 < err\<close> \<open>err \<le> 2 ^ 60\<close> by auto
        have "\<exists>segs. segmentation_loop inp n (Suc i) i (inp i) s' = Some segs \<and> greedy err inp n i segs"
          using less.hyps [of "Suc i" s' i "inp i"] s' \<open>i < n\<close> by simp
        then obtain segs where segs: "segmentation_loop inp n (Suc i) i (inp i) s' = Some segs" "greedy err inp n i segs" by blast
        have "segment_ok err (get_segment ?s) (kept inp start i)"
          using segment_hulls [OF less.prems(1), of "get_segment ?s"] inf less.prems(2) by (simp add: get_segment_def)
        moreover have "segmentation_loop inp n i start p s = Some ((start, i, get_segment ?s) # segs)"
          using \<open>i < n\<close> False fail s'(1) segs(1) less.prems(3)
          by (subst segmentation_loop.simps, simp) (subst segmentation_loop.simps, simp)
        moreover have "segs \<noteq> []" using segs(2) by auto
        ultimately show ?thesis using segs(2) inf less.prems False \<open>i < n\<close> by auto
      qed
    qed
  qed
qed

lemma make_segmentation_greedy:
  assumes "\<forall>j<n. pos_ok (inp j)" and "\<forall>j. j + 1 < n \<longrightarrow> fst (inp j) \<le> fst (inp (j + 1))" and "0 < err" and "err \<le> 2 ^ 60" and "0 < n"
  shows "\<exists>segs. make_segmentation n err inp = Some segs \<and> greedy err inp n 0 segs"
proof -
  obtain s where s: "add_point (inp 0) (plm_init err) = Some (True, s)" "plm_ok s [inp 0]" "plm_error s = err"
    using first_point [of "plm_init err" "inp 0"] assms by (auto simp: plm_init_def)
  then show ?thesis
    using segmentation_loop_result [OF assms(1,2), of s 0 1 err "inp 0"] assms(3-5) by (simp add: make_segmentation_def)
qed

text \<open>Cuts at the positions \<open>bs\<close> into segments that lines approximate.\<close>

fun cuts_feasible :: "int \<Rightarrow> (nat \<Rightarrow> point) \<Rightarrow> nat \<Rightarrow> nat \<Rightarrow> nat list \<Rightarrow> bool" where
  "cuts_feasible err inp n a [] \<longleftrightarrow> a = n"
| "cuts_feasible err inp n a (b # bs) \<longleftrightarrow> a < b \<and> b \<le> n \<and> feasible err (kept inp a b) \<and> cuts_feasible err inp n b bs"

lemma greedy_minimal:
  assumes "greedy err inp n a segs" and "cuts_feasible err inp n c bs" and "c \<le> a" and "a = c \<or> fst (inp (a - 1)) \<noteq> fst (inp a)"
  shows "length segs \<le> length bs"
  using assms
proof (induction segs arbitrary: a c bs)
  case (Cons seg segs)
  obtain b cs where seg: "seg = (a, b, cs)" "a < b" "b \<le> n" using Cons.prems(1) by (cases seg) auto
  obtain d bs' where bs: "bs = d # bs'" "c < d" "d \<le> n" "feasible err (kept inp c d)" "cuts_feasible err inp n d bs'"
    using Cons.prems(2,3) seg(2,3) by (cases bs) auto
  show ?case
  proof (cases "segs = []")
    case False
    then have g: "\<not> feasible err (kept inp a (Suc b))" "fst (inp (b - 1)) \<noteq> fst (inp b)" "greedy err inp n b segs"
      using Cons.prems(1) seg(1) by auto
    have "d \<le> b"
      using g(1) feasible_subset [OF bs(4) kept_subset [OF Cons.prems(3) _ Cons.prems(4)]] by (metis not_less_eq_eq)
    then show ?thesis using Cons.IH [OF g(3) bs(5)] g(2) bs(1) by simp
  qed (simp add: bs(1))
qed simp

text \<open>Collecting the segments and passing them on changes nothing.\<close>

lemma greedy_pass_on: "greedy err inp n a segs \<Longrightarrow> pass_on a (map (\<lambda>(_, e, cs). (cs, e)) segs) = segs"
  by (induction segs arbitrary: a) (auto split: if_splits)

lemma make_segmentation_par_greedy:
  assumes "\<forall>j<n. pos_ok (inp j)" and "\<forall>j. j + 1 < n \<longrightarrow> fst (inp j) \<le> fst (inp (j + 1))" and "0 < err" and "err \<le> 2 ^ 60" and "0 < n"
  shows "\<exists>segs. make_segmentation_par n err inp = Some segs \<and> make_segmentation n err inp = Some segs \<and> greedy err inp n 0 segs"
  using make_segmentation_greedy [OF assms] by (auto simp: make_segmentation_par_def greedy_pass_on)

subsection \<open>Properties\<close>

text \<open>Segments that are adjacent from \<open>a\<close> to \<open>n\<close>.\<close>

fun adjacent :: "nat \<Rightarrow> nat \<Rightarrow> (nat \<times> nat \<times> canonical_segment) list \<Rightarrow> bool" where
  "adjacent a n [] \<longleftrightarrow> a = n"
| "adjacent a n ((a', b, cs) # segs) \<longleftrightarrow> a' = a \<and> a < b \<and> adjacent b n segs"

lemma greedy_adjacent: "greedy err inp n a segs \<Longrightarrow> adjacent a n segs"
  by (induction segs arbitrary: a) (auto split: if_splits)

lemma greedy_segments: "greedy err inp n c segs \<Longrightarrow> (a, b, cs) \<in> set segs \<Longrightarrow> a < b \<and> segment_ok err cs (kept inp a b)"
  by (induction segs arbitrary: c) (auto split: if_splits)

lemma hd_kept: "a < b \<Longrightarrow> hd (kept inp a b) = inp a"
  by (simp add: kept_def upt_conv_Cons)

text \<open>C17. The segmentation of a sequence of points with nondecreasing keys never throws and never overflows, its segments are adjacent and
  cover all points, and both extreme lines of a segment approximate all of its points (of consecutive points with one key the first) within the error.\<close>

theorem segmentation_within_error:
  assumes "\<forall>j<n. pos_ok (inp j)" and "\<forall>j. j + 1 < n \<longrightarrow> fst (inp j) \<le> fst (inp (j + 1))" and "0 < err" and "err \<le> 2 ^ 60" and "0 < n"
  shows "\<exists>segs. make_segmentation_par n err inp = Some segs \<and> adjacent 0 n segs \<and>
    (\<forall>(a, b, cs)\<in>set segs. cs_first cs = fst (inp a) \<and>
       (\<forall>p\<in>set (kept inp a b). near err (cs_line_min cs) p \<and> near err (cs_line_max cs) p))"
proof -
  obtain segs where segs: "make_segmentation_par n err inp = Some segs" "greedy err inp n 0 segs"
    using make_segmentation_par_greedy [OF assms] by blast
  then show ?thesis
    using greedy_adjacent [OF segs(2)] greedy_segments [OF segs(2)] by (fastforce simp: segment_ok_def hd_kept)
qed

theorem segmentation_within_error_witness:
  "\<exists>segs. make_segmentation_par 6 1 (\<lambda>i. (int (i * i), int i)) = Some segs \<and> adjacent 0 6 segs \<and>
    (\<forall>(a, b, cs)\<in>set segs. cs_first cs = int (a * a) \<and>
       (\<forall>p\<in>set (kept (\<lambda>i. (int (i * i), int i)) a b). near 1 (cs_line_min cs) p \<and> near 1 (cs_line_max cs) p))"
proof -
  have "int (j * j) \<le> 25" if "j < 6" for j
    using that mult_mono [of j 5 j 5] by (simp flip: of_nat_mult)
  then have "\<forall>j<6. pos_ok (int (j * j), int j)" by (fastforce simp: pos_ok_def simp del: of_nat_mult)
  moreover have "int (j * j) \<le> int ((j + 1) * (j + 1))" for j by simp
  ultimately show ?thesis
    using segmentation_within_error [of 6 "\<lambda>i. (int (i * i), int i)" 1] by simp
qed

text \<open>C18. The segmentation is optimal: every way to cut the sequence into ranges whose points some line approximates within the error has at
  least as many ranges as \<^verbatim>\<open>make_segmentation\<close> has segments.\<close>

theorem segmentation_minimal:
  assumes "\<forall>j<n. pos_ok (inp j)" and "\<forall>j. j + 1 < n \<longrightarrow> fst (inp j) \<le> fst (inp (j + 1))" and "0 < err" and "err \<le> 2 ^ 60" and "0 < n"
    and "cuts_feasible err inp n 0 bs"
  shows "\<exists>segs. make_segmentation n err inp = Some segs \<and> length segs \<le> length bs"
proof -
  obtain segs where "make_segmentation n err inp = Some segs" "greedy err inp n 0 segs"
    using make_segmentation_greedy [OF assms(1-5)] by blast
  then show ?thesis using greedy_minimal [OF _ assms(6), of 0] by auto
qed

theorem segmentation_minimal_witness:
  "\<exists>segs. make_segmentation 4 1 (\<lambda>i. (int i, int (3 * i))) = Some segs \<and> length segs \<le> 1"
proof -
  have "near 1 (3, 0) (int i, int (3 * i))" for i by (simp add: near_def ev_def)
  then have "feasible 1 (kept (\<lambda>i. (int i, int (3 * i))) 0 4)" by (auto simp: feasible_def kept_def)
  then have "cuts_feasible 1 (\<lambda>i. (int i, int (3 * i))) 4 0 [4]" by simp
  moreover have "\<forall>j<4. pos_ok (int j, int (3 * j))" by (auto simp: pos_ok_def)
  ultimately show ?thesis using segmentation_minimal [of 4 "\<lambda>i. (int i, int (3 * i))" 1 "[4]"] by simp
qed

end
