(* ===== verification/Pgm_Index.thy ===== *)
theory Pgm_Index
  imports Piecewise_Linear Doubles Search_Class "HOL-Library.Signed_Division"
begin

text \<open>
  The static PGM-index, \<^verbatim>\<open>PGM-index/include/pgm_index.hpp\<close>, with the floating-point side of the segments in
  \<^verbatim>\<open>piecewise_linear_model.hpp\<close>. The index is a vector of segments, level after level from the bottom; each level ends with a
  sentinel, and the segments of a level approximate the positions of the keys of the level below. A lookup walks from the top to
  the bottom: a segment predicts a position, and a search in a window around it finds the segment of the next level.

  Keys are words. A \<^verbatim>\<open>double\<close> or a \<^verbatim>\<open>long double\<close> is the rational that it denotes. \<open>None\<close> is an exception, a failed assertion, an access outside the
  vector, a conversion to an integer type or an integer operation out of range, a division by zero, or a building loop that does not end.
\<close>

subsection \<open>Lines of a segment in \<^verbatim>\<open>long double\<close>\<close>

definition ld_of_int :: "int \<Rightarrow> rat" where
  "ld_of_int n = ld_round (of_int n)"

definition ld_div :: "rat \<Rightarrow> rat \<Rightarrow> rat option" where
  "ld_div a b = (if b = 0 then None else Some (ld_round (a / b)))"

definition get_intersection :: "canonical_segment \<Rightarrow> (rat \<times> rat) option" where
  "get_intersection cs = do {
     let p0 = cs_rectangle cs ! 0;
     let p1 = cs_rectangle cs ! 1;
     let p2 = cs_rectangle cs ! 2;
     let p3 = cs_rectangle cs ! 3;
     let slope1 = point_minus p2 p0;
     let slope2 = point_minus p3 p1;
     parallel \<leftarrow> (if one_point cs then Some True else slope_eq slope1 slope2);
     if parallel then Some (ld_of_int (fst p0), ld_of_int (snd p0))
     else do {
       let p0p1 = point_minus p1 p0;
       a1 \<leftarrow> i128 (fst slope1 * snd slope2);
       a2 \<leftarrow> i128 (snd slope1 * fst slope2);
       a \<leftarrow> i128 (a1 - a2);
       b1 \<leftarrow> i128 (fst p0p1 * snd slope2);
       b2 \<leftarrow> i128 (snd p0p1 * fst slope2);
       n \<leftarrow> i128 (b1 - b2);
       b \<leftarrow> ld_div (ld_of_int n) (ld_of_int a);
       let i_x = ld_round (ld_of_int (fst p0) + ld_round (b * ld_of_int (fst slope1)));
       let i_y = ld_round (ld_of_int (snd p0) + ld_round (b * ld_of_int (snd slope1)));
       Some (i_x, i_y)
     }
   }"

definition slope_to_ld :: "slope \<Rightarrow> rat option" where
  "slope_to_ld s = ld_div (ld_of_int (snd s)) (ld_of_int (fst s))"

definition get_slope_range :: "canonical_segment \<Rightarrow> (rat \<times> rat) option" where
  "get_slope_range cs = do {
     min_s \<leftarrow> slope_to_ld (point_minus (cs_rectangle cs ! 2) (cs_rectangle cs ! 0));
     max_s \<leftarrow> slope_to_ld (point_minus (cs_rectangle cs ! 3) (cs_rectangle cs ! 1));
     Some (min_s, max_s)
   }"

definition get_floating_point_segment :: "canonical_segment \<Rightarrow> int \<Rightarrow> (rat \<times> rat) option" where
  "get_floating_point_segment cs origin =
     (if one_point cs then Some (0, ld_of_int ((snd (cs_rectangle cs ! 0) + snd (cs_rectangle cs ! 1)) sdiv 2))
      else do {
        (i_x, i_y) \<leftarrow> get_intersection cs;
        (min_s, max_s) \<leftarrow> get_slope_range cs;
        let slope = ld_round (ld_round (min_s + max_s) / 2);
        let intercept = ld_round (i_y - ld_round (ld_round (i_x - ld_of_int origin) * slope));
        Some (slope, intercept)
      })"

subsection \<open>Segments\<close>

record 'k segment =
  sg_key :: 'k
  sg_slope :: rat
  sg_intercept :: int

text \<open>
  The three constructors: the sentinel with the largest key, the one that extends the last level (its slope is a literal 0, its
  intercept passes through a \<^verbatim>\<open>double\<close>), and the one from a segment of the piecewise linear model.
\<close>

definition segment_sentinel :: "nat \<Rightarrow> 'w::len word segment" where
  "segment_sentinel n = \<lparr>sg_key = - 1, sg_slope = 0, sg_intercept = signed_take_bit 31 (int n)\<rparr>"

definition segment_const :: "'w::len word \<Rightarrow> rat \<Rightarrow> rat \<Rightarrow> 'w word segment option" where
  "segment_const key slope intercept = do {
     c \<leftarrow> int_of_fp 32 intercept;
     Some \<lparr>sg_key = key, sg_slope = slope, sg_intercept = c\<rparr>
   }"

definition segment_of_cs :: "canonical_segment \<Rightarrow> 'w::len word segment option" where
  "segment_of_cs cs = do {
     (cs_slope, cs_intercept) \<leftarrow> get_floating_point_segment cs (cs_first cs);
     if cs_intercept > 2 ^ 31 - 1 then None
     else do {
       c \<leftarrow> int_of_fp 32 (of_int (round_away cs_intercept));
       Some \<lparr>sg_key = word_of_int (cs_first cs), sg_slope = double_round cs_slope, sg_intercept = c\<rparr>
     }
   }"

text \<open>The position that a segment predicts for a key.\<close>

definition segment_apply :: "'w::len word segment \<Rightarrow> 'w word \<Rightarrow> nat option" where
  "segment_apply s k = do {
     t \<leftarrow> int_of_fp 64 (double_round (sg_slope s * double_round (of_int (uint (k - sg_key s)))));
     let pos = t + sg_intercept s;
     if - (2 ^ 63) \<le> pos \<and> pos < 2 ^ 63 then Some (if pos > 0 then nat pos else 0) else None
   }"

subsection \<open>Building\<close>

record 'k pgm =
  pg_n :: nat
  pg_first_key :: 'k
  pg_segments :: "'k segment list"
  pg_levels_sizes :: "nat list"
  pg_levels_offsets :: "nat list"

text \<open>The default constructor; the index types that the dynamic index makes with it are value-initialised.\<close>

definition pgm_default :: "'w::len word pgm" where
  "pgm_default = \<lparr>pg_n = 0, pg_first_key = 0, pg_segments = [], pg_levels_sizes = [], pg_levels_offsets = []\<rparr>"

definition back_check :: "'w::len word \<Rightarrow> nat \<Rightarrow> 'w word segment list \<Rightarrow> nat \<Rightarrow> ('w word segment list \<times> nat) option" where
  "back_check last_key last_n segs n_segments =
     (if segs = [] then None
      else do {
        (segs, n_segments) \<leftarrow>
          (if sg_slope (last segs) = 0 then do {
             s \<leftarrow> segment_const (last_key + 1) 0 (double_round (of_nat last_n));
             Some (segs @ [s], n_segments + 1)
           }
           else Some (segs, n_segments));
        Some (segs @ [segment_sentinel last_n], n_segments)
      })"

text \<open>
  The keys of the bottom level: the last of several equal keys stands for the key after them, unless that is in the data.
\<close>

definition in_fun :: "'w::len word list \<Rightarrow> nat \<Rightarrow> point" where
  "in_fun keys i =
     (let x = keys ! i
      in if i > 0 \<and> i + 1 < length keys \<and> x = keys ! (i - 1) \<and> x \<noteq> keys ! (i + 1) \<and> x + 1 \<noteq> keys ! (i + 1)
         then (uint (x + 1), int i) else (uint x, int i))"

definition in_fun_rec :: "'w::len word segment list \<Rightarrow> nat \<Rightarrow> nat \<Rightarrow> point" where
  "in_fun_rec segs offset i = (uint (sg_key (segs ! (offset + i))), int i)"

text \<open>One level: the segments of a segmentation are appended, then \<^verbatim>\<open>back_check\<close>.\<close>

definition push_level ::
    "'w::len word \<Rightarrow> nat \<Rightarrow> (nat \<times> nat \<times> canonical_segment) list \<Rightarrow> 'w word segment list \<Rightarrow> ('w word segment list \<times> nat) option" where
  "push_level last_key last_n css segs = do {
     new \<leftarrow> those (map (\<lambda>(_, _, cs). segment_of_cs cs) css);
     back_check last_key last_n (segs @ new) (length css)
   }"

partial_function (option) build_upper ::
    "nat \<Rightarrow> 'w::len word \<Rightarrow> nat \<Rightarrow> 'w word segment list \<Rightarrow> nat list \<Rightarrow> nat list \<Rightarrow>
     ('w word segment list \<times> nat list \<times> nat list) option" where
  "build_upper RecursiveError last_key last_n segs sizes offsets =
     (if RecursiveError \<noteq> 0 \<and> last_n > 1 then do {
        let offset = offsets ! (length offsets - 2);
        css \<leftarrow> make_segmentation last_n (int RecursiveError) (in_fun_rec segs offset);
        (segs, n_segments) \<leftarrow> push_level last_key last_n css segs;
        build_upper RecursiveError last_key n_segments segs (sizes @ [n_segments]) (offsets @ [last offsets + n_segments + 1])
      }
      else Some (segs, sizes, offsets))"

definition PGMIndex :: "nat \<Rightarrow> nat \<Rightarrow> 'w::len word list \<Rightarrow> 'w word pgm option" where
  "PGMIndex Error RecursiveError keys =
     (if keys = [] \<or> \<not> sorted keys then None
      else do {
        let n = length keys;
        let ignore_last = (last keys = - 1);
        let last_n = (if ignore_last then n - 1 else n);
        let last_key = keys ! (last_n - 1);
        css \<leftarrow> make_segmentation_par last_n (int Error) (in_fun keys);
        (segs, n_segments) \<leftarrow> push_level last_key last_n css [];
        (segs, sizes, offsets) \<leftarrow> build_upper RecursiveError last_key n_segments segs [n_segments] [0, n_segments + 1];
        Some \<lparr>pg_n = n, pg_first_key = hd keys, pg_segments = segs, pg_levels_sizes = sizes, pg_levels_offsets = butlast offsets\<rparr>
      })"

subsection \<open>Queries\<close>

definition ADD_ERR :: "nat \<Rightarrow> nat \<Rightarrow> nat \<Rightarrow> nat" where
  "ADD_ERR x err sz = (if (x + err) mod 2 ^ 64 \<ge> sz then sz else (x + err) mod 2 ^ 64)"

definition SUB_ERR :: "nat \<Rightarrow> nat \<Rightarrow> nat" where
  "SUB_ERR x err = (if x \<le> err then 0 else x - err)"

definition segments_count :: "'w::len word pgm \<Rightarrow> nat" where
  "segments_count p = (if pg_segments p = [] then 0 else hd (pg_levels_sizes p))"

definition height :: "'w::len word pgm \<Rightarrow> nat" where
  "height p = length (pg_levels_sizes p)"

text \<open>The packed \<^verbatim>\<open>Segment\<close> has a key, eight bytes for the slope and four for the intercept.\<close>

definition size_in_bytes :: "'w::len word pgm \<Rightarrow> nat" where
  "size_in_bytes p = length (pg_segments p) * (LENGTH('w) div 8 + 12)"

text \<open>The position predicted by the segment at \<open>it\<close>, at most the intercept of the next segment.\<close>

definition predict :: "'w::len word segment list \<Rightarrow> nat \<Rightarrow> 'w word \<Rightarrow> nat option" where
  "predict segs it key =
     (if it + 1 < length segs then do {
        f \<leftarrow> segment_apply (segs ! it) key;
        Some (min f (to_size_t (sg_intercept (segs ! (it + 1)))))
      }
      else None)"

text \<open>The loop of \<^verbatim>\<open>segment_for_key\<close> from the level under \<open>l\<close> to the bottom.\<close>

fun walk_levels :: "'w::len word search \<Rightarrow> nat \<Rightarrow> 'w word pgm \<Rightarrow> 'w word \<Rightarrow> nat \<Rightarrow> nat \<Rightarrow> nat option" where
  "walk_levels upper_bound RecursiveError p key 0 it = Some it"
| "walk_levels upper_bound RecursiveError p key (Suc l) it = do {
     let level_begin = pg_levels_offsets p ! l;
     pos \<leftarrow> predict (pg_segments p) it key;
     let lo = level_begin + SUB_ERR pos (RecursiveError + 1);
     let level_size = pg_levels_sizes p ! l;
     let hi = level_begin + ADD_ERR pos (RecursiveError + 2) level_size;
     r \<leftarrow> upper_bound (int lo) (int hi) key (int lo) (list_reader (map sg_key (pg_segments p)));
     let it = (if nat r = level_begin then nat r else nat r - 1);
     walk_levels upper_bound RecursiveError p key l it
   }"

text \<open>\<^verbatim>\<open>std::upper_bound\<close> on the segments of the only level, which are sorted by their keys.\<close>

definition segment_upper_bound :: "'w::len word segment list \<Rightarrow> 'w word \<Rightarrow> nat" where
  "segment_upper_bound segs key = length (takeWhile (\<lambda>s. \<not> key < sg_key s) segs)"

definition segment_for_key :: "'w::len word search \<Rightarrow> nat \<Rightarrow> 'w word pgm \<Rightarrow> 'w word \<Rightarrow> nat option" where
  "segment_for_key upper_bound RecursiveError p key =
     (if pg_levels_sizes p = [] then None
      else if RecursiveError = 0 then
        let it = segment_upper_bound (take (pg_levels_sizes p ! 0) (pg_segments p)) key
        in Some (if it = 0 then it else it - 1)
      else walk_levels upper_bound RecursiveError p key (height p - 1) (last (pg_levels_offsets p)))"

definition find_approximate_position :: "'w::len word search \<Rightarrow> nat \<Rightarrow> nat \<Rightarrow> 'w word pgm \<Rightarrow> 'w word \<Rightarrow> ApproxPos option" where
  "find_approximate_position upper_bound Error RecursiveError p key = do {
     let k = max (pg_first_key p) key;
     it \<leftarrow> segment_for_key upper_bound RecursiveError p k;
     pos \<leftarrow> predict (pg_segments p) it k;
     let lo = SUB_ERR pos Error;
     let hi = ADD_ERR pos (Error + 1) (pg_n p);
     Some \<lparr>ap_pos = pos, ap_lo = lo, ap_hi = hi\<rparr>
   }"

end
