(* ===== verification/Segment_Accuracy.thy ===== *)
theory Segment_Accuracy
  imports Segmentation Pgm_Index
begin

text \<open>
  The accuracy of the segments of the PGM-index: the line of average slope through the intersection of the two extreme lines is within
  the error of all points of its segment, and the position computed for a point in floating-point arithmetic is off by at most one more.
\<close>

subsection \<open>The line of a segment\<close>

text \<open>The intersection of the lines through \<open>p0, p2\<close> and \<open>p1, p3\<close>, as a parameter on the first one.\<close>

definition meet_num :: "rpoint \<Rightarrow> rpoint \<Rightarrow> rpoint \<Rightarrow> rpoint \<Rightarrow> rat" where
  "meet_num p0 p1 p2 p3 = (fst p1 - fst p0) * (snd p3 - snd p1) - (snd p1 - snd p0) * (fst p3 - fst p1)"

definition meet_den :: "rpoint \<Rightarrow> rpoint \<Rightarrow> rpoint \<Rightarrow> rpoint \<Rightarrow> rat" where
  "meet_den p0 p1 p2 p3 = (fst p2 - fst p0) * (snd p3 - snd p1) - (snd p2 - snd p0) * (fst p3 - fst p1)"

definition meet :: "rpoint \<Rightarrow> rpoint \<Rightarrow> rpoint \<Rightarrow> rpoint \<Rightarrow> rpoint" where
  "meet p0 p1 p2 p3 =
     (let b = meet_num p0 p1 p2 p3 / meet_den p0 p1 p2 p3
      in (fst p0 + b * (fst p2 - fst p0), snd p0 + b * (snd p2 - snd p0)))"

lemma meet_num_den:
  assumes "fst p1 < fst p3"
  shows "meet_num p0 p1 p2 p3 = (fst p3 - fst p1) * (snd p0 - ev (thru p1 p3) (fst p0))"
    and "meet_den p0 p1 p2 p3 - meet_num p0 p1 p2 p3 = (fst p3 - fst p1) * (ev (thru p1 p3) (fst p2) - snd p2)"
  using assms by (simp_all add: meet_num_def meet_den_def thru_def ev_ray slp_def field_simps)

lemma meet_parallel:
  assumes "fst p0 < fst p2" and "fst p1 < fst p3"
  shows "meet_den p0 p1 p2 p3 = 0 \<longleftrightarrow> slp p0 p2 = slp p1 p3"
  using assms by (auto simp: meet_den_def slp_def frac_eq_eq algebra_simps)

lemma meet_on_lines:
  assumes "fst p0 < fst p2" and "fst p1 < fst p3" and "meet_den p0 p1 p2 p3 \<noteq> 0"
  shows "ev (thru p0 p2) (fst (meet p0 p1 p2 p3)) = snd (meet p0 p1 p2 p3)"
    and "ev (thru p1 p3) (fst (meet p0 p1 p2 p3)) = snd (meet p0 p1 p2 p3)"
proof -
  let ?b = "meet_num p0 p1 p2 p3 / meet_den p0 p1 p2 p3"
  show "ev (thru p0 p2) (fst (meet p0 p1 p2 p3)) = snd (meet p0 p1 p2 p3)"
    using assms(1) by (simp add: meet_def Let_def thru_def ev_ray slp_def)
  obtain b where b: "b = ?b" by blast
  then have "meet_num p0 p1 p2 p3 = b * meet_den p0 p1 p2 p3" using assms(3) by simp
  then have "snd p1 + (snd p3 - snd p1) / (fst p3 - fst p1) * (fst p0 + b * (fst p2 - fst p0) - fst p1) = snd p0 + b * (snd p2 - snd p0)"
    using assms(2) unfolding meet_num_def meet_den_def by (simp add: divide_simps) (simp add: algebra_simps)
  then show "ev (thru p1 p3) (fst (meet p0 p1 p2 p3)) = snd (meet p0 p1 p2 p3)"
    unfolding b by (simp add: meet_def Let_def thru_def ev_ray slp_def)
qed

lemma ev_average:
  assumes "ev f (fst m) = snd m" and "ev g (fst m) = snd m"
  shows "ev (ray ((fst f + fst g) / 2) m) x = (ev f x + ev g x) / 2"
  using assms ev_from [of f x "fst m"] ev_from [of g x "fst m"] by (simp add: ev_ray field_simps)

definition cs_slope :: "canonical_segment \<Rightarrow> rat" where
  "cs_slope cs = (fst (cs_line_min cs) + fst (cs_line_max cs)) / 2"

definition cs_den :: "canonical_segment \<Rightarrow> rat" where
  "cs_den cs = meet_den (rp (cs_rectangle cs ! 0)) (rp (cs_rectangle cs ! 1)) (rp (cs_rectangle cs ! 2)) (rp (cs_rectangle cs ! 3))"

definition cs_meet :: "canonical_segment \<Rightarrow> rpoint" where
  "cs_meet cs =
     (if cs_den cs = 0 then rp (cs_rectangle cs ! 0)
      else meet (rp (cs_rectangle cs ! 0)) (rp (cs_rectangle cs ! 1)) (rp (cs_rectangle cs ! 2)) (rp (cs_rectangle cs ! 3)))"

definition cs_line :: "canonical_segment \<Rightarrow> line" where
  "cs_line cs = ray (cs_slope cs) (cs_meet cs)"

text \<open>Points whose keys and positions increase, and their bounds.\<close>

definition rising :: "point list \<Rightarrow> bool" where
  "rising S \<longleftrightarrow> sorted_wrt (\<lambda>p q. fst p < fst q \<and> snd p < snd q) S"

definition boxed :: "int \<Rightarrow> int \<Rightarrow> point list \<Rightarrow> bool" where
  "boxed X Y S \<longleftrightarrow> (\<forall>p\<in>set S. 0 \<le> fst p \<and> fst p \<le> X \<and> 0 \<le> snd p \<and> snd p \<le> Y)"

lemma rising_mono:
  assumes "rising S" and "p \<in> set S" and "q \<in> set S" and "fst p < fst q"
  shows "snd p < snd q"
proof -
  obtain i j where ij: "i < length S" "S ! i = p" "j < length S" "S ! j = q" using assms(2,3) by (auto simp: in_set_conv_nth)
  have "i < j"
  proof (rule ccontr)
    assume "\<not> i < j"
    then consider "i = j" | "j < i" by linarith
    then show False
    proof cases
      case 2
      then have "fst (S ! j) < fst (S ! i)" using assms(1) ij sorted_wrt_nth_less unfolding rising_def by blast
      then show False using assms(4) ij by simp
    qed (use assms(4) ij in auto)
  qed
  then show ?thesis using assms(1) ij sorted_wrt_nth_less unfolding rising_def by blast
qed

lemma rising_hd:
  assumes "rising S" and "p \<in> set S"
  shows "fst (hd S) \<le> fst p" "snd (hd S) \<le> snd p"
  using assms by (cases S; force simp: rising_def)+

text \<open>A segment of at least two points, with the points at the corners of its rectangle.\<close>

definition wide_segment :: "int \<Rightarrow> canonical_segment \<Rightarrow> point list \<Rightarrow> int \<Rightarrow> int \<Rightarrow> point \<Rightarrow> point \<Rightarrow> point \<Rightarrow> point \<Rightarrow> bool" where
  "wide_segment err cs S X Y p0 p1 p2 p3 \<longleftrightarrow> segment_ok err cs S \<and> rising S \<and> 0 < err \<and> boxed X Y S \<and>
     p0 \<in> set S \<and> p1 \<in> set S \<and> p2 \<in> set S \<and> p3 \<in> set S \<and>
     cs_rectangle cs = [upp err p0, low err p1, low err p2, upp err p3] \<and> fst p0 < fst p2 \<and> fst p1 < fst p3"

lemma wide_segmentI:
  assumes "segment_ok err cs S" and "rising S" and "0 < err" and "boxed X Y S" and "length S \<noteq> 1"
  shows "\<exists>p0 p1 p2 p3. wide_segment err cs S X Y p0 p1 p2 p3"
proof -
  have "corners err cs S" using assms(1) by (simp add: segment_ok_def)
  then obtain p0 p1 p2 p3 where "p0 \<in> set S" "p1 \<in> set S" "p2 \<in> set S" "p3 \<in> set S" "fst p0 < fst p2" "fst p1 < fst p3"
      "cs_rectangle cs = [upp err p0, low err p1, low err p2, upp err p3]"
    using assms(5) unfolding corners_def by (simp only: if_False) blast
  then show ?thesis using assms unfolding wide_segment_def by blast
qed

lemma wide_segmentD:
  assumes "wide_segment err cs S X Y p0 p1 p2 p3"
  shows "0 < err" "p0 \<in> set S" "p1 \<in> set S" "p2 \<in> set S" "p3 \<in> set S" "rising S" "S \<noteq> []" "cs_first cs = fst (hd S)"
    "cs_rectangle cs = [upp err p0, low err p1, low err p2, upp err p3]" "fst p0 < fst p2" "fst p1 < fst p3"
    "snd p0 < snd p2" "snd p1 < snd p3"
    "p \<in> set S \<Longrightarrow> near err (cs_line_min cs) p" "p \<in> set S \<Longrightarrow> near err (cs_line_max cs) p"
    "p \<in> set S \<Longrightarrow> 0 \<le> fst p \<and> fst p \<le> X \<and> 0 \<le> snd p \<and> snd p \<le> Y"
  using assms rising_mono [of S p0 p2] rising_mono [of S p1 p3] by (simp_all add: wide_segment_def segment_ok_def boxed_def)

lemma wide_segment_slopes:
  assumes "wide_segment err cs S X Y p0 p1 p2 p3"
  shows "cs_line_min cs = thru (rp (upp err p0)) (rp (low err p2))" "cs_line_max cs = thru (rp (low err p1)) (rp (upp err p3))"
    and "fst (cs_line_min cs) = of_int (snd p2 - snd p0 - 2 * err) / of_int (fst p2 - fst p0)"
    and "fst (cs_line_max cs) = of_int (snd p3 - snd p1 + 2 * err) / of_int (fst p3 - fst p1)"
  using wide_segmentD(9) [OF assms] by (simp_all add: cs_line_min_def cs_line_max_def slp_def upp_def low_def algebra_simps)

lemma int_quotient_bound:
  assumes "\<bar>a\<bar> \<le> B" and "0 < d"
  shows "\<bar>of_int a / of_int d :: rat\<bar> \<le> of_int B"
proof -
  have a: "\<bar>of_int a :: rat\<bar> \<le> of_int B" using assms(1) by (simp flip: of_int_abs)
  have d: "1 \<le> (of_int d :: rat)" using assms(2) by simp
  have "\<bar>of_int a / of_int d :: rat\<bar> = \<bar>of_int a\<bar> / of_int d" using assms(2) by (simp add: abs_divide)
  also have "\<dots> \<le> \<bar>of_int a\<bar> / 1" using d by (intro divide_left_mono) auto
  finally show ?thesis using a by simp
qed

lemma slopes_bounded:
  assumes "wide_segment err cs S X Y p0 p1 p2 p3"
  shows "\<bar>fst (cs_line_min cs)\<bar> \<le> of_int (Y + 2 * err)" "\<bar>fst (cs_line_max cs)\<bar> \<le> of_int (Y + 2 * err)" "0 < fst (cs_line_max cs)"
proof -
  note w = wide_segmentD [OF assms]
  have y: "0 \<le> snd p0" "snd p2 \<le> Y" "0 \<le> snd p1" "snd p3 \<le> Y" using w(2-5,16) by auto
  show "\<bar>fst (cs_line_min cs)\<bar> \<le> of_int (Y + 2 * err)" "\<bar>fst (cs_line_max cs)\<bar> \<le> of_int (Y + 2 * err)"
    unfolding wide_segment_slopes(3,4) [OF assms] by (rule int_quotient_bound; use w(1,10-13) y in linarith)+
  show "0 < fst (cs_line_max cs)"
    unfolding wide_segment_slopes(4) [OF assms] using w(1,11,13) by (intro divide_pos_pos) (simp_all only: of_int_0_less_iff)
qed

lemma half_sum: "a \<le> l \<Longrightarrow> r = b \<Longrightarrow> a + b = 2 * c \<Longrightarrow> c \<le> (l + r) / (2 :: rat)"
  by simp

lemma slope_lower:
  assumes "wide_segment err cs S X Y p0 p1 p2 p3"
  shows "of_int (snd p3 - snd p1) / of_int (fst p3 - fst p1) \<le> cs_slope cs"
proof -
  note w = wide_segmentD [OF assms]
  let ?d = "of_int (fst p3 - fst p1) :: rat" and ?y = "of_int (snd p3 - snd p1) :: rat" and ?e = "of_int err :: rat"
  have d: "0 < ?d" using w(11) by simp
  have "of_int (snd p3) - ?e \<le> ev (cs_line_min cs) (of_int (fst p3))" "ev (cs_line_min cs) (of_int (fst p1)) \<le> of_int (snd p1) + ?e"
    using w(14) [OF w(3)] w(14) [OF w(5)] by (auto simp: near_def abs_le_iff)
  then have "?y - 2 * ?e \<le> fst (cs_line_min cs) * ?d"
    using ev_from [of "cs_line_min cs" "of_int (fst p3)" "of_int (fst p1)"] by simp
  then have "(?y - 2 * ?e) / ?d \<le> fst (cs_line_min cs)" using d by (simp only: divide_le_eq if_True)
  moreover have "fst (cs_line_max cs) = (?y + 2 * ?e) / ?d" using wide_segment_slopes(4) [OF assms] by simp
  moreover have "(?y - 2 * ?e) / ?d + (?y + 2 * ?e) / ?d = 2 * (?y / ?d)" by (simp only: add_divide_distrib [symmetric]) simp
  ultimately show ?thesis unfolding cs_slope_def by (rule half_sum)
qed

lemma cs_den_zero:
  assumes "wide_segment err cs S X Y p0 p1 p2 p3"
  shows "cs_den cs = 0 \<longleftrightarrow> fst (cs_line_min cs) = fst (cs_line_max cs)"
  using wide_segmentD(9-11) [OF assms] meet_parallel [of "rp (upp err p0)" "rp (low err p2)" "rp (low err p1)" "rp (upp err p3)"]
  by (simp add: cs_den_def wide_segment_slopes(1,2) [OF assms] upp_def low_def)

text \<open>The intersection lies on the first line between its two corners.\<close>

lemma meet_between:
  assumes "wide_segment err cs S X Y p0 p1 p2 p3"
  shows "0 \<le> meet_num (rp (upp err p0)) (rp (low err p1)) (rp (low err p2)) (rp (upp err p3))"
    and "meet_num (rp (upp err p0)) (rp (low err p1)) (rp (low err p2)) (rp (upp err p3)) \<le> cs_den cs"
proof -
  note w = wide_segmentD [OF assms]
  let ?g = "thru (rp (low err p1)) (rp (upp err p3))"
  have x: "fst (rp (low err p1)) < fst (rp (upp err p3))" using w(11) by (simp add: upp_def low_def)
  have "ev ?g (fst (rp (upp err p0))) \<le> snd (rp (upp err p0))" "snd (rp (low err p2)) \<le> ev ?g (fst (rp (low err p2)))"
    using w(15) [OF w(2)] w(15) [OF w(4)] wide_segment_slopes(2) [OF assms] by (auto simp: near_def abs_le_iff upp_def low_def)
  then have "0 \<le> (fst (rp (upp err p3)) - fst (rp (low err p1))) * (snd (rp (upp err p0)) - ev ?g (fst (rp (upp err p0))))"
    "0 \<le> (fst (rp (upp err p3)) - fst (rp (low err p1))) * (ev ?g (fst (rp (low err p2))) - snd (rp (low err p2)))"
    using x by (intro mult_nonneg_nonneg; simp only: diff_ge_0_iff_ge less_imp_le)+
  note this [folded meet_num_den(1) [OF x, of "rp (upp err p0)" "rp (low err p2)"] meet_num_den(2) [OF x, of "rp (upp err p0)" "rp (low err p2)"]]
  then show "0 \<le> meet_num (rp (upp err p0)) (rp (low err p1)) (rp (low err p2)) (rp (upp err p3))"
    and "meet_num (rp (upp err p0)) (rp (low err p1)) (rp (low err p2)) (rp (upp err p3)) \<le> cs_den cs"
    by (simp_all only: cs_den_def w(9) diff_ge_0_iff_ge nth_Cons_0 nth_Cons_numeral nth_Cons_Suc One_nat_def numeral_2_eq_2 numeral_3_eq_3)
qed

lemma cs_line_ev:
  assumes "wide_segment err cs S X Y p0 p1 p2 p3"
  shows "ev (cs_line cs) x = (if cs_den cs = 0 then ev (cs_line_min cs) x else (ev (cs_line_min cs) x + ev (cs_line_max cs) x) / 2)"
proof (cases "cs_den cs = 0")
  case True
  then show ?thesis
    using cs_den_zero [OF assms] wide_segmentD(9) [OF assms]
    by (simp add: cs_line_def cs_slope_def cs_meet_def wide_segment_slopes(1) [OF assms] thru_def ev_ray)
next
  case False
  note w = wide_segmentD [OF assms]
  have x: "fst (rp (upp err p0)) < fst (rp (low err p2))" "fst (rp (low err p1)) < fst (rp (upp err p3))"
    using w(10,11) by (simp_all add: upp_def low_def)
  have m: "cs_meet cs = meet (rp (upp err p0)) (rp (low err p1)) (rp (low err p2)) (rp (upp err p3))"
    using False w(9) by (simp add: cs_meet_def)
  have "meet_den (rp (upp err p0)) (rp (low err p1)) (rp (low err p2)) (rp (upp err p3)) \<noteq> 0"
    using False w(9) by (simp add: cs_den_def)
  note l = meet_on_lines [OF x this, folded m, folded wide_segment_slopes(1,2) [OF assms]]
  show ?thesis using False ev_average [OF l] by (simp add: cs_line_def cs_slope_def)
qed

lemma average_near: "\<bar>a - y\<bar> \<le> e \<Longrightarrow> \<bar>b - y\<bar> \<le> e \<Longrightarrow> \<bar>(a + b) / 2 - y\<bar> \<le> (e :: rat)"
  by (simp add: abs_le_iff field_simps)

lemma cs_line_near:
  assumes "wide_segment err cs S X Y p0 p1 p2 p3" and "p \<in> set S"
  shows "near err (cs_line cs) p"
  using wide_segmentD(14,15) [OF assms(1,2)] by (auto simp: near_def cs_line_ev [OF assms(1)] intro: average_near)

lemma cs_slope_bounds:
  assumes "wide_segment err cs S X Y p0 p1 p2 p3" and "0 < X"
  shows "1 / of_int X \<le> cs_slope cs" and "cs_slope cs \<le> of_int (Y + 2 * err)"
proof -
  note w = wide_segmentD [OF assms(1)]
  have "fst p3 - fst p1 \<le> X" using w(16) [OF w(3)] w(16) [OF w(5)] by linarith
  then have "1 / of_int X \<le> (1 :: rat) / of_int (fst p3 - fst p1)" using w(11) assms(2) by (intro divide_left_mono) (simp_all flip: of_int_diff)
  also have "\<dots> \<le> of_int (snd p3 - snd p1) / of_int (fst p3 - fst p1)"
    using w(11,13) by (intro divide_right_mono) (simp_all del: of_int_diff)
  also note slope_lower [OF assms(1)]
  finally show "1 / of_int X \<le> cs_slope cs" .
  show "cs_slope cs \<le> of_int (Y + 2 * err)" using slopes_bounded(1,2) [OF assms(1)] by (simp add: cs_slope_def abs_le_iff)
qed

text \<open>At the first key the line is not above all points.\<close>

lemma cs_line_start:
  assumes "wide_segment err cs S X Y p0 p1 p2 p3"
  shows "\<exists>q\<in>set S. ev (cs_line cs) (of_int (fst (hd S))) \<le> of_int (snd q)"
proof -
  note w = wide_segmentD [OF assms]
  let ?x = "of_int (fst (hd S)) :: rat"
  have hd: "fst (hd S) \<le> fst p1" "snd (hd S) \<le> snd p1" "fst (hd S) \<le> fst p2" using rising_hd [OF w(6)] w(3,4) by auto
  have err: "0 < (of_int err :: rat)" using w(1) by simp
  show ?thesis
  proof (cases "cs_den cs = 0")
    case True
    have "0 < fst (cs_line_min cs)" using True cs_den_zero [OF assms] slopes_bounded(3) [OF assms] by simp
    then have "ev (cs_line_min cs) ?x \<le> ev (cs_line_min cs) (of_int (fst p2))" using hd(3) by (simp add: ev_def)
    also have "\<dots> = of_int (snd p2) - of_int err"
      using w(10) ev_thru(2) [of "rp (upp err p0)" "rp (low err p2)"] by (simp add: wide_segment_slopes(1) [OF assms] upp_def low_def)
    finally show ?thesis using True err w(4) by (intro bexI [of _ p2]) (auto simp: cs_line_ev [OF assms])
  next
    case False
    have "ev (cs_line_max cs) ?x \<le> ev (cs_line_max cs) (of_int (fst p1))"
      using hd(1) slopes_bounded(3) [OF assms] by (simp add: ev_def)
    also have "\<dots> = of_int (snd p1) - of_int err"
      using ev_thru(1) [of "rp (low err p1)" "rp (upp err p3)"] by (simp add: wide_segment_slopes(2) [OF assms] low_def)
    finally have max: "ev (cs_line_max cs) ?x \<le> of_int (snd p1) - of_int err" .
    have min: "ev (cs_line_min cs) ?x \<le> of_int (snd (hd S)) + of_int err"
      using w(14) [OF hd_in_set [OF w(7)]] by (auto simp: near_def abs_le_iff)
    have "(of_int (snd (hd S)) :: rat) \<le> of_int (snd p1)" using hd(2) by simp
    with max min have "(ev (cs_line_min cs) ?x + ev (cs_line_max cs) ?x) / 2 \<le> of_int (snd p1)" by simp
    then show ?thesis using False w(3) by (intro bexI [of _ p1]) (auto simp: cs_line_ev [OF assms])
  qed
qed

subsection \<open>Errors of the floating-point line\<close>

text \<open>Errors are multiples of \<open>1 / 2 ^ 64\<close>, the relative error of a \<^verbatim>\<open>long double\<close>.\<close>

lemma product_error:
  fixes a b :: rat
  assumes "\<bar>a' - a\<bar> \<le> e" and "\<bar>b' - b\<bar> \<le> f" and "\<bar>b'\<bar> \<le> B" and "\<bar>a\<bar> \<le> A"
  shows "\<bar>a' * b' - a * b\<bar> \<le> e * B + A * f"
proof -
  have "a' * b' - a * b = (a' - a) * b' + a * (b' - b)" by (simp add: algebra_simps)
  then have "\<bar>a' * b' - a * b\<bar> \<le> \<bar>a' - a\<bar> * \<bar>b'\<bar> + \<bar>a\<bar> * \<bar>b' - b\<bar>"
    using abs_triangle_ineq [of "(a' - a) * b'" "a * (b' - b)"] by (simp add: abs_mult)
  also have "\<dots> \<le> e * B + A * f"
    using assms by (intro add_mono mult_mono) (auto intro: order.trans [OF abs_ge_zero])
  finally show ?thesis .
qed

lemma quotient_error:
  assumes "0 \<le> n" and "n \<le> a" and "0 < a"
  shows "\<exists>b. ld_div (ld_of_int n) (ld_of_int a) = Some b \<and> 0 \<le> b \<and> b \<le> 1 \<and> \<bar>b - of_int n / of_int a\<bar> \<le> 5 / 2 ^ 64"
proof -
  let ?N = "of_int n :: rat" and ?A = "of_int a :: rat" and ?n = "ld_of_int n" and ?a = "ld_of_int a"
  have NA: "0 \<le> ?N" "?N \<le> ?A" "0 < ?A" using assms by simp_all
  have n: "0 \<le> ?n" "?n \<le> ?a" "0 < ?a"
    using ld.rnd_nonneg [OF NA(1)] ld.rnd_mono [OF NA(2)] ld.rnd_pos [OF NA(3)] by (simp_all add: ld_of_int_def)
  have e: "\<bar>?n - ?N\<bar> \<le> ?N / 2 ^ 64" "\<bar>?a - ?A\<bar> \<le> ?A / 2 ^ 64"
    using ld.rnd_error [of ?N] ld.rnd_error [of ?A] NA by (simp_all add: ld_of_int_def)
  have a2: "?A \<le> 2 * ?a" using ld.rnd_half [of ?A] NA unfolding ld_of_int_def by linarith
  have "?n * ?A - ?N * ?a = (?n - ?N) * ?A - ?N * (?a - ?A)" by (simp add: algebra_simps)
  then have "\<bar>?n * ?A - ?N * ?a\<bar> \<le> \<bar>?n - ?N\<bar> * ?A + ?N * \<bar>?a - ?A\<bar>"
    using abs_triangle_ineq4 [of "(?n - ?N) * ?A" "?N * (?a - ?A)"] NA by (simp add: abs_mult)
  also have "\<dots> \<le> ?N / 2 ^ 64 * ?A + ?N * (?A / 2 ^ 64)" using e NA by (intro add_mono mult_mono) auto
  also have "\<dots> = (2 * ?N / 2 ^ 64) * ?A" by simp
  also have "\<dots> \<le> (2 * (2 * ?a) / 2 ^ 64) * ?A" using NA a2 by (intro mult_right_mono) auto
  also have "\<dots> = 4 / 2 ^ 64 * (?a * ?A)" by simp
  finally have "\<bar>?n / ?a - ?N / ?A\<bar> \<le> 4 / 2 ^ 64"
    using n NA by (simp add: diff_frac_eq abs_divide divide_le_eq abs_mult)
  moreover have q: "0 \<le> ?n / ?a" "?n / ?a \<le> 1" using n by simp_all
  ultimately have "\<bar>ld_round (?n / ?a) - ?N / ?A\<bar> \<le> 4 / 2 ^ 64 + 1 / 2 ^ 64" by (intro ld.rnd_near) auto
  then show ?thesis using n(3) ld.rnd_nonneg [OF q(1)] ld.rnd_le_1 [OF q(2)] by (simp add: ld_div_def)
qed

lemma coordinate_error:
  assumes "0 \<le> b" and "b \<le> 1" and "\<bar>b - c\<bar> \<le> 5 / 2 ^ 64" and "\<bar>x\<bar> \<le> B" and "\<bar>d\<bar> \<le> B" and "B \<le> 2 ^ 64"
  shows "\<bar>ld_round (ld_of_int x + ld_round (b * ld_of_int d)) - (of_int x + c * of_int d)\<bar> \<le> 9 * of_int B / 2 ^ 64"
proof -
  let ?B = "of_int B :: rat" and ?x = "of_int x :: rat" and ?d = "of_int d :: rat"
  have B: "\<bar>?x\<bar> \<le> ?B" "\<bar>?d\<bar> \<le> ?B" "0 \<le> ?B" using assms(4,5) by (simp_all flip: of_int_abs)
  have ld: "ld_of_int x = ?x" "ld_of_int d = ?d" using assms(4-6) by (simp_all add: ld_of_int_def ld.rnd_int)
  have bd: "\<bar>b * ?d\<bar> \<le> ?B" using mult_mono [of b 1 "\<bar>?d\<bar>" ?B] assms(1,2) B by (simp add: abs_mult)
  have "\<bar>b * ?d - c * ?d\<bar> = \<bar>b - c\<bar> * \<bar>?d\<bar>" by (simp add: abs_mult flip: left_diff_distrib)
  also have "\<dots> \<le> 5 / 2 ^ 64 * ?B" using assms(3) B by (intro mult_mono) auto
  finally have "\<bar>b * ?d - c * ?d\<bar> \<le> 5 / 2 ^ 64 * ?B" .
  from ld.rnd_near [OF this bd] have t: "\<bar>ld_round (b * ?d) - c * ?d\<bar> \<le> 6 / 2 ^ 64 * ?B" by simp
  have "\<bar>ld_round (b * ?d)\<bar> \<le> 2 * ?B" using ld.rnd_twice [OF _ bd] by simp
  then have "\<bar>?x + ld_round (b * ?d)\<bar> \<le> 3 * ?B" using B by (auto simp: abs_le_iff)
  moreover have "\<bar>(?x + ld_round (b * ?d)) - (?x + c * ?d)\<bar> \<le> 6 / 2 ^ 64 * ?B" using t by simp
  ultimately have "\<bar>ld_round (?x + ld_round (b * ?d)) - (?x + c * ?d)\<bar> \<le> 6 / 2 ^ 64 * ?B + 3 * ?B / 2 ^ 64" by (intro ld.rnd_near)
  then show ?thesis by (simp add: ld)
qed

text \<open>
  Bounds \<open>X\<close> of the keys and \<open>M\<close> of the positions with twice the error, under which all errors together stay below one half.
\<close>

definition precise :: "int \<Rightarrow> int \<Rightarrow> bool" where
  "precise X M \<longleftrightarrow> 1 \<le> X \<and> 1 \<le> M \<and> M \<le> 2 ^ 31 \<and> X * M \<le> 2 ^ 56"

lemma preciseD:
  assumes "precise X M"
  shows "1 \<le> X" "1 \<le> M" "M \<le> 2 ^ 31" "X * M \<le> 2 ^ 56" "X \<le> X * M" "M \<le> X * M" "X \<le> 2 ^ 56"
proof -
  show *: "1 \<le> X" "1 \<le> M" "M \<le> 2 ^ 31" "X * M \<le> 2 ^ 56" using assms by (auto simp: precise_def)
  show X: "X \<le> X * M" "M \<le> X * M" using * mult_left_mono [of 1 M X] mult_right_mono [of 1 X M] by simp_all
  show "X \<le> 2 ^ 56" using X(1) *(4) by (rule order.trans)
qed

text \<open>The differences of the corners.\<close>

lemma corner_bounds:
  assumes "wide_segment err cs S X Y p0 p1 p2 p3"
  shows "\<bar>fst p2 - fst p0\<bar> \<le> X" "\<bar>fst p3 - fst p1\<bar> \<le> X" "\<bar>fst p1 - fst p0\<bar> \<le> X"
    and "\<bar>snd (low err p2) - snd (upp err p0)\<bar> \<le> Y + 2 * err" "\<bar>snd (upp err p3) - snd (low err p1)\<bar> \<le> Y + 2 * err"
    and "\<bar>snd (low err p1) - snd (upp err p0)\<bar> \<le> Y + 2 * err" "\<bar>snd (upp err p0)\<bar> \<le> Y + 2 * err" "\<bar>fst p0\<bar> \<le> X"
proof -
  note w = wide_segmentD [OF assms]
  have b: "0 \<le> fst p0" "fst p0 \<le> X" "0 \<le> fst p1" "fst p1 \<le> X" "0 \<le> fst p2" "fst p2 \<le> X" "0 \<le> fst p3" "fst p3 \<le> X"
    "0 \<le> snd p0" "snd p0 \<le> Y" "0 \<le> snd p1" "snd p1 \<le> Y" "0 \<le> snd p2" "snd p2 \<le> Y" "0 \<le> snd p3" "snd p3 \<le> Y"
    using w(2-5,16) by auto
  show "\<bar>fst p2 - fst p0\<bar> \<le> X" "\<bar>fst p3 - fst p1\<bar> \<le> X" "\<bar>fst p1 - fst p0\<bar> \<le> X" "\<bar>fst p0\<bar> \<le> X" using b by linarith+
  show "\<bar>snd (low err p2) - snd (upp err p0)\<bar> \<le> Y + 2 * err" "\<bar>snd (upp err p3) - snd (low err p1)\<bar> \<le> Y + 2 * err"
    "\<bar>snd (low err p1) - snd (upp err p0)\<bar> \<le> Y + 2 * err" "\<bar>snd (upp err p0)\<bar> \<le> Y + 2 * err"
    unfolding low_def upp_def fst_conv snd_conv using b w(1) by linarith+
qed

lemma i128_difference:
  assumes "\<bar>a\<bar> < 2 ^ 64" and "\<bar>b\<bar> < 2 ^ 62" and "\<bar>c\<bar> < 2 ^ 62" and "\<bar>d\<bar> < 2 ^ 64"
  shows "i128 (a * b) = Some (a * b)" and "i128 (c * d) = Some (c * d)" and "i128 (a * b - c * d) = Some (a * b - c * d)"
proof -
  show "i128 (a * b) = Some (a * b)" "i128 (c * d) = Some (c * d)" using i128_product assms by blast+
  have "\<bar>a * b\<bar> < 2 ^ 126" "\<bar>d * c\<bar> < 2 ^ 126" using i128_product(1) assms by blast+
  then show "i128 (a * b - c * d) = Some (a * b - c * d)" by (simp add: i128_def abs_less_iff mult.commute)
qed

lemma one_point_wide:
  assumes "wide_segment err cs S X Y p0 p1 p2 p3"
  shows "\<not> one_point cs"
  using wide_segmentD(9,10) [OF assms] by (auto simp: one_point_def upp_def low_def)

lemma get_intersection_error:
  assumes w: "wide_segment err cs S X Y p0 p1 p2 p3" and "precise X (Y + 2 * err)"
  shows "\<exists>i_x i_y. get_intersection cs = Some (i_x, i_y) \<and> \<bar>i_x - fst (cs_meet cs)\<bar> \<le> 9 * of_int X / 2 ^ 64 \<and>
    \<bar>i_y - snd (cs_meet cs)\<bar> \<le> 9 * of_int (Y + 2 * err) / 2 ^ 64"
proof -
  note p = preciseD [OF assms(2)] and c = corner_bounds [OF w] and rect = wide_segmentD(9) [OF w]
  let ?s1 = "point_minus (low err p2) (upp err p0)" and ?s2 = "point_minus (upp err p3) (low err p1)"
  let ?q = "point_minus (low err p1) (upp err p0)"
  have small: "\<bar>fst ?s1\<bar> < 2 ^ 64" "\<bar>snd ?s1\<bar> < 2 ^ 62" "\<bar>fst ?s2\<bar> < 2 ^ 64" "\<bar>snd ?s2\<bar> < 2 ^ 62" "\<bar>fst ?q\<bar> < 2 ^ 64" "\<bar>snd ?q\<bar> < 2 ^ 62"
    using p c unfolding point_minus_def fst_conv snd_conv by (simp_all add: low_def upp_def)
  let ?a = "fst ?s1 * snd ?s2 - snd ?s1 * fst ?s2" and ?n = "fst ?q * snd ?s2 - snd ?q * fst ?s2"
  note a = i128_difference [OF small(1,4,2,3)] and n = i128_difference [OF small(5,4,6,3)]
  have den: "cs_den cs = of_int ?a" by (simp add: cs_den_def rect meet_den_def point_minus_def)
  have num: "meet_num (rp (upp err p0)) (rp (low err p1)) (rp (low err p2)) (rp (upp err p3)) = of_int ?n"
    by (simp add: meet_num_def point_minus_def)
  have eq: "slope_eq ?s1 ?s2 = Some (?a = 0)"
    using i128_product(2,3) [OF small(3,2)] a(1) by (auto simp: slope_eq_def)
  note op = one_point_wide [OF w]
  show ?thesis
  proof (cases "?a = 0")
    case True
    have "get_intersection cs = Some (ld_of_int (fst (upp err p0)), ld_of_int (snd (upp err p0)))"
      using op eq True by (simp add: get_intersection_def rect Let_def)
    moreover have "ld_of_int (fst (upp err p0)) = of_int (fst (upp err p0))" "ld_of_int (snd (upp err p0)) = of_int (snd (upp err p0))"
      unfolding ld_of_int_def by (rule ld.rnd_int; use p c in \<open>simp add: upp_def\<close>)+
    moreover have "cs_meet cs = rp (upp err p0)" using den True by (simp add: cs_meet_def rect)
    ultimately show ?thesis using p by simp
  next
    case False
    then have "cs_den cs \<noteq> 0" unfolding den of_int_eq_0_iff .
    have "0 \<le> ?n" "?n \<le> ?a" using meet_between [OF w] unfolding num den of_int_le_iff of_int_0_le_iff by blast+
    with False obtain b where b: "ld_div (ld_of_int ?n) (ld_of_int ?a) = Some b" "0 \<le> b" "b \<le> 1"
        "\<bar>b - of_int ?n / of_int ?a\<bar> \<le> 5 / 2 ^ 64"
      using quotient_error [of ?n ?a] by auto
    let ?ix = "ld_round (ld_of_int (fst (upp err p0)) + ld_round (b * ld_of_int (fst ?s1)))"
    let ?iy = "ld_round (ld_of_int (snd (upp err p0)) + ld_round (b * ld_of_int (snd ?s1)))"
    have "get_intersection cs = Some (?ix, ?iy)"
      using op eq False a n b(1) by (simp add: get_intersection_def rect Let_def)
    moreover have "cs_meet cs = (of_int (fst (upp err p0)) + of_int ?n / of_int ?a * of_int (fst ?s1),
        of_int (snd (upp err p0)) + of_int ?n / of_int ?a * of_int (snd ?s1))"
      using \<open>cs_den cs \<noteq> 0\<close> den num by (simp add: cs_meet_def cs_den_def rect meet_def Let_def point_minus_def)
    moreover have "\<bar>?ix - (of_int (fst (upp err p0)) + of_int ?n / of_int ?a * of_int (fst ?s1))\<bar> \<le> 9 * of_int X / 2 ^ 64"
      using p c by (intro coordinate_error [OF b(2-4)]) (simp_all add: point_minus_def upp_def low_def)
    moreover have "\<bar>?iy - (of_int (snd (upp err p0)) + of_int ?n / of_int ?a * of_int (snd ?s1))\<bar> \<le> 9 * of_int (Y + 2 * err) / 2 ^ 64"
      using p c by (intro coordinate_error [OF b(2-4)]) (simp_all add: point_minus_def)
    ultimately show ?thesis by simp
  qed
qed

lemma slope_to_ld_error:
  assumes "0 < dx" and "dx \<le> 2 ^ 64" and "\<bar>dy\<bar> \<le> B" and "B \<le> 2 ^ 64"
  shows "\<exists>s. slope_to_ld (dx, dy) = Some s \<and> \<bar>s - of_int dy / of_int dx\<bar> \<le> of_int B / 2 ^ 64"
proof -
  have "ld_of_int dx = of_int dx" "ld_of_int dy = of_int dy"
    unfolding ld_of_int_def by (rule ld.rnd_int; use assms in simp)+
  then show ?thesis
    using assms ld.rnd_within [OF int_quotient_bound [OF assms(3,1)]] by (simp add: slope_to_ld_def ld_div_def)
qed

lemma get_slope_range_error:
  assumes w: "wide_segment err cs S X Y p0 p1 p2 p3" and "precise X (Y + 2 * err)"
  shows "\<exists>a b. get_slope_range cs = Some (a, b) \<and> \<bar>a - fst (cs_line_min cs)\<bar> \<le> of_int (Y + 2 * err) / 2 ^ 64 \<and>
    \<bar>b - fst (cs_line_max cs)\<bar> \<le> of_int (Y + 2 * err) / 2 ^ 64"
proof -
  note p = preciseD [OF assms(2)] and c = corner_bounds [OF w] and rect = wide_segmentD(9-11) [OF w]
  let ?s1 = "point_minus (low err p2) (upp err p0)" and ?s2 = "point_minus (upp err p3) (low err p1)"
  have s: "0 < fst ?s1" "fst ?s1 \<le> 2 ^ 64" "\<bar>snd ?s1\<bar> \<le> Y + 2 * err" "0 < fst ?s2" "fst ?s2 \<le> 2 ^ 64" "\<bar>snd ?s2\<bar> \<le> Y + 2 * err"
    using p c rect unfolding point_minus_def fst_conv snd_conv by (simp_all add: low_def upp_def)
  have M: "Y + 2 * err \<le> 2 ^ 64" using p by simp
  obtain a where "slope_to_ld ?s1 = Some a" "\<bar>a - of_int (snd ?s1) / of_int (fst ?s1)\<bar> \<le> of_int (Y + 2 * err) / 2 ^ 64"
    using slope_to_ld_error [OF s(1-3) M] by auto
  moreover obtain b where "slope_to_ld ?s2 = Some b" "\<bar>b - of_int (snd ?s2) / of_int (fst ?s2)\<bar> \<le> of_int (Y + 2 * err) / 2 ^ 64"
    using slope_to_ld_error [OF s(4-6) M] by auto
  moreover have "fst (cs_line_min cs) = of_int (snd ?s1) / of_int (fst ?s1)" "fst (cs_line_max cs) = of_int (snd ?s2) / of_int (fst ?s2)"
    unfolding wide_segment_slopes(3,4) [OF w] by (simp_all add: point_minus_def low_def upp_def algebra_simps)
  ultimately show ?thesis by (simp add: get_slope_range_def rect)
qed

lemma pow64: "(2 :: rat) ^ 64 = 18446744073709551616"
  by simp

lemma ld_average_error:
  assumes "\<bar>a - c\<bar> \<le> B / 2 ^ 64" and "\<bar>b - d\<bar> \<le> B / 2 ^ 64" and "\<bar>c\<bar> \<le> B" and "\<bar>d\<bar> \<le> B"
  shows "\<bar>ld_round (ld_round (a + b) / 2) - (c + d) / 2\<bar> \<le> 5 * B / 2 ^ 64"
proof -
  have B: "0 \<le> B" using assms(3) unfolding pow64 by linarith
  have "\<bar>a + b\<bar> \<le> 3 * B" using assms B unfolding pow64 by linarith
  moreover have "\<bar>(a + b) - (c + d)\<bar> \<le> 2 * B / 2 ^ 64" using assms unfolding pow64 by linarith
  ultimately have "\<bar>ld_round (a + b) - (c + d)\<bar> \<le> 2 * B / 2 ^ 64 + 3 * B / 2 ^ 64" by (intro ld.rnd_near)
  then have s: "\<bar>ld_round (a + b) - (c + d)\<bar> \<le> 5 * B / 2 ^ 64" by simp
  have "\<bar>ld_round (a + b) / 2 - (c + d) / 2\<bar> = \<bar>ld_round (a + b) - (c + d)\<bar> / 2"
    by (simp add: abs_divide flip: diff_divide_distrib)
  also have "\<dots> \<le> 5 / 2 * B / 2 ^ 64" using s by simp
  finally have "\<bar>ld_round (a + b) / 2 - (c + d) / 2\<bar> \<le> 5 / 2 * B / 2 ^ 64" .
  moreover have "\<bar>ld_round (a + b)\<bar> \<le> 4 * B" using s assms(3,4) B unfolding pow64 by linarith
  then have "\<bar>ld_round (a + b) / 2\<bar> \<le> 2 * B" by (simp add: abs_divide)
  ultimately have "\<bar>ld_round (ld_round (a + b) / 2) - (c + d) / 2\<bar> \<le> 5 / 2 * B / 2 ^ 64 + 2 * B / 2 ^ 64" by (rule ld.rnd_near)
  then show ?thesis using B unfolding pow64 by linarith
qed

text \<open>The value of a line at a key, from its slope and one of its points.\<close>

lemma ld_intercept_error:
  fixes X M :: rat
  assumes "\<bar>i_x - x\<bar> \<le> 9 * X / 2 ^ 64" and "\<bar>i_y - y\<bar> \<le> 9 * M / 2 ^ 64" and "\<bar>s - a\<bar> \<le> 5 * M / 2 ^ 64"
    and "\<bar>a\<bar> \<le> M" and "\<bar>y\<bar> \<le> M" and "\<bar>x - k\<bar> \<le> X" and "1 \<le> X" and "1 \<le> M"
  shows "\<bar>ld_round (i_y - ld_round (ld_round (i_x - k) * s)) - (y + a * (k - x))\<bar> \<le> 50 * (X * M) / 2 ^ 64"
proof -
  let ?d = "ld_round (i_x - k)"
  have XM: "M \<le> X * M" "X \<le> X * M" using assms(7,8) mult_right_mono [of 1 X M] mult_left_mono [of 1 M X] by simp_all
  have "\<bar>i_x - k\<bar> \<le> 2 * X" "\<bar>(i_x - k) - (x - k)\<bar> \<le> 9 * X / 2 ^ 64" using assms unfolding pow64 by linarith+
  then have "\<bar>?d - (x - k)\<bar> \<le> 9 * X / 2 ^ 64 + 2 * X / 2 ^ 64" by (intro ld.rnd_near)
  then have d: "\<bar>?d - (x - k)\<bar> \<le> 11 * X / 2 ^ 64" by simp
  have s2: "\<bar>s\<bar> \<le> 2 * M" using assms unfolding pow64 by linarith
  have "\<bar>?d * s - (x - k) * a\<bar> \<le> 11 * X / 2 ^ 64 * (2 * M) + X * (5 * M / 2 ^ 64)"
    using d assms(3) s2 assms(6) by (rule product_error)
  then have t: "\<bar>?d * s - (x - k) * a\<bar> \<le> 27 * (X * M) / 2 ^ 64" by (simp add: mult.commute)
  have "\<bar>?d\<bar> \<le> 2 * X" using d assms(6,7) unfolding pow64 by linarith
  then have "\<bar>?d\<bar> * \<bar>s\<bar> \<le> 2 * X * (2 * M)" using s2 assms by (intro mult_mono) auto
  then have b: "\<bar>?d * s\<bar> \<le> 4 * (X * M)" by (simp add: abs_mult)
  from ld.rnd_near [OF t b] have t: "\<bar>ld_round (?d * s) - (x - k) * a\<bar> \<le> 31 * (X * M) / 2 ^ 64" by (simp add: mult.commute)
  have tb: "\<bar>ld_round (?d * s)\<bar> \<le> 8 * (X * M)" using ld.rnd_twice [OF _ b] by simp
  have "\<bar>i_y - ld_round (?d * s)\<bar> \<le> 10 * (X * M)" using tb assms(2,5) XM unfolding pow64 by linarith
  moreover have "\<bar>(i_y - ld_round (?d * s)) - (y - (x - k) * a)\<bar> \<le> 40 * (X * M) / 2 ^ 64" using t assms(2) XM unfolding pow64 by linarith
  ultimately have "\<bar>ld_round (i_y - ld_round (?d * s)) - (y - (x - k) * a)\<bar> \<le> 40 * (X * M) / 2 ^ 64 + 10 * (X * M) / 2 ^ 64"
    by (intro ld.rnd_near)
  moreover have "y - (x - k) * a = y + a * (k - x)" by (simp add: algebra_simps)
  ultimately show ?thesis by simp
qed

lemma cs_meet_bounds:
  assumes "wide_segment err cs S X Y p0 p1 p2 p3"
  shows "0 \<le> fst (cs_meet cs)" "fst (cs_meet cs) \<le> of_int X" "\<bar>snd (cs_meet cs)\<bar> \<le> of_int (Y + 2 * err)"
proof -
  note w = wide_segmentD [OF assms]
  have b: "0 \<le> fst p0" "fst p0 < fst p2" "fst p2 \<le> X" "0 \<le> snd p0" "snd p0 \<le> Y" "0 \<le> snd p2" "snd p2 \<le> Y" "0 < err"
    using w(1,2,4,10,16) by auto
  define c where "c = (if cs_den cs = 0 then 0 else meet_num (rp (upp err p0)) (rp (low err p1)) (rp (low err p2)) (rp (upp err p3)) / cs_den cs)"
  have c: "0 \<le> c" "c \<le> 1" using meet_between [OF assms] by (auto simp: c_def divide_le_eq)
  have m: "fst (cs_meet cs) = (1 - c) * of_int (fst p0) + c * of_int (fst p2)"
    "snd (cs_meet cs) = (1 - c) * of_int (snd p0 + err) + c * of_int (snd p2 - err)"
    by (simp_all add: cs_meet_def c_def cs_den_def w(9) meet_def Let_def upp_def low_def algebra_simps)
  have conv: "(1 - c) * l + c * l \<le> (1 - c) * of_int a + c * of_int b \<and> (1 - c) * of_int a + c * of_int b \<le> (1 - c) * h + c * h"
    if "l \<le> of_int a" "l \<le> of_int b" "of_int a \<le> h" "of_int b \<le> h" for a b and l h :: rat
    using that c by (intro conjI add_mono mult_left_mono) auto
  have "0 \<le> fst (cs_meet cs) \<and> fst (cs_meet cs) \<le> of_int X"
    unfolding m using conv [of 0 "fst p0" "fst p2" "of_int X"] b by (simp add: algebra_simps)
  then show "0 \<le> fst (cs_meet cs)" "fst (cs_meet cs) \<le> of_int X" by simp_all
  have "- of_int (Y + 2 * err) \<le> snd (cs_meet cs) \<and> snd (cs_meet cs) \<le> of_int (Y + 2 * err)"
    unfolding m using conv [of "- of_int (Y + 2 * err)" "snd p0 + err" "snd p2 - err" "of_int (Y + 2 * err)"] b
    by (simp add: algebra_simps flip: of_int_minus of_int_add of_int_diff)
  then show "\<bar>snd (cs_meet cs)\<bar> \<le> of_int (Y + 2 * err)" by (simp add: abs_le_iff)
qed

lemma floating_point_segment_error:
  assumes w: "wide_segment err cs S X Y p0 p1 p2 p3" and pr: "precise X (Y + 2 * err)" and k: "0 \<le> k" "k \<le> X"
  shows "\<exists>s c. get_floating_point_segment cs k = Some (s, c) \<and> \<bar>s - cs_slope cs\<bar> \<le> 5 * of_int (Y + 2 * err) / 2 ^ 64 \<and>
    \<bar>c - ev (cs_line cs) (of_int k)\<bar> \<le> 50 * (of_int X * of_int (Y + 2 * err)) / 2 ^ 64"
proof -
  note p = preciseD [OF pr] and m = cs_meet_bounds [OF w] and sl = slopes_bounded [OF w]
  obtain i_x i_y where i: "get_intersection cs = Some (i_x, i_y)" "\<bar>i_x - fst (cs_meet cs)\<bar> \<le> 9 * of_int X / 2 ^ 64"
      "\<bar>i_y - snd (cs_meet cs)\<bar> \<le> 9 * of_int (Y + 2 * err) / 2 ^ 64"
    using get_intersection_error [OF w pr] by blast
  obtain a b where ab: "get_slope_range cs = Some (a, b)" "\<bar>a - fst (cs_line_min cs)\<bar> \<le> of_int (Y + 2 * err) / 2 ^ 64"
      "\<bar>b - fst (cs_line_max cs)\<bar> \<le> of_int (Y + 2 * err) / 2 ^ 64"
    using get_slope_range_error [OF w pr] by blast
  let ?s = "ld_round (ld_round (a + b) / 2)"
  have s: "\<bar>?s - cs_slope cs\<bar> \<le> 5 * of_int (Y + 2 * err) / 2 ^ 64"
    unfolding cs_slope_def using ld_average_error [OF ab(2,3) sl(1,2)] .
  have "\<bar>cs_slope cs\<bar> \<le> of_int (Y + 2 * err)" using sl(1,2) by (simp add: cs_slope_def abs_le_iff)
  moreover have "\<bar>fst (cs_meet cs) - of_int k\<bar> \<le> of_int X" using m(1,2) k by (simp add: abs_le_iff)
  moreover have "(1 :: rat) \<le> of_int X" "(1 :: rat) \<le> of_int (Y + 2 * err)" using p(1,2) by (simp_all only: of_int_1_le_iff)
  ultimately have "\<bar>ld_round (i_y - ld_round (ld_round (i_x - of_int k) * ?s)) - (snd (cs_meet cs) + cs_slope cs * (of_int k - fst (cs_meet cs)))\<bar> \<le>
      50 * (of_int X * of_int (Y + 2 * err)) / 2 ^ 64"
    using m(3) by (intro ld_intercept_error [OF i(2,3) s])
  moreover have "snd (cs_meet cs) + cs_slope cs * (of_int k - fst (cs_meet cs)) = ev (cs_line cs) (of_int k)"
    by (simp add: cs_line_def ev_ray)
  moreover have "ld_of_int k = of_int k" unfolding ld_of_int_def by (rule ld.rnd_int) (use k p in simp)
  ultimately show ?thesis using s i(1) ab(1) one_point_wide [OF w] by (simp add: get_floating_point_segment_def Let_def)
qed

subsection \<open>Accurate segments\<close>

text \<open>The product of a segment's slope and a distance, as the \<^verbatim>\<open>double\<close> that is computed.\<close>

definition dprod :: "rat \<Rightarrow> int \<Rightarrow> rat" where
  "dprod s d = double_round (s * double_round (of_int d))"

lemma dprod_mono: "0 \<le> s \<Longrightarrow> d \<le> e \<Longrightarrow> dprod s d \<le> dprod s e"
  unfolding dprod_def by (intro double.rnd_mono mult_left_mono) auto

lemma dprod_bounds:
  assumes "0 \<le> s" and "s \<le> 4 * of_int M" and "precise X M" and "0 \<le> d" and "d \<le> X"
  shows "0 \<le> dprod s d" and "dprod s d \<le> 2 ^ 60"
proof -
  note p = preciseD [OF assms(3)]
  have d: "0 \<le> double_round (of_int d)" "double_round (of_int d) \<le> 2 * of_int X"
    using double.rnd_nonneg [of "of_int d"] dbl.rnd_twice [of "of_int d" "of_int X"] assms(4,5) by (auto simp: abs_le_iff)
  have "s * double_round (of_int d) \<le> 4 * of_int M * (2 * of_int X)" using assms d by (intro mult_mono) auto
  also have "\<dots> = 8 * of_int (X * M)" by simp
  also have "\<dots> \<le> 8 * of_int (2 ^ 56)" using p(4) by (intro mult_left_mono) (simp_all only: of_int_le_iff)
  finally have b: "s * double_round (of_int d) \<le> 2 ^ 59" by simp
  have n: "0 \<le> s * double_round (of_int d)" using assms(1) d(1) by simp
  show "0 \<le> dprod s d" unfolding dprod_def using n by (rule double.rnd_nonneg)
  have "\<bar>dprod s d\<bar> \<le> 2 * 2 ^ 59" unfolding dprod_def using n b by (intro dbl.rnd_twice) auto
  then show "dprod s d \<le> 2 ^ 60" by (simp add: abs_le_iff)
qed

lemma in_int64: "0 \<le> t \<Longrightarrow> t \<le> 2 ^ 60 \<Longrightarrow> \<bar>i\<bar> \<le> 2 ^ 32 \<Longrightarrow> - (2 ^ 63) \<le> t + i \<and> t + i < (2 ^ 63 :: int)"
  by (simp add: abs_le_iff)

lemma segment_apply_value:
  assumes "0 \<le> sg_slope s" and "sg_slope s \<le> 4 * of_int M" and "precise X M" and "sg_key s \<le> k" and "uint k \<le> X"
    and "\<bar>sg_intercept s\<bar> \<le> 2 ^ 32"
  shows "segment_apply s k = Some (nat (\<lfloor>dprod (sg_slope s) (uint k - uint (sg_key s))\<rfloor> + sg_intercept s))"
proof -
  let ?d = "uint k - uint (sg_key s)"
  have "0 \<le> uint (sg_key s)" by simp
  then have d: "uint (k - sg_key s) = ?d" "0 \<le> ?d" "?d \<le> X"
    using assms(4,5) uint_minus_simple_alt [of "sg_key s" k] unfolding word_le_def by linarith+
  note b = dprod_bounds [OF assms(1-3) d(2,3)]
  have f: "0 \<le> \<lfloor>dprod (sg_slope s) ?d\<rfloor>" "\<lfloor>dprod (sg_slope s) ?d\<rfloor> \<le> 2 ^ 60"
    using b by (simp_all add: floor_le_iff)
  then have "int_of_fp 64 (dprod (sg_slope s) ?d) = Some \<lfloor>dprod (sg_slope s) ?d\<rfloor>" using b by (simp add: int_of_fp_def Let_def)
  moreover have "- (2 ^ 63) \<le> \<lfloor>dprod (sg_slope s) ?d\<rfloor> + sg_intercept s" "\<lfloor>dprod (sg_slope s) ?d\<rfloor> + sg_intercept s < 2 ^ 63"
    using in_int64 [OF f assms(6)] by blast+
  ultimately show ?thesis
    unfolding segment_apply_def d(1) dprod_def [symmetric] by (simp add: Let_def)
qed

text \<open>The error of the product, on the points of the segment.\<close>

lemma dprod_error:
  assumes "\<bar>s - a\<bar> \<le> 5 * of_int M / 2 ^ 64" and "0 \<le> a" and "0 \<le> s" and "precise X M" and "0 \<le> d" and "d \<le> X"
    and "a * of_int d \<le> of_int M"
  shows "\<bar>dprod (double_round s) d - a * of_int d\<bar> \<le> 1 / 16"
proof -
  note p = preciseD [OF assms(4)]
  let ?d = "of_int d :: rat" and ?s = "double_round s" and ?D = "double_round (of_int d)"
  have d: "0 \<le> ?d" "?d \<le> of_int X" using assms(5,6) by simp_all
  have XM: "of_int X * of_int M \<le> (2 ^ 56 :: rat)" using p(4) by (metis of_int_le_iff of_int_mult of_int_numeral of_int_power)
  have "?d * of_int M \<le> of_int X * of_int M" using d p(2) by (intro mult_right_mono) auto
  then have "?d * of_int M \<le> 2 ^ 56" using XM by (rule order.trans)
  then have dM: "?d * (5 * of_int M / 2 ^ 64) \<le> 1 / 50" by (simp add: mult.commute)
  have "\<bar>s - a\<bar> * ?d \<le> 5 * of_int M / 2 ^ 64 * ?d" using assms(1) d by (intro mult_right_mono) auto
  also have "\<dots> \<le> 1 / 50" using dM by (simp only: mult.commute)
  finally have sd: "\<bar>s * ?d - a * ?d\<bar> \<le> 1 / 50" using d by (simp add: abs_mult flip: left_diff_distrib)
  have M: "(of_int M :: rat) \<le> 2 ^ 31" using p(3) by (metis of_int_le_iff of_int_numeral of_int_power)
  have "0 \<le> s * ?d" using assms(3) d by simp
  moreover have "s * ?d \<le> a * ?d + 1 / 50" using sd by linarith
  then have "s * ?d \<le> 2 ^ 31 + 1 / 50" using assms(7) M by linarith
  then have "s * ?d \<le> 2 ^ 32" by simp
  ultimately have sdb: "0 \<le> s * ?d" "s * ?d \<le> 2 ^ 32" by blast+
  have "\<bar>?s * ?D - s * ?d\<bar> \<le> s / 2 ^ 53 * (2 * ?d) + s * (?d / 2 ^ 53)"
  proof (rule product_error)
    show "\<bar>?s - s\<bar> \<le> s / 2 ^ 53" "\<bar>?D - ?d\<bar> \<le> ?d / 2 ^ 53"
      using dbl.rnd_error [of s] dbl.rnd_error [of ?d] assms(3) d by simp_all
    show "\<bar>?D\<bar> \<le> 2 * ?d" using dbl.rnd_twice [of ?d ?d] d by simp
    show "\<bar>s\<bar> \<le> s" using assms(3) by simp
  qed
  also have "\<dots> = 3 * (s * ?d) / 2 ^ 53" by simp
  also have "\<dots> \<le> 3 * 2 ^ 32 / 2 ^ 53" using sdb(2) by (intro divide_right_mono) auto
  also have "\<dots> \<le> 1 / 1000" by simp
  finally have e: "\<bar>?s * ?D - s * ?d\<bar> \<le> 1 / 1000" .
  have "\<bar>?s * ?D - a * ?d\<bar> \<le> 1 / 50 + 1 / 1000" using e sd by linarith
  moreover have "\<bar>?s * ?D\<bar> \<le> 2 ^ 32 + 1" using e sdb by linarith
  then have "\<bar>?s * ?D\<bar> \<le> 2 ^ 33" by simp
  ultimately have "\<bar>dprod ?s d - a * ?d\<bar> \<le> 1 / 50 + 1 / 1000 + 2 ^ 33 / 2 ^ 53" unfolding dprod_def by (rule dbl.rnd_near)
  then show ?thesis by simp
qed

text \<open>
  A segment of the index for the points \<open>S\<close>: its intercept is near the first position and not above all positions, and at every point it predicts
  a position that is too large by at most the error, or too small by at most one more.
\<close>

definition accurate :: "int \<Rightarrow> int \<Rightarrow> point list \<Rightarrow> 'w::len word segment \<Rightarrow> bool" where
  "accurate err M S s \<longleftrightarrow> sg_key s = word_of_int (fst (hd S)) \<and> 0 \<le> sg_slope s \<and> sg_slope s \<le> 4 * of_int M \<and>
     (sg_slope s = 0 \<longleftrightarrow> length S = 1) \<and>
     snd (hd S) - err \<le> sg_intercept s \<and> sg_intercept s \<le> snd (hd S) + err \<and> (\<exists>q\<in>set S. sg_intercept s \<le> snd q) \<and>
     (\<forall>p\<in>set S. snd p - err - 1 \<le> \<lfloor>dprod (sg_slope s) (fst p - fst (hd S))\<rfloor> + sg_intercept s \<and>
       \<lfloor>dprod (sg_slope s) (fst p - fst (hd S))\<rfloor> + sg_intercept s \<le> snd p + err)"

text \<open>Rounding to integers.\<close>

lemmas of_int_simps = of_int_add of_int_diff of_int_1 of_int_numeral

lemma rounded_sum_bounds:
  assumes "\<bar>q - d\<bar> \<le> 1 / 16" and "\<bar>c - g\<bar> \<le> 1 / 5" and "\<bar>g + d - of_int y\<bar> \<le> of_int e"
  shows "y - e - 1 \<le> \<lfloor>q\<rfloor> + round_away c" and "\<lfloor>q\<rfloor> + round_away c \<le> y + e"
proof -
  have f: "of_int \<lfloor>q\<rfloor> \<le> q" "q < of_int \<lfloor>q\<rfloor> + 1" by linarith+
  note r = abs_le_D1 [OF round_away_error [of c]] abs_le_D2 [OF round_away_error [of c]]
  note e = abs_le_D1 [OF assms(1)] abs_le_D2 [OF assms(1)] abs_le_D1 [OF assms(2)] abs_le_D2 [OF assms(2)]
    abs_le_D1 [OF assms(3)] abs_le_D2 [OF assms(3)]
  have "(of_int (y - e - 2) :: rat) < of_int (\<lfloor>q\<rfloor> + round_away c)" using e f(2) r unfolding of_int_simps by linarith
  then show "y - e - 1 \<le> \<lfloor>q\<rfloor> + round_away c" by (simp only: of_int_less_iff)
  have "(of_int (\<lfloor>q\<rfloor> + round_away c) :: rat) < of_int (y + e + 1)" using e f(1) r unfolding of_int_simps by linarith
  then show "\<lfloor>q\<rfloor> + round_away c \<le> y + e" by (simp only: of_int_less_iff)
qed

lemma round_away_bounds:
  assumes "\<bar>c - g\<bar> \<le> 1 / 5"
  shows "of_int a \<le> g \<Longrightarrow> a \<le> round_away c" and "g \<le> of_int b \<Longrightarrow> round_away c \<le> b"
proof -
  note r = abs_le_D1 [OF round_away_error [of c]] abs_le_D2 [OF round_away_error [of c]]
    abs_le_D1 [OF assms] abs_le_D2 [OF assms]
  show "a \<le> round_away c" if "of_int a \<le> g"
  proof -
    have "(of_int (a - 1) :: rat) < of_int (round_away c)" using r that unfolding of_int_simps by linarith
    then show ?thesis by (simp only: of_int_less_iff)
  qed
  show "round_away c \<le> b" if "g \<le> of_int b"
  proof -
    have "(of_int (round_away c) :: rat) < of_int (b + 1)" using r that unfolding of_int_simps by linarith
    then show ?thesis by (simp only: of_int_less_iff)
  qed
qed

lemma accurate_one:
  assumes "segment_ok err cs [p]" and "boxed X Y [p]" and "0 < err" and "precise X (Y + 2 * err)"
  shows "\<exists>s. segment_of_cs cs = Some s \<and> accurate err (Y + 2 * err) [p] s"
proof -
  note pr = preciseD [OF assms(4)]
  have r: "cs_rectangle cs = [upp err p, low err p, upp err p, low err p]" "cs_first cs = fst p"
    using assms(1) by (simp_all add: segment_ok_def corners_def)
  have y: "0 \<le> snd p" "snd p \<le> Y" using assms(2) by (auto simp: boxed_def)
  have "snd (upp err p) + snd (low err p) = 2 * snd p" by (simp add: upp_def low_def)
  then have "(snd (upp err p) + snd (low err p)) sdiv 2 = snd p" using y by (simp add: signed_divide_int_def sgn_if)
  moreover have "ld_of_int (snd p) = of_int (snd p)" unfolding ld_of_int_def by (rule ld.rnd_int) (use y pr assms(3) in simp)
  ultimately have "get_floating_point_segment cs (cs_first cs) = Some (0, of_int (snd p))"
    using r by (simp add: get_floating_point_segment_def one_point_def)
  moreover have "(of_int (snd p) :: rat) \<le> of_int (2 ^ 31 - 1)" using y pr assms(3) by (simp only: of_int_le_iff)
  then have "\<not> (of_int (snd p) :: rat) > 2 ^ 31 - 1" by simp
  moreover have "int_of_fp 32 (of_int (snd p)) = Some (snd p)" using y pr assms(3) by (simp add: int_of_fp_def Let_def)
  ultimately have "segment_of_cs cs = Some \<lparr>sg_key = word_of_int (fst p), sg_slope = 0, sg_intercept = snd p\<rparr>"
    using r(2) by (simp add: segment_of_cs_def)
  moreover have "0 \<le> (of_int Y :: rat)" "0 < (of_int err :: rat)" using y assms(3) by simp_all
  ultimately show ?thesis using assms(3) by (auto simp: accurate_def dprod_def)
qed

lemma near_double: "\<bar>s - a\<bar> \<le> 5 * m / 2 ^ 64 \<Longrightarrow> a \<le> m \<Longrightarrow> 1 \<le> m \<Longrightarrow> s \<le> 2 * (m :: rat)"
  unfolding pow64 by linarith

lemma accurate_wide:
  assumes w: "wide_segment err cs S X Y p0 p1 p2 p3" and "precise X (Y + 2 * err)" and "length S \<noteq> 1"
  shows "\<exists>s. segment_of_cs cs = Some s \<and> accurate err (Y + 2 * err) S s"
proof -
  note p = preciseD [OF assms(2)] and d = wide_segmentD [OF w]
  let ?M = "Y + 2 * err" and ?k = "fst (hd S)"
  let ?g = "ev (cs_line cs) (of_int ?k)"
  have k: "0 \<le> ?k" "?k \<le> X" using d(16) [OF hd_in_set [OF d(7)]] by auto
  obtain s c where sc: "get_floating_point_segment cs ?k = Some (s, c)" "\<bar>s - cs_slope cs\<bar> \<le> 5 * of_int ?M / 2 ^ 64"
      "\<bar>c - ?g\<bar> \<le> 50 * (of_int X * of_int ?M) / 2 ^ 64"
    using floating_point_segment_error [OF w assms(2) k] by blast
  have XM: "of_int X * of_int ?M \<le> (2 ^ 56 :: rat)" using p(4) by (metis of_int_le_iff of_int_mult of_int_numeral of_int_power)
  then have "50 * (of_int X * of_int ?M) / 2 ^ 64 \<le> (1 / 5 :: rat)" by simp
  with sc(3) have c: "\<bar>c - ?g\<bar> \<le> 1 / 5" by (rule order.trans)
  note sl = cs_slope_bounds [OF w, of]
  have X: "0 < X" using p(1) by simp
  have pos: "0 < s"
  proof -
    have "of_int X * (5 * of_int ?M / 2 ^ 64) = 5 * (of_int X * of_int ?M) / (2 ^ 64 :: rat)" by simp
    also have "\<dots> \<le> 5 * 2 ^ 56 / 2 ^ 64" using XM by (intro divide_right_mono mult_left_mono) auto
    also have "\<dots> < 1" by simp
    finally have "5 * of_int ?M / 2 ^ 64 < (1 :: rat) / of_int X" using X by (simp add: less_divide_eq mult.commute)
    then have "5 * of_int ?M / 2 ^ 64 < cs_slope cs" using sl(1) [OF X] by (rule order.strict_trans2)
    then show ?thesis using sc(2) by linarith
  qed
  have M: "1 \<le> (of_int ?M :: rat)" using p(2) by (simp only: of_int_1_le_iff)
  have "s \<le> 2 * of_int ?M" using sc(2) sl(2) [OF X] M by (rule near_double)
  then have s4: "double_round s \<le> 4 * of_int ?M" using dbl.rnd_twice [of s "2 * of_int ?M"] pos by (simp add: abs_le_iff)
  obtain q where q: "q \<in> set S" "?g \<le> of_int (snd q)" using cs_line_start [OF w] by blast
  have nh: "near err (cs_line cs) (hd S)" using cs_line_near [OF w hd_in_set [OF d(7)]] .
  then have "of_int (snd (hd S) - err) \<le> ?g" "?g \<le> of_int (snd (hd S) + err)" by (auto simp: near_def abs_le_iff)
  then have C: "snd (hd S) - err \<le> round_away c" "round_away c \<le> snd (hd S) + err" "round_away c \<le> snd q"
    using round_away_bounds [OF c] q(2) by blast+
  have y: "0 \<le> snd (hd S)" "snd q \<le> Y" using d(16) [OF hd_in_set [OF d(7)]] d(16) [OF q(1)] by auto
  have i32: "int_of_fp 32 (of_int (round_away c)) = Some (round_away c)" using C y p d(1) by (simp add: int_of_fp_def Let_def)
  have "c \<le> of_int (snd q) + 1 / 5" using abs_le_D1 [OF c] q(2) by linarith
  moreover have "(of_int (snd q) :: rat) \<le> of_int (2 ^ 31 - 2)" using y p d(1) by (simp only: of_int_le_iff)
  ultimately have "\<not> c > 2 ^ 31 - 1" by simp
  then have seg: "segment_of_cs cs = Some \<lparr>sg_key = word_of_int ?k, sg_slope = double_round s, sg_intercept = round_away c\<rparr>"
    using i32 sc(1) d(8) by (simp add: segment_of_cs_def)
  have "snd p - err - 1 \<le> \<lfloor>dprod (double_round s) (fst p - ?k)\<rfloor> + round_away c \<and>
      \<lfloor>dprod (double_round s) (fst p - ?k)\<rfloor> + round_away c \<le> snd p + err" if "p \<in> set S" for p
  proof -
    have x: "0 \<le> fst p - ?k" "fst p - ?k \<le> X" using d(16) [OF that] rising_hd [OF d(6) that] k by auto
    have e: "ev (cs_line cs) (of_int (fst p)) = ?g + cs_slope cs * of_int (fst p - ?k)"
      using ev_from [of "cs_line cs" "of_int (fst p)" "of_int ?k"] by (simp add: cs_line_def)
    have np: "near err (cs_line cs) p" using cs_line_near [OF w that] .
    have "cs_slope cs * of_int (fst p - ?k) \<le> of_int (snd p + err) - of_int (snd (hd S) - err)"
      using np nh e unfolding near_def by (simp add: abs_le_iff)
    also have "\<dots> \<le> of_int ?M" using d(16) [OF that] y unfolding of_int_diff [symmetric] of_int_le_iff by linarith
    finally have "cs_slope cs * of_int (fst p - ?k) \<le> of_int ?M" .
    moreover have "0 \<le> cs_slope cs" using sl(1) [OF X] X by (meson divide_nonneg_pos of_int_0_less_iff order.trans zero_le_one)
    ultimately have "\<bar>dprod (double_round s) (fst p - ?k) - cs_slope cs * of_int (fst p - ?k)\<bar> \<le> 1 / 16"
      using pos by (intro dprod_error [OF sc(2) _ _ assms(2) x]) auto
    from rounded_sum_bounds [OF this c] np show ?thesis unfolding near_def e by blast
  qed
  moreover have "0 < double_round s" using dbl.rnd_pos [OF pos] by simp
  moreover have "\<exists>q\<in>set S. round_away c \<le> snd q" using C(3) q(1) by blast
  ultimately have "accurate err ?M S \<lparr>sg_key = word_of_int ?k, sg_slope = double_round s, sg_intercept = round_away c\<rparr>"
    using s4 C assms(3) unfolding accurate_def by simp
  then show ?thesis using seg by blast
qed

lemma segment_of_cs_accurate:
  assumes "segment_ok err cs S" and "rising S" and "0 < err" and "boxed X Y S" and "precise X (Y + 2 * err)"
  shows "\<exists>s. segment_of_cs cs = Some s \<and> accurate err (Y + 2 * err) S s"
proof (cases "length S = 1")
  case True
  then obtain p where "S = [p]" by (cases S) auto
  then show ?thesis using accurate_one assms by simp
next
  case False
  then show ?thesis using wide_segmentI [OF assms(1-4) False] accurate_wide assms(5) by blast
qed

end
