(* ===== verification/Pgm_Levels.thy ===== *)
theory Pgm_Levels
  imports Segment_Accuracy
begin

text \<open>
  The levels of the PGM-index: what a segmentation and \<^verbatim>\<open>back_check\<close> make of a sequence of keys, that every level has fewer
  segments than the level below, so that building ends, and how the levels lie in the vector of segments.
\<close>

subsection \<open>Sequences of keys with their positions\<close>

definition inp_ok :: "int \<Rightarrow> (nat \<Rightarrow> point) \<Rightarrow> nat \<Rightarrow> bool" where
  "inp_ok X inp n \<longleftrightarrow> (\<forall>j<n. snd (inp j) = int j \<and> 0 \<le> fst (inp j) \<and> fst (inp j) \<le> X) \<and>
     (\<forall>j. j + 1 < n \<longrightarrow> fst (inp j) \<le> fst (inp (j + 1)))"

lemma inp_okD:
  assumes "inp_ok X inp n" and "j < n"
  shows "snd (inp j) = int j" "0 \<le> fst (inp j)" "fst (inp j) \<le> X"
  using assms by (auto simp: inp_ok_def)

lemma inp_mono:
  assumes "inp_ok X inp n" and "i \<le> j" and "j < n"
  shows "fst (inp i) \<le> fst (inp j)"
  using assms(2,3)
proof (induction j rule: dec_induct)
  case (step j)
  then have "fst (inp j) \<le> fst (inp (Suc j))" using assms(1) by (simp add: inp_ok_def)
  then show ?case using step by simp
qed simp

lemma kept_rising:
  assumes "inp_ok X inp n" and "b \<le> n"
  shows "rising (kept inp a b)"
  unfolding rising_def kept_def sorted_wrt_map
proof (rule sorted_wrt_mono_rel [OF _ sorted_wrt_filter [OF sorted_wrt_upt]])
  fix i j assume m: "i \<in> set (filter (\<lambda>i. i = a \<or> fst (inp (i - 1)) \<noteq> fst (inp i)) [a..<b])"
    "j \<in> set (filter (\<lambda>i. i = a \<or> fst (inp (i - 1)) \<noteq> fst (inp i)) [a..<b])" and "i < j"
  then have "fst (inp (j - 1)) \<noteq> fst (inp j)" "i \<le> j - 1" "j < n" using assms(2) by auto
  moreover from this have "fst (inp i) \<le> fst (inp (j - 1))" "fst (inp (j - 1)) \<le> fst (inp j)"
    using inp_mono [OF assms(1)] by auto
  ultimately show "fst (inp i) < fst (inp j) \<and> snd (inp i) < snd (inp j)"
    using \<open>i < j\<close> inp_okD(1) [OF assms(1)] by auto
qed

lemma kept_boxed: "inp_ok X inp n \<Longrightarrow> b \<le> n \<Longrightarrow> int n \<le> Y + 1 \<Longrightarrow> boxed X Y (kept inp a b)"
  by (auto simp: boxed_def kept_def inp_ok_def)

text \<open>A constant approximates the positions of a short range, so segments are long.\<close>

lemma short_feasible:
  assumes "inp_ok X inp n" and "b \<le> n" and "int b \<le> int a + 2 * err + 1"
  shows "feasible err (kept inp a b)"
proof -
  have "near err (0, of_int (int a + err)) p" if p: "p \<in> set (kept inp a b)" for p
  proof -
    obtain j where j: "p = inp j" "a \<le> j" "j < b" using p by (auto simp: kept_def)
    then have y: "snd p = int j" using inp_okD(1) [OF assms(1)] assms(2) by simp
    have "\<bar>int a + err - int j\<bar> \<le> err" using j assms(3) by linarith
    then have "\<bar>of_int (int a + err - int j) :: rat\<bar> \<le> of_int err" by (simp only: of_int_abs [symmetric] of_int_le_iff)
    then show ?thesis by (simp add: near_def ev_def y)
  qed
  then show ?thesis unfolding feasible_def by blast
qed

text \<open>The positions where the segments of a segmentation start.\<close>

lemma greedy_starts:
  assumes "greedy err inp n a segs"
  shows "\<exists>st. st 0 = a \<and> st (length segs) = n \<and> segs \<noteq> [] \<and> (\<forall>i<length segs. st i < st (Suc i) \<and> st (Suc i) \<le> n \<and>
    fst (segs ! i) = st i \<and> segment_ok err (snd (snd (segs ! i))) (kept inp (st i) (st (Suc i))) \<and>
    (Suc i < length segs \<longrightarrow> \<not> feasible err (kept inp (st i) (Suc (st (Suc i)))) \<and> fst (inp (st (Suc i) - 1)) \<noteq> fst (inp (st (Suc i)))))"
  using assms
proof (induction segs arbitrary: a)
  case (Cons seg segs)
  obtain b cs where seg: "seg = (a, b, cs)" "a < b" "b \<le> n" "segment_ok err cs (kept inp a b)" using Cons.prems by (cases seg) auto
  show ?case
  proof (cases "segs = []")
    case True
    then show ?thesis using Cons.prems seg by (intro exI [of _ "\<lambda>i. if i = 0 then a else n"]) auto
  next
    case False
    then have g: "\<not> feasible err (kept inp a (Suc b))" "fst (inp (b - 1)) \<noteq> fst (inp b)" "greedy err inp n b segs"
      using Cons.prems seg by auto
    from Cons.IH [OF g(3)] obtain st where st: "st 0 = b" "st (length segs) = n" "\<forall>i<length segs. st i < st (Suc i) \<and> st (Suc i) \<le> n \<and>
      fst (segs ! i) = st i \<and> segment_ok err (snd (snd (segs ! i))) (kept inp (st i) (st (Suc i))) \<and>
      (Suc i < length segs \<longrightarrow> \<not> feasible err (kept inp (st i) (Suc (st (Suc i)))) \<and> fst (inp (st (Suc i) - 1)) \<noteq> fst (inp (st (Suc i))))"
      by blast
    show ?thesis
    proof (intro exI [of _ "\<lambda>i. case i of 0 \<Rightarrow> a | Suc j \<Rightarrow> st j"] conjI allI impI)
      fix i assume i: "i < length (seg # segs)"
      show "(case i of 0 \<Rightarrow> a | Suc j \<Rightarrow> st j) < (case Suc i of 0 \<Rightarrow> a | Suc j \<Rightarrow> st j)"
        and "(case Suc i of 0 \<Rightarrow> a | Suc j \<Rightarrow> st j) \<le> n"
        and "fst ((seg # segs) ! i) = (case i of 0 \<Rightarrow> a | Suc j \<Rightarrow> st j)"
        and "segment_ok err (snd (snd ((seg # segs) ! i))) (kept inp (case i of 0 \<Rightarrow> a | Suc j \<Rightarrow> st j) (case Suc i of 0 \<Rightarrow> a | Suc j \<Rightarrow> st j))"
        using i st seg by (cases i; simp)+
      assume s: "Suc i < length (seg # segs)"
      show "\<not> feasible err (kept inp (case i of 0 \<Rightarrow> a | Suc j \<Rightarrow> st j) (Suc (case Suc i of 0 \<Rightarrow> a | Suc j \<Rightarrow> st j)))"
        and "fst (inp ((case Suc i of 0 \<Rightarrow> a | Suc j \<Rightarrow> st j) - 1)) \<noteq> fst (inp (case Suc i of 0 \<Rightarrow> a | Suc j \<Rightarrow> st j))"
        using s st g by (cases i; simp)+
    qed (use st in auto)
  qed
qed simp

subsection \<open>One level\<close>

text \<open>
  The segments \<open>new\<close> made of the first \<open>n\<close> keys, starting at the positions \<open>st\<close>, and the level with the segment that \<^verbatim>\<open>back_check\<close> may add.
\<close>

definition built :: "int \<Rightarrow> int \<Rightarrow> (nat \<Rightarrow> point) \<Rightarrow> nat \<Rightarrow> 'w::len word segment list \<Rightarrow> (nat \<Rightarrow> nat) \<Rightarrow> bool" where
  "built err M inp n new st \<longleftrightarrow> new \<noteq> [] \<and> st 0 = 0 \<and> st (length new) = n \<and>
     (\<forall>i<length new. st i < st (Suc i) \<and> st (Suc i) \<le> n \<and> accurate err M (kept inp (st i) (st (Suc i))) (new ! i) \<and>
        (Suc i < length new \<longrightarrow> int (st i) + 2 * err + 1 \<le> int (st (Suc i)) \<and> fst (inp (st (Suc i) - 1)) \<noteq> fst (inp (st (Suc i)))))"

definition extra_segment :: "'w::len word \<Rightarrow> nat \<Rightarrow> 'w word segment" where
  "extra_segment last_key n = \<lparr>sg_key = last_key + 1, sg_slope = 0, sg_intercept = int n\<rparr>"

definition padded :: "'w::len word \<Rightarrow> nat \<Rightarrow> 'w word segment list \<Rightarrow> 'w word segment list" where
  "padded last_key n new = new @ (if sg_slope (last new) = 0 then [extra_segment last_key n] else [])"

lemma builtD:
  assumes "built err M inp n new st"
  shows "new \<noteq> []" "st 0 = 0" "st (length new) = n" "i < length new \<Longrightarrow> st i < st (Suc i)" "i < length new \<Longrightarrow> st (Suc i) \<le> n"
    "i < length new \<Longrightarrow> accurate err M (kept inp (st i) (st (Suc i))) (new ! i)"
    "Suc i < length new \<Longrightarrow> int (st i) + 2 * err + 1 \<le> int (st (Suc i))"
    "Suc i < length new \<Longrightarrow> fst (inp (st (Suc i) - 1)) \<noteq> fst (inp (st (Suc i)))"
  using assms unfolding built_def by (simp_all add: Suc_lessD)

lemma built_starts:
  assumes "built err M inp n new st" and "i \<le> j" and "j \<le> length new"
  shows "st i \<le> st j"
  using assms(2,3)
proof (induction j rule: dec_induct)
  case (step j)
  then show ?case using builtD(4) [OF assms(1), of j] by simp
qed simp

lemma those_map:
  assumes "\<And>i. i < length xs \<Longrightarrow> \<exists>y. f (xs ! i) = Some y \<and> P i y"
  shows "\<exists>ys. those (map f xs) = Some ys \<and> length ys = length xs \<and> (\<forall>i<length xs. P i (ys ! i))"
  using assms
proof (induction xs arbitrary: P)
  case (Cons x xs)
  obtain y where y: "f x = Some y" "P 0 y" using Cons.prems [of 0] by auto
  have "\<exists>ys. those (map f xs) = Some ys \<and> length ys = length xs \<and> (\<forall>i<length xs. P (Suc i) (ys ! i))"
    using Cons.prems [of "Suc _"] by (intro Cons.IH) auto
  then obtain ys where "those (map f xs) = Some ys" "length ys = length xs" "\<forall>i<length xs. P (Suc i) (ys ! i)" by blast
  then show ?case using y by (intro exI [of _ "y # ys"]) (auto simp: nth_Cons split: nat.split)
qed simp

lemma segments_built:
  assumes "greedy err inp n 0 css" and "inp_ok X inp n" and "int n \<le> Y + 1" and "precise X (Y + 2 * err)" and "0 < err"
  shows "\<exists>(new :: 'w::len word segment list) st. those (map (\<lambda>(_, _, cs). segment_of_cs cs) css) = Some new \<and> built err (Y + 2 * err) inp n new st \<and>
    length new = length css"
proof -
  obtain st where st: "st 0 = 0" "st (length css) = n" "css \<noteq> []" "\<forall>i<length css. st i < st (Suc i) \<and> st (Suc i) \<le> n \<and>
      fst (css ! i) = st i \<and> segment_ok err (snd (snd (css ! i))) (kept inp (st i) (st (Suc i))) \<and>
      (Suc i < length css \<longrightarrow> \<not> feasible err (kept inp (st i) (Suc (st (Suc i)))) \<and> fst (inp (st (Suc i) - 1)) \<noteq> fst (inp (st (Suc i))))"
    using greedy_starts [OF assms(1)] by blast
  have "\<exists>s :: 'w word segment. (\<lambda>(_, _, cs). segment_of_cs cs) (css ! i) = Some s \<and> accurate err (Y + 2 * err) (kept inp (st i) (st (Suc i))) s"
    if i: "i < length css" for i
  proof -
    have "st (Suc i) \<le> n" "segment_ok err (snd (snd (css ! i))) (kept inp (st i) (st (Suc i)))" using st(4) i by blast+
    then show ?thesis
      using segment_of_cs_accurate [OF _ kept_rising [OF assms(2)] assms(5) kept_boxed [OF assms(2) _ assms(3)] assms(4)]
      by (cases "css ! i") auto
  qed
  from those_map [of css "\<lambda>(_, _, cs). segment_of_cs cs", where P = "\<lambda>i. accurate err (Y + 2 * err) (kept inp (st i) (st (Suc i)))", OF this]
  obtain new :: "'w word segment list" where new: "those (map (\<lambda>(_, _, cs). segment_of_cs cs) css) = Some new" "length new = length css"
      "\<forall>i<length css. accurate err (Y + 2 * err) (kept inp (st i) (st (Suc i))) (new ! i)" by blast
  have long: "int (st i) + 2 * err + 1 \<le> int (st (Suc i))" if i: "Suc i < length css" for i
  proof (rule ccontr)
    assume "\<not> ?thesis"
    moreover have "st (Suc i) < st (Suc (Suc i))" "st (Suc (Suc i)) \<le> n" using st(4) i by blast+
    then have "Suc (st (Suc i)) \<le> n" by simp
    ultimately have "feasible err (kept inp (st i) (Suc (st (Suc i))))" by (intro short_feasible [OF assms(2)]) auto
    then show False using st(4) i by (meson Suc_lessD)
  qed
  have "built err (Y + 2 * err) inp n new st" unfolding built_def new(2) using st new(2,3) long by auto
  then show ?thesis using new(1,2) by blast
qed

lemma push_level_result:
  fixes last_key :: "'w::len word"
  assumes "greedy err inp n 0 css" and "inp_ok X inp n" and "int n \<le> Y + 1" and "precise X (Y + 2 * err)" and "0 < err"
  shows "\<exists>new st. built err (Y + 2 * err) inp n new st \<and>
    push_level last_key n css segs = Some (segs @ padded last_key n new @ [segment_sentinel n], length (padded last_key n new))"
proof -
  obtain new :: "'w word segment list" and st where new: "those (map (\<lambda>(_, _, cs). segment_of_cs cs) css) = Some new" "built err (Y + 2 * err) inp n new st"
      "length new = length css"
    using segments_built [OF assms] by blast
  have n: "int n \<le> 2 ^ 31 - 1" using preciseD(3) [OF assms(4)] assms(3,5) by linarith
  have "double_round (of_nat n) = of_nat n" by (rule double.rnd_nat) (use n in simp)
  moreover have "int_of_fp 32 (of_nat n) = Some (int n)" using n by (simp add: int_of_fp_def Let_def)
  ultimately have "segment_const (last_key + 1) 0 (double_round (of_nat n)) = Some (extra_segment last_key n)"
    by (simp add: segment_const_def extra_segment_def)
  then have "push_level last_key n css segs = Some (segs @ padded last_key n new @ [segment_sentinel n], length (padded last_key n new))"
    using new(1,3) builtD(1) [OF new(2)] by (simp add: push_level_def back_check_def padded_def)
  then show ?thesis using new(2) by blast
qed

subsection \<open>The keys of a level\<close>

text \<open>
  The keys of the segments increase, strictly up to the last key of the data; after it there is at most its successor, at most twice.
\<close>

definition keys_ok :: "'w::len word \<Rightarrow> 'w word \<Rightarrow> 'w word segment list \<Rightarrow> bool" where
  "keys_ok first_key last_key ss \<longleftrightarrow> ss \<noteq> [] \<and> sg_key (ss ! 0) = first_key \<and>
     (\<forall>i<length ss. uint (sg_key (ss ! i)) \<le> uint last_key + 1) \<and>
     (\<forall>i j. i < j \<and> j < length ss \<longrightarrow> sg_key (ss ! i) \<le> sg_key (ss ! j) \<and> (sg_key (ss ! i) \<le> last_key \<longrightarrow> sg_key (ss ! i) < sg_key (ss ! j)))"

definition level_inp :: "'w::len word segment list \<Rightarrow> nat \<Rightarrow> point" where
  "level_inp ss i = (uint (sg_key (ss ! i)), int i)"

lemma kept_first: "a < b \<Longrightarrow> fst (hd (kept inp a b)) = fst (inp a)" "a < b \<Longrightarrow> snd (hd (kept inp a b)) = snd (inp a)"
  by (simp_all add: hd_kept)

lemma built_key:
  fixes new :: "'w::len word segment list"
  assumes "built err M inp n new st" and "inp_ok X inp n" and "X < 2 ^ LENGTH('w)" and "i < length new"
  shows "uint (sg_key (new ! i)) = fst (inp (st i))"
proof -
  note b = builtD(4,5,6) [OF assms(1) assms(4)]
  have "st i < n" using b by simp
  then have "0 \<le> fst (inp (st i))" "fst (inp (st i)) < 2 ^ LENGTH('w)" using inp_okD(2,3) [OF assms(2)] assms(3) by (auto intro: order.strict_trans1)
  moreover have "sg_key (new ! i) = word_of_int (fst (inp (st i)))" using b by (simp add: accurate_def kept_first)
  ultimately show ?thesis by (simp add: uint_word_of_int_eq take_bit_int_eq_self)
qed

lemma built_step:
  assumes "built err M inp n new st" and "inp_ok X inp n" and "i < j" and "j < length new"
  shows "fst (inp (st i)) < fst (inp (st j))"
proof -
  obtain k where j: "j = Suc k" using assms(3) by (cases j) auto
  have "st i \<le> st k" "st k < st j" "st j < n"
    using built_starts [OF assms(1), of i k] builtD(4,5) [OF assms(1), of k] builtD(4,5) [OF assms(1), of j] assms(3,4) j by auto
  then have "st i \<le> st j - 1" "st j - 1 < n" "st j < n" by simp_all
  then have "fst (inp (st i)) \<le> fst (inp (st j - 1))" "fst (inp (st j - 1)) \<le> fst (inp (st j))"
    using inp_mono [OF assms(2)] by auto
  then show ?thesis using builtD(8) [OF assms(1), of k] assms(4) j by simp
qed

lemma uint_succ:
  fixes x :: "'w::len word"
  assumes "x \<noteq> - 1"
  shows "uint (x + 1) = uint x + 1"
proof -
  have "uint x \<noteq> 2 ^ LENGTH('w) - 1"
    using assms word_uint_eq_iff [of x "- 1"] by (simp add: unsigned_minus_1_eq_mask mask_eq_exp_minus_1)
  moreover have "0 \<le> uint x" "uint x < 2 ^ LENGTH('w)" by simp_all
  ultimately have "0 \<le> uint x + 1 \<and> uint x + 1 < 2 ^ LENGTH('w)" by linarith
  then show ?thesis by (simp add: uint_word_ariths(1) take_bit_int_eq_self)
qed

lemma padded_keys:
  fixes last_key :: "'w::len word"
  assumes b: "built err M inp n new st" and i: "inp_ok X inp n" and X: "X < 2 ^ LENGTH('w)"
    and first: "fst (inp 0) = uint first_key" and up: "\<forall>j<n. fst (inp j) \<le> uint last_key + 1" and max: "last_key \<noteq> - 1"
  shows "keys_ok first_key last_key (padded last_key n new)"
proof -
  note key = built_key [OF b i X]
  have succ: "uint (last_key + 1) = uint last_key + 1" using max by (rule uint_succ)
  have bound: "uint (sg_key (new ! j)) \<le> uint last_key + 1" if "j < length new" for j
    using key [OF that] up builtD(4,5) [OF b that] by auto
  have ext: "uint (sg_key (extra_segment last_key n)) = uint last_key + 1" by (simp add: extra_segment_def succ)
  show ?thesis
    unfolding keys_ok_def
  proof (intro conjI allI impI)
    show "padded last_key n new \<noteq> []" using builtD(1) [OF b] by (simp add: padded_def)
    show "sg_key (padded last_key n new ! 0) = first_key"
      using key [of 0] builtD(1,2) [OF b] first by (simp add: padded_def nth_append word_uint_eq_iff)
    show "uint (sg_key (padded last_key n new ! j)) \<le> uint last_key + 1" if "j < length (padded last_key n new)" for j
      using that bound ext by (auto simp: padded_def nth_append less_Suc_eq split: if_splits)
  next
    fix i' j assume ij: "i' < j \<and> j < length (padded last_key n new)"
    have "uint (sg_key (padded last_key n new ! i')) < uint (sg_key (padded last_key n new ! j)) \<or>
       uint (sg_key (padded last_key n new ! i')) \<le> uint last_key + 1 \<and> uint (sg_key (padded last_key n new ! j)) = uint last_key + 1"
    proof (cases "j < length new")
      case True
      then show ?thesis using ij key built_step [OF b i, of i' j] by (simp add: padded_def nth_append)
    next
      case False
      then have "j = length new" "i' < length new" "padded last_key n new ! j = extra_segment last_key n"
        using ij by (auto simp: padded_def nth_append split: if_splits)
      then show ?thesis using bound ext by (simp add: padded_def nth_append)
    qed
    then show "sg_key (padded last_key n new ! i') \<le> sg_key (padded last_key n new ! j)"
      and "sg_key (padded last_key n new ! i') \<le> last_key \<Longrightarrow> sg_key (padded last_key n new ! i') < sg_key (padded last_key n new ! j)"
      by (auto simp: word_le_def word_less_def)
  qed
qed

lemma level_inp_ok:
  assumes "keys_ok first_key last_key ss" and "uint last_key + 1 \<le> X"
  shows "inp_ok X (level_inp ss) (length ss)"
  using assms unfolding inp_ok_def level_inp_def keys_ok_def by (auto simp: word_le_def intro: order.trans)

lemma built_cong:
  assumes "built err M inp n new st" and "\<forall>j<n. inp j = inp' j"
  shows "built err M inp' n new st"
proof -
  have k: "kept inp (st i) (st (Suc i)) = kept inp' (st i) (st (Suc i))" if "i < length new" for i
    using builtD(5) [OF assms(1) that] assms(2) unfolding kept_def by (intro map_cong filter_cong) auto
  have "inp (st (Suc i) - 1) = inp' (st (Suc i) - 1) \<and> inp (st (Suc i)) = inp' (st (Suc i))" if "Suc i < length new" for i
    using builtD(4,5) [OF assms(1) that] assms(2) by auto
  then show ?thesis using assms(1) k unfolding built_def by auto
qed

text \<open>A level of two or more different keys has fewer segments than keys.\<close>

lemma level_shrinks:
  assumes b: "built err M inp n new st" and "0 < err" and "fst (inp 0) < fst (inp (n - 1))" and "0 < n"
  shows "length (padded last_key n new) < n"
proof -
  have st: "3 * i \<le> st i" if "i < length new" for i
    using that
  proof (induction i)
    case (Suc i)
    then show ?case using builtD(7) [OF b Suc.prems] assms(2) by simp
  qed simp
  obtain m where m: "length new = Suc m" using builtD(1) [OF b] by (cases new) auto
  have n: "3 * m + 1 \<le> n" using st [of m] builtD(3) [OF b] builtD(4) [OF b, of m] m by simp
  show ?thesis
  proof (cases m)
    case 0
    then have "accurate err M (kept inp 0 n) (last new)"
      using builtD(6) [OF b, of 0] builtD(1-3) [OF b] m by (simp add: last_conv_nth)
    moreover have "length (kept inp 0 n) \<noteq> 1"
    proof
      assume "length (kept inp 0 n) = 1"
      then obtain p where "kept inp 0 n = [p]" by (auto simp: length_Suc_conv)
      then show False using kept_last [OF assms(4), of inp] hd_kept [OF assms(4), of inp] assms(3) by simp
    qed
    ultimately have "sg_slope (last new) \<noteq> 0" by (simp add: accurate_def)
    moreover have "n \<noteq> 1" using assms(3) by auto
    ultimately show ?thesis using m 0 assms(4) by (simp add: padded_def)
  qed (use m n in \<open>simp add: padded_def\<close>)
qed

subsection \<open>The tower of levels\<close>

text \<open>
  The levels above \<open>ss\<close>, from the bottom to the top, which has one segment; how they follow each other in the vector, where the
  segments of each level are followed by a sentinel; and the offsets where they end.
\<close>

definition next_level :: "int \<Rightarrow> int \<Rightarrow> 'w::len word \<Rightarrow> 'w word segment list \<Rightarrow> 'w word segment list \<Rightarrow> bool" where
  "next_level err M last_key ss tt \<longleftrightarrow>
     (\<exists>new st. built err M (level_inp ss) (length ss) new st \<and> tt = padded last_key (length ss) new)"

fun tower :: "int \<Rightarrow> int \<Rightarrow> 'w::len word \<Rightarrow> 'w word segment list \<Rightarrow> 'w word segment list list \<Rightarrow> bool" where
  "tower err M last_key ss [] \<longleftrightarrow> length ss = 1"
| "tower err M last_key ss (tt # rest) \<longleftrightarrow> next_level err M last_key ss tt \<and> length tt < length ss \<and> tower err M last_key tt rest"

fun flat :: "nat \<Rightarrow> 'w::len word segment list list \<Rightarrow> 'w word segment list" where
  "flat n [] = []"
| "flat n (ss # rest) = ss @ [segment_sentinel n] @ flat (length ss) rest"

fun level_ends :: "nat \<Rightarrow> 'w::len word segment list list \<Rightarrow> nat list" where
  "level_ends off [] = []"
| "level_ends off (ss # rest) = (off + length ss + 1) # level_ends (off + length ss + 1) rest"

lemma next_level_keys:
  fixes last_key :: "'w::len word"
  assumes "next_level err M last_key ss tt" and "keys_ok first_key last_key ss" and "uint last_key + 1 < 2 ^ LENGTH('w)"
  shows "keys_ok first_key last_key tt"
proof -
  obtain new st where n: "built err M (level_inp ss) (length ss) new st" "tt = padded last_key (length ss) new"
    using assms(1) by (auto simp: next_level_def)
  have "keys_ok first_key last_key (padded last_key (length ss) new)"
  proof (rule padded_keys [OF n(1) level_inp_ok [OF assms(2) order_refl] assms(3)])
    show "last_key \<noteq> - 1" using assms(3) by (auto simp: unsigned_minus_1_eq_mask mask_eq_exp_minus_1)
  qed (use assms(2) in \<open>auto simp: level_inp_def keys_ok_def\<close>)
  then show ?thesis using n(2) by simp
qed

lemma next_level_exists:
  fixes last_key :: "'w::len word"
  assumes "keys_ok first_key last_key ss" and "first_key \<le> last_key" and "uint last_key + 1 \<le> X" and "X < 2 ^ LENGTH('w)" and "0 < R"
    and "precise X (Y + 2 * int R)" and "int (length ss) \<le> Y + 1" and "1 < length ss"
    and "segs = pre @ ss @ [segment_sentinel n]"
  shows "\<exists>css tt. make_segmentation (length ss) (int R) (in_fun_rec segs (length pre)) = Some css \<and>
    push_level last_key (length ss) css segs = Some (segs @ tt @ [segment_sentinel (length ss)], length tt) \<and>
    next_level (int R) (Y + 2 * int R) last_key ss tt \<and> length tt < length ss"
proof -
  let ?inp = "in_fun_rec segs (length pre)" and ?n = "length ss"
  note p = preciseD [OF assms(6)]
  have inp: "\<forall>j<?n. ?inp j = level_inp ss j" by (auto simp: in_fun_rec_def level_inp_def assms(9) nth_append)
  have ok: "inp_ok X (level_inp ss) ?n" using level_inp_ok [OF assms(1,3)] .
  then have ok': "inp_ok X ?inp ?n" using inp by (auto simp: inp_ok_def)
  have "pos_ok (?inp j)" if "j < ?n" for j
    using inp_okD [OF ok' that] that assms(7) p by (auto simp: pos_ok_def)
  moreover have "fst (?inp j) \<le> fst (?inp (j + 1))" if "j + 1 < ?n" for j using ok' that by (auto simp: inp_ok_def)
  ultimately have "\<exists>css. make_segmentation ?n (int R) ?inp = Some css \<and> greedy (int R) ?inp ?n 0 css"
    using assms(5,7,8) p(3) by (intro make_segmentation_greedy) auto
  then obtain css where css: "make_segmentation ?n (int R) ?inp = Some css" "greedy (int R) ?inp ?n 0 css" by blast
  obtain new st where new: "built (int R) (Y + 2 * int R) ?inp ?n new st"
      "push_level last_key ?n css segs = Some (segs @ padded last_key ?n new @ [segment_sentinel ?n], length (padded last_key ?n new))"
    using push_level_result [OF css(2) ok' assms(7,6), of last_key segs] assms(5) by auto
  note b = built_cong [OF new(1) inp]
  have "sg_key (ss ! 0) < sg_key (ss ! (?n - 1))" using assms(1,2,8) by (auto simp: keys_ok_def)
  then have "length (padded last_key ?n new) < ?n"
    using assms(5,8) by (intro level_shrinks [OF b]) (auto simp: level_inp_def word_less_def)
  then show ?thesis using css(1) new(2) b by (auto simp: next_level_def)
qed

lemma build_upper_result:
  fixes last_key :: "'w::len word"
  assumes "first_key \<le> last_key" and "uint last_key + 1 \<le> X" and "X < 2 ^ LENGTH('w)" and "0 < R"
    and "precise X (Y + 2 * int R)" and "int (length ss) \<le> Y + 1" and "keys_ok first_key last_key ss"
    and "segs = pre @ ss @ [segment_sentinel n]" and "offsets = offs @ [length pre, length segs]"
  shows "\<exists>rest. tower (int R) (Y + 2 * int R) last_key ss rest \<and>
    build_upper R last_key (length ss) segs sizes offsets =
      Some (segs @ flat (length ss) rest, sizes @ map length rest, offsets @ level_ends (length segs) rest)"
  using assms(6-)
proof (induction "length ss" arbitrary: ss pre n segs offs offsets sizes rule: less_induct)
  case less
  show ?case
  proof (cases "length ss > 1")
    case False
    then have "length ss = 1" using less.prems(2) by (cases ss) (auto simp: keys_ok_def)
    then show ?thesis by (intro exI [of _ "[]"]) (simp add: build_upper.simps)
  next
    case True
    obtain css tt where t: "make_segmentation (length ss) (int R) (in_fun_rec segs (length pre)) = Some css"
      "push_level last_key (length ss) css segs = Some (segs @ tt @ [segment_sentinel (length ss)], length tt)"
      "next_level (int R) (Y + 2 * int R) last_key ss tt" "length tt < length ss"
      using next_level_exists [OF less.prems(2) assms(1-5) less.prems(1) True less.prems(3)] by blast
    have off: "offsets ! (length offsets - 2) = length pre" "last offsets = length segs" by (simp_all add: less.prems(4) nth_append)
    let ?segs = "segs @ tt @ [segment_sentinel (length ss)]"
    have len: "int (length tt) \<le> Y + 1" using t(4) less.prems(1) by simp
    have keys: "keys_ok first_key last_key tt" using next_level_keys [OF t(3) less.prems(2)] assms(2,3) by simp
    have "offsets @ [length ?segs] = (offs @ [length pre]) @ [length segs, length ?segs]" by (simp add: less.prems(4))
    from less.hyps [OF t(4) len keys refl this, of "sizes @ [length tt]"] obtain rest where rest: "tower (int R) (Y + 2 * int R) last_key tt rest"
      "build_upper R last_key (length tt) ?segs (sizes @ [length tt]) (offsets @ [length ?segs]) =
        Some (?segs @ flat (length tt) rest, (sizes @ [length tt]) @ map length rest, (offsets @ [length ?segs]) @ level_ends (length ?segs) rest)"
      by blast
    have "build_upper R last_key (length ss) segs sizes offsets =
      build_upper R last_key (length tt) ?segs (sizes @ [length tt]) (offsets @ [length ?segs])"
      by (subst build_upper.simps) (use True assms(4) t off in \<open>simp add: add.assoc\<close>)
    then show ?thesis using rest t(3,4) by (intro exI [of _ "tt # rest"]) (simp add: add.assoc)
  qed
qed

subsection \<open>The bottom level\<close>

lemma sorted_nth_le_last: "sorted keys \<Longrightarrow> j < length keys \<Longrightarrow> keys ! j \<le> last keys"
  by (cases keys rule: rev_cases) (auto simp: nth_append sorted_append)

text \<open>The key of a position is the one in the data or its successor, and it is not above the next key.\<close>

lemma in_fun_bounds:
  fixes keys :: "'w::len word list"
  assumes "sorted keys" and "j < length keys"
  shows "snd (in_fun keys j) = int j" and "uint (keys ! j) \<le> fst (in_fun keys j)"
    and "j + 1 < length keys \<Longrightarrow> fst (in_fun keys j) \<le> uint (keys ! (j + 1))"
    and "j + 1 < length keys \<Longrightarrow> keys ! j < keys ! (j + 1) \<Longrightarrow> fst (in_fun keys j) < uint (keys ! (j + 1))"
    and "j + 1 = length keys \<Longrightarrow> fst (in_fun keys j) = uint (keys ! j)"
    and "j = 0 \<or> keys ! (j - 1) < keys ! j \<Longrightarrow> fst (in_fun keys j) = uint (keys ! j)"
proof -
  let ?x = "keys ! j" and ?y = "keys ! (j + 1)"
  have le: "uint ?x \<le> uint ?y" if "j + 1 < length keys" using sorted_nth_mono [OF assms(1)] that by (simp add: word_le_def)
  have step: "uint (?x + 1) = uint ?x + 1 \<and> uint ?x + 1 < uint ?y"
    if "j + 1 < length keys" "?x \<noteq> ?y" "?x + 1 \<noteq> ?y"
  proof -
    have "uint ?x < uint ?y" using le that(1,2) by (simp add: word_uint_eq_iff)
    then have "?x \<noteq> - 1" by (metis word_less_def word_order.extremum_strict)
    then have "uint (?x + 1) = uint ?x + 1" by (rule uint_succ)
    then show ?thesis using \<open>uint ?x < uint ?y\<close> that(3) by (auto simp: word_uint_eq_iff)
  qed
  show "snd (in_fun keys j) = int j" by (simp add: in_fun_def Let_def)
  show "uint ?x \<le> fst (in_fun keys j)" using step by (auto simp: in_fun_def Let_def)
  show "fst (in_fun keys j) \<le> uint ?y" if "j + 1 < length keys" using that step le by (auto simp: in_fun_def Let_def)
  show "fst (in_fun keys j) < uint ?y" if "j + 1 < length keys" "?x < ?y"
    using that step by (auto simp: in_fun_def Let_def word_less_def)
  show "fst (in_fun keys j) = uint ?x" if "j + 1 = length keys" using that by (simp add: in_fun_def Let_def)
  show "fst (in_fun keys j) = uint ?x" if "j = 0 \<or> keys ! (j - 1) < ?x" using that by (auto simp: in_fun_def Let_def)
qed

lemma in_fun_last:
  assumes "sorted keys" and "j < length keys"
  shows "fst (in_fun keys j) \<le> uint (last keys)"
proof (cases "j + 1 < length keys")
  case True
  then show ?thesis using in_fun_bounds(3) [OF assms] sorted_nth_le_last [OF assms(1), of "j + 1"] by (simp add: word_le_def)
next
  case False
  then show ?thesis using in_fun_bounds(5) [OF assms] sorted_nth_le_last [OF assms] assms(2) by (simp add: word_le_def)
qed

lemma in_fun_ok:
  assumes "sorted keys" and "uint (last keys) \<le> X"
  shows "inp_ok X (in_fun keys) (length keys)"
  unfolding inp_ok_def
proof (intro conjI allI impI)
  fix j assume j: "j < length keys"
  show "snd (in_fun keys j) = int j" using in_fun_bounds(1) [OF assms(1) j] .
  have "0 \<le> uint (keys ! j)" by simp
  then show "0 \<le> fst (in_fun keys j)" using in_fun_bounds(2) [OF assms(1) j] by linarith
  show "fst (in_fun keys j) \<le> X" using in_fun_last [OF assms(1) j] assms(2) by simp
next
  fix j assume "j + 1 < length keys"
  then show "fst (in_fun keys j) \<le> fst (in_fun keys (j + 1))"
    using in_fun_bounds(3) [OF assms(1), of j] in_fun_bounds(2) [OF assms(1), of "j + 1"] by simp
qed

lemma built_length:
  assumes "built err M inp n new st"
  shows "length new \<le> n"
proof -
  have "i \<le> st i" if "i \<le> length new" for i
    using that
  proof (induction i)
    case (Suc i)
    then show ?case using builtD(4) [OF assms, of i] by simp
  qed simp
  then show ?thesis using builtD(3) [OF assms] by auto
qed

definition level_offsets :: "'w::len word segment list list \<Rightarrow> nat list" where
  "level_offsets levels = butlast (0 # level_ends 0 levels)"

definition pgm_of :: "'w::len word list \<Rightarrow> 'w word segment list list \<Rightarrow> 'w word pgm" where
  "pgm_of keys levels =
     \<lparr>pg_n = length keys, pg_first_key = hd keys, pg_segments = flat (length keys) levels,
      pg_levels_sizes = map length levels, pg_levels_offsets = level_offsets levels\<rparr>"

definition bottom_level :: "nat \<Rightarrow> 'w::len word list \<Rightarrow> 'w word segment list \<Rightarrow> bool" where
  "bottom_level Error keys ss \<longleftrightarrow>
     (\<exists>new st. built (int Error) (int (length keys + 2 * Error)) (in_fun keys) (length keys) new st \<and> ss = padded (last keys) (length keys) new)"

text \<open>The sizes for which the arithmetic is precise enough, with the keys up to \<open>X\<close>.\<close>

definition pgm_fits :: "nat \<Rightarrow> nat \<Rightarrow> 'w::len word list \<Rightarrow> int \<Rightarrow> bool" where
  "pgm_fits Error RecursiveError keys X \<longleftrightarrow> sorted keys \<and> keys \<noteq> [] \<and> 0 < Error \<and> uint (last keys) < X \<and> X < 2 ^ LENGTH('w) \<and>
     precise X (int (length keys + 2 * max Error RecursiveError))"

lemma precise_mono: "precise X M \<Longrightarrow> 1 \<le> M' \<Longrightarrow> M' \<le> M \<Longrightarrow> precise X M'"
  unfolding precise_def by (meson mult_left_mono order.trans zero_le_one)

lemma pgm_fitsD:
  fixes keys :: "'w::len word list"
  assumes "pgm_fits Error RecursiveError keys X"
  shows "sorted keys" "keys \<noteq> []" "0 < Error" "uint (last keys) < X" "X < 2 ^ LENGTH('w)"
    "precise X (int (length keys) + 2 * int Error)" "precise X (int (length keys) + 2 * int RecursiveError)"
    "last keys \<noteq> - 1" "hd keys \<le> last keys"
proof -
  note f = assms [unfolded pgm_fits_def]
  show *: "sorted keys" "keys \<noteq> []" "0 < Error" "uint (last keys) < X" "X < 2 ^ LENGTH('w)" using f by blast+
  have p: "precise X (int (length keys + 2 * max Error RecursiveError))" using f by blast
  have "1 \<le> int (length keys)" using *(2) by (cases keys) auto
  then show "precise X (int (length keys) + 2 * int Error)" "precise X (int (length keys) + 2 * int RecursiveError)"
    by (auto intro!: precise_mono [OF p])
  show "last keys \<noteq> - 1" using *(4,5) by (auto simp: unsigned_minus_1_eq_mask mask_eq_exp_minus_1)
  show "hd keys \<le> last keys" using *(1,2) sorted_nth_le_last [of keys 0] by (simp add: hd_conv_nth)
qed

lemma bottom_level_keys:
  fixes keys :: "'w::len word list"
  assumes "pgm_fits Error RecursiveError keys X" and "bottom_level Error keys ss"
  shows "keys_ok (hd keys) (last keys) ss"
proof -
  note f = pgm_fitsD [OF assms(1)]
  obtain new st where b: "built (int Error) (int (length keys + 2 * Error)) (in_fun keys) (length keys) new st"
      "ss = padded (last keys) (length keys) new"
    using assms(2) by (auto simp: bottom_level_def)
  have ok: "inp_ok (uint (last keys)) (in_fun keys) (length keys)" using in_fun_ok f(1) by blast
  have "fst (in_fun keys j) \<le> uint (last keys) + 1" if "j < length keys" for j
    using in_fun_last [OF f(1) that] by simp
  moreover have "fst (in_fun keys 0) = uint (hd keys)" using in_fun_bounds(6) [of keys 0] f(1,2) by (simp add: hd_conv_nth)
  ultimately show ?thesis unfolding b(2) using padded_keys [OF b(1) ok] f(4,5,8) by simp
qed

lemma PGMIndex_result:
  fixes keys :: "'w::len word list"
  assumes "pgm_fits Error RecursiveError keys X"
  shows "\<exists>ss rest. bottom_level Error keys ss \<and>
    (if RecursiveError = 0 then rest = [] else tower (int RecursiveError) (int (length keys + 2 * RecursiveError)) (last keys) ss rest) \<and>
    PGMIndex Error RecursiveError keys = Some (pgm_of keys (ss # rest))"
proof -
  note f = pgm_fitsD [OF assms]
  let ?n = "length keys"
  note pE = f(6) and p = preciseD [OF f(6)]
  have ok: "inp_ok X (in_fun keys) ?n" using in_fun_ok [OF f(1)] f(4) by simp
  have "pos_ok (in_fun keys j)" if "j < ?n" for j using inp_okD [OF ok that] that p by (auto simp: pos_ok_def)
  moreover have "fst (in_fun keys j) \<le> fst (in_fun keys (j + 1))" if "j + 1 < ?n" for j using ok that by (auto simp: inp_ok_def)
  ultimately have "\<exists>css. make_segmentation_par ?n (int Error) (in_fun keys) = Some css \<and>
      make_segmentation ?n (int Error) (in_fun keys) = Some css \<and> greedy (int Error) (in_fun keys) ?n 0 css"
    using f(2,3) p(3) by (intro make_segmentation_par_greedy) auto
  then obtain css where css: "make_segmentation_par ?n (int Error) (in_fun keys) = Some css" "greedy (int Error) (in_fun keys) ?n 0 css" by blast
  obtain new st where new: "built (int Error) (int ?n + 2 * int Error) (in_fun keys) ?n new st"
      "push_level (last keys) ?n css [] = Some ([] @ padded (last keys) ?n new @ [segment_sentinel ?n], length (padded (last keys) ?n new))"
    using push_level_result [OF css(2) ok _ pE, of "last keys" "[]"] f(3) by auto
  let ?ss = "padded (last keys) ?n new"
  have bot: "bottom_level Error keys ?ss" using new(1) by (auto simp: bottom_level_def)
  note keys = bottom_level_keys [OF assms bot]
  have lk: "keys ! (?n - 1) = last keys" using f(2) by (simp add: last_conv_nth)
  let ?segs = "?ss @ [segment_sentinel ?n]"
  have "\<exists>rest. (if RecursiveError = 0 then rest = [] else tower (int RecursiveError) (int ?n + 2 * int RecursiveError) (last keys) ?ss rest) \<and>
    build_upper RecursiveError (last keys) (length ?ss) ?segs [length ?ss] [0, length ?ss + 1] =
      Some (?segs @ flat (length ?ss) rest, [length ?ss] @ map length rest, [0, length ?ss + 1] @ level_ends (length ?segs) rest)"
  proof (cases "RecursiveError = 0")
    case True
    then show ?thesis by (simp add: build_upper.simps)
  next
    case False
    have len: "int (length ?ss) \<le> int ?n + 1" using built_length [OF new(1)] by (simp add: padded_def)
    show ?thesis
      using build_upper_result [OF f(9) _ f(5) _ f(7) len keys, of ?segs "[]" ?n "[0, length ?ss + 1]" "[]" "[length ?ss]"] f(4) False by auto
  qed
  then obtain rest where rest: "if RecursiveError = 0 then rest = [] else tower (int RecursiveError) (int ?n + 2 * int RecursiveError) (last keys) ?ss rest"
    "build_upper RecursiveError (last keys) (length ?ss) ?segs [length ?ss] [0, length ?ss + 1] =
      Some (?segs @ flat (length ?ss) rest, [length ?ss] @ map length rest, [0, length ?ss + 1] @ level_ends (length ?segs) rest)"
    by blast
  have "PGMIndex Error RecursiveError keys = Some (pgm_of keys (?ss # rest))"
    using f(1,2,8) css(1) new(2) rest(2) lk unfolding PGMIndex_def Let_def pgm_of_def level_offsets_def by simp
  then show ?thesis using bot rest(1) unfolding of_nat_add of_nat_mult of_nat_numeral by blast
qed

end
