(* ===== verification/Pgm_Index_Correct.thy ===== *)
theory Pgm_Index_Correct
  imports Pgm_Levels
begin

text \<open>
  Queries of the PGM-index: what the segments predict, how the walk from the top level finds the segment that is responsible for a
  key, and the window of the key in the data.
\<close>

subsection \<open>Predictions\<close>

text \<open>A level in the vector of segments, with the sequence that it was built on.\<close>

definition level_at :: "int \<Rightarrow> int \<Rightarrow> int \<Rightarrow> (nat \<Rightarrow> point) \<Rightarrow> nat \<Rightarrow> 'w::len word \<Rightarrow> 'w word segment list \<Rightarrow> (nat \<Rightarrow> nat) \<Rightarrow>
    nat \<Rightarrow> 'w word segment list \<Rightarrow> bool" where
  "level_at X err M inp n last_key new st off segs \<longleftrightarrow>
     built err M inp n new st \<and> inp_ok X inp n \<and> precise X M \<and> X < 2 ^ LENGTH('w) \<and> 0 < err \<and> int n + err \<le> M \<and>
     (\<exists>pre post. segs = pre @ padded last_key n new @ [segment_sentinel n] @ post \<and> length pre = off)"

lemma level_atD:
  fixes last_key :: "'w::len word"
  assumes "level_at X err M inp n last_key new st off segs"
  shows "built err M inp n new st" "inp_ok X inp n" "precise X M" "X < 2 ^ LENGTH('w)" "0 < err" "int n + err \<le> 2 ^ 31"
    "i \<le> length (padded last_key n new) \<Longrightarrow> off + i < length segs"
    "i < length (padded last_key n new) \<Longrightarrow> segs ! (off + i) = padded last_key n new ! i"
    "segs ! (off + length (padded last_key n new)) = segment_sentinel n"
proof -
  note a = assms [unfolded level_at_def]
  show "built err M inp n new st" "inp_ok X inp n" "precise X M" "X < 2 ^ LENGTH('w)" "0 < err" using a by blast+
  have "int n + err \<le> M" using a by blast
  then show "int n + err \<le> 2 ^ 31" using preciseD(3) [of X M] a by linarith
  obtain pre post where s: "segs = pre @ padded last_key n new @ [segment_sentinel n] @ post" "length pre = off" using a by blast
  show "i \<le> length (padded last_key n new) \<Longrightarrow> off + i < length segs"
    "i < length (padded last_key n new) \<Longrightarrow> segs ! (off + i) = padded last_key n new ! i"
    "segs ! (off + length (padded last_key n new)) = segment_sentinel n"
    using s by (auto simp: nth_append)
qed

lemma padded_nth: "i < length new \<Longrightarrow> padded last_key n new ! i = new ! i"
  by (simp add: padded_def nth_append)

lemma padded_extra:
  assumes "i < length (padded last_key n new)" and "\<not> i < length new"
  shows "i = length new" "padded last_key n new ! i = extra_segment last_key n"
  using assms by (auto simp: padded_def nth_append split: if_splits)

lemma new_segment:
  assumes "level_at X err M inp n last_key new st off segs" and "i < length new"
  shows "0 \<le> sg_slope (new ! i)" "sg_slope (new ! i) \<le> 4 * of_int M" "\<bar>sg_intercept (new ! i)\<bar> \<le> 2 ^ 32"
    and "int (st i) - err \<le> sg_intercept (new ! i)" "sg_intercept (new ! i) \<le> int (st i) + err" "sg_intercept (new ! i) < int n"
    and "p \<in> set (kept inp (st i) (st (Suc i))) \<Longrightarrow>
      snd p - err - 1 \<le> \<lfloor>dprod (sg_slope (new ! i)) (fst p - uint (sg_key (new ! i)))\<rfloor> + sg_intercept (new ! i)"
    and "p \<in> set (kept inp (st i) (st (Suc i))) \<Longrightarrow>
      \<lfloor>dprod (sg_slope (new ! i)) (fst p - uint (sg_key (new ! i)))\<rfloor> + sg_intercept (new ! i) \<le> snd p + err"
proof -
  note l = level_atD [OF assms(1)]
  note b = builtD(4-6) [OF l(1) assms(2)]
  have lt: "st i < n" using b by simp
  note k = kept_first [OF b(1), of inp] inp_okD(1) [OF l(2) lt]
  have key: "fst (hd (kept inp (st i) (st (Suc i)))) = uint (sg_key (new ! i))"
    using built_key [OF l(1,2,4) assms(2)] k by simp
  note a = b(3) [unfolded accurate_def key]
  show "0 \<le> sg_slope (new ! i)" "sg_slope (new ! i) \<le> 4 * of_int M" using a by blast+
  show c: "int (st i) - err \<le> sg_intercept (new ! i)" "sg_intercept (new ! i) \<le> int (st i) + err" using a k by simp_all
  obtain q where q: "q \<in> set (kept inp (st i) (st (Suc i)))" "sg_intercept (new ! i) \<le> snd q" using a by blast
  from q(1) obtain j where j: "q = inp j" "st i \<le> j" "j < st (Suc i)" unfolding kept_def by auto
  then have "j < n" using b(2) by simp
  then show "sg_intercept (new ! i) < int n" using q(2) j(1) inp_okD(1) [OF l(2)] by simp
  then show "\<bar>sg_intercept (new ! i)\<bar> \<le> 2 ^ 32" using c(1) l(5,6) by simp
  show "p \<in> set (kept inp (st i) (st (Suc i))) \<Longrightarrow>
      snd p - err - 1 \<le> \<lfloor>dprod (sg_slope (new ! i)) (fst p - uint (sg_key (new ! i)))\<rfloor> + sg_intercept (new ! i)"
    "p \<in> set (kept inp (st i) (st (Suc i))) \<Longrightarrow>
      \<lfloor>dprod (sg_slope (new ! i)) (fst p - uint (sg_key (new ! i)))\<rfloor> + sg_intercept (new ! i) \<le> snd p + err"
    using a by blast+
qed

text \<open>The intercept of the segment after the one at \<open>i\<close>.\<close>

lemma sentinel_intercept: "int n < 2 ^ 31 \<Longrightarrow> sg_intercept (segment_sentinel n) = int n"
  by (simp add: segment_sentinel_def signed_take_bit_int_eq_self)

lemma next_intercept:
  assumes "level_at X err M inp n last_key new st off segs" and "i < length (padded last_key n new)"
  shows "0 \<le> sg_intercept (segs ! (off + i + 1))" "sg_intercept (segs ! (off + i + 1)) \<le> int n"
    and "Suc i < length new \<Longrightarrow> int (st (Suc i)) - err \<le> sg_intercept (segs ! (off + i + 1)) \<and>
      sg_intercept (segs ! (off + i + 1)) \<le> int (st (Suc i)) + err"
    and "length new \<le> Suc i \<Longrightarrow> sg_intercept (segs ! (off + i + 1)) = int n"
proof -
  note l = level_atD [OF assms(1)]
  have n: "int n < 2 ^ 31" using l(5,6) by linarith
  have last: "sg_intercept (segs ! (off + i + 1)) = int n" if "length new \<le> Suc i"
  proof (cases "Suc i < length (padded last_key n new)")
    case True
    then show ?thesis using padded_extra(2) [OF True] that l(8) [OF True] by (simp add: extra_segment_def)
  next
    case False
    then have "Suc i = length (padded last_key n new)" using assms(2) by simp
    then show ?thesis using l(9) sentinel_intercept [OF n] by (metis Suc_eq_plus1 add.assoc)
  qed
  have new: "int (st (Suc i)) - err \<le> sg_intercept (segs ! (off + i + 1)) \<and>
      sg_intercept (segs ! (off + i + 1)) \<le> int (st (Suc i)) + err \<and> sg_intercept (segs ! (off + i + 1)) < int n" if "Suc i < length new"
  proof -
    have "Suc i < length (padded last_key n new)" using that by (simp add: padded_def)
    then have "segs ! (off + i + 1) = new ! Suc i" using l(8) [of "Suc i"] padded_nth [OF that] by simp
    then show ?thesis using new_segment(4-6) [OF assms(1) that] by simp
  qed
  show "Suc i < length new \<Longrightarrow> int (st (Suc i)) - err \<le> sg_intercept (segs ! (off + i + 1)) \<and>
      sg_intercept (segs ! (off + i + 1)) \<le> int (st (Suc i)) + err" using new by blast
  show "length new \<le> Suc i \<Longrightarrow> sg_intercept (segs ! (off + i + 1)) = int n" by (rule last)
  have "int (st i) + 2 * err + 1 \<le> int (st (Suc i))" if "Suc i < length new" using builtD(7) [OF l(1) that] .
  then show "0 \<le> sg_intercept (segs ! (off + i + 1))"
    using last new l(5) by (cases "Suc i < length new") fastforce+
  show "sg_intercept (segs ! (off + i + 1)) \<le> int n"
    using last new by (cases "Suc i < length new") fastforce+
qed

lemma predict_value:
  assumes "level_at X err M inp n last_key new st off segs" and i: "i < length (padded last_key n new)"
    and "sg_key (padded last_key n new ! i) \<le> k" and "uint k \<le> X"
  shows "predict segs (off + i) k = Some (min (nat (\<lfloor>dprod (sg_slope (padded last_key n new ! i))
      (uint k - uint (sg_key (padded last_key n new ! i)))\<rfloor> + sg_intercept (padded last_key n new ! i))) (nat (sg_intercept (segs ! (off + i + 1)))))"
proof -
  note l = level_atD [OF assms(1)] and c = next_intercept(1,2) [OF assms(1) i]
  let ?s = "padded last_key n new ! i"
  have "0 \<le> sg_slope ?s \<and> sg_slope ?s \<le> 4 * of_int M \<and> \<bar>sg_intercept ?s\<bar> \<le> 2 ^ 32"
  proof (cases "i < length new")
    case True
    then show ?thesis using new_segment(1-3) [OF assms(1) True] padded_nth [OF True] by simp
  next
    case False
    then show ?thesis using padded_extra(2) [OF i False] preciseD(2) [OF l(3)] l(5,6) by (simp add: extra_segment_def)
  qed
  then have "segment_apply ?s k = Some (nat (\<lfloor>dprod (sg_slope ?s) (uint k - uint (sg_key ?s))\<rfloor> + sg_intercept ?s))"
    using assms(3,4) l(3) by (intro segment_apply_value) auto
  moreover have "to_size_t (sg_intercept (segs ! (off + i + 1))) = nat (sg_intercept (segs ! (off + i + 1)))"
    using c l(5,6) by (intro to_size_t_id) auto
  moreover have "off + i + 1 < length segs" using l(7) [of "Suc i"] i by simp
  ultimately show ?thesis using l(8) [OF i] by (simp add: predict_def)
qed

lemma predict_le:
  assumes "level_at X err M inp n last_key new st off segs" and "i < length (padded last_key n new)"
    and "sg_key (padded last_key n new ! i) \<le> k" and "uint k \<le> X"
  shows "\<exists>pos. predict segs (off + i) k = Some pos \<and> pos \<le> n"
  using predict_value [OF assms] next_intercept(2) [OF assms(1,2)] by (auto simp: min_le_iff_disj)

text \<open>Every position of a segment has a kept position before it with the same key.\<close>

lemma kept_representative:
  assumes "a \<le> j" and "j < b"
  shows "\<exists>i\<le>j. inp i \<in> set (kept inp a b) \<and> fst (inp i) = fst (inp j)"
  using assms
proof (induction j rule: dec_induct)
  case base
  then have "inp a \<in> set (kept inp a b)" by (auto simp: kept_def)
  then show ?case by blast
next
  case (step j)
  show ?case
  proof (cases "fst (inp j) = fst (inp (Suc j))")
    case True
    then show ?thesis using step by (metis Suc_lessD le_SucI)
  next
    case False
    then have "inp (Suc j) \<in> set (kept inp a b)" using step by (auto simp: kept_def)
    then show ?thesis by blast
  qed
qed

text \<open>
  A prediction for a key from the segment's key on: it is above no position that the key does not exceed, except by the error; and
  below the first position of a key that it reaches by at most the error and one.
\<close>

lemma predict_upper:
  assumes "level_at X err M inp n last_key new st off segs" and i: "i < length new"
    and "sg_key (new ! i) \<le> k" and "uint k \<le> X" and j: "st i \<le> j" "j \<le> n" "j < n \<Longrightarrow> uint k \<le> fst (inp j)"
    and "predict segs (off + i) k = Some pos"
  shows "int pos \<le> int j + err"
proof -
  note l = level_atD [OF assms(1)]
  have i': "i < length (padded last_key n new)" using i by (simp add: padded_def)
  note s = padded_nth [OF i, of last_key n]
  let ?s = "new ! i" and ?c = "sg_intercept (segs ! (off + i + 1))"
  have pos: "pos = min (nat (\<lfloor>dprod (sg_slope ?s) (uint k - uint (sg_key ?s))\<rfloor> + sg_intercept ?s)) (nat ?c)"
    using predict_value [OF assms(1) i', unfolded s, OF assms(3,4)] assms(8) by simp
  show ?thesis
  proof (cases "j < st (Suc i)")
    case True
    then obtain j0 where j0: "j0 \<le> j" "inp j0 \<in> set (kept inp (st i) (st (Suc i)))" "fst (inp j0) = fst (inp j)"
      using kept_representative [OF j(1) True] by blast
    have jn: "j < n" "j0 < n" using True builtD(5) [OF l(1) i] j0(1) by simp_all
    have "dprod (sg_slope ?s) (uint k - uint (sg_key ?s)) \<le> dprod (sg_slope ?s) (fst (inp j0) - uint (sg_key ?s))"
      using j(3) [OF jn(1)] j0(3) new_segment(1) [OF assms(1) i] by (intro dprod_mono) auto
    then have "\<lfloor>dprod (sg_slope ?s) (uint k - uint (sg_key ?s))\<rfloor> \<le> \<lfloor>dprod (sg_slope ?s) (fst (inp j0) - uint (sg_key ?s))\<rfloor>"
      by (rule floor_mono)
    moreover have "snd (inp j0) = int j0" using inp_okD(1) [OF l(2) jn(2)] .
    ultimately have "\<lfloor>dprod (sg_slope ?s) (uint k - uint (sg_key ?s))\<rfloor> + sg_intercept ?s \<le> int j + err"
      using new_segment(8) [OF assms(1) i j0(2)] j0(1) by linarith
    then show ?thesis using pos l(5) by linarith
  next
    case False
    have "?c \<le> int j + err"
    proof (cases "Suc i < length new")
      case True
      then show ?thesis using next_intercept(3) [OF assms(1) i'] False by linarith
    next
      case last: False
      then have "st (Suc i) = n" using i builtD(3) [OF l(1)] by (simp add: not_less le_Suc_eq)
      then show ?thesis using next_intercept(4) [OF assms(1) i'] last False l(5) by linarith
    qed
    then show ?thesis using pos l(5) by linarith
  qed
qed

lemma predict_lower:
  assumes "level_at X err M inp n last_key new st off segs" and i: "i < length new"
    and "sg_key (new ! i) \<le> k" and "uint k \<le> X" and j: "st i \<le> j" "j < st (Suc i)" "fst (inp j) \<le> uint k"
    and kept: "j = st i \<or> fst (inp (j - 1)) \<noteq> fst (inp j)" and "predict segs (off + i) k = Some pos"
  shows "int j - err - 1 \<le> int pos"
proof -
  note l = level_atD [OF assms(1)]
  have i': "i < length (padded last_key n new)" using i by (simp add: padded_def)
  note s = padded_nth [OF i, of last_key n]
  let ?s = "new ! i" and ?c = "sg_intercept (segs ! (off + i + 1))"
  have pos: "pos = min (nat (\<lfloor>dprod (sg_slope ?s) (uint k - uint (sg_key ?s))\<rfloor> + sg_intercept ?s)) (nat ?c)"
    using predict_value [OF assms(1) i', unfolded s, OF assms(3,4)] assms(9) by simp
  have "inp j \<in> set (kept inp (st i) (st (Suc i)))" using j kept by (auto simp: kept_def)
  note a = new_segment(7) [OF assms(1) i this]
  have jn: "j < n" using j(2) builtD(5) [OF l(1) i] by simp
  have "dprod (sg_slope ?s) (fst (inp j) - uint (sg_key ?s)) \<le> dprod (sg_slope ?s) (uint k - uint (sg_key ?s))"
    using j(3) new_segment(1) [OF assms(1) i] by (intro dprod_mono) auto
  then have "\<lfloor>dprod (sg_slope ?s) (fst (inp j) - uint (sg_key ?s))\<rfloor> \<le> \<lfloor>dprod (sg_slope ?s) (uint k - uint (sg_key ?s))\<rfloor>"
    by (rule floor_mono)
  then have f: "int j - err - 1 \<le> \<lfloor>dprod (sg_slope ?s) (uint k - uint (sg_key ?s))\<rfloor> + sg_intercept ?s"
    using a inp_okD(1) [OF l(2) jn] by linarith
  have "int j - err - 1 \<le> ?c"
    using next_intercept(3,4) [OF assms(1) i'] j(2) jn l(5) by (cases "Suc i < length new") linarith+
  then show ?thesis using f pos by linarith
qed

subsection \<open>From level to level\<close>

text \<open>The segment that is responsible for a key: the last one whose key is not above; for keys after the data any such.\<close>

definition responsible :: "'w::len word \<Rightarrow> 'w word segment list \<Rightarrow> 'w word \<Rightarrow> nat \<Rightarrow> bool" where
  "responsible last_key ss k i \<longleftrightarrow> i < length ss \<and> sg_key (ss ! i) \<le> k \<and>
     (k \<le> last_key \<longrightarrow> (\<forall>j. i < j \<and> j < length ss \<longrightarrow> k < sg_key (ss ! j)))"

definition key_count :: "'w::len word segment list \<Rightarrow> 'w word \<Rightarrow> nat" where
  "key_count ss k = length (takeWhile (\<lambda>s. \<not> k < sg_key s) ss)"

lemma key_count:
  assumes "keys_ok first_key last_key ss" and "first_key \<le> k"
  shows "0 < key_count ss k" "key_count ss k \<le> length ss" "j < key_count ss k \<Longrightarrow> sg_key (ss ! j) \<le> k"
    and "key_count ss k \<le> j \<Longrightarrow> j < length ss \<Longrightarrow> k < sg_key (ss ! j)"
proof -
  show "key_count ss k \<le> length ss" unfolding key_count_def by (rule length_takeWhile_le)
  show below: "sg_key (ss ! j) \<le> k" if "j < key_count ss k" for j
    using that set_takeWhileD [of "ss ! j" "\<lambda>s. \<not> k < sg_key s" ss] nth_mem [of j "takeWhile (\<lambda>s. \<not> k < sg_key s) ss"]
    by (auto simp: key_count_def takeWhile_nth)
  show "k < sg_key (ss ! j)" if j: "key_count ss k \<le> j" "j < length ss" for j
  proof -
    have "k < sg_key (ss ! key_count ss k)"
      using nth_length_takeWhile [of "\<lambda>s. \<not> k < sg_key s" ss] j by (auto simp: key_count_def)
    also have "\<dots> \<le> sg_key (ss ! j)" using assms(1) j by (cases "j = key_count ss k") (auto simp: keys_ok_def)
    finally show ?thesis .
  qed
  have "ss \<noteq> []" "sg_key (ss ! 0) = first_key" using assms(1) unfolding keys_ok_def by blast+
  then obtain s rest where s: "ss = s # rest" "sg_key s = first_key" by (cases ss) simp_all
  have "\<not> k < sg_key s" unfolding s(2) using assms(2) by (rule leD)
  then show "0 < key_count ss k" by (simp add: key_count_def s(1))
qed

lemma responsible_count:
  assumes "keys_ok first_key last_key ss" and "first_key \<le> k"
  shows "responsible last_key ss k (key_count ss k - 1)"
  using key_count [OF assms] unfolding responsible_def by auto

lemma responsible_beyond:
  assumes "keys_ok first_key last_key ss" and "last_key < k" and "i < length ss"
  shows "responsible last_key ss k i"
proof -
  have "uint (sg_key (ss ! i)) \<le> uint last_key + 1" using assms(1,3) by (auto simp: keys_ok_def)
  moreover have "uint last_key < uint k" using assms(2) by (simp add: word_less_def)
  ultimately show ?thesis using assms(2,3) by (simp add: responsible_def word_le_def)
qed

lemma level_reader:
  assumes "segs = pre @ ss @ post" and "j < length ss"
  shows "list_reader (map sg_key segs) (int (length pre + j)) = Some (sg_key (ss ! j))"
  using assms by (subst list_reader_nth) (simp_all add: nth_append)

lemma level_search_pre:
  assumes "keys_ok first_key last_key ss" and "segs = pre @ ss @ post" and "a \<le> b" and "b \<le> length ss" and "length ss \<le> 2 ^ 53"
  shows "search_pre (list_reader (map sg_key segs)) (int (length pre + a)) (int (length pre + b)) (int (length pre + a))"
proof -
  let ?rd = "list_reader (map sg_key segs)" and ?o = "length pre"
  have idx: "\<exists>j. i = int (?o + j) \<and> a \<le> j \<and> j < b" if "int (?o + a) \<le> i" "i < int (?o + b)" for i
    using that by (intro exI [of _ "nat i - ?o"]) linarith
  have rd: "?rd (int (?o + j)) = Some (sg_key (ss ! j))" if "j < b" for j using level_reader [OF assms(2)] that assms(4) by simp
  have mono: "sg_key (ss ! i) \<le> sg_key (ss ! j)" if "i \<le> j" "j < b" for i j
    using assms(1,4) that by (cases "i = j") (auto simp: keys_ok_def)
  have "int (length ss) \<le> 2 ^ 53" using assms(5) by simp
  then have "int b - int a \<le> 2 ^ 53" using assms(4) by linarith
  moreover have "readable ?rd (int (?o + a)) (int (?o + b))" unfolding readable_def using idx rd by blast
  moreover have "sorted_range ?rd (int (?o + a)) (int (?o + b))"
    unfolding sorted_range_def
  proof (intro allI impI)
    fix i j x y assume h: "int (?o + a) \<le> i \<and> i \<le> j \<and> j < int (?o + b) \<and> ?rd i = Some x \<and> ?rd j = Some y"
    obtain i' where i': "i = int (?o + i')" "i' < b" using idx [of i] h by auto
    obtain j' where j': "j = int (?o + j')" "j' < b" using idx [of j] h by auto
    show "x \<le> y" using h rd [OF i'(2)] rd [OF j'(2)] mono [of i' j'] i' j' by simp
  qed
  ultimately show ?thesis using assms(3) by (simp add: search_pre_def)
qed

lemma count_point:
  assumes "keys_ok first_key last_key ss" and "first_key \<le> k" and "segs = pre @ ss @ post"
    and "a \<le> key_count ss k" and "key_count ss k \<le> b" and "b \<le> length ss"
  shows "part_point (upto_key (list_reader (map sg_key segs)) k) (int (length pre + a)) (int (length pre + b)) (int (length pre + key_count ss k))"
  unfolding part_point_def
proof (intro conjI allI impI)
  note c = key_count [OF assms(1,2)] and rd = level_reader [OF assms(3)]
  show "int (length pre + a) \<le> int (length pre + key_count ss k)" "int (length pre + key_count ss k) \<le> int (length pre + b)"
    using assms(4,5) by simp_all
  fix i :: int
  show "upto_key (list_reader (map sg_key segs)) k i" if "int (length pre + a) \<le> i \<and> i < int (length pre + key_count ss k)"
  proof -
    define j where "j = nat i - length pre"
    then have "i = int (length pre + j)" "j < key_count ss k" using that by linarith+
    then show ?thesis using c(2,3) rd by (simp add: not_less)
  qed
  show "\<not> upto_key (list_reader (map sg_key segs)) k i" if "int (length pre + key_count ss k) \<le> i \<and> i < int (length pre + b)"
  proof -
    define j where "j = nat i - length pre"
    then have "i = int (length pre + j)" "key_count ss k \<le> j" "j < length ss" using that assms(6) by linarith+
    then show ?thesis using c(4) rd by simp
  qed
qed

text \<open>The window around a prediction, without wrap-around.\<close>

lemma window_bounds:
  assumes "pos \<le> n" and "n + err < 2 ^ 64"
  shows "ADD_ERR pos err n = min (pos + err) n" "SUB_ERR pos err' = pos - err'"
  using assms by (auto simp: ADD_ERR_def SUB_ERR_def)

text \<open>The count of a key lies in the window that the responsible segment of the level above predicts.\<close>

lemma count_in_window:
  assumes lv: "level_at X err M (level_inp ss) (length ss) last_key new st off segs"
    and keys: "keys_ok first_key last_key ss" "first_key \<le> k" "k \<le> last_key" "uint k \<le> X" "last_key \<noteq> - 1"
    and resp: "responsible last_key (padded last_key (length ss) new) k i" and "predict segs (off + i) k = Some pos"
  shows "int pos \<le> int (key_count ss k) + err" and "int (key_count ss k) - err - 2 \<le> int pos"
proof -
  let ?t = "key_count ss k"
  note l = level_atD [OF lv] and c = key_count [OF keys(1,2)]
  note r = resp [unfolded responsible_def]
  have i: "i < length new"
  proof (rule ccontr)
    assume "\<not> i < length new"
    then have "padded last_key (length ss) new ! i = extra_segment last_key (length ss)" using padded_extra(2) r by blast
    then have "sg_key (padded last_key (length ss) new ! i) = last_key + 1" by (simp add: extra_segment_def)
    then have "uint last_key + 1 \<le> uint k" using r uint_succ [OF keys(5)] by (simp add: word_le_def)
    then show False using keys(3) by (simp add: word_le_def)
  qed
  have key: "sg_key (new ! j) = sg_key (ss ! st j) \<and> st j < length ss" if "j < length new" for j
    using built_key [OF l(1,2,4) that] builtD(4,5) [OF l(1) that] by (simp add: level_inp_def word_uint_eq_iff)
  have ik: "sg_key (new ! i) \<le> k" using r padded_nth [OF i] by metis
  have st: "st i < ?t"
  proof (rule ccontr)
    assume "\<not> st i < ?t"
    then have "k < sg_key (ss ! st i)" using c(4) [of "st i"] key [OF i] by simp
    then show False using key [OF i] leD [OF ik] by simp
  qed
  have "uint k \<le> fst (level_inp ss ?t)" if "?t < length ss" using c(4) [OF order_refl that] by (simp add: level_inp_def word_less_def)
  then show "int pos \<le> int ?t + err"
    using predict_upper [OF lv i ik keys(4)] st c(2) assms(8) by (simp add: less_imp_le)
  have "?t \<le> st (Suc i)"
  proof (cases "Suc i < length new")
    case True
    then have "k < sg_key (padded last_key (length ss) new ! Suc i)" using r keys(3) by (simp add: padded_def)
    then have "k < sg_key (ss ! st (Suc i))" using key [OF True] padded_nth [OF True] by metis
    then show ?thesis using c(3) [of "st (Suc i)"] leD [of "sg_key (ss ! st (Suc i))" k] by (cases "?t \<le> st (Suc i)") auto
  next
    case False
    then show ?thesis using i builtD(3) [OF l(1)] c(2) by (simp add: not_less le_Suc_eq)
  qed
  then have t: "st i \<le> ?t - 1" "?t - 1 < st (Suc i)" using st c(1) by simp_all
  have kt: "sg_key (ss ! (?t - 1)) \<le> k" using c(1) c(3) [of "?t - 1"] by simp
  have "?t - 1 = st i \<or> fst (level_inp ss (?t - 1 - 1)) \<noteq> fst (level_inp ss (?t - 1))"
  proof (cases "?t - 1 = st i")
    case False
    then have "?t - 1 - 1 < ?t - 1" "?t - 1 < length ss" using t(1) c(1,2) by simp_all
    moreover have "sg_key (ss ! (?t - 1 - 1)) \<le> last_key" using c(1) c(3) [of "?t - 1 - 1"] keys(3) by simp
    ultimately have "sg_key (ss ! (?t - 1 - 1)) < sg_key (ss ! (?t - 1))" using keys(1) unfolding keys_ok_def by blast
    then show ?thesis by (simp add: level_inp_def word_less_def)
  qed simp
  from predict_lower [OF lv i ik keys(4) t _ this assms(8)] kt
  have "int (?t - 1) - err - 1 \<le> int pos" by (simp add: level_inp_def word_le_def)
  then show "int ?t - err - 2 \<le> int pos" using c(1) by linarith
qed

lemma walk_step:
  fixes k :: "'w::len word"
  assumes sc: "search_class lb ub" and keys: "keys_ok first_key last_key ss" "first_key \<le> k" "uint k \<le> X" "last_key \<noteq> - 1"
    and lv: "level_at X (int R) M (level_inp ss) (length ss) last_key new st off (pg_segments p)"
    and resp: "responsible last_key (padded last_key (length ss) new) k i"
    and segs: "pg_segments p = pre @ ss @ post" and l: "pg_levels_offsets p ! l = length pre" "pg_levels_sizes p ! l = length ss"
  shows "\<exists>j. responsible last_key ss k j \<and> walk_levels ub R p k (Suc l) (off + i) = walk_levels ub R p k l (length pre + j)"
proof -
  let ?m = "length ss" and ?o = "length pre" and ?rd = "list_reader (map sg_key (pg_segments p))" and ?t = "key_count ss k"
  note lD = level_atD [OF lv] and c = key_count [OF keys(1,2)]
  have i: "i < length (padded last_key ?m new)" "sg_key (padded last_key ?m new ! i) \<le> k"
    using resp by (simp_all add: responsible_def)
  obtain pos where pos: "predict (pg_segments p) (off + i) k = Some pos" "pos \<le> ?m" using predict_le [OF lv i keys(3)] by blast
  have "?m + R \<le> 2 ^ 31" using lD(6) by simp
  then have small: "?m \<le> 2 ^ 31" "?m + (R + 2) < 2 ^ 64" by simp_all
  let ?lo = "SUB_ERR pos (R + 1)" and ?hi = "ADD_ERR pos (R + 2) ?m"
  note w = window_bounds [OF pos(2) small(2)]
  have lohi: "?lo \<le> ?hi" "?hi \<le> ?m" unfolding w using pos(2) by auto
  have "search_pre ?rd (int (?o + ?lo)) (int (?o + ?hi)) (int (?o + ?lo))"
    using level_search_pre [OF keys(1) segs lohi] small(1) by simp
  from search_class.upper_bound_point [OF sc this]
  obtain r where r: "ub (int (?o + ?lo)) (int (?o + ?hi)) k (int (?o + ?lo)) ?rd = Some r"
    "part_point (upto_key ?rd k) (int (?o + ?lo)) (int (?o + ?hi)) r" by blast
  let ?it = "if nat r = ?o then nat r else nat r - 1"
  have rb: "?o \<le> nat r" "nat r \<le> ?o + ?m" using part_point_bounds [OF r(2)] lohi by linarith+
  have walk: "walk_levels ub R p k (Suc l) (off + i) = walk_levels ub R p k l ?it"
    using pos(1) r(1) l by (simp add: Let_def)
  show ?thesis
  proof (cases "k \<le> last_key")
    case True
    note cw = count_in_window [OF lv keys(1,2) True keys(3,4) resp pos(1)]
    have "?lo \<le> ?t" "?t \<le> ?hi" using cw c(2) unfolding w by linarith+
    from part_point_unique [OF r(2) count_point [OF keys(1,2) segs this lohi(2)]] c(1)
    have it: "?it = ?o + (?t - 1)" by auto
    show ?thesis using walk [unfolded it] responsible_count [OF keys(1,2)] by blast
  next
    case False
    define j where "j = ?it - ?o"
    have m: "0 < ?m" using c(1,2) by linarith
    then have j: "?it = ?o + j" "j < ?m" using rb by (simp_all add: j_def split: if_split) linarith+
    have "last_key < k" using False by simp
    from responsible_beyond [OF keys(1) this j(2)] show ?thesis using walk [unfolded j(1)] by blast
  qed
qed

subsection \<open>The walk\<close>

lemma length_level_ends [simp]: "length (level_ends off levels) = length levels"
  by (induction levels arbitrary: off) auto

lemma flat_split_from:
  assumes "l < length levels"
  shows "\<exists>pre. flat n levels = pre @ levels ! l @ [segment_sentinel (if l = 0 then n else length (levels ! (l - 1)))] @
      flat (length (levels ! l)) (drop (Suc l) levels) \<and> off + length pre = (off # level_ends off levels) ! l"
  using assms
proof (induction levels arbitrary: n off l)
  case (Cons ss levels)
  show ?case
  proof (cases l)
    case (Suc m)
    then have "m < length levels" using Cons.prems by simp
    from Cons.IH [OF this, of "length ss" "off + length ss + 1"] obtain pre where
      "flat (length ss) levels = pre @ levels ! m @ [segment_sentinel (if m = 0 then length ss else length (levels ! (m - 1)))] @
        flat (length (levels ! m)) (drop (Suc m) levels)"
      "off + length ss + 1 + length pre = ((off + length ss + 1) # level_ends (off + length ss + 1) levels) ! m" by blast
    then show ?thesis using Suc
      by (intro exI [of _ "ss @ [segment_sentinel n] @ pre"]) (auto simp: nth_Cons' gr0_conv_Suc)
  qed simp
qed simp

lemma flat_split:
  assumes "l < length levels"
  shows "\<exists>pre. flat n levels = pre @ levels ! l @ [segment_sentinel (if l = 0 then n else length (levels ! (l - 1)))] @
      flat (length (levels ! l)) (drop (Suc l) levels) \<and> length pre = level_offsets levels ! l"
proof -
  have "level_offsets levels ! l = (0 # level_ends 0 levels) ! l"
    unfolding level_offsets_def by (rule nth_butlast) (use assms in \<open>simp add: length_butlast del: butlast.simps\<close>)
  then show ?thesis using flat_split_from [OF assms, of n 0] by simp
qed

lemma tower_nth:
  fixes last_key :: "'w::len word"
  assumes "tower err M last_key ss rest" and "keys_ok first_key last_key ss" and "uint last_key + 1 < 2 ^ LENGTH('w)"
    and "l < length (ss # rest)"
  shows "keys_ok first_key last_key ((ss # rest) ! l) \<and> length ((ss # rest) ! l) \<le> length ss \<and>
    (if Suc l = length (ss # rest) then length ((ss # rest) ! l) = 1
     else next_level err M last_key ((ss # rest) ! l) ((ss # rest) ! Suc l))"
  using assms(1,2,4)
proof (induction rest arbitrary: ss l)
  case (Cons tt rest)
  have "next_level err M last_key ss tt" using Cons.prems(1) by simp
  then have keys: "keys_ok first_key last_key tt" using next_level_keys [OF _ Cons.prems(2) assms(3)] by blast
  show ?case
  proof (cases l)
    case (Suc m)
    then show ?thesis using Cons.IH [OF _ keys, of m] Cons.prems by (auto intro: order.trans)
  qed (use Cons.prems in simp)
qed simp

text \<open>The levels of an index, from the bottom.\<close>

definition pgm_levels_ok :: "nat \<Rightarrow> nat \<Rightarrow> 'w::len word list \<Rightarrow> int \<Rightarrow> 'w word segment list list \<Rightarrow> bool" where
  "pgm_levels_ok Error RecursiveError keys X levels \<longleftrightarrow> pgm_fits Error RecursiveError keys X \<and>
     (\<exists>ss rest. levels = ss # rest \<and> bottom_level Error keys ss \<and>
       (if RecursiveError = 0 then rest = []
        else tower (int RecursiveError) (int (length keys + 2 * RecursiveError)) (last keys) ss rest))"

lemma pgm_levels_keys:
  fixes keys :: "'w::len word list"
  assumes "pgm_levels_ok Error RecursiveError keys X levels" and "l < length levels"
  shows "keys_ok (hd keys) (last keys) (levels ! l)" and "length (levels ! l) \<le> length keys + 1"
    and "0 < RecursiveError \<Longrightarrow> if Suc l = length levels then length (levels ! l) = 1
      else next_level (int RecursiveError) (int (length keys + 2 * RecursiveError)) (last keys) (levels ! l) (levels ! Suc l)"
proof -
  obtain ss rest where L: "levels = ss # rest" "bottom_level Error keys ss" "pgm_fits Error RecursiveError keys X"
      "if RecursiveError = 0 then rest = [] else tower (int RecursiveError) (int (length keys + 2 * RecursiveError)) (last keys) ss rest"
    using assms(1) by (auto simp: pgm_levels_ok_def)
  note k = bottom_level_keys [OF L(3,2)] and f = pgm_fitsD [OF L(3)]
  obtain new st where "built (int Error) (int (length keys + 2 * Error)) (in_fun keys) (length keys) new st" "ss = padded (last keys) (length keys) new"
    using L(2) by (auto simp: bottom_level_def)
  then have len: "length ss \<le> length keys + 1" using built_length by (fastforce simp: padded_def)
  have t: "keys_ok (hd keys) (last keys) (levels ! l) \<and> length (levels ! l) \<le> length ss \<and> (0 < RecursiveError \<longrightarrow>
      (if Suc l = length levels then length (levels ! l) = 1
       else next_level (int RecursiveError) (int (length keys + 2 * RecursiveError)) (last keys) (levels ! l) (levels ! Suc l)))"
  proof (cases "RecursiveError = 0")
    case True
    then show ?thesis using L(1,4) k assms(2) by simp
  next
    case False
    then have tw: "tower (int RecursiveError) (int (length keys + 2 * RecursiveError)) (last keys) ss rest" using L(4) by (simp only: if_False)
    have "uint (last keys) + 1 < 2 ^ LENGTH('w)" using f(4,5) by linarith
    from tower_nth [OF tw k this, of l] assms(2) show ?thesis unfolding L(1) by blast
  qed
  then show "keys_ok (hd keys) (last keys) (levels ! l)" "0 < RecursiveError \<Longrightarrow> if Suc l = length levels then length (levels ! l) = 1
      else next_level (int RecursiveError) (int (length keys + 2 * RecursiveError)) (last keys) (levels ! l) (levels ! Suc l)" by blast+
  show "length (levels ! l) \<le> length keys + 1" using t len by linarith
qed

lemma upper_level_at:
  fixes keys :: "'w::len word list"
  assumes "pgm_levels_ok Error RecursiveError keys X levels" and "Suc l < length levels" and "0 < RecursiveError"
  shows "\<exists>new st. levels ! Suc l = padded (last keys) (length (levels ! l)) new \<and>
    level_at X (int RecursiveError) (int (length keys + 2 * RecursiveError)) (level_inp (levels ! l)) (length (levels ! l)) (last keys)
      new st (level_offsets levels ! Suc l) (flat (length keys) levels)"
proof -
  have "pgm_fits Error RecursiveError keys X" using assms(1) by (simp add: pgm_levels_ok_def)
  note f = pgm_fitsD [OF this]
  have l: "l < length levels" using assms(2) by simp
  note k = pgm_levels_keys [OF assms(1) l]
  obtain new st where b: "built (int RecursiveError) (int (length keys + 2 * RecursiveError)) (level_inp (levels ! l)) (length (levels ! l)) new st"
      "levels ! Suc l = padded (last keys) (length (levels ! l)) new"
    using k(3) [OF assms(3)] assms(2) by (auto simp: next_level_def)
  have "inp_ok X (level_inp (levels ! l)) (length (levels ! l))" using level_inp_ok [OF k(1)] f(4) by simp
  moreover have "int (length (levels ! l)) + int RecursiveError \<le> int (length keys + 2 * RecursiveError)" using k(2) assms(3) by simp
  moreover have "precise X (int (length keys + 2 * RecursiveError))" using f(7) by simp
  moreover obtain pre where "flat (length keys) levels = pre @ levels ! Suc l @ [segment_sentinel (length (levels ! l))] @
      flat (length (levels ! Suc l)) (drop (Suc (Suc l)) levels)" "length pre = level_offsets levels ! Suc l"
    using flat_split [OF assms(2), of "length keys"] by auto
  ultimately show ?thesis using b f(5) assms(3) unfolding level_at_def by auto
qed

lemma walk_levels_result:
  fixes keys :: "'w::len word list"
  assumes sc: "search_class lb ub" and L: "pgm_levels_ok Error RecursiveError keys X levels" and R: "0 < RecursiveError"
    and k: "hd keys \<le> k" "uint k \<le> X"
  shows "l < length levels \<Longrightarrow> responsible (last keys) (levels ! l) k i \<Longrightarrow>
    \<exists>j. responsible (last keys) (levels ! 0) k j \<and>
      walk_levels ub RecursiveError (pgm_of keys levels) k l (level_offsets levels ! l + i) = Some j"
proof (induction l arbitrary: i)
  case 0
  have "level_offsets levels ! 0 = 0" using flat_split [OF 0(1), of 0] 0(1) by (cases levels) (auto simp: level_offsets_def)
  then show ?case using 0 by simp
next
  case (Suc l)
  have f: "pgm_fits Error RecursiveError keys X" using L by (simp add: pgm_levels_ok_def)
  have l: "l < length levels" using Suc.prems by simp
  obtain new st where n: "levels ! Suc l = padded (last keys) (length (levels ! l)) new"
      "level_at X (int RecursiveError) (int (length keys + 2 * RecursiveError)) (level_inp (levels ! l)) (length (levels ! l)) (last keys)
        new st (level_offsets levels ! Suc l) (flat (length keys) levels)"
    using upper_level_at [OF L Suc.prems(1) R] by blast
  obtain pre where pre: "flat (length keys) levels = pre @ levels ! l @
      ([segment_sentinel (if l = 0 then length keys else length (levels ! (l - 1)))] @ flat (length (levels ! l)) (drop (Suc l) levels))"
      "length pre = level_offsets levels ! l"
    using flat_split [OF l, of "length keys"] by blast
  let ?p = "pgm_of keys levels"
  have p: "pg_segments ?p = flat (length keys) levels" "pg_levels_offsets ?p ! l = length pre" "pg_levels_sizes ?p ! l = length (levels ! l)"
    using pre(2) l by (simp_all add: pgm_of_def)
  from walk_step [OF sc pgm_levels_keys(1) [OF L l] k pgm_fitsD(8) [OF f] n(2) [folded p(1)] Suc.prems(2) [unfolded n(1)] pre(1) [folded p(1)] p(2,3)]
  obtain j where "responsible (last keys) (levels ! l) k j"
    "walk_levels ub RecursiveError ?p k (Suc l) (level_offsets levels ! Suc l + i) = walk_levels ub RecursiveError ?p k l (length pre + j)"
    by blast
  then show ?case using Suc.IH [OF l] pre(2) by simp
qed

lemma bottom_level_at:
  fixes keys :: "'w::len word list"
  assumes "pgm_levels_ok Error RecursiveError keys X levels"
  shows "\<exists>new st. levels ! 0 = padded (last keys) (length keys) new \<and>
    level_at X (int Error) (int (length keys + 2 * Error)) (in_fun keys) (length keys) (last keys) new st 0 (flat (length keys) levels)"
proof -
  obtain ss rest where L: "levels = ss # rest" "bottom_level Error keys ss" "pgm_fits Error RecursiveError keys X"
    using assms by (auto simp: pgm_levels_ok_def)
  note f = pgm_fitsD [OF L(3)]
  obtain new st where b: "built (int Error) (int (length keys + 2 * Error)) (in_fun keys) (length keys) new st" "ss = padded (last keys) (length keys) new"
    using L(2) by (auto simp: bottom_level_def)
  have "precise X (int (length keys + 2 * Error))" using f(6) by simp
  moreover have "inp_ok X (in_fun keys) (length keys)" using in_fun_ok [OF f(1)] f(4) by simp
  moreover have "int (length keys) + int Error \<le> int (length keys + 2 * Error)" by simp
  moreover have "flat (length keys) levels = [] @ padded (last keys) (length keys) new @ [segment_sentinel (length keys)] @ flat (length ss) rest"
    by (simp add: L(1) b(2))
  ultimately show ?thesis using b f(3,5) L(1) unfolding level_at_def by auto
qed

lemma segment_for_key_result:
  fixes keys :: "'w::len word list"
  assumes "search_class lb ub" and L: "pgm_levels_ok Error RecursiveError keys X levels" and k: "hd keys \<le> k" "uint k \<le> X"
  shows "\<exists>j. responsible (last keys) (levels ! 0) k j \<and> segment_for_key ub RecursiveError (pgm_of keys levels) k = Some j"
proof (cases "RecursiveError = 0")
  case True
  then obtain ss where ss: "levels = [ss]" using L by (auto simp: pgm_levels_ok_def)
  note keys = pgm_levels_keys(1) [OF L, of 0, unfolded ss, simplified]
  have "segment_upper_bound (take (length ss) (ss @ [segment_sentinel (length keys)])) k = key_count ss k"
    by (simp add: segment_upper_bound_def key_count_def)
  then show ?thesis
    using key_count(1) [OF keys k(1)] responsible_count [OF keys k(1)] True by (simp add: segment_for_key_def pgm_of_def ss Let_def)
next
  case False
  have ne: "levels \<noteq> []" using L by (auto simp: pgm_levels_ok_def)
  let ?l = "length levels - 1"
  have l: "?l < length levels" "Suc ?l = length levels" using ne by (cases levels; simp)+
  note top = pgm_levels_keys(1,3) [OF L l(1)]
  have one: "length (levels ! ?l) = 1" using top(2) False l(2) by simp
  moreover have "sg_key (levels ! ?l ! 0) = hd keys" using top(1) unfolding keys_ok_def by blast
  ultimately have "responsible (last keys) (levels ! ?l) k 0" using k(1) by (simp add: responsible_def)
  then obtain j where j: "responsible (last keys) (levels ! 0) k j"
      "walk_levels ub RecursiveError (pgm_of keys levels) k ?l (level_offsets levels ! ?l + 0) = Some j"
    using walk_levels_result [OF assms(1) L _ k l(1)] False by blast
  have "length (level_offsets levels) = length levels" by (simp add: level_offsets_def del: butlast.simps)
  then have "last (level_offsets levels) = level_offsets levels ! ?l" using ne by (subst last_conv_nth) auto
  then show ?thesis using j False ne by (simp add: segment_for_key_def height_def pgm_of_def)
qed

subsection \<open>The window\<close>

text \<open>The bottom level: the prediction for the key that the query uses.\<close>

lemma bottom_prediction:
  fixes keys :: "'w::len word list"
  assumes lv: "level_at X (int Error) M (in_fun keys) (length keys) (last keys) new st 0 segs" and sorted: "sorted keys" and max: "last keys \<noteq> - 1"
    and resp: "responsible (last keys) (padded (last keys) (length keys) new) k i" and X: "uint k \<le> X" and pred: "predict segs i k = Some pos"
    and le: "k \<le> last keys"
  shows "int pos \<le> int (key_position keys k) + int Error" and "k \<in> set keys \<Longrightarrow> int (key_position keys k) - int Error - 1 \<le> int pos"
proof -
  let ?t = "key_position keys k" and ?n = "length keys" and ?inp = "in_fun keys"
  note l = level_atD [OF lv] and t = key_position [OF sorted, where k = k]
  note r = resp [unfolded responsible_def]
  have pred': "predict segs (0 + i) k = Some pos" using pred by simp
  have i: "i < length new"
  proof (rule ccontr)
    assume "\<not> i < length new"
    then have "padded (last keys) ?n new ! i = extra_segment (last keys) ?n" using padded_extra(2) r by blast
    then have "sg_key (padded (last keys) ?n new ! i) = last keys + 1" by (simp add: extra_segment_def)
    then have "uint (last keys) + 1 \<le> uint k" using r uint_succ [OF max] by (simp add: word_le_def)
    then show False using le by (simp add: word_le_def)
  qed
  have ik: "sg_key (new ! i) \<le> k" using r padded_nth [OF i] by metis
  note st = builtD(4,5) [OF l(1) i]
  have key: "fst (?inp (st j)) = uint (sg_key (new ! j))" if "j < length new" for j using built_key [OF l(1,2,4) that] by simp
  have above: "uint k \<le> fst (?inp ?t)" if "?t < ?n"
    using t(3) [OF order_refl that] in_fun_bounds(2) [OF sorted that] by (simp add: word_le_def)
  have start: "st i \<le> ?t"
  proof (rule ccontr)
    assume "\<not> st i \<le> ?t"
    then have lt: "?t \<le> st i - 1" "0 < st i" "?t < ?n" using st by simp_all
    then have i0: "0 < i" using builtD(2) [OF l(1)] by (cases i) auto
    then obtain m where m: "i = Suc m" by (cases i) auto
    have "fst (?inp (st i - 1)) < fst (?inp (st i))"
      using builtD(8) [OF l(1), of m] inp_mono [OF l(2), of "st i - 1" "st i"] st i m by fastforce
    moreover have "fst (?inp ?t) \<le> fst (?inp (st i - 1))" using inp_mono [OF l(2) lt(1)] st by simp
    moreover have "fst (?inp (st i)) \<le> uint k" using key [OF i] ik by (simp add: word_le_def)
    ultimately show False using above [OF lt(3)] by linarith
  qed
  show "int pos \<le> int ?t + int Error" using predict_upper [OF lv i ik X start t(1) above pred'] .
  show "int ?t - int Error - 1 \<le> int pos" if mem: "k \<in> set keys"
  proof -
    have kt: "?t < ?n" "keys ! ?t = k" using t(4) [OF mem] by simp_all
    have first: "?t = 0 \<or> keys ! (?t - 1) < keys ! ?t" using t(2) [of "?t - 1"] kt by (cases "?t = 0") auto
    have it: "fst (?inp ?t) = uint k" using in_fun_bounds(6) [OF sorted kt(1) first] kt(2) by simp
    have "?t < st (Suc i)"
    proof (cases "Suc i < length new")
      case True
      then have "k < sg_key (padded (last keys) ?n new ! Suc i)" using r le by (simp add: padded_def)
      then have "uint k < fst (?inp (st (Suc i)))" using key [OF True] padded_nth [OF True] by (metis word_less_def)
      then show ?thesis using inp_mono [OF l(2), of "st (Suc i)" ?t] kt(1) it by (cases "?t < st (Suc i)") auto
    next
      case False
      then show ?thesis using i builtD(3) [OF l(1)] kt(1) by (simp add: not_less le_Suc_eq)
    qed
    moreover have "?t = st i \<or> fst (?inp (?t - 1)) \<noteq> fst (?inp ?t)"
    proof (cases "?t = 0")
      case False
      then have "fst (?inp (?t - 1)) < uint (keys ! ?t)" using in_fun_bounds(4) [OF sorted, of "?t - 1"] first kt(1) by simp
      then show ?thesis using it kt(2) by simp
    qed (use start in simp)
    ultimately show ?thesis using predict_lower [OF lv i ik X start _ _ _ pred'] it by simp
  qed
qed

text \<open>
  What a query promises: the window lies in the data, it has at most \<open>2 * Error + 1\<close> keys, it starts at or before the position of
  the key, and reaches that position when the key is present.
\<close>

definition window_ok :: "nat \<Rightarrow> 'w::len word list \<Rightarrow> 'w word \<Rightarrow> ApproxPos \<Rightarrow> bool" where
  "window_ok Error keys k ap \<longleftrightarrow> ap_lo ap \<le> ap_pos ap \<and> ap_pos ap \<le> ap_hi ap \<and> ap_hi ap \<le> length keys \<and>
     ap_hi ap \<le> ap_lo ap + 2 * Error + 1 \<and> ap_lo ap \<le> key_position keys k \<and>
     (k \<in> set keys \<longrightarrow> key_position keys k \<le> ap_hi ap)"

lemma key_position_max:
  assumes "sorted keys" and "keys \<noteq> []"
  shows "key_position keys (max (hd keys) k) = key_position keys k" and "k \<in> set keys \<Longrightarrow> max (hd keys) k = k"
proof -
  obtain x xs where x: "keys = x # xs" using assms(2) by (cases keys) auto
  show "key_position keys (max (hd keys) k) = key_position keys k"
    by (cases "hd keys \<le> k") (auto simp: x key_position_def max_def)
  show "max (hd keys) k = k" if "k \<in> set keys"
  proof -
    have "x \<le> k" using that assms(1) unfolding x by auto
    then show ?thesis by (simp add: x max_absorb2)
  qed
qed

lemma approximate_position:
  fixes keys :: "'w::len word list"
  assumes sc: "search_class lb ub" and L: "pgm_levels_ok Error RecursiveError keys X levels" and X: "uint k \<le> X"
  shows "\<exists>ap. find_approximate_position ub Error RecursiveError (pgm_of keys levels) k = Some ap \<and> window_ok Error keys k ap"
proof -
  let ?k = "max (hd keys) k" and ?n = "length keys" and ?segs = "flat (length keys) levels" and ?t = "key_position keys k"
  have "pgm_fits Error RecursiveError keys X" using L by (simp add: pgm_levels_ok_def)
  note f = pgm_fitsD [OF this]
  note m = key_position_max [OF f(1,2)] and t = key_position [OF f(1), where k = k]
  have hk: "hd keys \<le> ?k" by simp
  have "uint (hd keys) \<le> X" using f(4,9) by (simp add: word_le_def)
  then have kX: "uint ?k \<le> X" using X by (simp add: max_def)
  obtain i where i: "responsible (last keys) (levels ! 0) ?k i" "segment_for_key ub RecursiveError (pgm_of keys levels) ?k = Some i"
    using segment_for_key_result [OF sc L hk kX] by blast
  obtain new st where lv: "levels ! 0 = padded (last keys) ?n new"
      "level_at X (int Error) (int (?n + 2 * Error)) (in_fun keys) ?n (last keys) new st 0 ?segs"
    using bottom_level_at [OF L] by blast
  note r = i(1) [unfolded lv(1)]
  obtain pos where pos: "predict ?segs i ?k = Some pos" "pos \<le> ?n"
    using predict_le [OF lv(2) _ _ kX, of i] r by (auto simp: responsible_def)
  have low: "pos - Error \<le> ?t"
  proof (cases "?k \<le> last keys")
    case True
    then show ?thesis using bottom_prediction(1) [OF lv(2) f(1,8) r kX pos(1)] m(1) by simp
  next
    case False
    have "?t = ?n"
    proof (rule ccontr)
      assume "?t \<noteq> ?n"
      then have "?k \<le> keys ! ?t" "?t < ?n" using key_position(3) [OF f(1), of ?k ?t] t(1) m(1) by auto
      then have "?k \<le> last keys" using sorted_nth_le_last [OF f(1), of ?t] by (metis order.trans)
      then show False using False by blast
    qed
    then show ?thesis using pos(2) by simp
  qed
  have high: "?t \<le> pos + Error + 1" if mem: "k \<in> set keys"
  proof -
    have "?k \<le> last keys" using m(2) [OF mem] mem sorted_nth_le_last [OF f(1)] by (auto simp: in_set_conv_nth)
    then show ?thesis using bottom_prediction(2) [OF lv(2) f(1,8) r kX pos(1)] m mem by simp
  qed
  have "?n + Error \<le> 2 ^ 31" using level_atD(6) [OF lv(2)] by simp
  then have small: "?n + (Error + 1) < 2 ^ 64" by simp
  note w = window_bounds [OF pos(2) small]
  let ?ap = "\<lparr>ap_pos = pos, ap_lo = SUB_ERR pos Error, ap_hi = ADD_ERR pos (Error + 1) ?n\<rparr>"
  have "find_approximate_position ub Error RecursiveError (pgm_of keys levels) k = Some ?ap"
    using i(2) pos(1) by (simp add: find_approximate_position_def pgm_of_def Let_def)
  moreover have "window_ok Error keys k ?ap"
    unfolding window_ok_def w using low high pos(2) t(1) by auto
  ultimately show ?thesis by blast
qed

lemma pgm_index_exists:
  assumes "pgm_fits Error RecursiveError keys X"
  shows "\<exists>levels. PGMIndex Error RecursiveError keys = Some (pgm_of keys levels) \<and> pgm_levels_ok Error RecursiveError keys X levels"
  using PGMIndex_result [OF assms] assms unfolding pgm_levels_ok_def by blast

end
