(* ===== verification/Pgm_Bench.thy ===== *)
theory Pgm_Bench
  imports Pgm_Index_Correct Benchmark_Verify Linear_Search Binary_Search
begin

text \<open>
  The wrapper \<^verbatim>\<open>PGM\<close> of \<^verbatim>\<open>src/competitors/pgm_index.h\<close> around the static PGM-index, its contract as an index of the
  benchmark, and the properties of the index.
\<close>

subsection \<open>The wrapper\<close>

text \<open>
  The template arguments: the error, the error of the upper levels (4 in the wrapper), and the two functions of the search class.
\<close>

record 'k pgm_params =
  pgm_error :: nat
  pgm_recursive_error :: nat
  pgm_lower :: "'k search"
  pgm_upper :: "'k search"

record 'k PGM_fields =
  the_pgm :: "'k pgm"
  the_data :: "'k KeyValue list"

definition PGM_Build :: "'w::len word pgm_params \<Rightarrow> 'w word KeyValue list \<Rightarrow> 'w word PGM_fields option" where
  "PGM_Build C data = do {
     let keys = map kv_key data;
     p \<leftarrow> PGMIndex (pgm_error C) (pgm_recursive_error C) keys;
     Some \<lparr>the_pgm = p, the_data = data\<rparr>
   }"

definition PGM_lower_bound :: "'w::len word pgm_params \<Rightarrow> 'w word PGM_fields \<Rightarrow> 'w word \<Rightarrow> nat option" where
  "PGM_lower_bound C s key = do {
     approx_range \<leftarrow> find_approximate_position (pgm_upper C) (pgm_error C) (pgm_recursive_error C) (the_pgm s) key;
     it \<leftarrow> pgm_lower C (int (ap_lo approx_range)) (int (ap_hi approx_range)) key (int (ap_pos approx_range))
       (list_reader (map kv_key (the_data s)));
     Some (nat it)
   }"

definition PGM_EqualityLookup :: "'w::len word pgm_params \<Rightarrow> 'w word PGM_fields \<Rightarrow> 'w word \<Rightarrow> u64 option" where
  "PGM_EqualityLookup C s lookup_key = do {
     it \<leftarrow> PGM_lower_bound C s lookup_key;
     if it = length (the_data s) then Some OVERFLOW
     else if it > length (the_data s) then None
     else if kv_key (the_data s ! it) \<noteq> lookup_key then Some OVERFLOW
     else Some (of_nat it)
   }"

text \<open>The two loops of \<^verbatim>\<open>RangeQuery\<close> on the data from the iterator on.\<close>

fun PGM_skip :: "'k::linorder KeyValue list \<Rightarrow> 'k \<Rightarrow> 'k KeyValue list" where
  "PGM_skip [] lower_key = []"
| "PGM_skip (kv # kvs) lower_key = (if kv_key kv < lower_key then PGM_skip kvs lower_key else kv # kvs)"

fun PGM_sum :: "'k::linorder KeyValue list \<Rightarrow> 'k \<Rightarrow> u64 \<Rightarrow> u64" where
  "PGM_sum [] upper_key result = result"
| "PGM_sum (kv # kvs) upper_key result = (if kv_key kv \<le> upper_key then PGM_sum kvs upper_key (result + kv_value kv) else result)"

definition PGM_RangeQuery :: "'w::len word pgm_params \<Rightarrow> 'w word PGM_fields \<Rightarrow> 'w word \<Rightarrow> 'w word \<Rightarrow> u64 option" where
  "PGM_RangeQuery C s lower_key upper_key = do {
     it \<leftarrow> PGM_lower_bound C s lower_key;
     if it > length (the_data s) then None
     else Some (PGM_sum (PGM_skip (drop it (the_data s)) lower_key) upper_key 0)
   }"

definition PGM_size :: "'w::len word PGM_fields \<Rightarrow> nat" where
  "PGM_size s = size_in_bytes (the_pgm s) + (LENGTH('w) div 8 + 8) * length (the_data s)"

text \<open>The base class ignores insertions.\<close>

definition PGM :: "'w::len word pgm_params \<Rightarrow> ('w word, 'w word PGM_fields) index_ops" where
  "PGM C =
     \<lparr>ix_Build = PGM_Build C,
      ix_EqualityLookup = (\<lambda>s lookup_key thread_id. PGM_EqualityLookup C s lookup_key),
      ix_RangeQuery = (\<lambda>s lower_key upper_key thread_id. PGM_RangeQuery C s lower_key upper_key),
      ix_Insert = (\<lambda>data thread_id s. Some s)\<rparr>"

subsection \<open>Queries\<close>

definition PGM_ok :: "'w::len word pgm_params \<Rightarrow> int \<Rightarrow> 'w word PGM_fields \<Rightarrow> bool" where
  "PGM_ok C X s \<longleftrightarrow> (\<exists>levels. the_pgm s = pgm_of (map kv_key (the_data s)) levels \<and>
     pgm_levels_ok (pgm_error C) (pgm_recursive_error C) (map kv_key (the_data s)) X levels)"

lemma PGM_Build_ok:
  assumes "pgm_fits (pgm_error C) (pgm_recursive_error C) (map kv_key data) X"
  shows "\<exists>s. PGM_Build C data = Some s \<and> the_data s = data \<and> PGM_ok C X s"
  using pgm_index_exists [OF assms] by (auto simp: PGM_Build_def PGM_ok_def)

text \<open>The search in the window ends at or before the position of the key, and there when the key is present.\<close>

lemma PGM_lower_bound_result:
  assumes sc: "search_class (pgm_lower C) (pgm_upper C)" and s: "PGM_ok C X s" and X: "uint k \<le> X"
  shows "\<exists>it. PGM_lower_bound C s k = Some it \<and> it \<le> key_position (map kv_key (the_data s)) k \<and>
    (k \<in> set (map kv_key (the_data s)) \<longrightarrow> it = key_position (map kv_key (the_data s)) k)"
proof -
  let ?keys = "map kv_key (the_data s)"
  let ?t = "key_position ?keys k"
  obtain levels where L: "the_pgm s = pgm_of ?keys levels" "pgm_levels_ok (pgm_error C) (pgm_recursive_error C) ?keys X levels"
    using s by (auto simp: PGM_ok_def)
  have "pgm_fits (pgm_error C) (pgm_recursive_error C) ?keys X" using L(2) by (simp add: pgm_levels_ok_def)
  note f = pgm_fitsD [OF this]
  have len: "length ?keys \<le> 2 ^ 53" using preciseD(3) [OF f(6)] by simp
  obtain ap where ap: "find_approximate_position (pgm_upper C) (pgm_error C) (pgm_recursive_error C) (the_pgm s) k = Some ap"
      "window_ok (pgm_error C) ?keys k ap"
    using approximate_position [OF sc L(2) X] unfolding L(1) by blast
  note w = ap(2) [unfolded window_ok_def]
  then have "pgm_lower C (int (ap_lo ap)) (int (ap_hi ap)) k (int (ap_pos ap)) (list_reader ?keys) = Some (int (min (ap_hi ap) ?t))"
    using len w by (intro window_search [OF sc f(1)]) auto
  then show ?thesis using ap(1) w by (auto simp: PGM_lower_bound_def)
qed

lemma PGM_EqualityLookup_result:
  assumes "search_class (pgm_lower C) (pgm_upper C)" and "PGM_ok C X s" and "uint k \<le> X"
  shows "PGM_EqualityLookup C s k =
    Some (if k \<in> set (map kv_key (the_data s)) then of_nat (key_position (map kv_key (the_data s)) k) else OVERFLOW)"
proof -
  have "sorted (map kv_key (the_data s))" using assms(2) by (auto simp: PGM_ok_def pgm_levels_ok_def dest: pgm_fitsD(1))
  note t = key_position [OF this, where k = k]
  obtain it where it: "PGM_lower_bound C s k = Some it" "it \<le> key_position (map kv_key (the_data s)) k"
      "k \<in> set (map kv_key (the_data s)) \<Longrightarrow> it = key_position (map kv_key (the_data s)) k"
    using PGM_lower_bound_result [OF assms] by blast
  have len: "it \<le> length (the_data s)" using it(2) t(1) by simp
  show ?thesis
  proof (cases "k \<in> set (map kv_key (the_data s))")
    case True
    have lt: "it < length (the_data s)" and "map kv_key (the_data s) ! it = k" using it(3) [OF True] t(4) [OF True] by simp_all
    then have "kv_key (the_data s ! it) = k" by simp
    then show ?thesis using it(1,3) lt True by (simp add: PGM_EqualityLookup_def)
  next
    case False
    then have "kv_key (the_data s ! it) \<noteq> k" if "it < length (the_data s)" using that by auto
    then show ?thesis using it(1) len False by (auto simp: PGM_EqualityLookup_def)
  qed
qed

lemma PGM_skip_drop: "PGM_skip kvs k = dropWhile (\<lambda>kv. kv_key kv < k) kvs"
  by (induction kvs) auto

lemma PGM_sum_result: "PGM_sum kvs hi r = r + sum_list (map kv_value (takeWhile (\<lambda>kv. kv_key kv \<le> hi) kvs))"
  by (induction kvs arbitrary: r) (auto simp: algebra_simps)

lemma sorted_takeWhile_Nil:
  assumes "sorted (map kv_key (kv # kvs))" and "\<not> kv_key kv \<le> hi"
  shows "takeWhile (\<lambda>kv. kv_key kv \<le> hi) kvs = []"
  using assms by (cases kvs) auto

lemma sorted_range_sum:
  fixes kvs :: "'k::linorder KeyValue list"
  assumes "sorted (map kv_key kvs)"
  shows "sum_list (map kv_value (takeWhile (\<lambda>kv. kv_key kv \<le> hi) (dropWhile (\<lambda>kv. kv_key kv < lo) kvs))) = pair_sum (kv_pairs kvs) lo hi"
  using assms
proof (induction kvs)
  case (Cons kv kvs)
  have above: "filter (\<lambda>(k, v). lo \<le> k \<and> k \<le> hi) (kv_pairs kvs) = kv_pairs (takeWhile (\<lambda>kv. kv_key kv \<le> hi) kvs)" if "lo \<le> kv_key kv"
    using Cons.prems that by (induction kvs) (auto simp: kv_pairs_def sorted_takeWhile_Nil)
  have sum: "sum_list (map (\<lambda>(k, v). v) (kv_pairs xs)) = sum_list (map kv_value xs)" for xs :: "'k KeyValue list"
    by (simp add: kv_pairs_def o_def)
  show ?case
    using Cons above sum by (auto simp: pair_sum_def kv_pairs_def sorted_takeWhile_Nil)
qed (simp add: pair_sum_def kv_pairs_def)

lemma dropWhile_from:
  assumes "sorted (map kv_key kvs)" and "it \<le> key_position (map kv_key kvs) k"
  shows "dropWhile (\<lambda>kv. kv_key kv < k) (drop it kvs) = dropWhile (\<lambda>kv. kv_key kv < k) kvs"
  using assms
proof (induction it arbitrary: kvs)
  case (Suc it)
  show ?case
  proof (cases kvs)
    case (Cons kv rest)
    have "kv_key kv < k" using Suc.prems(2) by (auto simp: Cons key_position_def split: if_splits)
    then show ?thesis using Suc.IH [of rest] Suc.prems by (simp add: Cons key_position_def)
  qed simp
qed simp

lemma PGM_RangeQuery_result:
  assumes "search_class (pgm_lower C) (pgm_upper C)" and "PGM_ok C X s" and "uint lo \<le> X"
  shows "PGM_RangeQuery C s lo hi = Some (pair_sum (kv_pairs (the_data s)) lo hi)"
proof -
  have srt: "sorted (map kv_key (the_data s))" using assms(2) by (auto simp: PGM_ok_def pgm_levels_ok_def dest: pgm_fitsD(1))
  obtain it where it: "PGM_lower_bound C s lo = Some it" "it \<le> key_position (map kv_key (the_data s)) lo"
    using PGM_lower_bound_result [OF assms] by blast
  have "it \<le> length (the_data s)" using it(2) key_position(1) [OF srt, of lo] by simp
  then show ?thesis
    using it(1) dropWhile_from [OF srt it(2)] sorted_range_sum [OF srt]
    by (simp add: PGM_RangeQuery_def PGM_skip_drop PGM_sum_result)
qed

subsection \<open>The contract with the benchmark\<close>

text \<open>
  An \<open>EqualityLookup\<close> returns the position of the key in the data, so the values of the data have to be these positions, as they are when
  the benchmark loads a whole data file. The bound \<open>X\<close> has to cover every key that is asked for: here all keys of the type.
\<close>

definition PGM_represents :: "'w::len word pgm_params \<Rightarrow> 'w word PGM_fields \<Rightarrow> ('w word \<times> u64) list \<Rightarrow> bool" where
  "PGM_represents C s kvs \<longleftrightarrow> PGM_ok C (2 ^ LENGTH('w) - 1) s \<and> kv_pairs (the_data s) = kvs \<and> map snd kvs = map of_nat [0..<length kvs]"

definition PGM_builds :: "'w::len word pgm_params \<Rightarrow> ('w word \<times> u64) list \<Rightarrow> bool" where
  "PGM_builds C kvs \<longleftrightarrow> pgm_fits (pgm_error C) (pgm_recursive_error C) (map fst kvs) (2 ^ LENGTH('w) - 1) \<and>
     map snd kvs = map of_nat [0..<length kvs]"

lemma keys_of_pairs: "map fst (kv_pairs data) = map kv_key data"
  by (simp add: kv_pairs_def)

text \<open>When the values are positions, the position of a present key is its value.\<close>

lemma position_value:
  assumes srt: "sorted (map kv_key data)" and kvs: "kv_pairs data = kvs" and pos: "map snd kvs = map of_nat [0..<length kvs]"
    and mem: "k \<in> set (map kv_key data)"
  shows "(k, of_nat (key_position (map kv_key data) k)) \<in> set kvs"
proof -
  let ?keys = "map kv_key data" let ?t = "key_position ?keys k"
  from key_position(4) [OF srt mem] have t: "?t < length ?keys" "?keys ! ?t = k" by simp_all
  then have lt: "?t < length kvs" by (simp add: kvs [symmetric] kv_pairs_def)
  have "fst (kvs ! ?t) = k" using t by (simp add: kvs [symmetric] kv_pairs_def)
  moreover have "snd (kvs ! ?t) = of_nat ?t" using arg_cong [OF pos, of "\<lambda>xs. xs ! ?t"] lt by simp
  ultimately show ?thesis using nth_mem [OF lt] by (metis prod.collapse)
qed

lemma PGM_contract:
  fixes C :: "'w::len word pgm_params"
  assumes sc: "search_class (pgm_lower C) (pgm_upper C)"
  shows "index_contract (PGM C) (PGM_represents C) (PGM_builds C) (\<lambda>_. False)"
proof
  fix data :: "'w word KeyValue list" assume b: "PGM_builds C (kv_pairs data)"
  then have "pgm_fits (pgm_error C) (pgm_recursive_error C) (map kv_key data) (2 ^ LENGTH('w) - 1)"
    unfolding PGM_builds_def keys_of_pairs by blast
  from PGM_Build_ok [OF this] b show "\<exists>i. ix_Build (PGM C) data = Some i \<and> PGM_represents C i (kv_pairs data)"
    by (auto simp: PGM_def PGM_represents_def PGM_builds_def)
next
  fix i :: "'w word PGM_fields" and kvs and k :: "'w word" and t assume r: "PGM_represents C i kvs"
  have ok: "PGM_ok C (2 ^ LENGTH('w) - 1) i" and kvs: "kvs = kv_pairs (the_data i)" and pos: "map snd kvs = map of_nat [0..<length kvs]"
    using r by (simp_all add: PGM_represents_def)
  have "uint k < 2 ^ LENGTH('w)" by simp
  then have k: "uint k \<le> 2 ^ LENGTH('w) - 1" by linarith
  let ?keys = "map kv_key (the_data i)" let ?t = "key_position ?keys k"
  have keys: "fst ` set kvs = set ?keys" unfolding kvs keys_of_pairs [symmetric] by simp
  have "sorted ?keys" using ok by (auto simp: PGM_ok_def pgm_levels_ok_def dest: pgm_fitsD(1))
  then have "(k, of_nat ?t) \<in> set kvs" if "k \<in> set ?keys" using position_value [OF _ kvs [symmetric] pos that] by blast
  then show "\<exists>r. ix_EqualityLookup (PGM C) i k t = Some r \<and> (if k \<in> fst ` set kvs then (k, r) \<in> set kvs else r = OVERFLOW)"
    using PGM_EqualityLookup_result [OF sc ok k] keys by (simp add: PGM_def)
next
  fix i :: "'w word PGM_fields" and kvs and lo hi :: "'w word" and t assume r: "PGM_represents C i kvs"
  have "uint lo < 2 ^ LENGTH('w)" by simp
  then have "uint lo \<le> 2 ^ LENGTH('w) - 1" by linarith
  then show "ix_RangeQuery (PGM C) i lo hi t = Some (pair_sum kvs lo hi)"
    using PGM_RangeQuery_result [OF sc] r by (auto simp: PGM_def PGM_represents_def)
qed simp

definition pgm32 :: "u32 pgm_params" where
  "pgm32 = \<lparr>pgm_error = 64, pgm_recursive_error = 4,
     pgm_lower = (\<lambda>a b key s at'. LinearSearch_lower_bound a b key s at' (<)),
     pgm_upper = (\<lambda>a b key s at'. LinearSearch_upper_bound a b key s at' (<))\<rparr>"

interpretation pgm32: index_contract "PGM pgm32" "PGM_represents pgm32" "PGM_builds pgm32" "\<lambda>_. False"
  by (rule PGM_contract) (simp add: pgm32_def linear.search_class_axioms)

subsection \<open>The shape of the index\<close>

lemma tower_sizes:
  assumes "tower err M last_key ss rest"
  shows "sorted_wrt (>) (map length (ss # rest))" and "last (map length (ss # rest)) = 1"
proof -
  have "sorted_wrt (>) (map length (ss # rest)) \<and> last (map length (ss # rest)) = 1"
    using assms
  proof (induction rest arbitrary: ss)
    case (Cons tt rest)
    then have t: "length tt < length ss" "sorted_wrt (>) (map length (tt # rest))" "last (map length (tt # rest)) = 1" by auto
    moreover have "x < length ss" if "x \<in> set (map length (tt # rest))" for x
      using that t(1,2) by fastforce
    ultimately show ?case by (simp del: list.map) simp
  qed simp
  then show "sorted_wrt (>) (map length (ss # rest))" "last (map length (ss # rest)) = 1" by blast+
qed

lemma length_flat: "length (flat n levels) = sum_list (map (\<lambda>ss. Suc (length ss)) levels)"
  by (induction n levels rule: flat.induct) simp_all

lemma level_ends_sums:
  "level_ends off levels = map (\<lambda>l. off + sum_list (map (\<lambda>ss. Suc (length ss)) (take (Suc l) levels))) [0..<length levels]"
  by (induction levels arbitrary: off) (simp_all add: upt_conv_Cons map_Suc_upt [symmetric] o_def del: upt_Suc)

lemma level_offsets_sums:
  "level_offsets levels = map (\<lambda>l. sum_list (map (\<lambda>ss. Suc (length ss)) (take l levels))) [0..<length levels]"
proof (rule nth_equalityI)
  have len: "length (level_ends 0 levels) = length levels" by (simp add: level_ends_sums)
  then show length: "length (level_offsets levels) =
      length (map (\<lambda>l. sum_list (map (\<lambda>ss. Suc (length ss)) (take l levels))) [0..<length levels])"
    by (simp add: level_offsets_def del: butlast.simps)
  fix l assume "l < length (level_offsets levels)"
  then have "l < length levels" using length by simp
  moreover from this have "level_offsets levels ! l = (0 # level_ends 0 levels) ! l"
    unfolding level_offsets_def by (intro nth_butlast) (simp add: len del: butlast.simps)
  ultimately show "level_offsets levels ! l = map (\<lambda>l. sum_list (map (\<lambda>ss. Suc (length ss)) (take l levels))) [0..<length levels] ! l"
    by (cases l) (simp_all add: level_ends_sums)
qed

subsection \<open>Properties\<close>

text \<open>C6. The guarantee that the documentation of the PGM-index states: built on sorted keys that do not contain the largest key, it
  returns for every key a window of at most twice the error and one positions; the window starts at or before the position of the key, and if the key is
  present it reaches this position. So the floating-point arithmetic of the segments, the walk through the
  levels and the sentinels never go wrong, in as far as the largest key times the number of keys (with the errors) is at most \<open>2 ^ 56\<close>.\<close>

theorem pgm_index_window:
  assumes "search_class lb ub" and "pgm_fits Error RecursiveError keys X" and "uint k \<le> X"
  shows "\<exists>p ap. PGMIndex Error RecursiveError keys = Some p \<and>
    find_approximate_position ub Error RecursiveError p k = Some ap \<and> window_ok Error keys k ap"
proof -
  obtain levels where "PGMIndex Error RecursiveError keys = Some (pgm_of keys levels)" "pgm_levels_ok Error RecursiveError keys X levels"
    using pgm_index_exists [OF assms(2)] by blast
  then show ?thesis using approximate_position [OF assms(1) _ assms(3)] by blast
qed

text \<open>Keys with duplicates, and a present key.\<close>

theorem pgm_index_window_witness:
  "\<exists>p ap. PGMIndex 4 4 [5, 9, 9, 9, 20 :: u64] = Some p \<and>
     find_approximate_position (\<lambda>a b key s at'. BranchingBinarySearch_upper_bound a b key s at' (<)) 4 4 p 20 = Some ap \<and>
     ap_lo ap \<le> 4 \<and> 4 \<le> ap_hi ap"
proof -
  have "pgm_fits 4 4 [5, 9, 9, 9, 20 :: u64] 100" by (simp add: pgm_fits_def precise_def)
  from pgm_index_window [OF binary.search_class_axioms this, of 20] show ?thesis
    by (auto simp: window_ok_def key_position_def)
qed

text \<open>C8. Building the index ends: every level of the loop in the constructor has fewer segments than the level below, so the sizes strictly
  decrease; with \<open>RecursiveError > 0\<close> the last level is a single segment, otherwise there is one level. The vector of segments holds
  the levels with one sentinel each, and the offsets are the positions where the levels start in it.\<close>

theorem pgm_index_building_ends:
  assumes "pgm_fits Error RecursiveError keys X"
  shows "\<exists>p. PGMIndex Error RecursiveError keys = Some p \<and> sorted_wrt (>) (pg_levels_sizes p) \<and>
    (if RecursiveError = 0 then height p = 1 else last (pg_levels_sizes p) = 1) \<and>
    length (pg_segments p) = sum_list (map Suc (pg_levels_sizes p)) \<and>
    pg_levels_offsets p = map (\<lambda>l. sum_list (map Suc (take l (pg_levels_sizes p)))) [0..<height p]"
proof -
  obtain levels where p: "PGMIndex Error RecursiveError keys = Some (pgm_of keys levels)" "pgm_levels_ok Error RecursiveError keys X levels"
    using pgm_index_exists [OF assms] by blast
  then obtain ss rest where l: "levels = ss # rest"
    "if RecursiveError = 0 then rest = [] else tower (int RecursiveError) (int (length keys + 2 * RecursiveError)) (last keys) ss rest"
    by (auto simp: pgm_levels_ok_def)
  have "sorted_wrt (>) (map length levels)" "if RecursiveError = 0 then length levels = 1 else last (map length levels) = 1"
    using l tower_sizes [of "int RecursiveError" _ "last keys" ss rest] by (auto split: if_splits)
  then show ?thesis using p(1) length_flat [of "length keys" levels] level_offsets_sums [of levels]
    by (intro exI [of _ "pgm_of keys levels"]) (simp add: pgm_of_def height_def o_def take_map)
qed

text \<open>Both cases of the recursion, and a bottom level of three segments.\<close>

theorem pgm_index_building_ends_witness:
  "\<exists>p. PGMIndex 1 4 [1, 2, 3, 4, 100, 200, 201, 202, 203, 204, 5000 :: u32] = Some p \<and>
     sorted_wrt (>) (pg_levels_sizes p) \<and> last (pg_levels_sizes p) = 1"
proof -
  have "pgm_fits 1 4 [1, 2, 3, 4, 100, 200, 201, 202, 203, 204, 5000 :: u32] 10000" by (simp add: pgm_fits_def precise_def)
  from pgm_index_building_ends [OF this] show ?thesis by auto
qed

text \<open>C7. The wrapper of the benchmark, for any search class: building succeeds; afterwards an equality lookup returns the position of the first
  pair with the key, or \<open>OVERFLOW\<close> when there is none, and a range query returns the sum of the values of the keys in the range.\<close>

theorem pgm_correct:
  fixes C :: "'w::len word pgm_params" and data :: "'w word KeyValue list"
  assumes "search_class (pgm_lower C) (pgm_upper C)"
    and "pgm_fits (pgm_error C) (pgm_recursive_error C) (map kv_key data) X"
  shows "\<exists>s. PGM_Build C data = Some s \<and> (\<forall>k hi. uint k \<le> X \<longrightarrow>
    PGM_EqualityLookup C s k =
      Some (if k \<in> kv_key ` set data then of_nat (length (takeWhile (\<lambda>kv. kv_key kv < k) data)) else OVERFLOW) \<and>
    PGM_RangeQuery C s k hi = Some (pair_sum (kv_pairs data) k hi))"
proof -
  obtain s where s: "PGM_Build C data = Some s" "the_data s = data" "PGM_ok C X s" using PGM_Build_ok [OF assms(2)] by blast
  have "length (takeWhile (\<lambda>kv. kv_key kv < k) data) = key_position (map kv_key data) k" for k
    by (simp add: key_position_def takeWhile_map o_def)
  then show ?thesis
    using s PGM_EqualityLookup_result [OF assms(1) s(3)] PGM_RangeQuery_result [OF assms(1) s(3)] by simp
qed

text \<open>A key that occurs twice, an absent one, and a range.\<close>

theorem pgm_correct_witness:
  "\<exists>s. PGM_Build pgm32 (map (\<lambda>(k, v). \<lparr>kv_key = k, kv_value = v\<rparr>) [(3, 10), (7, 20), (7, 30), (9, 40)]) = Some s \<and>
     PGM_EqualityLookup pgm32 s 7 = Some 1 \<and> PGM_EqualityLookup pgm32 s 8 = Some OVERFLOW \<and>
     PGM_RangeQuery pgm32 s 7 8 = Some 50"
proof -
  let ?d = "map (\<lambda>(k, v). \<lparr>kv_key = k, kv_value = v\<rparr>) [(3 :: u32, 10), (7, 20), (7, 30), (9, 40)]"
  have "search_class (pgm_lower pgm32) (pgm_upper pgm32)" by (simp add: pgm32_def linear.search_class_axioms)
  moreover have "pgm_fits (pgm_error pgm32) (pgm_recursive_error pgm32) (map kv_key ?d) 10"
    by (simp add: pgm32_def pgm_fits_def precise_def)
  ultimately obtain s where s: "PGM_Build pgm32 ?d = Some s" and
    q: "\<And>k hi. uint k \<le> 10 \<Longrightarrow> PGM_EqualityLookup pgm32 s k =
        Some (if k \<in> kv_key ` set ?d then of_nat (length (takeWhile (\<lambda>kv. kv_key kv < k) ?d)) else OVERFLOW) \<and>
      PGM_RangeQuery pgm32 s k hi = Some (pair_sum (kv_pairs ?d) k hi)"
    using pgm_correct [of pgm32 ?d 10] by blast
  have "PGM_EqualityLookup pgm32 s 7 = Some 1" using q [of 7] by simp
  moreover have "PGM_EqualityLookup pgm32 s 8 = Some OVERFLOW" using q [of 8] by simp
  moreover have "PGM_RangeQuery pgm32 s 7 8 = Some 50" using q [of 7 8] by (simp add: pair_sum_def kv_pairs_def)
  ultimately show ?thesis using s by blast
qed

end
