(* ===== verification/Stx_Btree.thy ===== *)
theory Stx_Btree
  imports Search_Class Util
begin

text \<open>
  The B+-tree of \<^verbatim>\<open>stx-btree-0.9/include/stx/btree.h\<close>: nodes, iterators, queries, insertion with node splits,
  bulk loading, and the self-verification \<^verbatim>\<open>verify\<close>. Inner nodes are owned by their parents and are values of a
  datatype; leaves are reached both from their parents and through the doubly linked chain, so they live in an
  explicit memory and are named by addresses. An array of slots together with \<^verbatim>\<open>slotuse\<close> is the list of the used slots; a write
  beyond the array, a null pointer and a failed assertion are \<open>None\<close>.
\<close>

subsection \<open>Nodes\<close>

type_synonym addr = nat


text \<open>The template parameters: slots per node, duplicates, and the search class.\<close>

record 'k btree_params =
  leafslotmax :: nat
  innerslotmax :: nat
  allow_duplicates :: bool
  bt_lower :: "'k search"
  bt_upper :: "'k search"

definition minleafslots :: "'k btree_params \<Rightarrow> nat" where
  "minleafslots C = leafslotmax C div 2"

definition mininnerslots :: "'k btree_params \<Rightarrow> nat" where
  "mininnerslots C = innerslotmax C div 2"

record 'k leaf_node =
  slotkey :: "'k list"
  slotdata :: "u64 list"
  prevleaf :: "addr option"
  nextleaf :: "addr option"

definition new_leaf :: "'k leaf_node" where
  "new_leaf = \<lparr>slotkey = [], slotdata = [], prevleaf = None, nextleaf = None\<rparr>"

datatype 'k node = Leaf addr | Inner nat "'k list" "'k node list"

fun node_level :: "'k node \<Rightarrow> nat" where
  "node_level (Leaf a) = 0"
| "node_level (Inner level ks cs) = level"

record tree_stats =
  itemcount :: nat
  leaves :: nat
  innernodes :: nat

record 'k btree =
  m_root :: "'k node option"
  m_headleaf :: "addr option"
  m_tailleaf :: "addr option"
  m_stats :: tree_stats
  memory :: "addr \<Rightarrow> 'k leaf_node option"
  fresh :: addr

definition btree_empty :: "'k btree" where
  "btree_empty = \<lparr>m_root = None, m_headleaf = None, m_tailleaf = None,
     m_stats = \<lparr>itemcount = 0, leaves = 0, innernodes = 0\<rparr>, memory = (\<lambda>_. None), fresh = 0\<rparr>"

definition set_leaf :: "addr \<Rightarrow> 'k leaf_node \<Rightarrow> 'k btree \<Rightarrow> 'k btree" where
  "set_leaf a l bt = bt\<lparr>memory := (memory bt)(a := Some l)\<rparr>"

definition allocate_leaf :: "'k btree \<Rightarrow> addr \<times> 'k btree" where
  "allocate_leaf bt = (fresh bt, set_leaf (fresh bt) new_leaf
     (bt\<lparr>fresh := fresh bt + 1, m_stats := (m_stats bt)\<lparr>leaves := leaves (m_stats bt) + 1\<rparr>\<rparr>))"

definition allocate_inner :: "'k btree \<Rightarrow> 'k btree" where
  "allocate_inner bt = bt\<lparr>m_stats := (m_stats bt)\<lparr>innernodes := innernodes (m_stats bt) + 1\<rparr>\<rparr>"

subsection \<open>Iterators\<close>

type_synonym iterator = "addr option \<times> nat"

definition btree_begin :: "'k btree \<Rightarrow> iterator" where
  "btree_begin bt = (m_headleaf bt, 0)"

definition btree_end :: "'k btree \<Rightarrow> iterator option" where
  "btree_end bt =
     (case m_tailleaf bt of
        None \<Rightarrow> Some (None, 0)
      | Some a \<Rightarrow> map_option (\<lambda>l. (Some a, length (slotkey l))) (memory bt a))"

definition iter_leaf :: "'k btree \<Rightarrow> iterator \<Rightarrow> 'k leaf_node option" where
  "iter_leaf bt it = Option.bind (fst it) (memory bt)"

definition iter_key :: "'k btree \<Rightarrow> iterator \<Rightarrow> 'k option" where
  "iter_key bt it = do {
     l \<leftarrow> iter_leaf bt it;
     if snd it < length (slotkey l) then Some (slotkey l ! snd it) else None
   }"

definition iter_data :: "'k btree \<Rightarrow> iterator \<Rightarrow> u64 option" where
  "iter_data bt it = do {
     l \<leftarrow> iter_leaf bt it;
     if snd it < length (slotdata l) then Some (slotdata l ! snd it) else None
   }"

definition iter_inc :: "'k btree \<Rightarrow> iterator \<Rightarrow> iterator option" where
  "iter_inc bt it = do {
     l \<leftarrow> iter_leaf bt it;
     Some (if snd it + 1 < length (slotkey l) then (fst it, snd it + 1)
           else if nextleaf l \<noteq> None then (nextleaf l, 0)
           else (fst it, length (slotkey l)))
   }"

definition iter_dec :: "'k btree \<Rightarrow> iterator \<Rightarrow> iterator option" where
  "iter_dec bt it = do {
     l \<leftarrow> iter_leaf bt it;
     if snd it > 0 then Some (fst it, snd it - 1)
     else (case prevleaf l of
             None \<Rightarrow> Some (fst it, 0)
           | Some p \<Rightarrow> map_option (\<lambda>pl. (Some p, length (slotkey pl) - 1)) (memory bt p))
   }"

subsection \<open>Queries\<close>

definition find_lower :: "'k btree_params \<Rightarrow> 'k list \<Rightarrow> 'k \<Rightarrow> nat option" where
  "find_lower C ks key = map_option nat (bt_lower C 0 (int (length ks)) key 0 (list_reader ks))"

definition find_upper :: "'k btree_params \<Rightarrow> 'k list \<Rightarrow> 'k \<Rightarrow> nat option" where
  "find_upper C ks key = map_option nat (bt_upper C 0 (int (length ks)) key 0 (list_reader ks))"

lemma size_child: "i < length cs \<Longrightarrow> size (cs ! i) < Suc (size_list size cs)"
  by (simp add: less_Suc_eq_le size_list_estimation' [OF nth_mem])

text \<open>The descent to a leaf, which all queries share; \<open>search\<close> looks into one node.\<close>

function descend :: "('k list \<Rightarrow> nat option) \<Rightarrow> 'k node \<Rightarrow> addr option" where
  "descend search (Leaf a) = Some a"
| "descend search (Inner level ks cs) =
     (case search ks of
        None \<Rightarrow> None
      | Some slot \<Rightarrow> if slot < length cs then descend search (cs ! slot) else None)"
  by pat_completeness auto
termination by (relation "measure (size \<circ> snd)") (auto dest: size_child)

definition btree_exists :: "'k btree_params \<Rightarrow> 'k btree \<Rightarrow> 'k \<Rightarrow> bool option" where
  "btree_exists C bt key =
     (case m_root bt of
        None \<Rightarrow> Some False
      | Some n \<Rightarrow> do {
          a \<leftarrow> descend (\<lambda>ks. find_lower C ks key) n;
          leaf \<leftarrow> memory bt a;
          slot \<leftarrow> find_lower C (slotkey leaf) key;
          Some (slot < length (slotkey leaf) \<and> key = slotkey leaf ! slot)
        })"

definition btree_find :: "'k btree_params \<Rightarrow> 'k btree \<Rightarrow> 'k \<Rightarrow> iterator option" where
  "btree_find C bt key =
     (case m_root bt of
        None \<Rightarrow> btree_end bt
      | Some n \<Rightarrow> do {
          a \<leftarrow> descend (\<lambda>ks. find_lower C ks key) n;
          leaf \<leftarrow> memory bt a;
          slot \<leftarrow> find_lower C (slotkey leaf) key;
          if slot < length (slotkey leaf) \<and> key = slotkey leaf ! slot then Some (Some a, slot) else btree_end bt
        })"

definition btree_lower_bound :: "'k btree_params \<Rightarrow> 'k btree \<Rightarrow> 'k \<Rightarrow> iterator option" where
  "btree_lower_bound C bt key =
     (case m_root bt of
        None \<Rightarrow> btree_end bt
      | Some n \<Rightarrow> do {
          a \<leftarrow> descend (\<lambda>ks. find_lower C ks key) n;
          leaf \<leftarrow> memory bt a;
          slot \<leftarrow> find_lower C (slotkey leaf) key;
          Some (Some a, slot)
        })"

definition btree_upper_bound :: "'k btree_params \<Rightarrow> 'k btree \<Rightarrow> 'k \<Rightarrow> iterator option" where
  "btree_upper_bound C bt key =
     (case m_root bt of
        None \<Rightarrow> btree_end bt
      | Some n \<Rightarrow> do {
          a \<leftarrow> descend (\<lambda>ks. find_upper C ks key) n;
          leaf \<leftarrow> memory bt a;
          slot \<leftarrow> find_upper C (slotkey leaf) key;
          Some (Some a, slot)
        })"

definition btree_equal_range :: "'k btree_params \<Rightarrow> 'k btree \<Rightarrow> 'k \<Rightarrow> (iterator \<times> iterator) option" where
  "btree_equal_range C bt key = do {
     lo \<leftarrow> btree_lower_bound C bt key;
     hi \<leftarrow> btree_upper_bound C bt key;
     Some (lo, hi)
   }"

text \<open>The loop of \<^verbatim>\<open>count\<close> over the leaf chain.\<close>

partial_function (option) count_loop :: "'k btree \<Rightarrow> 'k \<Rightarrow> iterator \<Rightarrow> nat \<Rightarrow> nat option" where
  "count_loop bt key it num =
     (case fst it of
        None \<Rightarrow> Some num
      | Some a \<Rightarrow> Option.bind (memory bt a) (\<lambda>leaf.
          if snd it < length (slotkey leaf) \<and> key = slotkey leaf ! snd it
          then count_loop bt key
            (if snd it + 1 \<ge> length (slotkey leaf) then (nextleaf leaf, 0) else (fst it, snd it + 1)) (num + 1)
          else Some num))"

declare count_loop.simps [code]

definition btree_count :: "'k btree_params \<Rightarrow> 'k btree \<Rightarrow> 'k \<Rightarrow> nat option" where
  "btree_count C bt key =
     (case m_root bt of
        None \<Rightarrow> Some 0
      | Some n \<Rightarrow> do {
          a \<leftarrow> descend (\<lambda>ks. find_lower C ks key) n;
          leaf \<leftarrow> memory bt a;
          slot \<leftarrow> find_lower C (slotkey leaf) key;
          count_loop bt key (Some a, slot) 0
        })"

subsection \<open>Insertion\<close>

text \<open>\<^verbatim>\<open>std::copy_backward\<close> from \<open>slot\<close> on, and the store into \<open>slot\<close>.\<close>

definition put_slot :: "nat \<Rightarrow> 'a \<Rightarrow> 'a list \<Rightarrow> 'a list" where
  "put_slot slot x xs = take slot xs @ x # drop slot xs"

definition split_leaf_node :: "addr \<Rightarrow> 'k btree \<Rightarrow> ('k \<times> addr \<times> 'k btree) option" where
  "split_leaf_node a bt = do {
     leaf \<leftarrow> memory bt a;
     let mid = length (slotkey leaf) div 2;
     let (b, bt) = allocate_leaf bt;
     bt \<leftarrow> (case nextleaf leaf of
               None \<Rightarrow> Some (bt\<lparr>m_tailleaf := Some b\<rparr>)
             | Some c \<Rightarrow> map_option (\<lambda>next. set_leaf c (next\<lparr>prevleaf := Some b\<rparr>) bt) (memory bt c));
     let bt = set_leaf b \<lparr>slotkey = drop mid (slotkey leaf), slotdata = drop mid (slotdata leaf),
                           prevleaf = Some a, nextleaf = nextleaf leaf\<rparr> bt;
     let bt = set_leaf a (leaf\<lparr>slotkey := take mid (slotkey leaf), slotdata := take mid (slotdata leaf),
                               nextleaf := Some b\<rparr>) bt;
     if mid = 0 then None else Some (slotkey leaf ! (mid - 1), b, bt)
   }"

text \<open>
  The leaf case of \<^verbatim>\<open>insert_descend\<close>: the new sibling with its split key, the position of the new item, and
  whether it was inserted.
\<close>

definition insert_leaf ::
    "'k btree_params \<Rightarrow> 'k \<Rightarrow> u64 \<Rightarrow> addr \<Rightarrow> 'k btree \<Rightarrow> (('k \<times> addr) option \<times> iterator \<times> bool \<times> 'k btree) option" where
  "insert_leaf C key value a bt = do {
     leaf \<leftarrow> memory bt a;
     slot \<leftarrow> find_lower C (slotkey leaf) key;
     if \<not> allow_duplicates C \<and> slot < length (slotkey leaf) \<and> key = slotkey leaf ! slot
     then Some (None, (Some a, slot), False, bt)
     else do {
       (split, b, slot, bt) \<leftarrow>
         (if length (slotkey leaf) = leafslotmax C then do {
            (newkey, new, bt) \<leftarrow> split_leaf_node a bt;
            leaf \<leftarrow> memory bt a;
            Some (if slot \<ge> length (slotkey leaf) then (Some (newkey, new), new, slot - length (slotkey leaf), bt)
                  else (Some (newkey, new), a, slot, bt))
          }
          else Some (None, a, slot, bt));
       leaf \<leftarrow> memory bt b;
       if length (slotkey leaf) \<ge> leafslotmax C \<or> slot > length (slotkey leaf) then None
       else Some (
         (case split of
            None \<Rightarrow> None
          | Some (newkey, new) \<Rightarrow> Some (if b \<noteq> new \<and> slot = length (slotkey leaf) then key else newkey, new)),
         (Some b, slot), True,
         set_leaf b (leaf\<lparr>slotkey := put_slot slot key (slotkey leaf), slotdata := put_slot slot value (slotdata leaf)\<rparr>) bt)
     }
   }"

text \<open>The used part of an inner node.\<close>

type_synonym 'k slots = "'k list \<times> 'k node list"

definition split_mid :: "nat \<Rightarrow> nat \<Rightarrow> nat" where
  "split_mid slotuse addslot =
     (let mid = slotuse div 2
      in if addslot \<le> mid \<and> mid > slotuse - (mid + 1) then mid - 1 else mid)"

definition split_inner_node :: "'k slots \<Rightarrow> nat \<Rightarrow> 'k \<times> 'k slots \<times> 'k slots" where
  "split_inner_node n addslot =
     (let (ks, cs) = n; mid = split_mid (length ks) addslot
      in (ks ! mid, (take mid ks, take (mid + 1) cs), (drop (mid + 1) ks, drop (mid + 1) cs)))"

definition put_child :: "'k btree_params \<Rightarrow> nat \<Rightarrow> 'k \<Rightarrow> 'k node \<Rightarrow> 'k slots \<Rightarrow> 'k slots option" where
  "put_child C slot newkey newchild n =
     (let (ks, cs) = n
      in if length ks < innerslotmax C \<and> slot \<le> length ks
         then Some (put_slot slot newkey ks, put_slot (slot + 1) newchild cs) else None)"

text \<open>The part of \<^verbatim>\<open>insert_descend\<close> that puts a new child into an inner node, splitting it when it is full.\<close>

definition insert_child ::
    "'k btree_params \<Rightarrow> nat \<Rightarrow> 'k \<Rightarrow> 'k node \<Rightarrow> 'k slots \<Rightarrow> ('k slots \<times> ('k \<times> 'k slots) option) option" where
  "insert_child C slot newkey newchild n =
     (if length (fst n) = innerslotmax C then
        let (splitkey, (lks, lcs), (rks, rcs)) = split_inner_node n slot
        in if slot = length lks + 1 \<and> length lks < length rks
           then Some ((lks @ [splitkey], lcs @ [rcs ! 0]), Some (newkey, (rks, rcs[0 := newchild])))
           else if slot \<ge> length lks + 1
           then map_option (\<lambda>r. ((lks, lcs), Some (splitkey, r))) (put_child C (slot - (length lks + 1)) newkey newchild (rks, rcs))
           else map_option (\<lambda>l. (l, Some (splitkey, (rks, rcs)))) (put_child C slot newkey newchild (lks, lcs))
      else map_option (\<lambda>n'. (n', None)) (put_child C slot newkey newchild n))"

function insert_descend ::
    "'k btree_params \<Rightarrow> 'k \<Rightarrow> u64 \<Rightarrow> 'k node \<Rightarrow> 'k btree
      \<Rightarrow> ('k node \<times> ('k \<times> 'k node) option \<times> iterator \<times> bool \<times> 'k btree) option" where
  "insert_descend C key value (Leaf a) bt =
     map_option (\<lambda>(split, it, ins, bt). (Leaf a, map_option (\<lambda>(k, b). (k, Leaf b)) split, it, ins, bt))
       (insert_leaf C key value a bt)"
| "insert_descend C key value (Inner level ks cs) bt =
     (case find_lower C ks key of
        None \<Rightarrow> None
      | Some slot \<Rightarrow>
          if slot < length cs then
            (case insert_descend C key value (cs ! slot) bt of
               None \<Rightarrow> None
             | Some (child, None, it, ins, bt) \<Rightarrow> Some (Inner level ks (cs[slot := child]), None, it, ins, bt)
             | Some (child, Some (newkey, newchild), it, ins, bt) \<Rightarrow>
                 (case insert_child C slot newkey newchild (ks, cs[slot := child]) of
                    None \<Rightarrow> None
                  | Some ((ks', cs'), None) \<Rightarrow> Some (Inner level ks' cs', None, it, ins, bt)
                  | Some ((ks', cs'), Some (splitkey, (ks2, cs2))) \<Rightarrow>
                      Some (Inner level ks' cs', Some (splitkey, Inner level ks2 cs2), it, ins, allocate_inner bt)))
          else None)"
  by pat_completeness auto
termination
  by (relation "measure (\<lambda>(_, _, _, n, _). size n)") (auto dest: size_child)

definition insert_start :: "'k btree_params \<Rightarrow> 'k \<Rightarrow> u64 \<Rightarrow> 'k btree \<Rightarrow> (iterator \<times> bool \<times> 'k btree) option" where
  "insert_start C key value bt = do {
     let (root, bt) =
       (case m_root bt of
          Some n \<Rightarrow> (n, bt)
        | None \<Rightarrow> (let (a, bt) = allocate_leaf bt
                   in (Leaf a, bt\<lparr>m_root := Some (Leaf a), m_headleaf := Some a, m_tailleaf := Some a\<rparr>)));
     (root, split, it, ins, bt) \<leftarrow> insert_descend C key value root bt;
     let bt =
       (case split of
          None \<Rightarrow> bt\<lparr>m_root := Some root\<rparr>
        | Some (newkey, newchild) \<Rightarrow>
            (allocate_inner bt)\<lparr>m_root := Some (Inner (node_level root + 1) [newkey] [root, newchild])\<rparr>);
     Some (it, ins,
       if ins then bt\<lparr>m_stats := (m_stats bt)\<lparr>itemcount := itemcount (m_stats bt) + 1\<rparr>\<rparr> else bt)
   }"

subsection \<open>Bulk loading\<close>

text \<open>The leaves that are still to be filled, \<open>n\<close> of them, take equal shares of the remaining items.\<close>

fun load_leaves :: "'k btree_params \<Rightarrow> nat \<Rightarrow> ('k \<times> u64) list \<Rightarrow> 'k btree \<Rightarrow> 'k btree option" where
  "load_leaves C 0 items bt = Some bt"
| "load_leaves C (Suc n) items bt = do {
     let (a, bt) = allocate_leaf bt;
     let use = length items div Suc n;
     if use > leafslotmax C then None
     else do {
       bt \<leftarrow> (case m_tailleaf bt of
                 None \<Rightarrow> Some (bt\<lparr>m_headleaf := Some a\<rparr>)
               | Some t \<Rightarrow> map_option (\<lambda>l. set_leaf t (l\<lparr>nextleaf := Some a\<rparr>) bt) (memory bt t));
       let bt = (set_leaf a \<lparr>slotkey = map fst (take use items), slotdata = map snd (take use items),
                            prevleaf = m_tailleaf bt, nextleaf = None\<rparr> bt)\<lparr>m_tailleaf := Some a\<rparr>;
       load_leaves C n (drop use items) bt
     }
   }"

text \<open>\<open>n\<close> leaves of the chain from \<open>a\<close> on, each with its last key, and the pointer behind them.\<close>

fun next_leaves :: "'k btree \<Rightarrow> nat \<Rightarrow> addr option \<Rightarrow> (('k node \<times> 'k) list \<times> addr option) option" where
  "next_leaves bt 0 a = Some ([], a)"
| "next_leaves bt (Suc n) a = do {
     a \<leftarrow> a;
     leaf \<leftarrow> memory bt a;
     if slotkey leaf = [] then None
     else do {
       (xs, a') \<leftarrow> next_leaves bt n (nextleaf leaf);
       Some ((Leaf a, last (slotkey leaf)) # xs, a')
     }
   }"

text \<open>An inner node over the given children, each with the largest key below it, and its own largest key.\<close>

definition make_inner :: "nat \<Rightarrow> ('k node \<times> 'k) list \<Rightarrow> 'k node \<times> 'k" where
  "make_inner level xs = (Inner level (map snd (butlast xs)) (map fst xs), snd (last xs))"

text \<open>The nodes of level 1, \<open>n\<close> of them, over the remaining \<open>num_leaves\<close> leaves.\<close>

fun load_parents ::
    "'k btree_params \<Rightarrow> nat \<Rightarrow> nat \<Rightarrow> addr option \<Rightarrow> 'k btree \<Rightarrow> (('k node \<times> 'k) list \<times> 'k btree) option" where
  "load_parents C 0 num_leaves a bt = Some ([], bt)"
| "load_parents C (Suc n) num_leaves a bt = do {
     let use = num_leaves div Suc n;
     if use = 0 \<or> use > innerslotmax C + 1 then None
     else do {
       (xs, a') \<leftarrow> next_leaves bt use a;
       (ys, bt) \<leftarrow> load_parents C n (num_leaves - use) a' (allocate_inner bt);
       Some (make_inner 1 xs # ys, bt)
     }
   }"

text \<open>The nodes of a higher level, \<open>n\<close> of them, over the remaining children.\<close>

fun load_level ::
    "'k btree_params \<Rightarrow> nat \<Rightarrow> nat \<Rightarrow> ('k node \<times> 'k) list \<Rightarrow> 'k btree \<Rightarrow> (('k node \<times> 'k) list \<times> 'k btree) option" where
  "load_level C level 0 xs bt = Some ([], bt)"
| "load_level C level (Suc n) xs bt = do {
     let use = length xs div Suc n;
     if use = 0 \<or> use > innerslotmax C + 1 then None
     else do {
       (ys, bt) \<leftarrow> load_level C level n (drop use xs) (allocate_inner bt);
       Some (make_inner level (take use xs) # ys, bt)
     }
   }"

definition ceil_div :: "nat \<Rightarrow> nat \<Rightarrow> nat" where
  "ceil_div a b = (a + b - 1) div b"

partial_function (option) load_inner ::
    "'k btree_params \<Rightarrow> nat \<Rightarrow> ('k node \<times> 'k) list \<Rightarrow> 'k btree \<Rightarrow> ('k node \<times> 'k btree) option" where
  "load_inner C level xs bt =
     (if length xs = 1 then Some (fst (xs ! 0), bt)
      else Option.bind (load_level C level (ceil_div (length xs) (innerslotmax C + 1)) xs bt)
        (\<lambda>(ys, bt). load_inner C (level + 1) ys bt))"

declare load_inner.simps [code]

definition bulk_load :: "'k btree_params \<Rightarrow> ('k \<times> u64) list \<Rightarrow> 'k btree \<Rightarrow> 'k btree option" where
  "bulk_load C items bt = do {
     let num_leaves = ceil_div (length items) (leafslotmax C);
     bt \<leftarrow> load_leaves C num_leaves items (bt\<lparr>m_stats := (m_stats bt)\<lparr>itemcount := length items\<rparr>\<rparr>);
     if m_headleaf bt = m_tailleaf bt then Some (bt\<lparr>m_root := map_option Leaf (m_headleaf bt)\<rparr>)
     else do {
       (xs, bt) \<leftarrow> load_parents C (ceil_div num_leaves (innerslotmax C + 1)) num_leaves (m_headleaf bt) bt;
       (root, bt) \<leftarrow> load_inner C 2 xs bt;
       Some (bt\<lparr>m_root := Some root\<rparr>)
     }
   }"

subsection \<open>Self-verification\<close>

definition sorted_slots :: "'k::linorder list \<Rightarrow> bool" where
  "sorted_slots ks \<longleftrightarrow> list_all (\<lambda>slot. ks ! slot \<le> ks ! (slot + 1)) [0..<length ks - 1]"

text \<open>The two leaves point to each other.\<close>

definition linked :: "'k btree \<Rightarrow> 'k node \<Rightarrow> 'k node \<Rightarrow> bool" where
  "linked bt m n =
     (case (m, n) of
        (Leaf a, Leaf b) \<Rightarrow>
          (case (memory bt a, memory bt b) of
             (Some leafa, Some leafb) \<Rightarrow> nextleaf leafa = Some b \<and> prevleaf leafb = Some a
           | _ \<Rightarrow> False)
      | _ \<Rightarrow> False)"

definition links_ok :: "'k btree \<Rightarrow> nat \<Rightarrow> 'k node \<Rightarrow> 'k node \<Rightarrow> bool" where
  "links_ok bt level m n \<longleftrightarrow>
     (level = 1 \<longrightarrow> linked bt m n) \<and>
     (level = 2 \<longrightarrow> (case (m, n) of
        (Inner _ _ cs, Inner _ _ ds) \<Rightarrow> cs \<noteq> [] \<and> ds \<noteq> [] \<and> linked bt (last cs) (hd ds)
      | _ \<Rightarrow> False))"

text \<open>
  \<open>verify_node\<close> returns the smallest and the largest key and the counted statistics; \<open>verify_children\<close> is its loop
  over the children, from \<open>slot\<close> on.
\<close>

function verify_node ::
      "'k::linorder btree_params \<Rightarrow> 'k btree \<Rightarrow> bool \<Rightarrow> 'k node \<Rightarrow> tree_stats \<Rightarrow> ('k \<times> 'k \<times> tree_stats) option"
  and verify_children ::
      "'k::linorder btree_params \<Rightarrow> 'k btree \<Rightarrow> nat \<Rightarrow> 'k list \<Rightarrow> nat \<Rightarrow> 'k node list \<Rightarrow> tree_stats
        \<Rightarrow> ('k \<times> 'k \<times> tree_stats) option" where
  "verify_node C bt is_root (Leaf a) vst =
     (case memory bt a of
        None \<Rightarrow> None
      | Some leaf \<Rightarrow>
          if (is_root \<or> \<not> length (slotkey leaf) < minleafslots C) \<and> length (slotkey leaf) > 0 \<and> sorted_slots (slotkey leaf)
          then Some (hd (slotkey leaf), last (slotkey leaf),
            vst\<lparr>leaves := leaves vst + 1, itemcount := itemcount vst + length (slotkey leaf)\<rparr>)
          else None)"
| "verify_node C bt is_root (Inner level ks cs) vst =
     (if (is_root \<or> \<not> length ks < mininnerslots C) \<and> length ks > 0 \<and> sorted_slots ks \<and> length cs = length ks + 1
      then verify_children C bt level ks 0 cs (vst\<lparr>innernodes := innernodes vst + 1\<rparr>)
      else None)"
| "verify_children C bt level ks slot [] vst = None"
| "verify_children C bt level ks slot (c # cs) vst =
     (if node_level c + 1 = level then
        (case verify_node C bt False c vst of
           None \<Rightarrow> None
         | Some (subminkey, submaxkey, vst) \<Rightarrow>
             if slot > 0 \<and> \<not> subminkey \<ge> ks ! (slot - 1) then None
             else if cs = [] then Some (subminkey, submaxkey, vst)
             else if ks ! slot = submaxkey \<and> links_ok bt level c (hd cs) then
               (case verify_children C bt level ks (slot + 1) cs vst of
                  None \<Rightarrow> None
                | Some (_, maxkey, vst) \<Rightarrow> Some (subminkey, maxkey, vst))
             else None)
      else None)"
  by pat_completeness auto
termination
  by (relation "measure (case_sum (\<lambda>(_, _, _, n, _). size n) (\<lambda>(_, _, _, _, _, cs, _). size_list size cs))") auto

partial_function (option) leaflinks_loop :: "'k::linorder btree \<Rightarrow> addr option \<Rightarrow> u32 \<Rightarrow> u32 option" where
  "leaflinks_loop bt n testcount =
     (case n of
        None \<Rightarrow> Some testcount
      | Some a \<Rightarrow> Option.bind (memory bt a) (\<lambda>leaf.
          if slotkey leaf \<noteq> [] \<and> sorted_slots (slotkey leaf) \<and>
             (case nextleaf leaf of
                None \<Rightarrow> m_tailleaf bt = Some a
              | Some b \<Rightarrow>
                  (case memory bt b of
                     None \<Rightarrow> False
                   | Some next \<Rightarrow> slotkey next \<noteq> [] \<and> last (slotkey leaf) \<le> hd (slotkey next) \<and> prevleaf next = Some a))
          then leaflinks_loop bt (nextleaf leaf) (testcount + of_nat (length (slotkey leaf)))
          else None))"

declare leaflinks_loop.simps [code]

definition verify_leaflinks :: "'k::linorder btree \<Rightarrow> bool" where
  "verify_leaflinks bt =
     (case Option.bind (m_headleaf bt) (memory bt) of
        None \<Rightarrow> False
      | Some leaf \<Rightarrow> prevleaf leaf = None \<and>
          (case leaflinks_loop bt (m_headleaf bt) 0 of
             None \<Rightarrow> False
           | Some testcount \<Rightarrow> unat testcount = itemcount (m_stats bt)))"

definition btree_verify :: "'k::linorder btree_params \<Rightarrow> 'k btree \<Rightarrow> bool" where
  "btree_verify C bt =
     (case m_root bt of
        None \<Rightarrow> True
      | Some root \<Rightarrow>
          (case verify_node C bt True root \<lparr>itemcount = 0, leaves = 0, innernodes = 0\<rparr> of
             None \<Rightarrow> False
           | Some (_, _, vstats) \<Rightarrow>
               itemcount vstats = itemcount (m_stats bt) \<and> leaves vstats = leaves (m_stats bt) \<and>
               innernodes vstats = innernodes (m_stats bt) \<and> verify_leaflinks bt))"

end
