(* ===== verification/Stx_Btree_Inv.thy ===== *)
theory Stx_Btree_Inv
  imports Stx_Btree
begin

text \<open>
  The invariant of the B+-tree and its queries: the pairs of a tree in order, the shape of its nodes, the leaf
  chain, and what the descent to a leaf, \<^verbatim>\<open>find\<close>, \<^verbatim>\<open>lower_bound\<close>, \<^verbatim>\<open>upper_bound\<close> and the iterators return.
\<close>

subsection \<open>Contents\<close>

type_synonym 'k leaf_memory = "addr \<Rightarrow> 'k leaf_node option"

fun leaf_addrs :: "'k node \<Rightarrow> addr list" where
  "leaf_addrs (Leaf a) = [a]"
| "leaf_addrs (Inner level ks cs) = concat (map leaf_addrs cs)"

fun inner_count :: "'k node \<Rightarrow> nat" where
  "inner_count (Leaf a) = 0"
| "inner_count (Inner level ks cs) = Suc (sum_list (map inner_count cs))"

definition leaf_pairs :: "'k leaf_memory \<Rightarrow> addr \<Rightarrow> ('k \<times> u64) list" where
  "leaf_pairs mem a = (case mem a of None \<Rightarrow> [] | Some l \<Rightarrow> zip (slotkey l) (slotdata l))"

definition chain_pairs :: "'k leaf_memory \<Rightarrow> addr list \<Rightarrow> ('k \<times> u64) list" where
  "chain_pairs mem ids = concat (map (leaf_pairs mem) ids)"

abbreviation pairs :: "'k leaf_memory \<Rightarrow> 'k node \<Rightarrow> ('k \<times> u64) list" where
  "pairs mem n \<equiv> chain_pairs mem (leaf_addrs n)"

abbreviation max_key :: "'k leaf_memory \<Rightarrow> 'k node \<Rightarrow> 'k" where
  "max_key mem n \<equiv> fst (last (pairs mem n))"

lemma chain_pairs_simps [simp]:
  "chain_pairs mem [] = []" "chain_pairs mem (a # ids) = leaf_pairs mem a @ chain_pairs mem ids"
  "chain_pairs mem (ids @ ids') = chain_pairs mem ids @ chain_pairs mem ids'"
  by (simp_all add: chain_pairs_def)

lemma chain_pairs_concat: "chain_pairs mem (concat (map leaf_addrs cs)) = concat (map (pairs mem) cs)"
  by (induction cs) simp_all

definition leaf_ok :: "'k btree_params \<Rightarrow> 'k leaf_memory \<Rightarrow> bool \<Rightarrow> addr \<Rightarrow> bool" where
  "leaf_ok C mem is_root a \<longleftrightarrow> (\<exists>l. mem a = Some l \<and> length (slotdata l) = length (slotkey l) \<and> slotkey l \<noteq> [] \<and>
     length (slotkey l) \<le> leafslotmax C \<and> (is_root \<or> minleafslots C \<le> length (slotkey l)))"

definition slots_ok :: "('k node \<Rightarrow> 'k) \<Rightarrow> 'k list \<Rightarrow> 'k node list \<Rightarrow> bool" where
  "slots_ok mk ks cs \<longleftrightarrow> length cs = Suc (length ks) \<and> (\<forall>i<length ks. ks ! i = mk (cs ! i))"

fun shape :: "'k btree_params \<Rightarrow> 'k leaf_memory \<Rightarrow> bool \<Rightarrow> nat \<Rightarrow> 'k node \<Rightarrow> bool" where
  "shape C mem is_root 0 (Leaf a) = leaf_ok C mem is_root a"
| "shape C mem is_root (Suc h) (Inner level ks cs) =
     (level = Suc h \<and> 0 < length ks \<and> length ks \<le> innerslotmax C \<and> (is_root \<or> mininnerslots C \<le> length ks) \<and>
      slots_ok (max_key mem) ks cs \<and> (\<forall>c\<in>set cs. shape C mem False h c))"
| "shape C mem is_root 0 (Inner level ks cs) = False"
| "shape C mem is_root (Suc h) (Leaf a) = False"

lemma shape_root: "shape C mem False h n \<Longrightarrow> shape C mem True h n"
  by (cases h; cases n) (auto simp: leaf_ok_def)

lemma shape_level: "shape C mem r h n \<Longrightarrow> node_level n = h"
  by (cases h; cases n) auto

lemma leaf_ok_pairs: "leaf_ok C mem r a \<Longrightarrow> leaf_pairs mem a \<noteq> []"
  by (auto simp: leaf_ok_def leaf_pairs_def zip_eq_Nil_iff)

lemma leaf_max_key:
  assumes "mem a = Some l" and "length (slotdata l) = length (slotkey l)" and "slotkey l \<noteq> []"
  shows "fst (last (leaf_pairs mem a)) = last (slotkey l)"
proof -
  have "slotdata l \<noteq> []" using assms(2,3) by auto
  then show ?thesis using assms by (simp add: leaf_pairs_def last_zip)
qed

lemma last_concat_map: "xs \<noteq> [] \<Longrightarrow> f (last xs) \<noteq> [] \<Longrightarrow> last (concat (map f xs)) = last (f (last xs))"
  by (induction xs rule: rev_induct) auto

lemma shape_leaves: "shape C mem r h n \<Longrightarrow> a \<in> set (leaf_addrs n) \<Longrightarrow> leaf_ok C mem True a"
  by (induction C mem r h n rule: shape.induct) (auto simp: leaf_ok_def)

lemma shape_pairs: "shape C mem r h n \<Longrightarrow> leaf_addrs n \<noteq> [] \<and> pairs mem n \<noteq> []"
proof (induction C mem r h n rule: shape.induct)
  case (2 C mem r h level ks cs)
  then obtain c where "c \<in> set cs" by (cases cs) (auto simp: slots_ok_def)
  with 2 show ?case by (force simp: chain_pairs_concat)
qed (auto simp: leaf_ok_pairs)

text \<open>Only the slots of the leaves below a node matter, not their links.\<close>

definition same_slots :: "'k leaf_memory \<Rightarrow> 'k leaf_memory \<Rightarrow> addr \<Rightarrow> bool" where
  "same_slots mem mem' a \<longleftrightarrow> map_option (\<lambda>l. (slotkey l, slotdata l)) (mem' a) = map_option (\<lambda>l. (slotkey l, slotdata l)) (mem a)"

lemma same_slots_leaf:
  assumes "same_slots mem mem' a"
  shows "leaf_pairs mem' a = leaf_pairs mem a" "leaf_ok C mem' r a = leaf_ok C mem r a"
  using assms by (cases "mem a"; cases "mem' a"; auto simp: same_slots_def leaf_pairs_def leaf_ok_def)+

lemma same_slots_chain: "\<forall>a\<in>set ids. same_slots mem mem' a \<Longrightarrow> chain_pairs mem' ids = chain_pairs mem ids"
  by (induction ids) (auto simp: same_slots_leaf)

lemma same_slots_shape:
  "\<forall>a\<in>set (leaf_addrs n). same_slots mem mem' a \<Longrightarrow> shape C mem' r h n = shape C mem r h n"
proof (induction C mem r h n rule: shape.induct)
  case (2 C mem r h level ks cs)
  then have "\<forall>c\<in>set cs. pairs mem' c = pairs mem c \<and> shape C mem' False h c = shape C mem False h c"
    by (auto intro: same_slots_chain)
  then show ?case by (auto simp: slots_ok_def)
qed (auto simp: same_slots_leaf)

subsection \<open>The leaf chain\<close>

definition opt_hd :: "'a list \<Rightarrow> 'a option" where "opt_hd xs = (if xs = [] then None else Some (hd xs))"
definition opt_last :: "'a list \<Rightarrow> 'a option" where "opt_last xs = (if xs = [] then None else Some (last xs))"

lemma opt_simps [simp]:
  "opt_hd [] = None" "opt_hd (x # xs) = Some x" "opt_last [] = None" "opt_last (xs @ [x]) = Some x"
  by (simp_all add: opt_hd_def opt_last_def)

text \<open>A segment of the doubly linked list, between the given neighbours.\<close>

fun seg :: "'k leaf_memory \<Rightarrow> addr option \<Rightarrow> addr list \<Rightarrow> addr option \<Rightarrow> bool" where
  "seg mem p [] n = True"
| "seg mem p (a # ids) n = ((\<exists>l. mem a = Some l \<and> prevleaf l = p \<and> nextleaf l = (if ids = [] then n else Some (hd ids))) \<and>
     seg mem (Some a) ids n)"

lemma seg_append:
  "seg mem p (A @ B) n \<longleftrightarrow>
     seg mem p A (if B = [] then n else Some (hd B)) \<and> seg mem (if A = [] then p else Some (last A)) B n"
  by (induction A arbitrary: p) auto

lemma seg_cong: "\<forall>a\<in>set ids. mem' a = mem a \<Longrightarrow> seg mem' p ids n = seg mem p ids n"
  by (induction ids arbitrary: p) auto

lemma seg_slots:
  assumes "mem a = Some l" and "prevleaf l' = prevleaf l" and "nextleaf l' = nextleaf l"
  shows "seg (mem(a := Some l')) p ids n = seg mem p ids n"
  using assms by (induction ids arbitrary: p) auto

text \<open>\<open>ids\<close> are the addresses of the chain, from the head to the tail.\<close>

definition chain :: "'k btree \<Rightarrow> addr list \<Rightarrow> bool" where
  "chain bt ids \<longleftrightarrow> distinct ids \<and> (\<forall>a\<in>set ids. a < fresh bt) \<and>
     m_headleaf bt = opt_hd ids \<and> m_tailleaf bt = opt_last ids \<and> seg (memory bt) None ids None"

lemma chainD:
  assumes "chain bt (A @ a # B)"
  obtains l where "memory bt a = Some l" "nextleaf l = opt_hd B" "prevleaf l = opt_last A"
  using assms by (auto simp: chain_def seg_append opt_hd_def opt_last_def)

lemma chain_memory: "chain bt ids \<Longrightarrow> a \<in> set ids \<Longrightarrow> \<exists>l. memory bt a = Some l"
  by (metis chainD split_list)

lemma chain_distinct: "chain bt ids \<Longrightarrow> distinct ids" "chain bt ids \<Longrightarrow> a \<in> set ids \<Longrightarrow> a < fresh bt"
  by (auto simp: chain_def)

lemma chain_cong:
  assumes "chain bt ids" and "m_headleaf bt' = m_headleaf bt" and "m_tailleaf bt' = m_tailleaf bt"
    and "fresh bt \<le> fresh bt'" and "memory bt' = memory bt"
  shows "chain bt' ids"
  using assms by (auto simp: chain_def)

text \<open>An iterator and the pairs from it on.\<close>

definition iter_at :: "'k btree \<Rightarrow> addr list \<Rightarrow> iterator \<Rightarrow> ('k \<times> u64) list \<Rightarrow> bool" where
  "iter_at bt ids it suf \<longleftrightarrow>
     (ids = [] \<and> it = (None, 0) \<and> suf = []) \<or>
     (\<exists>A a B. ids = A @ a # B \<and> fst it = Some a \<and>
        suf = drop (snd it) (leaf_pairs (memory bt) a) @ chain_pairs (memory bt) B \<and>
        (snd it < length (leaf_pairs (memory bt) a) \<or> B = [] \<and> snd it = length (leaf_pairs (memory bt) a)))"

lemma iter_atI:
  assumes "ids = A @ a # B" and "suf = drop s (leaf_pairs (memory bt) a) @ chain_pairs (memory bt) B"
    and "s < length (leaf_pairs (memory bt) a) \<or> B = [] \<and> s = length (leaf_pairs (memory bt) a)"
  shows "iter_at bt ids (Some a, s) suf"
  unfolding iter_at_def using assms by (metis fst_conv snd_conv)

definition leaves_ok :: "'k btree \<Rightarrow> addr list \<Rightarrow> bool" where
  "leaves_ok bt ids \<longleftrightarrow> (\<forall>a\<in>set ids. \<exists>l. memory bt a = Some l \<and> length (slotdata l) = length (slotkey l) \<and> slotkey l \<noteq> [])"

lemma leaves_okD:
  assumes "leaves_ok bt ids" and "a \<in> set ids"
  obtains l where "memory bt a = Some l" "length (slotdata l) = length (slotkey l)" "slotkey l \<noteq> []"
    "leaf_pairs (memory bt) a = zip (slotkey l) (slotdata l)" "leaf_pairs (memory bt) a \<noteq> []"
  using assms by (fastforce simp: leaves_ok_def leaf_pairs_def zip_eq_Nil_iff)

lemma chain_pairs_Nil: "leaves_ok bt ids \<Longrightarrow> chain_pairs (memory bt) ids = [] \<longleftrightarrow> ids = []"
  by (cases ids) (auto simp: leaves_ok_def leaf_pairs_def zip_eq_Nil_iff)

lemma iter_at_end:
  assumes "chain bt ids" and "leaves_ok bt ids" and "iter_at bt ids it suf"
  shows "btree_end bt = Some it \<longleftrightarrow> suf = []" and "\<exists>e. btree_end bt = Some e"
proof -
  show "\<exists>e. btree_end bt = Some e"
    using assms(1) chain_memory [OF assms(1), of "last ids"] by (auto simp: btree_end_def chain_def opt_last_def)
  show "btree_end bt = Some it \<longleftrightarrow> suf = []"
  proof (cases "ids = []")
    case True
    then show ?thesis using assms(1,3) by (auto simp: iter_at_def btree_end_def chain_def)
  next
    case False
    with assms(3) obtain A a B where it: "ids = A @ a # B" "fst it = Some a"
        "suf = drop (snd it) (leaf_pairs (memory bt) a) @ chain_pairs (memory bt) B"
        "snd it < length (leaf_pairs (memory bt) a) \<or> B = [] \<and> snd it = length (leaf_pairs (memory bt) a)"
      unfolding iter_at_def by blast
    obtain l where l: "memory bt (last ids) = Some l" "leaf_pairs (memory bt) (last ids) = zip (slotkey l) (slotdata l)"
        "length (slotdata l) = length (slotkey l)"
      using leaves_okD [OF assms(2), of "last ids"] False by (metis last_in_set)
    have e: "btree_end bt = Some (Some (last ids), length (leaf_pairs (memory bt) (last ids)))"
      using assms(1) False l by (simp add: btree_end_def chain_def opt_last_def)
    have "leaves_ok bt B" using assms(2) it(1) by (auto simp: leaves_ok_def)
    then have B: "chain_pairs (memory bt) B = [] \<longleftrightarrow> B = []" by (rule chain_pairs_Nil)
    have "last ids = a \<longleftrightarrow> B = []" using it(1) chain_distinct(1) [OF assms(1)] by auto
    then show ?thesis using it e B by (cases it) auto
  qed
qed

lemma iter_at_step:
  assumes "chain bt ids" and "leaves_ok bt ids" and "iter_at bt ids it (p # suf)"
  shows "iter_key bt it = Some (fst p)" and "iter_data bt it = Some (snd p)"
    and "\<exists>it'. iter_inc bt it = Some it' \<and> iter_at bt ids it' suf"
proof -
  obtain A a B where it: "ids = A @ a # B" "fst it = Some a"
      "p # suf = drop (snd it) (leaf_pairs (memory bt) a) @ chain_pairs (memory bt) B"
      "snd it < length (leaf_pairs (memory bt) a)"
    using assms(3) unfolding iter_at_def by fastforce
  obtain l where l: "memory bt a = Some l" "length (slotdata l) = length (slotkey l)"
      "leaf_pairs (memory bt) a = zip (slotkey l) (slotdata l)"
    using leaves_okD [OF assms(2), of a] it(1) by (metis in_set_conv_decomp)
  have next': "nextleaf l = opt_hd B" using assms(1) it(1) l(1) by (metis chainD option.inject)
  have len: "length (leaf_pairs (memory bt) a) = length (slotkey l)" using l by simp
  have "p # suf = (leaf_pairs (memory bt) a ! snd it # drop (Suc (snd it)) (leaf_pairs (memory bt) a)) @ chain_pairs (memory bt) B"
    using it(3) by (simp only: Cons_nth_drop_Suc [OF it(4)])
  then have p: "p = leaf_pairs (memory bt) a ! snd it" "suf = drop (Suc (snd it)) (leaf_pairs (memory bt) a) @ chain_pairs (memory bt) B"
    by simp_all
  show "iter_key bt it = Some (fst p)" "iter_data bt it = Some (snd p)"
    using it(2,4) l p(1) by (simp_all add: iter_key_def iter_data_def iter_leaf_def)
  show "\<exists>it'. iter_inc bt it = Some it' \<and> iter_at bt ids it' suf"
  proof (cases "snd it + 1 < length (slotkey l)")
    case True
    then have "iter_inc bt it = Some (Some a, snd it + 1)" using it(2) l by (simp add: iter_inc_def iter_leaf_def)
    moreover have "iter_at bt ids (Some a, snd it + 1) suf"
      using it(1) p(2) True len by (intro iter_atI [of ids A a B]) simp_all
    ultimately show ?thesis by blast
  next
    case False
    then have last: "Suc (snd it) = length (slotkey l)" using it(4) len by simp
    show ?thesis
    proof (cases B)
      case Nil
      have "iter_inc bt it = Some (Some a, length (slotkey l))"
        using it(2) l False next' Nil by (simp add: iter_inc_def iter_leaf_def)
      moreover have "iter_at bt ids (Some a, length (slotkey l)) suf"
        using it(1) p(2) last len Nil by (intro iter_atI [of ids A a B]) simp_all
      ultimately show ?thesis by blast
    next
      case (Cons b B')
      have "leaf_pairs (memory bt) b \<noteq> []" by (rule leaves_okD [OF assms(2), of b]) (simp_all add: it(1) Cons)
      moreover have "iter_inc bt it = Some (Some b, 0)"
        using it(2) l False next' Cons by (simp add: iter_inc_def iter_leaf_def)
      ultimately show ?thesis
        using it(1) p(2) last len Cons
        by (intro exI [of _ "(Some b, 0)"] conjI iter_atI [of ids "A @ [a]" b B']) simp_all
    qed
  qed
qed

subsection \<open>The invariant\<close>

definition tree_ok :: "'k::linorder btree_params \<Rightarrow> 'k btree \<Rightarrow> nat \<Rightarrow> 'k node \<Rightarrow> bool" where
  "tree_ok C bt h n \<longleftrightarrow> shape C (memory bt) True h n \<and> sorted (map fst (pairs (memory bt) n)) \<and>
     chain bt (leaf_addrs n) \<and> leaves (m_stats bt) = length (leaf_addrs n) \<and> innernodes (m_stats bt) = inner_count n"

text \<open>The tree is well formed and holds the pairs \<open>kvs\<close>, in this order.\<close>

definition btree_inv :: "'k::linorder btree_params \<Rightarrow> 'k btree \<Rightarrow> ('k \<times> u64) list \<Rightarrow> bool" where
  "btree_inv C bt kvs \<longleftrightarrow> itemcount (m_stats bt) = length kvs \<and>
     (case m_root bt of
        None \<Rightarrow> kvs = [] \<and> chain bt [] \<and> leaves (m_stats bt) = 0 \<and> innernodes (m_stats bt) = 0
      | Some n \<Rightarrow> kvs = pairs (memory bt) n \<and> (\<exists>h. tree_ok C bt h n))"

text \<open>The leaves of the tree in order, empty when there is no root.\<close>

definition bt_leaves :: "'k btree \<Rightarrow> addr list" where
  "bt_leaves bt = (case m_root bt of None \<Rightarrow> [] | Some n \<Rightarrow> leaf_addrs n)"

lemma btree_inv_chain:
  assumes "btree_inv C bt kvs"
  shows "chain bt (bt_leaves bt)" "leaves_ok bt (bt_leaves bt)" "kvs = chain_pairs (memory bt) (bt_leaves bt)"
    "sorted (map fst kvs)"
  using assms
  by (auto simp: btree_inv_def tree_ok_def bt_leaves_def leaves_ok_def leaf_ok_def dest!: shape_leaves split: option.splits)

lemma btree_inv_empty: "btree_inv C btree_empty []"
  by (simp add: btree_inv_def btree_empty_def chain_def)

lemma sorted_le_last: "sorted (map fst xs) \<Longrightarrow> p \<in> set xs \<Longrightarrow> fst p \<le> fst (last xs)"
proof (induction xs)
  case (Cons x xs)
  then show ?case by (cases xs) auto
qed simp

lemma sorted_concat_child:
  assumes "sorted (map fst (concat (map f cs)))" and "c \<in> set cs"
  shows "sorted (map fst (f c))"
  using assms by (induction cs) (auto simp: sorted_append)

text \<open>The keys of an inner node are sorted, since they are the largest keys of its children.\<close>

lemma slots_sorted:
  assumes "slots_ok (max_key mem) ks cs" and "sorted (map fst (concat (map (pairs mem) cs)))"
    and "\<forall>c\<in>set cs. pairs mem c \<noteq> []"
  shows "sorted ks"
  using assms
proof (induction ks arbitrary: cs)
  case (Cons k ks)
  then obtain c cs' where cs: "cs = c # cs'" by (cases cs) (auto simp: slots_ok_def)
  have ok: "slots_ok (max_key mem) ks cs'"
    using Cons.prems(1) unfolding cs slots_ok_def by (auto dest: spec [of _ "Suc _"])
  have k: "k = max_key mem c" using Cons.prems(1) unfolding cs slots_ok_def by (auto dest: spec [of _ 0])
  have "k \<le> k'" if k': "k' \<in> set ks" for k'
  proof -
    obtain i where "i < length ks" "k' = ks ! i" using k' by (auto simp: in_set_conv_nth)
    then have "k' = max_key mem (cs' ! i)" "cs' ! i \<in> set cs'" using ok by (auto simp: slots_ok_def)
    moreover have "pairs mem (cs' ! i) \<noteq> []" "pairs mem c \<noteq> []" using Cons.prems(3) cs calculation(2) by auto
    ultimately have "last (pairs mem (cs' ! i)) \<in> set (concat (map (pairs mem) cs'))" "last (pairs mem c) \<in> set (pairs mem c)"
      by auto (metis last_in_set)
    then show ?thesis using Cons.prems(2) cs k \<open>k' = max_key mem (cs' ! i)\<close> by (auto simp: sorted_append)
  qed
  then show ?case using Cons.IH [OF ok] Cons.prems(2,3) cs by (auto simp: sorted_append)
qed simp

subsection \<open>The descent to a leaf\<close>

text \<open>
  A search for the first key that does not satisfy \<open>P\<close>, a property of small keys: all pairs left of
  the leaf satisfy it, and the answer is not right of the leaf.
\<close>

definition searches :: "('k::linorder list \<Rightarrow> nat option) \<Rightarrow> ('k \<Rightarrow> bool) \<Rightarrow> bool" where
  "searches search P \<longleftrightarrow> (\<forall>x y. x \<le> y \<longrightarrow> P y \<longrightarrow> P x) \<and>
     (\<forall>ks. sorted ks \<longrightarrow> length ks < 2 ^ 16 \<longrightarrow> search ks = Some (length (takeWhile P ks)))"

lemma inner_slot:
  assumes "shape C mem r (Suc h) (Inner level ks cs)" and "sorted (map fst (pairs mem (Inner level ks cs)))"
    and "searches search P" and "innerslotmax C < 2 ^ 16"
  obtains slot where "search ks = Some slot" "slot < length cs"
    "cs = take slot cs @ cs ! slot # drop (Suc slot) cs"
    "\<forall>c\<in>set (take slot cs). \<forall>p\<in>set (pairs mem c). P (fst p)"
    "slot < length ks \<longrightarrow> \<not> P (max_key mem (cs ! slot))" "slot = length ks \<longrightarrow> drop (Suc slot) cs = []"
proof -
  let ?slot = "length (takeWhile P ks)"
  have sh: "slots_ok (max_key mem) ks cs" "\<forall>c\<in>set cs. shape C mem False h c" "length ks < 2 ^ 16"
    using assms(1,4) by auto
  have srt: "sorted (map fst (concat (map (pairs mem) cs)))" using assms(2) by (simp add: chain_pairs_concat)
  have "sorted ks" using slots_sorted [OF sh(1) srt] sh(2) shape_pairs by blast
  then have "search ks = Some ?slot" using assms(3) sh(3) by (simp add: searches_def)
  moreover have lt: "?slot < length cs" using sh(1) length_takeWhile_le [of P ks] by (simp add: slots_ok_def)
  moreover have "cs = take ?slot cs @ cs ! ?slot # drop (Suc ?slot) cs" using lt by (rule id_take_nth_drop)
  moreover have "P (fst p)" if cp: "c \<in> set (take ?slot cs)" "p \<in> set (pairs mem c)" for c p
  proof -
    obtain i where i: "i < ?slot" "c = cs ! i" using cp(1) by (auto simp: in_set_conv_nth)
    then have "P (ks ! i)" by (metis nth_mem set_takeWhileD takeWhile_nth)
    moreover have "i < length ks" using i(1) length_takeWhile_le [of P ks] by simp
    ultimately have "P (max_key mem c)" using sh(1) i(2) by (simp add: slots_ok_def)
    moreover have "c \<in> set cs" using that(1) by (meson in_set_takeD)
    then have "fst p \<le> max_key mem c" using sorted_concat_child [OF srt] sorted_le_last that(2) by blast
    ultimately show ?thesis using assms(3) by (auto simp: searches_def)
  qed
  moreover have "\<not> P (max_key mem (cs ! ?slot))" if "?slot < length ks"
    using nth_length_takeWhile [OF that] sh(1) that by (auto simp: slots_ok_def)
  moreover have "?slot = length ks \<longrightarrow> drop (Suc ?slot) cs = []" using sh(1) by (simp add: slots_ok_def)
  ultimately show ?thesis using that by blast
qed

lemma descend_split:
  assumes "shape C mem r h n" and "sorted (map fst (pairs mem n))"
    and "searches search P" and "innerslotmax C < 2 ^ 16"
  shows "\<exists>A a B. descend search n = Some a \<and> leaf_addrs n = A @ a # B \<and>
    (\<forall>p\<in>set (chain_pairs mem A). P (fst p)) \<and> (B = [] \<or> \<not> P (fst (last (leaf_pairs mem a))))"
  using assms(1,2)
proof (induction h arbitrary: r n)
  case 0
  then obtain a where "n = Leaf a" by (cases n) auto
  then show ?case by (intro exI [of _ "[]"] exI [of _ a]) simp
next
  case (Suc h)
  then obtain level ks cs where n: "n = Inner level ks cs" by (cases n) auto
  obtain slot where slot: "search ks = Some slot" "slot < length cs"
      "cs = take slot cs @ cs ! slot # drop (Suc slot) cs"
      "\<forall>c\<in>set (take slot cs). \<forall>p\<in>set (pairs mem c). P (fst p)"
      "slot < length ks \<longrightarrow> \<not> P (max_key mem (cs ! slot))" "slot = length ks \<longrightarrow> drop (Suc slot) cs = []"
    using inner_slot [OF Suc.prems [unfolded n] assms(3,4)] by blast
  have c: "cs ! slot \<in> set cs" using slot(2) by simp
  then have child: "shape C mem False h (cs ! slot)" "sorted (map fst (pairs mem (cs ! slot)))"
    using Suc.prems n sorted_concat_child [of "pairs mem" cs "cs ! slot"] by (auto simp: chain_pairs_concat)
  obtain A a B where IH: "descend search (cs ! slot) = Some a" "leaf_addrs (cs ! slot) = A @ a # B"
      "\<forall>p\<in>set (chain_pairs mem A). P (fst p)" "B = [] \<or> \<not> P (fst (last (leaf_pairs mem a)))"
    using Suc.IH [OF child] by blast
  let ?A = "concat (map leaf_addrs (take slot cs)) @ A" and ?B = "B @ concat (map leaf_addrs (drop (Suc slot) cs))"
  have "leaf_addrs n = ?A @ a # ?B"
    unfolding n by (subst slot(3)) (simp add: IH(2))
  moreover have "descend search n = Some a" using n slot(1,2) IH(1) by simp
  moreover have "\<forall>p\<in>set (chain_pairs mem ?A). P (fst p)"
    using slot(4) IH(3) by (auto simp: chain_pairs_concat)
  moreover have "?B = [] \<or> \<not> P (fst (last (leaf_pairs mem a)))"
  proof (cases "B = [] \<and> slot < length ks")
    case True
    have "leaf_pairs mem a \<noteq> []" using shape_leaves [OF child(1)] IH(2) leaf_ok_pairs by fastforce
    then have "last (pairs mem (cs ! slot)) = last (leaf_pairs mem a)" using True IH(2) by simp
    then show ?thesis using slot(5) True by simp
  next
    case False
    have "slot \<le> length ks" using slot(2) Suc.prems(1) n by (auto simp: slots_ok_def)
    then show ?thesis using False IH(4) slot(6) by auto
  qed
  ultimately show ?case by blast
qed

subsection \<open>Queries\<close>

text \<open>
  The search class of the tree and the bounds on its template parameters; the slots of a node are counted by an
  \<^verbatim>\<open>unsigned short\<close>.
\<close>

locale btree_class = search_class "bt_lower C" "bt_upper C" for C :: "'k::linorder btree_params" +
  assumes leafslots: "8 \<le> leafslotmax C" "leafslotmax C < 2 ^ 16"
    and innerslots: "8 \<le> innerslotmax C" "innerslotmax C < 2 ^ 16"
    and duplicates: "allow_duplicates C"
begin

lemma search_node:
  assumes "sorted ks" and "length ks < 2 ^ 16"
  shows "find_lower C ks key = Some (length (takeWhile (\<lambda>k. k < key) ks))"
    and "find_upper C ks key = Some (length (takeWhile (\<lambda>k. k \<le> key) ks))"
proof -
  have pre: "search_pre (list_reader ks) 0 (int (length ks)) 0"
    by (rule search_pre_list) (use assms in auto)
  show "find_lower C ks key = Some (length (takeWhile (\<lambda>k. k < key) ks))"
    by (simp add: find_lower_def lower_bound_ref [OF pre] ref_point_list)
  show "find_upper C ks key = Some (length (takeWhile (\<lambda>k. k \<le> key) ks))"
    by (simp add: find_upper_def upper_bound_ref [OF pre] ref_point_list not_less)
qed

lemma searches_node:
  "searches (\<lambda>ks. find_lower C ks key) (\<lambda>k. k < key)" "searches (\<lambda>ks. find_upper C ks key) (\<lambda>k. k \<le> key)"
  by (auto simp: searches_def search_node)

text \<open>The position that a descent and the search in its leaf give.\<close>

lemma descend_position:
  assumes "tree_ok C bt h n" and "searches search P"
  obtains a l slot where "descend search n = Some a" "memory bt a = Some l" "search (slotkey l) = Some slot"
    "iter_at bt (leaf_addrs n) (Some a, slot) (dropWhile (\<lambda>p. P (fst p)) (pairs (memory bt) n))"
    "slot < length (slotkey l) \<longrightarrow> hd (dropWhile (\<lambda>p. P (fst p)) (pairs (memory bt) n)) = (slotkey l ! slot, slotdata l ! slot)"
    "slot < length (slotkey l) \<longleftrightarrow> dropWhile (\<lambda>p. P (fst p)) (pairs (memory bt) n) \<noteq> []"
proof -
  let ?lp = "leaf_pairs (memory bt)" and ?Q = "\<lambda>p. P (fst p)"
  have ok: "shape C (memory bt) True h n" "sorted (map fst (pairs (memory bt) n))"
    using assms(1) by (auto simp: tree_ok_def)
  obtain A a B where d: "descend search n = Some a" "leaf_addrs n = A @ a # B"
      "\<forall>p\<in>set (chain_pairs (memory bt) A). P (fst p)" "B = [] \<or> \<not> P (fst (last (?lp a)))"
    using descend_split [OF ok assms(2) innerslots(2)] by blast
  obtain l where l: "memory bt a = Some l" "length (slotdata l) = length (slotkey l)" "slotkey l \<noteq> []"
      "length (slotkey l) \<le> leafslotmax C"
    using shape_leaves [OF ok(1), of a] d(2) by (auto simp: leaf_ok_def)
  have lp: "?lp a = zip (slotkey l) (slotdata l)" "map fst (?lp a) = slotkey l" "?lp a \<noteq> []" "length (?lp a) = length (slotkey l)"
    using l by (auto simp: leaf_pairs_def zip_eq_Nil_iff)
  define slot where "slot = length (takeWhile ?Q (?lp a))"
  have "sorted (slotkey l)" using ok(2) d(2) lp(2) by (simp add: sorted_append)
  then have s: "search (slotkey l) = Some slot"
    using assms(2) l(4) leafslots(2) lp(2) takeWhile_map [of P fst "?lp a"] by (auto simp: searches_def slot_def o_def)
  have sl: "takeWhile ?Q (?lp a) = take slot (?lp a)" "dropWhile ?Q (?lp a) = drop slot (?lp a)" "slot \<le> length (?lp a)"
    unfolding slot_def by (rule takeWhile_eq_take, rule dropWhile_eq_drop, rule length_takeWhile_le)
  have end': "B = []" if "slot = length (?lp a)"
  proof (rule ccontr)
    assume "B \<noteq> []"
    then have "\<not> ?Q (last (?lp a))" using d(4) by simp
    moreover have "takeWhile ?Q (?lp a) = ?lp a" using sl(1) that by simp
    ultimately show False using lp(3) by (metis last_in_set set_takeWhileD)
  qed
  have suf: "dropWhile ?Q (pairs (memory bt) n) = drop slot (?lp a) @ chain_pairs (memory bt) B"
  proof (cases "slot = length (?lp a)")
    case True
    then have "dropWhile ?Q (?lp a) = []" "B = []" using sl(2) end' by simp_all
    then show ?thesis using d(2,3) True by (simp add: dropWhile_append)
  next
    case False
    then have "\<not> (\<forall>p\<in>set (?lp a). ?Q p)" using sl(2,3) by (auto simp flip: dropWhile_eq_Nil_conv)
    then show ?thesis using d(2,3) sl(2) by (auto simp: dropWhile_append)
  qed
  show ?thesis
  proof (rule that [OF d(1) l(1) s])
    show "iter_at bt (leaf_addrs n) (Some a, slot) (dropWhile ?Q (pairs (memory bt) n))"
      using d(2) suf end' sl(3) by (intro iter_atI [of _ A a B]) auto
    show "slot < length (slotkey l) \<longrightarrow> hd (dropWhile ?Q (pairs (memory bt) n)) = (slotkey l ! slot, slotdata l ! slot)"
      using suf d(2) lp l(2) by (auto simp: hd_append hd_drop_conv_nth)
    show "slot < length (slotkey l) \<longleftrightarrow> dropWhile ?Q (pairs (memory bt) n) \<noteq> []"
      using suf lp(4) end' sl(3) by auto
  qed
qed

lemma bound_position:
  assumes "btree_inv C bt kvs"
  shows "\<exists>it. btree_lower_bound C bt key = Some it \<and> iter_at bt (bt_leaves bt) it (dropWhile (\<lambda>p. fst p < key) kvs)"
    and "\<exists>it. btree_upper_bound C bt key = Some it \<and> iter_at bt (bt_leaves bt) it (dropWhile (\<lambda>p. fst p \<le> key) kvs)"
proof -
  show "\<exists>it. btree_lower_bound C bt key = Some it \<and> iter_at bt (bt_leaves bt) it (dropWhile (\<lambda>p. fst p < key) kvs)"
  proof (cases "m_root bt")
    case None
    then show ?thesis using assms
      by (simp add: btree_lower_bound_def bt_leaves_def btree_inv_def btree_end_def chain_def iter_at_def)
  next
    case (Some n)
    then obtain h where "tree_ok C bt h n" "kvs = pairs (memory bt) n" using assms by (auto simp: btree_inv_def)
    then show ?thesis using Some by (elim descend_position [OF _ searches_node(1) [of key]]) (simp add: btree_lower_bound_def bt_leaves_def)
  qed
  show "\<exists>it. btree_upper_bound C bt key = Some it \<and> iter_at bt (bt_leaves bt) it (dropWhile (\<lambda>p. fst p \<le> key) kvs)"
  proof (cases "m_root bt")
    case None
    then show ?thesis using assms
      by (simp add: btree_upper_bound_def bt_leaves_def btree_inv_def btree_end_def chain_def iter_at_def)
  next
    case (Some n)
    then obtain h where "tree_ok C bt h n" "kvs = pairs (memory bt) n" using assms by (auto simp: btree_inv_def)
    then show ?thesis using Some by (elim descend_position [OF _ searches_node(2) [of key]]) (simp add: btree_upper_bound_def bt_leaves_def)
  qed
qed

lemma sorted_hd_dropWhile:
  assumes "sorted (map fst kvs)"
  shows "key \<in> fst ` set kvs \<longleftrightarrow> dropWhile (\<lambda>p. fst p < key) kvs \<noteq> [] \<and> fst (hd (dropWhile (\<lambda>p. fst p < key) kvs)) = key"
  using assms by (induction kvs) force+

lemma find_position:
  assumes "btree_inv C bt kvs"
  shows "btree_exists C bt key = Some (key \<in> fst ` set kvs)"
    and "\<exists>it. btree_find C bt key = Some it \<and>
      iter_at bt (bt_leaves bt) it (if key \<in> fst ` set kvs then dropWhile (\<lambda>p. fst p < key) kvs else [])"
proof -
  have "btree_exists C bt key = Some (key \<in> fst ` set kvs) \<and> (\<exists>it. btree_find C bt key = Some it \<and>
      iter_at bt (bt_leaves bt) it (if key \<in> fst ` set kvs then dropWhile (\<lambda>p. fst p < key) kvs else []))"
  proof (cases "m_root bt")
    case None
    then show ?thesis using assms
      by (simp add: btree_exists_def btree_find_def bt_leaves_def btree_inv_def btree_end_def chain_def iter_at_def)
  next
    case (Some n)
    then obtain h where ok: "tree_ok C bt h n" "kvs = pairs (memory bt) n" using assms by (auto simp: btree_inv_def)
    note inv = btree_inv_chain [OF assms]
    obtain a l slot where d: "descend (\<lambda>ks. find_lower C ks key) n = Some a" "memory bt a = Some l"
      "find_lower C (slotkey l) key = Some slot"
      "iter_at bt (leaf_addrs n) (Some a, slot) (dropWhile (\<lambda>p. fst p < key) kvs)"
      "slot < length (slotkey l) \<longrightarrow> hd (dropWhile (\<lambda>p. fst p < key) kvs) = (slotkey l ! slot, slotdata l ! slot)"
      "slot < length (slotkey l) \<longleftrightarrow> dropWhile (\<lambda>p. fst p < key) kvs \<noteq> []"
      by (rule descend_position [OF ok(1) searches_node(1) [of key], folded ok(2)])
    have found: "slot < length (slotkey l) \<and> key = slotkey l ! slot \<longleftrightarrow> key \<in> fst ` set kvs"
      using sorted_hd_dropWhile [OF inv(4), of key] d(5,6) by auto
    obtain e where e: "btree_end bt = Some e" "iter_at bt (leaf_addrs n) e []"
    proof -
      have ne: "leaf_addrs n \<noteq> []" using ok(1) unfolding tree_ok_def by (blast dest: shape_pairs)
      then obtain A z where z: "leaf_addrs n = A @ [z]" by (metis rev_exhaust)
      then obtain lz where lz: "memory bt z = Some lz" "length (slotdata lz) = length (slotkey lz)"
        using inv(2) Some by (auto simp: bt_leaves_def leaves_ok_def)
      have "btree_end bt = Some (Some z, length (leaf_pairs (memory bt) z))"
        using inv(1) z lz Some by (simp add: bt_leaves_def chain_def btree_end_def leaf_pairs_def)
      moreover have "iter_at bt (leaf_addrs n) (Some z, length (leaf_pairs (memory bt) z)) []"
        by (rule iter_atI [OF z]) simp_all
      ultimately show ?thesis using that by blast
    qed
    show ?thesis
      unfolding btree_exists_def btree_find_def bt_leaves_def using d(1-4) e
      by (cases "key \<in> fst ` set kvs") (simp_all add: Some found)
  qed
  then show "btree_exists C bt key = Some (key \<in> fst ` set kvs)"
    and "\<exists>it. btree_find C bt key = Some it \<and>
      iter_at bt (bt_leaves bt) it (if key \<in> fst ` set kvs then dropWhile (\<lambda>p. fst p < key) kvs else [])" by blast+
qed

end

end
