(* ===== verification/Stx_Btree_Insert.thy ===== *)
theory Stx_Btree_Insert
  imports Stx_Btree_Inv
begin

text \<open>
  Insertion into the B+-tree: the new pair is put before the pairs with the same key, and the invariant is kept
  through the splits of leaves, of inner nodes and of the root.
\<close>

definition ins_pair :: "'k::linorder \<Rightarrow> u64 \<Rightarrow> ('k \<times> u64) list \<Rightarrow> ('k \<times> u64) list" where
  "ins_pair key v kvs = takeWhile (\<lambda>p. fst p < key) kvs @ (key, v) # dropWhile (\<lambda>p. fst p < key) kvs"

lemma ins_pair_middle:
  assumes "\<forall>p\<in>set X. fst p < key" and "Y = [] \<or> Z \<noteq> [] \<and> \<not> fst (last Z) < key"
  shows "ins_pair key v (X @ Z @ Y) = X @ ins_pair key v Z @ Y"
proof (cases "Y = []")
  case False
  then have "last Z \<in> set Z" "\<not> fst (last Z) < key" using assms(2) by auto
  then show ?thesis using assms(1) by (auto simp: ins_pair_def takeWhile_append dropWhile_append)
qed (use assms(1) in \<open>simp add: ins_pair_def takeWhile_append dropWhile_append\<close>)

lemma last_ins_pair: "kvs \<noteq> [] \<Longrightarrow> \<not> fst (last kvs) < key \<Longrightarrow> last (ins_pair key v kvs) = last kvs"
proof -
  assume h: "kvs \<noteq> []" "\<not> fst (last kvs) < key"
  then have ne: "dropWhile (\<lambda>p. fst p < key) kvs \<noteq> []" by (metis dropWhile_eq_Nil_conv last_in_set)
  then have "last (ins_pair key v kvs) = last (dropWhile (\<lambda>p. fst p < key) kvs)" by (auto simp: ins_pair_def)
  also have "\<dots> = last kvs" using ne by (metis last_append takeWhile_dropWhile_id)
  finally show ?thesis .
qed

lemma ins_pair_mset: "mset (ins_pair key v kvs) = add_mset (key, v) (mset kvs)"
proof -
  have "mset (takeWhile P kvs) + mset (dropWhile P kvs) = mset kvs" for P :: "_ \<Rightarrow> bool"
    by (metis mset_append takeWhile_dropWhile_id)
  then show ?thesis by (simp add: ins_pair_def)
qed

lemma sorted_ins_pair:
  assumes "sorted (map fst kvs)"
  shows "sorted (map fst (ins_pair key v kvs))"
proof -
  let ?A = "takeWhile (\<lambda>p. fst p < key) kvs" and ?B = "dropWhile (\<lambda>p. fst p < key) kvs"
  have "sorted (map fst (?A @ ?B))" using assms by (simp only: takeWhile_dropWhile_id)
  then have "sorted (map fst ?A)" "sorted (map fst ?B)" by (simp_all only: map_append sorted_append)
  moreover have "\<forall>q\<in>set ?B. key \<le> fst q" using assms by (induction kvs) (auto simp: not_less intro: order_trans)
  moreover have "\<forall>p\<in>set ?A. fst p < key" by (blast dest: set_takeWhileD)
  ultimately show ?thesis unfolding ins_pair_def by (fastforce simp: sorted_append)
qed

subsection \<open>Slots\<close>

lemma put_slot_length [simp]: "length (put_slot slot x xs) = Suc (length xs)" "put_slot slot x xs \<noteq> []"
  by (simp_all add: put_slot_def)

lemma zip_put_slot:
  "length ks = length ds \<Longrightarrow> zip (put_slot slot k ks) (put_slot slot d ds) = put_slot slot (k, d) (zip ks ds)"
  by (simp add: put_slot_def zip_append take_zip drop_zip)

lemma put_slot_pair:
  assumes "length ks = length ds" and "slot = length (takeWhile (\<lambda>k. k < key) ks)"
  shows "put_slot slot (key, v) (zip ks ds) = ins_pair key v (zip ks ds)"
proof -
  have "map fst (zip ks ds) = ks" using assms(1) by simp
  then have slot: "slot = length (takeWhile (\<lambda>p. fst p < key) (zip ks ds))"
    using assms(2) takeWhile_map [of "\<lambda>k. k < key" fst "zip ks ds"] by (simp add: o_def)
  have "takeWhile (\<lambda>p. fst p < key) (zip ks ds) = take slot (zip ks ds)"
    "dropWhile (\<lambda>p. fst p < key) (zip ks ds) = drop slot (zip ks ds)"
    unfolding slot by (rule takeWhile_eq_take, rule dropWhile_eq_drop)
  then show ?thesis by (simp only: put_slot_def ins_pair_def)
qed

lemma put_slot_left: "slot \<le> mid \<Longrightarrow> put_slot slot x (take mid xs) @ drop mid xs = put_slot slot x xs"
  by (simp add: put_slot_def drop_take min_def) (metis append_take_drop_id drop_drop le_add_diff_inverse2 take_drop)

lemma put_slot_right: "mid \<le> slot \<Longrightarrow> mid \<le> length xs \<Longrightarrow> take mid xs @ put_slot (slot - mid) x (drop mid xs) = put_slot slot x xs"
  by (simp add: put_slot_def) (metis append.assoc append_take_drop_id le_add_diff_inverse take_add)

lemma insert_child_room:
  assumes "length ks < innerslotmax C" and "slot \<le> length ks"
  shows "insert_child C slot nk nc (ks, cs) = Some ((put_slot slot nk ks, put_slot (slot + 1) nc cs), None)"
  using assms by (simp add: insert_child_def put_child_def)

lemma split_mid_cases:
  assumes "2 \<le> m"
  obtains "split_mid m slot = m div 2" "m div 2 < slot \<or> odd m"
  | "split_mid m slot = m div 2 - 1" "slot \<le> m div 2" "even m"
proof (cases "slot \<le> m div 2 \<and> even m")
  case True
  then have "split_mid m slot = m div 2 - 1" using assms by (auto simp: split_mid_def Let_def)
  then show ?thesis using that(2) True by blast
next
  case False
  then have "split_mid m slot = m div 2" by (auto simp: split_mid_def Let_def elim!: oddE)
  then show ?thesis using that(1) False by auto
qed

lemma insert_child_full:
  assumes "length ks = innerslotmax C" and "2 \<le> innerslotmax C" and "slot \<le> length ks" and "length cs = Suc (length ks)"
  shows "\<exists>lks lcs sk rks rcs. insert_child C slot nk nc (ks, cs) = Some ((lks, lcs), Some (sk, (rks, rcs))) \<and>
    put_slot slot nk ks = lks @ sk # rks \<and> put_slot (slot + 1) nc cs = lcs @ rcs \<and> length lcs = Suc (length lks) \<and>
    mininnerslots C \<le> length lks \<and> mininnerslots C \<le> length rks \<and>
    length lks \<le> innerslotmax C \<and> length rks \<le> innerslotmax C"
proof -
  let ?m = "length ks"
  define mid where "mid = split_mid ?m slot"
  have m: "2 \<le> ?m" using assms(1,2) by simp
  have mid: "mid < ?m" "?m div 2 \<le> mid + 1" "slot \<le> mid \<Longrightarrow> ?m div 2 \<le> ?m - (mid + 1)"
      "mid + 1 \<le> slot \<Longrightarrow> \<not> (slot = mid + 1 \<and> mid < ?m - (mid + 1)) \<Longrightarrow> ?m div 2 \<le> mid \<and> ?m div 2 \<le> ?m - mid"
      "slot = mid + 1 \<Longrightarrow> mid < ?m - (mid + 1) \<Longrightarrow> ?m div 2 \<le> ?m - (mid + 1)"
    using m by (rule split_mid_cases [of ?m slot]; simp add: mid_def; presburger)+
  let ?lks = "take mid ks" and ?lcs = "take (mid + 1) cs" and ?rks = "drop (mid + 1) ks" and ?rcs = "drop (mid + 1) cs"
  have split: "split_inner_node (ks, cs) slot = (ks ! mid, (?lks, ?lcs), (?rks, ?rcs))"
    by (simp add: split_inner_node_def mid_def Let_def)
  have ks: "take mid ks @ ks ! mid # drop (mid + 1) ks = ks" using mid(1) by (simp add: id_take_nth_drop [symmetric])
  have len: "length ?lks = mid" "length ?rks = ?m - (mid + 1)" "length ?lcs = Suc mid" using mid(1) assms(4) by simp_all
  consider (special) "slot = mid + 1" "mid < ?m - (mid + 1)"
    | (right) "mid + 1 \<le> slot" "\<not> (slot = mid + 1 \<and> mid < ?m - (mid + 1))" | (left) "slot \<le> mid" by linarith
  moreover have fin: ?thesis
    if "insert_child C slot nk nc (ks, cs) = Some ((lks, lcs), Some (sk, (rks, rcs)))"
      "put_slot slot nk ks = lks @ sk # rks" "put_slot (slot + 1) nc cs = lcs @ rcs" "length lcs = Suc (length lks)"
      "?m div 2 \<le> length lks" "?m div 2 \<le> length rks" "length lks \<le> ?m" "length rks \<le> ?m" for lks lcs sk rks rcs
    using that assms(1) unfolding mininnerslots_def by metis
  ultimately show ?thesis
  proof cases
    case special
    have eq: "insert_child C slot nk nc (ks, cs) = Some ((?lks @ [ks ! mid], ?lcs @ [?rcs ! 0]), Some (nk, (?rks, ?rcs[0 := nc])))"
      using special assms(1) len unfolding insert_child_def split by simp
    have "?lks @ [ks ! mid] = take slot ks" using mid(1) special by (simp add: take_Suc_conv_app_nth)
    moreover have "?lcs @ [?rcs ! 0] = take (slot + 1) cs" "?rcs[0 := nc] = nc # drop (slot + 1) cs"
      using special mid(1) assms(4) by (simp_all add: take_Suc_conv_app_nth Cons_nth_drop_Suc [symmetric])
    ultimately show ?thesis
      using special mid(1,2,5) assms(4) len by (intro fin [OF eq]) (simp_all add: put_slot_def)
  next
    case right
    let ?s = "slot - (mid + 1)"
    have eq: "insert_child C slot nk nc (ks, cs) =
        Some ((?lks, ?lcs), Some (ks ! mid, (put_slot ?s nk ?rks, put_slot (?s + 1) nc ?rcs)))"
      using right assms mid(1) len unfolding insert_child_def split by (auto simp: put_child_def)
    have "put_slot slot nk ks = ?lks @ ks ! mid # put_slot ?s nk ?rks"
      using put_slot_right [of "mid + 1" slot ks nk] right mid(1) by (simp add: take_Suc_conv_app_nth)
    moreover have "put_slot (slot + 1) nc cs = ?lcs @ put_slot (?s + 1) nc ?rcs"
      using put_slot_right [of "mid + 1" "slot + 1" cs nc] right mid(1) assms(4) by (simp add: Suc_diff_Suc Suc_le_eq)
    ultimately show ?thesis
      using right mid(1,4) len by (intro fin [OF eq]) (simp_all add: Suc_diff_Suc)
  next
    case left
    have eq: "insert_child C slot nk nc (ks, cs) =
        Some ((put_slot slot nk ?lks, put_slot (slot + 1) nc ?lcs), Some (ks ! mid, (?rks, ?rcs)))"
      using left assms mid(1) len unfolding insert_child_def split by (auto simp: put_child_def)
    have "put_slot slot nk ks = put_slot slot nk ?lks @ ks ! mid # ?rks"
      using put_slot_left [OF left, of nk ks] mid(1) by (simp add: Cons_nth_drop_Suc)
    moreover have "put_slot (slot + 1) nc cs = put_slot (slot + 1) nc ?lcs @ ?rcs"
      using put_slot_left [of "slot + 1" "mid + 1" nc cs] left by simp
    ultimately show ?thesis
      using left mid(1-3) len by (intro fin [OF eq]) simp_all
  qed
qed

subsection \<open>Leaves\<close>

lemma leaf_pairs_upd: "leaf_pairs (mem(a := Some l)) x = (if x = a then zip (slotkey l) (slotdata l) else leaf_pairs mem x)"
  by (simp add: leaf_pairs_def)

lemma same_slots_upd: "x \<noteq> a \<Longrightarrow> same_slots mem (mem'(a := l)) x = same_slots mem mem' x"
  by (simp add: same_slots_def)

text \<open>What a split of a leaf leaves behind: the two halves, linked in place of the old leaf.\<close>

lemma split_leaf_node_result:
  assumes "chain bt (X @ a # Y)" and "memory bt a = Some l" and "2 \<le> length (slotkey l)"
  defines "mid \<equiv> length (slotkey l) div 2"
  obtains la lb bt' where "split_leaf_node a bt = Some (slotkey l ! (mid - 1), fresh bt, bt')"
    "chain bt' (X @ a # fresh bt # Y)" "memory bt' a = Some la" "memory bt' (fresh bt) = Some lb"
    "slotkey la = take mid (slotkey l)" "slotdata la = take mid (slotdata l)"
    "slotkey lb = drop mid (slotkey l)" "slotdata lb = drop mid (slotdata l)"
    "\<forall>x. x \<noteq> a \<longrightarrow> x < fresh bt \<longrightarrow> same_slots (memory bt) (memory bt') x"
    "fresh bt' = Suc (fresh bt)" "m_stats bt' = (m_stats bt)\<lparr>leaves := Suc (leaves (m_stats bt))\<rparr>"
proof -
  let ?b = "fresh bt"
  let ?la = "l\<lparr>slotkey := take mid (slotkey l), slotdata := take mid (slotdata l), nextleaf := Some ?b\<rparr>"
  let ?lb = "\<lparr>slotkey = drop mid (slotkey l), slotdata = drop mid (slotdata l), prevleaf = Some a, nextleaf = nextleaf l\<rparr>"
  have d: "distinct (X @ a # Y)" "\<forall>x\<in>set (X @ a # Y). x < ?b" "m_headleaf bt = opt_hd (X @ a # Y)"
      "m_tailleaf bt = opt_last (X @ a # Y)" "seg (memory bt) None X (Some a)"
      "prevleaf l = opt_last X" "nextleaf l = opt_hd Y" "seg (memory bt) (Some a) Y None"
    using assms(1,2) by (auto simp: chain_def seg_append opt_hd_def opt_last_def)
  have mid: "0 < mid" using assms(3) by (simp add: mid_def)
  show ?thesis
  proof (cases Y)
    case Nil
    define bt' where "bt' = bt\<lparr>memory := (memory bt)(?b := Some ?lb, a := Some ?la), m_tailleaf := Some ?b, fresh := Suc ?b,
      m_stats := (m_stats bt)\<lparr>leaves := Suc (leaves (m_stats bt))\<rparr>\<rparr>"
    show ?thesis
    proof (rule that [of bt' ?la ?lb])
      show "split_leaf_node a bt = Some (slotkey l ! (mid - 1), ?b, bt')"
        using assms(2) d(7) Nil mid by (simp add: split_leaf_node_def allocate_leaf_def set_leaf_def Let_def mid_def [symmetric] bt'_def)
      have "\<forall>x\<in>set X. memory bt' x = memory bt x" using d(1,2) by (auto simp: bt'_def)
      then have "seg (memory bt') None X (Some a)" using d(5) seg_cong by blast
      then show "chain bt' (X @ a # ?b # Y)"
        using d(1,2,3,6,7) Nil unfolding chain_def seg_append
        by (auto simp: bt'_def opt_hd_def opt_last_def hd_append intro: less_SucI)
    qed (use d(2) in \<open>auto simp: bt'_def same_slots_def\<close>)
  next
    case (Cons c Y')
    obtain lc where lc: "memory bt c = Some lc" "prevleaf lc = Some a" "seg (memory bt) (Some c) Y' None"
        "nextleaf lc = (if Y' = [] then None else Some (hd Y'))"
      using d(8) Cons by auto
    let ?lc = "lc\<lparr>prevleaf := Some ?b\<rparr>"
    define bt' where "bt' = bt\<lparr>memory := (memory bt)(c := Some ?lc, ?b := Some ?lb, a := Some ?la), fresh := Suc ?b,
      m_stats := (m_stats bt)\<lparr>leaves := Suc (leaves (m_stats bt))\<rparr>\<rparr>"
    have c: "c \<noteq> a" "c \<noteq> ?b" "?b \<notin> set (X @ a # Y)" using d(1,2) Cons by auto
    show ?thesis
    proof (rule that [of bt' ?la ?lb])
      show "split_leaf_node a bt = Some (slotkey l ! (mid - 1), ?b, bt')"
        using assms(2) d(7) Cons mid lc(1) c
        by (auto simp: split_leaf_node_def allocate_leaf_def set_leaf_def Let_def mid_def [symmetric] bt'_def fun_upd_twist)
      have "\<forall>x\<in>set X. memory bt' x = memory bt x" "\<forall>x\<in>set Y'. memory bt' x = memory bt x"
        using d(1,2) Cons by (auto simp: bt'_def)
      then have "seg (memory bt') None X (Some a)" "seg (memory bt') (Some c) Y' None"
        using d(5) lc(3) seg_cong by blast+
      then show "chain bt' (X @ a # ?b # Y)"
        using d(1-4,6,7) Cons lc c unfolding chain_def seg_append
        by (auto simp: bt'_def opt_hd_def opt_last_def hd_append intro: less_SucI)
    qed (use d(2) c lc in \<open>auto simp: bt'_def same_slots_def\<close>)
  qed
qed

text \<open>
  What an insertion below a node guarantees: the node and its new sibling, if any, hold the pairs of the node and the
  new one, and stand in the chain where the node stood.
\<close>

definition split_nodes :: "('k \<times> 'k node) option \<Rightarrow> 'k node list" where
  "split_nodes split = (case split of None \<Rightarrow> [] | Some (k, m) \<Rightarrow> [m])"

lemma split_nodes_simps [simp]: "split_nodes None = []" "split_nodes (Some (k, m)) = [m]"
  by (simp_all add: split_nodes_def)

definition insert_ok ::
    "'k::linorder btree_params \<Rightarrow> 'k \<Rightarrow> u64 \<Rightarrow> addr list \<Rightarrow> addr list \<Rightarrow> bool \<Rightarrow> nat \<Rightarrow> 'k node \<Rightarrow> 'k btree
      \<Rightarrow> 'k node \<Rightarrow> ('k \<times> 'k node) option \<Rightarrow> 'k btree \<Rightarrow> bool" where
  "insert_ok C key v X Y r h n bt n' split bt' \<longleftrightarrow>
     (let ns = n' # split_nodes split in
      (\<forall>m\<in>set ns. shape C (memory bt') (r \<and> split = None) h m) \<and>
      concat (map (pairs (memory bt')) ns) = ins_pair key v (pairs (memory bt) n) \<and>
      (\<forall>sk m. split = Some (sk, m) \<longrightarrow> sk = max_key (memory bt') n') \<and>
      chain bt' (X @ concat (map leaf_addrs ns) @ Y) \<and>
      (\<forall>x. x \<notin> set (leaf_addrs n) \<longrightarrow> x < fresh bt \<longrightarrow> same_slots (memory bt) (memory bt') x) \<and>
      leaves (m_stats bt') + length (leaf_addrs n) = leaves (m_stats bt) + length (concat (map leaf_addrs ns)) \<and>
      innernodes (m_stats bt') + inner_count n = innernodes (m_stats bt) + sum_list (map inner_count ns) \<and>
      itemcount (m_stats bt') = itemcount (m_stats bt))"

context btree_class
begin

lemma insert_leaf_result:
  assumes "memory bt a = Some l" and "length (slotdata l) = length (slotkey l)" and "length (slotkey l) \<le> leafslotmax C"
    and "r \<or> minleafslots C \<le> length (slotkey l)" and "sorted (slotkey l)" and "chain bt (X @ a # Y)"
  shows "\<exists>split it bt'. insert_leaf C key v a bt = Some (split, it, True, bt') \<and>
    insert_ok C key v X Y r 0 (Leaf a) bt (Leaf a) (map_option (\<lambda>(k, b). (k, Leaf b)) split) bt'"
proof -
  let ?slot = "length (takeWhile (\<lambda>k. k < key) (slotkey l))"
  have slot: "find_lower C (slotkey l) key = Some ?slot" "?slot \<le> length (slotkey l)"
    using search_node(1) [OF assms(5)] assms(3) leafslots(2) by (simp_all add: length_takeWhile_le)
  have ins: "put_slot ?slot (key, v) (zip (slotkey l) (slotdata l)) = ins_pair key v (leaf_pairs (memory bt) a)"
    using put_slot_pair [of "slotkey l" "slotdata l" ?slot key v] assms(1,2) by (simp add: leaf_pairs_def)
  show ?thesis
  proof (cases "length (slotkey l) = leafslotmax C")
    case False
    let ?l = "l\<lparr>slotkey := put_slot ?slot key (slotkey l), slotdata := put_slot ?slot v (slotdata l)\<rparr>"
    let ?bt = "set_leaf a ?l bt"
    have "insert_leaf C key v a bt = Some (None, (Some a, ?slot), True, ?bt)"
      using assms(1,3) slot False duplicates by (simp add: insert_leaf_def)
    moreover have "chain ?bt (X @ a # Y)"
      using assms(6) seg_slots [of "memory bt" a l ?l] assms(1) by (simp add: chain_def set_leaf_def)
    moreover have "leaf_pairs (memory ?bt) a = ins_pair key v (leaf_pairs (memory bt) a)"
      using ins assms(2) by (simp add: set_leaf_def leaf_pairs_upd zip_put_slot)
    moreover have "leaf_ok C (memory ?bt) r a"
      using assms(2-4) False by (auto simp: set_leaf_def leaf_ok_def)
    ultimately show ?thesis
      by (intro exI [of _ None] exI [of _ "(Some a, ?slot)"] exI [of _ ?bt])
        (simp add: insert_ok_def set_leaf_def same_slots_def)
  next
    case True
    let ?mid = "length (slotkey l) div 2" and ?b = "fresh bt"
    have mid: "0 < ?mid" "?mid < length (slotkey l)" "minleafslots C = ?mid" "?mid + 1 \<le> leafslotmax C"
      using True leafslots(1) by (auto simp: minleafslots_def)
    obtain la lb bt1 where sp: "split_leaf_node a bt = Some (slotkey l ! (?mid - 1), ?b, bt1)"
        "chain bt1 (X @ a # ?b # Y)" "memory bt1 a = Some la" "memory bt1 ?b = Some lb"
        "slotkey la = take ?mid (slotkey l)" "slotdata la = take ?mid (slotdata l)"
        "slotkey lb = drop ?mid (slotkey l)" "slotdata lb = drop ?mid (slotdata l)"
        "\<forall>x. x \<noteq> a \<longrightarrow> x < fresh bt \<longrightarrow> same_slots (memory bt) (memory bt1) x"
        "fresh bt1 = Suc ?b" "m_stats bt1 = (m_stats bt)\<lparr>leaves := Suc (leaves (m_stats bt))\<rparr>"
      using mid(1,2) by (auto intro: split_leaf_node_result [OF assms(6,1)])
    have ab: "a < ?b" using chain_distinct(2) [OF assms(6), of a] by simp
    have key': "slotkey l ! (?mid - 1) = last (take ?mid (slotkey l))"
      using mid by (subst last_conv_nth) (auto simp: min_def)
    show ?thesis
    proof (cases "?mid \<le> ?slot")
      case right: True
      let ?l = "lb\<lparr>slotkey := put_slot (?slot - ?mid) key (slotkey lb), slotdata := put_slot (?slot - ?mid) v (slotdata lb)\<rparr>"
      let ?bt = "set_leaf ?b ?l bt1"
      have "insert_leaf C key v a bt = Some (Some (slotkey l ! (?mid - 1), ?b), (Some ?b, ?slot - ?mid), True, ?bt)"
        using assms(1,3) slot True duplicates sp mid right ab by (simp add: insert_leaf_def min_def) (intro conjI; linarith)
      moreover have "chain ?bt (X @ a # ?b # Y)"
        using sp(2) seg_slots [of "memory bt1" ?b lb ?l] sp(4) by (simp add: chain_def set_leaf_def)
      moreover have "leaf_pairs (memory ?bt) a @ leaf_pairs (memory ?bt) ?b = ins_pair key v (leaf_pairs (memory bt) a)"
        unfolding ins [symmetric] using put_slot_right [OF right, of "zip (slotkey l) (slotdata l)" "(key, v)"] sp ab mid(2) assms(2)
        by (simp add: set_leaf_def leaf_pairs_def zip_put_slot take_zip drop_zip)
      moreover have "leaf_ok C (memory ?bt) False a" "leaf_ok C (memory ?bt) False ?b"
        using sp ab assms(2,3) mid True by (auto simp: set_leaf_def leaf_ok_def)
      moreover have "slotkey l ! (?mid - 1) = fst (last (leaf_pairs (memory ?bt) a))"
        using sp ab mid assms(2) unfolding key' by (subst leaf_max_key [of _ _ la]) (auto simp: set_leaf_def)
      moreover have "\<forall>x. x \<noteq> a \<longrightarrow> x < fresh bt \<longrightarrow> same_slots (memory bt) (memory ?bt) x"
        using sp(9) by (simp add: set_leaf_def same_slots_upd)
      ultimately show ?thesis
        using sp(11) by (intro exI [of _ "Some (slotkey l ! (?mid - 1), ?b)"] exI [of _ "(Some ?b, ?slot - ?mid)"] exI [of _ ?bt])
          (simp add: insert_ok_def set_leaf_def)
    next
      case left: False
      let ?l = "la\<lparr>slotkey := put_slot ?slot key (slotkey la), slotdata := put_slot ?slot v (slotdata la)\<rparr>"
      let ?bt = "set_leaf a ?l bt1"
      have "insert_leaf C key v a bt = Some (Some (slotkey l ! (?mid - 1), ?b), (Some a, ?slot), True, ?bt)"
        using assms(1,3) slot True duplicates sp mid left ab by (simp add: insert_leaf_def min_def)
      moreover have "chain ?bt (X @ a # ?b # Y)"
        using sp(2) seg_slots [of "memory bt1" a la ?l] sp(3) by (simp add: chain_def set_leaf_def)
      moreover have "leaf_pairs (memory ?bt) a @ leaf_pairs (memory ?bt) ?b = ins_pair key v (leaf_pairs (memory bt) a)"
        unfolding ins [symmetric] using put_slot_left [of ?slot ?mid "(key, v)" "zip (slotkey l) (slotdata l)"] left sp ab assms(2)
        by (simp add: set_leaf_def leaf_pairs_def zip_put_slot take_zip drop_zip)
      moreover have "leaf_ok C (memory ?bt) False a" "leaf_ok C (memory ?bt) False ?b"
        using sp ab assms(2,3) mid True by (auto simp: set_leaf_def leaf_ok_def)
      moreover have "slotkey l ! (?mid - 1) = fst (last (leaf_pairs (memory ?bt) a))"
      proof -
        have "last (put_slot ?slot key (take ?mid (slotkey l))) = last (take ?mid (slotkey l))"
          using left mid by (simp add: put_slot_def last_drop)
        then show ?thesis unfolding key' using sp assms(2) by (subst leaf_max_key [of _ _ ?l]) (auto simp: set_leaf_def)
      qed
      moreover have "\<forall>x. x \<noteq> a \<longrightarrow> x < fresh bt \<longrightarrow> same_slots (memory bt) (memory ?bt) x"
        using sp(9) by (simp add: set_leaf_def same_slots_upd)
      ultimately show ?thesis
        using sp(11) by (intro exI [of _ "Some (slotkey l ! (?mid - 1), ?b)"] exI [of _ "(Some a, ?slot)"] exI [of _ ?bt])
          (simp add: insert_ok_def set_leaf_def)
    qed
  qed
qed

end

text \<open>The slots of an inner node after an insertion below the child at \<open>slot\<close>.\<close>

lemma slots_ok_insert:
  assumes "slots_ok mk ks cs" and "slot < length cs"
    and "\<forall>c\<in>set (take slot cs) \<union> set (drop (Suc slot) cs). mk' c = mk c"
    and "slot < length ks \<longrightarrow> mk' (last (c' # ms)) = mk (cs ! slot)"
    and "ms = [] \<and> nks = [] \<or> ms = [m] \<and> nks = [mk' c']"
  shows "slots_ok mk' (take slot ks @ nks @ drop slot ks) (take slot cs @ c' # ms @ drop (Suc slot) cs)"
proof -
  have len: "length cs = Suc (length ks)" "slot \<le> length ks" using assms(1,2) by (auto simp: slots_ok_def)
  have left: "ks ! i = mk' (cs ! i)" if "i < slot" for i
  proof -
    have "cs ! i \<in> set (take slot cs)" using that len by (metis in_set_conv_nth length_take min.absorb2 assms(2) less_imp_le nth_take)
    then show ?thesis using that assms(1,3) len by (auto simp: slots_ok_def)
  qed
  have right: "ks ! i = mk' (cs ! i)" if "slot < i" "i < length ks" for i
  proof -
    have "drop (Suc slot) cs ! (i - Suc slot) = cs ! i" "i - Suc slot < length (drop (Suc slot) cs)" using that len by auto
    then have "cs ! i \<in> set (drop (Suc slot) cs)" by (metis nth_mem)
    then show ?thesis using that assms(1,3) by (auto simp: slots_ok_def)
  qed
  have at: "slot < length ks \<longrightarrow> ks ! slot = mk' (last (c' # ms))" using assms(1,4) by (auto simp: slots_ok_def)
  have "(take slot ks @ nks @ drop slot ks) ! i = mk' ((take slot cs @ c' # ms @ drop (Suc slot) cs) ! i)"
    if i: "i < length (take slot ks @ nks @ drop slot ks)" for i
  proof (cases "i < slot")
    case True
    then show ?thesis using left [OF True] len assms(2) by (simp add: nth_append)
  next
    case False
    show ?thesis
    proof (cases "ms = []")
      case True
      then show ?thesis using assms(5) False i len at right [of i]
        by (cases "i = slot") (auto simp: nth_append nth_Cons' min_def)
    next
      case ms: False
      then have ms': "ms = [m]" "nks = [mk' c']" using assms(5) by auto
      consider "i = slot" | "i = slot + 1" | "slot + 1 < i" using False by linarith
      then show ?thesis
      proof cases
        case 3
        then obtain d where d: "i = Suc (Suc slot) + d" using less_iff_Suc_add [of "slot + 1" i] by auto
        then show ?thesis using ms' i len right [of "Suc slot + d"] by (auto simp: nth_append min_def split: if_splits)
      qed (use ms' i len at in \<open>auto simp: nth_append nth_Cons' min_def\<close>)
    qed
  qed
  moreover have "length (take slot cs @ c' # ms @ drop (Suc slot) cs) = Suc (length (take slot ks @ nks @ drop slot ks))"
    using assms(5) len by auto
  ultimately show ?thesis by (auto simp: slots_ok_def)
qed

lemma slots_ok_split:
  assumes "slots_ok mk (lks @ sk # rks) (lcs @ rcs)" and "length lcs = Suc (length lks)"
  shows "slots_ok mk lks lcs" "slots_ok mk rks rcs" "sk = mk (last lcs)"
proof -
  have nth: "(lks @ sk # rks) ! i = mk ((lcs @ rcs) ! i)" if "i < length lks + Suc (length rks)" for i
    using assms(1) that by (simp add: slots_ok_def)
  show "slots_ok mk lks lcs" using assms(2) nth by (auto simp: slots_ok_def) (metis less_SucI nth_append trans_less_add1)
  show "sk = mk (last lcs)" using nth [of "length lks"] assms(2)
    by (simp add: nth_append last_conv_nth flip: length_0_conv)
  have "rks ! i = mk (rcs ! i)" if "i < length rks" for i
    using nth [of "length lks + Suc i"] that assms(2) by (simp add: nth_append)
  then show "slots_ok mk rks rcs" using assms by (simp add: slots_ok_def)
qed

subsection \<open>Descent\<close>

lemma concat_map_take_drop:
  assumes "slot < length cs"
  shows "concat (map f cs) = concat (map f (take slot cs)) @ f (cs ! slot) @ concat (map f (drop (Suc slot) cs))"
  by (subst id_take_nth_drop [OF assms]) simp

lemma put_slot_children:
  assumes "slot < length cs"
  shows "put_slot (slot + 1) m (cs[slot := c']) = take slot cs @ c' # [m] @ drop (Suc slot) cs"
  using assms by (simp add: put_slot_def take_Suc_conv_app_nth)

text \<open>
  The step of the descent at an inner node: what holds of the child that took the pair carries over to the list
  of all children.
\<close>

definition children_ok ::
    "'k::linorder btree_params \<Rightarrow> 'k \<Rightarrow> u64 \<Rightarrow> addr list \<Rightarrow> addr list \<Rightarrow> nat \<Rightarrow> 'k node list \<Rightarrow> 'k btree \<Rightarrow> 'k list \<Rightarrow> 'k node list \<Rightarrow> 'k btree \<Rightarrow> bool" where
  "children_ok C key v X Y h cs bt ks' cs' bt' \<longleftrightarrow>
     slots_ok (max_key (memory bt')) ks' cs' \<and> (\<forall>c\<in>set cs'. shape C (memory bt') False h c) \<and>
     concat (map (pairs (memory bt')) cs') = ins_pair key v (concat (map (pairs (memory bt)) cs)) \<and>
     chain bt' (X @ concat (map leaf_addrs cs') @ Y) \<and>
     (\<forall>x. x \<notin> set (concat (map leaf_addrs cs)) \<longrightarrow> x < fresh bt \<longrightarrow> same_slots (memory bt) (memory bt') x) \<and>
     leaves (m_stats bt') + length (concat (map leaf_addrs cs)) = leaves (m_stats bt) + length (concat (map leaf_addrs cs')) \<and>
     innernodes (m_stats bt') + sum_list (map inner_count cs) = innernodes (m_stats bt) + sum_list (map inner_count cs') \<and>
     itemcount (m_stats bt') = itemcount (m_stats bt)"

lemma children_step:
  assumes ok: "slots_ok (max_key (memory bt)) ks cs" "\<forall>c\<in>set cs. shape C (memory bt) False h c"
    and slot: "slot < length cs" "\<forall>c\<in>set (take slot cs). \<forall>p\<in>set (pairs (memory bt) c). fst p < key"
      "slot < length ks \<longrightarrow> \<not> max_key (memory bt) (cs ! slot) < key" "slot = length ks \<longrightarrow> drop (Suc slot) cs = []"
    and chain: "chain bt (X @ concat (map leaf_addrs cs) @ Y)"
    and child: "insert_ok C key v (X @ concat (map leaf_addrs (take slot cs))) (concat (map leaf_addrs (drop (Suc slot) cs)) @ Y)
      False h (cs ! slot) bt c' split bt'"
  shows "children_ok C key v X Y h cs bt
    (take slot ks @ (case split of None \<Rightarrow> [] | Some (nk, m) \<Rightarrow> [nk]) @ drop slot ks)
    (take slot cs @ c' # split_nodes split @ drop (Suc slot) cs) bt'"
proof -
  let ?L = "take slot cs" and ?R = "drop (Suc slot) cs" and ?ns = "c' # split_nodes split"
  let ?p = "pairs (memory bt)" and ?p' = "pairs (memory bt')"
  have ch: "\<forall>m\<in>set ?ns. shape C (memory bt') False h m" "concat (map ?p' ?ns) = ins_pair key v (?p (cs ! slot))"
      "\<forall>sk m. split = Some (sk, m) \<longrightarrow> sk = max_key (memory bt') c'"
      "\<forall>x. x \<notin> set (leaf_addrs (cs ! slot)) \<longrightarrow> x < fresh bt \<longrightarrow> same_slots (memory bt) (memory bt') x"
      "leaves (m_stats bt') + length (leaf_addrs (cs ! slot)) = leaves (m_stats bt) + length (concat (map leaf_addrs ?ns))"
      "innernodes (m_stats bt') + inner_count (cs ! slot) = innernodes (m_stats bt) + sum_list (map inner_count ?ns)"
      "itemcount (m_stats bt') = itemcount (m_stats bt)"
      "chain bt' ((X @ concat (map leaf_addrs ?L)) @ concat (map leaf_addrs ?ns) @ concat (map leaf_addrs ?R) @ Y)"
    using child unfolding insert_ok_def Let_def by simp_all
  have "distinct (X @ concat (map leaf_addrs cs) @ Y)" "\<forall>x\<in>set (concat (map leaf_addrs cs)). x < fresh bt"
    using chain by (auto simp: chain_def)
  then have "\<forall>c\<in>set ?L \<union> set ?R. \<forall>x\<in>set (leaf_addrs c). same_slots (memory bt) (memory bt') x"
    using ch(4) unfolding concat_map_take_drop [OF slot(1), of leaf_addrs] by fastforce
  then have same: "\<forall>c\<in>set ?L \<union> set ?R. ?p' c = ?p c \<and> shape C (memory bt') False h c = shape C (memory bt) False h c"
    using same_slots_chain same_slots_shape by metis
  have inLR: "c \<in> set cs" if "c \<in> set ?L \<union> set ?R" for c using that by (auto dest: in_set_takeD in_set_dropD)
  have pc: "?p (cs ! slot) \<noteq> []" using ok(2) slot(1) shape_pairs by (metis nth_mem)
  have pn: "?p' (last ?ns) \<noteq> []" using ch(1) shape_pairs by (metis last_in_set list.distinct(1))
  have "slots_ok (max_key (memory bt')) (take slot ks @ (case split of None \<Rightarrow> [] | Some (nk, m) \<Rightarrow> [nk]) @ drop slot ks)
      (?L @ c' # split_nodes split @ ?R)"
  proof (rule slots_ok_insert [OF ok(1) slot(1), of _ _ _ _ "case split of Some (nk, m) \<Rightarrow> m"])
    show "slot < length ks \<longrightarrow> max_key (memory bt') (last ?ns) = max_key (memory bt) (cs ! slot)"
    proof
      assume "slot < length ks"
      then have "last (ins_pair key v (?p (cs ! slot))) = last (?p (cs ! slot))" using last_ins_pair pc slot(3) by blast
      moreover have "last (concat (map ?p' ?ns)) = last (?p' (last ?ns))"
        by (rule last_concat_map [of ?ns ?p', OF _ pn]) simp
      ultimately show "max_key (memory bt') (last ?ns) = max_key (memory bt) (cs ! slot)" using ch(2) by simp
    qed
  qed (use same ch(3) in \<open>auto split: option.splits\<close>)
  moreover have "\<forall>c\<in>set (?L @ c' # split_nodes split @ ?R). shape C (memory bt') False h c"
    using ch(1) same ok(2) inLR by auto
  moreover have "concat (map ?p' (?L @ c' # split_nodes split @ ?R)) = ins_pair key v (concat (map ?p cs))"
  proof -
    have "concat (map ?p' (?L @ c' # split_nodes split @ ?R)) = concat (map ?p ?L) @ ins_pair key v (?p (cs ! slot)) @ concat (map ?p ?R)"
      using same ch(2) by (simp cong: map_cong)
    also have "\<dots> = ins_pair key v (concat (map ?p ?L) @ ?p (cs ! slot) @ concat (map ?p ?R))"
    proof (rule ins_pair_middle [symmetric])
      show "concat (map ?p ?R) = [] \<or> ?p (cs ! slot) \<noteq> [] \<and> \<not> max_key (memory bt) (cs ! slot) < key"
      proof (cases "slot < length ks")
        case False
        then have "slot = length ks" using slot(1) ok(1) by (simp add: slots_ok_def)
        then show ?thesis using slot(4) by simp
      qed (use slot(3) pc in simp)
    qed (use slot(2) in auto)
    finally show ?thesis unfolding concat_map_take_drop [OF slot(1), of ?p] .
  qed
  moreover have "chain bt' (X @ concat (map leaf_addrs (?L @ c' # split_nodes split @ ?R)) @ Y)" using ch(8) by simp
  moreover have "\<forall>x. x \<notin> set (concat (map leaf_addrs cs)) \<longrightarrow> x < fresh bt \<longrightarrow> same_slots (memory bt) (memory bt') x"
    using ch(4) slot(1) by auto
  moreover have "sum_list (map inner_count cs) = sum_list (map inner_count ?L) + inner_count (cs ! slot) + sum_list (map inner_count ?R)"
    by (subst id_take_nth_drop [OF slot(1)]) simp
  ultimately show ?thesis
    using ch(5-7) unfolding children_ok_def concat_map_take_drop [OF slot(1), of leaf_addrs] by simp
qed

text \<open>Both halves of a split inner node are well formed, and so is a node that had room.\<close>

lemma children_ok_room:
  assumes "children_ok C key v X Y h cs bt ks' cs' bt'" and "0 < length ks'" and "length ks' \<le> innerslotmax C"
    and "r \<or> mininnerslots C \<le> length ks'"
  shows "insert_ok C key v X Y r (Suc h) (Inner (Suc h) ks cs) bt (Inner (Suc h) ks' cs') None bt'"
  using assms unfolding children_ok_def insert_ok_def by (simp add: chain_pairs_concat)

lemma children_ok_split:
  assumes "children_ok C key v X Y h cs bt (lks @ sk # rks) (lcs @ rcs) bt'" and "length lcs = Suc (length lks)"
    and "mininnerslots C \<le> length lks" "mininnerslots C \<le> length rks" "length lks \<le> innerslotmax C" "length rks \<le> innerslotmax C"
    and "0 < mininnerslots C"
  shows "insert_ok C key v X Y r (Suc h) (Inner (Suc h) ks cs) bt (Inner (Suc h) lks lcs) (Some (sk, Inner (Suc h) rks rcs)) (allocate_inner bt')"
proof -
  have c: "slots_ok (max_key (memory bt')) (lks @ sk # rks) (lcs @ rcs)" "\<forall>c\<in>set (lcs @ rcs). shape C (memory bt') False h c"
    using assms(1) by (simp_all add: children_ok_def)
  note s = slots_ok_split [OF c(1) assms(2)]
  have "lcs \<noteq> []" using assms(2) by auto
  then have "pairs (memory bt') (last lcs) \<noteq> []" using c(2) shape_pairs by (metis last_in_set set_append UnI1)
  then have "max_key (memory bt') (Inner (Suc h) lks lcs) = max_key (memory bt') (last lcs)"
    using last_concat_map [of lcs "pairs (memory bt')"] \<open>lcs \<noteq> []\<close> by (simp add: chain_pairs_concat)
  then have "sk = max_key (memory bt') (Inner (Suc h) lks lcs)" using s(3) by simp
  moreover have "memory (allocate_inner bt') = memory bt'" by (simp add: allocate_inner_def)
  moreover have "chain (allocate_inner bt') (X @ concat (map leaf_addrs (lcs @ rcs)) @ Y)"
    using assms(1) by (auto simp: children_ok_def allocate_inner_def elim!: chain_cong)
  moreover have "lks \<noteq> []" "rks \<noteq> []" using assms(3,4,7) by auto
  ultimately show ?thesis
    using assms c s unfolding children_ok_def insert_ok_def by (simp add: chain_pairs_concat allocate_inner_def)
qed

context btree_class
begin

lemma insert_descend_result:
  assumes "shape C (memory bt) r h n" and "sorted (map fst (pairs (memory bt) n))" and "chain bt (X @ leaf_addrs n @ Y)"
  shows "\<exists>n' split it bt'. insert_descend C key v n bt = Some (n', split, it, True, bt') \<and>
    insert_ok C key v X Y r h n bt n' split bt'"
  using assms
proof (induction h arbitrary: r n X Y)
  case 0
  then obtain a where n: "n = Leaf a" by (cases n) auto
  obtain l where l: "memory bt a = Some l" "length (slotdata l) = length (slotkey l)" "length (slotkey l) \<le> leafslotmax C"
      "r \<or> minleafslots C \<le> length (slotkey l)"
    using 0(1) n by (auto simp: leaf_ok_def)
  have "sorted (slotkey l)" "chain bt (X @ a # Y)" using 0(2,3) n l(1,2) by (simp_all add: leaf_pairs_def)
  from insert_leaf_result [OF l this] obtain split it bt' where "insert_leaf C key v a bt = Some (split, it, True, bt')"
      "insert_ok C key v X Y r 0 (Leaf a) bt (Leaf a) (map_option (\<lambda>(k, b). (k, Leaf b)) split) bt'"
    by blast
  then show ?case using n by auto
next
  case (Suc h)
  then obtain level ks cs where n: "n = Inner level ks cs" by (cases n) auto
  have sh: "level = Suc h" "0 < length ks" "length ks \<le> innerslotmax C" "r \<or> mininnerslots C \<le> length ks"
      "slots_ok (max_key (memory bt)) ks cs" "\<forall>c\<in>set cs. shape C (memory bt) False h c"
    using Suc.prems(1) n by auto
  obtain slot where slot: "find_lower C ks key = Some slot" "slot < length cs"
      "\<forall>c\<in>set (take slot cs). \<forall>p\<in>set (pairs (memory bt) c). fst p < key"
      "slot < length ks \<longrightarrow> \<not> max_key (memory bt) (cs ! slot) < key" "slot = length ks \<longrightarrow> drop (Suc slot) cs = []"
    using inner_slot [OF Suc.prems(1,2) [unfolded n] searches_node(1) innerslots(2)] by blast
  let ?X = "X @ concat (map leaf_addrs (take slot cs))" and ?Y = "concat (map leaf_addrs (drop (Suc slot) cs)) @ Y"
  have chain: "chain bt (X @ concat (map leaf_addrs cs) @ Y)" using Suc.prems(3) n by simp
  have "shape C (memory bt) False h (cs ! slot)" using sh(6) slot(2) by simp
  moreover have "sorted (map fst (pairs (memory bt) (cs ! slot)))"
    using Suc.prems(2) n slot(2) by (intro sorted_concat_child [of "pairs (memory bt)" cs]) (simp_all add: chain_pairs_concat)
  moreover have "chain bt (?X @ leaf_addrs (cs ! slot) @ ?Y)"
    using chain unfolding concat_map_take_drop [OF slot(2), of leaf_addrs] by simp
  ultimately obtain c' split it bt' where IH: "insert_descend C key v (cs ! slot) bt = Some (c', split, it, True, bt')"
      "insert_ok C key v ?X ?Y False h (cs ! slot) bt c' split bt'"
    using Suc.IH by blast
  note step = children_step [OF sh(5,6) slot(2-5) chain IH(2)]
  have len: "length cs = Suc (length ks)" "slot \<le> length ks" using sh(5) slot(2) by (auto simp: slots_ok_def)
  have mini: "0 < mininnerslots C" using innerslots(1) by (simp add: mininnerslots_def)
  show ?case
  proof (cases split)
    case None
    then have "insert_ok C key v X Y r (Suc h) n bt (Inner (Suc h) ks (take slot cs @ c' # drop (Suc slot) cs)) None bt'"
      using children_ok_room [of C key v X Y h cs bt ks] step sh(2-4) unfolding n sh(1) by simp
    moreover have "cs[slot := c'] = take slot cs @ c' # drop (Suc slot) cs" using slot(2) by (rule upd_conv_take_nth_drop)
    ultimately show ?thesis using IH(1) slot(1,2) None n sh(1) by simp
  next
    case (Some nm)
    then obtain nk m where split: "split = Some (nk, m)" by (cases nm) auto
    have kids: "children_ok C key v X Y h cs bt (put_slot slot nk ks) (put_slot (slot + 1) m (cs[slot := c'])) bt'"
      using step split put_slot_children [OF slot(2)] by (simp add: put_slot_def)
    show ?thesis
    proof (cases "length ks = innerslotmax C")
      case False
      have "insert_child C slot nk m (ks, cs[slot := c']) = Some ((put_slot slot nk ks, put_slot (slot + 1) m (cs[slot := c'])), None)"
        using insert_child_room [of ks C slot] False sh(3) len(2) by simp
      moreover have "insert_ok C key v X Y r (Suc h) n bt (Inner (Suc h) (put_slot slot nk ks) (put_slot (slot + 1) m (cs[slot := c']))) None bt'"
        using children_ok_room [OF kids] False sh(3,4) unfolding n sh(1) by auto
      ultimately show ?thesis using IH(1) slot(1,2) split n sh(1) by simp
    next
      case True
      have "length (cs[slot := c']) = Suc (length ks)" "2 \<le> innerslotmax C" using len innerslots(1) by auto
      then obtain lks lcs sk rks rcs where full: "insert_child C slot nk m (ks, cs[slot := c']) = Some ((lks, lcs), Some (sk, (rks, rcs)))"
          "put_slot slot nk ks = lks @ sk # rks" "put_slot (slot + 1) m (cs[slot := c']) = lcs @ rcs" "length lcs = Suc (length lks)"
          "mininnerslots C \<le> length lks" "mininnerslots C \<le> length rks" "length lks \<le> innerslotmax C" "length rks \<le> innerslotmax C"
        using insert_child_full [OF True _ len(2), of "cs[slot := c']" nk m] by blast
      have "insert_ok C key v X Y r (Suc h) n bt (Inner (Suc h) lks lcs) (Some (sk, Inner (Suc h) rks rcs)) (allocate_inner bt')"
        unfolding n sh(1) by (rule children_ok_split [OF kids [unfolded full(2,3)] full(4-8) mini])
      then show ?thesis using IH(1) slot(1,2) split full(1) n sh(1) by simp
    qed
  qed
qed

end

subsection \<open>The root\<close>

text \<open>The root after an insertion: the old one, or a new one above the two halves.\<close>

lemma root_ok:
  assumes ok: "insert_ok C key v [] [] True h n bt n' split bt'" and sorted: "sorted (map fst (pairs (memory bt) n))"
    and stats: "leaves (m_stats bt) = length (leaf_addrs n)" "innernodes (m_stats bt) = inner_count n" and slots: "0 < innerslotmax C"
  defines "bt2 \<equiv> (case split of
      None \<Rightarrow> bt'\<lparr>m_root := Some n'\<rparr>
    | Some (newkey, newchild) \<Rightarrow> (allocate_inner bt')\<lparr>m_root := Some (Inner (node_level n' + 1) [newkey] [n', newchild])\<rparr>)"
  shows "\<exists>n2 h'. m_root bt2 = Some n2 \<and> tree_ok C bt2 h' n2 \<and> pairs (memory bt2) n2 = ins_pair key v (pairs (memory bt) n) \<and>
    itemcount (m_stats bt2) = itemcount (m_stats bt)"
proof (cases split)
  case None
  have "chain bt2 (leaf_addrs n')" using ok None
    by (auto simp: insert_ok_def bt2_def elim!: chain_cong)
  then show ?thesis
    using ok None stats sorted_ins_pair [OF sorted, of key v] by (auto simp: insert_ok_def bt2_def tree_ok_def)
next
  case (Some p)
  then obtain k m where split: "split = Some (k, m)" by (cases p) auto
  let ?n = "Inner (Suc h) [k] [n', m]"
  have o: "shape C (memory bt') False h n'" "shape C (memory bt') False h m" "k = max_key (memory bt') n'"
      "pairs (memory bt') n' @ pairs (memory bt') m = ins_pair key v (pairs (memory bt) n)" "chain bt' (leaf_addrs n' @ leaf_addrs m)"
    using ok split by (auto simp: insert_ok_def)
  have bt2: "bt2 = (allocate_inner bt')\<lparr>m_root := Some ?n\<rparr>" using split shape_level [OF o(1)] by (simp add: bt2_def)
  have "chain bt2 (leaf_addrs ?n)" using o(5) by (auto simp: bt2 allocate_inner_def elim!: chain_cong)
  moreover have "shape C (memory bt2) True (Suc h) ?n" using o(1-3) slots by (simp add: bt2 allocate_inner_def slots_ok_def)
  moreover have "pairs (memory bt2) ?n = ins_pair key v (pairs (memory bt) n)" using o(4) by (simp add: bt2 allocate_inner_def)
  ultimately have "tree_ok C bt2 (Suc h) ?n"
    using ok split stats sorted_ins_pair [OF sorted, of key v] by (auto simp: insert_ok_def tree_ok_def bt2 allocate_inner_def)
  moreover have "m_root bt2 = Some ?n" "itemcount (m_stats bt2) = itemcount (m_stats bt)"
    using ok split by (auto simp: bt2 insert_ok_def allocate_inner_def)
  ultimately show ?thesis using \<open>pairs (memory bt2) ?n = _\<close> by blast
qed

context btree_class
begin

lemma insert_start_result:
  assumes "btree_inv C bt kvs"
  shows "\<exists>it bt'. insert_start C key v bt = Some (it, True, bt') \<and> btree_inv C bt' (ins_pair key v kvs)"
proof -
  have fin: ?thesis if start: "insert_start C key v bt = do {
        (root, split, it, ins, bt) \<leftarrow> insert_descend C key v n bt0;
        let bt = (case split of None \<Rightarrow> bt\<lparr>m_root := Some root\<rparr>
          | Some (newkey, newchild) \<Rightarrow> (allocate_inner bt)\<lparr>m_root := Some (Inner (node_level root + 1) [newkey] [root, newchild])\<rparr>);
        Some (it, ins, if ins then bt\<lparr>m_stats := (m_stats bt)\<lparr>itemcount := itemcount (m_stats bt) + 1\<rparr>\<rparr> else bt) }"
      and desc: "\<exists>n' split it bt'. insert_descend C key v n bt0 = Some (n', split, it, True, bt') \<and> insert_ok C key v [] [] True h n bt0 n' split bt'"
      and st: "sorted (map fst (pairs (memory bt0) n))" "leaves (m_stats bt0) = length (leaf_addrs n)"
        "innernodes (m_stats bt0) = inner_count n" "itemcount (m_stats bt0) = length kvs" "pairs (memory bt0) n = kvs" for n bt0 h
  proof -
    obtain n' split it bt' where d: "insert_descend C key v n bt0 = Some (n', split, it, True, bt')"
        "insert_ok C key v [] [] True h n bt0 n' split bt'" using desc by blast
    have "0 < innerslotmax C" using innerslots(1) by simp
    note root = root_ok [OF d(2) st(1-3) this]
    define bt2 where "bt2 = (case split of
        None \<Rightarrow> bt'\<lparr>m_root := Some n'\<rparr>
      | Some (newkey, newchild) \<Rightarrow> (allocate_inner bt')\<lparr>m_root := Some (Inner (node_level n' + 1) [newkey] [n', newchild])\<rparr>)"
    obtain n2 h' where r: "m_root bt2 = Some n2" "tree_ok C bt2 h' n2" "pairs (memory bt2) n2 = ins_pair key v kvs"
        "itemcount (m_stats bt2) = length kvs"
      using root [folded bt2_def] st(4,5) by auto
    let ?bt3 = "bt2\<lparr>m_stats := (m_stats bt2)\<lparr>itemcount := itemcount (m_stats bt2) + 1\<rparr>\<rparr>"
    have "insert_start C key v bt = Some (it, True, ?bt3)" unfolding start d(1) by (simp add: bt2_def Let_def)
    moreover have "chain ?bt3 (leaf_addrs n2)" using r(2) by (auto simp: tree_ok_def elim!: chain_cong)
    then have "tree_ok C ?bt3 h' n2" using r(2) by (simp add: tree_ok_def)
    moreover have "length (ins_pair key v kvs) = Suc (length kvs)" by (metis ins_pair_mset size_add_mset size_mset)
    ultimately show ?thesis using r by (auto simp: btree_inv_def)
  qed
  show ?thesis
  proof (cases "m_root bt")
    case (Some n)
    then obtain h where t: "tree_ok C bt h n" "kvs = pairs (memory bt) n" "itemcount (m_stats bt) = length kvs"
      using assms by (auto simp: btree_inv_def)
    then have "\<exists>n' split it bt'. insert_descend C key v n bt = Some (n', split, it, True, bt') \<and> insert_ok C key v [] [] True h n bt n' split bt'"
      by (intro insert_descend_result) (simp_all add: tree_ok_def)
    then show ?thesis using t Some by (intro fin [of n bt h]) (simp_all add: insert_start_def tree_ok_def)
  next
    case None
    let ?a = "fresh bt" and ?bt1 = "snd (allocate_leaf bt)"
    let ?bt0 = "?bt1\<lparr>m_root := Some (Leaf ?a), m_headleaf := Some ?a, m_tailleaf := Some ?a\<rparr>"
    have empty: "kvs = []" "leaves (m_stats bt) = 0" "innernodes (m_stats bt) = 0" "itemcount (m_stats bt) = 0"
      using assms None by (auto simp: btree_inv_def)
    have mem: "memory ?bt0 ?a = Some new_leaf" by (simp add: allocate_leaf_def set_leaf_def)
    have "chain ?bt0 ([] @ ?a # [])" by (simp add: chain_def allocate_leaf_def set_leaf_def new_leaf_def opt_last_def)
    from insert_leaf_result [OF mem _ _ _ _ this, of True key v] obtain split it bt'
      where d: "insert_leaf C key v ?a ?bt0 = Some (split, it, True, bt')"
        "insert_ok C key v [] [] True 0 (Leaf ?a) ?bt0 (Leaf ?a) (map_option (\<lambda>(k, b). (k, Leaf b)) split) bt'"
      by (auto simp: new_leaf_def)
    have "insert_descend C key v (Leaf ?a) ?bt0 = Some (Leaf ?a, map_option (\<lambda>(k, b). (k, Leaf b)) split, it, True, bt')"
      using d(1) by simp
    with d(2) have "\<exists>n' split it bt'. insert_descend C key v (Leaf ?a) ?bt0 = Some (n', split, it, True, bt') \<and>
        insert_ok C key v [] [] True 0 (Leaf ?a) ?bt0 n' split bt'" by blast
    then show ?thesis using None empty mem
      by (intro fin [of "Leaf ?a" ?bt0 0])
        (simp_all add: insert_start_def allocate_leaf_def set_leaf_def leaf_pairs_def new_leaf_def)
  qed
qed

end

end
