(* ===== verification/Stx_Btree_Load.thy ===== *)
theory Stx_Btree_Load
  imports Stx_Btree_Inv
begin

text \<open>
  Bulk loading: the items are shared out evenly over the leaves, the leaves over the inner nodes of level 1, and so on
  up to a single root; every node but the root is at least half full.
\<close>

subsection \<open>Even shares\<close>

fun shares :: "nat \<Rightarrow> 'a list \<Rightarrow> 'a list list" where
  "shares 0 xs = []"
| "shares (Suc n) xs = take (length xs div Suc n) xs # shares n (drop (length xs div Suc n) xs)"

lemma length_shares [simp]: "length (shares n xs) = n"
  by (induction n arbitrary: xs) auto

lemma concat_shares: "0 < n \<Longrightarrow> concat (shares n xs) = xs"
proof (induction n arbitrary: xs)
  case (Suc n)
  then show ?case by (cases "n = 0") simp_all
qed simp

lemma share_step:
  fixes k lo hi r :: nat
  assumes "Suc k * lo \<le> r" and "r \<le> Suc k * hi"
  shows "lo \<le> r div Suc k" "r div Suc k \<le> hi" "k * lo \<le> r - r div Suc k" "r - r div Suc k \<le> k * hi"
proof -
  show lo: "lo \<le> r div Suc k" using assms(1) by (simp add: less_eq_div_iff_mult_less_eq mult.commute)
  have "r div Suc k \<le> Suc k * hi div Suc k" using assms(2) by (rule div_le_mono)
  also have "Suc k * hi div Suc k = hi" by (rule nonzero_mult_div_cancel_left) simp
  finally show hi: "r div Suc k \<le> hi" .
  have r: "r = Suc k * (r div Suc k) + r mod Suc k" "r mod Suc k \<le> k"
    using mult_div_mod_eq [of "Suc k" r] mod_less_divisor [of "Suc k" r] by simp_all
  then have rest: "r - r div Suc k = k * (r div Suc k) + r mod Suc k" by (simp add: algebra_simps)
  then show "k * lo \<le> r - r div Suc k" using mult_le_mono2 [OF lo, of k] by linarith
  show "r - r div Suc k \<le> k * hi"
  proof (cases "r div Suc k = hi")
    case True
    then have "r mod Suc k = 0" using assms(2) r(1) by simp
    then show ?thesis using rest True by simp
  next
    case False
    then have "Suc (r div Suc k) \<le> hi" using hi by simp
    then have "k * Suc (r div Suc k) \<le> k * hi" by (rule mult_le_mono2)
    then have "k + k * (r div Suc k) \<le> k * hi" by simp
    then show ?thesis using rest r(2) by linarith
  qed
qed

lemma shares_bounds:
  assumes "n * lo \<le> length xs" and "length xs \<le> n * hi"
  shows "\<forall>ys\<in>set (shares n xs). lo \<le> length ys \<and> length ys \<le> hi"
  using assms
proof (induction n arbitrary: xs)
  case (Suc n)
  note st = share_step [OF Suc.prems]
  have len: "length (take (length xs div Suc n) xs) = length xs div Suc n" by simp
  show ?case using Suc.IH [of "drop (length xs div Suc n) xs"] st by (auto simp: len)
qed simp

text \<open>Rounding the number of nodes up leaves every one of several nodes at least half full.\<close>

lemma ceil_div_bounds:
  assumes "0 < m"
  shows "n \<le> ceil_div n m * m" and "2 \<le> ceil_div n m \<Longrightarrow> (ceil_div n m - 1) * m + 1 \<le> n" and "ceil_div n m = 0 \<longleftrightarrow> n = 0"
proof -
  have d: "n + m - 1 = ceil_div n m * m + (n + m - 1) mod m" by (simp add: ceil_div_def)
  have r: "(n + m - 1) mod m < m" using assms by simp
  show "n \<le> ceil_div n m * m" using d r assms by linarith
  show "ceil_div n m = 0 \<longleftrightarrow> n = 0" using assms by (auto simp: ceil_div_def div_eq_0_iff)
  assume "2 \<le> ceil_div n m"
  then have "(ceil_div n m - 1) * m + m = ceil_div n m * m" by (simp add: algebra_simps)
  then show "(ceil_div n m - 1) * m + 1 \<le> n" using d assms by linarith
qed

lemma ceil_div_less:
  assumes "2 \<le> m" and "2 \<le> n"
  shows "ceil_div n m < n" "0 < ceil_div n m"
proof -
  show pos: "0 < ceil_div n m" using ceil_div_bounds(3) [of m n] assms by simp
  show "ceil_div n m < n"
  proof (cases "2 \<le> ceil_div n m")
    case True
    then have "(ceil_div n m - 1) * 2 + 1 \<le> n"
      using ceil_div_bounds(2) [of m n] assms(1) mult_le_mono2 [OF assms(1), of "ceil_div n m - 1"] by linarith
    then show ?thesis using True by linarith
  qed (use assms(2) pos in simp)
qed

lemma half_full:
  assumes "2 \<le> ceil_div n m" and "2 * lo \<le> m + 1" and "0 < m"
  shows "ceil_div n m * lo \<le> n"
proof -
  obtain q where q: "ceil_div n m = Suc (Suc q)" using assms(1) by (cases "ceil_div n m"; cases "ceil_div n m - 1") auto
  have "Suc q * m + 1 \<le> n" using ceil_div_bounds(2) [OF assms(3), of n] q by simp
  moreover have "Suc (Suc q) * lo \<le> Suc q * m + 1"
  proof (cases "2 * lo \<le> m")
    case True
    then have "2 * (Suc (Suc q) * lo) \<le> Suc (Suc q) * m" by (metis mult.left_commute mult_le_mono2)
    also have "\<dots> \<le> 2 * (Suc q * m)" by simp
    finally show ?thesis by simp
  next
    case False
    then have "2 * lo = m + 1" using assms(2) by simp
    then have "2 * (Suc (Suc q) * lo) = Suc (Suc q) * (m + 1)" by (metis mult.left_commute)
    also have "\<dots> \<le> 2 * (Suc q * m + 1)" using assms(3) by (cases m) simp_all
    finally show ?thesis by simp
  qed
  ultimately show ?thesis using q by simp
qed

lemma shares_map: "shares n (map f xs) = map (map f) (shares n xs)"
  by (induction n arbitrary: xs) (auto simp: take_map drop_map)

lemma concat_concat_map_rule: "concat (map (\<lambda>ys. concat (map f ys)) yss) = concat (map f (concat yss))"
  by (induction yss) simp_all

lemma sum_list_Suc_concat: "sum_list (map (\<lambda>ys. Suc (sum_list (map f ys))) yss) = length yss + sum_list (map f (concat yss))"
  by (induction yss) simp_all

subsection \<open>Leaves\<close>

definition leaf_even :: "'k leaf_memory \<Rightarrow> addr \<Rightarrow> bool" where
  "leaf_even mem a \<longleftrightarrow> (\<exists>l. mem a = Some l \<and> length (slotdata l) = length (slotkey l))"

lemma leaf_even_same: "same_slots mem mem' a \<Longrightarrow> leaf_even mem a \<Longrightarrow> leaf_even mem' a"
  by (cases "mem' a") (auto simp: leaf_even_def same_slots_def)

lemma leaf_even_ok:
  assumes "leaf_even mem a" and "0 < length (leaf_pairs mem a)" and "length (leaf_pairs mem a) \<le> leafslotmax C"
    and "r \<or> minleafslots C \<le> length (leaf_pairs mem a)"
  shows "leaf_ok C mem r a"
  using assms by (auto simp: leaf_even_def leaf_ok_def leaf_pairs_def)

text \<open>A leaf appended to the chain.\<close>

lemma append_leaf:
  assumes "chain bt ids" and "length (slotdata l) = length (slotkey l)" and "prevleaf l = m_tailleaf bt" and "nextleaf l = None"
    and alloc: "allocate_leaf bt = (fresh bt, bt1)"
  obtains bt2 where "(case m_tailleaf bt1 of
        None \<Rightarrow> Some (bt1\<lparr>m_headleaf := Some (fresh bt)\<rparr>)
      | Some t \<Rightarrow> map_option (\<lambda>l. set_leaf t (l\<lparr>nextleaf := Some (fresh bt)\<rparr>) bt1) (memory bt1 t)) = Some bt2"
    "m_tailleaf bt2 = m_tailleaf bt"
    "chain ((set_leaf (fresh bt) l bt2)\<lparr>m_tailleaf := Some (fresh bt)\<rparr>) (ids @ [fresh bt])"
    "\<forall>x\<in>set ids. same_slots (memory bt) (memory (set_leaf (fresh bt) l bt2)) x"
    "m_stats bt2 = (m_stats bt)\<lparr>leaves := Suc (leaves (m_stats bt))\<rparr>" "m_root bt2 = m_root bt"
proof -
  have bt1_def: "bt1 = snd (allocate_leaf bt)" using alloc by simp
  show ?thesis
  proof (cases ids rule: rev_cases)
    case Nil
    then have "m_tailleaf bt = None" using assms(1) by (simp add: chain_def)
    then show ?thesis using assms(3,4) Nil
      by (intro that [of "bt1\<lparr>m_headleaf := Some (fresh bt)\<rparr>"])
        (auto simp: bt1_def allocate_leaf_def set_leaf_def chain_def opt_last_def)
  next
    case (snoc A t)
    have d: "distinct (A @ [t])" "\<forall>x\<in>set (A @ [t]). x < fresh bt" "m_headleaf bt = opt_hd (A @ [t])" "m_tailleaf bt = Some t"
        "seg (memory bt) None A (Some t)"
      using assms(1) snoc by (auto simp: chain_def seg_append)
    obtain lt' where lt': "memory bt t = Some lt'" "prevleaf lt' = opt_last A" "nextleaf lt' = None"
      using assms(1) snoc by (auto simp: chain_def seg_append opt_last_def)
    let ?bt2 = "set_leaf t (lt'\<lparr>nextleaf := Some (fresh bt)\<rparr>) bt1"
    let ?bt3 = "(set_leaf (fresh bt) l ?bt2)\<lparr>m_tailleaf := Some (fresh bt)\<rparr>"
    have m: "memory bt1 t = Some lt'" "m_tailleaf bt1 = Some t" using lt'(1) d(2,4) by (auto simp: bt1_def allocate_leaf_def set_leaf_def)
    have mem3: "memory ?bt3 = (memory bt)(fresh bt := Some l, t := Some (lt'\<lparr>nextleaf := Some (fresh bt)\<rparr>))"
      using d(2) by (auto simp: bt1_def allocate_leaf_def set_leaf_def fun_eq_iff)
    have "\<forall>x\<in>set A. memory ?bt3 x = memory bt x" using d(1,2) unfolding mem3 by auto
    then have "seg (memory ?bt3) None A (Some t)" using d(5) seg_cong by blast
    then have "seg (memory ?bt3) None (A @ [t, fresh bt]) None"
      using lt' d(2,4) assms(3,4) unfolding mem3 by (auto simp: seg_append opt_last_def)
    then have "chain ?bt3 (A @ [t, fresh bt])"
      using d by (auto simp: chain_def bt1_def allocate_leaf_def set_leaf_def opt_hd_def opt_last_def hd_append)
    moreover have "\<forall>x\<in>set ids. same_slots (memory bt) (memory (set_leaf (fresh bt) l ?bt2)) x"
      using d(1,2) lt' snoc by (auto simp: same_slots_def bt1_def allocate_leaf_def set_leaf_def)
    ultimately show ?thesis using m snoc d(4)
      by (intro that [of ?bt2]) (auto simp: bt1_def allocate_leaf_def set_leaf_def)
  qed
qed

lemma load_leaves_result:
  assumes "chain bt ids" and "\<forall>ys\<in>set (shares n items). length ys \<le> leafslotmax C"
  shows "\<exists>bt' new. load_leaves C n items bt = Some bt' \<and> chain bt' (ids @ new) \<and> length new = n \<and>
    map (leaf_pairs (memory bt')) new = shares n items \<and> (\<forall>a\<in>set new. leaf_even (memory bt') a) \<and>
    (\<forall>x\<in>set ids. same_slots (memory bt) (memory bt') x) \<and>
    m_stats bt' = (m_stats bt)\<lparr>leaves := leaves (m_stats bt) + n\<rparr> \<and> m_root bt' = m_root bt"
  using assms
proof (induction n arbitrary: items bt ids)
  case 0
  then show ?case by (intro exI [of _ bt] exI [of _ "[]"]) (simp add: same_slots_def)
next
  case (Suc n)
  let ?use = "length items div Suc n" and ?a = "fresh bt"
  let ?l = "\<lparr>slotkey = map fst (take ?use items), slotdata = map snd (take ?use items), prevleaf = m_tailleaf bt, nextleaf = None\<rparr>"
  obtain bt1 where alloc: "allocate_leaf bt = (?a, bt1)" by (simp add: allocate_leaf_def)
  obtain bt2 where bt2: "(case m_tailleaf bt1 of
        None \<Rightarrow> Some (bt1\<lparr>m_headleaf := Some ?a\<rparr>)
      | Some t \<Rightarrow> map_option (\<lambda>l. set_leaf t (l\<lparr>nextleaf := Some ?a\<rparr>) bt1) (memory bt1 t)) = Some bt2"
      "m_tailleaf bt2 = m_tailleaf bt" "chain ((set_leaf ?a ?l bt2)\<lparr>m_tailleaf := Some ?a\<rparr>) (ids @ [?a])"
      "\<forall>x\<in>set ids. same_slots (memory bt) (memory (set_leaf ?a ?l bt2)) x"
      "m_stats bt2 = (m_stats bt)\<lparr>leaves := Suc (leaves (m_stats bt))\<rparr>" "m_root bt2 = m_root bt"
    by (rule append_leaf [OF Suc.prems(1) _ _ _ alloc, of ?l]) simp_all
  let ?bt3 = "(set_leaf ?a ?l bt2)\<lparr>m_tailleaf := Some ?a\<rparr>"
  have step: "load_leaves C (Suc n) items bt = load_leaves C n (drop ?use items) ?bt3"
    using Suc.prems(2) by (simp add: alloc Let_def bt2(1,2))
  obtain bt' new where IH: "load_leaves C n (drop ?use items) ?bt3 = Some bt'" "chain bt' ((ids @ [?a]) @ new)" "length new = n"
      "map (leaf_pairs (memory bt')) new = shares n (drop ?use items)" "\<forall>a\<in>set new. leaf_even (memory bt') a"
      "\<forall>x\<in>set (ids @ [?a]). same_slots (memory ?bt3) (memory bt') x"
      "m_stats bt' = (m_stats ?bt3)\<lparr>leaves := leaves (m_stats ?bt3) + n\<rparr>" "m_root bt' = m_root ?bt3"
    using Suc.IH [OF bt2(3), of "drop ?use items"] Suc.prems(2) by auto
  have a: "same_slots (memory ?bt3) (memory bt') ?a" "memory ?bt3 ?a = Some ?l" using IH(6) by (simp_all add: set_leaf_def)
  then have "leaf_pairs (memory bt') ?a = take ?use items" "leaf_even (memory bt') ?a"
    using same_slots_leaf(1) [OF a(1)] leaf_even_same [OF a(1)] by (auto simp: leaf_pairs_def leaf_even_def zip_map_fst_snd)
  moreover have "\<forall>x\<in>set ids. same_slots (memory bt) (memory bt') x"
    using IH(6) bt2(4) by (auto simp: same_slots_def)
  ultimately show ?case
    using step IH bt2(5,6) by (intro exI [of _ bt'] exI [of _ "?a # new"]) (simp add: set_leaf_def)
qed

subsection \<open>Inner nodes\<close>

lemma allocate_inner_funpow:
  "(allocate_inner ^^ n) bt = bt\<lparr>m_stats := (m_stats bt)\<lparr>innernodes := innernodes (m_stats bt) + n\<rparr>\<rparr>"
  by (induction n arbitrary: bt) (simp_all add: allocate_inner_def funpow_swap1)

text \<open>An entry of \<^verbatim>\<open>nextlevel\<close>: a node with its largest key.\<close>

definition entries_ok :: "'k::linorder btree_params \<Rightarrow> 'k leaf_memory \<Rightarrow> bool \<Rightarrow> nat \<Rightarrow> ('k node \<times> 'k) list \<Rightarrow> bool" where
  "entries_ok C mem r h xs \<longleftrightarrow> (\<forall>x\<in>set xs. shape C mem r h (fst x) \<and> snd x = max_key mem (fst x))"

lemma make_inner_ok:
  assumes "entries_ok C mem False h xs" and "2 \<le> length xs" and "length xs \<le> innerslotmax C + 1"
    and "r \<or> mininnerslots C + 1 \<le> length xs"
  shows "shape C mem r (Suc h) (fst (make_inner (Suc h) xs))" "snd (make_inner (Suc h) xs) = max_key mem (fst (make_inner (Suc h) xs))"
    "leaf_addrs (fst (make_inner level xs)) = concat (map (leaf_addrs \<circ> fst) xs)"
    "inner_count (fst (make_inner level xs)) = Suc (sum_list (map (inner_count \<circ> fst) xs))"
proof -
  have e: "shape C mem False h (fst x)" "snd x = max_key mem (fst x)" if "x \<in> set xs" for x
    using assms(1) that by (auto simp: entries_ok_def)
  have "snd (xs ! i) = max_key mem (fst (xs ! i))" if "i < length xs" for i using e(2) that by simp
  then have "slots_ok (max_key mem) (map snd (butlast xs)) (map fst xs)"
    using assms(2) by (auto simp: slots_ok_def nth_butlast)
  then show "shape C mem r (Suc h) (fst (make_inner (Suc h) xs))"
    using assms(2-4) e(1) by (auto simp: make_inner_def)
  have ne: "xs \<noteq> []" using assms(2) by auto
  then have "last (concat (map (pairs mem) (map fst xs))) = last (pairs mem (fst (last xs)))"
    using last_concat_map [of "map fst xs" "pairs mem"] shape_pairs [OF e(1) [of "last xs"]] by (simp add: last_map)
  then show "snd (make_inner (Suc h) xs) = max_key mem (fst (make_inner (Suc h) xs))"
    using e(2) [of "last xs"] ne unfolding make_inner_def fst_conv snd_conv leaf_addrs.simps chain_pairs_concat by simp
qed (simp_all add: make_inner_def o_def)

lemma load_level_result:
  assumes "\<forall>ys\<in>set (shares n xs). ys \<noteq> [] \<and> length ys \<le> innerslotmax C + 1"
  shows "load_level C level n xs bt = Some (map (make_inner level) (shares n xs), (allocate_inner ^^ n) bt)"
  using assms
proof (induction n arbitrary: xs bt)
  case (Suc n)
  have "take (length xs div Suc n) xs \<noteq> []" "length (take (length xs div Suc n) xs) \<le> innerslotmax C + 1" using Suc.prems by auto
  moreover have "length (take (length xs div Suc n) xs) = length xs div Suc n" by simp
  ultimately have "length xs div Suc n \<noteq> 0" "length xs div Suc n \<le> innerslotmax C + 1" by (metis take_0, linarith)
  then show ?case using Suc by (simp add: funpow_swap1 Let_def)
qed simp

lemma next_leaves_result:
  assumes "chain bt (A @ B @ D)" and "leaves_ok bt (A @ B @ D)"
  shows "next_leaves bt (length B) (opt_hd (B @ D)) = Some (map (\<lambda>a. (Leaf a, max_key (memory bt) (Leaf a))) B, opt_hd D)"
  using assms
proof (induction B arbitrary: A)
  case (Cons b B)
  obtain l where l: "memory bt b = Some l" "nextleaf l = opt_hd (B @ D)" using chainD [OF Cons.prems(1) [simplified]] by blast
  obtain l' where l': "memory bt b = Some l'" "length (slotdata l') = length (slotkey l')" "slotkey l' \<noteq> []"
    using leaves_okD [OF Cons.prems(2), of b] by auto
  have "max_key (memory bt) (Leaf b) = last (slotkey l)"
    using l' l(1) leaf_max_key [of "memory bt" b l'] by simp
  moreover have "next_leaves bt (length B) (opt_hd (B @ D)) = Some (map (\<lambda>a. (Leaf a, max_key (memory bt) (Leaf a))) B, opt_hd D)"
    using Cons.IH [of "A @ [b]"] Cons.prems by simp
  ultimately show ?case using l l' by simp
qed simp

lemma load_parents_result:
  assumes "chain bt (A @ B)" and "leaves_ok bt (A @ B)" and "\<forall>ys\<in>set (shares n B). ys \<noteq> [] \<and> length ys \<le> innerslotmax C + 1"
  shows "load_parents C n (length B) (opt_hd B) bt =
    Some (map (make_inner 1) (shares n (map (\<lambda>a. (Leaf a, max_key (memory bt) (Leaf a))) B)), (allocate_inner ^^ n) bt)"
  using assms
proof (induction n arbitrary: A B bt)
  case (Suc n)
  let ?u = "length B div Suc n" and ?bt = "allocate_inner bt"
  have "take ?u B \<noteq> []" "length (take ?u B) \<le> innerslotmax C + 1" using Suc.prems by auto
  moreover have split: "take ?u B @ drop ?u B = B" "length (take ?u B) = ?u" by simp_all
  ultimately have u: "?u \<noteq> 0" "?u \<le> innerslotmax C + 1" by (metis take_0, linarith)
  have "next_leaves bt ?u (opt_hd B) = Some (map (\<lambda>a. (Leaf a, max_key (memory bt) (Leaf a))) (take ?u B), opt_hd (drop ?u B))"
    using next_leaves_result [of bt A "take ?u B" "drop ?u B"] Suc.prems(1,2) split by simp
  moreover have "load_parents C n (length (drop ?u B)) (opt_hd (drop ?u B)) ?bt =
      Some (map (make_inner 1) (shares n (map (\<lambda>a. (Leaf a, max_key (memory ?bt) (Leaf a))) (drop ?u B))), (allocate_inner ^^ n) ?bt)"
  proof (rule Suc.IH [of ?bt "A @ take ?u B"])
    show "chain ?bt ((A @ take ?u B) @ drop ?u B)" using Suc.prems(1) by (auto simp: allocate_inner_def elim!: chain_cong)
    show "leaves_ok ?bt ((A @ take ?u B) @ drop ?u B)" using Suc.prems(2) by (simp add: leaves_ok_def allocate_inner_def)
  qed (use Suc.prems(3) in simp)
  moreover have "memory ?bt = memory bt" by (simp add: allocate_inner_def)
  ultimately show ?case using u by (simp add: funpow_swap1 take_map drop_map Let_def)
qed simp

text \<open>The levels above level \<open>h\<close>, up to a single root.\<close>

lemma load_inner_result:
  assumes "8 \<le> innerslotmax C" and "xs \<noteq> []" and "entries_ok C (memory bt) (length xs = 1) h xs"
  shows "\<exists>root k h'. load_inner C (Suc h) xs bt = Some (root, (allocate_inner ^^ k) bt) \<and> shape C (memory bt) True h' root \<and>
    leaf_addrs root = concat (map (leaf_addrs \<circ> fst) xs) \<and> inner_count root = sum_list (map (inner_count \<circ> fst) xs) + k"
  using assms(2,3)
proof (induction "length xs" arbitrary: xs h bt rule: less_induct)
  case less
  show ?case
  proof (cases "length xs = 1")
    case True
    then obtain x where "xs = [x]" by (cases xs) auto
    then show ?thesis using less.prems(2)
      by (intro exI [of _ "fst x"] exI [of _ 0] exI [of _ h]) (simp add: load_inner.simps entries_ok_def)
  next
    case False
    let ?m = "innerslotmax C + 1"
    define n where "n = ceil_div (length xs) ?m"
    have len: "2 \<le> length xs" using False less.prems(1) by (cases xs; cases "tl xs") auto
    have n: "n < length xs" "0 < n" using ceil_div_less [OF _ len, of ?m] assms(1) by (simp_all add: n_def)
    have e: "entries_ok C (memory bt) False h xs" using less.prems(2) False by simp
    let ?lo = "if n = 1 then 2 else mininnerslots C + 1"
    have "n * ?lo \<le> length xs"
    proof (cases "n = 1")
      case False
      then have "ceil_div (length xs) ?m * (mininnerslots C + 1) \<le> length xs"
        using n(2) by (intro half_full) (auto simp: n_def mininnerslots_def)
      then show ?thesis using False by (simp add: n_def)
    qed (use len in simp)
    then have b: "\<forall>ys\<in>set (shares n xs). ?lo \<le> length ys \<and> length ys \<le> ?m"
      using ceil_div_bounds(1) [of ?m "length xs"] by (intro shares_bounds) (simp_all add: n_def)
    have mini: "2 \<le> ?lo" using div_le_mono [OF assms(1), of 2] by (simp add: mininnerslots_def)
    have b': "\<forall>ys\<in>set (shares n xs). ys \<noteq> [] \<and> length ys \<le> innerslotmax C + 1" using b mini by force
    have sub: "set ys \<subseteq> set xs" if "ys \<in> set (shares n xs)" for ys
      using that concat_shares [OF n(2), of xs] by (metis UN_upper set_concat)
    let ?ys = "map (make_inner (Suc h)) (shares n xs)" and ?bt = "(allocate_inner ^^ n) bt"
    have mk: "shape C (memory bt) (n = 1) (Suc h) (fst (make_inner (Suc h) ys))"
        "snd (make_inner (Suc h) ys) = max_key (memory bt) (fst (make_inner (Suc h) ys))"
        "leaf_addrs (fst (make_inner (Suc h) ys)) = concat (map (leaf_addrs \<circ> fst) ys)"
        "inner_count (fst (make_inner (Suc h) ys)) = Suc (sum_list (map (inner_count \<circ> fst) ys))"
      if ys: "ys \<in> set (shares n xs)" for ys
    proof -
      have "entries_ok C (memory bt) False h ys" "2 \<le> length ys" "length ys \<le> innerslotmax C + 1"
          "n = 1 \<or> mininnerslots C + 1 \<le> length ys"
        using e sub [OF ys] b mini ys by (auto simp: entries_ok_def split: if_splits)
      then show "shape C (memory bt) (n = 1) (Suc h) (fst (make_inner (Suc h) ys))"
        "snd (make_inner (Suc h) ys) = max_key (memory bt) (fst (make_inner (Suc h) ys))"
        "leaf_addrs (fst (make_inner (Suc h) ys)) = concat (map (leaf_addrs \<circ> fst) ys)"
        "inner_count (fst (make_inner (Suc h) ys)) = Suc (sum_list (map (inner_count \<circ> fst) ys))"
        by (rule make_inner_ok)+
    qed
    have mem: "memory ?bt = memory bt" by (simp add: allocate_inner_funpow)
    have ys: "entries_ok C (memory ?bt) (length ?ys = 1) (Suc h) ?ys" "length ?ys < length xs"
      using mk(1,2) n(1) by (auto simp: entries_ok_def mem)
    moreover have "?ys \<noteq> []" using n(2) length_shares [of n xs] by fastforce
    ultimately obtain root k h' where IH: "load_inner C (Suc (Suc h)) ?ys ?bt = Some (root, (allocate_inner ^^ k) ?bt)"
        "shape C (memory ?bt) True h' root" "leaf_addrs root = concat (map (leaf_addrs \<circ> fst) ?ys)"
        "inner_count root = sum_list (map (inner_count \<circ> fst) ?ys) + k"
      using less.hyps [OF ys(2)] by blast
    have "load_inner C (Suc h) xs bt = Some (root, (allocate_inner ^^ (k + n)) bt)"
      using IH(1) False load_level_result [OF b', of "Suc h" bt] by (subst load_inner.simps) (simp add: n_def funpow_add)
    moreover have "leaf_addrs root = concat (map (leaf_addrs \<circ> fst) xs)"
    proof -
      have "map (leaf_addrs \<circ> fst) ?ys = map (\<lambda>ys. concat (map (leaf_addrs \<circ> fst) ys)) (shares n xs)" using mk(3) by simp
      then have "leaf_addrs root = concat (map (leaf_addrs \<circ> fst) (concat (shares n xs)))"
        using IH(3) by (simp only: concat_concat_map_rule)
      then show ?thesis using n(2) by (simp add: concat_shares)
    qed
    moreover have "inner_count root = sum_list (map (inner_count \<circ> fst) xs) + (k + n)"
    proof -
      have "map (inner_count \<circ> fst) ?ys = map (\<lambda>ys. Suc (sum_list (map (inner_count \<circ> fst) ys))) (shares n xs)" using mk(4) by simp
      then have "sum_list (map (inner_count \<circ> fst) ?ys) = n + sum_list (map (inner_count \<circ> fst) (concat (shares n xs)))"
        by (simp only: sum_list_Suc_concat) simp
      then show ?thesis using IH(4) n(2) by (simp add: concat_shares)
    qed
    ultimately show ?thesis using IH(2) mem by metis
  qed
qed

subsection \<open>The tree\<close>

context btree_class
begin

lemma tree_load_result:
  assumes "sorted (map fst items)"
  shows "\<exists>bt. bulk_load C items btree_empty = Some bt \<and> btree_inv C bt items"
proof -
  let ?bt0 = "(btree_empty :: 'k btree)\<lparr>m_stats := (m_stats (btree_empty :: 'k btree))\<lparr>itemcount := length items\<rparr>\<rparr>"
  define n where "n = ceil_div (length items) (leafslotmax C)"
  have L: "0 < leafslotmax C" "0 < minleafslots C" using leafslots(1) div_le_mono [OF leafslots(1), of 2] by (auto simp: minleafslots_def)
  let ?lo = "if n = 1 then length items else minleafslots C"
  have "n * ?lo \<le> length items"
  proof (cases "2 \<le> n")
    case True
    then have "ceil_div (length items) (leafslotmax C) * minleafslots C \<le> length items"
      using L by (intro half_full) (auto simp: n_def minleafslots_def)
    then show ?thesis using True by (simp add: n_def)
  qed (cases n; simp)
  then have b: "\<forall>ys\<in>set (shares n items). ?lo \<le> length ys \<and> length ys \<le> leafslotmax C"
    using ceil_div_bounds(1) [OF L(1), of "length items"] by (intro shares_bounds) (simp_all add: n_def)
  have "chain ?bt0 []" by (simp add: btree_empty_def chain_def)
  from load_leaves_result [OF this, of n items C] b obtain bt ids where ll: "load_leaves C n items ?bt0 = Some bt" "chain bt ids"
      "length ids = n" "map (leaf_pairs (memory bt)) ids = shares n items" "\<forall>a\<in>set ids. leaf_even (memory bt) a"
      "m_stats bt = (m_stats ?bt0)\<lparr>leaves := leaves (m_stats ?bt0) + n\<rparr>" "m_root bt = m_root ?bt0" by auto
  have n0: "n = 0 \<longleftrightarrow> items = []" using ceil_div_bounds(3) [OF L(1), of "length items"] by (simp add: n_def)
  have all: "chain_pairs (memory bt) ids = items"
    using ll(4) concat_shares [of n items] n0 by (cases "n = 0") (simp_all add: chain_pairs_def)
  have leaf: "leaf_ok C (memory bt) (n = 1) a" if "a \<in> set ids" for a
  proof -
    have "leaf_pairs (memory bt) a \<in> set (shares n items)" using that ll(4) by (metis imageI list.set_map)
    then have "?lo \<le> length (leaf_pairs (memory bt) a)" "length (leaf_pairs (memory bt) a) \<le> leafslotmax C" using b by auto
    moreover have "0 < ?lo" using L(2) n0 ll(3) that by auto
    ultimately show ?thesis using that ll(5) by (intro leaf_even_ok) (auto split: if_splits)
  qed
  have bl: "bulk_load C items btree_empty = (if m_headleaf bt = m_tailleaf bt then Some (bt\<lparr>m_root := map_option Leaf (m_headleaf bt)\<rparr>)
     else do {
       (xs, bt) \<leftarrow> load_parents C (ceil_div n (innerslotmax C + 1)) n (m_headleaf bt) bt;
       (root, bt) \<leftarrow> load_inner C 2 xs bt;
       Some (bt\<lparr>m_root := Some root\<rparr>)
     })"
    unfolding bulk_load_def n_def [symmetric] Let_def ll(1) by simp
  have stats: "itemcount (m_stats bt) = length items" "leaves (m_stats bt) = n" "innernodes (m_stats bt) = 0"
    using ll(6) by (simp_all add: btree_empty_def)
  show ?thesis
  proof (cases "n \<le> 1")
    case True
    let ?bt = "bt\<lparr>m_root := map_option Leaf (m_headleaf bt)\<rparr>"
    have "m_headleaf bt = m_tailleaf bt" using ll(2,3) True by (cases ids) (auto simp: chain_def opt_last_def)
    moreover have "btree_inv C ?bt items"
    proof (cases ids)
      case Nil
      then show ?thesis using ll(2,3) all stats n0 by (simp add: btree_inv_def) (auto simp: chain_def)
    next
      case (Cons a ids')
      then have "ids = [a]" "n = 1" using ll(3) True by auto
      then show ?thesis using ll(2) leaf [of a] all stats assms
        by (auto simp: btree_inv_def tree_ok_def chain_def intro!: exI [of _ 0])
    qed
    ultimately show ?thesis using bl by auto
  next
    case False
    let ?m = "innerslotmax C + 1" and ?xs = "map (\<lambda>a. (Leaf a :: 'k node, max_key (memory bt) (Leaf a))) ids"
    define p where "p = ceil_div n ?m"
    obtain a b ids' where ids: "ids = a # ids' @ [b]" using False ll(3) by (cases ids rule: list.exhaust; cases "tl ids" rule: rev_cases) auto
    then have ne: "m_headleaf bt \<noteq> m_tailleaf bt" using ll(2) by (auto simp: chain_def opt_last_def)
    have head: "m_headleaf bt = opt_hd ids" using ll(2) by (simp add: chain_def)
    have lok: "leaves_ok bt ids" using leaf by (auto simp: leaves_ok_def leaf_ok_def)
    have "load_inner C 1 ?xs bt = Option.bind (load_level C 1 p ?xs bt) (\<lambda>(ys, bt). load_inner C 2 ys bt)"
      using ll(3) False by (subst load_inner.simps) (simp add: p_def numeral_2_eq_2)
    moreover have sh: "\<forall>ys\<in>set (shares p ids). ys \<noteq> [] \<and> length ys \<le> innerslotmax C + 1"
    proof -
      have "p * 1 \<le> length ids" using ceil_div_less [of ?m n] False innerslots(1) ll(3) by (simp add: p_def)
      then show ?thesis using shares_bounds [of p 1 ids ?m] ceil_div_bounds(1) [of ?m n] ll(3) by (fastforce simp: p_def)
    qed
    moreover have sh': "\<forall>ys\<in>set (shares p ?xs). ys \<noteq> [] \<and> length ys \<le> innerslotmax C + 1"
      using sh by (auto simp: shares_map)
    ultimately have one: "load_inner C 1 ?xs bt = (case load_parents C p n (m_headleaf bt) bt of None \<Rightarrow> None | Some (xs, bt) \<Rightarrow> load_inner C 2 xs bt)"
      using load_parents_result [of bt "[]" ids p C] load_level_result [OF sh', of 1 bt] ll(2,3) lok head by simp
    have ent: "entries_ok C (memory bt) (length ?xs = 1) 0 ?xs" using leaf False ll(3) by (auto simp: entries_ok_def)
    have xs: "?xs \<noteq> []" using ids by simp
    obtain root k h' where r: "load_inner C (Suc 0) ?xs bt = Some (root, (allocate_inner ^^ k) bt)" "shape C (memory bt) True h' root"
        "leaf_addrs root = concat (map (leaf_addrs \<circ> fst) ?xs)" "inner_count root = sum_list (map (inner_count \<circ> fst) ?xs) + k"
      using load_inner_result [OF innerslots(1) xs ent] by blast
    have r': "leaf_addrs root = ids" "inner_count root = k" using r(3,4) by (simp_all add: o_def)
    let ?bt = "((allocate_inner ^^ k) bt)\<lparr>m_root := Some root\<rparr>"
    have "bulk_load C items btree_empty = Some ?bt"
      using bl ne one r(1) by (auto simp: p_def split: option.splits prod.splits bind_splits)
    moreover have "chain ?bt ids" using ll(2) by (auto simp: allocate_inner_funpow elim!: chain_cong)
    then have "btree_inv C ?bt items"
      using r(2) r' all stats ll(3) assms by (auto simp: btree_inv_def tree_ok_def allocate_inner_funpow)
    ultimately show ?thesis by blast
  qed
qed

end

end
