(* ===== verification/Stx_Btree_Check.thy ===== *)
theory Stx_Btree_Check
  imports Stx_Btree_Inv
begin

text \<open>
  The self-verification of the B+-tree, \<^verbatim>\<open>verify\<close>: on a well-formed tree all its assertions hold, unless the tree
  has more items than an \<^verbatim>\<open>unsigned int\<close> counts.
\<close>

lemma sorted_sorted_slots: "sorted ks \<Longrightarrow> sorted_slots ks"
  by (auto simp: sorted_slots_def list_all_iff intro!: sorted_nth_mono)

definition count_node :: "'k leaf_memory \<Rightarrow> 'k node \<Rightarrow> tree_stats \<Rightarrow> tree_stats" where
  "count_node mem n vst = \<lparr>itemcount = itemcount vst + length (pairs mem n), leaves = leaves vst + length (leaf_addrs n),
     innernodes = innernodes vst + inner_count n\<rparr>"

lemma count_nodes:
  "fold (count_node mem) cs vst = \<lparr>itemcount = itemcount vst + length (concat (map (pairs mem) cs)),
     leaves = leaves vst + length (concat (map leaf_addrs cs)), innernodes = innernodes vst + sum_list (map inner_count cs)\<rparr>"
  by (induction cs arbitrary: vst) (simp_all add: count_node_def)

lemma linked_chain:
  assumes "chain bt (A @ a # b # B)"
  shows "linked bt (Leaf a) (Leaf b)"
proof -
  have "chain bt ((A @ [a]) @ b # B)" using assms by simp
  from chainD [OF this] obtain l where "memory bt b = Some l" "prevleaf l = Some a" by auto
  moreover from chainD [OF assms] obtain l' where "memory bt a = Some l'" "nextleaf l' = Some b" by auto
  ultimately show ?thesis by (simp add: linked_def)
qed

lemma shape_links:
  assumes "shape C mem False h c" and "shape C mem False h d" and "chain bt (X @ leaf_addrs c @ leaf_addrs d @ Y)"
  shows "links_ok bt (Suc h) c d"
proof -
  consider "h = 0" | "h = 1" | "2 \<le> h" by linarith
  then show ?thesis
  proof cases
    case 1
    then obtain a b where "c = Leaf a" "d = Leaf b" using assms(1,2) by (cases c; cases d) auto
    then show ?thesis using 1 assms(3) linked_chain [of bt X a b Y] by (simp add: links_ok_def)
  next
    case 2
    then obtain k1 k2 cs ds where cd: "c = Inner 1 k1 cs" "d = Inner 1 k2 ds" using assms(1,2) by (cases c; cases d) auto
    have "cs \<noteq> []" "ds \<noteq> []" using assms(1,2) cd 2 by (auto simp: slots_ok_def)
    then obtain cs' m n ds' where cs: "cs = cs' @ [m]" "ds = n # ds'" by (metis list.exhaust rev_exhaust)
    then obtain a b where "m = Leaf a" "n = Leaf b" using assms(1,2) cd 2 by (cases m; cases n) auto
    then have "linked bt m n"
      using assms(3) cd cs linked_chain [of bt "X @ concat (map leaf_addrs cs')" a b "concat (map leaf_addrs ds') @ Y"] by simp
    then show ?thesis using 2 cd cs by (simp add: links_ok_def)
  qed (simp add: links_ok_def)
qed

lemma verify_children_ok:
  assumes "slots_ok (max_key mem) ks (cs1 @ cs2)" and "cs2 \<noteq> []"
    and "\<forall>c\<in>set cs2. \<forall>vst. verify_node C bt False c vst = Some (fst (hd (pairs mem c)), max_key mem c, count_node mem c vst)"
    and "\<forall>c\<in>set (cs1 @ cs2). shape C mem False h c" and "sorted (map fst (concat (map (pairs mem) (cs1 @ cs2))))"
    and "chain bt (X @ concat (map leaf_addrs (cs1 @ cs2)) @ Y)"
  shows "verify_children C bt (Suc h) ks (length cs1) cs2 vst =
    Some (fst (hd (concat (map (pairs mem) cs2))), fst (last (concat (map (pairs mem) cs2))), fold (count_node mem) cs2 vst)"
  using assms
proof (induction cs2 arbitrary: cs1 vst)
  case (Cons c cs2)
  have c1: "shape C mem False h c" using Cons.prems(4) by simp
  note c = c1 conjunct2 [OF shape_pairs [OF c1]]
  have v: "verify_node C bt False c vst = Some (fst (hd (pairs mem c)), max_key mem c, count_node mem c vst)"
    using Cons.prems(3) by simp
  have left: "ks ! (length cs1 - 1) \<le> fst (hd (pairs mem c))" if cs1: "0 < length cs1"
  proof -
    obtain cs' b where b: "cs1 = cs' @ [b]" using cs1 by (metis length_greater_0_conv rev_exhaust)
    have "pairs mem b \<noteq> []" using Cons.prems(4) shape_pairs b by force
    then have "max_key mem b \<le> fst (hd (pairs mem c))" using Cons.prems(5) b c(2) by (auto simp: sorted_append)
    moreover have "ks ! length cs' = max_key mem b" using Cons.prems(1) b unfolding slots_ok_def
      by (metis add_less_cancel_left append.assoc append_Cons length_append length_append_singleton length_Cons less_Suc_eq_le nth_append_length add_Suc_right add_lessD1 le_add1 linorder_not_less not_less_eq)
    ultimately show ?thesis using b by simp
  qed
  show ?case
  proof (cases cs2)
    case Nil
    then show ?thesis using v left shape_level [OF c(1)] by auto
  next
    case (Cons d ds)
    have k: "ks ! length cs1 = max_key mem c" using Cons.prems(1) Cons unfolding slots_ok_def by (auto dest: spec [of _ "length cs1"])
    have "links_ok bt (Suc h) c d"
      using Cons.prems(4,6) Cons by (intro shape_links [of C mem h c d bt "X @ concat (map leaf_addrs cs1)" "concat (map leaf_addrs ds) @ Y"]) simp_all
    moreover have "verify_children C bt (Suc h) ks (length (cs1 @ [c])) cs2 (count_node mem c vst) =
        Some (fst (hd (concat (map (pairs mem) cs2))), fst (last (concat (map (pairs mem) cs2))), fold (count_node mem) cs2 (count_node mem c vst))"
      using Cons.prems Cons by (intro Cons.IH) simp_all
    moreover have "concat (map (pairs mem) cs2) \<noteq> []" using Cons.prems(4) Cons shape_pairs by force
    ultimately show ?thesis using v left k shape_level [OF c(1)] c(2) Cons by auto
  qed
qed simp

lemma verify_node_ok:
  assumes "shape C (memory bt) r h n" and "sorted (map fst (pairs (memory bt) n))" and "chain bt (X @ leaf_addrs n @ Y)"
  shows "verify_node C bt r n vst = Some (fst (hd (pairs (memory bt) n)), max_key (memory bt) n, count_node (memory bt) n vst)"
  using assms
proof (induction h arbitrary: r n X Y vst)
  case 0
  then obtain a l where l: "n = Leaf a" "memory bt a = Some l" "length (slotdata l) = length (slotkey l)" "slotkey l \<noteq> []"
      "r \<or> minleafslots C \<le> length (slotkey l)"
    by (cases n) (auto simp: leaf_ok_def)
  have lp: "leaf_pairs (memory bt) a = zip (slotkey l) (slotdata l)" using l by (simp add: leaf_pairs_def)
  have "slotdata l \<noteq> []" using l by auto
  then have "fst (hd (leaf_pairs (memory bt) a)) = hd (slotkey l)" "fst (last (leaf_pairs (memory bt) a)) = last (slotkey l)"
    using l lp by (simp_all add: hd_zip last_zip)
  moreover have "sorted_slots (slotkey l)" using 0(2) l lp by (intro sorted_sorted_slots) simp
  ultimately show ?case using l lp by (auto simp: count_node_def)
next
  case (Suc h)
  then obtain level ks cs where n: "n = Inner level ks cs" by (cases n) auto
  have sh: "level = Suc h" "0 < length ks" "r \<or> mininnerslots C \<le> length ks" "slots_ok (max_key (memory bt)) ks cs"
      "\<forall>c\<in>set cs. shape C (memory bt) False h c"
    using Suc.prems(1) n by auto
  have srt: "sorted (map fst (concat (map (pairs (memory bt)) cs)))" using Suc.prems(2) n by (simp add: chain_pairs_concat)
  have kids: "verify_node C bt False c vst = Some (fst (hd (pairs (memory bt) c)), max_key (memory bt) c, count_node (memory bt) c vst)"
    if c: "c \<in> set cs" for c vst
  proof -
    obtain cs1 cs2 where "cs = cs1 @ c # cs2" using split_list [OF c] by blast
    then show ?thesis
      using Suc.IH [of False c "X @ concat (map leaf_addrs cs1)" "concat (map leaf_addrs cs2) @ Y"] Suc.prems(3) n sh(5) sorted_concat_child [OF srt c]
      by simp
  qed
  have "sorted ks" using slots_sorted [OF sh(4) srt] sh(5) shape_pairs by blast
  then have "sorted_slots ks" by (rule sorted_sorted_slots)
  moreover have "cs \<noteq> []" "length cs = length ks + 1" using sh(4) by (auto simp: slots_ok_def)
  moreover have "verify_children C bt (Suc h) ks 0 cs vst' =
      Some (fst (hd (concat (map (pairs (memory bt)) cs))), fst (last (concat (map (pairs (memory bt)) cs))), fold (count_node (memory bt)) cs vst')" for vst'
    using verify_children_ok [of "memory bt" ks "[]" cs C bt h X Y vst'] calculation(2) sh(4,5) srt kids Suc.prems(3) n by simp
  ultimately show ?case using sh(1-3) n by (simp add: count_nodes count_node_def chain_pairs_concat) auto
qed

lemma leaflinks_loop_ok:
  assumes "chain bt (A @ B)" and "leaves_ok bt (A @ B)" and "sorted (map fst (chain_pairs (memory bt) (A @ B)))"
  shows "leaflinks_loop bt (opt_hd B) tc = Some (tc + of_nat (length (chain_pairs (memory bt) B)))"
  using assms
proof (induction B arbitrary: A tc)
  case Nil
  then show ?case by (simp add: leaflinks_loop.simps)
next
  case (Cons b B)
  obtain l where l: "memory bt b = Some l" "length (slotdata l) = length (slotkey l)" "slotkey l \<noteq> []"
      "leaf_pairs (memory bt) b = zip (slotkey l) (slotdata l)"
    by (rule leaves_okD [OF Cons.prems(2), of b]) auto
  have next': "nextleaf l = opt_hd B" using chainD [OF Cons.prems(1)] l(1) by auto
  have "sorted_slots (slotkey l)" using Cons.prems(3) l by (intro sorted_sorted_slots) (simp add: sorted_append)
  moreover have "case nextleaf l of None \<Rightarrow> m_tailleaf bt = Some b
      | Some c \<Rightarrow> (case memory bt c of None \<Rightarrow> False
          | Some next \<Rightarrow> slotkey next \<noteq> [] \<and> last (slotkey l) \<le> hd (slotkey next) \<and> prevleaf next = Some b)"
  proof (cases B)
    case Nil
    then show ?thesis using next' Cons.prems(1) by (simp add: chain_def)
  next
    case B: (Cons c B')
    obtain l' where l': "memory bt c = Some l'" "length (slotdata l') = length (slotkey l')" "slotkey l' \<noteq> []"
        "leaf_pairs (memory bt) c = zip (slotkey l') (slotdata l')"
      by (rule leaves_okD [OF Cons.prems(2), of c]) (auto simp: B)
    have "chain bt ((A @ [b]) @ c # B')" using Cons.prems(1) B by simp
    from chainD [OF this] have "prevleaf l' = Some b" using l'(1) by auto
    moreover have "last (slotkey l) \<in> fst ` set (leaf_pairs (memory bt) b)" "hd (slotkey l') \<in> fst ` set (leaf_pairs (memory bt) c)"
      using l l' by (auto simp flip: set_map)
    moreover have "\<forall>x\<in>fst ` set (leaf_pairs (memory bt) b). \<forall>y\<in>fst ` set (leaf_pairs (memory bt) c). x \<le> y"
      using Cons.prems(3) B by (auto simp: sorted_append)
    ultimately have "last (slotkey l) \<le> hd (slotkey l')" by blast
    then show ?thesis using next' B l' \<open>prevleaf l' = Some b\<close> by simp
  qed
  ultimately have "leaflinks_loop bt (opt_hd (b # B)) tc = leaflinks_loop bt (opt_hd B) (tc + of_nat (length (slotkey l)))"
    using l next' by (subst leaflinks_loop.simps) simp
  also have "\<dots> = Some (tc + of_nat (length (slotkey l)) + of_nat (length (chain_pairs (memory bt) B)))"
    using Cons.IH [of "A @ [b]"] Cons.prems by simp
  finally show ?case using l by (simp add: algebra_simps)
qed

lemma btree_verify_iff:
  assumes "btree_inv C bt kvs" and "kvs \<noteq> []"
  shows "btree_verify C bt \<longleftrightarrow> length kvs < 2 ^ 32"
proof -
  note inv = btree_inv_chain [OF assms(1)]
  obtain n h where n: "m_root bt = Some n" "tree_ok C bt h n" "kvs = pairs (memory bt) n" "itemcount (m_stats bt) = length kvs"
    using assms by (cases "m_root bt") (auto simp: btree_inv_def)
  have "verify_node C bt True n \<lparr>itemcount = 0, leaves = 0, innernodes = 0\<rparr> =
      Some (fst (hd kvs), fst (last kvs), \<lparr>itemcount = length kvs, leaves = leaves (m_stats bt), innernodes = innernodes (m_stats bt)\<rparr>)"
    using verify_node_ok [of C bt True h n "[]" "[]"] n(2,3) by (simp add: tree_ok_def count_node_def)
  moreover have "leaf_addrs n \<noteq> []" using n(2) unfolding tree_ok_def by (blast dest: shape_pairs)
  then obtain a ids where ids: "leaf_addrs n = a # ids" by (cases "leaf_addrs n") auto
  have ch: "chain bt ([] @ a # ids)" using n(2) ids by (simp add: tree_ok_def)
  then have "m_headleaf bt = Some a" by (simp add: chain_def)
  moreover obtain l where "memory bt a = Some l" "prevleaf l = None" using chainD [OF ch] by auto
  moreover have "leaflinks_loop bt (Some a) 0 = Some (of_nat (length kvs))"
    using leaflinks_loop_ok [of bt "[]" "a # ids" 0] inv n(1,3) ids by (simp add: bt_leaves_def)
  moreover have "unat (of_nat (length kvs) :: u32) = length kvs \<longleftrightarrow> length kvs < 2 ^ 32"
    by (simp add: unat_of_nat take_bit_eq_mod mod_eq_self_iff_div_eq_0 div_eq_0_iff)
  ultimately show ?thesis using n(1,4) by (simp add: btree_verify_def verify_leaflinks_def)
qed

end
