(* ===== verification/Stx_Btree_Bench.thy ===== *)
theory Stx_Btree_Bench
  imports Stx_Btree_Insert Stx_Btree_Load Stx_Btree_Check Benchmark_Verify Linear_Search Binary_Search
begin

text \<open>
  The wrapper \<^verbatim>\<open>STXBTree\<close> of \<^verbatim>\<open>src/competitors/stx_btree.h\<close> around the B+-tree, its contract as an index of the
  benchmark, and the properties of the tree.
\<close>

subsection \<open>The wrapper\<close>

text \<open>The traits of the wrapper: slots per node from the node size, stored as \<^verbatim>\<open>unsigned short\<close>.\<close>

definition STXBTree_params :: "nat \<Rightarrow> nat \<Rightarrow> 'k search \<Rightarrow> 'k search \<Rightarrow> 'k btree_params" where
  "STXBTree_params key_size max_node_logsize lower upper =
     \<lparr>leafslotmax = max 8 (2 ^ max_node_logsize div (key_size + 8)) mod 2 ^ 16,
      innerslotmax = max 8 (2 ^ max_node_logsize div (key_size + 8)) mod 2 ^ 16,
      allow_duplicates = True, bt_lower = lower, bt_upper = upper\<rparr>"

definition STXBTree_Build :: "'k btree_params \<Rightarrow> 'k KeyValue list \<Rightarrow> 'k btree option" where
  "STXBTree_Build C data = bulk_load C (map (\<lambda>iter. (kv_key iter, kv_value iter)) data) btree_empty"

definition STXBTree_EqualityLookup :: "'k btree_params \<Rightarrow> 'k btree \<Rightarrow> 'k \<Rightarrow> u64 option" where
  "STXBTree_EqualityLookup C bt lookup_key = do {
     it \<leftarrow> btree_find C bt lookup_key;
     e \<leftarrow> btree_end bt;
     if it = e then Some NOT_FOUND else iter_data bt it
   }"

partial_function (option) STXBTree_range_loop :: "'k::linorder btree \<Rightarrow> 'k \<Rightarrow> iterator \<Rightarrow> u64 \<Rightarrow> u64 option" where
  "STXBTree_range_loop bt upper_key it result =
     Option.bind (btree_end bt) (\<lambda>e.
       if it = e then Some result
       else Option.bind (iter_key bt it) (\<lambda>k.
         if k \<le> upper_key then
           Option.bind (iter_data bt it) (\<lambda>v.
             Option.bind (iter_inc bt it) (\<lambda>it. STXBTree_range_loop bt upper_key it (result + v)))
         else Some result))"

declare STXBTree_range_loop.simps [code]

definition STXBTree_RangeQuery :: "'k::linorder btree_params \<Rightarrow> 'k btree \<Rightarrow> 'k \<Rightarrow> 'k \<Rightarrow> u64 option" where
  "STXBTree_RangeQuery C bt lower_key upper_key = do {
     it \<leftarrow> btree_lower_bound C bt lower_key;
     STXBTree_range_loop bt upper_key it 0
   }"

definition STXBTree_Insert :: "'k btree_params \<Rightarrow> 'k KeyValue \<Rightarrow> 'k btree \<Rightarrow> 'k btree option" where
  "STXBTree_Insert C data bt = map_option (snd \<circ> snd) (insert_start C (kv_key data) (kv_value data) bt)"

definition STXBTree :: "'k::linorder btree_params \<Rightarrow> ('k, 'k btree) index_ops" where
  "STXBTree C =
     \<lparr>ix_Build = STXBTree_Build C,
      ix_EqualityLookup = (\<lambda>bt lookup_key thread_id. STXBTree_EqualityLookup C bt lookup_key),
      ix_RangeQuery = (\<lambda>bt lower_key upper_key thread_id. STXBTree_RangeQuery C bt lower_key upper_key),
      ix_Insert = (\<lambda>data thread_id bt. STXBTree_Insert C data bt)\<rparr>"

lemma STXBTree_params_class:
  assumes "search_class lower upper" and "0 < key_size" and "n \<le> 19"
  shows "btree_class (STXBTree_params key_size n lower upper)"
proof -
  let ?s = "max 8 (2 ^ n div (key_size + 8)) :: nat"
  have "(2::nat) ^ n \<le> 2 ^ 19" using assms(3) by (rule power_increasing) simp
  then have "2 ^ n div (key_size + 8) \<le> 2 ^ 19 div (key_size + 8)" by (rule div_le_mono)
  also have "\<dots> \<le> 2 ^ 19 div 9" using assms(2) by (intro div_le_mono2) simp_all
  finally have "?s < 2 ^ 16" by simp
  then have "?s mod 2 ^ 16 = ?s" by simp
  then show ?thesis
    using assms(1) \<open>?s < 2 ^ 16\<close>
    by (simp add: btree_class_def btree_class_axioms_def STXBTree_params_def)
qed

subsection \<open>Iteration\<close>

text \<open>The pairs that a loop from an iterator to \<^verbatim>\<open>end()\<close> visits.\<close>

partial_function (option) walk :: "'k btree \<Rightarrow> iterator \<Rightarrow> ('k \<times> u64) list option" where
  "walk bt it =
     Option.bind (btree_end bt) (\<lambda>e.
       if it = e then Some []
       else Option.bind (iter_key bt it) (\<lambda>k.
         Option.bind (iter_data bt it) (\<lambda>v.
           Option.bind (iter_inc bt it) (\<lambda>it.
             Option.bind (walk bt it) (\<lambda>ps. Some ((k, v) # ps))))))"

lemma iter_end_cases:
  assumes "chain bt ids" and "leaves_ok bt ids" and "iter_at bt ids it suf"
  obtains e where "btree_end bt = Some e" "it = e \<longleftrightarrow> suf = []"
  using iter_at_end [OF assms] by (metis option.inject)

lemma walk_result:
  assumes "chain bt ids" and "leaves_ok bt ids" and "iter_at bt ids it suf"
  shows "walk bt it = Some suf"
  using assms(3)
proof (induction suf arbitrary: it)
  case Nil
  then show ?case by (rule iter_end_cases [OF assms(1,2)]) (simp add: walk.simps)
next
  case (Cons p suf)
  note st = iter_at_step [OF assms(1,2) Cons.prems]
  obtain e where "btree_end bt = Some e" "it \<noteq> e" by (rule iter_end_cases [OF assms(1,2) Cons.prems]) auto
  moreover obtain it' where "iter_inc bt it = Some it'" "iter_at bt ids it' suf" using st(3) by blast
  ultimately show ?case using st(1,2) Cons.IH by (subst walk.simps) simp
qed

lemma range_loop_result:
  assumes "chain bt ids" and "leaves_ok bt ids" and "iter_at bt ids it suf"
  shows "STXBTree_range_loop bt hi it result = Some (result + sum_list (map snd (takeWhile (\<lambda>p. fst p \<le> hi) suf)))"
  using assms(3)
proof (induction suf arbitrary: it result)
  case Nil
  then show ?case by (rule iter_end_cases [OF assms(1,2)]) (simp add: STXBTree_range_loop.simps)
next
  case (Cons p suf)
  note st = iter_at_step [OF assms(1,2) Cons.prems]
  obtain e where "btree_end bt = Some e" "it \<noteq> e" by (rule iter_end_cases [OF assms(1,2) Cons.prems]) auto
  moreover obtain it' where "iter_inc bt it = Some it'" "iter_at bt ids it' suf" using st(3) by blast
  ultimately show ?case using st(1,2) Cons.IH by (subst STXBTree_range_loop.simps) (simp add: algebra_simps)
qed

lemma count_loop_result:
  assumes "chain bt ids" and "leaves_ok bt ids" and "iter_at bt ids it suf" and "ids \<noteq> []"
  shows "count_loop bt key it num = Some (num + length (takeWhile (\<lambda>p. fst p = key) suf))"
  using assms(3)
proof (induction suf arbitrary: it num)
  case Nil
  then obtain a where "fst it = Some a" "snd it = length (leaf_pairs (memory bt) a)" "a \<in> set ids"
    using assms(4) chain_pairs_Nil [OF assms(2)] unfolding iter_at_def by fastforce
  moreover obtain l where "memory bt a = Some l" "leaf_pairs (memory bt) a = zip (slotkey l) (slotdata l)" "length (slotdata l) = length (slotkey l)"
    using leaves_okD [OF assms(2) \<open>a \<in> set ids\<close>] by blast
  ultimately show ?case by (subst count_loop.simps) simp
next
  case (Cons p suf)
  note st = iter_at_step [OF assms(1,2) Cons.prems]
  obtain a l where l: "fst it = Some a" "memory bt a = Some l" "snd it < length (slotkey l)" "slotkey l ! snd it = fst p"
    using st(1) by (auto simp: iter_key_def iter_leaf_def split: bind_splits if_splits)
  obtain it' where it': "iter_inc bt it = Some it'" "iter_at bt ids it' suf" using st(3) by blast
  show ?case
  proof (cases "fst p = key")
    case True
    show ?thesis
    proof (cases "snd it + 1 < length (slotkey l) \<or> nextleaf l \<noteq> None")
      case more: True
      then have "it' = (if snd it + 1 \<ge> length (slotkey l) then (nextleaf l, 0) else (fst it, snd it + 1))"
        using it'(1) l by (auto simp: iter_inc_def iter_leaf_def split: if_splits)
      then have "count_loop bt key it num = count_loop bt key it' (num + 1)"
        using l True by (subst count_loop.simps) simp
      then show ?thesis using Cons.IH [OF it'(2)] True by simp
    next
      case False
      then have it'': "it' = (fst it, length (slotkey l))" using it'(1) l by (auto simp: iter_inc_def iter_leaf_def split: if_splits)
      have "suf = []"
      proof (rule ccontr)
        assume "suf \<noteq> []"
        then obtain q qs where "suf = q # qs" by (cases suf) auto
        then have "iter_key bt it' = Some (fst q)" using iter_at_step(1) [OF assms(1,2)] it'(2) by blast
        then show False using it'' l by (auto simp: iter_key_def iter_leaf_def split: if_splits)
      qed
      moreover have "count_loop bt key it num = count_loop bt key (None, 0) (num + 1)"
        using l True False by (subst count_loop.simps) simp
      ultimately show ?thesis using True by (simp add: count_loop.simps)
    qed
  next
    case False
    then show ?thesis using l by (subst count_loop.simps) simp
  qed
qed

lemma iter_dec_inc:
  assumes "chain bt ids" and "leaves_ok bt ids" and "iter_at bt ids it (p # suf)" and "iter_inc bt it = Some it'"
  shows "iter_dec bt it' = Some it"
proof -
  obtain A a B where it: "ids = A @ a # B" "fst it = Some a" "snd it < length (leaf_pairs (memory bt) a)"
    using assms(3) unfolding iter_at_def by fastforce
  obtain l where l: "memory bt a = Some l" "leaf_pairs (memory bt) a = zip (slotkey l) (slotdata l)" "length (slotdata l) = length (slotkey l)"
    using leaves_okD [OF assms(2), of a] it(1) by (metis in_set_conv_decomp)
  have next': "nextleaf l = opt_hd B" using assms(1) it(1) l(1) by (metis chainD option.inject)
  have s: "snd it < length (slotkey l)" using it(3) l by simp
  show ?thesis
  proof (cases "snd it + 1 < length (slotkey l) \<or> B = []")
    case True
    then have "it' = (Some a, snd it + 1)"
      using assms(4) it(2) l(1) next' s by (auto simp: iter_inc_def iter_leaf_def)
    then show ?thesis using it(2) l(1) by (cases it) (simp add: iter_dec_def iter_leaf_def)
  next
    case False
    then obtain b B' where B: "B = b # B'" by (cases B) auto
    then have it': "it' = (Some b, 0)" using assms(4) it(2) l(1) next' False by (simp add: iter_inc_def iter_leaf_def)
    have "chain bt ((A @ [a]) @ b # B')" using assms(1) it(1) B by simp
    from chainD [OF this] obtain lb where "memory bt b = Some lb" "prevleaf lb = Some a" by auto
    then show ?thesis using it' it(2) l(1) s False by (cases it) (auto simp: iter_dec_def iter_leaf_def)
  qed
qed

subsection \<open>The contract\<close>

lemma sorted_between:
  assumes "sorted (map fst kvs)"
  shows "takeWhile (\<lambda>p. fst p \<le> hi) (dropWhile (\<lambda>p. fst p < lo) kvs) = filter (\<lambda>p. lo \<le> fst p \<and> fst p \<le> hi) kvs"
  using assms
proof (induction kvs)
  case (Cons p kvs)
  have "takeWhile (\<lambda>p. fst p \<le> hi) kvs = filter (\<lambda>p. lo \<le> fst p \<and> fst p \<le> hi) kvs" if "lo \<le> fst p"
  proof -
    have "takeWhile (\<lambda>p. fst p \<le> hi) kvs = filter (\<lambda>p. fst p \<le> hi) kvs"
      using Cons.prems by (induction kvs) (auto simp: not_le intro!: filter_False [symmetric] intro: less_le_trans)
    also have "\<dots> = filter (\<lambda>p. lo \<le> fst p \<and> fst p \<le> hi) kvs"
      using Cons.prems that by (intro filter_cong) auto
    finally show ?thesis .
  qed
  moreover have "filter (\<lambda>p. lo \<le> fst p \<and> fst p \<le> hi) kvs = []" if "\<not> fst p \<le> hi"
    using Cons.prems that by (auto simp: filter_empty_conv)
  ultimately show ?case using Cons by (auto simp: not_less)
qed simp

lemma sorted_equal:
  "sorted (map fst kvs) \<Longrightarrow> takeWhile (\<lambda>p. fst p = key) (dropWhile (\<lambda>p. fst p < key) kvs) = filter (\<lambda>p. fst p = key) kvs"
proof -
  assume srt: "sorted (map fst kvs)"
  have "takeWhile (\<lambda>p. fst p = key) (dropWhile (\<lambda>p. fst p < key) kvs) = takeWhile (\<lambda>p. fst p \<le> key) (dropWhile (\<lambda>p. fst p < key) kvs)"
    using srt by (induction kvs) (auto simp: not_less intro!: takeWhile_cong)
  also have "\<dots> = filter (\<lambda>p. key \<le> fst p \<and> fst p \<le> key) kvs" by (rule sorted_between [OF srt])
  also have "\<dots> = filter (\<lambda>p. fst p = key) kvs" by (rule filter_cong) auto
  finally show ?thesis .
qed

lemma pair_sum_filter: "pair_sum kvs lo hi = sum_list (map snd (filter (\<lambda>p. lo \<le> fst p \<and> fst p \<le> hi) kvs))"
  by (simp add: pair_sum_def case_prod_unfold)

lemma pair_sum_perm:
  assumes "mset kvs = mset kvs'"
  shows "pair_sum kvs lo hi = pair_sum kvs' lo hi"
proof -
  let ?f = "\<lambda>kvs. map snd (filter (\<lambda>p. lo \<le> fst p \<and> fst p \<le> hi) kvs)"
  have "mset (?f kvs) = mset (?f kvs')" using assms by simp
  then have "sum_mset (mset (?f kvs)) = sum_mset (mset (?f kvs'))" by (rule arg_cong)
  then show ?thesis unfolding pair_sum_filter sum_mset_sum_list .
qed

definition stx_represents :: "'k::linorder btree_params \<Rightarrow> 'k btree \<Rightarrow> ('k \<times> u64) list \<Rightarrow> bool" where
  "stx_represents C bt kvs \<longleftrightarrow> (\<exists>ks. btree_inv C bt ks \<and> mset ks = mset kvs)"

context btree_class
begin

lemma equality_lookup_result:
  assumes "btree_inv C bt kvs"
  shows "\<exists>r. STXBTree_EqualityLookup C bt key = Some r \<and> (if key \<in> fst ` set kvs then (key, r) \<in> set kvs else r = OVERFLOW)"
proof -
  note inv = btree_inv_chain [OF assms]
  let ?suf = "if key \<in> fst ` set kvs then dropWhile (\<lambda>p. fst p < key) kvs else []"
  obtain it where it: "btree_find C bt key = Some it" "iter_at bt (bt_leaves bt) it ?suf" using find_position(2) [OF assms] by blast
  obtain e where e: "btree_end bt = Some e" "it = e \<longleftrightarrow> ?suf = []" by (rule iter_end_cases [OF inv(1,2) it(2)])
  show ?thesis
  proof (cases "key \<in> fst ` set kvs")
    case True
    then obtain p ps where p: "dropWhile (\<lambda>p. fst p < key) kvs = p # ps" "fst p = key"
      using sorted_hd_dropWhile [OF inv(4), of key] by (cases "dropWhile (\<lambda>p. fst p < key) kvs") auto
    then have "p \<in> set kvs" by (metis list.set_intros(1) set_dropWhileD)
    moreover have "iter_data bt it = Some (snd p)" using iter_at_step(2) [OF inv(1,2)] it(2) True p by simp
    ultimately show ?thesis using True it(1) e p by (auto simp: STXBTree_EqualityLookup_def)
  qed (use it(1) e in \<open>simp add: STXBTree_EqualityLookup_def NOT_FOUND_def OVERFLOW_def\<close>)
qed

lemma range_query_result:
  assumes "btree_inv C bt kvs"
  shows "STXBTree_RangeQuery C bt lo hi = Some (pair_sum kvs lo hi)"
proof -
  note inv = btree_inv_chain [OF assms]
  obtain it where it: "btree_lower_bound C bt lo = Some it" "iter_at bt (bt_leaves bt) it (dropWhile (\<lambda>p. fst p < lo) kvs)"
    using bound_position(1) [OF assms] by blast
  then show ?thesis
    using range_loop_result [OF inv(1,2) it(2)] sorted_between [OF inv(4), of hi lo]
    by (simp add: STXBTree_RangeQuery_def pair_sum_filter)
qed

lemma contract: "index_contract (STXBTree C) (stx_represents C) (\<lambda>kvs. sorted (map fst kvs)) (\<lambda>_. True)"
proof
  fix data :: "'k KeyValue list" assume "sorted (map fst (kv_pairs data))"
  from tree_load_result [OF this]
  show "\<exists>i. ix_Build (STXBTree C) data = Some i \<and> stx_represents C i (kv_pairs data)"
    unfolding stx_represents_def by (simp add: STXBTree_def STXBTree_Build_def kv_pairs_def [symmetric]) blast
next
  fix i kvs key t assume "stx_represents C i kvs"
  then obtain ks where ks: "btree_inv C i ks" "mset ks = mset kvs" by (auto simp: stx_represents_def)
  then have "set ks = set kvs" by (metis set_mset_mset)
  then show "\<exists>r. ix_EqualityLookup (STXBTree C) i key t = Some r \<and> (if key \<in> fst ` set kvs then (key, r) \<in> set kvs else r = OVERFLOW)"
    using equality_lookup_result [OF ks(1), of key] by (simp only: STXBTree_def index_ops.simps)
next
  fix i kvs lo hi t assume "stx_represents C i kvs"
  then obtain ks where ks: "btree_inv C i ks" "mset ks = mset kvs" by (auto simp: stx_represents_def)
  then show "ix_RangeQuery (STXBTree C) i lo hi t = Some (pair_sum kvs lo hi)"
    using range_query_result [OF ks(1)] pair_sum_perm [OF ks(2)] by (simp add: STXBTree_def)
next
  fix i kvs k v t assume "stx_represents C i kvs"
  then obtain ks where ks: "btree_inv C i ks" "mset ks = mset kvs" by (auto simp: stx_represents_def)
  obtain it bt' where "insert_start C k v i = Some (it, True, bt')" "btree_inv C bt' (ins_pair k v ks)"
    using insert_start_result [OF ks(1)] by blast
  moreover have "mset (ins_pair k v ks) = mset (kvs @ [(k, v)])" using ks(2) by (simp add: ins_pair_mset)
  ultimately show "\<exists>i'. ix_Insert (STXBTree C) \<lparr>kv_key = k, kv_value = v\<rparr> t i = Some i' \<and> stx_represents C i' (kvs @ [(k, v)])"
    unfolding stx_represents_def by (simp add: STXBTree_def STXBTree_Insert_def) blast
qed

text \<open>A tree that is built and then grows by insertions.\<close>

lemma built_inv:
  assumes "sorted (map kv_key data)"
  shows "\<exists>bt. Option.bind (STXBTree_Build C data) (\<lambda>bt. foldl (\<lambda>bt kv. Option.bind bt (STXBTree_Insert C kv)) (Some bt) xs) = Some bt \<and>
    btree_inv C bt (foldl (\<lambda>kvs kv. ins_pair (kv_key kv) (kv_value kv) kvs) (kv_pairs data) xs)"
proof -
  obtain bt0 where bt0: "STXBTree_Build C data = Some bt0" "btree_inv C bt0 (kv_pairs data)"
    using tree_load_result [of "kv_pairs data"] assms by (auto simp: STXBTree_Build_def kv_pairs_def o_def)
  have "\<exists>bt. foldl (\<lambda>bt kv. Option.bind bt (STXBTree_Insert C kv)) (Some bt0) xs = Some bt \<and>
      btree_inv C bt (foldl (\<lambda>kvs kv. ins_pair (kv_key kv) (kv_value kv) kvs) kvs xs)" if "btree_inv C bt0 kvs" for bt0 kvs
    using that
  proof (induction xs arbitrary: bt0 kvs)
    case (Cons x xs)
    obtain it bt' where "insert_start C (kv_key x) (kv_value x) bt0 = Some (it, True, bt')" "btree_inv C bt' (ins_pair (kv_key x) (kv_value x) kvs)"
      using insert_start_result [OF Cons.prems] by blast
    then show ?case using Cons.IH by (simp add: STXBTree_Insert_def)
  qed simp
  then show ?thesis using bt0 by simp
qed

end

lemma begin_position:
  assumes "btree_inv C bt kvs"
  shows "iter_at bt (bt_leaves bt) (btree_begin bt) kvs"
proof (cases "bt_leaves bt")
  case Nil
  then show ?thesis using btree_inv_chain [OF assms] by (simp add: btree_begin_def chain_def iter_at_def)
next
  case (Cons a ids)
  note inv = btree_inv_chain [OF assms, unfolded Cons]
  have "leaf_pairs (memory bt) a \<noteq> []" by (rule leaves_okD [OF inv(2), of a]) auto
  then show ?thesis using inv(1,3) Cons
    by (auto simp: btree_begin_def chain_def intro!: iter_atI [of _ "[]" a ids])
qed

lemma mset_inserted: "mset (foldl (\<lambda>kvs kv. ins_pair (kv_key kv) (kv_value kv) kvs) kvs xs) = mset (kvs @ kv_pairs xs)"
  by (induction xs arbitrary: kvs) (simp_all add: kv_pairs_def ins_pair_mset)

text \<open>The tree that the wrapper builds from \<open>data\<close> and grows by inserting \<open>xs\<close>, and the list it stands for.\<close>

definition stx_grown :: "'k::linorder btree_params \<Rightarrow> 'k KeyValue list \<Rightarrow> 'k KeyValue list \<Rightarrow> 'k btree option" where
  "stx_grown C data xs =
     Option.bind (STXBTree_Build C data) (\<lambda>bt. foldl (\<lambda>bt kv. Option.bind bt (STXBTree_Insert C kv)) (Some bt) xs)"

definition grown_list :: "'k::linorder KeyValue list \<Rightarrow> 'k KeyValue list \<Rightarrow> ('k \<times> u64) list" where
  "grown_list data xs = foldl (\<lambda>kvs kv. ins_pair (kv_key kv) (kv_value kv) kvs) (kv_pairs data) xs"

lemma stx_grown_inv:
  assumes "search_class lower upper" and "0 < key_size" and "n \<le> 19" and "sorted (map kv_key data)"
  defines "C \<equiv> STXBTree_params key_size n lower upper"
  shows "\<exists>bt. stx_grown C data xs = Some bt \<and> btree_inv C bt (grown_list data xs)"
  using btree_class.built_inv [OF STXBTree_params_class [OF assms(1-3)] assms(4)]
  unfolding stx_grown_def grown_list_def C_def .

subsection \<open>Properties\<close>

text \<open>C13. The B+-tree refines a sorted list of pairs: after bulk loading sorted data and any sequence of insertions, which never
  leave the slots of a node, iteration from \<^verbatim>\<open>begin\<close> visits the loaded and the inserted pairs in the order of their keys, the
  bounds of \<^verbatim>\<open>equal_range\<close> are where the sorted list has them, and \<^verbatim>\<open>exists\<close> and \<^verbatim>\<open>count\<close> answer as the list does; keys may be duplicates.\<close>

theorem stx_btree_refines_sorted_list:
  assumes "search_class lower upper" and "0 < key_size" and "n \<le> 19" and "sorted (map kv_key data)"
    and "C = STXBTree_params key_size n lower upper" and "ks = grown_list data xs"
  shows "\<exists>bt. stx_grown C data xs = Some bt \<and> sorted (map fst ks) \<and> mset ks = mset (kv_pairs data @ kv_pairs xs) \<and>
    walk bt (btree_begin bt) = Some ks \<and>
    (\<forall>key. btree_exists C bt key = Some (key \<in> fst ` set ks) \<and>
       btree_count C bt key = Some (length (filter (\<lambda>p. fst p = key) ks)) \<and>
       (\<exists>lo hi. btree_equal_range C bt key = Some (lo, hi) \<and>
          walk bt lo = Some (dropWhile (\<lambda>p. fst p < key) ks) \<and> walk bt hi = Some (dropWhile (\<lambda>p. fst p \<le> key) ks)))"
proof -
  obtain bt where bt: "stx_grown C data xs = Some bt" "btree_inv C bt ks"
    using stx_grown_inv [OF assms(1-4)] assms(5,6) by blast
  have cls: "btree_class C" unfolding assms(5) by (rule STXBTree_params_class [OF assms(1-3)])
  note inv = btree_inv_chain [OF bt(2)]
  note bound = btree_class.bound_position [OF cls bt(2)]
  have "btree_count C bt key = Some (length (filter (\<lambda>p. fst p = key) ks))" for key
  proof (cases "m_root bt")
    case None
    then show ?thesis using bt(2) by (simp add: btree_count_def btree_inv_def)
  next
    case (Some n)
    then have ne: "bt_leaves bt \<noteq> []"
      using bt(2) shape_pairs unfolding btree_inv_def tree_ok_def bt_leaves_def by fastforce
    obtain it where it: "btree_lower_bound C bt key = Some it" "iter_at bt (bt_leaves bt) it (dropWhile (\<lambda>p. fst p < key) ks)"
      using bound(1) by blast
    have "btree_count C bt key = count_loop bt key it 0"
      using it(1) Some by (auto simp: btree_count_def btree_lower_bound_def split: bind_splits)
    then show ?thesis using count_loop_result [OF inv(1,2) it(2) ne] sorted_equal [OF inv(4)] by simp
  qed
  moreover have "walk bt (btree_begin bt) = Some ks" by (rule walk_result [OF inv(1,2) begin_position [OF bt(2)]])
  moreover have "\<exists>lo hi. btree_equal_range C bt key = Some (lo, hi) \<and>
      walk bt lo = Some (dropWhile (\<lambda>p. fst p < key) ks) \<and> walk bt hi = Some (dropWhile (\<lambda>p. fst p \<le> key) ks)" for key
    using bound [of key] walk_result [OF inv(1,2)] unfolding btree_equal_range_def by fastforce
  moreover have "mset ks = mset (kv_pairs data @ kv_pairs xs)" unfolding assms(6) grown_list_def by (rule mset_inserted)
  ultimately show ?thesis using bt(1) inv(4) btree_class.find_position(1) [OF cls bt(2)] by blast
qed

text \<open>Nodes of eight slots, twenty pairs loaded and two inserted, one of them with a known key.\<close>

abbreviation stx_small :: "nat btree_params" where
  "stx_small \<equiv> STXBTree_params 8 6 (\<lambda>a b key s t. LinearSearch_lower_bound a b key s t (<))
     (\<lambda>a b key s t. LinearSearch_upper_bound a b key s t (<))"

interpretation stx8: btree_class stx_small
  by (rule STXBTree_params_class [OF linear.search_class_axioms]) simp_all

abbreviation stx_pairs :: "nat list \<Rightarrow> nat KeyValue list" where
  "stx_pairs ks \<equiv> map (\<lambda>k. \<lparr>kv_key = k, kv_value = of_nat k\<rparr>) ks"

theorem stx_btree_refines_sorted_list_witness:
  "\<exists>bt ks. stx_grown stx_small (stx_pairs [0..<20]) (stx_pairs [7, 30]) = Some bt \<and> walk bt (btree_begin bt) = Some ks \<and>
     mset ks = mset (kv_pairs (stx_pairs [0..<20]) @ kv_pairs (stx_pairs [7, 30])) \<and> sorted (map fst ks)"
proof -
  have "sorted (map kv_key (stx_pairs [0..<20]))" by (simp add: o_def)
  from stx_btree_refines_sorted_list [OF linear.search_class_axioms _ _ this, of 8 6, OF _ _ refl refl, of "stx_pairs [7, 30]"]
  show ?thesis by auto
qed

text \<open>C14. The self-verification of the B+-tree: after bulk loading sorted data and any sequence of insertions, all assertions of \<^verbatim>\<open>verify\<close>
  hold (fill of the nodes, order of the keys, split keys, statistics and leaf links), exactly as long as the tree has fewer than
  \<open>2 ^ 32\<close> pairs: the leaf links are counted by an \<^verbatim>\<open>unsigned int\<close>.\<close>

theorem stx_btree_self_verification:
  assumes "search_class lower upper" and "0 < key_size" and "n \<le> 19" and "sorted (map kv_key data)"
    and "C = STXBTree_params key_size n lower upper"
  shows "\<exists>bt. stx_grown C data xs = Some bt \<and> (btree_verify C bt \<longleftrightarrow> length data + length xs < 2 ^ 32)"
proof -
  obtain bt where bt: "stx_grown C data xs = Some bt" "btree_inv C bt (grown_list data xs)"
    using stx_grown_inv [OF assms(1-4)] assms(5) by blast
  have "length (grown_list data xs) = length data + length xs"
    using arg_cong [OF mset_inserted [of "kv_pairs data" xs], of size] by (simp add: grown_list_def kv_pairs_def)
  moreover have "btree_verify C bt" if "grown_list data xs = []"
    using bt(2) that shape_pairs by (cases "m_root bt") (fastforce simp: btree_inv_def tree_ok_def btree_verify_def)+
  ultimately show ?thesis using bt btree_verify_iff [OF bt(2)] by (cases "grown_list data xs = []") auto
qed

theorem stx_btree_self_verification_witness:
  "\<exists>bt. stx_grown stx_small (stx_pairs [0..<20]) (stx_pairs [7, 30]) = Some bt \<and> btree_verify stx_small bt"
proof -
  have "sorted (map kv_key (stx_pairs [0..<20]))" by (simp add: o_def)
  from stx_btree_self_verification [OF linear.search_class_axioms _ _ this, of 8 6, OF _ _ refl, of "stx_pairs [7, 30]"]
  show ?thesis by simp
qed



text \<open>C15. The benchmark and the B+-tree together: with one worker, on sorted bulk-loaded data whose values are the positions of their keys and on
  a workload whose expected results are right, a run ends without a failure and with all statistics defined, with every search
  class, every node size and with duplicate keys.\<close>

theorem stx_btree_verification_passes:
  assumes "search_class lower upper" and "0 < key_size" and "n \<le> 19" and "C = STXBTree_params key_size n lower upper"
    and "Benchmark_init keys [ops] bulk is_mix insert_ratio num_blocks 1 = Some b" and "block_wise num_blocks ops"
    and "sorted (map kv_key (bn_index_data b))" and "positions keys (kv_pairs (bn_index_data b))"
    and "ops_consistent keys (\<lambda>_. True) (kv_pairs (bn_index_data b)) ops" and "length ops \<le> 2 ^ 53"
    and "through \<or> build \<or> (\<forall>i<phase_count b. phase_start b i 0 < phase_limit b i 0)"
    and "length ns = bn_ns_size b"
  shows "\<exists>r. Run num_repeats build through verify (STXBTree C) E b ns = Some (r, False)"
proof -
  have "btree_class C" unfolding assms(4) by (rule STXBTree_params_class [OF assms(1-3)])
  moreover have "sorted (map fst (kv_pairs (bn_index_data b)))" using assms(7) by (simp add: kv_pairs_def o_def)
  ultimately show ?thesis
    by (intro index_contract.verification_passes [OF btree_class.contract assms(5,6) _ assms(8-12)])
qed

theorem stx_btree_verification_passes_witness:
  "\<exists>b r. Benchmark_init [2, 4, 4, 8 :: nat]
      [[\<lparr>op_op = LOOKUP, op_lo_key = 4, op_hi_key = 0, op_result = 0\<rparr>,
        \<lparr>op_op = RANGE_QUERY, op_lo_key = 3, op_hi_key = 9, op_result = 6\<rparr>]] None False 0 1 1 = Some b \<and>
     Run 3 False False True (STXBTree stx_small) (\<lambda>_. \<lparr>en_clock = \<lambda>_ _. 1, en_timing = \<lambda>_. 2, en_sqrt = Some\<rparr>) b [0, 0] = Some (r, False)"
proof -
  let ?keys = "[2, 4, 4, 8 :: nat]"
  let ?ops = "[\<lparr>op_op = LOOKUP, op_lo_key = 4, op_hi_key = 0, op_result = 0\<rparr>,
        \<lparr>op_op = RANGE_QUERY, op_lo_key = 3, op_hi_key = 9, op_result = 6\<rparr>] :: nat Operation list"
  obtain b where b: "Benchmark_init ?keys [?ops] None False 0 1 1 = Some b" "bn_index_data b = add_values ?keys"
      "bn_ns_size b = 2" "phase_count b = 1" "phase_start b 0 0 = 0" "phase_limit b 0 0 = 2"
    by (simp add: Benchmark_init_def thread_ns_size_def thread_bounds_def phase_count_def phase_start_def phase_limit_def)
  have data: "kv_pairs (add_values ?keys) = [(2, 0), (4, 1), (4, 2), (8, 3)]" by (simp add: add_values_def kv_pairs_def)
  have pos: "positions ?keys (kv_pairs (bn_index_data b))" unfolding b(2) by (rule positions_add_values) simp
  have ops: "ops_consistent ?keys (\<lambda>_. True) (kv_pairs (bn_index_data b)) ?ops"
    unfolding b(2) data by (simp add: op_codes pair_sum_def NOT_FOUND_def)
  have srt: "sorted (map kv_key (bn_index_data b))" unfolding b(2) by (simp add: add_values_def)
  have "\<exists>r. Run 3 False False True (STXBTree stx_small) (\<lambda>_. \<lparr>en_clock = \<lambda>_ _. 1, en_timing = \<lambda>_. 2, en_sqrt = Some\<rparr>) b [0, 0] = Some (r, False)"
    by (rule stx_btree_verification_passes [OF linear.search_class_axioms _ _ refl b(1) _ srt pos ops])
      (simp_all add: block_wise_def b)
  then show ?thesis using b(1) by blast
qed

end
