(* ===== verification/Ts_Cht.thy ===== *)
theory Ts_Cht
  imports Doubles Search_Class
begin

text \<open>
  The compact histogram tree of the TrieSpline, \<^verbatim>\<open>src/competitors/ts/include/ts/ts_cht\<close>: its builder (\<^verbatim>\<open>builder.h\<close>) and its lookup
  (\<^verbatim>\<open>cht.h\<close>). Every node divides the range of its keys into bins of equal width, a power of two; a bin with too many keys becomes a
  node of the next level. The tree is flattened into one table, whose entries are leaves (with the highest bit set) or pointers.

  Keys are words. \<open>None\<close> is a failed assertion, an access outside a vector, the logarithm of zero, a shift by the width of the
  type or more (in particular by a difference of unsigned numbers that is below zero), or a loop that does not end. The number of keys
  that the builder counts is the length of its list; the number of bins is not kept in the tree, where nothing reads it.
\<close>

unbundle bit_operations_syntax

subsection \<open>The tree as it is queried\<close>

record SearchBound =
  sb_begin :: nat
  sb_end :: nat

record 'k CompactHistTree =
  ct_single_layer :: bool
  ct_min_key :: 'k
  ct_max_key :: 'k
  ct_num_keys :: nat
  ct_log_num_bins :: nat
  ct_max_error :: nat
  ct_shift :: nat
  ct_table :: "nat list"

definition shr :: "'w::len word \<Rightarrow> nat \<Rightarrow> nat option" where
  "shr k width = (if width < LENGTH('w) then Some (unat (drop_bit width k)) else None)"

definition get :: "nat list \<Rightarrow> nat \<Rightarrow> nat option" where
  "get table i = (if i < length table then Some (table ! i) else None)"

text \<open>\<^verbatim>\<open>Leaf\<close> is the bit 31, \<^verbatim>\<open>Mask\<close> the bits below it.\<close>

abbreviation Leaf :: nat where
  "Leaf \<equiv> 2 ^ 31"

text \<open>The loop of \<^verbatim>\<open>Lookup\<close>; the width of the next level is a difference of unsigned numbers.\<close>

partial_function (option) cht_loop :: "'w::len word CompactHistTree \<Rightarrow> 'w word \<Rightarrow> nat \<Rightarrow> nat \<Rightarrow> nat option" where
  "cht_loop t key width next =
     do {
       bin \<leftarrow> shr key width;
       next \<leftarrow> get (ct_table t) (next * 2 ^ ct_log_num_bins t + bin);
       if bit next 31 then Some (take_bit 31 next)
       else if width < ct_log_num_bins t then None
       else cht_loop t (key - push_bit width (of_nat bin)) (width - ct_log_num_bins t) next
     }"

declare cht_loop.simps [code]

definition Lookup :: "'w::len word CompactHistTree \<Rightarrow> 'w word \<Rightarrow> nat option" where
  "Lookup t key = cht_loop t (key - ct_min_key t) (ct_shift t) 0"

definition cht_GetSearchBound :: "'w::len word CompactHistTree \<Rightarrow> 'w word \<Rightarrow> SearchBound option" where
  "cht_GetSearchBound t key =
     (if \<not> ct_single_layer t then do {
        begin \<leftarrow> Lookup t key;
        let end = (if begin + ct_max_error t + 1 > ct_num_keys t then ct_num_keys t else begin + ct_max_error t + 1);
        Some \<lparr>sb_begin = begin, sb_end = end\<rparr>
      }
      else do {
        prefix \<leftarrow> shr (key - ct_min_key t) (ct_shift t);
        begin \<leftarrow> get (ct_table t) prefix;
        end \<leftarrow> get (ct_table t) (prefix + 1);
        Some \<lparr>sb_begin = begin, sb_end = end\<rparr>
      })"

subsection \<open>Logarithms\<close>

definition ComputeLog :: "nat \<Rightarrow> bool \<Rightarrow> nat option" where
  "ComputeLog n round_up = (if n = 0 then None else Some (nlen n - 1 + (if round_up \<and> n AND (n - 1) \<noteq> 0 then 1 else 0)))"

definition GetNumShiftBits :: "nat \<Rightarrow> nat \<Rightarrow> nat option" where
  "GetNumShiftBits diff num_radix_bits =
     (if diff = 0 then None else Some (if nlen diff < num_radix_bits then 0 else nlen diff - num_radix_bits))"

subsection \<open>The builder\<close>

record 'k cht_builder =
  cb_min_key :: 'k
  cb_max_key :: 'k
  cb_prev_key :: 'k
  cb_keys :: "'k list"

definition cht_builder_init :: "'k \<Rightarrow> 'k \<Rightarrow> 'k cht_builder" where
  "cht_builder_init min_key max_key = \<lparr>cb_min_key = min_key, cb_max_key = max_key, cb_prev_key = min_key, cb_keys = []\<rparr>"

definition cht_AddKey :: "'k::linorder cht_builder \<Rightarrow> 'k \<Rightarrow> 'k cht_builder option" where
  "cht_AddKey b key =
     (if cb_min_key b \<le> key \<and> key \<le> cb_max_key b \<and> cb_prev_key b \<le> key
      then Some (b\<lparr>cb_keys := cb_keys b @ [key], cb_prev_key := key\<rparr>) else None)"

text \<open>The parameters that \<^verbatim>\<open>Finalize\<close> sets; a node has its level, its smallest key (as a difference) and the range of every bin.\<close>

record 'k cht_params =
  cp_min_key :: 'k
  cp_keys :: "'k list"
  cp_num_bins :: nat
  cp_log_num_bins :: nat
  cp_max_error :: nat
  cp_shift :: nat

record 'k cht_node =
  nd_level :: nat
  nd_lower :: 'k
  nd_bins :: "(nat \<times> nat) list"

definition node_width :: "'w::len word cht_params \<Rightarrow> nat \<Rightarrow> nat option" where
  "node_width C level =
     (let used = level * cp_log_num_bins C
      in if used \<le> cp_shift C \<and> cp_shift C - used < LENGTH('w) then Some (cp_shift C - used) else None)"

text \<open>The bins from \<open>start\<close> up to \<open>bin\<close> are empty.\<close>

definition skip_bins :: "(nat \<times> nat) list \<Rightarrow> nat \<Rightarrow> nat \<Rightarrow> nat \<Rightarrow> (nat \<times> nat) list option" where
  "skip_bins bins start bin index =
     (if start \<le> bin \<and> bin < length bins
      then Some (take start bins @ replicate (bin - start) (index, index) @ drop bin bins) else None)"

fun init_bins :: "(nat \<Rightarrow> nat) \<Rightarrow> nat list \<Rightarrow> nat option \<Rightarrow> (nat \<times> nat) list \<Rightarrow> (nat option \<times> (nat \<times> nat) list) option" where
  "init_bins key_bin [] currBin bins = Some (currBin, bins)"
| "init_bins key_bin (index # is) currBin bins =
     do {
       let bin = key_bin index;
       bins \<leftarrow> (if currBin = Some bin then Some bins
         else do {
           bins \<leftarrow> skip_bins bins (case currBin of None \<Rightarrow> 0 | Some c \<Rightarrow> c + 1) bin index;
           Some (bins[bin := (index, index)])
         });
       init_bins key_bin is (Some bin) (bins[bin := (fst (bins ! bin), snd (bins ! bin) + 1)])
     }"

definition initNode :: "'w::len word cht_params \<Rightarrow> 'w word cht_node \<Rightarrow> nat \<times> nat \<Rightarrow> 'w word cht_node option" where
  "initNode C node covered =
     do {
       width \<leftarrow> node_width C (nd_level node);
       let key_bin = (\<lambda>index. unat (drop_bit width (cp_keys C ! index - cp_min_key C - nd_lower node)));
       (currBin, bins) \<leftarrow> init_bins key_bin [fst covered..<snd covered] None (nd_bins node);
       case currBin of
         None \<Rightarrow> None
       | Some bin \<Rightarrow> if snd (bins ! bin) = snd covered then Some (node\<lparr>nd_bins := bins\<rparr>) else None
     }"

definition set_bin :: "'k cht_node list \<Rightarrow> nat \<Rightarrow> nat \<Rightarrow> nat \<times> nat \<Rightarrow> 'k cht_node list" where
  "set_bin tree node bin r = tree[node := (tree ! node)\<lparr>nd_bins := (nd_bins (tree ! node))[bin := r]\<rparr>]"

text \<open>The bins of a node: each becomes a leaf, or a new node at the end of the tree and of the queue.\<close>

fun split_bins :: "'w::len word cht_params \<Rightarrow> nat \<Rightarrow> nat list \<Rightarrow> 'w word cht_node list \<Rightarrow> nat list
    \<Rightarrow> ('w word cht_node list \<times> nat list) option" where
  "split_bins C node [] tree nodes = Some (tree, nodes)"
| "split_bins C node (bin # bins) tree nodes =
     (let (first, second) = nd_bins (tree ! node) ! bin;
          n_keys = (if first \<le> second then second - first else second + 2 ^ 32 - first)
      in if n_keys > cp_max_error C then do {
           width \<leftarrow> node_width C (nd_level (tree ! node));
           if n_keys > 2 ^ width then split_bins C node bins (set_bin tree node bin (first OR Leaf, second)) nodes
           else do {
             let newNode = \<lparr>nd_level = nd_level (tree ! node) + 1,
                            nd_lower = nd_lower (tree ! node) + of_nat (bin * 2 ^ width),
                            nd_bins = replicate (cp_num_bins C) (second, second)\<rparr>;
             newNode \<leftarrow> initNode C newNode (first, second);
             split_bins C node bins (set_bin (tree @ [newNode]) node bin (0, length tree)) (nodes @ [length tree])
           }
         }
         else split_bins C node bins (set_bin tree node bin (first OR Leaf, second)) nodes)"

partial_function (option) BuildOffline_loop ::
    "'w::len word cht_params \<Rightarrow> 'w word cht_node list \<Rightarrow> nat list \<Rightarrow> 'w word cht_node list option" where
  "BuildOffline_loop C tree nodes =
     (case nodes of
        [] \<Rightarrow> Some tree
      | node # rest \<Rightarrow> do {
          (tree, nodes) \<leftarrow> split_bins C node [0..<cp_num_bins C] tree rest;
          BuildOffline_loop C tree nodes
        })"

declare BuildOffline_loop.simps [code]

definition BuildOffline :: "'w::len word cht_params \<Rightarrow> 'w word cht_node list option" where
  "BuildOffline C =
     do {
       let n = length (cp_keys C);
       node0 \<leftarrow> initNode C \<lparr>nd_level = 0, nd_lower = 0, nd_bins = replicate (cp_num_bins C) (n, n)\<rparr> (0, n);
       BuildOffline_loop C [node0] [0]
     }"

subsection \<open>Flattening\<close>

definition flat_entry :: "nat \<times> nat \<Rightarrow> nat" where
  "flat_entry r = (if bit (fst r) 31 then fst r else snd r)"

definition Flatten_table :: "'w::len word cht_params \<Rightarrow> 'w word cht_node list \<Rightarrow> nat list" where
  "Flatten_table C tree =
     foldl (\<lambda>table (index, bin). table[index * 2 ^ cp_log_num_bins C + bin := flat_entry (nd_bins (tree ! index) ! bin)])
       (replicate (length tree * cp_num_bins C) 0) (List.product [0..<length tree] [0..<cp_num_bins C])"

definition TransformIntoRadixTable :: "'w::len word cht_params \<Rightarrow> nat \<Rightarrow> 'w word cht_node \<Rightarrow> (nat list \<times> nat) option" where
  "TransformIntoRadixTable C key_range node0 =
     do {
       num_shift_bits \<leftarrow> GetNumShiftBits key_range (cp_log_num_bins C);
       let max_prefix = key_range div 2 ^ num_shift_bits;
       if max_prefix \<ge> length (nd_bins node0) then None
       else Some (map (\<lambda>index. take_bit 31 (fst (nd_bins node0 ! index))) [0..<max_prefix + 1] @ [snd (nd_bins node0 ! max_prefix)],
              num_shift_bits)
     }"

definition cht_Finalize :: "'w::len word cht_builder \<Rightarrow> nat \<Rightarrow> nat \<Rightarrow> 'w word CompactHistTree option" where
  "cht_Finalize b num_bins max_error =
     (if cb_keys b \<noteq> [] \<and> cb_prev_key b \<noteq> cb_max_key b then None
      else do {
        log_num_bins \<leftarrow> ComputeLog num_bins False;
        let key_range = unat (cb_max_key b - cb_min_key b);
        lg \<leftarrow> ComputeLog key_range True;
        if lg < log_num_bins then None
        else do {
          let shift = lg - log_num_bins + (if key_range AND (key_range - 1) = 0 \<and> num_bins AND (num_bins - 1) = 0 then 1 else 0);
          let C = \<lparr>cp_min_key = cb_min_key b, cp_keys = cb_keys b, cp_num_bins = num_bins, cp_log_num_bins = log_num_bins,
                   cp_max_error = max_error, cp_shift = shift\<rparr>;
          tree \<leftarrow> BuildOffline C;
          (table, shift) \<leftarrow> (if length tree = 1 then TransformIntoRadixTable C key_range (hd tree)
            else Some (Flatten_table C tree, shift));
          Some \<lparr>ct_single_layer = (length tree = 1), ct_min_key = cb_min_key b, ct_max_key = cb_max_key b,
                ct_num_keys = length (cb_keys b), ct_log_num_bins = log_num_bins, ct_max_error = max_error,
                ct_shift = shift, ct_table = table\<rparr>
        }
      })"

end
