(* ===== verification/Ts_Spline.thy ===== *)
theory Ts_Spline
  imports Ts_Cht
begin

text \<open>
  The TrieSpline, \<^verbatim>\<open>src/competitors/ts/include/ts\<close>: its builder (\<^verbatim>\<open>builder.h\<close>), which draws a spline through some of the points of the
  distribution function of the keys so that no point is further than \<^verbatim>\<open>spline_max_error\<close> from it, and its queries (\<^verbatim>\<open>ts.h\<close>), which
  find the segment of a key with the compact histogram tree and interpolate.

  Positions and counts (\<^verbatim>\<open>size_t\<close>) are naturals, a \<^verbatim>\<open>double\<close> is the rational it denotes, after rounding. \<open>None\<close> is a failed assertion, a read
  of a variable that has not been set, an access outside a vector or an undefined conversion. The choice of the tuning is the
  argument \<open>tuning\<close> of \<open>Finalize\<close>: it maps the state of the builder to
  the number of bins and to the error of the tree; the choice of the code is \<open>ts_tuning\<close> in \<open>Ts_Tuning\<close>.
\<close>

subsection \<open>Points and orientations\<close>

record 'k Coord =
  co_x :: 'k
  co_y :: rat

datatype Orientation = Collinear | CW | CCW

definition to_double :: "'w::len word \<Rightarrow> rat" where
  "to_double x = double_round (of_nat (unat x))"

definition nat_double :: "nat \<Rightarrow> rat" where
  "nat_double n = double_round (of_nat n)"

text \<open>\<^verbatim>\<open>std::fma\<close> rounds once.\<close>

definition fma :: "rat \<Rightarrow> rat \<Rightarrow> rat \<Rightarrow> rat" where
  "fma x y z = double_round (x * y + z)"

definition precision :: rat where
  "precision = 1 / 2 ^ 52"

definition ComputeOrientation :: "rat \<Rightarrow> rat \<Rightarrow> rat \<Rightarrow> rat \<Rightarrow> Orientation" where
  "ComputeOrientation dx1 dy1 dx2 dy2 =
     (let expr = fma dy1 dx2 (- fma dy2 dx1 0)
      in if expr > precision then CW else if expr < - precision then CCW else Collinear)"

subsection \<open>The builder\<close>

record 'k ts_builder =
  tb_min_key :: 'k
  tb_max_key :: 'k
  tb_spline_max_error :: nat
  tb_spline_points :: "'k Coord list"
  tb_curr_num_keys :: nat
  tb_curr_num_distinct_keys :: nat
  tb_prev_key :: 'k
  tb_prev_position :: nat
  tb_chtb :: "'k cht_builder"
  tb_upper_limit :: "'k Coord option"
  tb_lower_limit :: "'k Coord option"
  tb_prev_point :: "'k Coord option"

definition ts_builder_init :: "'k \<Rightarrow> 'k \<Rightarrow> nat \<Rightarrow> 'k ts_builder" where
  "ts_builder_init min_key max_key spline_max_error =
     \<lparr>tb_min_key = min_key, tb_max_key = max_key, tb_spline_max_error = spline_max_error, tb_spline_points = [],
      tb_curr_num_keys = 0, tb_curr_num_distinct_keys = 0, tb_prev_key = min_key, tb_prev_position = 0,
      tb_chtb = cht_builder_init min_key max_key, tb_upper_limit = None, tb_lower_limit = None, tb_prev_point = None\<rparr>"

definition AddKeyToSpline :: "'k::linorder \<Rightarrow> rat \<Rightarrow> 'k ts_builder \<Rightarrow> 'k ts_builder option" where
  "AddKeyToSpline key position b =
     do {
       chtb \<leftarrow> cht_AddKey (tb_chtb b) key;
       Some (b\<lparr>tb_spline_points := tb_spline_points b @ [\<lparr>co_x = key, co_y = position\<rparr>], tb_chtb := chtb\<rparr>)
     }"

definition SetUpperLimit :: "'k \<Rightarrow> rat \<Rightarrow> 'k ts_builder \<Rightarrow> 'k ts_builder" where
  "SetUpperLimit key position b = b\<lparr>tb_upper_limit := Some \<lparr>co_x = key, co_y = position\<rparr>\<rparr>"

definition SetLowerLimit :: "'k \<Rightarrow> rat \<Rightarrow> 'k ts_builder \<Rightarrow> 'k ts_builder" where
  "SetLowerLimit key position b = b\<lparr>tb_lower_limit := Some \<lparr>co_x = key, co_y = position\<rparr>\<rparr>"

definition RememberPreviousCDFPoint :: "'k \<Rightarrow> rat \<Rightarrow> 'k ts_builder \<Rightarrow> 'k ts_builder" where
  "RememberPreviousCDFPoint key position b = b\<lparr>tb_prev_point := Some \<lparr>co_x = key, co_y = position\<rparr>\<rparr>"

text \<open>The limits of a position (\<^verbatim>\<open>upper_y\<close> and \<^verbatim>\<open>lower_y\<close>): the position is a \<^verbatim>\<open>double\<close>, the error is converted to one.\<close>

definition upper_y :: "nat \<Rightarrow> rat \<Rightarrow> rat" where
  "upper_y e position = double_round (position + nat_double e)"

definition lower_y :: "nat \<Rightarrow> rat \<Rightarrow> rat" where
  "lower_y e position = (if position < nat_double e then 0 else double_round (position - nat_double e))"

text \<open>The third and later CDF points: the corridor is narrowed, or the previous point becomes a point of the spline.\<close>

definition CutCorridor :: "'w::len word \<Rightarrow> rat \<Rightarrow> 'w word ts_builder \<Rightarrow> 'w word ts_builder option" where
  "CutCorridor key position b =
     do {
       upper \<leftarrow> tb_upper_limit b;
       lower \<leftarrow> tb_lower_limit b;
       prev \<leftarrow> tb_prev_point b;
       last_point \<leftarrow> (if tb_spline_points b = [] then None else Some (last (tb_spline_points b)));
       let e = tb_spline_max_error b;
       let x = co_x last_point;
       let y = co_y last_point;
       if \<not> (x \<le> co_x upper \<and> x \<le> co_x lower \<and> x \<le> key \<and> y \<le> co_y upper \<and> y \<le> position \<and> co_x prev \<noteq> x) then None
       else do {
         let upper_limit_x_diff = to_double (co_x upper - x);
         let lower_limit_x_diff = to_double (co_x lower - x);
         let x_diff = to_double (key - x);
         let upper_limit_y_diff = double_round (co_y upper - y);
         let lower_limit_y_diff = double_round (co_y lower - y);
         let y_diff = double_round (position - y);
         if ComputeOrientation upper_limit_x_diff upper_limit_y_diff x_diff y_diff \<noteq> CW \<or>
            ComputeOrientation lower_limit_x_diff lower_limit_y_diff x_diff y_diff \<noteq> CCW
         then do {
           b \<leftarrow> AddKeyToSpline (co_x prev) (co_y prev) b;
           Some (SetLowerLimit key (lower_y e position) (SetUpperLimit key (upper_y e position) b))
         }
         else if \<not> y \<le> upper_y e position then None
         else do {
           let upper_y_diff = double_round (upper_y e position - y);
           let b = (if ComputeOrientation upper_limit_x_diff upper_limit_y_diff x_diff upper_y_diff = CW
                    then SetUpperLimit key (upper_y e position) b else b);
           let lower_y_diff = double_round (lower_y e position - y);
           let b = (if ComputeOrientation lower_limit_x_diff lower_limit_y_diff x_diff lower_y_diff = CCW
                    then SetLowerLimit key (lower_y e position) b else b);
           Some b
         }
       }
     }"

definition PossiblyAddKeyToSpline :: "'w::len word \<Rightarrow> rat \<Rightarrow> 'w word ts_builder \<Rightarrow> 'w word ts_builder option" where
  "PossiblyAddKeyToSpline key position b =
     (if tb_curr_num_keys b = 0 then do {
        b \<leftarrow> AddKeyToSpline key position b;
        Some (RememberPreviousCDFPoint key position
          (b\<lparr>tb_curr_num_distinct_keys := tb_curr_num_distinct_keys b + 1\<rparr>))
      }
      else if key = tb_prev_key b then Some b
      else do {
        let b = b\<lparr>tb_curr_num_distinct_keys := tb_curr_num_distinct_keys b + 1\<rparr>;
        let e = tb_spline_max_error b;
        if tb_curr_num_distinct_keys b = 2
        then Some (RememberPreviousCDFPoint key position
          (SetLowerLimit key (lower_y e position) (SetUpperLimit key (upper_y e position) b)))
        else do {
          b \<leftarrow> CutCorridor key position b;
          Some (RememberPreviousCDFPoint key position b)
        }
      })"

definition AddKey_at :: "'w::len word \<Rightarrow> nat \<Rightarrow> 'w word ts_builder \<Rightarrow> 'w word ts_builder option" where
  "AddKey_at key position b =
     (if tb_min_key b \<le> key \<and> key \<le> tb_max_key b \<and> tb_prev_key b \<le> key \<and> (position = 0 \<or> tb_prev_position b < position)
      then do {
        b \<leftarrow> PossiblyAddKeyToSpline key (nat_double position) b;
        Some (b\<lparr>tb_curr_num_keys := tb_curr_num_keys b + 1, tb_prev_key := key, tb_prev_position := position\<rparr>)
      }
      else None)"

definition ts_AddKey :: "'w::len word \<Rightarrow> 'w word ts_builder \<Rightarrow> 'w word ts_builder option" where
  "ts_AddKey key b = (if tb_curr_num_keys b = 0 then AddKey_at key 0 b else AddKey_at key (tb_prev_position b + 1) b)"

text \<open>The loop of \<^verbatim>\<open>TS::Build\<close> in \<^verbatim>\<open>src/competitors/ts.h\<close>.\<close>

fun ts_add_all :: "'w::len word list \<Rightarrow> 'w word ts_builder \<Rightarrow> 'w word ts_builder option" where
  "ts_add_all [] b = Some b"
| "ts_add_all (key # keys) b = do { b \<leftarrow> ts_AddKey key b; ts_add_all keys b }"

subsection \<open>The spline\<close>

record 'k TrieSpline =
  tr_min_key :: 'k
  tr_max_key :: 'k
  tr_num_keys :: nat
  tr_spline_max_error :: nat
  tr_spline_points :: "'k Coord list"
  tr_cht :: "'k CompactHistTree"

definition Finalize_points :: "'w::len word ts_builder \<Rightarrow> 'w word ts_builder option" where
  "Finalize_points b =
     (if tb_curr_num_keys b > 0 \<and> tb_prev_key b \<noteq> tb_max_key b then None
      else if tb_curr_num_keys b > 0 \<and> tb_spline_points b = [] then None
      else if tb_curr_num_keys b > 0 \<and> co_x (last (tb_spline_points b)) \<noteq> tb_prev_key b
      then AddKeyToSpline (tb_prev_key b) (nat_double (tb_prev_position b)) b
      else Some b)"

definition ts_Finalize :: "('w::len word ts_builder \<Rightarrow> (nat \<times> nat) option) \<Rightarrow> 'w word ts_builder \<Rightarrow> 'w word TrieSpline option" where
  "ts_Finalize tuning b =
     do {
       b \<leftarrow> Finalize_points b;
       (numBins, treeMaxError) \<leftarrow> tuning b;
       cht \<leftarrow> cht_Finalize (tb_chtb b) numBins treeMaxError;
       Some \<lparr>tr_min_key = tb_min_key b, tr_max_key = tb_max_key b, tr_num_keys = tb_curr_num_keys b,
             tr_spline_max_error = tb_spline_max_error b, tr_spline_points = tb_spline_points b, tr_cht = cht\<rparr>
     }"

definition GetSplineSegment :: "'w::len word search \<Rightarrow> 'w word TrieSpline \<Rightarrow> 'w word \<Rightarrow> nat option" where
  "GetSplineSegment lb t key =
     do {
       range \<leftarrow> cht_GetSearchBound (tr_cht t) key;
       it \<leftarrow> lb (int (sb_begin range)) (int (sb_end range)) key (int (sb_begin range)) (list_reader (map co_x (tr_spline_points t)));
       Some (nat it)
     }"

text \<open>The interpolation in the segment that ends at the point \<open>index\<close>.\<close>

definition interpolate :: "'w::len word Coord list \<Rightarrow> nat \<Rightarrow> 'w word \<Rightarrow> rat option" where
  "interpolate points index key =
     (if index = 0 \<or> length points \<le> index then None
      else do {
        let down = points ! (index - 1);
        let up = points ! index;
        let x_diff = to_double (co_x up - co_x down);
        let y_diff = double_round (co_y up - co_y down);
        if x_diff = 0 then None
        else do {
          let slope = double_round (y_diff / x_diff);
          let key_diff = to_double (key - co_x down);
          Some (fma key_diff slope (co_y down))
        }
      })"

definition GetEstimatedPosition :: "'w::len word search \<Rightarrow> 'w word TrieSpline \<Rightarrow> 'w word \<Rightarrow> rat option" where
  "GetEstimatedPosition lb t key =
     (if key \<le> tr_min_key t then Some 0
      else if tr_max_key t \<le> key then Some (nat_double (to_size_t (int (tr_num_keys t) - 1)))
      else do {
        index \<leftarrow> GetSplineSegment lb t key;
        interpolate (tr_spline_points t) index key
      })"

definition ts_GetSearchBound :: "'w::len word search \<Rightarrow> 'w word TrieSpline \<Rightarrow> 'w word \<Rightarrow> SearchBound option" where
  "ts_GetSearchBound lb t key =
     do {
       position \<leftarrow> GetEstimatedPosition lb t key;
       if \<not> (- 1 < position \<and> position < 2 ^ 64) then None
       else do {
         let estimate = nat \<lfloor>position\<rfloor>;
         let e = tr_spline_max_error t;
         let begin = (if estimate < e then 0 else estimate - e);
         let end = (if estimate + e + 2 > tr_num_keys t then tr_num_keys t else estimate + e + 2);
         Some \<lparr>sb_begin = begin, sb_end = end\<rparr>
       }
     }"

text \<open>The sizes of the objects on a 64-bit machine with 64-bit keys: 88 and 144 bytes, and 16 for a point.\<close>

definition cht_GetSize :: "u64 CompactHistTree \<Rightarrow> nat" where
  "cht_GetSize t = 88 + length (ct_table t) * 4"

definition ts_GetSize :: "u64 TrieSpline \<Rightarrow> nat" where
  "ts_GetSize t = 144 + cht_GetSize (tr_cht t) + length (tr_spline_points t) * 16"

end
