(* ===== verification/Ts_Tuning.thy ===== *)
theory Ts_Tuning
  imports Ts_Spline
begin

text \<open>
  The choice of the tuning in \<^verbatim>\<open>src/competitors/ts/include/ts/builder.h\<close>: the costs of radix tables of all sizes, the costs of compact histogram
  trees of all numbers of bins and errors, estimated from the common prefixes of neighbouring points of the spline, and the cheapest of
  these within the space of the spline. An access outside a vector is \<open>None\<close>, as are the logarithm of zero, a failed
  assertion, and a division by zero.
\<close>

subsection \<open>Shared helpers\<close>

primrec fold_opt :: "('a \<Rightarrow> 's \<Rightarrow> 's option) \<Rightarrow> 'a list \<Rightarrow> 's \<Rightarrow> 's option" where
  "fold_opt f [] s = Some s"
| "fold_opt f (x # xs) s = do { s \<leftarrow> f x s; fold_opt f xs s }"

definition at_opt :: "'a list \<Rightarrow> nat \<Rightarrow> 'a option" where
  "at_opt xs i = (if i < length xs then Some (xs ! i) else None)"

definition put :: "nat \<Rightarrow> 'a \<Rightarrow> 'a list \<Rightarrow> 'a list option" where
  "put i x xs = (if i < length xs then Some (xs[i := x]) else None)"

definition double_to_size :: "rat \<Rightarrow> nat option" where
  "double_to_size x = (if - 1 < x \<and> x < 2 ^ 64 then Some (nat \<lfloor>x\<rfloor>) else None)"

definition UINT_MAX :: nat where
  "UINT_MAX = 2 ^ 32 - 1"

record Statistics =
  st_numBins :: nat
  st_treeMaxError :: nat
  st_cost :: rat
  st_space :: nat

definition ComputeCost :: "nat \<Rightarrow> nat option" where
  "ComputeCost v = (if v = 0 then None else if v = 1 then Some 1 else ComputeLog v True)"

subsection \<open>Radix tables\<close>

record RadixConfig =
  rc_shiftBits :: nat
  rc_prevPrefix :: nat
  rc_prevSplineIndex :: nat
  rc_cost :: rat

abbreviation maxNumRadixBits :: nat where
  "maxNumRadixBits \<equiv> 30"

definition add_cost :: "'k Coord list \<Rightarrow> rat \<Rightarrow> nat \<Rightarrow> RadixConfig \<Rightarrow> RadixConfig option" where
  "add_cost points y splineIndex r =
     do {
       prev \<leftarrow> at_opt points (rc_prevSplineIndex r);
       numDataKeys \<leftarrow> double_to_size (double_round (y - co_y prev));
       c \<leftarrow> ComputeCost (splineIndex - rc_prevSplineIndex r);
       Some (r\<lparr>rc_cost := double_round (rc_cost r + nat_double (numDataKeys * c))\<rparr>)
     }"

definition radix_step :: "'w::len word \<Rightarrow> 'w word Coord list \<Rightarrow> nat \<Rightarrow> nat \<Rightarrow> RadixConfig list \<Rightarrow> RadixConfig list option" where
  "radix_step min_key points splineIndex radix rs =
     do {
       r \<leftarrow> at_opt rs radix;
       point \<leftarrow> at_opt points splineIndex;
       currPrefix \<leftarrow> shr (co_x point - min_key) (rc_shiftBits r);
       if currPrefix = rc_prevPrefix r then Some rs
       else do {
         r \<leftarrow> add_cost points (co_y point) splineIndex r;
         put radix (r\<lparr>rc_prevPrefix := currPrefix, rc_prevSplineIndex := splineIndex\<rparr>) rs
       }
     }"

definition radix_init :: "nat \<Rightarrow> nat \<Rightarrow> RadixConfig list \<Rightarrow> RadixConfig list option" where
  "radix_init key_range index rs =
     do {
       shift \<leftarrow> GetNumShiftBits key_range index;
       put index \<lparr>rc_shiftBits = shift, rc_prevPrefix = 0, rc_prevSplineIndex = 0, rc_cost = 0\<rparr> rs
     }"

definition radix_finish :: "nat \<Rightarrow> 'k Coord list \<Rightarrow> RadixConfig list \<Rightarrow> nat \<Rightarrow> Statistics list \<Rightarrow> Statistics list option" where
  "radix_finish key_range points rs radix statistics =
     do {
       r \<leftarrow> at_opt rs radix;
       back \<leftarrow> at_opt points (length points - 1);
       r \<leftarrow> add_cost points (co_y back) (length points) r;
       if co_y back = 0 then None
       else Some (statistics @ [\<lparr>st_numBins = 2 ^ radix, st_treeMaxError = UINT_MAX,
              st_cost = double_round (rc_cost r / co_y back), st_space = (key_range div 2 ^ rc_shiftBits r + 2) * 4\<rparr>])
     }"

definition ComputeRadixTableStatistics :: "'w::len word ts_builder \<Rightarrow> Statistics list \<Rightarrow> Statistics list option" where
  "ComputeRadixTableStatistics b statistics =
     do {
       let points = tb_spline_points b;
       let key_range = unat (tb_max_key b - tb_min_key b);
       let radixAnalyzer = replicate (1 + maxNumRadixBits) \<lparr>rc_shiftBits = 0, rc_prevPrefix = 0, rc_prevSplineIndex = 0, rc_cost = 0\<rparr>;
       radixAnalyzer \<leftarrow> fold_opt (radix_init key_range) [1..<maxNumRadixBits + 1] radixAnalyzer;
       radixAnalyzer \<leftarrow> fold_opt (\<lambda>splineIndex. fold_opt (radix_step (tb_min_key b) points splineIndex) [1..<maxNumRadixBits + 1])
         [1..<length points] radixAnalyzer;
       fold_opt (radix_finish key_range points radixAnalyzer) [1..<maxNumRadixBits + 1] statistics
     }"

subsection \<open>Common prefixes\<close>

definition ComputeLcp :: "'w::len word \<Rightarrow> 'w word \<Rightarrow> nat option" where
  "ComputeLcp x y = (if x = y then None else Some (LENGTH('w) - nlen (unat (x XOR y))))"

text \<open>A difference of unsigned numbers, as is every number of bits here.\<close>

definition usub :: "nat \<Rightarrow> nat \<Rightarrow> nat" where
  "usub x y = nat ((int x - int y) mod 2 ^ 32)"

definition ExtractLCP :: "'w::len word \<Rightarrow> 'w word Coord list \<Rightarrow> nat \<Rightarrow> nat \<Rightarrow> nat option" where
  "ExtractLCP min_key points alreadyCommon index =
     do {
       p \<leftarrow> at_opt points index;
       q \<leftarrow> at_opt points (index - 1);
       l \<leftarrow> ComputeLcp (co_x p - min_key) (co_x q - min_key);
       Some (usub l alreadyCommon)
     }"

text \<open>The array \<^verbatim>\<open>lcp\<close> with its counters, and its indices in the order of their prefixes.\<close>

definition lcp_step :: "'w::len word \<Rightarrow> 'w word Coord list \<Rightarrow> nat \<Rightarrow> nat \<Rightarrow> nat list \<times> nat list \<Rightarrow> (nat list \<times> nat list) option" where
  "lcp_step min_key points alreadyCommon index s =
     do {
       let (lcp, counters) = s;
       l \<leftarrow> ExtractLCP min_key points alreadyCommon index;
       lcp \<leftarrow> put index l lcp;
       c \<leftarrow> at_opt counters l;
       counters \<leftarrow> put l (c + 1) counters;
       Some (lcp, counters)
     }"

definition offset_step :: "nat list \<Rightarrow> nat \<Rightarrow> nat list \<Rightarrow> nat list option" where
  "offset_step counters i offsets =
     do {
       o1 \<leftarrow> at_opt offsets (i - 1);
       c \<leftarrow> at_opt counters (i - 1);
       put i (o1 + c) offsets
     }"

definition sort_step :: "nat list \<Rightarrow> nat \<Rightarrow> nat list \<times> nat list \<Rightarrow> (nat list \<times> nat list) option" where
  "sort_step lcp index s =
     do {
       let (offsets, srt) = s;
       l \<leftarrow> at_opt lcp index;
       off \<leftarrow> at_opt offsets l;
       offsets \<leftarrow> put l (off + 1) offsets;
       srt \<leftarrow> put off index srt;
       Some (offsets, srt)
     }"

subsection \<open>The histogram\<close>

text \<open>A row holds at most as many intervals as the vector that the code allocates for it.\<close>

definition AddNewInterval :: "nat \<Rightarrow> nat \<times> nat \<Rightarrow> (nat \<times> nat) list \<Rightarrow> (nat \<times> nat) list option" where
  "AddNewInterval capacity interval row =
     (if fst interval = snd interval then Some row
      else if length row < capacity then Some (row @ [interval]) else None)"

text \<open>The loop of \<^verbatim>\<open>AnalyzeInterval\<close>; \<open>rest\<close> is the part of \<^verbatim>\<open>sorted\<close> from \<^verbatim>\<open>ptrInSorted\<close> on.\<close>

fun break_interval :: "nat \<Rightarrow> nat \<Rightarrow> nat list \<Rightarrow> nat \<times> nat \<Rightarrow> nat \<Rightarrow> nat list \<Rightarrow> (nat \<times> nat) list
    \<Rightarrow> (nat \<times> nat list \<times> (nat \<times> nat) list) option" where
  "break_interval capacity level lcp interval leftSide [] row = Some (leftSide, [], row)"
| "break_interval capacity level lcp interval leftSide (pos # rest) row =
     do {
       l \<leftarrow> at_opt lcp pos;
       if \<not> l < level \<or> \<not> (fst interval \<le> pos \<and> pos < snd interval) then Some (leftSide, pos # rest, row)
       else do {
         row \<leftarrow> AddNewInterval capacity (leftSide, pos) row;
         break_interval capacity level lcp interval (pos + 1) rest row
       }
     }"

definition AnalyzeInterval :: "nat \<Rightarrow> nat \<Rightarrow> nat list \<Rightarrow> nat \<times> nat \<Rightarrow> nat list \<times> (nat \<times> nat) list
    \<Rightarrow> (nat list \<times> (nat \<times> nat) list) option" where
  "AnalyzeInterval capacity level lcp interval s =
     (let (rest, row) = s
      in if rest = [] then Some (rest, row)
      else do {
        (leftSide, rest, row) \<leftarrow> break_interval capacity level lcp interval (fst interval) rest row;
        row \<leftarrow> AddNewInterval capacity (leftSide, snd interval) row;
        Some (rest, row)
      })"

abbreviation maxNumPossibleBins :: nat where
  "maxNumPossibleBins \<equiv> 20"

abbreviation maxPossibleTreeError :: nat where
  "maxPossibleTreeError \<equiv> 1024"

type_synonym matrix = "(nat \<times> nat) list list"

definition consume_interval :: "nat \<Rightarrow> nat \<Rightarrow> nat \<times> nat \<Rightarrow> (nat \<times> nat) list \<Rightarrow> (nat \<times> nat) list option" where
  "consume_interval lg level interval m =
     (if \<not> fst interval < snd interval then None
      else do {
        let intervalSize = snd interval - fst interval + 1;
        let pos = min (intervalSize - 1) maxPossibleTreeError;
        (a, c) \<leftarrow> at_opt m pos;
        put pos (a + intervalSize, if level \<noteq> lg then c + 1 else c) m
      })"

definition consume_bins :: "nat \<Rightarrow> nat \<Rightarrow> (nat \<times> nat) list \<Rightarrow> nat \<Rightarrow> matrix \<Rightarrow> matrix option" where
  "consume_bins lg level row index matrix =
     do {
       currNumBins \<leftarrow> ComputeLog (2 ^ (index + 1)) False;
       if level mod currNumBins = 0 then do {
         m \<leftarrow> at_opt matrix index;
         m \<leftarrow> fold_opt (consume_interval lg level) row m;
         put index m matrix
       }
       else Some matrix
     }"

definition consume_level :: "nat \<Rightarrow> nat \<Rightarrow> nat \<Rightarrow> nat list \<Rightarrow> nat \<Rightarrow> nat list \<times> (nat \<times> nat) list \<times> matrix
    \<Rightarrow> (nat list \<times> (nat \<times> nat) list \<times> matrix) option" where
  "consume_level capacity numPossibleBins lg lcp level s =
     do {
       let (rest, row, matrix) = s;
       (rest, row) \<leftarrow> fold_opt (AnalyzeInterval capacity level lcp) row (rest, []);
       matrix \<leftarrow> fold_opt (consume_bins lg level row) [0..<numPossibleBins] matrix;
       Some (rest, row, matrix)
     }"

subsection \<open>The costs of the trees\<close>

definition UpdateWith :: "bool \<Rightarrow> nat \<Rightarrow> nat \<Rightarrow> (nat \<times> nat) list \<Rightarrow> nat \<Rightarrow> Statistics list \<Rightarrow> Statistics list option" where
  "UpdateWith is_linear n numBins m delta statistics =
     do {
       searchTime \<leftarrow> (if is_linear then Some ((delta + 1) div 2) else ComputeLog delta True);
       (a, c) \<leftarrow> at_opt m delta;
       if n = 0 then None
       else Some (statistics @ [\<lparr>st_numBins = numBins, st_treeMaxError = delta,
              st_cost = double_round (double_round (nat_double a / nat_double n) + nat_double searchTime), st_space = (1 + c) * numBins * 4\<rparr>])
     }"

definition prefix_step :: "bool \<Rightarrow> nat \<Rightarrow> nat \<Rightarrow> nat \<Rightarrow> (nat \<times> nat) list \<times> Statistics list
    \<Rightarrow> ((nat \<times> nat) list \<times> Statistics list) option" where
  "prefix_step is_linear n numBins delta s =
     do {
       let (m, statistics) = s;
       (a, c) \<leftarrow> at_opt m delta;
       (a', c') \<leftarrow> at_opt m (delta - 1);
       m \<leftarrow> put (delta - 1) (a' + a, c' + c) m;
       statistics \<leftarrow> UpdateWith is_linear n numBins m (delta - 1) statistics;
       Some (m, statistics)
     }"

definition prefix_sums :: "bool \<Rightarrow> nat \<Rightarrow> matrix \<Rightarrow> nat \<Rightarrow> Statistics list \<Rightarrow> Statistics list option" where
  "prefix_sums is_linear n matrix index statistics =
     do {
       m \<leftarrow> at_opt matrix index;
       statistics \<leftarrow> UpdateWith is_linear n (2 ^ (index + 1)) m maxPossibleTreeError statistics;
       (m, statistics) \<leftarrow> fold_opt (prefix_step is_linear n (2 ^ (index + 1))) (rev [2..<maxPossibleTreeError + 1]) (m, statistics);
       Some statistics
     }"

definition ComputeCHTStatistics :: "bool \<Rightarrow> 'w::len word ts_builder \<Rightarrow> Statistics list \<Rightarrow> Statistics list option" where
  "ComputeCHTStatistics is_linear b statistics =
     do {
       let points = tb_spline_points b;
       let n = length points;
       lg \<leftarrow> ComputeLog (unat (tb_max_key b - tb_min_key b)) True;
       let alreadyCommon = usub (LENGTH('w)) lg;
       lcp \<leftarrow> put 0 UINT_MAX (replicate n 0);
       (lcp, counters) \<leftarrow> fold_opt (lcp_step (tb_min_key b) points alreadyCommon) [1..<n] (lcp, replicate (1 + lg) 0);
       offsets \<leftarrow> fold_opt (offset_step counters) [1..<lg + 1] (replicate (1 + lg) 0);
       (offsets, srt) \<leftarrow> fold_opt (sort_step lcp) [1..<n] (offsets, replicate (n - 1) 0);
       let numPossibleBins = min maxNumPossibleBins lg;
       let matrix = replicate numPossibleBins (replicate (1 + maxPossibleTreeError) (0, 0));
       row \<leftarrow> AddNewInterval n (1, n) [];
       (rest, row, matrix) \<leftarrow> fold_opt (consume_level n numPossibleBins lg lcp) [1..<lg + 1] (srt, row, matrix);
       fold_opt (prefix_sums is_linear n matrix) [0..<numPossibleBins] statistics
     }"

definition ComputeStatistics :: "bool \<Rightarrow> 'w::len word ts_builder \<Rightarrow> Statistics list option" where
  "ComputeStatistics is_linear b =
     do {
       statistics \<leftarrow> ComputeRadixTableStatistics b [];
       ComputeCHTStatistics is_linear b statistics
     }"

subsection \<open>The choice\<close>

definition better :: "nat \<Rightarrow> Statistics \<Rightarrow> Statistics \<Rightarrow> Statistics" where
  "better space_limit elem best =
     (if st_space elem > space_limit then best
      else if st_cost elem < st_cost best \<or>
        \<bar>double_round (st_cost elem - st_cost best)\<bar> < precision \<and> st_space elem < st_space best
      then elem else best)"

text \<open>A point of the spline takes 16 bytes.\<close>

definition InferTuning :: "'k ts_builder \<Rightarrow> Statistics list \<Rightarrow> Statistics option" where
  "InferTuning b statistics =
     (case statistics of
        [] \<Rightarrow> None
      | s # ss \<Rightarrow> Some (fold (better (length (tb_spline_points b) * 16)) ss s))"

text \<open>The tuning of \<^verbatim>\<open>Finalize\<close>; \<open>is_linear\<close> says whether the search class is the linear search.\<close>

definition ts_tuning :: "bool \<Rightarrow> 'w::len word ts_builder \<Rightarrow> (nat \<times> nat) option" where
  "ts_tuning is_linear b =
     do {
       statistics \<leftarrow> ComputeStatistics is_linear b;
       tuning \<leftarrow> InferTuning b statistics;
       Some (st_numBins tuning, st_treeMaxError tuning)
     }"

end
