(* ===== verification/Ts_Histogram.thy ===== *)
theory Ts_Histogram
  imports Ts_Tuning
begin

text \<open>
  The sorted prefixes and the histogram of \<^verbatim>\<open>ComputeCHTStatistics\<close>: the counting sort fills its array with the indices ordered by their prefixes, and
  every row of the histogram holds the maximal intervals of indices whose prefixes have at least the length of the level, so that no vector
  is left.
\<close>

subsection \<open>Loops that do not fail\<close>

lemma fold_opt_range:
  assumes "P a s" and "a \<le> b" and "\<And>i s. a \<le> i \<Longrightarrow> i < b \<Longrightarrow> P i s \<Longrightarrow> \<exists>s'. f i s = Some s' \<and> P (Suc i) s'"
  shows "\<exists>s'. fold_opt f [a..<b] s = Some s' \<and> P b s'"
  using assms
proof (induction "b - a" arbitrary: a s)
  case 0
  then show ?case by auto
next
  case (Suc d)
  then have "a < b" by simp
  then obtain s1 where s1: "f a s = Some s1" "P (Suc a) s1" using Suc.prems(1,3) by blast
  have "\<exists>s'. fold_opt f [Suc a..<b] s1 = Some s' \<and> P b s'"
    by (rule Suc.hyps(1)) (use Suc s1 \<open>a < b\<close> in auto)
  then show ?case using s1(1) \<open>a < b\<close> by (simp add: upt_conv_Cons)
qed

lemma fold_opt_total:
  assumes "P s" and "\<And>x s. x \<in> set xs \<Longrightarrow> P s \<Longrightarrow> \<exists>s'. f x s = Some s' \<and> P s'"
  shows "\<exists>s'. fold_opt f xs s = Some s' \<and> P s'"
  using assms
proof (induction xs arbitrary: s)
  case (Cons x xs)
  then obtain s1 where "f x s = Some s1" "P s1" by (metis list.set_intros(1))
  then show ?case using Cons by simp
qed simp

subsection \<open>The counting sort\<close>

text \<open>The indices with one prefix, those of all prefixes from \<open>a\<close> on, and the place of an index in their order.\<close>

definition lcp_group :: "nat \<Rightarrow> (nat \<Rightarrow> nat) \<Rightarrow> nat \<Rightarrow> nat list" where
  "lcp_group n L v = filter (\<lambda>j. L j = v) [1..<n]"

definition lcp_groups :: "nat \<Rightarrow> (nat \<Rightarrow> nat) \<Rightarrow> nat \<Rightarrow> nat \<Rightarrow> nat list" where
  "lcp_groups n L a b = concat (map (lcp_group n L) [a..<b])"

definition place :: "nat \<Rightarrow> (nat \<Rightarrow> nat) \<Rightarrow> nat \<Rightarrow> nat" where
  "place n L j = length (lcp_groups n L 0 (L j)) + length (lcp_group j L (L j))"

lemma groups_split: "a \<le> b \<Longrightarrow> b \<le> c \<Longrightarrow> lcp_groups n L a c = lcp_groups n L a b @ lcp_groups n L b c"
  using upt_add_eq_append [of a b "c - b"] by (simp add: lcp_groups_def)

lemma groups_Cons: "a < b \<Longrightarrow> lcp_groups n L a b = lcp_group n L a @ lcp_groups n L (Suc a) b"
  by (simp add: lcp_groups_def upt_conv_Cons)

lemma groups_Suc: "a \<le> b \<Longrightarrow> lcp_groups n L a (Suc b) = lcp_groups n L a b @ lcp_group n L b"
  by (simp add: lcp_groups_def)

lemma groups_empty [simp]: "lcp_groups n L a a = []"
  by (simp add: lcp_groups_def)

lemma set_groups: "set (lcp_groups n L a b) = {j. 1 \<le> j \<and> j < n \<and> a \<le> L j \<and> L j < b}"
  by (auto simp: lcp_groups_def lcp_group_def)

lemma lcp_group_at:
  assumes "1 \<le> j" and "j < n"
  shows "lcp_group n L (L j) = lcp_group j L (L j) @ j # filter (\<lambda>i. L i = L j) [Suc j..<n]"
proof -
  have "[1..<n] = [1..<j] @ [j..<n]" using upt_add_eq_append [of 1 j "n - j"] assms by simp
  also have "[j..<n] = j # [Suc j..<n]" using assms by (simp add: upt_conv_Cons)
  finally show ?thesis by (simp add: lcp_group_def)
qed

lemma distinct_groups: "distinct (lcp_groups n L a b)"
proof (induction b)
  case (Suc b)
  show ?case
  proof (cases "a \<le> b")
    case True
    have "set (lcp_groups n L a b) \<inter> set (lcp_group n L b) = {}" unfolding set_groups by (auto simp: lcp_group_def)
    then show ?thesis using Suc True by (simp add: groups_Suc lcp_group_def)
  qed (simp add: lcp_groups_def)
qed (simp add: lcp_groups_def)

lemma length_groups:
  assumes "\<And>j. 1 \<le> j \<Longrightarrow> j < n \<Longrightarrow> L j < K"
  shows "length (lcp_groups n L 0 K) = n - 1"
proof -
  have "set (lcp_groups n L 0 K) = {1..<n}" using assms unfolding set_groups by auto
  then show ?thesis using distinct_card [OF distinct_groups, of n L 0 K] by simp
qed

lemma place_nth:
  assumes "1 \<le> j" and "j < n" and "L j < K"
  shows "place n L j < length (lcp_groups n L 0 K)" and "lcp_groups n L 0 K ! place n L j = j"
proof -
  have "lcp_groups n L 0 K = lcp_groups n L 0 (L j) @ lcp_group n L (L j) @ lcp_groups n L (Suc (L j)) K"
    using groups_split [of 0 "L j" K n L] groups_Cons [of "L j" K n L] assms(3) by simp
  then have "lcp_groups n L 0 K = lcp_groups n L 0 (L j) @ lcp_group j L (L j) @ j # filter (\<lambda>i. L i = L j) [Suc j..<n] @ lcp_groups n L (Suc (L j)) K"
    using lcp_group_at [OF assms(1,2), of L] by simp
  then show "place n L j < length (lcp_groups n L 0 K)" "lcp_groups n L 0 K ! place n L j = j"
    by (simp_all add: place_def nth_append)
qed

lemma place_inj:
  assumes "\<And>j. 1 \<le> j \<Longrightarrow> j < n \<Longrightarrow> L j < K" and "1 \<le> i" "i < n" "1 \<le> j" "j < n" and "place n L i = place n L j"
  shows "i = j"
proof -
  have "lcp_groups n L 0 K ! place n L i = i" "lcp_groups n L 0 K ! place n L j = j"
    using assms(1) place_nth(2) [where n = n and L = L and K = K] assms(2-5) by simp_all
  then show ?thesis using assms(6) by metis
qed

text \<open>The three loops: counters, offsets, places.\<close>

lemma counters_loop:
  assumes n: "1 \<le> n" and L: "\<And>j. 1 \<le> j \<Longrightarrow> j < n \<Longrightarrow> L j < K"
    and step: "\<And>j. 1 \<le> j \<Longrightarrow> j < n \<Longrightarrow> ExtractLCP lo points c j = Some (L j)"
  shows "\<exists>lcp counters. fold_opt (lcp_step lo points c) [1..<n] (x # replicate (n - 1) 0, replicate (1 + K) 0) = Some (lcp, counters) \<and>
    length lcp = n \<and> (\<forall>j. 1 \<le> j \<and> j < n \<longrightarrow> lcp ! j = L j) \<and>
    length counters = 1 + K \<and> (\<forall>v\<le>K. counters ! v = length (lcp_group n L v))"
proof -
  let ?P = "\<lambda>i s. length (fst s) = n \<and> (\<forall>j. 1 \<le> j \<and> j < i \<longrightarrow> fst s ! j = L j) \<and>
    length (snd s) = 1 + K \<and> (\<forall>v\<le>K. snd s ! v = length (lcp_group i L v))"
  have "\<exists>s'. fold_opt (lcp_step lo points c) [1..<n] (x # replicate (n - 1) 0, replicate (1 + K) 0) = Some s' \<and> ?P n s'"
  proof (rule fold_opt_range [where P = ?P])
    show "?P 1 (x # replicate (n - 1) 0, replicate (1 + K) 0)" using n by (auto simp: lcp_group_def nth_append simp del: replicate.simps)
  next
    fix i s assume i: "1 \<le> i" "i < n" and P: "?P i s"
    obtain lcp cs where s: "s = (lcp, cs)" by (cases s)
    have "lcp_group (Suc i) L v = (if L i = v then lcp_group i L v @ [i] else lcp_group i L v)" for v using i by (simp add: lcp_group_def)
    then show "\<exists>s'. lcp_step lo points c i s = Some s' \<and> ?P (Suc i) s'"
      using P i L [OF i] step [OF i] by (auto simp: s lcp_step_def put_def at_opt_def nth_list_update less_Suc_eq)
  qed (rule n)
  then show ?thesis by auto
qed

lemma offsets_loop:
  assumes "length counters = 1 + K" and "\<forall>v\<le>K. counters ! v = length (lcp_group n L v)"
  shows "\<exists>offsets. fold_opt (offset_step counters) [1..<K + 1] (replicate (1 + K) 0) = Some offsets \<and>
    length offsets = 1 + K \<and> (\<forall>v\<le>K. offsets ! v = length (lcp_groups n L 0 v))"
proof -
  let ?P = "\<lambda>i s. length s = 1 + K \<and> (\<forall>v<i. s ! v = length (lcp_groups n L 0 v))"
  have "\<exists>s'. fold_opt (offset_step counters) [1..<K + 1] (replicate (1 + K) 0) = Some s' \<and> ?P (K + 1) s'"
  proof (rule fold_opt_range [where P = ?P])
    fix i s assume i: "1 \<le> i" "i < K + 1" and P: "?P i s"
    then obtain h where h: "i = Suc h" by (cases i) auto
    have "lcp_groups n L 0 (Suc h) = lcp_groups n L 0 h @ lcp_group n L h" by (simp add: groups_Suc)
    then show "\<exists>s'. offset_step counters i s = Some s' \<and> ?P (Suc i) s'"
      using P i assms unfolding h by (auto simp: offset_step_def put_def at_opt_def nth_list_update less_Suc_eq)
  qed auto
  then show ?thesis by (auto simp: less_Suc_eq_le)
qed

lemma sort_loop:
  assumes n: "1 \<le> n" and L: "\<And>j. 1 \<le> j \<Longrightarrow> j < n \<Longrightarrow> L j < K"
    and lcp: "length lcp = n" "\<forall>j. 1 \<le> j \<and> j < n \<longrightarrow> lcp ! j = L j"
    and offsets: "length offsets = 1 + K" "\<forall>v\<le>K. offsets ! v = length (lcp_groups n L 0 v)"
  shows "\<exists>offsets'. fold_opt (sort_step lcp) [1..<n] (offsets, replicate (n - 1) 0) = Some (offsets', lcp_groups n L 0 K)"
proof -
  let ?G = "lcp_groups n L 0 K"
  have len: "length ?G = n - 1" by (rule length_groups [OF L])
  let ?P = "\<lambda>i s. length (fst s) = 1 + K \<and> (\<forall>v\<le>K. fst s ! v = length (lcp_groups n L 0 v) + length (lcp_group i L v)) \<and>
    length (snd s) = n - 1 \<and> (\<forall>j. 1 \<le> j \<and> j < i \<longrightarrow> snd s ! place n L j = j)"
  have "\<exists>s'. fold_opt (sort_step lcp) [1..<n] (offsets, replicate (n - 1) 0) = Some s' \<and> ?P n s'"
  proof (rule fold_opt_range [where P = ?P])
    show "?P 1 (offsets, replicate (n - 1) 0)" using offsets by (auto simp: lcp_group_def)
  next
    fix i s assume i: "1 \<le> i" "i < n" and P: "?P i s"
    obtain os srt where s: "s = (os, srt)" by (cases s)
    have p: "place n L i < n - 1" using place_nth(1) [where L = L, OF i L [OF i]] len by simp
    have o: "os ! L i = place n L i" "length os = 1 + K" using P L [OF i] by (simp_all add: s place_def)
    have g: "lcp_group (Suc i) L v = (if L i = v then lcp_group i L v @ [i] else lcp_group i L v)" for v using i by (simp add: lcp_group_def)
    have st: "sort_step lcp i s = Some (os[L i := place n L i + 1], srt[place n L i := i])"
      using lcp i L [OF i] o p P by (simp add: s sort_step_def at_opt_def put_def)
    have "srt[place n L i := i] ! place n L j = j" if j: "1 \<le> j" "j < Suc i" for j
    proof (cases "j = i")
      case False
      then have ne: "place n L j \<noteq> place n L i" using place_inj [OF L, where i = j and j = i] i j by auto
      show ?thesis using P j False ne by (simp add: s)
    qed (use p P in \<open>simp add: s\<close>)
    moreover have "os[L i := place n L i + 1] ! v = length (lcp_groups n L 0 v) + length (lcp_group (Suc i) L v)" if "v \<le> K" for v
      using P that o L [OF i] by (auto simp: s g nth_list_update place_def)
    ultimately show "\<exists>s'. sort_step lcp i s = Some s' \<and> ?P (Suc i) s'"
      using P o unfolding s by (intro exI [of _ "(os[L i := place n L i + 1], srt[place n L i := i])"]) (simp add: st [unfolded s])
  qed (rule n)
  then obtain os srt where run: "fold_opt (sort_step lcp) [1..<n] (offsets, replicate (n - 1) 0) = Some (os, srt)"
    and srt: "length srt = n - 1" "\<And>j. 1 \<le> j \<Longrightarrow> j < n \<Longrightarrow> srt ! place n L j = j" by auto
  have "srt = ?G"
  proof (rule nth_equalityI)
    fix q assume q: "q < length srt"
    then have "?G ! q \<in> set ?G" using len srt(1) by simp
    then have j: "1 \<le> ?G ! q" "?G ! q < n" unfolding set_groups by simp_all
    have "place n L (?G ! q) < length ?G" "?G ! place n L (?G ! q) = ?G ! q" using place_nth [where L = L, OF j L [OF j]] by simp_all
    then have "place n L (?G ! q) = q" using distinct_groups [of n L 0 K] q len srt(1) by (simp add: nth_eq_iff_index_eq)
    then show "srt ! q = ?G ! q" using srt(2) [OF j] by simp
  qed (simp add: srt len)
  then show ?thesis using run by blast
qed

subsection \<open>The histogram\<close>

text \<open>An interval is cut at the indices of a list; empty pieces are left out.\<close>

fun cut_at :: "nat \<Rightarrow> nat \<Rightarrow> nat list \<Rightarrow> (nat \<times> nat) list" where
  "cut_at a b [] = (if a = b then [] else [(a, b)])"
| "cut_at a b (q # qs) = (if a = q then [] else [(a, q)]) @ cut_at (q + 1) b qs"

text \<open>Intervals in increasing order, none empty, with an index between any two of them.\<close>

fun apart :: "nat \<Rightarrow> nat \<Rightarrow> (nat \<times> nat) list \<Rightarrow> bool" where
  "apart lo n [] \<longleftrightarrow> True"
| "apart lo n ((a, b) # ivs) \<longleftrightarrow> lo \<le> a \<and> a < b \<and> b \<le> n \<and> apart (b + 1) n ivs"

definition covered :: "(nat \<times> nat) list \<Rightarrow> nat set" where
  "covered ivs = (\<Union>(a, b)\<in>set ivs. {a..<b})"

lemma covered_simps [simp]: "covered [] = {}" "covered ((a, b) # ivs) = {a..<b} \<union> covered ivs" "covered (ivs @ jvs) = covered ivs \<union> covered jvs"
  by (auto simp: covered_def)

lemma apart_mono: "apart lo n ivs \<Longrightarrow> lo' \<le> lo \<Longrightarrow> apart lo' n ivs"
  by (cases ivs) auto

lemma apart_length: "apart lo n ivs \<Longrightarrow> ivs \<noteq> [] \<Longrightarrow> lo + length ivs \<le> n"
proof (induction lo n ivs rule: apart.induct)
  case (2 lo n a b ivs)
  then show ?case by (cases ivs) auto
qed simp

lemma apart_covered: "apart lo n ivs \<Longrightarrow> covered ivs \<subseteq> {lo..<n}"
  by (induction lo n ivs rule: apart.induct) force+

lemma apart_append:
  assumes "apart lo b ivs" and "apart (b + 1) n jvs" and "b \<le> n" and "lo \<le> b + 1"
  shows "apart lo n (ivs @ jvs)"
  using assms
proof (induction lo b ivs rule: apart.induct)
  case (1 lo b)
  then show ?case using apart_mono by simp
qed auto

lemma sorted_split: "sorted_wrt (<) qs \<Longrightarrow> filter (\<lambda>j. j < b) qs @ filter (\<lambda>j. b \<le> j) qs = (qs :: nat list)"
proof (induction qs)
  case (Cons x qs)
  show ?case
  proof (cases "x < b")
    case False
    then have "filter (\<lambda>j. j < b) qs = []" "filter (\<lambda>j. b \<le> j) qs = qs" 
      using Cons.prems by (auto simp: filter_empty_conv filter_id_conv)
    then show ?thesis using False by simp
  qed (use Cons in simp)
qed simp

lemma apart_cut:
  assumes "sorted_wrt (<) qs" and "\<forall>q\<in>set qs. a \<le> q \<and> q < b" and "a \<le> b"
  shows "apart a b (cut_at a b qs) \<and> covered (cut_at a b qs) = {a..<b} - set qs"
  using assms
proof (induction qs arbitrary: a)
  case (Cons q qs)
  have q: "a \<le> q" "q < b" "q + 1 \<le> b" and rest: "\<forall>r\<in>set qs. q + 1 \<le> r \<and> r < b" "sorted_wrt (<) qs" using Cons.prems by auto
  have IH: "apart (q + 1) b (cut_at (q + 1) b qs)" "covered (cut_at (q + 1) b qs) = {q + 1..<b} - set qs" using Cons.IH [OF rest(2,1) q(3)] by simp_all
  have "apart a b (cut_at a b (q # qs))" using IH(1) q by (auto intro: apart_mono)
  moreover have "covered (cut_at a b (q # qs)) = {a..<b} - set (q # qs)" using IH(2) q rest(1) by force
  ultimately show ?case ..
qed auto

text \<open>The loop of \<^verbatim>\<open>AnalyzeInterval\<close> takes the indices that cut the interval from the sorted ones.\<close>

lemma break_interval_cut:
  assumes "\<forall>q\<in>set qs. a \<le> q \<and> q < b \<and> q < length lcp \<and> lcp ! q < level" and "sorted_wrt (<) qs" and "a0 \<le> a"
    and "case others of [] \<Rightarrow> True | m # _ \<Rightarrow> m < length lcp \<and> (level \<le> lcp ! m \<or> b \<le> m)"
    and "length row + length (cut_at a b qs) \<le> capacity"
  shows "\<exists>left row'. break_interval capacity level lcp (a0, b) a (qs @ others) row = Some (left, others, row') \<and>
    AddNewInterval capacity (left, b) row' = Some (row @ cut_at a b qs)"
  using assms
proof (induction qs arbitrary: a row)
  case Nil
  then have "AddNewInterval capacity (a, b) row = Some (row @ cut_at a b [])"
    by (auto simp: AddNewInterval_def split: if_splits)
  moreover have "break_interval capacity level lcp (a0, b) a ([] @ others) row = Some (a, others, row)"
    using Nil.prems(4) by (cases others) (auto simp: at_opt_def)
  ultimately show ?case by blast
next
  case (Cons q qs)
  have add: "AddNewInterval capacity (a, q) row = Some (row @ (if a = q then [] else [(a, q)]))"
    using Cons.prems(5) by (auto simp: AddNewInterval_def split: if_splits)
  have "\<exists>left row'. break_interval capacity level lcp (a0, b) (q + 1) (qs @ others) (row @ (if a = q then [] else [(a, q)])) = Some (left, others, row') \<and>
      AddNewInterval capacity (left, b) row' = Some ((row @ (if a = q then [] else [(a, q)])) @ cut_at (q + 1) b qs)"
    by (rule Cons.IH) (use Cons.prems in auto)
  then show ?case using Cons.prems(1,3) add by (simp add: at_opt_def)
qed

text \<open>A whole row: the indices of one prefix cut the intervals they lie in.\<close>

definition next_row :: "nat list \<Rightarrow> (nat \<times> nat) list \<Rightarrow> (nat \<times> nat) list" where
  "next_row qs row = concat (map (\<lambda>(a, b). cut_at a b (filter (\<lambda>j. a \<le> j \<and> j < b) qs)) row)"

lemma next_row_apart:
  assumes "apart lo n row" and "sorted_wrt (<) qs"
  shows "apart lo n (next_row qs row) \<and> covered (next_row qs row) = covered row - set qs"
  using assms(1)
proof (induction lo n row rule: apart.induct)
  case (2 lo n a b ivs)
  let ?qs = "filter (\<lambda>j. a \<le> j \<and> j < b) qs"
  have ab: "lo \<le> a" "a < b" "b \<le> n" "apart (b + 1) n ivs" using 2 by simp_all
  have "apart a b (cut_at a b ?qs) \<and> covered (cut_at a b ?qs) = {a..<b} - set ?qs"
  proof (rule apart_cut)
    show "sorted_wrt (<) ?qs" by (rule sorted_wrt_filter [OF assms(2)])
  qed (use ab in auto)
  then have c: "apart a b (cut_at a b ?qs)" "covered (cut_at a b ?qs) = {a..<b} - set ?qs" by blast+
  have IH: "apart (b + 1) n (next_row qs ivs)" "covered (next_row qs ivs) = covered ivs - set qs"
    using "2.IH" ab(4) by blast+
  have e: "next_row qs ((a, b) # ivs) = cut_at a b ?qs @ next_row qs ivs" by (simp add: next_row_def)
  have "apart a n (next_row qs ((a, b) # ivs))" unfolding e by (rule apart_append [OF c(1) IH(1) ab(3)]) (use ab in simp)
  moreover have "covered (next_row qs ((a, b) # ivs)) = covered ((a, b) # ivs) - set qs" unfolding e using c(2) IH(2) by auto
  ultimately show ?case using apart_mono [OF _ ab(1)] by blast
qed (simp add: next_row_def)

lemma analyze_row:
  assumes row: "apart lo n row" and qs: "sorted_wrt (<) qs" "set qs \<subseteq> covered row"
    and lcp: "\<forall>q\<in>set qs. q < length lcp \<and> lcp ! q < level" "\<forall>q\<in>set others. q < length lcp \<and> level \<le> lcp ! q"
    and ne: "\<forall>j\<in>covered row. j \<in> set qs \<or> j \<in> set others"
    and cap: "length acc + length (next_row qs row) \<le> capacity"
  shows "fold_opt (AnalyzeInterval capacity level lcp) row (qs @ others, acc) = Some (others, acc @ next_row qs row)"
  using assms
proof (induction lo n row arbitrary: qs acc rule: apart.induct)
  case (2 lo n a b ivs)
  let ?qs = "filter (\<lambda>j. a \<le> j \<and> j < b) qs" and ?rs = "filter (\<lambda>j. b \<le> j) qs"
  have ab: "a < b" "apart (b + 1) n ivs" using "2.prems"(1) by simp_all
  have later: "covered ivs \<subseteq> {b + 1..<n}" by (rule apart_covered [OF ab(2)])
  have split: "qs = ?qs @ ?rs"
  proof -
    have all: "\<forall>j\<in>set qs. a \<le> j" using "2.prems"(3) later ab(1) by fastforce
    have "filter (\<lambda>j. j < b) qs = ?qs" using all by (auto intro: filter_cong)
    then show ?thesis using sorted_split [OF "2.prems"(2), of b] by simp
  qed
  have e: "next_row qs ((a, b) # ivs) = cut_at a b ?qs @ next_row qs ivs" by (simp add: next_row_def)
  have n: "next_row qs ivs = next_row ?rs ivs"
    unfolding next_row_def
  proof (intro arg_cong [where f = concat] map_cong [OF refl])
    fix p assume p: "p \<in> set ivs"
    obtain c d where cd: "p = (c, d)" by (cases p)
    have "b \<le> j" if "c \<le> j" "j < d" for j
    proof -
      have "j \<in> covered ivs" using p that unfolding cd covered_def by (intro UN_I [of "(c, d)"]) auto
      then show ?thesis using later by auto
    qed
    then have "filter (\<lambda>j. c \<le> j \<and> j < d) qs = filter (\<lambda>j. c \<le> j \<and> j < d) ?rs" by (auto intro!: filter_cong)
    then show "(case p of (a, b) \<Rightarrow> cut_at a b (filter (\<lambda>j. a \<le> j \<and> j < b) qs)) =
      (case p of (a, b) \<Rightarrow> cut_at a b (filter (\<lambda>j. a \<le> j \<and> j < b) ?rs))" by (simp add: cd)
  qed
  have "a \<in> covered ((a, b) # ivs)" using ab(1) by simp
  then have "qs @ others \<noteq> []" using "2.prems"(6) by auto
  then have nonempty: "?qs @ ?rs @ others \<noteq> []" using split by (metis append.assoc)
  have "\<exists>left row'. break_interval capacity level lcp (a, b) a (?qs @ ?rs @ others) acc = Some (left, ?rs @ others, row') \<and>
    AddNewInterval capacity (left, b) row' = Some (acc @ cut_at a b ?qs)"
  proof (rule break_interval_cut)
    show "case ?rs @ others of [] \<Rightarrow> True | m # _ \<Rightarrow> m < length lcp \<and> (level \<le> lcp ! m \<or> b \<le> m)"
    proof (cases "?rs @ others")
      case (Cons m ms)
      then have "m \<in> set ?rs \<or> m \<in> set others" by (metis Un_iff list.set_intros(1) set_append)
      then show ?thesis using "2.prems"(4,5) Cons by auto
    qed simp
  qed (use "2.prems" e in \<open>auto simp: sorted_wrt_filter\<close>)
  then have step: "AnalyzeInterval capacity level lcp (a, b) (qs @ others, acc) = Some (?rs @ others, acc @ cut_at a b ?qs)"
    using nonempty split by (auto simp: AnalyzeInterval_def Let_def simp flip: append_assoc)
  have "fold_opt (AnalyzeInterval capacity level lcp) ivs (?rs @ others, acc @ cut_at a b ?qs) =
      Some (others, (acc @ cut_at a b ?qs) @ next_row ?rs ivs)"
  proof (rule "2.IH" [OF ab(2)])
    show "set ?rs \<subseteq> covered ivs" using "2.prems"(3) by auto
    show "\<forall>j\<in>covered ivs. j \<in> set ?rs \<or> j \<in> set others" using "2.prems"(6) later by fastforce
  qed (use "2.prems" e n in \<open>auto simp: sorted_wrt_filter\<close>)
  then show ?case using step e n by simp
qed (auto simp: next_row_def)

text \<open>The rows of the histogram: on the level \<open>k\<close>, the indices whose prefix has at least \<open>k\<close> bits are covered.\<close>

definition matrix_ok :: "nat \<Rightarrow> matrix \<Rightarrow> bool" where
  "matrix_ok nb m \<longleftrightarrow> length m = nb \<and> (\<forall>r\<in>set m. length r = 1 + maxPossibleTreeError)"

lemma consume_interval_ok:
  assumes "fst interval < snd interval" and "length r = 1 + maxPossibleTreeError"
  shows "\<exists>r'. consume_interval lg level interval r = Some r' \<and> length r' = 1 + maxPossibleTreeError"
  using assms by (auto simp: consume_interval_def at_opt_def put_def Let_def split: prod.splits)

lemma apart_intervals: "apart lo n ivs \<Longrightarrow> \<forall>interval\<in>set ivs. fst interval < snd interval"
  by (induction lo n ivs rule: apart.induct) auto

lemma consume_bins_ok:
  assumes row: "apart lo n row" and m: "matrix_ok nb m" and i: "index < nb"
  shows "\<exists>m'. consume_bins lg level row index m = Some m' \<and> matrix_ok nb m'"
proof -
  obtain w where w: "ComputeLog (2 ^ (index + 1)) False = Some w" by (simp add: ComputeLog_def)
  have r: "length (m ! index) = 1 + maxPossibleTreeError" using m i by (simp add: matrix_ok_def)
  have "\<exists>r'. fold_opt (consume_interval lg level) row (m ! index) = Some r' \<and> length r' = 1 + maxPossibleTreeError"
    by (rule fold_opt_total [where P = "\<lambda>r. length r = 1 + maxPossibleTreeError"])
      (use r apart_intervals [OF row] consume_interval_ok in auto)
  then obtain r' where r': "fold_opt (consume_interval lg level) row (m ! index) = Some r'" "length r' = 1 + maxPossibleTreeError" by blast
  show ?thesis
  proof (cases "level mod w = 0")
    case True
    have "matrix_ok nb (m[index := r'])" using m r'(2) by (auto simp: matrix_ok_def dest: set_update_subset_insert [THEN subsetD])
    then show ?thesis using True w m r'(1) i unfolding consume_bins_def by (simp add: at_opt_def put_def matrix_ok_def)
  qed (use w m in \<open>simp add: consume_bins_def\<close>)
qed

lemma histogram_loop:
  assumes n: "2 \<le> n" and L: "\<And>j. 1 \<le> j \<Longrightarrow> j < n \<Longrightarrow> L j < lg"
    and lcp: "length lcp = n" "\<And>j. 1 \<le> j \<Longrightarrow> j < n \<Longrightarrow> lcp ! j = L j" and m: "matrix_ok nb m"
  shows "\<exists>row m'. fold_opt (consume_level n nb lg lcp) [1..<lg + 1] (lcp_groups n L 0 lg, [(1, n)], m) = Some ([], row, m') \<and> matrix_ok nb m'"
proof -
  let ?P = "\<lambda>level s. fst s = lcp_groups n L (level - 1) lg \<and> apart 1 n (fst (snd s)) \<and>
    covered (fst (snd s)) = {j. 1 \<le> j \<and> j < n \<and> level - 1 \<le> L j} \<and> matrix_ok nb (snd (snd s))"
  have "\<exists>s'. fold_opt (consume_level n nb lg lcp) [1..<lg + 1] (lcp_groups n L 0 lg, [(1, n)], m) = Some s' \<and> ?P (lg + 1) s'"
  proof (rule fold_opt_range [where P = ?P])
    show "?P 1 (lcp_groups n L 0 lg, [(1, n)], m)" using n m by auto
  next
    fix level s assume level: "1 \<le> level" "level < lg + 1" and P: "?P level s"
    obtain row m where s: "s = (lcp_groups n L (level - 1) lg, row, m)" using P by (cases s) auto
    have row: "apart 1 n row" "covered row = {j. 1 \<le> j \<and> j < n \<and> level - 1 \<le> L j}" and m: "matrix_ok nb m" using P by (simp_all add: s)
    let ?qs = "lcp_group n L (level - 1)" and ?others = "lcp_groups n L level lg"
    have rest: "lcp_groups n L (level - 1) lg = ?qs @ ?others" using groups_Cons [of "level - 1" lg n L] level by simp
    have qs: "sorted_wrt (<) ?qs" "set ?qs = {j. 1 \<le> j \<and> j < n \<and> L j = level - 1}"
      unfolding lcp_group_def by (auto intro: sorted_wrt_filter simp: sorted_wrt_upt)
    have row': "apart 1 n (next_row ?qs row)" "covered (next_row ?qs row) = covered row - set ?qs"
      using next_row_apart [OF row(1) qs(1)] by blast+
    have cap: "length [] + length (next_row ?qs row) \<le> n" using apart_length [OF row'(1)] by (cases "next_row ?qs row = []") auto
    have an: "fold_opt (AnalyzeInterval n level lcp) row (?qs @ ?others, []) = Some (?others, [] @ next_row ?qs row)"
    proof (rule analyze_row [OF row(1) qs(1) _ _ _ _ cap])
      show "set ?qs \<subseteq> covered row" unfolding qs(2) row(2) by auto
      show "\<forall>q\<in>set ?qs. q < length lcp \<and> lcp ! q < level" using qs(2) lcp level by auto
      show "\<forall>q\<in>set ?others. q < length lcp \<and> level \<le> lcp ! q" using lcp by (auto simp: set_groups)
      show "\<forall>j\<in>covered row. j \<in> set ?qs \<or> j \<in> set ?others"
        using L row(2) qs(2) level by (auto simp: set_groups)
    qed
    have "\<exists>m'. fold_opt (consume_bins lg level (next_row ?qs row)) [0..<nb] m = Some m' \<and> matrix_ok nb m'"
      by (rule fold_opt_total [where P = "matrix_ok nb"]) (use m consume_bins_ok [OF row'(1)] in auto)
    then obtain m' where m': "fold_opt (consume_bins lg level (next_row ?qs row)) [0..<nb] m = Some m'" "matrix_ok nb m'" by blast
    have run: "consume_level n nb lg lcp level s = Some (?others, next_row ?qs row, m')"
      using an m'(1) unfolding s consume_level_def rest by simp
    have "covered (next_row ?qs row) = {j. 1 \<le> j \<and> j < n \<and> Suc level - 1 \<le> L j}"
      unfolding row'(2) row(2) qs(2) using level(1) by force
    moreover have "?others = lcp_groups n L (Suc level - 1) lg" by simp
    ultimately have "?P (Suc level) (?others, next_row ?qs row, m')" using row'(1) m'(2) unfolding fst_conv snd_conv by (intro conjI)
    then show "\<exists>s'. consume_level n nb lg lcp level s = Some s' \<and> ?P (Suc level) s'" using run by blast
  qed simp
  then obtain s' where "fold_opt (consume_level n nb lg lcp) [1..<lg + 1] (lcp_groups n L 0 lg, [(1, n)], m) = Some s'" "?P (lg + 1) s'" by blast
  then show ?thesis by (intro exI [of _ "fst (snd s')"] exI [of _ "snd (snd s')"]) (cases s', simp del: upt_Suc)
qed

subsection \<open>The costs\<close>

lemma UpdateWith_ok:
  assumes "length m = 1 + maxPossibleTreeError" and "1 \<le> delta" and "delta \<le> maxPossibleTreeError" and "n \<noteq> 0"
  shows "\<exists>s. UpdateWith is_linear n bins m delta statistics = Some (statistics @ [s])"
  using assms by (auto simp: UpdateWith_def at_opt_def ComputeLog_def Let_def split: prod.splits)

lemma prefix_sums_ok:
  assumes m: "matrix_ok nb matrix" and "index < nb" and n: "n \<noteq> 0"
  shows "\<exists>ss. prefix_sums is_linear n matrix index statistics = Some (statistics @ ss)"
proof -
  let ?bins = "2 ^ (index + 1)" and ?m = "matrix ! index"
  have len: "length ?m = 1 + maxPossibleTreeError" using m assms(2) by (simp add: matrix_ok_def)
  obtain s where s: "UpdateWith is_linear n ?bins ?m maxPossibleTreeError statistics = Some (statistics @ [s])"
    using UpdateWith_ok [OF len _ _ n] by fastforce
  let ?P = "\<lambda>s :: (nat \<times> nat) list \<times> Statistics list. length (fst s) = 1 + maxPossibleTreeError \<and> (\<exists>ss. snd s = statistics @ ss)"
  have "\<exists>s'. fold_opt (prefix_step is_linear n ?bins) (rev [2..<maxPossibleTreeError + 1]) (?m, statistics @ [s]) = Some s' \<and> ?P s'"
  proof (rule fold_opt_total [where P = ?P])
    fix delta st assume "delta \<in> set (rev [2..<maxPossibleTreeError + 1])" and P: "?P st"
    then have delta: "2 \<le> delta" "delta \<le> maxPossibleTreeError" by (auto simp del: upt_rec_numeral)
    obtain m1 ss where st: "st = (m1, statistics @ ss)" "length m1 = 1 + maxPossibleTreeError" using P by (cases st) auto
    obtain a c a' c' where e: "m1 ! delta = (a, c)" "m1 ! (delta - 1) = (a', c')" by (meson surj_pair)
    let ?m1 = "m1[delta - 1 := (a' + a, c' + c)]"
    have "length ?m1 = 1 + maxPossibleTreeError" "1 \<le> delta - 1" "delta - 1 \<le> maxPossibleTreeError" using delta st(2) by simp_all
    from UpdateWith_ok [OF this n] obtain s1 where
      "UpdateWith is_linear n ?bins ?m1 (delta - 1) (statistics @ ss) = Some ((statistics @ ss) @ [s1])" by blast
    then show "\<exists>s'. prefix_step is_linear n ?bins delta st = Some s' \<and> ?P s'"
      using st(2) e delta by (simp add: st(1) prefix_step_def at_opt_def put_def)
  qed (use len in simp)
  then show ?thesis using s len m assms(2) by (auto simp: prefix_sums_def at_opt_def matrix_ok_def simp del: upt_rec_numeral)
qed

end
