(* ===== verification/Ts_Tuning_Total.thy ===== *)
theory Ts_Tuning_Total
  imports Ts_Histogram
begin

text \<open>
  The choice of the tuning succeeds for every spline whose range of keys is not a power of two: no vector is left, no logarithm of zero is
  taken, and no assertion fails.
\<close>

subsection \<open>Points\<close>

text \<open>What the builder provides: points with growing keys in the range, and with growing positions.\<close>

definition points_ok :: "'w::len word \<Rightarrow> 'w word \<Rightarrow> 'w word Coord list \<Rightarrow> bool" where
  "points_ok lo hi ps \<longleftrightarrow> 2 \<le> length ps \<and> sorted_wrt (\<lambda>p q. co_x p < co_x q \<and> co_y p < co_y q) ps \<and>
     (\<forall>p\<in>set ps. lo \<le> co_x p \<and> co_x p \<le> hi \<and> (\<exists>m. co_y p = of_nat m \<and> m \<le> 2 ^ 53))"

lemma points_okD:
  assumes "points_ok lo hi ps" and "i < length ps"
  shows "lo \<le> co_x (ps ! i)" and "co_x (ps ! i) \<le> hi" and "\<exists>m. co_y (ps ! i) = of_nat m \<and> m \<le> 2 ^ 53"
  using assms nth_mem by (auto simp: points_ok_def)

lemma points_ok_less:
  assumes "points_ok lo hi ps" and "i < j" and "j < length ps"
  shows "co_x (ps ! i) < co_x (ps ! j)" and "co_y (ps ! i) < co_y (ps ! j)"
  using assms by (auto simp: points_ok_def sorted_wrt_iff_nth_less)

subsection \<open>Radix tables\<close>

lemma nat_double_mono: "m \<le> n \<Longrightarrow> nat_double m \<le> nat_double n"
  unfolding nat_double_def by (rule double.rnd_mono) simp

lemma ComputeCost_pos: "1 \<le> v \<Longrightarrow> \<exists>c. ComputeCost v = Some c \<and> 1 \<le> c"
proof (cases "v = 1")
  case False
  assume "1 \<le> v"
  then have "\<not> nlen v \<le> 1" using False unfolding nlen_le_iff by simp
  then show ?thesis using \<open>1 \<le> v\<close> False by (auto simp: ComputeCost_def ComputeLog_def)
qed (simp add: ComputeCost_def)

text \<open>The cost of a radix table is never below the number of keys it covers, so that its average is at least one.\<close>

definition radix_ok :: "'w::len word Coord list \<Rightarrow> nat \<Rightarrow> RadixConfig \<Rightarrow> bool" where
  "radix_ok ps i r \<longleftrightarrow> rc_shiftBits r < LENGTH('w) \<and> rc_prevSplineIndex r \<le> i \<and> co_y (ps ! rc_prevSplineIndex r) - co_y (ps ! 0) \<le> rc_cost r"

lemma add_cost_ok:
  assumes ps: "points_ok lo hi ps" and r: "radix_ok ps i r" and i: "i < k" "k \<le> length ps"
    and j: "j < length ps" "rc_prevSplineIndex r \<le> j"
  shows "\<exists>c. add_cost ps (co_y (ps ! j)) k r = Some (r\<lparr>rc_cost := c\<rparr>) \<and> co_y (ps ! j) - co_y (ps ! 0) \<le> c"
proof -
  let ?p = "rc_prevSplineIndex r"
  have p: "?p < k" "?p < length ps" "0 < length ps" using r i by (auto simp: radix_ok_def)
  obtain m where m: "co_y (ps ! j) = of_nat m" "m \<le> 2 ^ 53" using points_okD(3) [OF ps j(1)] by blast
  obtain m' where m': "co_y (ps ! ?p) = of_nat m'" "m' \<le> 2 ^ 53" using points_okD(3) [OF ps p(2)] by blast
  obtain m0 where m0: "co_y (ps ! 0) = of_nat m0" using points_okD(3) [OF ps p(3)] by blast
  have le: "m' \<le> m" using points_ok_less(2) [OF ps, of ?p j] j m m' by (cases "?p = j") auto
  have le0: "m0 \<le> m'" using points_ok_less(2) [OF ps, of 0 ?p] p(2) m0 m' by (cases "?p = 0") auto
  have d: "co_y (ps ! j) - co_y (ps ! ?p) = of_nat (m - m')" using m(1) m'(1) le by simp
  have small: "m - m' \<le> 2 ^ 53" using m(2) by simp
  have keys: "double_to_size (double_round (co_y (ps ! j) - co_y (ps ! ?p))) = Some (m - m')"
    using double.rnd_nat [OF small] small unfolding d by (simp add: double_to_size_def)
  have "1 \<le> k - ?p" using p by simp
  then obtain c where c: "ComputeCost (k - ?p) = Some c" "1 \<le> c" using ComputeCost_pos by blast
  have "nat_double (m - m') = of_nat (m - m')" unfolding nat_double_def by (rule double.rnd_nat [OF small])
  moreover have "nat_double (m - m') \<le> nat_double ((m - m') * c)" using c(2) by (intro nat_double_mono) simp
  moreover have "of_nat m' - of_nat m0 \<le> rc_cost r" using r m' m0 by (simp add: radix_ok_def)
  ultimately have "of_nat (m - m0) \<le> rc_cost r + nat_double ((m - m') * c)" using le le0 by (simp add: of_nat_diff)
  then have "double_round (of_nat (m - m0)) \<le> double_round (rc_cost r + nat_double ((m - m') * c))" by (rule double.rnd_mono)
  moreover have "double_round (of_nat (m - m0)) = of_nat (m - m0)" using m(2) by (intro double.rnd_nat) simp
  ultimately have "co_y (ps ! j) - co_y (ps ! 0) \<le> double_round (rc_cost r + nat_double ((m - m') * c))"
    using m(1) m0 le le0 by (simp add: of_nat_diff)
  moreover have "add_cost ps (co_y (ps ! j)) k r = Some (r\<lparr>rc_cost := double_round (rc_cost r + nat_double ((m - m') * c))\<rparr>)"
    using p keys c(1) by (simp add: add_cost_def at_opt_def)
  ultimately show ?thesis by blast
qed

lemma radix_step_ok:
  assumes ps: "points_ok lo hi ps" and i: "i < length ps" "0 < i" and r: "radix < length rs" "radix_ok ps (i - 1) (rs ! radix)"
  shows "\<exists>r. radix_step lo ps i radix rs = Some (rs[radix := r]) \<and> radix_ok ps i r"
proof -
  let ?r = "rs ! radix"
  have "rc_prevSplineIndex ?r \<le> i" using r(2) unfolding radix_ok_def by linarith
  then obtain c where c: "add_cost ps (co_y (ps ! i)) i ?r = Some (?r\<lparr>rc_cost := c\<rparr>)" "co_y (ps ! i) - co_y (ps ! 0) \<le> c"
    using add_cost_ok [OF ps r(2) _ _ i(1), of i] i by auto
  obtain prefix where prefix: "shr (co_x (ps ! i) - lo) (rc_shiftBits ?r) = Some prefix" using r(2) by (simp add: shr_def radix_ok_def)
  show ?thesis
  proof (cases "prefix = rc_prevPrefix ?r")
    case True
    then show ?thesis using prefix r i by (intro exI [of _ ?r]) (auto simp: radix_step_def at_opt_def radix_ok_def)
  next
    case False
    then show ?thesis using prefix c r i by (auto simp: radix_step_def at_opt_def put_def radix_ok_def)
  qed
qed

lemma radix_statistics_ok:
  fixes b :: "'w::len word ts_builder"
  assumes ps: "points_ok (tb_min_key b) (tb_max_key b) (tb_spline_points b)" and r: "tb_min_key b \<noteq> tb_max_key b"
    and zero: "co_y (tb_spline_points b ! 0) = 0"
  shows "\<exists>ss. ComputeRadixTableStatistics b statistics = Some (statistics @ ss) \<and> length ss = maxNumRadixBits \<and> (\<forall>s\<in>set ss. 1 \<le> st_cost s)"
proof -
  let ?ps = "tb_spline_points b" and ?r = "unat (tb_max_key b - tb_min_key b)" and ?N = "maxNumRadixBits + 1"
  let ?z = "\<lparr>rc_shiftBits = 0, rc_prevPrefix = 0, rc_prevSplineIndex = 0, rc_cost = 0\<rparr>"
  have n: "2 \<le> length ?ps" using ps by (simp add: points_ok_def)
  have r0: "?r \<noteq> 0" using r by (auto simp: unat_eq_0)
  have shift: "\<exists>h. GetNumShiftBits ?r k = Some h \<and> h < LENGTH('w)" if "1 \<le> k" for k
  proof -
    have "nlen ?r \<le> LENGTH('w)" unfolding nlen_le_iff by (rule unsigned_less)
    then show ?thesis using r0 that len_gt_0 [where 'a = 'w] by (auto simp: GetNumShiftBits_def simp del: len_gt_0)
  qed
  let ?I = "\<lambda>k rs. length rs = ?N \<and> (\<forall>j. 1 \<le> j \<and> j < k \<longrightarrow> radix_ok ?ps 0 (rs ! j))"
  have "\<exists>rs. fold_opt (radix_init ?r) [1..<?N] (replicate ?N ?z) = Some rs \<and> ?I ?N rs"
  proof (rule fold_opt_range [where P = ?I])
    fix k rs assume k: "1 \<le> k" "k < ?N" and P: "?I k rs"
    obtain h where "GetNumShiftBits ?r k = Some h" "h < LENGTH('w)" using shift [OF k(1)] by blast
    then show "\<exists>rs'. radix_init ?r k rs = Some rs' \<and> ?I (Suc k) rs'"
      using P k by (auto simp: radix_init_def put_def radix_ok_def nth_list_update less_Suc_eq)
  qed auto
  then obtain rs0 where rs0: "fold_opt (radix_init ?r) [1..<?N] (replicate ?N ?z) = Some rs0" "?I ?N rs0" by blast
  let ?J = "\<lambda>i rs. length rs = ?N \<and> (\<forall>j. 1 \<le> j \<and> j < ?N \<longrightarrow> radix_ok ?ps (i - 1) (rs ! j))"
  have "\<exists>rs. fold_opt (\<lambda>i. fold_opt (radix_step (tb_min_key b) ?ps i) [1..<?N]) [1..<length ?ps] rs0 = Some rs \<and> ?J (length ?ps) rs"
  proof (rule fold_opt_range [where P = ?J])
    show "?J 1 rs0" using rs0(2) by simp
  next
    fix i rs assume i: "1 \<le> i" "i < length ?ps" and P: "?J i rs"
    let ?Q = "\<lambda>k rs. length rs = ?N \<and> (\<forall>j. 1 \<le> j \<and> j < ?N \<longrightarrow> radix_ok ?ps (if j < k then i else i - 1) (rs ! j))"
    have "\<exists>rs'. fold_opt (radix_step (tb_min_key b) ?ps i) [1..<?N] rs = Some rs' \<and> ?Q ?N rs'"
    proof (rule fold_opt_range [where P = ?Q])
      fix k rs assume k: "1 \<le> k" "k < ?N" and Q: "?Q k rs"
      have rk: "k < length rs" "radix_ok ?ps (i - 1) (rs ! k)" using Q k by auto
      obtain r where "radix_step (tb_min_key b) ?ps i k rs = Some (rs[k := r])" "radix_ok ?ps i r"
        using radix_step_ok [OF ps i(2) _ rk] i(1) by auto
      then show "\<exists>rs'. radix_step (tb_min_key b) ?ps i k rs = Some rs' \<and> ?Q (Suc k) rs'"
        using Q rk(1) by (auto simp: nth_list_update less_Suc_eq)
    qed (use P in auto)
    then show "\<exists>rs'. fold_opt (radix_step (tb_min_key b) ?ps i) [1..<?N] rs = Some rs' \<and> ?J (Suc i) rs'" by auto
  qed (use n in simp)
  then obtain rs where rs: "fold_opt (\<lambda>i. fold_opt (radix_step (tb_min_key b) ?ps i) [1..<?N]) [1..<length ?ps] rs0 = Some rs"
    "?J (length ?ps) rs" by blast
  let ?F = "\<lambda>k ss. \<exists>new. ss = statistics @ new \<and> length new = k - 1 \<and> (\<forall>s\<in>set new. 1 \<le> st_cost s)"
  have "\<exists>ss. fold_opt (radix_finish ?r ?ps rs) [1..<?N] statistics = Some ss \<and> ?F ?N ss"
  proof (rule fold_opt_range [where P = ?F])
    fix k ss assume k: "1 \<le> k" "k < ?N" and F: "?F k ss"
    let ?l = "length ?ps - 1"
    have l: "?l < length ?ps" using n by simp
    have rk: "k < length rs" "radix_ok ?ps ?l (rs ! k)" using rs(2) k by auto
    obtain c where c: "add_cost ?ps (co_y (?ps ! ?l)) (length ?ps) (rs ! k) = Some ((rs ! k)\<lparr>rc_cost := c\<rparr>)" "co_y (?ps ! ?l) \<le> c"
      using add_cost_ok [OF ps rk(2), of "length ?ps" ?l] l rk(2) zero by (auto simp: radix_ok_def)
    have pos: "0 < co_y (?ps ! ?l)" using points_ok_less(2) [OF ps, of 0 ?l] l n zero by simp
    then have "1 \<le> c / co_y (?ps ! ?l)" using c(2) by simp
    then have "double_round 1 \<le> double_round (c / co_y (?ps ! ?l))" by (rule double.rnd_mono)
    then have "1 \<le> double_round (c / co_y (?ps ! ?l))" by simp
    then show "\<exists>ss'. radix_finish ?r ?ps rs k ss = Some ss' \<and> ?F (Suc k) ss'"
      using F c(1) rk(1) l pos k(1) by (auto simp: radix_finish_def at_opt_def)
  qed auto
  then show ?thesis using rs0(1) rs(1) unfolding ComputeRadixTableStatistics_def Let_def by auto
qed

subsection \<open>Trees\<close>

lemma xor_below:
  assumes "x < 2 ^ k" and "y < (2 :: nat) ^ k"
  shows "x XOR y < 2 ^ k"
proof -
  have "take_bit k (x XOR y) = x XOR y" using assms by (simp add: take_bit_xor take_bit_nat_eq_self)
  then show ?thesis by (metis take_bit_nat_less_exp)
qed

lemma ExtractLCP_ok:
  fixes lo hi :: "'w::len word"
  assumes ps: "points_ok lo hi ps" and j: "1 \<le> j" "j < length ps" and w: "LENGTH('w) < 2 ^ 31" and lg: "lg = nlen (unat (hi - lo))"
  shows "\<exists>l<lg. ExtractLCP lo ps (usub (LENGTH('w)) lg) j = Some l"
proof -
  let ?W = "LENGTH('w)" let ?x = "co_x (ps ! j) - lo" and ?y = "co_x (ps ! (j - 1)) - lo"
  have j': "j - 1 < length ps" "j - 1 < j" using j by auto
  have below: "unat (k - lo) < 2 ^ lg" if "lo \<le> k" "k \<le> hi" for k
  proof -
    have "lo \<le> hi" using that by simp
    then have "unat (k - lo) \<le> unat (hi - lo)" using that by (simp add: unat_sub word_le_nat_alt diff_le_mono)
    also have "\<dots> < 2 ^ lg" using nlen_le_iff [of "unat (hi - lo)" lg] unfolding lg by simp
    finally show ?thesis .
  qed
  have x: "unat ?x < 2 ^ lg" and y: "unat ?y < 2 ^ lg" using below points_okD [OF ps j(2)] points_okD [OF ps j'(1)] by blast+
  have ne: "?x \<noteq> ?y" using points_ok_less(1) [OF ps j'(2) j(2)] by auto
  let ?m = "nlen (unat (?x XOR ?y))"
  have "unat (?x XOR ?y) = unat ?x XOR unat ?y" by (rule unsigned_xor_eq)
  then have m: "?m \<le> lg" unfolding nlen_le_iff using xor_below [OF x y] by simp
  have "?x XOR ?y \<noteq> 0" using ne by (metis xor.left_neutral xor.right_neutral xor.assoc xor_self_eq)
  then have "\<not> ?m \<le> 0" unfolding nlen_le_iff by (simp add: unat_eq_0)
  then have m0: "0 < ?m" by simp
  have W: "lg \<le> ?W" unfolding lg nlen_le_iff by (rule unsigned_less)
  have "usub ?W lg = ?W - lg" using W w by (simp add: usub_def of_nat_diff nat_diff_distrib)
  moreover have "usub (?W - ?m) (?W - lg) = lg - ?m"
  proof -
    have "int (?W - ?m) - int (?W - lg) = int (lg - ?m)" using m W by (simp add: of_nat_diff)
    moreover have "lg - ?m < 2 ^ 31" using W w by simp
    ultimately show ?thesis by (simp add: usub_def)
  qed
  ultimately have "ExtractLCP lo ps (usub ?W lg) j = Some (lg - ?m)"
    using j j'(1) ne by (simp add: ExtractLCP_def at_opt_def ComputeLcp_def)
  then show ?thesis using m m0 by auto
qed

lemma log_not_power:
  assumes "\<And>m. r \<noteq> 2 ^ m"
  shows "ComputeLog r True = (if r = 0 then None else Some (nlen r))"
proof (cases "r = 0")
  case False
  let ?m = "nlen r - 1"
  have "r < 2 ^ nlen r" using nlen_le_iff [of r "nlen r"] by simp
  moreover have n: "0 < nlen r" using False nlen_le_iff [of r 0] by simp
  ultimately have up: "r < 2 * 2 ^ ?m" by (metis Suc_diff_1 power_Suc)
  have "\<not> nlen r \<le> ?m" using n by simp
  then have "2 ^ ?m \<le> r" unfolding nlen_le_iff by simp
  then have low: "2 ^ ?m \<le> r - 1" using assms [of ?m] by linarith
  have "r div 2 ^ ?m = 1" "(r - 1) div 2 ^ ?m = 1" using up low \<open>2 ^ ?m \<le> r\<close> by (auto intro!: div_nat_eqI)
  then have "bit r ?m" "bit (r - 1) ?m" by (simp_all add: bit_iff_odd)
  then have "bit (r AND (r - 1)) ?m" by (simp add: bit_and_iff)
  then have "r AND (r - 1) \<noteq> 0" by (intro notI) simp
  then show ?thesis using False n by (simp add: ComputeLog_def)
qed (simp add: ComputeLog_def)

lemma cht_statistics_ok:
  fixes b :: "'w::len word ts_builder"
  assumes ps: "points_ok (tb_min_key b) (tb_max_key b) (tb_spline_points b)" and r: "tb_min_key b \<noteq> tb_max_key b"
    and np: "\<And>m. unat (tb_max_key b - tb_min_key b) \<noteq> 2 ^ m" and w: "LENGTH('w) < 2 ^ 31"
  shows "\<exists>ss. ComputeCHTStatistics is_linear b statistics = Some (statistics @ ss)"
proof -
  let ?ps = "tb_spline_points b" and ?lo = "tb_min_key b"
  let ?n = "length ?ps" and ?r = "unat (tb_max_key b - tb_min_key b)"
  let ?lg = "nlen ?r" let ?c = "usub (LENGTH('w)) ?lg"
  have n: "2 \<le> ?n" using ps by (simp add: points_ok_def)
  then have n: "2 \<le> ?n" "1 \<le> ?n" "?n \<noteq> 0" by linarith+
  have lg: "ComputeLog ?r True = Some ?lg" using log_not_power [OF np] r by (simp add: unat_eq_0)
  define L where "L j = the (ExtractLCP ?lo ?ps ?c j)" for j
  have L: "L j < ?lg" "ExtractLCP ?lo ?ps ?c j = Some (L j)" if "1 \<le> j" "j < ?n" for j
    using ExtractLCP_ok [OF ps that w refl] by (auto simp: L_def)
  have start: "put 0 UINT_MAX (replicate ?n 0) = Some (UINT_MAX # replicate (?n - 1) 0)"
    using n by (cases ?n) (simp_all add: put_def)
  obtain lcp counters where c: "fold_opt (lcp_step ?lo ?ps ?c) [1..<?n] (UINT_MAX # replicate (?n - 1) 0, replicate (1 + ?lg) 0) = Some (lcp, counters)"
    "length lcp = ?n" "\<forall>j. 1 \<le> j \<and> j < ?n \<longrightarrow> lcp ! j = L j" "length counters = 1 + ?lg" "\<forall>v\<le>?lg. counters ! v = length (lcp_group ?n L v)"
    using counters_loop [OF n(2) L, of UINT_MAX] by blast
  obtain offsets where o: "fold_opt (offset_step counters) [1..<?lg + 1] (replicate (1 + ?lg) 0) = Some offsets"
    "length offsets = 1 + ?lg" "\<forall>v\<le>?lg. offsets ! v = length (lcp_groups ?n L 0 v)"
    using offsets_loop [OF c(4,5)] by blast
  obtain offsets' where s: "fold_opt (sort_step lcp) [1..<?n] (offsets, replicate (?n - 1) 0) = Some (offsets', lcp_groups ?n L 0 ?lg)"
    using sort_loop [OF n(2) L(1) c(2,3) o(2,3)] by blast
  let ?nb = "min maxNumPossibleBins ?lg"
  let ?m = "replicate ?nb (replicate (1 + maxPossibleTreeError) (0 :: nat, 0 :: nat))"
  have m: "matrix_ok ?nb ?m" by (simp add: matrix_ok_def del: replicate.simps)
  have row: "AddNewInterval ?n (1, ?n) [] = Some [(1, ?n)]" using n by (auto simp: AddNewInterval_def)
  obtain row matrix where h: "fold_opt (consume_level ?n ?nb ?lg lcp) [1..<?lg + 1] (lcp_groups ?n L 0 ?lg, [(1, ?n)], ?m) = Some ([], row, matrix)"
    "matrix_ok ?nb matrix"
    using histogram_loop [where L = L, OF n(1) L(1) c(2) _ m] c(3) by blast
  have "\<exists>ss. fold_opt (prefix_sums is_linear ?n matrix) [0..<?nb] statistics = Some ss \<and> (\<exists>new. ss = statistics @ new)"
    by (rule fold_opt_total [where P = "\<lambda>ss. \<exists>new. ss = statistics @ new"])
      (use prefix_sums_ok [OF h(2) _ n(3)] in fastforce)+
  then show ?thesis using lg start c(1) o(1) s row h(1) unfolding ComputeCHTStatistics_def Let_def by (auto simp del: upt_Suc replicate.simps)
qed

text \<open>The tuning is one of the candidates.\<close>

lemma tuning_ok:
  fixes b :: "'w::len word ts_builder"
  assumes ps: "points_ok (tb_min_key b) (tb_max_key b) (tb_spline_points b)" and r: "tb_min_key b \<noteq> tb_max_key b"
    and zero: "co_y (tb_spline_points b ! 0) = 0"
    and np: "\<And>m. unat (tb_max_key b - tb_min_key b) \<noteq> 2 ^ m" and w: "LENGTH('w) < 2 ^ 31"
  shows "\<exists>nb te. ts_tuning is_linear b = Some (nb, te)"
proof -
  obtain ss where ss: "ComputeRadixTableStatistics b [] = Some ss" "length ss = maxNumRadixBits"
    using radix_statistics_ok [OF ps r zero, of "[]"] by auto
  obtain ts where "ComputeCHTStatistics is_linear b ss = Some (ss @ ts)" using cht_statistics_ok [OF ps r np w] by blast
  moreover have "ss @ ts \<noteq> []" using ss(2) by (cases ss) auto
  ultimately show ?thesis using ss(1) by (auto simp: ts_tuning_def ComputeStatistics_def InferTuning_def split: list.splits)
qed

end
