(* ===== verification/Ts_Tuning_Choice.thy ===== *)
theory Ts_Tuning_Choice
  imports Ts_Tuning_Total
begin

text \<open>
  Evaluating the choice of the tuning for a few points: the intervals are short, so that all but the first entries of every row of the matrix
  stay zero. The chosen tree can be too fine: a node whose bins are the narrowest ones has a bin with more keys than the error, and
  splitting it shifts by a negative number of bits.
\<close>

subsection \<open>Short intervals\<close>

definition narrow :: "nat \<Rightarrow> (nat \<times> nat) list \<Rightarrow> bool" where
  "narrow w row \<longleftrightarrow> (\<forall>(a, b)\<in>set row. b - a < w)"

lemma narrow_simps [simp]: "narrow w []" "narrow w ((a, b) # row) \<longleftrightarrow> b - a < w \<and> narrow w row" "narrow w (row @ row') \<longleftrightarrow> narrow w row \<and> narrow w row'"
  by (auto simp: narrow_def)

lemma AddNewInterval_narrow: "AddNewInterval capacity (a, b) row = Some row' \<Longrightarrow> narrow w row \<Longrightarrow> b - a < w \<Longrightarrow> narrow w row'"
  by (auto simp: AddNewInterval_def split: if_splits)

lemma break_interval_narrow:
  assumes "break_interval capacity level lcp (a, b) left qs row = Some (left', rest, row')" and "narrow w row" and "a \<le> left" and "b - a < w"
  shows "narrow w row' \<and> a \<le> left'"
  using assms
proof (induction capacity level lcp "(a, b)" left qs row rule: break_interval.induct)
  case (2 capacity level lcp left q rest0 row)
  show ?case
  proof (cases "break_interval capacity level lcp (a, b) left (q # rest0) row = Some (left, q # rest0, row)")
    case True
    then show ?thesis using "2.prems" by auto
  next
    case False
    then obtain l row1 where l: "at_opt lcp q = Some l" "l < level" "a \<le> q" "q < b" "AddNewInterval capacity (left, q) row = Some row1"
      "break_interval capacity level lcp (a, b) (q + 1) rest0 row1 = Some (left', rest, row')"
      using "2.prems"(1) by (auto simp: bind_eq_Some_conv split: if_splits)
    have "narrow w row1" by (rule AddNewInterval_narrow [OF l(5)]) (use "2.prems" l in auto)
    then show ?thesis using "2.hyps" [OF l(1) _ l(5,6)] l "2.prems"(4) by auto
  qed
qed auto

lemma AnalyzeInterval_narrow:
  assumes "AnalyzeInterval capacity level lcp interval s = Some s'" and "narrow w (snd s)" and "snd interval - fst interval < w"
  shows "narrow w (snd s')"
proof (cases "fst s = []")
  case True
  then show ?thesis using assms by (cases s) (simp add: AnalyzeInterval_def)
next
  case False
  obtain a b rest row where s: "interval = (a, b)" "s = (rest, row)" by (cases interval, cases s)
  obtain left' rest' row1 row' where r: "break_interval capacity level lcp (a, b) a rest row = Some (left', rest', row1)"
    "AddNewInterval capacity (left', b) row1 = Some row'" "s' = (rest', row')"
    using assms(1) False by (auto simp: s AnalyzeInterval_def bind_eq_Some_conv)
  have "narrow w row1" "a \<le> left'" using break_interval_narrow [OF r(1)] assms s by auto
  then show ?thesis using AddNewInterval_narrow [OF r(2)] assms(3) s r(3) by auto
qed

lemma analyze_narrow:
  assumes "fold_opt (AnalyzeInterval capacity level lcp) row s = Some s'" and "narrow w row" and "narrow w (snd s)"
  shows "narrow w (snd s')"
  using assms
proof (induction row arbitrary: s)
  case (Cons interval row)
  obtain s1 where s1: "AnalyzeInterval capacity level lcp interval s = Some s1" "fold_opt (AnalyzeInterval capacity level lcp) row s1 = Some s'"
    using Cons.prems(1) by (auto simp: bind_eq_Some_conv)
  have "narrow w (snd s1)" by (rule AnalyzeInterval_narrow [OF s1(1)]) (use Cons.prems in \<open>auto simp: narrow_def\<close>)
  then show ?case using Cons.IH [OF s1(2)] Cons.prems(2) by (cases interval) auto
qed simp

text \<open>A row of the matrix is a short list, followed by zeros that nothing touches.\<close>

definition extend_rows :: "'a list \<Rightarrow> 'a list list \<Rightarrow> 'a list list" where
  "extend_rows z m = map (\<lambda>r. r @ z) m"

lemma at_opt_append: "i < length r \<Longrightarrow> at_opt (r @ z) i = at_opt r i"
  by (simp add: at_opt_def nth_append)

lemma put_append: "i < length r \<Longrightarrow> put i x (r @ z) = map_option (\<lambda>r. r @ z) (put i x r)"
  by (simp add: put_def list_update_append)

lemma put_length: "put i x xs = Some ys \<Longrightarrow> length ys = length xs"
  by (auto simp: put_def split: if_splits)

lemma consume_interval_append:
  assumes "snd interval - fst interval < length r" and "length r \<le> maxPossibleTreeError"
  shows "consume_interval lg level interval (r @ z) = map_option (\<lambda>r. r @ z) (consume_interval lg level interval r)"
proof (cases "fst interval < snd interval")
  case True
  have "min (snd interval - fst interval + 1 - 1) maxPossibleTreeError = snd interval - fst interval" using assms by simp
  then show ?thesis using True assms by (cases "at_opt r (snd interval - fst interval)") (auto simp: consume_interval_def Let_def at_opt_append put_append)
qed (simp add: consume_interval_def)

lemma consume_row_append:
  assumes "narrow (length r) row" and "length r \<le> maxPossibleTreeError"
  shows "fold_opt (consume_interval lg level) row (r @ z) = map_option (\<lambda>r. r @ z) (fold_opt (consume_interval lg level) row r)"
  using assms
proof (induction row arbitrary: r)
  case (Cons interval row)
  have n: "snd interval - fst interval < length r" "narrow (length r) row" using Cons.prems(1) by (auto simp: narrow_def)
  show ?case
  proof (cases "consume_interval lg level interval r")
    case (Some r1)
    then have "length r1 = length r" by (auto simp: consume_interval_def Let_def bind_eq_Some_conv put_length split: if_splits)
    then show ?thesis using consume_interval_append [OF n(1) Cons.prems(2)] Some Cons.IH [of r1] n Cons.prems(2) by simp
  qed (use consume_interval_append [OF n(1) Cons.prems(2)] in simp)
qed simp

lemma consume_bins_ext:
  assumes "narrow w row" and "w \<le> maxPossibleTreeError" and "\<forall>r\<in>set m. length r = w" and "index < length m"
  shows "consume_bins lg level row index (extend_rows z m) = map_option (extend_rows z) (consume_bins lg level row index m)"
proof -
  have r: "at_opt (extend_rows z m) index = Some (m ! index @ z)" "at_opt m index = Some (m ! index)" "length (m ! index) = w"
    using assms(3,4) by (simp_all add: at_opt_def extend_rows_def)
  have f: "fold_opt (consume_interval lg level) row (m ! index @ z) = map_option (\<lambda>r. r @ z) (fold_opt (consume_interval lg level) row (m ! index))"
    by (rule consume_row_append) (use assms r(3) in simp_all)
  show ?thesis
    using r(1,2) f assms(4)
    by (cases "fold_opt (consume_interval lg level) row (m ! index)")
      (auto simp: consume_bins_def put_def extend_rows_def map_update split: bind_split)
qed

lemma consume_bins_length:
  assumes "consume_bins lg level row index m = Some m'" and "\<forall>r\<in>set m. length r = w"
  shows "length m' = length m \<and> (\<forall>r\<in>set m'. length r = w)"
proof -
  have step: "consume_interval lg level interval r = Some r' \<Longrightarrow> length r' = length r" for interval r r'
    by (auto simp: consume_interval_def Let_def bind_eq_Some_conv put_length split: if_splits)
  have row: "fold_opt (consume_interval lg level) row r = Some r' \<Longrightarrow> length r' = length r" for r r'
    by (induction row arbitrary: r) (auto simp: bind_eq_Some_conv dest: step)
  show ?thesis
    using assms by (auto simp: consume_bins_def bind_eq_Some_conv at_opt_def put_def dest!: row
        dest: set_update_subset_insert [THEN subsetD] split: if_splits)
qed

lemma consume_all_ext:
  assumes "narrow w row" and "w \<le> maxPossibleTreeError" and "\<forall>r\<in>set m. length r = w" and "\<forall>i\<in>set is. i < length m"
  shows "fold_opt (consume_bins lg level row) is (extend_rows z m) = map_option (extend_rows z) (fold_opt (consume_bins lg level row) is m) \<and>
    (\<forall>m'. fold_opt (consume_bins lg level row) is m = Some m' \<longrightarrow> length m' = length m \<and> (\<forall>r\<in>set m'. length r = w))"
  using assms(3,4)
proof (induction "is" arbitrary: m)
  case (Cons i "is")
  have e: "consume_bins lg level row i (extend_rows z m) = map_option (extend_rows z) (consume_bins lg level row i m)"
    by (rule consume_bins_ext [OF assms(1,2)]) (use Cons.prems in simp_all)
  show ?case
  proof (cases "consume_bins lg level row i m")
    case (Some m1)
    note l = consume_bins_length [OF Some Cons.prems(1)]
    then have "\<forall>r\<in>set m1. length r = w" "\<forall>i\<in>set is. i < length m1" using Cons.prems(2) by simp_all
    from Cons.IH [OF this] show ?thesis using e Some l by simp
  qed (use e in simp)
qed simp

lemma levels_ext:
  assumes "fold_opt (consume_level n nb lg lcp) levels (rest, row, m) = Some (rest', row', m')"
    and "narrow w row" and "w \<le> maxPossibleTreeError" and "\<forall>r\<in>set m. length r = w" and "length m = nb"
  shows "fold_opt (consume_level n nb lg lcp) levels (rest, row, extend_rows z m) = Some (rest', row', extend_rows z m')"
  using assms
proof (induction levels arbitrary: rest row m)
  case (Cons level levels)
  obtain rest1 row1 m1 where a: "fold_opt (AnalyzeInterval n level lcp) row (rest, []) = Some (rest1, row1)"
    "fold_opt (consume_bins lg level row1) [0..<nb] m = Some m1"
    "fold_opt (consume_level n nb lg lcp) levels (rest1, row1, m1) = Some (rest', row', m')"
  proof -
    obtain s1 where s1: "consume_level n nb lg lcp level (rest, row, m) = Some s1" "fold_opt (consume_level n nb lg lcp) levels s1 = Some (rest', row', m')"
      using Cons.prems(1) by (auto simp: bind_eq_Some_conv)
    show thesis
    proof (cases s1)
      case (fields rest1 row1 m1)
      show thesis by (rule that [of rest1 row1 m1]) (use s1 in \<open>auto simp: fields consume_level_def bind_eq_Some_conv\<close>)
    qed
  qed
  have row1: "narrow w row1" using analyze_narrow [OF a(1) Cons.prems(2)] by simp
  have e: "fold_opt (consume_bins lg level row1) [0..<nb] (extend_rows z m) = Some (extend_rows z m1)" "length m1 = nb" "\<forall>r\<in>set m1. length r = w"
    using consume_all_ext [OF row1 Cons.prems(3,4), of "[0..<nb]" lg level z] a(2) Cons.prems(5) by auto
  show ?case using Cons.IH [OF a(3) row1 Cons.prems(3) e(3,2)] a(1) e(1) by (simp add: consume_level_def [of n nb lg lcp level])
qed simp

subsection \<open>The costs of large errors\<close>

text \<open>Where the matrix is zero, the cost is the time of the search inside a leaf.\<close>

definition zero_statistics :: "nat \<Rightarrow> nat \<Rightarrow> Statistics" where
  "zero_statistics bins delta = \<lparr>st_numBins = bins, st_treeMaxError = delta,
     st_cost = double_round (nat_double (the (ComputeLog delta True))), st_space = bins * 4\<rparr>"

lemma UpdateWith_zero:
  assumes "at_opt m delta = Some (0, 0)" and "1 \<le> delta" and "n \<noteq> 0"
  shows "UpdateWith False n bins m delta statistics = Some (statistics @ [zero_statistics bins delta])"
  using assms by (auto simp: UpdateWith_def zero_statistics_def ComputeLog_def nat_double_def)

lemma prefix_zero:
  assumes "\<forall>d. lo \<le> d \<and> d \<le> hi \<longrightarrow> d < length m \<and> m ! d = (0, 0)" and "1 \<le> lo" and "lo \<le> hi" and "n \<noteq> 0"
  shows "fold_opt (prefix_step False n bins) (rev [Suc lo..<Suc hi]) (m, statistics) =
    Some (m, statistics @ map (zero_statistics bins) (rev [lo..<hi]))"
  using assms(3,1)
proof (induction hi arbitrary: statistics rule: dec_induct)
  case (step hi)
  have m: "at_opt m (Suc hi) = Some (0, 0)" "at_opt m hi = Some (0, 0)" "m[hi := (0, 0)] = m"
    using step.prems step.hyps by (auto simp: at_opt_def list_update_same_conv)
  have "put hi (0, 0) m = Some m" using m(3) step by (simp add: put_def)
  moreover have "UpdateWith False n bins m hi statistics = Some (statistics @ [zero_statistics bins hi])"
    using m(2) step.hyps assms(2,4) by (intro UpdateWith_zero) auto
  ultimately have "prefix_step False n bins (Suc hi) (m, statistics) = Some (m, statistics @ [zero_statistics bins hi])"
    using m by (simp add: prefix_step_def)
  moreover have "fold_opt (prefix_step False n bins) (rev [Suc lo..<Suc hi]) (m, statistics @ [zero_statistics bins hi]) =
      Some (m, (statistics @ [zero_statistics bins hi]) @ map (zero_statistics bins) (rev [lo..<hi]))"
    by (rule step.IH) (use step.prems in auto)
  ultimately show ?case using step.hyps by (simp add: upt_Suc_append)
qed simp

text \<open>The small errors are computed on the short row.\<close>

lemma prefix_step_append:
  assumes "delta < length r" and "1 \<le> delta"
  shows "prefix_step False n bins delta (r @ z, ss) = map_option (\<lambda>(r, ss). (r @ z, ss)) (prefix_step False n bins delta (r, ss))"
proof -
  have d: "delta - 1 < length r" using assms by simp
  obtain a c where a: "at_opt r delta = Some (a, c)" using assms(1) by (cases "r ! delta") (simp add: at_opt_def)
  obtain a' c' where a': "at_opt r (delta - 1) = Some (a', c')" using d by (cases "r ! (delta - 1)") (simp add: at_opt_def)
  have "at_opt (r[delta - 1 := x] @ z) (delta - 1) = at_opt (r[delta - 1 := x]) (delta - 1)" for x using d by (intro at_opt_append) simp
  then show ?thesis using a a' d assms(1)
    by (simp add: prefix_step_def at_opt_append put_def list_update_append1 UpdateWith_def split: bind_split)
qed

lemma prefix_small_append:
  assumes "\<forall>delta\<in>set ds. 1 \<le> delta \<and> delta < length r"
  shows "fold_opt (prefix_step False n bins) ds (r @ z, ss) = map_option (\<lambda>(r, ss). (r @ z, ss)) (fold_opt (prefix_step False n bins) ds (r, ss))"
  using assms
proof (induction ds arbitrary: r ss)
  case (Cons delta ds)
  have e: "prefix_step False n bins delta (r @ z, ss) = map_option (\<lambda>(r, ss). (r @ z, ss)) (prefix_step False n bins delta (r, ss))"
    by (rule prefix_step_append) (use Cons.prems in auto)
  show ?case
  proof (cases "prefix_step False n bins delta (r, ss)")
    case (Some s1)
    obtain r1 ss1 where s1: "s1 = (r1, ss1)" by (cases s1)
    have "length r1 = length r" using Some by (auto simp: s1 prefix_step_def bind_eq_Some_conv put_length split: prod.splits)
    then show ?thesis using e Some s1 Cons.IH [of r1 ss1] Cons.prems by simp
  qed (use e in simp)
qed simp

text \<open>Statistics are only ever appended.\<close>

lemma UpdateWith_append: "UpdateWith is_linear n bins m delta ss = map_option ((@) ss) (UpdateWith is_linear n bins m delta [])"
  by (auto simp: UpdateWith_def Let_def split: bind_split prod.splits)

lemma prefix_step_ss:
  "prefix_step is_linear n bins delta (m, ss @ ts) = map_option (\<lambda>(m, us). (m, ss @ us)) (prefix_step is_linear n bins delta (m, ts))"
proof -
  have "UpdateWith is_linear n bins m' d (ss @ ts) = map_option ((@) ss) (UpdateWith is_linear n bins m' d ts)" for m' d
    using UpdateWith_append [of is_linear n bins m' d ts] UpdateWith_append [of is_linear n bins m' d "ss @ ts"]
    by (cases "UpdateWith is_linear n bins m' d []") simp_all
  then show ?thesis by (auto simp: prefix_step_def Let_def split: bind_split prod.splits)
qed

lemma prefix_fold_ss:
  "fold_opt (prefix_step is_linear n bins) ds (m, ss @ ts) = map_option (\<lambda>(m, us). (m, ss @ us)) (fold_opt (prefix_step is_linear n bins) ds (m, ts))"
proof (induction ds arbitrary: m ts)
  case (Cons d ds)
  show ?case
  proof (cases "prefix_step is_linear n bins d (m, ts)")
    case (Some s1)
    then show ?thesis using Cons.IH by (cases s1) (simp add: prefix_step_ss)
  qed (simp add: prefix_step_ss)
qed simp

lemma prefix_sums_short:
  assumes m: "at_opt matrix index = Some (r @ replicate (Suc maxPossibleTreeError - length r) (0, 0))"
    and r: "2 \<le> w" "length r = Suc w" "r ! w = (0, 0)" "w < maxPossibleTreeError" and n: "n \<noteq> 0"
    and small: "fold_opt (prefix_step False n (2 ^ (index + 1))) (rev [2..<Suc w]) (r, []) = Some (r', small)"
  shows "prefix_sums False n matrix index ss =
    Some (ss @ map (zero_statistics (2 ^ (index + 1))) (rev [w..<Suc maxPossibleTreeError]) @ small)"
proof -
  let ?bins = "2 ^ (index + 1)" and ?z = "replicate (Suc maxPossibleTreeError - length r) (0 :: nat, 0 :: nat)"
  let ?m = "r @ ?z" and ?E = maxPossibleTreeError and ?step = "prefix_step False n (2 ^ (index + 1))"
  have zeros: "\<forall>d. w \<le> d \<and> d \<le> ?E \<longrightarrow> d < length ?m \<and> ?m ! d = (0, 0)" using r by (auto simp: nth_append less_Suc_eq_le)
  then have "at_opt ?m ?E = Some (0, 0)" using r(4) by (simp add: at_opt_def)
  then have u: "UpdateWith False n ?bins ?m ?E ss = Some (ss @ [zero_statistics ?bins ?E])" using n by (intro UpdateWith_zero) simp_all
  have up: "rev [2..<?E + 1] = rev [Suc w..<Suc ?E] @ rev [2..<Suc w]"
    using upt_add_eq_append [of 2 "Suc w" "?E - w"] r(1,4) by (simp del: upt_rec_numeral upt_Suc)
  have f1: "fold_opt ?step (rev [Suc w..<Suc ?E]) (?m, ss @ [zero_statistics ?bins ?E]) =
      Some (?m, (ss @ [zero_statistics ?bins ?E]) @ map (zero_statistics ?bins) (rev [w..<?E]))"
    using zeros r n by (intro prefix_zero) simp_all
  have f2: "fold_opt ?step (rev [2..<Suc w]) (?m, ts @ []) = Some (r' @ ?z, ts @ small)" for ts
  proof -
    have "\<forall>delta\<in>set (rev [2..<Suc w]). 1 \<le> delta \<and> delta < length r" using r(2) by auto
    from prefix_small_append [OF this, of n ?bins ?z "[]"] show ?thesis unfolding prefix_fold_ss small by (simp del: upt_Suc)
  qed
  have app: "fold_opt f (xs @ ys) s = do { s \<leftarrow> fold_opt f xs s; fold_opt f ys s }" for f :: "nat \<Rightarrow> 's \<Rightarrow> 's option" and xs ys s
    by (induction xs arbitrary: s) simp_all
  have "[w..<Suc ?E] = [w..<?E] @ [?E]" by (rule upt_Suc_append) (use r(4) in simp)
  then have "rev [w..<Suc ?E] = ?E # rev [w..<?E]" by (simp only: rev_append rev.simps append.simps)
  moreover have "fold_opt ?step (rev [2..<?E + 1]) (?m, ss @ [zero_statistics ?bins ?E]) =
      Some (r' @ ?z, (ss @ [zero_statistics ?bins ?E]) @ map (zero_statistics ?bins) (rev [w..<?E]) @ small)"
    unfolding up app f1 using f2 [of "(ss @ [zero_statistics ?bins ?E]) @ map (zero_statistics ?bins) (rev [w..<?E])"]
    by (simp del: upt_rec_numeral upt_Suc rev_append)
  then have "prefix_sums False n matrix index ss =
      Some ((ss @ [zero_statistics ?bins ?E]) @ map (zero_statistics ?bins) (rev [w..<?E]) @ small)"
    unfolding prefix_sums_def m using u by (simp del: upt_rec_numeral upt_Suc)
  ultimately show ?thesis by (simp del: upt_rec_numeral upt_Suc)
qed

subsection \<open>The best candidate\<close>

lemma fold_better_choice:
  assumes us: "\<forall>s\<in>set (u # us). st_cost best < st_cost s" and space: "st_space best \<le> limit"
    and vs: "\<forall>s\<in>set vs. better limit s best = best"
  shows "fold (better limit) (us @ best # vs) u = best"
proof -
  have tail: "fold (better limit) vs best = best" using vs by (induction vs) simp_all
  have mem: "fold (better limit) xs u \<in> set (u # xs)" for u xs
    by (induction xs arbitrary: u) (auto simp: better_def)
  let ?c = "fold (better limit) us u"
  have "st_cost best < st_cost ?c" using us mem [of us u] by blast
  then have "better limit best ?c = best" using space by (simp add: better_def)
  then show ?thesis using tail by simp
qed

lemma zero_statistics_cost:
  assumes "4 \<le> delta"
  shows "2 \<le> st_cost (zero_statistics bins delta)"
proof -
  have "\<not> nlen delta \<le> 2" unfolding nlen_le_iff using assms by simp
  then obtain l where l: "ComputeLog delta True = Some l" "2 \<le> l" using assms by (auto simp: ComputeLog_def)
  have "nat_double 2 = 2" unfolding nat_double_def using double.rnd_nat [of 2] by simp
  then have "2 \<le> nat_double l" using nat_double_mono [OF l(2)] by simp
  then have "double_round (of_nat 2) \<le> double_round (nat_double l)" using double.rnd_mono by simp
  then have "2 \<le> double_round (nat_double l)" using double.rnd_nat [of 2] by simp
  then show ?thesis using l(1) by (simp add: zero_statistics_def)
qed

lemma zero_statistics_worse:
  assumes "4 \<le> delta" and "st_cost best \<le> 1"
  shows "better limit (zero_statistics bins delta) best = best"
proof -
  let ?z = "zero_statistics bins delta"
  have "1 \<le> st_cost ?z - st_cost best" using zero_statistics_cost [OF assms(1), of bins] assms(2) by linarith
  then have "double_round 1 \<le> double_round (st_cost ?z - st_cost best)" by (rule double.rnd_mono)
  then have "\<not> \<bar>double_round (st_cost ?z - st_cost best)\<bar> < precision" by (simp add: precision_def)
  moreover have "\<not> st_cost ?z < st_cost best" using zero_statistics_cost [OF assms(1), of bins] assms(2) by linarith
  ultimately show ?thesis by (simp add: better_def)
qed

subsection \<open>Four points\<close>

text \<open>The spline of seven keys. Eight bins and the error 1 are cheapest, since only one interval is longer than the error.\<close>

definition fine_points :: "u64 Coord list" where
  "fine_points = [\<lparr>co_x = 0, co_y = 0\<rparr>, \<lparr>co_x = 18, co_y = 2\<rparr>, \<lparr>co_x = 19, co_y = 5\<rparr>, \<lparr>co_x = 31, co_y = 6\<rparr>]"

definition fine_matrix :: matrix where
  "fine_matrix = [[(0, 0), (6, 3), (3, 1), (0, 0), (0, 0)], [(0, 0), (4, 2), (0, 0), (0, 0), (0, 0)],
     [(0, 0), (2, 1), (0, 0), (0, 0), (0, 0)], [(0, 0), (2, 1), (0, 0), (0, 0), (0, 0)],
     [(0, 0), (0, 0), (0, 0), (0, 0), (0, 0)]]"

definition stat :: "nat \<Rightarrow> nat \<Rightarrow> rat \<Rightarrow> nat \<Rightarrow> Statistics" where
  "stat bins e cost space = \<lparr>st_numBins = bins, st_treeMaxError = e, st_cost = cost, st_space = space\<rparr>"

definition fine_statistics :: "Statistics list list" where
  "fine_statistics = [[stat 2 3 2 8, stat 2 2 (7 / 4) 16, stat 2 1 (9 / 4) 40], [stat 4 3 2 16, stat 4 2 1 16, stat 4 1 1 48],
     [stat 8 3 2 32, stat 8 2 1 32, stat 8 1 (1 / 2) 64], [stat 16 3 2 64, stat 16 2 1 64, stat 16 1 (1 / 2) 128],
     [stat 32 3 2 128, stat 32 2 1 128, stat 32 1 0 128]]"

lemma fine_lcp: "fold_opt (lcp_step 0 fine_points (usub 64 5)) [1..<4] ([x, 0, 0, 0], 0 # replicate 5 0) = Some ([x, 0, 4, 1], [1, 1, 0, 0, 1, 0])"
  by code_simp

lemma fine_offsets: "fold_opt (offset_step [1, 1, 0, 0, 1, 0]) [1..<6] (0 # replicate 5 0) = Some [0, 1, 2, 2, 2, 3]"
  by code_simp

lemma fine_sort: "fold_opt (sort_step [x, 0, 4, 1]) [1..<4] ([0, 1, 2, 2, 2, 3], replicate 3 0) = Some ([1, 2, 2, 2, 3, 3], [1, 3, 2])"
  by code_simp

lemma fine_levels: "fold_opt (consume_level 4 5 5 [x, 0, 4, 1]) [1..<6] ([1, 3, 2], [(1, 4)], replicate 5 (replicate 5 (0, 0))) =
    Some ([], [], fine_matrix)"
  by code_simp

lemma fine_small:
  "map (\<lambda>index. map_option snd (fold_opt (prefix_step False 4 (2 ^ (index + 1))) (rev [2..<5]) (fine_matrix ! index, []))) [0, 1, 2, 3, 4] =
    map Some fine_statistics"
  by code_simp

lemma fine_prefix_sums:
  assumes "index < 5"
  shows "prefix_sums False 4 (extend_rows (replicate 1020 (0, 0)) fine_matrix) index ss =
    Some (ss @ map (zero_statistics (2 ^ (index + 1))) (rev [4..<Suc maxPossibleTreeError]) @ fine_statistics ! index)"
proof -
  let ?r = "fine_matrix ! index"
  have i: "index \<in> {0, 1, 2, 3, 4}" using assms by auto
  have r: "length fine_matrix = 5" "length ?r = Suc 4" "?r ! 4 = (0, 0)" using i by (auto simp: fine_matrix_def)
  have "map_option snd (fold_opt (prefix_step False 4 (2 ^ (index + 1))) (rev [2..<5]) (?r, [])) = Some (fine_statistics ! index)"
    using arg_cong [OF fine_small, of "\<lambda>l. l ! index"] i by (auto simp: fine_statistics_def simp del: upt_rec_numeral)
  then obtain r' where "fold_opt (prefix_step False 4 (2 ^ (index + 1))) (rev [2..<Suc 4]) (?r, []) = Some (r', fine_statistics ! index)"
    by (auto simp del: upt_rec_numeral)
  moreover have "at_opt (extend_rows (replicate 1020 (0, 0)) fine_matrix) index =
      Some (?r @ replicate (Suc maxPossibleTreeError - length ?r) (0, 0))"
    using assms r by (simp add: at_opt_def extend_rows_def del: replicate.simps)
  ultimately show ?thesis by (intro prefix_sums_short [where w = 4]) (use r in simp_all)
qed

lemma fine_radix:
  fixes b :: "u64 ts_builder"
  assumes "tb_spline_points b = fine_points" and "tb_min_key b = 0" and "tb_max_key b = 31"
  shows "\<exists>s ss. ComputeRadixTableStatistics b [] = Some (s # ss) \<and> (\<forall>s\<in>set (s # ss). 1 \<le> st_cost s)"
proof -
  have "\<exists>m. (0 :: rat) = of_nat m \<and> m \<le> 2 ^ 53" by (intro exI [of _ 0]) simp
  moreover have "\<exists>m. (numeral k :: rat) = of_nat m \<and> m \<le> 2 ^ 53" if "numeral k \<le> (2 ^ 53 :: nat)" for k
    using that by (intro exI [of _ "numeral k"]) simp
  ultimately have "points_ok (tb_min_key b) (tb_max_key b) (tb_spline_points b)"
    by (simp add: points_ok_def assms fine_points_def)
  then obtain ss where ss: "ComputeRadixTableStatistics b [] = Some ([] @ ss)" "length ss = maxNumRadixBits" "\<forall>s\<in>set ss. 1 \<le> st_cost s"
    using radix_statistics_ok [of b "[]"] assms by (auto simp: fine_points_def)
  then show ?thesis by (cases ss) auto
qed

lemma fine_trees:
  fixes b :: "u64 ts_builder"
  assumes "tb_spline_points b = fine_points" and "tb_min_key b = 0" and "tb_max_key b = 31"
  shows "ComputeCHTStatistics False b ss = Some (ss @
    concat (map (\<lambda>index. map (zero_statistics (2 ^ (index + 1))) (rev [4..<Suc maxPossibleTreeError]) @ fine_statistics ! index) [0, 1, 2, 3, 4]))"
proof -
  have lg: "ComputeLog (unat (31 :: u64)) True = Some 5" by code_simp
  have n: "length fine_points = 4" by (simp add: fine_points_def)
  have rep: "replicate 4 (0 :: nat) = [0, 0, 0, 0]" by (simp add: numeral_eq_Suc)
  have start: "put 0 UINT_MAX (replicate 4 0) = Some [UINT_MAX, 0, 0, 0]" by (simp add: put_def rep)
  have "replicate 1025 (0 :: nat, 0 :: nat) = replicate 5 (0, 0) @ replicate 1020 (0, 0)"
    using replicate_add [of 5 1020 "(0 :: nat, 0 :: nat)"] by (simp)
  then have m: "replicate 5 (replicate 1025 (0 :: nat, 0 :: nat)) = extend_rows (replicate 1020 (0, 0)) (replicate 5 (replicate 5 (0, 0)))"
    by (simp add: extend_rows_def map_replicate)
  have levels: "fold_opt (consume_level 4 5 5 [UINT_MAX, 0, 4, 1]) [1..<6] ([1, 3, 2], [(1, 4)], replicate 5 (replicate 1025 (0, 0))) =
      Some ([], [], extend_rows (replicate 1020 (0, 0)) fine_matrix)"
    unfolding m by (rule levels_ext [OF fine_levels, where w = 5]) (simp_all)
  have sums: "fold_opt (prefix_sums False 4 (extend_rows (replicate 1020 (0, 0)) fine_matrix)) [0..<5] ss = Some (ss @
    concat (map (\<lambda>index. map (zero_statistics (2 ^ (index + 1))) (rev [4..<Suc maxPossibleTreeError]) @ fine_statistics ! index) [0, 1, 2, 3, 4]))"
  proof -
    have "[0..<5] = [0, 1, 2, 3, 4 :: nat]" by (simp add: upt_rec)
    then show ?thesis by (simp add: fine_prefix_sums del: upt_Suc upt_rec_numeral)
  qed
  show ?thesis
    unfolding ComputeCHTStatistics_def assms
    using lg n start fine_lcp [of UINT_MAX] fine_offsets fine_sort [of UINT_MAX] levels sums
    by (simp add: AddNewInterval_def Let_def del: upt_Suc upt_rec_numeral)
qed

text \<open>The choice of the code.\<close>

lemma fine_tuning:
  fixes b :: "u64 ts_builder"
  assumes b: "tb_spline_points b = fine_points" "tb_min_key b = 0" "tb_max_key b = 31"
  shows "ts_tuning False b = Some (8, 1)"
proof -
  obtain s ss where r: "ComputeRadixTableStatistics b [] = Some (s # ss)" "\<forall>s\<in>set (s # ss). 1 \<le> st_cost s"
    using fine_radix [OF b] by blast
  let ?Z = "\<lambda>index. map (zero_statistics (2 ^ (index + 1))) (rev [4..<Suc maxPossibleTreeError])" and ?best = "stat 8 1 (1 / 2) 64"
  let ?us = "ss @ ?Z 0 @ fine_statistics ! 0 @ ?Z 1 @ fine_statistics ! 1 @ ?Z 2 @ [stat 8 3 2 32, stat 8 2 1 32]"
  let ?vs = "?Z 3 @ fine_statistics ! 3 @ ?Z 4 @ fine_statistics ! 4"
  have s: "ComputeCHTStatistics False b (s # ss) = Some (s # ?us @ ?best # ?vs)"
    using fine_trees [OF b, of "s # ss"] by (simp add: fine_statistics_def del: upt_Suc upt_rec_numeral)
  have best: "st_cost ?best = 1 / 2" "st_space ?best = 64" by (simp_all add: stat_def)
  have Z: "1 / 2 < st_cost x \<and> better 64 x ?best = ?best" if x: "x \<in> set (?Z i)" for x i
  proof -
    obtain d where d: "x = zero_statistics (2 ^ (i + 1)) d" "4 \<le> d" using x by (auto simp del: upt_Suc upt_rec_numeral)
    have "2 \<le> st_cost x" unfolding d(1) by (rule zero_statistics_cost [OF d(2)])
    moreover have "better 64 x ?best = ?best" unfolding d(1) by (rule zero_statistics_worse [OF d(2)]) (simp add: stat_def)
    ultimately show ?thesis by linarith
  qed
  have "fold (better 64) (?us @ ?best # ?vs) s = ?best"
  proof (rule fold_better_choice)
    have "\<forall>x\<in>set (s # ss). 1 / 2 < st_cost x" using r(2) by fastforce
    moreover have "\<forall>x\<in>set (?Z i). 1 / 2 < st_cost x" for i using Z by blast
    moreover have "\<forall>x\<in>set (fine_statistics ! 0). 1 / 2 < st_cost x" "\<forall>x\<in>set (fine_statistics ! 1). 1 / 2 < st_cost x"
      "\<forall>x\<in>set [stat 8 3 2 32, stat 8 2 1 32]. 1 / 2 < st_cost x" by (simp_all add: fine_statistics_def stat_def)
    ultimately show "\<forall>x\<in>set (s # ?us). st_cost ?best < st_cost x"
      unfolding best by (simp only: list.set set_append ball_Un ball_simps simp_thms) blast
    have "\<forall>x\<in>set (fine_statistics ! 3). better 64 x ?best = ?best" "\<forall>x\<in>set (fine_statistics ! 4). better 64 x ?best = ?best"
      by (simp_all add: fine_statistics_def stat_def better_def)
    moreover have "\<forall>x\<in>set (?Z i). better 64 x ?best = ?best" for i using Z by blast
    ultimately show "\<forall>x\<in>set ?vs. better 64 x ?best = ?best" by (simp only: set_append ball_Un simp_thms) blast
  qed (simp add: stat_def)
  moreover have "InferTuning b (x # xs) = Some (fold (better 64) xs x)" for x xs by (simp add: InferTuning_def b fine_points_def)
  ultimately have "InferTuning b (s # ?us @ ?best # ?vs) = Some ?best" by (simp only:)
  then have "ts_tuning False b = Some (st_numBins ?best, st_treeMaxError ?best)"
    unfolding ts_tuning_def ComputeStatistics_def r(1) Option.bind.simps s by (simp only: Option.bind.simps)
  then show ?thesis by (simp add: stat_def)
qed

subsection \<open>A tree that is too fine\<close>

text \<open>When the bins of a node are narrower than the bits of a level, and one of them has more keys than the error, splitting it fails.\<close>

lemma crowded_bin_fails:
  assumes "bin \<in> set bins" and "distinct bins" and "node < length tree" and "nd_level (tree ! node) = level"
    and "nd_bins (tree ! node) ! bin = (first, second)" and "first \<le> second" and "cp_max_error C < second - first"
    and "node_width C level = Some width" and "second - first \<le> 2 ^ width" and "node_width C (level + 1) = None"
  shows "split_bins C node bins tree nodes = None"
  using assms
proof (induction bins arbitrary: tree nodes)
  case (Cons x bins)
  show ?case
  proof (cases "x = bin")
    case True
    then show ?thesis using Cons.prems by (simp add: Let_def initNode_def)
  next
    case False
    then have bin: "bin \<in> set bins" "distinct bins" using Cons.prems by auto
    have step: "split_bins C node bins (set_bin tree' node x r) nodes' = None"
      if "node < length tree'" "tree' ! node = tree ! node" for tree' r nodes'
      by (rule Cons.IH [OF bin]) (use Cons.prems False that in \<open>simp_all add: set_bin_def\<close>)
    show ?thesis using step [of tree] step Cons.prems(3,4,8)
      by (auto simp: Let_def nth_append split: prod.splits bind_split)
  qed
qed simp

text \<open>The tree with eight bins and the error 1 needs a level whose bins would be half a key wide.\<close>

lemma fine_tree_fails:
  "cht_Finalize \<lparr>cb_min_key = 0, cb_max_key = 31, cb_prev_key = 31, cb_keys = [0, 18, 19, 31 :: u64]\<rparr> 8 1 = None"
proof -
  let ?C = "\<lparr>cp_min_key = 0, cp_keys = [0, 18, 19, 31 :: u64], cp_num_bins = 8, cp_log_num_bins = 3, cp_max_error = 1, cp_shift = 2\<rparr>"
  let ?root = "\<lparr>nd_level = 0, nd_lower = 0, nd_bins = [(0, 1), (1, 1), (1, 1), (1, 1), (1, 3), (3, 3), (3, 3), (3, 4)]\<rparr>"
  have log: "ComputeLog 8 False = Some 3" "ComputeLog (unat (31 :: u64)) True = Some 5" "unat (31 :: u64) AND (unat (31 :: u64) - 1) \<noteq> 0"
    by code_simp+
  have root: "initNode ?C \<lparr>nd_level = 0, nd_lower = 0, nd_bins = replicate 8 (4, 4)\<rparr> (0, 4) = Some ?root" by code_simp
  have "split_bins ?C 0 [0..<8] [?root] [] = None"
    by (rule crowded_bin_fails [where bin = 4 and level = 0 and first = 1 and second = 3 and width = 2])
      (simp_all add: node_width_def)
  then have "BuildOffline_loop ?C [?root] [0] = None" by (subst BuildOffline_loop.simps) simp
  moreover have "length [0, 18, 19, 31 :: u64] = 4" by simp
  ultimately have "BuildOffline ?C = None"
    by (simp only: BuildOffline_def Let_def cht_params.select_convs root Option.bind.simps)
  then show ?thesis using log by (simp add: cht_Finalize_def Let_def)
qed

end
