(* ===== verification/Ts_Corridor.thy ===== *)
theory Ts_Corridor
  imports Ts_Spline
begin

text \<open>
  The greedy spline corridor: lines from the last point of the spline whose slope lies between two limits pass every later point of the
  distribution function within the error. All comparisons of slopes by \<^verbatim>\<open>ComputeOrientation\<close> are exact as long as the products
  of a difference of keys and a position are integers of a \<^verbatim>\<open>double\<close>.
\<close>

subsection \<open>The points of the distribution function\<close>

text \<open>Every distinct key with its first position.\<close>

definition cdf :: "'k list \<Rightarrow> ('k \<times> nat) list" where
  "cdf keys = map (\<lambda>i. (keys ! i, i)) (filter (\<lambda>i. i = 0 \<or> keys ! (i - 1) \<noteq> keys ! i) [0..<length keys])"

lemma cdf_Nil [simp]: "cdf [] = []"
  by (simp add: cdf_def)

lemma cdf_snoc: "cdf (keys @ [k]) = cdf keys @ (if keys = [] \<or> last keys \<noteq> k then [(k, length keys)] else [])"
proof -
  have "filter (\<lambda>i. i = 0 \<or> (keys @ [k]) ! (i - 1) \<noteq> (keys @ [k]) ! i) [0..<length keys] =
      filter (\<lambda>i. i = 0 \<or> keys ! (i - 1) \<noteq> keys ! i) [0..<length keys]" by (rule filter_cong) (auto simp: nth_append)
  moreover have "map (\<lambda>i. ((keys @ [k]) ! i, i)) (filter P [0..<length keys]) = map (\<lambda>i. (keys ! i, i)) (filter P [0..<length keys])" for P
    by (auto simp: nth_append)
  ultimately show ?thesis by (auto simp: cdf_def nth_append last_conv_nth)
qed

lemma cdf_eq_Nil [simp]: "cdf keys = [] \<longleftrightarrow> keys = []"
  by (induction keys rule: rev_induct) (simp_all add: cdf_snoc)

lemma last_cdf: "keys \<noteq> [] \<Longrightarrow> fst (last (cdf keys)) = last keys"
  by (induction keys rule: rev_induct) (auto simp: cdf_snoc)

lemma hd_cdf: "keys \<noteq> [] \<Longrightarrow> hd (cdf keys) = (hd keys, 0)"
  by (induction keys rule: rev_induct) (auto simp: cdf_snoc hd_append)

lemma set_cdf: "(k, i) \<in> set (cdf keys) \<Longrightarrow> i < length keys \<and> keys ! i = k"
  by (auto simp: cdf_def)

lemma cdf_sorted:
  fixes keys :: "'k::linorder list"
  assumes "sorted keys"
  shows "sorted_wrt (\<lambda>p q. fst p < fst q \<and> snd p < snd q) (cdf keys)"
  using assms
proof (induction keys rule: rev_induct)
  case (snoc k keys)
  have k: "\<forall>x\<in>set keys. x \<le> k" and IH: "sorted_wrt (\<lambda>p q. fst p < fst q \<and> snd p < snd q) (cdf keys)"
    using snoc by (simp_all add: sorted_append)
  show ?case
  proof (cases "keys = [] \<or> last keys = k")
    case False
    have srt: "sorted keys" using snoc.prems by (simp add: sorted_append)
    have "fst p < k \<and> snd p < length keys" if p: "p \<in> set (cdf keys)" for p
    proof -
      have i: "snd p < length keys" "keys ! snd p = fst p" using set_cdf [of "fst p" "snd p" keys] p by simp_all
      then have "keys ! snd p \<le> keys ! (length keys - 1)" by (intro sorted_nth_mono [OF srt]) simp_all
      also have "\<dots> = last keys" using i(1) by (intro last_conv_nth [symmetric]) auto
      also have "\<dots> < k" using False k by (simp add: le_neq_trans)
      finally show ?thesis using i by simp
    qed
    then show ?thesis using False IH by (simp add: cdf_snoc sorted_wrt_append)
  qed (use IH in \<open>auto simp: cdf_snoc\<close>)
qed simp

definition cdf_point :: "'k \<times> nat \<Rightarrow> 'k Coord" where
  "cdf_point p = \<lparr>co_x = fst p, co_y = of_nat (snd p)\<rparr>"

definition key_rat :: "'w::len word \<Rightarrow> rat" where
  "key_rat x = of_int (uint x)"

lemma key_rat_less [simp]: "key_rat x < key_rat y \<longleftrightarrow> x < y"
  unfolding key_rat_def of_int_less_iff word_less_def ..

lemma key_rat_le [simp]: "key_rat x \<le> key_rat y \<longleftrightarrow> x \<le> y"
  unfolding key_rat_def of_int_le_iff word_le_def ..

lemma key_rat_eq [simp]: "key_rat x = key_rat y \<longleftrightarrow> x = y"
  by (simp add: order_class.order_eq_iff)

lemma key_rat_diff: "x \<le> y \<Longrightarrow> of_nat (unat y - unat x) = key_rat y - key_rat x"
  by (simp add: key_rat_def word_le_nat_alt of_nat_diff)

definition cx :: "('w::len word \<times> nat) list \<Rightarrow> nat \<Rightarrow> rat" where
  "cx cs i = key_rat (fst (cs ! i))"

definition cy :: "('k \<times> nat) list \<Rightarrow> nat \<Rightarrow> rat" where
  "cy cs i = of_nat (snd (cs ! i))"

definition increasing :: "('w::len word \<times> nat) list \<Rightarrow> bool" where
  "increasing cs \<longleftrightarrow> sorted_wrt (\<lambda>p q. fst p < fst q \<and> snd p < snd q) cs"

lemma increasingD:
  assumes "increasing cs" and "i < j" and "j < length cs"
  shows "fst (cs ! i) < fst (cs ! j)" and "snd (cs ! i) < snd (cs ! j)" and "cx cs i < cx cs j" and "cy cs i < cy cs j"
proof -
  show "fst (cs ! i) < fst (cs ! j)" "snd (cs ! i) < snd (cs ! j)"
    using assms sorted_wrt_nth_less [of "\<lambda>p q. fst p < fst q \<and> snd p < snd q" cs i j] by (simp_all add: increasing_def)
  then show "cx cs i < cx cs j" "cy cs i < cy cs j" by (simp_all add: cx_def cy_def)
qed

lemma cx_append [simp]: "i < length cs \<Longrightarrow> cx (cs @ ds) i = cx cs i"
  and cy_append [simp]: "i < length cs \<Longrightarrow> cy (cs @ ds') i = cy cs i"
  by (simp_all add: cx_def cy_def nth_append)

subsection \<open>Segments and limits\<close>

text \<open>The segment from the point \<open>s\<close> to the point \<open>t\<close> passes every point of it within the error.\<close>

definition chord :: "('w::len word \<times> nat) list \<Rightarrow> nat \<Rightarrow> nat \<Rightarrow> rat" where
  "chord cs s t = (cy cs t - cy cs s) / (cx cs t - cx cs s)"

definition segment_ok :: "nat \<Rightarrow> ('w::len word \<times> nat) list \<Rightarrow> nat \<Rightarrow> nat \<Rightarrow> bool" where
  "segment_ok e cs s t \<longleftrightarrow> s < t \<and> t < length cs \<and>
     (\<forall>i. s < i \<and> i \<le> t \<longrightarrow> \<bar>cy cs s + chord cs s t * (cx cs i - cx cs s) - cy cs i\<bar> \<le> of_nat e)"

definition corridor :: "nat \<Rightarrow> ('w::len word \<times> nat) list \<Rightarrow> nat \<Rightarrow> nat \<Rightarrow> rat \<Rightarrow> rat \<Rightarrow> bool" where
  "corridor e cs s t upper lower \<longleftrightarrow> s < t \<and> t < length cs \<and>
     (\<forall>i. s < i \<and> i \<le> t \<longrightarrow> cy cs i - of_nat e \<le> cy cs s + lower * (cx cs i - cx cs s) \<and>
        cy cs s + upper * (cx cs i - cx cs s) \<le> cy cs i + of_nat e) \<and>
     lower \<le> chord cs s t \<and> chord cs s t \<le> upper"

lemma segment_ok_append: "segment_ok e cs s t \<Longrightarrow> segment_ok e (cs @ ds) s t"
  by (auto simp: segment_ok_def chord_def)

lemma corridor_append: "corridor e cs s t u l \<Longrightarrow> corridor e (cs @ ds) s t u l"
  by (auto simp: corridor_def chord_def)

lemma corridor_segment:
  assumes inc: "increasing cs" and c: "corridor e cs s t u l"
  shows "segment_ok e cs s t"
  unfolding segment_ok_def
proof (intro conjI allI impI)
  fix i assume i: "s < i \<and> i \<le> t"
  have "cx cs s < cx cs i" using increasingD(3) [OF inc, of s i] i c by (simp add: corridor_def)
  then have "l * (cx cs i - cx cs s) \<le> chord cs s t * (cx cs i - cx cs s)"
    "chord cs s t * (cx cs i - cx cs s) \<le> u * (cx cs i - cx cs s)"
    using c by (auto simp: corridor_def intro!: mult_right_mono)
  moreover have "cy cs i - of_nat e \<le> cy cs s + l * (cx cs i - cx cs s)" "cy cs s + u * (cx cs i - cx cs s) \<le> cy cs i + of_nat e"
    using c i by (auto simp: corridor_def)
  ultimately show "\<bar>cy cs s + chord cs s t * (cx cs i - cx cs s) - cy cs i\<bar> \<le> of_nat e" by (simp add: abs_le_iff)
qed (use c in \<open>auto simp: corridor_def\<close>)

text \<open>The slope from the point \<open>s\<close> to a limit.\<close>

definition limit_slope :: "('w::len word \<times> nat) list \<Rightarrow> nat \<Rightarrow> 'w word \<Rightarrow> nat \<Rightarrow> rat" where
  "limit_slope cs s x y = (of_nat y - cy cs s) / (key_rat x - cx cs s)"

lemma chord_limit: "chord cs s t = limit_slope cs s (fst (cs ! t)) (snd (cs ! t))"
  by (simp add: chord_def limit_slope_def cx_def cy_def)

lemma limit_slope_at:
  assumes "cx cs s < cx cs t" and "fst (cs ! t) = x"
  shows "cy cs s + limit_slope cs s x y * (cx cs t - cx cs s) = of_nat y"
  using assms by (auto simp: limit_slope_def cx_def)

lemma limit_slope_mono: "cx cs s < key_rat x \<Longrightarrow> y \<le> z \<Longrightarrow> limit_slope cs s x y \<le> limit_slope cs s x z"
  unfolding limit_slope_def by (intro divide_right_mono) simp_all

text \<open>The limits of a new point \<open>t\<close>: alone, and together with the limits of the points before it.\<close>

lemma corridor_new:
  assumes inc: "increasing cs" and st: "s < t" "t < length cs" and at: "cs ! t = (x, p)"
  shows "p - e \<le> p + e" and "limit_slope cs s x (p - e) \<le> chord cs s t" and "chord cs s t \<le> limit_slope cs s x (p + e)"
    and "cy cs t - of_nat e \<le> cy cs s + limit_slope cs s x (p - e) * (cx cs t - cx cs s)"
    and "cy cs s + limit_slope cs s x (p + e) * (cx cs t - cx cs s) \<le> cy cs t + of_nat e"
proof -
  have x: "cx cs s < cx cs t" using increasingD(3) [OF inc st] .
  then have xk: "cx cs s < key_rat x" by (simp add: cx_def at)
  show "p - e \<le> p + e" by simp
  show "limit_slope cs s x (p - e) \<le> chord cs s t" "chord cs s t \<le> limit_slope cs s x (p + e)"
    unfolding chord_limit at using limit_slope_mono [OF xk] by simp_all
  have "of_nat p \<le> (of_nat (p - e) + of_nat e :: rat)" unfolding of_nat_add [symmetric] of_nat_le_iff by simp
  then show "cy cs t - of_nat e \<le> cy cs s + limit_slope cs s x (p - e) * (cx cs t - cx cs s)"
    using limit_slope_at [OF x, of x "p - e"] by (simp add: at cy_def)
  show "cy cs s + limit_slope cs s x (p + e) * (cx cs t - cx cs s) \<le> cy cs t + of_nat e"
    using limit_slope_at [OF x, of x "p + e"] by (simp add: at cy_def)
qed

lemma corridor_start:
  assumes "increasing cs" and "Suc s < length cs" and "cs ! Suc s = (x, p)"
  shows "corridor e cs s (Suc s) (limit_slope cs s x (p + e)) (limit_slope cs s x (p - e))"
  using corridor_new [OF assms(1) _ assms(2,3), of s e] assms(2) by (auto simp: corridor_def le_Suc_eq)

lemma corridor_narrow:
  assumes inc: "increasing cs" and c: "corridor e cs s t u l" and t: "Suc t < length cs" "cs ! Suc t = (x, p)"
    and inside: "l < chord cs s (Suc t)" "chord cs s (Suc t) < u"
  shows "corridor e cs s (Suc t) (min u (limit_slope cs s x (p + e))) (max l (limit_slope cs s x (p - e)))"
  unfolding corridor_def
proof (intro conjI allI impI)
  have st: "s < Suc t" using c by (simp add: corridor_def)
  note new = corridor_new [OF inc st t, of e]
  show "max l (limit_slope cs s x (p - e)) \<le> chord cs s (Suc t)" "chord cs s (Suc t) \<le> min u (limit_slope cs s x (p + e))"
    using inside new by simp_all
  fix i assume i: "s < i \<and> i \<le> Suc t"
  have "cx cs s < cx cs i" using increasingD(3) [OF inc, of s i] i t by simp
  then have m: "l * (cx cs i - cx cs s) \<le> max l (limit_slope cs s x (p - e)) * (cx cs i - cx cs s)"
    "limit_slope cs s x (p - e) * (cx cs i - cx cs s) \<le> max l (limit_slope cs s x (p - e)) * (cx cs i - cx cs s)"
    "min u (limit_slope cs s x (p + e)) * (cx cs i - cx cs s) \<le> u * (cx cs i - cx cs s)"
    "min u (limit_slope cs s x (p + e)) * (cx cs i - cx cs s) \<le> limit_slope cs s x (p + e) * (cx cs i - cx cs s)"
    by (auto intro!: mult_right_mono)
  have "i = Suc t \<or> cy cs i - of_nat e \<le> cy cs s + l * (cx cs i - cx cs s) \<and> cy cs s + u * (cx cs i - cx cs s) \<le> cy cs i + of_nat e"
    using c i by (auto simp: corridor_def)
  then show "cy cs i - of_nat e \<le> cy cs s + max l (limit_slope cs s x (p - e)) * (cx cs i - cx cs s)"
    "cy cs s + min u (limit_slope cs s x (p + e)) * (cx cs i - cx cs s) \<le> cy cs i + of_nat e"
    using m new(4,5) by auto
qed (use c t in \<open>auto simp: corridor_def\<close>)

subsection \<open>Exact arithmetic\<close>

definition exact_products :: "'w::len word \<Rightarrow> 'w word \<Rightarrow> nat \<Rightarrow> bool" where
  "exact_products lo hi M \<longleftrightarrow> lo < hi \<and> 1 \<le> M \<and> (unat hi - unat lo) * M \<le> 2 ^ 53"

lemma exact_productsD:
  assumes "exact_products lo hi M"
  shows "unat hi - unat lo \<le> 2 ^ 53" and "M \<le> 2 ^ 53"
proof -
  have r: "1 \<le> unat hi - unat lo" "1 \<le> M" and p: "(unat hi - unat lo) * M \<le> 2 ^ 53" using assms by (auto simp: exact_products_def word_less_nat_alt)
  have "(unat hi - unat lo) * 1 \<le> (unat hi - unat lo) * M" using r(2) by (rule mult_le_mono2)
  with p show "unat hi - unat lo \<le> 2 ^ 53" by linarith
  have "1 * M \<le> (unat hi - unat lo) * M" using r(1) by (rule mult_le_mono1)
  with p show "M \<le> 2 ^ 53" by linarith
qed

lemma nat_double_exact: "n \<le> 2 ^ 53 \<Longrightarrow> nat_double n = of_nat n"
  unfolding nat_double_def by (rule double.rnd_nat)

lemma key_diff_exact:
  assumes "exact_products lo hi M" and "lo \<le> x" and "x \<le> y" and "y \<le> hi"
  shows "unat (y - x) = unat y - unat x" and "unat y - unat x \<le> unat hi - unat lo" and "to_double (y - x) = key_rat y - key_rat x"
proof -
  show s: "unat (y - x) = unat y - unat x" using assms(3) by (rule unat_sub)
  show le: "unat y - unat x \<le> unat hi - unat lo" using assms(2-4) by (simp add: word_le_nat_alt)
  show "to_double (y - x) = key_rat y - key_rat x"
    using double.rnd_nat [of "unat y - unat x"] le exact_productsD(1) [OF assms(1)] key_rat_diff [OF assms(3)]
    by (simp add: to_double_def s)
qed

lemma nat_diff_exact:
  assumes "y \<le> M" and "z \<le> M" and "M \<le> 2 ^ 53"
  shows "double_round (of_nat y - of_nat z) = of_nat y - of_nat z"
  using dbl.rnd_int [of "int y - int z"] assms by simp

text \<open>The sign of an integer survives the rounding.\<close>

lemma orientation_exact:
  assumes "\<bar>dy1 * dx2\<bar> \<le> 2 ^ 53" and "\<bar>dy2 * dx1\<bar> \<le> 2 ^ 53"
  shows "ComputeOrientation (of_int dx1) (of_int dy1) (of_int dx2) (of_int dy2) =
    (if dy1 * dx2 > dy2 * dx1 then CW else if dy1 * dx2 < dy2 * dx1 then CCW else Collinear)"
proof -
  let ?d = "dy1 * dx2 - dy2 * dx1"
  have "fma (of_int dy2) (of_int dx1) 0 = of_int (dy2 * dx1)" using dbl.rnd_int [OF assms(2)] by (simp add: fma_def)
  then have expr: "fma (of_int dy1) (of_int dx2) (- fma (of_int dy2) (of_int dx1) 0) = double_round (of_int ?d)" by (simp add: fma_def)
  have p: "0 < precision" "precision < 1" by (simp_all add: precision_def)
  have one: "double_round 1 = 1" "double_round (- 1) = - 1" "double_round 0 = 0" using dbl.rnd_int [of 1] dbl.rnd_int [of "- 1"] dbl.rnd_int [of 0] by simp_all
  consider "1 \<le> ?d" | "?d = 0" | "?d \<le> - 1" by linarith
  then show ?thesis
  proof cases
    case 1
    then have "double_round 1 \<le> double_round (of_int ?d)" by (intro double.rnd_mono) linarith
    then show ?thesis unfolding ComputeOrientation_def expr using 1 p one by simp
  next
    case 2
    then have "double_round (of_int ?d) = 0" using one by simp
    then show ?thesis unfolding ComputeOrientation_def expr using 2 p by simp
  next
    case 3
    have "of_int ?d \<le> (- 1 :: rat)" using 3 by (metis of_int_le_iff of_int_1 of_int_minus)
    then have "double_round (of_int ?d) \<le> double_round (- 1)" by (rule double.rnd_mono)
    then have "double_round (of_int ?d) < - precision" using p one by simp
    then show ?thesis unfolding ComputeOrientation_def expr using 3 p by simp
  qed
qed

text \<open>The test of the code compares the slopes from the point \<open>s\<close>.\<close>

lemma orientation_slopes:
  fixes lo hi :: "'w::len word"
  assumes ex: "exact_products lo hi M" and s: "lo \<le> x" "cx cs s = key_rat x" "cy cs s = of_nat y" "y \<le> M"
    and 1: "x < x1" "x1 \<le> hi" "y1 \<le> M" and 2: "x < x2" "x2 \<le> hi" "y2 \<le> M"
  shows "ComputeOrientation (to_double (x1 - x)) (double_round (of_nat y1 - of_nat y)) (to_double (x2 - x)) (double_round (of_nat y2 - of_nat y)) =
    (if limit_slope cs s x2 y2 < limit_slope cs s x1 y1 then CW else if limit_slope cs s x1 y1 < limit_slope cs s x2 y2 then CCW else Collinear)"
proof -
  define dx1 dx2 dy1 dy2 where "dx1 = uint x1 - uint x" and "dx2 = uint x2 - uint x"
    and "dy1 = int y1 - int y" and "dy2 = int y2 - int y"
  note k1 = key_diff_exact [OF ex s(1) less_imp_le [OF 1(1)] 1(2)] and k2 = key_diff_exact [OF ex s(1) less_imp_le [OF 2(1)] 2(2)]
  have pos: "0 < dx1" "0 < dx2" using 1(1) 2(1) by (simp_all add: dx1_def dx2_def word_less_def)
  have args: "to_double (x1 - x) = of_int dx1" "to_double (x2 - x) = of_int dx2"
    "double_round (of_nat y1 - of_nat y) = of_int dy1" "double_round (of_nat y2 - of_nat y) = of_int dy2"
    using k1(3) k2(3) nat_diff_exact [OF 1(3) s(4) exact_productsD(2) [OF ex]] nat_diff_exact [OF 2(3) s(4) exact_productsD(2) [OF ex]]
    by (simp_all add: dx1_def dx2_def dy1_def dy2_def key_rat_def)
  have R: "int (unat hi - unat lo) * int M \<le> 2 ^ 53" using ex by (simp add: exact_products_def flip: of_nat_mult of_nat_power_eq_of_nat_cancel_iff)
  have "int (unat x1 - unat x) = dx1" "int (unat x2 - unat x) = dx2" using 1(1) 2(1) by (simp_all add: dx1_def dx2_def word_less_nat_alt of_nat_diff)
  then have "dx1 \<le> int (unat hi - unat lo)" "dx2 \<le> int (unat hi - unat lo)" using k1(2) k2(2) by simp_all
  moreover have "\<bar>dy1\<bar> \<le> int M" "\<bar>dy2\<bar> \<le> int M" using s(4) 1(3) 2(3) by (simp_all add: dy1_def dy2_def)
  ultimately have "\<bar>dy1 * dx2\<bar> \<le> int M * int (unat hi - unat lo)" "\<bar>dy2 * dx1\<bar> \<le> int M * int (unat hi - unat lo)"
    unfolding abs_mult using pos by (intro mult_mono; simp)+
  then have b: "\<bar>dy1 * dx2\<bar> \<le> 2 ^ 53" "\<bar>dy2 * dx1\<bar> \<le> 2 ^ 53" using R by (simp_all add: mult.commute)
  have slope: "limit_slope cs s x1 y1 = of_int dy1 / of_int dx1" "limit_slope cs s x2 y2 = of_int dy2 / of_int dx2"
    by (simp_all add: limit_slope_def s dx1_def dx2_def dy1_def dy2_def key_rat_def)
  have cmp: "of_int a / of_int b < (of_int c / of_int d :: rat) \<longleftrightarrow> a * d < c * b" if "0 < b" "0 < d" for a b c d :: int
  proof -
    have "of_int a / of_int b < (of_int c / of_int d :: rat) \<longleftrightarrow> of_int a * of_int d < (of_int c * of_int b :: rat)"
      using that by (simp add: divide_less_eq less_divide_eq mult.commute pos_divide_less_eq pos_less_divide_eq)
    then show ?thesis by (simp only: of_int_mult [symmetric] of_int_less_iff)
  qed
  show ?thesis unfolding args orientation_exact [OF b] slope cmp [OF pos(2,1)] cmp [OF pos(1,2)] by simp
qed

end
