(* ===== verification/Ts_Builder_Correct.thy ===== *)
theory Ts_Builder_Correct
  imports Ts_Corridor
begin

text \<open>
  The builder of the spline keeps the corridor: after every key, the points of the spline are points of the distribution function, every
  segment between them passes the points of the distribution function within the error, and so does every line within the limits
  from the last point of the spline.
\<close>

subsection \<open>The points of the spline\<close>

definition spline_at :: "nat \<Rightarrow> ('w::len word \<times> nat) list \<Rightarrow> nat list \<Rightarrow> bool" where
  "spline_at e cs S \<longleftrightarrow> S \<noteq> [] \<and> hd S = 0 \<and> last S < length cs \<and> (\<forall>j. Suc j < length S \<longrightarrow> segment_ok e cs (S ! j) (S ! Suc j))"

definition points_of :: "('k \<times> nat) list \<Rightarrow> nat list \<Rightarrow> 'k Coord list" where
  "points_of cs S = map (\<lambda>i. cdf_point (cs ! i)) S"

lemma spline_at_snoc:
  assumes "spline_at e cs S" and "segment_ok e cs (last S) t"
  shows "spline_at e cs (S @ [t])"
  unfolding spline_at_def
proof (intro conjI allI impI)
  have ne: "S \<noteq> []" using assms(1) by (simp add: spline_at_def)
  then show "hd (S @ [t]) = 0" using assms(1) by (simp add: spline_at_def)
  fix j assume j: "Suc j < length (S @ [t])"
  show "segment_ok e cs ((S @ [t]) ! j) ((S @ [t]) ! Suc j)"
  proof (cases "Suc j < length S")
    case True
    then show ?thesis using assms(1) by (simp add: spline_at_def nth_append)
  next
    case False
    then have "j = length S - 1" "j < length S" using j by auto
    then have "(S @ [t]) ! j = last S" "(S @ [t]) ! Suc j = t" using ne by (simp_all add: nth_append last_conv_nth)
    then show ?thesis using assms(2) by simp
  qed
qed (use assms(2) in \<open>auto simp: segment_ok_def\<close>)

lemma spline_at_append: "spline_at e cs S \<Longrightarrow> spline_at e (cs @ ds) S"
  by (auto simp: spline_at_def intro: segment_ok_append)

lemma spline_at_sorted:
  assumes "spline_at e cs S"
  shows "sorted_wrt (<) S"
  unfolding sorted_wrt_iff_nth_Suc_transp [OF transp_on_less]
  using assms by (auto simp: spline_at_def segment_ok_def)

lemma spline_at_less:
  assumes "spline_at e cs S" and "i \<in> set S"
  shows "i < length cs"
proof -
  obtain j where j: "j < length S" "S ! j = i" using assms(2) by (metis in_set_conv_nth)
  have "sorted S" using spline_at_sorted [OF assms(1)] by (rule strict_sorted_imp_sorted)
  then have "S ! j \<le> S ! (length S - 1)" using j by (intro sorted_nth_mono) auto
  also have "\<dots> = last S" using j by (intro last_conv_nth [symmetric]) auto
  finally show ?thesis using j assms(1) by (simp add: spline_at_def)
qed

lemma points_of_append: "spline_at e cs S \<Longrightarrow> points_of (cs @ ds) S = points_of cs S"
  using spline_at_less by (fastforce simp: points_of_def nth_append)

lemma points_of_snoc [simp]: "points_of cs (S @ [t]) = points_of cs S @ [cdf_point (cs ! t)]"
  by (simp add: points_of_def)

lemma last_points_of: "S \<noteq> [] \<Longrightarrow> last (points_of cs S) = cdf_point (cs ! last S)"
  by (simp add: points_of_def last_map)

lemma cdf_point_simps [simp]: "co_x (cdf_point p) = fst p" "co_y (cdf_point p) = of_nat (snd p)"
  by (simp_all add: cdf_point_def)

subsection \<open>The state of the builder\<close>

text \<open>A limit of the corridor behind the point \<open>s\<close>: a position at a key after it.\<close>

definition limit_ok :: "'w::len word \<Rightarrow> nat \<Rightarrow> ('w word \<times> nat) list \<Rightarrow> nat \<Rightarrow> 'w word \<Rightarrow> nat \<Rightarrow> bool" where
  "limit_ok hi M cs s x y \<longleftrightarrow> fst (cs ! s) < x \<and> x \<le> hi \<and> y \<le> M"

definition limits_hold :: "'w::len word \<Rightarrow> nat \<Rightarrow> nat \<Rightarrow> ('w word \<times> nat) list \<Rightarrow> nat \<Rightarrow> 'w word Coord option \<Rightarrow> 'w word Coord option \<Rightarrow> bool" where
  "limits_hold hi e M cs s upper lower \<longleftrightarrow> (\<exists>ux uy lx ly.
     upper = Some \<lparr>co_x = ux, co_y = of_nat uy\<rparr> \<and> lower = Some \<lparr>co_x = lx, co_y = of_nat ly\<rparr> \<and>
     limit_ok hi M cs s ux uy \<and> limit_ok hi M cs s lx ly \<and> snd (cs ! s) \<le> uy \<and>
     corridor e cs s (length cs - 1) (limit_slope cs s ux uy) (limit_slope cs s lx ly))"

definition cht_holds :: "'w::len word \<Rightarrow> 'w word \<Rightarrow> 'w word ts_builder \<Rightarrow> bool" where
  "cht_holds lo hi b \<longleftrightarrow> tb_chtb b = \<lparr>cb_min_key = lo, cb_max_key = hi, cb_prev_key = co_x (last (tb_spline_points b)),
     cb_keys = map co_x (tb_spline_points b)\<rparr>"

definition ts_inv :: "'w::len word \<Rightarrow> 'w word \<Rightarrow> nat \<Rightarrow> nat \<Rightarrow> 'w word list \<Rightarrow> 'w word ts_builder \<Rightarrow> bool" where
  "ts_inv lo hi e M seen b \<longleftrightarrow>
     tb_min_key b = lo \<and> tb_max_key b = hi \<and> tb_spline_max_error b = e \<and> tb_curr_num_keys b = length seen \<and>
     tb_curr_num_distinct_keys b = length (cdf seen) \<and> tb_prev_key b = last seen \<and> tb_prev_position b = length seen - 1 \<and>
     tb_prev_point b = Some (cdf_point (last (cdf seen))) \<and> cht_holds lo hi b \<and>
     (\<exists>S. spline_at e (cdf seen) S \<and> tb_spline_points b = points_of (cdf seen) S \<and>
        (if length (cdf seen) = 1 then S = [0] else limits_hold hi e M (cdf seen) (last S) (tb_upper_limit b) (tb_lower_limit b)))"

lemma AddKeyToSpline_ok:
  assumes "cht_holds lo hi b" and "tb_spline_points b \<noteq> []" and "lo \<le> k" and "k \<le> hi" and "co_x (last (tb_spline_points b)) \<le> k"
  shows "\<exists>c. AddKeyToSpline k y b = Some (b\<lparr>tb_spline_points := tb_spline_points b @ [\<lparr>co_x = k, co_y = y\<rparr>], tb_chtb := c\<rparr>) \<and>
    cht_holds lo hi (b\<lparr>tb_spline_points := tb_spline_points b @ [\<lparr>co_x = k, co_y = y\<rparr>], tb_chtb := c\<rparr>)"
  using assms by (auto simp: AddKeyToSpline_def cht_AddKey_def cht_holds_def)

lemma ts_first:
  assumes "lo \<le> hi"
  shows "\<exists>b. ts_AddKey lo (ts_builder_init lo hi e) = Some b \<and> ts_inv lo hi e M [lo] b"
proof -
  have "nat_double 0 = 0" using nat_double_exact [of 0] by simp
  moreover have "cdf [lo] = [(lo, 0)]" using cdf_snoc [of "[]" lo] by simp
  moreover have "spline_at e [(lo, 0)] [0]" by (simp add: spline_at_def)
  ultimately show ?thesis
    using assms
    by (auto simp: ts_AddKey_def AddKey_at_def PossiblyAddKeyToSpline_def AddKeyToSpline_def cht_AddKey_def ts_builder_init_def
      cht_builder_init_def RememberPreviousCDFPoint_def ts_inv_def cht_holds_def points_of_def cdf_point_def)
qed

subsection \<open>A new point\<close>

lemma upper_y_exact: "p + e \<le> 2 ^ 53 \<Longrightarrow> upper_y e (of_nat p) = of_nat (p + e)"
  using nat_double_exact [of e] double.rnd_nat [of "p + e"] by (simp add: upper_y_def)

lemma lower_y_exact: "p + e \<le> 2 ^ 53 \<Longrightarrow> lower_y e (of_nat p) = of_nat (p - e)"
  using nat_double_exact [of e] double.rnd_nat [of "p - e"] by (auto simp: lower_y_def of_nat_diff)

text \<open>Neither limit is cut: the corridor is narrowed.\<close>

lemma CutCorridor_result:
  fixes lo hi :: "'w::len word"
  assumes ex: "exact_products lo hi M" and cs: "increasing (cs @ [(k, p)])" and s: "s < length cs" "lo \<le> fst (cs ! s)"
    and k: "k \<le> hi" "p + e \<le> M" and e: "tb_spline_max_error b = e"
    and points: "tb_spline_points b \<noteq> []" "last (tb_spline_points b) = cdf_point (cs ! s)"
    and prev: "tb_prev_point b = Some (cdf_point (last cs))" "s < length cs - 1" and lim: "limits_hold hi e M cs s (tb_upper_limit b) (tb_lower_limit b)"
    and cht: "cht_holds lo hi b"
  shows "(\<exists>b'. CutCorridor k (of_nat p) b = Some b' \<and> limits_hold hi e M (cs @ [(k, p)]) s (tb_upper_limit b') (tb_lower_limit b') \<and>
        b' = b\<lparr>tb_upper_limit := tb_upper_limit b', tb_lower_limit := tb_lower_limit b'\<rparr>) \<or>
      (\<exists>b' c. CutCorridor k (of_nat p) b = Some b' \<and> segment_ok e cs s (length cs - 1) \<and>
        limits_hold hi e M (cs @ [(k, p)]) (length cs - 1) (tb_upper_limit b') (tb_lower_limit b') \<and> cht_holds lo hi b' \<and>
        b' = b\<lparr>tb_upper_limit := tb_upper_limit b', tb_lower_limit := tb_lower_limit b', tb_chtb := c,
               tb_spline_points := tb_spline_points b @ [cdf_point (last cs)]\<rparr>)"
proof -
  let ?x = "fst (cs ! s)" and ?y = "snd (cs ! s)" and ?t = "length cs - 1" and ?cs = "cs @ [(k, p)]"
  obtain ux uy lx ly where u: "tb_upper_limit b = Some \<lparr>co_x = ux, co_y = of_nat uy\<rparr>" and l: "tb_lower_limit b = Some \<lparr>co_x = lx, co_y = of_nat ly\<rparr>"
    and uok: "limit_ok hi M cs s ux uy" and lok: "limit_ok hi M cs s lx ly" and uy: "?y \<le> uy"
    and cor: "corridor e cs s ?t (limit_slope cs s ux uy) (limit_slope cs s lx ly)"
    using lim unfolding limits_hold_def by blast
  note M = exact_productsD(2) [OF ex]
  have inc: "increasing cs" using cs by (simp add: increasing_def sorted_wrt_append)
  have at: "?cs ! length cs = (k, p)" "?cs ! i = (if i < length cs then cs ! i else (k, p))" if "i \<le> length cs" for i
    using that by (auto simp: nth_append)
  have sk: "?x < k" "?y < p" using increasingD(1,2) [OF cs, of s "length cs"] s by (simp_all add: nth_append)
  have last_cs: "last cs = cs ! ?t" using s by (intro last_conv_nth) auto
  have prevx: "?x < fst (last cs)" "fst (last cs) < k" "snd (last cs) < p"
    using increasingD(1) [OF inc, of s ?t] increasingD(1,2) [OF cs, of ?t "length cs"] prev(2) s(1) unfolding last_cs
    by (simp_all add: nth_append)
  have pos: "upper_y e (of_nat p) = of_nat (p + e)" "lower_y e (of_nat p) = of_nat (p - e)"
    using upper_y_exact [of p e] lower_y_exact [of p e] k M by simp_all
  have yM: "?y \<le> M" and pM: "p \<le> M" "p - e \<le> M" using sk k by simp_all
  note ori = orientation_slopes [OF ex s(2) _ _ yM]
  have cxs: "cx cs s = key_rat ?x" "cy cs s = of_nat ?y" by (simp_all add: cx_def cy_def)
  have St: "Suc ?t = length cs" using s by simp
  then have st: "Suc ?t < length ?cs" "?cs ! Suc ?t = (k, p)" by simp_all
  let ?sl = "limit_slope cs s"
  have guard: "?x \<le> ux \<and> ?x \<le> lx \<and> ?x \<le> k \<and> (of_nat ?y :: rat) \<le> of_nat uy \<and> (of_nat ?y :: rat) \<le> of_nat p \<and> fst (last cs) \<noteq> ?x"
    using uok lok sk uy prevx by (auto simp: limit_ok_def)
  have ub: "?x < ux" "ux \<le> hi" "uy \<le> M" and lb: "?x < lx" "lx \<le> hi" "ly \<le> M" using uok lok by (simp_all add: limit_ok_def)
  note o_up = ori [OF cxs ub sk(1) k(1)] and o_lo = ori [OF cxs lb sk(1) k(1)]
  have body: "CutCorridor k (of_nat p) b =
      (if ?sl k p \<ge> ?sl ux uy \<or> ?sl k p \<le> ?sl lx ly then do {
         b \<leftarrow> AddKeyToSpline (fst (last cs)) (of_nat (snd (last cs))) b;
         Some (SetLowerLimit k (of_nat (p - e)) (SetUpperLimit k (of_nat (p + e)) b))
       }
       else (let b1 = if ?sl k (p + e) < ?sl ux uy then SetUpperLimit k (of_nat (p + e)) b else b
             in Some (if ?sl lx ly < ?sl k (p - e) then SetLowerLimit k (of_nat (p - e)) b1 else b1)))"
    unfolding CutCorridor_def u l prev(1) points e
    using guard points(1) o_up [OF pM(1)] o_lo [OF pM(1)] o_up [OF k(2)] o_lo [OF pM(2)] sk(2) pos
    by (auto simp: Let_def)
  show ?thesis
  proof (cases "?sl k p \<ge> ?sl ux uy \<or> ?sl k p \<le> ?sl lx ly")
    case True
    let ?b = "\<lambda>c. b\<lparr>tb_spline_points := tb_spline_points b @ [cdf_point (last cs)], tb_chtb := c\<rparr>"
    have "lo \<le> fst (last cs)" "fst (last cs) \<le> hi" using s(2) prevx k(1) by auto
    moreover have "co_x (last (tb_spline_points b)) \<le> fst (last cs)" using prevx(1) points(2) by simp
    ultimately obtain c where c: "AddKeyToSpline (fst (last cs)) (of_nat (snd (last cs))) b = Some (?b c)" "cht_holds lo hi (?b c)"
      using AddKeyToSpline_ok [OF cht points(1), of "fst (last cs)" "of_nat (snd (last cs))"] by (auto simp: cdf_point_def)
    let ?b' = "SetLowerLimit k (of_nat (p - e)) (SetUpperLimit k (of_nat (p + e)) (?b c))"
    have "limits_hold hi e M ?cs ?t (tb_upper_limit ?b') (tb_lower_limit ?b')"
      unfolding limits_hold_def
    proof (intro exI conjI)
      show "corridor e ?cs ?t (length ?cs - 1) (limit_slope ?cs ?t k (p + e)) (limit_slope ?cs ?t k (p - e))"
        using corridor_start [OF cs st, of e] unfolding St by simp
    qed (use prevx k pM s last_cs in \<open>simp_all add: SetLowerLimit_def SetUpperLimit_def limit_ok_def nth_append\<close>)
    moreover have "cht_holds lo hi ?b'" using c(2) by (simp add: cht_holds_def SetLowerLimit_def SetUpperLimit_def)
    moreover have "CutCorridor k (of_nat p) b = Some ?b'" unfolding body using True c(1) by simp
    moreover note corridor_segment [OF inc cor]
    ultimately show ?thesis by (intro disjI2 exI [of _ ?b'] exI [of _ c]) (simp add: SetLowerLimit_def SetUpperLimit_def)
  next
    case False
    let ?b1 = "if ?sl k (p + e) < ?sl ux uy then SetUpperLimit k (of_nat (p + e)) b else b"
    let ?b2 = "if ?sl lx ly < ?sl k (p - e) then SetLowerLimit k (of_nat (p - e)) ?b1 else ?b1"
    have sl: "limit_slope ?cs s = ?sl" using s by (intro ext) (simp add: limit_slope_def)
    have ch: "chord ?cs s (Suc ?t) = ?sl k p" using sl st by (simp add: chord_limit)
    have cor': "corridor e ?cs s ?t (?sl ux uy) (?sl lx ly)" by (rule corridor_append [OF cor])
    have "corridor e ?cs s (Suc ?t) (min (?sl ux uy) (?sl k (p + e))) (max (?sl lx ly) (?sl k (p - e)))"
      using corridor_narrow [OF cs cor' st] False unfolding ch sl by simp
    then have final: "corridor e ?cs s (length ?cs - 1) (min (?sl ux uy) (?sl k (p + e))) (max (?sl lx ly) (?sl k (p - e)))"
      unfolding St by simp
    define U where "U = (if ?sl k (p + e) < ?sl ux uy then (k, p + e) else (ux, uy))"
    define L where "L = (if ?sl lx ly < ?sl k (p - e) then (k, p - e) else (lx, ly))"
    have ul: "min (?sl ux uy) (?sl k (p + e)) = ?sl (fst U) (snd U)" "max (?sl lx ly) (?sl k (p - e)) = ?sl (fst L) (snd L)"
      by (auto simp: U_def L_def min_def max_def)
    have "limits_hold hi e M ?cs s (tb_upper_limit ?b2) (tb_lower_limit ?b2)"
      unfolding limits_hold_def
    proof (intro exI conjI)
      show "corridor e ?cs s (length ?cs - 1) (limit_slope ?cs s (fst U) (snd U)) (limit_slope ?cs s (fst L) (snd L))"
        using final unfolding sl ul .
    qed (use s uok lok uy sk k u l in \<open>auto simp: U_def L_def SetLowerLimit_def SetUpperLimit_def limit_ok_def nth_append\<close>)
    moreover have "CutCorridor k (of_nat p) b = Some ?b2" unfolding body using False by (simp add: Let_def)
    ultimately show ?thesis
      by (intro disjI1 exI [of _ ?b2]) (simp add: SetLowerLimit_def SetUpperLimit_def)
  qed
qed

subsection \<open>Adding the keys\<close>

lemma ts_inv_duplicate:
  assumes inv: "ts_inv lo hi e M seen b" and "seen \<noteq> []"
  shows "ts_inv lo hi e M (seen @ [last seen])
    (b\<lparr>tb_curr_num_keys := tb_curr_num_keys b + 1, tb_prev_key := last seen, tb_prev_position := length seen\<rparr>)"
proof -
  have cdf: "cdf (seen @ [last seen]) = cdf seen" using assms by (simp add: cdf_snoc)
  show ?thesis using inv unfolding ts_inv_def cdf by (simp add: cht_holds_def cong: if_cong split del: if_split)
qed

lemma ts_step_new:
  fixes lo hi :: "'w::len word"
  assumes ex: "exact_products lo hi M" and inv: "ts_inv lo hi e M seen b" and ne: "seen \<noteq> []" and srt: "sorted (seen @ [k])"
    and k: "last seen \<noteq> k" "k \<le> hi" "lo \<le> hd seen" "length seen + e \<le> M"
  shows "\<exists>b'. PossiblyAddKeyToSpline k (of_nat (length seen)) b = Some b' \<and>
    ts_inv lo hi e M (seen @ [k]) (b'\<lparr>tb_curr_num_keys := tb_curr_num_keys b' + 1, tb_prev_key := k, tb_prev_position := length seen\<rparr>)"
proof -
  let ?p = "length seen" and ?cs = "cdf seen"
  have cdf: "cdf (seen @ [k]) = ?cs @ [(k, ?p)]" using ne k by (simp add: cdf_snoc)
  have inc: "increasing (?cs @ [(k, ?p)])" using cdf_sorted [OF srt] unfolding cdf increasing_def .
  then have inc': "increasing ?cs" by (simp add: increasing_def sorted_wrt_append)
  have cs: "?cs \<noteq> []" using ne by simp
  have M: "upper_y e (of_nat ?p) = of_nat (?p + e)" "lower_y e (of_nat ?p) = of_nat (?p - e)"
    using upper_y_exact [of ?p e] lower_y_exact [of ?p e] k(4) exact_productsD(2) [OF ex] by simp_all
  have i: "tb_min_key b = lo" "tb_max_key b = hi" "tb_spline_max_error b = e" "tb_curr_num_keys b = ?p"
    "tb_curr_num_distinct_keys b = length ?cs" "tb_prev_key b = last seen" "tb_prev_position b = ?p - 1"
    "tb_prev_point b = Some (cdf_point (last ?cs))" "cht_holds lo hi b" using inv by (simp_all add: ts_inv_def)
  obtain S where S: "spline_at e ?cs S" "tb_spline_points b = points_of ?cs S"
    "if length ?cs = 1 then S = [0] else limits_hold hi e M ?cs (last S) (tb_upper_limit b) (tb_lower_limit b)" using inv by (auto simp: ts_inv_def)
  have s: "S \<noteq> []" "last S < length ?cs" using S(1) by (simp_all add: spline_at_def)
  have mem: "x \<in> set ?cs \<Longrightarrow> lo \<le> fst x" for x
  proof -
    assume "x \<in> set ?cs"
    then have x: "snd x < length seen" "seen ! snd x = fst x" using set_cdf [of "fst x" "snd x" seen] by simp_all
    have "hd seen = seen ! 0" using ne by (rule hd_conv_nth)
    also have "\<dots> \<le> seen ! snd x" using srt x by (intro sorted_nth_mono) (simp_all add: sorted_append)
    finally show ?thesis using k(3) x by simp
  qed
  let ?b = "b\<lparr>tb_curr_num_distinct_keys := length ?cs + 1\<rparr>"
  show ?thesis
  proof (cases "length ?cs = 1")
    case True
    let ?b' = "RememberPreviousCDFPoint k (of_nat ?p) (SetLowerLimit k (of_nat (?p - e)) (SetUpperLimit k (of_nat (?p + e)) ?b))"
    have run: "PossiblyAddKeyToSpline k (of_nat ?p) b = Some ?b'"
      using ne i k(1) True by (simp add: PossiblyAddKeyToSpline_def M Let_def)
    have S0: "S = [0]" using S(3) True by simp
    have at: "(?cs @ [(k, ?p)]) ! Suc 0 = (k, ?p)" "Suc 0 < length (?cs @ [(k, ?p)])" using True by (simp_all add: nth_append)
    have "fst (?cs ! 0) < k" "snd (?cs ! 0) < ?p" using increasingD(1,2) [OF inc, of 0 1] True by (simp_all add: nth_append)
    note first = this
    have "limits_hold hi e M (?cs @ [(k, ?p)]) 0 (tb_upper_limit ?b') (tb_lower_limit ?b')"
      unfolding limits_hold_def
    proof (intro exI conjI)
      show "corridor e (?cs @ [(k, ?p)]) 0 (length (?cs @ [(k, ?p)]) - 1)
          (limit_slope (?cs @ [(k, ?p)]) 0 k (?p + e)) (limit_slope (?cs @ [(k, ?p)]) 0 k (?p - e))"
        using corridor_start [OF inc at(2,1), of e] True by simp
    qed (use first k cs in \<open>simp_all add: RememberPreviousCDFPoint_def SetLowerLimit_def SetUpperLimit_def limit_ok_def nth_append\<close>)
    then have "ts_inv lo hi e M (seen @ [k]) (?b'\<lparr>tb_curr_num_keys := tb_curr_num_keys ?b' + 1, tb_prev_key := k, tb_prev_position := ?p\<rparr>)"
      using i S(2) spline_at_append [OF S(1), of "[(k, ?p)]"] points_of_append [OF S(1), of "[(k, ?p)]"] True S0
      unfolding ts_inv_def cdf
      by (intro conjI exI [of _ S]) (simp_all add: cht_holds_def RememberPreviousCDFPoint_def SetLowerLimit_def SetUpperLimit_def cdf_point_def)
    then show ?thesis using run by blast
  next
    case False
    then have two: "2 \<le> length ?cs" using cs by (cases ?cs; cases "tl ?cs") auto
    have lim: "limits_hold hi e M ?cs (last S) (tb_upper_limit ?b) (tb_lower_limit ?b)" using S(3) False by simp
    then have lastS: "last S < length ?cs - 1" by (auto simp: limits_hold_def corridor_def)
    have pts: "tb_spline_points ?b \<noteq> []" "last (tb_spline_points ?b) = cdf_point (?cs ! last S)"
      using S(2) s by (simp_all add: last_points_of) (simp add: points_of_def)
    have lo: "lo \<le> fst (?cs ! last S)" by (rule mem) (use s in simp)
    have cht: "cht_holds lo hi ?b" using i(9) by (simp add: cht_holds_def)
    have run: "PossiblyAddKeyToSpline k (of_nat ?p) b = do { b \<leftarrow> CutCorridor k (of_nat ?p) ?b; Some (RememberPreviousCDFPoint k (of_nat ?p) b) }"
      using ne i k(1) two by (simp add: PossiblyAddKeyToSpline_def M Let_def)
    have e: "tb_spline_max_error ?b = e" and prev: "tb_prev_point ?b = Some (cdf_point (last ?cs))" using i by simp_all
    from CutCorridor_result [OF ex inc s(2) lo k(2,4) e pts prev lastS lim cht]
    consider (narrow) b' where "CutCorridor k (of_nat ?p) ?b = Some b'" "limits_hold hi e M (?cs @ [(k, ?p)]) (last S) (tb_upper_limit b') (tb_lower_limit b')"
        "b' = ?b\<lparr>tb_upper_limit := tb_upper_limit b', tb_lower_limit := tb_lower_limit b'\<rparr>"
      | (cut) b' c where "CutCorridor k (of_nat ?p) ?b = Some b'" "segment_ok e ?cs (last S) (length ?cs - 1)"
        "limits_hold hi e M (?cs @ [(k, ?p)]) (length ?cs - 1) (tb_upper_limit b') (tb_lower_limit b')" "cht_holds lo hi b'"
        "b' = ?b\<lparr>tb_upper_limit := tb_upper_limit b', tb_lower_limit := tb_lower_limit b', tb_chtb := c,
               tb_spline_points := tb_spline_points ?b @ [cdf_point (last ?cs)]\<rparr>" by blast
    then show ?thesis
    proof cases
      case narrow
      let ?b' = "RememberPreviousCDFPoint k (of_nat ?p) b'"
      have f: "tb_min_key b' = lo" "tb_max_key b' = hi" "tb_spline_max_error b' = e" "tb_curr_num_keys b' = ?p"
        "tb_curr_num_distinct_keys b' = length ?cs + 1" "tb_chtb b' = tb_chtb b" "tb_spline_points b' = tb_spline_points b"
        using i by (subst narrow(3), simp)+
      have "ts_inv lo hi e M (seen @ [k]) (?b'\<lparr>tb_curr_num_keys := tb_curr_num_keys ?b' + 1, tb_prev_key := k, tb_prev_position := ?p\<rparr>)"
        using f i(9) S(2) spline_at_append [OF S(1), of "[(k, ?p)]"] points_of_append [OF S(1), of "[(k, ?p)]"] two narrow(2) ne
        unfolding ts_inv_def cdf
        by (intro conjI exI [of _ S]) (simp_all add: cht_holds_def RememberPreviousCDFPoint_def cdf_point_def)
      then show ?thesis using run narrow(1) by simp
    next
      case cut
      let ?b' = "RememberPreviousCDFPoint k (of_nat ?p) b'" and ?S = "S @ [length ?cs - 1]"
      have f: "tb_min_key b' = lo" "tb_max_key b' = hi" "tb_spline_max_error b' = e" "tb_curr_num_keys b' = ?p"
        "tb_curr_num_distinct_keys b' = length ?cs + 1" "tb_spline_points b' = tb_spline_points b @ [cdf_point (last ?cs)]"
        using i by (subst cut(5), simp)+
      have S': "spline_at e ?cs ?S" by (rule spline_at_snoc [OF S(1) cut(2)])
      have "points_of ?cs ?S = tb_spline_points b @ [cdf_point (last ?cs)]" using S(2) cs by (simp add: last_conv_nth)
      then have "ts_inv lo hi e M (seen @ [k]) (?b'\<lparr>tb_curr_num_keys := tb_curr_num_keys ?b' + 1, tb_prev_key := k, tb_prev_position := ?p\<rparr>)"
        using f cut(3,4) spline_at_append [OF S', of "[(k, ?p)]"] points_of_append [OF S', of "[(k, ?p)]"] two ne
        unfolding ts_inv_def cdf
        by (intro conjI exI [of _ ?S]) (simp_all add: cht_holds_def RememberPreviousCDFPoint_def cdf_point_def)
      then show ?thesis using run cut(1) by simp
    qed
  qed
qed

lemma ts_AddKey_inv:
  fixes lo hi :: "'w::len word"
  assumes "exact_products lo hi M" and inv: "ts_inv lo hi e M seen b" and ne: "seen \<noteq> []" and srt: "sorted (seen @ [k])"
    and k: "k \<le> hi" "lo \<le> hd seen" "length seen + e \<le> M"
  shows "\<exists>b'. ts_AddKey k b = Some b' \<and> ts_inv lo hi e M (seen @ [k]) b'"
proof -
  have i: "tb_min_key b = lo" "tb_max_key b = hi" "tb_curr_num_keys b = length seen" "tb_prev_key b = last seen" "tb_prev_position b = length seen - 1"
    using inv by (simp_all add: ts_inv_def)
  have p: "nat_double (length seen) = of_nat (length seen)"
    using nat_double_exact [of "length seen"] k(3) exact_productsD(2) [OF assms(1)] by simp
  have "last seen \<le> k" using srt ne by (simp add: sorted_append)
  moreover have "lo \<le> k" using srt ne k(2) by (cases seen) (auto simp: sorted_append)
  ultimately have run: "ts_AddKey k b = do { b \<leftarrow> PossiblyAddKeyToSpline k (of_nat (length seen)) b;
      Some (b\<lparr>tb_curr_num_keys := tb_curr_num_keys b + 1, tb_prev_key := k, tb_prev_position := length seen\<rparr>) }"
    using i ne k(1) p by (simp add: ts_AddKey_def AddKey_at_def)
  show ?thesis
  proof (cases "k = last seen")
    case True
    have "PossiblyAddKeyToSpline k (of_nat (length seen)) b = Some b" using i ne True by (simp add: PossiblyAddKeyToSpline_def)
    then show ?thesis unfolding run using ts_inv_duplicate [OF inv ne] True by simp
  next
    case False
    then have "last seen \<noteq> k" by simp
    from ts_step_new [OF assms(1) inv ne srt this k(1,2,3)] show ?thesis unfolding run by auto
  qed
qed

lemma ts_add_all_inv:
  fixes lo hi :: "'w::len word"
  assumes ex: "exact_products lo hi M" and "ts_inv lo hi e M seen b" and "seen \<noteq> []" and "sorted (seen @ keys)"
    and "\<forall>k\<in>set keys. k \<le> hi" and "lo \<le> hd seen" and "length (seen @ keys) + e \<le> M"
  shows "\<exists>b'. ts_add_all keys b = Some b' \<and> ts_inv lo hi e M (seen @ keys) b'"
  using assms(2-)
proof (induction keys arbitrary: seen b)
  case (Cons k keys)
  have "sorted (seen @ [k])" using Cons.prems(3) by (auto simp: sorted_append)
  then obtain b' where b': "ts_AddKey k b = Some b'" "ts_inv lo hi e M (seen @ [k]) b'"
    using ts_AddKey_inv [OF ex Cons.prems(1,2)] Cons.prems(4-6) by auto
  then show ?case using Cons.IH [OF b'(2)] Cons.prems by simp
qed simp

end
