(* ===== verification/Ts_Cht_Node.thy ===== *)
theory Ts_Cht_Node
  imports Ts_Cht
begin

text \<open>
  The nodes of a compact histogram tree: a node covers a range of differences to the smallest key; initialising it sets, for every bin, the
  range of positions of the keys in the bin.
\<close>

subsection \<open>The position of a difference\<close>

definition offsets :: "'w::len word cht_params \<Rightarrow> nat list" where
  "offsets C = map (\<lambda>k. unat (k - cp_min_key C)) (cp_keys C)"

definition idx :: "nat list \<Rightarrow> nat \<Rightarrow> nat" where
  "idx ds x = length (takeWhile (\<lambda>d. d < x) ds)"

lemma idx_le: "idx ds x \<le> length ds"
  unfolding idx_def by (rule length_takeWhile_le)

lemma idx_iff:
  assumes "sorted_wrt (<) ds" and "i < length ds"
  shows "i < idx ds x \<longleftrightarrow> ds ! i < x"
  using assms
proof (induction ds arbitrary: i)
  case (Cons d ds)
  show ?case
  proof (cases i)
    case 0
    then show ?thesis by (simp add: idx_def)
  next
    case (Suc j)
    then have "d < ds ! j" using Cons.prems by auto
    then have "ds ! j < x \<Longrightarrow> d < x" by (rule less_trans)
    then show ?thesis using Cons Suc by (auto simp: idx_def)
  qed
qed simp

lemma idx_mono:
  assumes "x \<le> y"
  shows "idx ds x \<le> idx ds y"
  using assms by (induction ds) (auto simp: idx_def)

lemma sorted_gap:
  assumes "sorted_wrt (<) (ds :: nat list)" and "i + m < length ds"
  shows "ds ! i + m \<le> ds ! (i + m)"
  using assms(2)
proof (induction m)
  case (Suc m)
  have "ds ! (i + m) < ds ! (i + Suc m)" using Suc.prems assms(1) by (simp add: sorted_wrt_iff_nth_less)
  then show ?case using Suc by simp
qed simp

text \<open>As the keys are distinct, a range of differences has at most as many keys as its width.\<close>

lemma idx_width:
  assumes "sorted_wrt (<) ds"
  shows "idx ds (x + m) \<le> idx ds x + m"
proof (rule ccontr)
  assume "\<not> ?thesis"
  then have a: "idx ds x + m < idx ds (x + m)" by simp
  then have i: "idx ds x + m < length ds" using idx_le [of ds "x + m"] by simp
  have "x \<le> ds ! idx ds x" using idx_iff [OF assms, of "idx ds x" x] i by simp
  moreover have "ds ! (idx ds x + m) < x + m" using idx_iff [OF assms i] a by simp
  ultimately show False using sorted_gap [OF assms i] by simp
qed

subsection \<open>The bins of a node\<close>

text \<open>Where the bins of a new node begin is given by a function \<open>F\<close> of the bin; \<open>F i\<close> and \<open>F (i + 1)\<close> limit its keys.\<close>

definition bin_range :: "(nat \<Rightarrow> nat) \<Rightarrow> nat \<Rightarrow> (nat \<times> nat) list" where
  "bin_range F B = map (\<lambda>j. (F j, F (j + 1))) [0..<B]"

lemma filled_nth:
  assumes "start \<le> bin" and "bin < length bins" and "j < length bins"
  shows "(take start bins @ replicate (bin - start) e @ drop bin bins) ! j = (if start \<le> j \<and> j < bin then e else bins ! j)"
  using assms by (auto simp: nth_append)

lemma init_bins_from:
  assumes key: "\<And>k j. a \<le> k \<Longrightarrow> k < b \<Longrightarrow> key_bin k < j \<longleftrightarrow> k < F j" and mono: "mono F" and ends: "F 0 = a" "F B = b"
    and i: "a < i" "i \<le> b" and len: "length bins = B"
    and nth: "\<forall>j<B. bins ! j = (if j \<le> key_bin (i - 1) then (min i (F j), min i (F (j + 1))) else (b, b))"
  shows "init_bins key_bin [i..<b] (Some (key_bin (i - 1))) bins = Some (Some (key_bin (b - 1)), bin_range F B)"
  using i len nth
proof (induction "b - i" arbitrary: i bins)
  case 0
  have "bins = bin_range F B"
  proof (rule nth_equalityI)
    fix j assume j: "j < length bins"
    have "a \<le> F j" "F j \<le> b" "a \<le> F (j + 1)" "F (j + 1) \<le> b"
      using ends j 0 monoD [OF mono, of 0 j] monoD [OF mono, of j B] monoD [OF mono, of 0 "j + 1"] monoD [OF mono, of "j + 1" B] by auto
    moreover have "b \<le> F j" if "\<not> j \<le> key_bin (b - 1)" using key [of "b - 1" j] that 0 by linarith
    moreover have "F j \<le> F (j + 1)" by (rule monoD [OF mono]) simp
    ultimately show "bins ! j = bin_range F B ! j" using 0 j by (auto simp: bin_range_def)
  qed (use 0 in \<open>simp add: bin_range_def\<close>)
  then show ?case using 0 by simp
next
  case (Suc n)
  then have ib: "i < b" by simp
  let ?c = "key_bin (i - 1)" and ?j = "key_bin i"
  have ki: "k < F j \<longleftrightarrow> key_bin k < j" if "a \<le> k" "k < b" for k j using key that by blast
  have prev: "a \<le> i - 1" "i - 1 < b" "i - 1 < i" using Suc.prems ib by auto
  have ord: "?c \<le> ?j"
  proof (rule ccontr)
    assume "\<not> ?c \<le> ?j"
    then have "i < F ?c" using ki [of i ?c] Suc.prems ib by simp
    then show False using ki [of "i - 1" ?c] prev by simp
  qed
  have jB: "?j < B" using ki [of i B] ends(2) Suc.prems ib by simp
  let ?bins = "(if ?c = ?j then bins else take (?c + 1) bins @ replicate (?j - (?c + 1)) (i, i) @ drop ?j bins)
    [?j := if ?c = ?j then bins ! ?j else (i, i)]"
  let ?new = "?bins[?j := (fst (?bins ! ?j), snd (?bins ! ?j) + 1)]"
  have step: "init_bins key_bin [i..<b] (Some ?c) bins = init_bins key_bin [i + 1..<b] (Some ?j) ?new"
    using ib ord jB Suc.prems(3) by (simp add: upt_conv_Cons skip_bins_def Let_def)
  have lenn: "length ?new = B" using ord jB Suc.prems(3) by auto
  have "\<forall>j<B. ?new ! j = (if j \<le> ?j then (min (i + 1) (F j), min (i + 1) (F (j + 1))) else (b, b))"
  proof (intro allI impI)
    fix j assume j: "j < B"
    have below: "F j \<le> i" if "j \<le> ?j" using ki [of i j] that Suc.prems ib by simp
    have at: "i < F (?j + 1)" using ki [of i "?j + 1"] Suc.prems ib by simp
    have below1: "F (j + 1) \<le> i" if "j < ?j" using ki [of i "j + 1"] that Suc.prems ib by simp
    have between: "i \<le> F j" if "?c < j" using ki [of "i - 1" j] prev that by simp
    show "?new ! j = (if j \<le> ?j then (min (i + 1) (F j), min (i + 1) (F (j + 1))) else (b, b))"
    proof (cases "?c = ?j")
      case True
      then show ?thesis using Suc.prems(3,4) j below at below1
        by (cases "j < ?j"; cases "j = ?j") (simp_all add: nth_list_update)
    next
      case False
      note fill = filled_nth [of "?c + 1" ?j bins j "(i, i)"]
      have lens: "?c + 1 \<le> ?j" "?j < length bins" "j < length bins" using ord False jB j Suc.prems(3) by simp_all
      consider "j \<le> ?c" | "?c < j" "j < ?j" | "j = ?j" | "?j < j" by linarith
      then show ?thesis
      proof cases
        case 1
        then have "F (j + 1) \<le> i" using ki [of i "j + 1"] Suc.prems ib ord False by simp
        then show ?thesis using 1 Suc.prems(4) j lens False below fill by (simp add: nth_list_update)
      next
        case 2
        then have "F (j + 1) \<le> i" "i \<le> F (j + 1)" using ki [of i "j + 1"] ki [of "i - 1" "j + 1"] prev Suc.prems ib by auto
        then show ?thesis using 2 lens False below between fill by (simp add: nth_list_update)
      next
        case 3
        then show ?thesis using lens False below between at by (simp add: nth_list_update)
      next
        case 4
        then show ?thesis using Suc.prems(4) j lens False fill by (simp add: nth_list_update)
      qed
    qed
  qed
  from Suc.hyps(1) [of "i + 1" ?new, OF _ _ _ lenn] this show ?case
    unfolding step using Suc.hyps(2) Suc.prems ib by simp
qed

lemma init_bins_result:
  assumes key: "\<And>k j. a \<le> k \<Longrightarrow> k < b \<Longrightarrow> key_bin k < j \<longleftrightarrow> k < F j" and mono: "mono F" and ends: "F 0 = a" "F B = b"
    and ab: "a < b"
  shows "init_bins key_bin [a..<b] None (replicate B (b, b)) = Some (Some (key_bin (b - 1)), bin_range F B)"
proof -
  let ?j = "key_bin a"
  have jB: "?j < B" using key [of a B] ends(2) ab by simp
  let ?bins = "(replicate ?j (a, a) @ drop ?j (replicate B (b, b)))[?j := (a, a)]"
  let ?new = "?bins[?j := (a, a + 1)]"
  have step: "init_bins key_bin [a..<b] None (replicate B (b, b)) = init_bins key_bin [a + 1..<b] (Some ?j) ?new"
    using ab jB by (simp add: upt_conv_Cons skip_bins_def Let_def)
  have "\<forall>j<B. ?new ! j = (if j \<le> ?j then (min (a + 1) (F j), min (a + 1) (F (j + 1))) else (b, b))"
  proof (intro allI impI)
    fix j assume j: "j < B"
    have ge: "a \<le> F j" using monoD [OF mono, of 0 j] ends(1) by simp
    have le: "F j \<le> a" if "j \<le> ?j" using key [of a j] that ab by simp
    have ge': "a \<le> F (j + 1)" using monoD [OF mono, of 0 "j + 1"] ends(1) by simp
    consider "j < ?j" | "j = ?j" | "?j < j" by linarith
    then show "?new ! j = (if j \<le> ?j then (min (a + 1) (F j), min (a + 1) (F (j + 1))) else (b, b))"
    proof cases
      case 1
      then have "F (j + 1) \<le> a" using key [of a "j + 1"] ab by simp
      then show ?thesis using 1 ge ge' le jB by (simp add: nth_append nth_list_update)
    next
      case 2
      then have "a < F (j + 1)" using key [of a "j + 1"] ab by simp
      then show ?thesis using 2 ge le jB by (simp add: nth_append nth_list_update)
    next
      case 3
      then show ?thesis using jB j by (simp add: nth_append nth_list_update)
    qed
  qed
  moreover have "length ?new = B" using jB by simp
  ultimately show ?thesis
    unfolding step using init_bins_from [OF key mono ends, of "a + 1" ?new] ab by simp
qed

subsection \<open>Nodes\<close>

text \<open>
  What the builder needs of its parameters: distinct sorted keys, a power of two of bins, differences that the first level covers, and levels that
  reach the width of a single key, or stop at bins that are too narrow for more than \<^verbatim>\<open>max_error\<close> keys, before the widths run out.
  The number of nodes has to fit below the bit that marks leaves.
\<close>

definition cht_ok :: "'w::len word cht_params \<Rightarrow> bool" where
  "cht_ok C \<longleftrightarrow> cp_keys C \<noteq> [] \<and> sorted_wrt (<) (offsets C) \<and> cp_num_bins C = 2 ^ cp_log_num_bins C \<and> 1 \<le> cp_log_num_bins C \<and>
     (\<forall>d\<in>set (offsets C). d < 2 ^ (cp_shift C + cp_log_num_bins C)) \<and> cp_shift C + cp_log_num_bins C \<le> LENGTH('w) \<and>
     1 \<le> cp_max_error C \<and>
     (cp_shift C mod cp_log_num_bins C = 0 \<or> 2 ^ (cp_shift C mod cp_log_num_bins C) \<le> cp_max_error C) \<and>
     length (cp_keys C) * LENGTH('w) + 2 < 2 ^ 31"

lemma cht_okD:
  fixes C :: "'w::len word cht_params"
  assumes "cht_ok C"
  shows "offsets C \<noteq> []" "sorted_wrt (<) (offsets C)" "cp_num_bins C = 2 ^ cp_log_num_bins C" "1 \<le> cp_log_num_bins C"
    "\<And>i. i < length (offsets C) \<Longrightarrow> offsets C ! i < 2 ^ (cp_shift C + cp_log_num_bins C)"
    "cp_shift C + cp_log_num_bins C \<le> LENGTH('w)" "1 \<le> cp_max_error C"
    "cp_shift C mod cp_log_num_bins C = 0 \<or> 2 ^ (cp_shift C mod cp_log_num_bins C) \<le> cp_max_error C"
    "length (offsets C) * LENGTH('w) + 2 < 2 ^ 31" "length (offsets C) < 2 ^ 31"
proof -
  have "length (cp_keys C) * 1 \<le> length (cp_keys C) * LENGTH('w)" using len_gt_0 [where 'a = 'w] by (intro mult_le_mono2) linarith
  moreover have "length (cp_keys C) * LENGTH('w) + 2 < 2 ^ 31" using assms unfolding cht_ok_def by blast
  ultimately have "length (cp_keys C) < 2 ^ 31" by linarith
  then show "length (offsets C) < 2 ^ 31" by (simp add: offsets_def)
qed (use assms in \<open>auto simp: cht_ok_def offsets_def\<close>)

definition width_of :: "'w::len word cht_params \<Rightarrow> 'w word cht_node \<Rightarrow> nat" where
  "width_of C n = cp_shift C - nd_level n * cp_log_num_bins C"

text \<open>The number of keys before bin \<open>j\<close> of a node.\<close>

definition edge :: "'w::len word cht_params \<Rightarrow> 'w word cht_node \<Rightarrow> nat \<Rightarrow> nat" where
  "edge C n j = idx (offsets C) (unat (nd_lower n) + j * 2 ^ width_of C n)"

definition in_range :: "'w::len word cht_params \<Rightarrow> 'w word cht_node \<Rightarrow> bool" where
  "in_range C n \<longleftrightarrow> nd_level n * cp_log_num_bins C \<le> cp_shift C \<and>
     unat (nd_lower n) + 2 ^ (width_of C n + cp_log_num_bins C) \<le> 2 ^ (cp_shift C + cp_log_num_bins C)"

definition fresh :: "'w::len word cht_params \<Rightarrow> 'w word cht_node \<Rightarrow> bool" where
  "fresh C n \<longleftrightarrow> nd_bins n = bin_range (edge C n) (cp_num_bins C)"

text \<open>A bin that has been dealt with is a leaf with few keys, or the pointer to the node of its keys.\<close>

definition child_of :: "'w::len word cht_params \<Rightarrow> 'w word cht_node \<Rightarrow> nat \<Rightarrow> nat \<times> 'w word" where
  "child_of C n j = (nd_level n + 1, nd_lower n + of_nat (j * 2 ^ width_of C n))"

definition entry_ok :: "'w::len word cht_params \<Rightarrow> 'w word cht_node list \<Rightarrow> 'w word cht_node \<Rightarrow> nat \<Rightarrow> nat \<times> nat \<Rightarrow> bool" where
  "entry_ok C tree n j e \<longleftrightarrow>
     e = (edge C n j OR Leaf, edge C n (j + 1)) \<and> edge C n (j + 1) \<le> edge C n j + cp_max_error C \<or>
     (\<exists>c<length tree. e = (0, c) \<and> (nd_level (tree ! c), nd_lower (tree ! c)) = child_of C n j)"

lemma edge_mono: "i \<le> j \<Longrightarrow> edge C n i \<le> edge C n j"
  unfolding edge_def by (intro idx_mono add_left_mono mult_right_mono) auto

lemma edge_width:
  assumes "cht_ok C"
  shows "edge C n (j + 1) \<le> edge C n j + 2 ^ width_of C n"
  using idx_width [OF cht_okD(2) [OF assms], of "unat (nd_lower n) + j * 2 ^ width_of C n" "2 ^ width_of C n"]
  by (simp add: edge_def algebra_simps)

lemma edge_le: "edge C n j \<le> length (offsets C)"
  unfolding edge_def by (rule idx_le)

lemma node_width_ok:
  fixes C :: "'w::len word cht_params"
  assumes "cht_ok C" and "in_range C n"
  shows "node_width C (nd_level n) = Some (width_of C n)" and "width_of C n < LENGTH('w)"
  using assms cht_okD(4,6) [OF assms(1)] by (auto simp: node_width_def in_range_def width_of_def Let_def)

text \<open>A bin with more than \<^verbatim>\<open>max_error\<close> keys is wide enough for another level.\<close>

lemma split_width:
  assumes ok: "cht_ok C" and r: "in_range C n" and big: "edge C n (j + 1) - edge C n j > cp_max_error C"
  shows "cp_log_num_bins C \<le> width_of C n"
proof (rule ccontr)
  let ?w = "width_of C n"
  assume "\<not> ?thesis"
  then have lt: "?w < cp_log_num_bins C" by simp
  have "cp_shift C = ?w + nd_level n * cp_log_num_bins C" using r by (simp add: in_range_def width_of_def)
  then have "cp_shift C mod cp_log_num_bins C = ?w" using lt by simp
  then have "?w = 0 \<or> 2 ^ ?w \<le> cp_max_error C" using cht_okD(8) [OF ok] by simp
  moreover have "cp_max_error C < 2 ^ ?w" using big edge_width [OF ok, of n j] by linarith
  ultimately show False using cht_okD(7) [OF ok] by auto
qed

lemma unat_plus_of_nat: "unat (x :: 'w::len word) + m < 2 ^ LENGTH('w) \<Longrightarrow> unat (x + of_nat m) = unat x + m"
  by (simp add: unat_word_ariths unat_of_nat mod_simps)

lemma child_range:
  fixes C :: "'w::len word cht_params"
  assumes ok: "cht_ok C" and r: "in_range C n" and w: "cp_log_num_bins C \<le> width_of C n" and j: "j < cp_num_bins C"
    and c: "(nd_level c, nd_lower c) = child_of C n j"
  shows "in_range C c" and "width_of C c + cp_log_num_bins C = width_of C n"
    and "unat (nd_lower c) = unat (nd_lower n) + j * 2 ^ width_of C n"
proof -
  let ?w = "width_of C n" and ?l = "cp_log_num_bins C"
  note k = cht_okD [OF ok]
  have lev: "nd_level c = nd_level n + 1" "nd_lower c = nd_lower n + of_nat (j * 2 ^ ?w)" using c by (simp_all add: child_of_def)
  have "nd_level c * ?l = nd_level n * ?l + ?l" by (simp add: lev)
  then have le: "nd_level c * ?l \<le> cp_shift C" using r w unfolding in_range_def width_of_def by linarith
  then show wc: "width_of C c + ?l = ?w" using lev by (simp add: width_of_def)
  have "(j + 1) * 2 ^ ?w \<le> 2 ^ ?l * 2 ^ ?w" using j k(3) by (intro mult_right_mono) auto
  then have top: "unat (nd_lower n) + j * 2 ^ ?w + 2 ^ ?w \<le> 2 ^ (cp_shift C + ?l)"
    using r by (simp add: in_range_def power_add ac_simps)
  have "(2 :: nat) ^ (cp_shift C + ?l) \<le> 2 ^ LENGTH('w)" using k(6) by (intro power_increasing) auto
  moreover have "0 < (2 :: nat) ^ ?w" by simp
  ultimately have "unat (nd_lower n) + j * 2 ^ ?w < 2 ^ LENGTH('w)" using top by linarith
  then show low: "unat (nd_lower c) = unat (nd_lower n) + j * 2 ^ ?w"
    unfolding lev by (rule unat_plus_of_nat)
  show "in_range C c" unfolding in_range_def low wc using le top by simp
qed

lemma initNode_result:
  fixes C :: "'w::len word cht_params"
  assumes ok: "cht_ok C" and r: "in_range C n" and ends: "edge C n 0 = a" "edge C n (cp_num_bins C) = b" and ab: "a < b"
    and bins: "nd_bins n = replicate (cp_num_bins C) (b, b)"
  shows "initNode C n (a, b) = Some (n\<lparr>nd_bins := bin_range (edge C n) (cp_num_bins C)\<rparr>)"
proof -
  let ?w = "width_of C n" and ?B = "cp_num_bins C" and ?ds = "offsets C"
  note k = cht_okD [OF ok]
  define kb where "kb = (\<lambda>index. unat (drop_bit ?w (cp_keys C ! index - cp_min_key C - nd_lower n)))"
  have key: "kb i < j \<longleftrightarrow> i < edge C n j" if i: "a \<le> i" "i < b" for i j
  proof -
    have len: "i < length ?ds" using i ends(2) edge_le [of C n ?B] by simp
    have "\<not> i < edge C n 0" using ends(1) i by simp
    then have low: "unat (nd_lower n) \<le> ?ds ! i" using idx_iff [OF k(2) len] by (simp add: edge_def)
    have at: "?ds ! i = unat (cp_keys C ! i - cp_min_key C)" using len by (simp add: offsets_def)
    have "unat (cp_keys C ! i - cp_min_key C - nd_lower n) = ?ds ! i - unat (nd_lower n)"
      using low unfolding at by (intro unat_sub) (simp add: word_le_nat_alt)
    then have "kb i = (?ds ! i - unat (nd_lower n)) div 2 ^ ?w"
      unfolding kb_def unat_drop_bit_eq by (simp add: drop_bit_eq_div)
    then have "kb i < j \<longleftrightarrow> ?ds ! i - unat (nd_lower n) < j * 2 ^ ?w" by (simp add: div_less_iff_less_mult)
    also have "\<dots> \<longleftrightarrow> ?ds ! i < unat (nd_lower n) + j * 2 ^ ?w" using low by linarith
    also have "\<dots> \<longleftrightarrow> i < edge C n j" using idx_iff [OF k(2) len] by (simp add: edge_def)
    finally show ?thesis .
  qed
  have run: "init_bins kb [a..<b] None (nd_bins n) = Some (Some (kb (b - 1)), bin_range (edge C n) ?B)"
    unfolding bins by (rule init_bins_result [OF key _ ends ab]) (simp_all add: monoI edge_mono)
  have last: "a \<le> b - 1" "b - 1 < b" using ab by auto
  have inB: "kb (b - 1) < ?B" using key [OF last, of ?B] ends(2) ab by simp
  have "b - 1 < edge C n (kb (b - 1) + 1)" using key [OF last, of "kb (b - 1) + 1"] by simp
  moreover have "edge C n (kb (b - 1) + 1) \<le> b" using edge_mono [of "kb (b - 1) + 1" ?B C n] inB ends(2) by simp
  ultimately have "snd (bin_range (edge C n) ?B ! kb (b - 1)) = b" using inB by (simp add: bin_range_def)
  then show ?thesis using run node_width_ok(1) [OF ok r] by (simp add: initNode_def kb_def Let_def)
qed

lemma edge_cong: "nd_level m = nd_level n \<Longrightarrow> nd_lower m = nd_lower n \<Longrightarrow> edge C m = edge C n"
  by (rule ext) (simp add: edge_def width_of_def)

lemma in_range_cong: "nd_level m = nd_level n \<Longrightarrow> nd_lower m = nd_lower n \<Longrightarrow> in_range C m = in_range C n"
  by (simp add: in_range_def width_of_def)

lemma child_edges:
  fixes C :: "'w::len word cht_params"
  assumes "cht_ok C" and "in_range C n" and "cp_log_num_bins C \<le> width_of C n" and "j < cp_num_bins C"
    and "(nd_level c, nd_lower c) = child_of C n j"
  shows "edge C c 0 = edge C n j" and "edge C c (cp_num_bins C) = edge C n (j + 1)"
proof -
  note r = child_range [OF assms]
  show "edge C c 0 = edge C n j" by (simp add: edge_def r(3))
  have "cp_num_bins C * 2 ^ width_of C c = 2 ^ width_of C n" unfolding r(2) [symmetric] cht_okD(3) [OF assms(1)] by (simp add: power_add)
  then show "edge C c (cp_num_bins C) = edge C n (j + 1)" by (simp add: edge_def r(3) algebra_simps)
qed

end
