(* ===== verification/Ts_Cht_Build.thy ===== *)
theory Ts_Cht_Build
  imports Ts_Cht_Node
begin

text \<open>
  Building the compact histogram tree ends: every node that is split has at least two keys in the bin, and the levels are bounded. In the tree
  that results, every bin of every node is a leaf with few keys or the pointer to the node of its keys.
\<close>

subsection \<open>Splitting\<close>

text \<open>
  What a node in the queue may still cost: new nodes have at least two keys each and are one level deeper, so the weight of a node is more
  than that of its children.
\<close>

definition max_level :: "'w::len word cht_params \<Rightarrow> nat" where
  "max_level C = cp_shift C div cp_log_num_bins C"

definition weight :: "'w::len word cht_params \<Rightarrow> 'w word cht_node \<Rightarrow> nat" where
  "weight C n = (edge C n (cp_num_bins C) - edge C n 0) * (max_level C - nd_level n) + 1"

abbreviation splits_to ::
    "'w::len word cht_params \<Rightarrow> nat \<Rightarrow> nat \<Rightarrow> 'w word cht_node list \<Rightarrow> nat list \<Rightarrow> (nat \<times> nat) list \<Rightarrow> 'w word cht_node list \<Rightarrow> bool" where
  "splits_to C v j tree nodes bins news \<equiv>
     split_bins C v [j..<cp_num_bins C] tree nodes =
       Some (tree[v := (tree ! v)\<lparr>nd_bins := bins\<rparr>] @ news, nodes @ [length tree..<length tree + length news]) \<and>
     length bins = cp_num_bins C \<and> (\<forall>i<j. bins ! i = nd_bins (tree ! v) ! i) \<and>
     (\<forall>i. j \<le> i \<and> i < cp_num_bins C \<longrightarrow> entry_ok C (tree @ news) (tree ! v) i (bins ! i)) \<and>
     (\<forall>c\<in>set news. in_range C c \<and> fresh C c) \<and>
     sum_list (map (weight C) news) \<le>
       (edge C (tree ! v) (cp_num_bins C) - edge C (tree ! v) j) * (max_level C - nd_level (tree ! v) - 1) + length news \<and>
     2 * length news \<le> edge C (tree ! v) (cp_num_bins C) - edge C (tree ! v) j \<and>
     (news \<noteq> [] \<longrightarrow> nd_level (tree ! v) < max_level C)"

lemma entry_ok_ext:
  assumes "entry_ok C tree n j e" and "length tree \<le> length tree'"
    and "\<And>c. c < length tree \<Longrightarrow> nd_level (tree' ! c) = nd_level (tree ! c) \<and> nd_lower (tree' ! c) = nd_lower (tree ! c)"
  shows "entry_ok C tree' n j e"
  using assms unfolding entry_ok_def by (metis order_less_le_trans)

lemma entry_ok_cong:
  assumes "nd_level m = nd_level n" and "nd_lower m = nd_lower n"
  shows "entry_ok C tree m j e = entry_ok C tree n j e"
  using assms edge_cong [OF assms] by (simp add: entry_ok_def child_of_def width_of_def)

lemma split_leaf:
  assumes v: "v < length tree" and j: "j < cp_num_bins C" and len: "length (nd_bins (tree ! v)) = cp_num_bins C"
    and bin: "nd_bins (tree ! v) ! j = (edge C (tree ! v) j, edge C (tree ! v) (j + 1))"
    and few: "edge C (tree ! v) (j + 1) \<le> edge C (tree ! v) j + cp_max_error C"
    and rest: "splits_to C v (j + 1) (set_bin tree v j (edge C (tree ! v) j OR Leaf, edge C (tree ! v) (j + 1))) nodes bins news"
  shows "splits_to C v j tree nodes bins news"
proof -
  let ?n = "tree ! v" and ?B = "cp_num_bins C"
  let ?e = "(edge C ?n j OR Leaf, edge C ?n (j + 1))"
  let ?tree = "set_bin tree v j ?e"
  have n: "nd_level (?tree ! v) = nd_level ?n" "nd_lower (?tree ! v) = nd_lower ?n" "nd_bins (?tree ! v) = (nd_bins ?n)[j := ?e]"
      "(?tree ! v)\<lparr>nd_bins := bins\<rparr> = ?n\<lparr>nd_bins := bins\<rparr>" "?tree[v := x] = tree[v := x]" "length ?tree = length tree" for x
    using v by (simp_all add: set_bin_def)
  note ec = edge_cong [OF n(1,2), of C]
  have small: "\<not> edge C ?n (Suc j) - edge C ?n j > cp_max_error C" using few by simp
  have step: "split_bins C v [j..<?B] tree nodes = split_bins C v [j + 1..<?B] ?tree nodes"
    using j bin small edge_mono [of j "j + 1" C ?n] by (simp add: upt_conv_Cons Let_def)
  have same: "nd_level ((tree @ news) ! c) = nd_level ((?tree @ news) ! c) \<and> nd_lower ((tree @ news) ! c) = nd_lower ((?tree @ news) ! c)" for c
    using v by (simp add: set_bin_def nth_append nth_list_update)
  have ent: "entry_ok C (tree @ news) ?n i (bins ! i)" if i: "j \<le> i \<and> i < ?B" for i
  proof (cases "i = j")
    case True
    then show ?thesis using rest few len j unfolding n by (simp add: entry_ok_def)
  next
    case False
    then have "entry_ok C (?tree @ news) (?tree ! v) i (bins ! i)" using rest i by simp
    then have "entry_ok C (?tree @ news) ?n i (bins ! i)" unfolding entry_ok_cong [OF n(1,2)] .
    then show ?thesis by (rule entry_ok_ext) (use n(6) same in auto)
  qed
  have old: "\<forall>i<j. bins ! i = nd_bins ?n ! i" using rest unfolding n(3) by simp
  have less: "edge C ?n ?B - edge C ?n (j + 1) \<le> edge C ?n ?B - edge C ?n j" using edge_mono [of j "j + 1" C ?n] by simp
  have "sum_list (map (weight C) news) \<le> (edge C ?n ?B - edge C ?n (j + 1)) * (max_level C - nd_level ?n - 1) + length news"
    using rest unfolding n ec by blast
  also have "\<dots> \<le> (edge C ?n ?B - edge C ?n j) * (max_level C - nd_level ?n - 1) + length news"
    using less by (intro add_right_mono mult_right_mono) simp_all
  finally have weights: "sum_list (map (weight C) news) \<le> (edge C ?n ?B - edge C ?n j) * (max_level C - nd_level ?n - 1) + length news" .
  have count: "2 * length news \<le> edge C ?n ?B - edge C ?n j" using rest less unfolding n ec by linarith
  show ?thesis using rest ent old unfolding step n ec by (intro conjI weights count) auto
qed

lemma split_child:
  fixes C :: "'w::len word cht_params"
  assumes ok: "cht_ok C" and v: "v < length tree" and r: "in_range C (tree ! v)" and j: "j < cp_num_bins C"
    and len: "length (nd_bins (tree ! v)) = cp_num_bins C"
    and bin: "nd_bins (tree ! v) ! j = (edge C (tree ! v) j, edge C (tree ! v) (j + 1))"
    and many: "edge C (tree ! v) (j + 1) - edge C (tree ! v) j > cp_max_error C"
    and rest: "\<And>child. splits_to C v (j + 1) (set_bin (tree @ [child]) v j (0, length tree)) (nodes @ [length tree]) (bins child) (news child)"
  shows "\<exists>bins news. splits_to C v j tree nodes bins news"
proof -
  let ?n = "tree ! v" and ?B = "cp_num_bins C"
  let ?w = "width_of C ?n"
  define new where "new = \<lparr>nd_level = nd_level ?n + 1, nd_lower = nd_lower ?n + of_nat (j * 2 ^ ?w),
    nd_bins = replicate ?B (edge C ?n (j + 1), edge C ?n (j + 1))\<rparr>"
  define child where "child = new\<lparr>nd_bins := bin_range (edge C new) ?B\<rparr>"
  have c: "(nd_level new, nd_lower new) = child_of C ?n j" by (simp add: new_def child_of_def)
  note w = split_width [OF ok r many]
  note cr = child_range [OF ok r w j c] and ce = child_edges [OF ok r w j c]
  have ab: "edge C ?n j < edge C ?n (j + 1)" using many by linarith
  have init: "initNode C new (edge C ?n j, edge C ?n (j + 1)) = Some child"
    unfolding child_def by (rule initNode_result [OF ok cr(1) ce ab]) (simp add: new_def)
  have cc: "nd_level child = nd_level new" "nd_lower child = nd_lower new" by (simp_all add: child_def)
  have "in_range C child" using cr(1) in_range_cong [OF cc] by simp
  moreover have "fresh C child" unfolding fresh_def edge_cong [OF cc] by (simp add: child_def)
  ultimately have child: "in_range C child" "fresh C child" by blast+
  let ?tree = "set_bin (tree @ [child]) v j (0, length tree)"
  have n: "nd_level (?tree ! v) = nd_level ?n" "nd_lower (?tree ! v) = nd_lower ?n" "nd_bins (?tree ! v) = (nd_bins ?n)[j := (0, length tree)]"
      "(?tree ! v)\<lparr>nd_bins := b\<rparr> = ?n\<lparr>nd_bins := b\<rparr>" "?tree[v := x] = tree[v := x] @ [child]" "length ?tree = Suc (length tree)" for b x
    using v by (simp_all add: set_bin_def nth_append list_update_append1)
  note ec = edge_cong [OF n(1,2), of C]
  let ?bins = "bins child" and ?news = "news child"
  note rest = rest [of child]
  have upto: "\<not> edge C ?n (j + 1) - edge C ?n j > 2 ^ ?w" using edge_width [OF ok, of ?n j] by simp
  have step: "split_bins C v [j..<?B] tree nodes = split_bins C v [j + 1..<?B] ?tree (nodes @ [length tree])"
    using j bin many upto ab node_width_ok(1) [OF ok r] init by (simp add: upt_conv_Cons new_def Let_def)
  have same: "nd_level ((tree @ child # ?news) ! i) = nd_level ((?tree @ ?news) ! i) \<and>
      nd_lower ((tree @ child # ?news) ! i) = nd_lower ((?tree @ ?news) ! i)" for i
    using v by (auto simp: set_bin_def nth_append nth_list_update nth_Cons')
  have ent: "entry_ok C (tree @ child # ?news) ?n i (?bins ! i)" if i: "j \<le> i \<and> i < ?B" for i
  proof (cases "i = j")
    case True
    then have "?bins ! i = (0, length tree)" using rest len j unfolding n by simp
    then show ?thesis using True c cc by (auto simp: entry_ok_def)
  next
    case False
    then have "entry_ok C (?tree @ ?news) (?tree ! v) i (?bins ! i)" using rest i by simp
    then have "entry_ok C (?tree @ ?news) ?n i (?bins ! i)" unfolding entry_ok_cong [OF n(1,2)] .
    then show ?thesis by (rule entry_ok_ext) (use n(6) same in auto)
  qed
  have old: "\<forall>i<j. ?bins ! i = nd_bins ?n ! i" using rest unfolding n(3) by simp
  have two: "2 \<le> edge C ?n (j + 1) - edge C ?n j" using many cht_okD(7) [OF ok] by simp
  have diff: "edge C ?n ?B - edge C ?n j = (edge C ?n ?B - edge C ?n (j + 1)) + (edge C ?n (j + 1) - edge C ?n j)"
    using edge_mono [of "j + 1" ?B C ?n] j ab by simp
  have wc: "weight C child = (edge C ?n (j + 1) - edge C ?n j) * (max_level C - nd_level ?n - 1) + 1"
    unfolding weight_def edge_cong [OF cc] ce by (simp add: cc new_def)
  have "sum_list (map (weight C) (child # ?news)) \<le>
      (edge C ?n ?B - edge C ?n j) * (max_level C - nd_level ?n - 1) + length (child # ?news)"
    using rest unfolding diff n ec by (simp add: wc add_mult_distrib)
  moreover have "2 * length ?news \<le> edge C ?n ?B - edge C ?n (j + 1)" using rest unfolding n ec by blast
  then have "2 * length (child # ?news) \<le> edge C ?n ?B - edge C ?n j"
    unfolding length_Cons mult_Suc_right using two diff by linarith
  moreover have "tree[v := ?n\<lparr>nd_bins := ?bins\<rparr>] @ child # ?news = ?tree[v := (?tree ! v)\<lparr>nd_bins := ?bins\<rparr>] @ ?news" unfolding n by simp
  moreover have "nodes @ [length tree..<length tree + length (child # ?news)] = (nodes @ [length tree]) @ [length ?tree..<length ?tree + length ?news]"
    
    unfolding n using upt_conv_Cons [of "length tree" "length tree + length (child # ?news)"] by simp
  moreover have "(nd_level ?n + 1) * cp_log_num_bins C \<le> cp_shift C"
    using r w unfolding in_range_def width_of_def add_mult_distrib by linarith
  then have "nd_level ?n + 1 \<le> max_level C"
    unfolding max_level_def using cht_okD(4) [OF ok] by (subst less_eq_div_iff_mult_less_eq) simp_all
  then have "nd_level ?n < max_level C" by simp
  ultimately have "splits_to C v j tree nodes ?bins (child # ?news)"
    using rest ent old child unfolding step by (intro conjI) auto
  then show ?thesis by blast
qed

lemma split_bins_result:
  fixes C :: "'w::len word cht_params"
  assumes ok: "cht_ok C" and "v < length tree" and "in_range C (tree ! v)" and "length (nd_bins (tree ! v)) = cp_num_bins C"
    and "j \<le> cp_num_bins C"
    and "\<forall>i. j \<le> i \<and> i < cp_num_bins C \<longrightarrow> nd_bins (tree ! v) ! i = (edge C (tree ! v) i, edge C (tree ! v) (i + 1))"
  shows "\<exists>bins news. splits_to C v j tree nodes bins news"
  using assms(2-)
proof (induction "cp_num_bins C - j" arbitrary: j tree nodes)
  case 0
  then have "j = cp_num_bins C" by simp
  then have "splits_to C v j tree nodes (nd_bins (tree ! v)) []" using 0 by auto
  then show ?case by blast
next
  case (Suc m)
  let ?n = "tree ! v"
  have j: "j < cp_num_bins C" using Suc.hyps(2) by simp
  have bin: "nd_bins ?n ! j = (edge C ?n j, edge C ?n (j + 1))" using Suc.prems(5) j by blast
  have rest: "\<exists>bins news. splits_to C v (j + 1) tree' nodes' bins news"
    if t: "v < length tree'" "nd_level (tree' ! v) = nd_level ?n" "nd_lower (tree' ! v) = nd_lower ?n" "nd_bins (tree' ! v) = (nd_bins ?n)[j := e]"
    for tree' nodes' e
  proof (rule Suc.hyps(1))
    show "in_range C (tree' ! v)" using Suc.prems(2) in_range_cong [OF t(2,3)] by simp
    show "\<forall>i. j + 1 \<le> i \<and> i < cp_num_bins C \<longrightarrow> nd_bins (tree' ! v) ! i = (edge C (tree' ! v) i, edge C (tree' ! v) (i + 1))"
      using Suc.prems(5) unfolding t(4) edge_cong [OF t(2,3)] by simp
  qed (use Suc.hyps(2) Suc.prems j t in auto)
  show ?case
  proof (cases "edge C ?n (j + 1) - edge C ?n j > cp_max_error C")
    case True
    have "\<forall>child. \<exists>bins news. splits_to C v (j + 1) (set_bin (tree @ [child]) v j (0, length tree)) (nodes @ [length tree]) bins news"
      using Suc.prems(1) by (intro allI rest [where e = "(0, length tree)"]) (simp_all add: set_bin_def nth_append)
    then obtain bins news where
      "\<And>child. splits_to C v (j + 1) (set_bin (tree @ [child]) v j (0, length tree)) (nodes @ [length tree]) (bins child) (news child)"
      by metis
    then show ?thesis by (rule split_child [OF ok Suc.prems(1,2) j Suc.prems(3) bin True])
  next
    case False
    let ?e = "(edge C ?n j OR Leaf, edge C ?n (j + 1))"
    have "\<exists>bins news. splits_to C v (j + 1) (set_bin tree v j ?e) nodes bins news"
      using Suc.prems(1) by (intro rest [where e = ?e]) (simp_all add: set_bin_def)
    then obtain bins news where "splits_to C v (j + 1) (set_bin tree v j ?e) nodes bins news" by blast
    then have "splits_to C v j tree nodes bins news"
      using False by (intro split_leaf [OF Suc.prems(1) j Suc.prems(3) bin]) auto
    then show ?thesis by blast
  qed
qed

subsection \<open>The queue\<close>

definition tree_inv :: "'w::len word cht_params \<Rightarrow> nat \<Rightarrow> 'w word cht_node list \<Rightarrow> bool" where
  "tree_inv C k tree \<longleftrightarrow> k \<le> length tree \<and> (\<forall>v<length tree. in_range C (tree ! v) \<and> length (nd_bins (tree ! v)) = cp_num_bins C) \<and>
     (\<forall>v. k \<le> v \<and> v < length tree \<longrightarrow> fresh C (tree ! v)) \<and>
     (\<forall>v<k. \<forall>i<cp_num_bins C. entry_ok C tree (tree ! v) i (nd_bins (tree ! v) ! i))"

text \<open>The nodes of a tree, and what the nodes from \<open>k\<close> on may still add to them.\<close>

definition potential :: "'w::len word cht_params \<Rightarrow> nat \<Rightarrow> 'w word cht_node list \<Rightarrow> nat" where
  "potential C k tree = length tree + sum_list (map (weight C) (drop k tree))"

definition extends :: "'k cht_node list \<Rightarrow> 'k cht_node list \<Rightarrow> bool" where
  "extends tree tree' \<longleftrightarrow> length tree \<le> length tree' \<and>
     (\<forall>v<length tree. nd_level (tree' ! v) = nd_level (tree ! v) \<and> nd_lower (tree' ! v) = nd_lower (tree ! v))"

lemma extends_refl: "extends tree tree"
  by (simp add: extends_def)

lemma extends_trans: "extends t1 t2 \<Longrightarrow> extends t2 t3 \<Longrightarrow> extends t1 t3"
  by (auto simp: extends_def)

lemma split_node:
  fixes C :: "'w::len word cht_params"
  assumes ok: "cht_ok C" and inv: "tree_inv C k tree" and k: "k < length tree"
  shows "\<exists>tree'. split_bins C k [0..<cp_num_bins C] tree [k + 1..<length tree] = Some (tree', [k + 1..<length tree']) \<and>
    tree_inv C (k + 1) tree' \<and> extends tree tree' \<and> potential C (k + 1) tree' < potential C k tree"
proof -
  let ?n = "tree ! k" and ?B = "cp_num_bins C"
  have n: "in_range C ?n" "length (nd_bins ?n) = ?B" "fresh C ?n" using inv k by (simp_all add: tree_inv_def)
  have "\<forall>i. 0 \<le> i \<and> i < ?B \<longrightarrow> nd_bins ?n ! i = (edge C ?n i, edge C ?n (i + 1))" using n(3) by (simp add: fresh_def bin_range_def)
  from split_bins_result [OF ok k n(1,2) _ this, of "[k + 1..<length tree]"]
  obtain bins news where s: "splits_to C k 0 tree [k + 1..<length tree] bins news" by auto
  let ?tree = "tree[k := ?n\<lparr>nd_bins := bins\<rparr>] @ news"
  have at: "?tree ! v = (if v < length tree then if v = k then ?n\<lparr>nd_bins := bins\<rparr> else tree ! v else news ! (v - length tree))" for v
    by (simp add: nth_append)
  have same: "v < length tree \<Longrightarrow> nd_level (?tree ! v) = nd_level (tree ! v) \<and> nd_lower (?tree ! v) = nd_lower (tree ! v)" for v
    unfolding at by simp
  have ext: "extends tree ?tree" unfolding extends_def using same by simp
  have "split_bins C k [0..<?B] tree [k + 1..<length tree] = Some (?tree, [k + 1..<length ?tree])"
    using s k upt_add_eq_append [of "k + 1" "length tree" "length news"] by simp
  moreover have "tree_inv C (k + 1) ?tree"
    unfolding tree_inv_def
  proof (intro conjI allI impI)
    show "k + 1 \<le> length ?tree" using k by simp
  next
    fix v assume v: "v < length ?tree"
    show "in_range C (?tree ! v)"
    proof (cases "v < length tree")
      case True
      then have "in_range C (tree ! v)" using inv by (simp add: tree_inv_def)
      then show ?thesis using in_range_cong [of "?tree ! v" "tree ! v" C] same [OF True] by blast
    next
      case False
      then have "news ! (v - length tree) \<in> set news" using v by simp
      then show ?thesis using s False unfolding at by simp
    qed
    show "length (nd_bins (?tree ! v)) = ?B"
    proof (cases "v < length tree")
      case True
      then show ?thesis using inv s unfolding at by (simp add: tree_inv_def)
    next
      case False
      then have "news ! (v - length tree) \<in> set news" using v by simp
      then have "fresh C (news ! (v - length tree))" using s by blast
      then show ?thesis using False unfolding at by (simp add: fresh_def bin_range_def)
    qed
  next
    fix v assume v: "k + 1 \<le> v \<and> v < length ?tree"
    show "fresh C (?tree ! v)"
    proof (cases "v < length tree")
      case True
      then show ?thesis using inv v unfolding at by (simp add: tree_inv_def)
    next
      case False
      then have "v - length tree < length news" using v by auto
      then have "news ! (v - length tree) \<in> set news" by simp
      then show ?thesis using s False unfolding at by simp
    qed
  next
    fix v i assume v: "v < k + 1" and i: "i < ?B"
    show "entry_ok C ?tree (?tree ! v) i (nd_bins (?tree ! v) ! i)"
    proof (cases "v = k")
      case True
      have "entry_ok C (tree @ news) ?n i (bins ! i)" using s i by simp
      then have "entry_ok C ?tree ?n i (bins ! i)"
        by (rule entry_ok_ext) (use same in \<open>auto simp: nth_append\<close>)
      then show ?thesis using True k entry_ok_cong [of "?n\<lparr>nd_bins := bins\<rparr>" ?n C] unfolding at by simp
    next
      case False
      then have "entry_ok C tree (tree ! v) i (nd_bins (tree ! v) ! i)" using inv v i by (simp add: tree_inv_def)
      then have "entry_ok C ?tree (tree ! v) i (nd_bins (tree ! v) ! i)" by (rule entry_ok_ext) (use same in auto)
      then show ?thesis using False v k unfolding at by simp
    qed
  qed
  moreover have "potential C (k + 1) ?tree < potential C k tree"
  proof -
    let ?m = "edge C ?n ?B - edge C ?n 0" and ?l = "max_level C - nd_level ?n"
    have drop: "drop (k + 1) ?tree = drop (k + 1) tree @ news" using k by simp
    have w: "sum_list (map (weight C) (drop k tree)) = weight C ?n + sum_list (map (weight C) (drop (k + 1) tree))"
      using k by (simp add: Cons_nth_drop_Suc [symmetric])
    have "2 * length news + ?m * (?l - 1) \<le> ?m * ?l"
    proof (cases "news = []")
      case False
      then obtain d where d: "?l = Suc d" using s by (metis Suc_diff_Suc)
      have "2 * length news \<le> ?m" using s by blast
      then show ?thesis unfolding d by simp
    next
      case True
      have "?m * (?l - 1) \<le> ?m * ?l" by (intro mult_le_mono2) simp
      then show ?thesis using True by simp
    qed
    then show ?thesis using s unfolding potential_def drop w map_append sum_list_append weight_def by simp
  qed
  ultimately show ?thesis using ext by blast
qed

lemma BuildOffline_loop_result:
  fixes C :: "'w::len word cht_params"
  assumes "cht_ok C" and "tree_inv C k tree"
  shows "\<exists>tree'. BuildOffline_loop C tree [k..<length tree] = Some tree' \<and> tree_inv C (length tree') tree' \<and> extends tree tree' \<and>
    length tree' \<le> potential C k tree"
  using assms(2)
proof (induction "potential C k tree" arbitrary: k tree rule: less_induct)
  case less
  show ?case
  proof (cases "k < length tree")
    case True
    obtain tree' where t: "split_bins C k [0..<cp_num_bins C] tree [k + 1..<length tree] = Some (tree', [k + 1..<length tree'])"
      "tree_inv C (k + 1) tree'" "extends tree tree'" "potential C (k + 1) tree' < potential C k tree"
      using split_node [OF assms(1) less.prems True] by blast
    obtain tree'' where "BuildOffline_loop C tree' [k + 1..<length tree'] = Some tree''" "tree_inv C (length tree'') tree''"
      "extends tree' tree''" "length tree'' \<le> potential C (k + 1) tree'"
      using less.hyps [OF t(4,2)] by blast
    then show ?thesis using t True extends_trans
      by (auto simp: BuildOffline_loop.simps [of C tree] upt_conv_Cons)
  next
    case False
    then have "k = length tree" using less.prems by (simp add: tree_inv_def)
    then show ?thesis using less.prems by (simp add: BuildOffline_loop.simps extends_refl potential_def)
  qed
qed

text \<open>The tree has a root over all keys, and every bin of every node has been dealt with.\<close>

definition cht_tree :: "'w::len word cht_params \<Rightarrow> 'w word cht_node list \<Rightarrow> bool" where
  "cht_tree C tree \<longleftrightarrow> tree \<noteq> [] \<and> nd_level (hd tree) = 0 \<and> nd_lower (hd tree) = 0 \<and> length tree < 2 ^ 31 \<and>
     (\<forall>n\<in>set tree. in_range C n \<and> length (nd_bins n) = cp_num_bins C \<and> (\<forall>i<cp_num_bins C. entry_ok C tree n i (nd_bins n ! i)))"

lemma idx_all: "(\<And>d. d \<in> set ds \<Longrightarrow> d < x) \<Longrightarrow> idx ds x = length ds"
  unfolding idx_def by (subst takeWhile_eq_all_conv [THEN iffD2]) auto

lemma idx_0 [simp]: "idx ds 0 = 0"
  by (cases ds) (simp_all add: idx_def)

lemma BuildOffline_result:
  fixes C :: "'w::len word cht_params"
  assumes ok: "cht_ok C"
  shows "\<exists>tree. BuildOffline C = Some tree \<and> cht_tree C tree"
proof -
  note k = cht_okD [OF ok]
  let ?n = "length (offsets C)" and ?B = "cp_num_bins C"
  define root where "root = \<lparr>nd_level = 0, nd_lower = (0 :: 'w word), nd_bins = replicate ?B (?n, ?n)\<rparr>"
  define root' where "root' = root\<lparr>nd_bins := bin_range (edge C root) ?B\<rparr>"
  have same: "nd_level root' = nd_level root" "nd_lower root' = nd_lower root" by (simp_all add: root'_def)
  have r: "in_range C root" by (simp add: in_range_def root_def width_of_def)
  have first: "edge C root 0 = 0" by (simp add: edge_def root_def)
  have last: "edge C root ?B = ?n"
    unfolding edge_def
  proof (rule idx_all)
    fix d assume "d \<in> set (offsets C)"
    then have "d < 2 ^ (cp_shift C + cp_log_num_bins C)" using k(5) by (auto simp: in_set_conv_nth)
    then show "d < unat (nd_lower root) + ?B * 2 ^ width_of C root" by (simp add: root_def width_of_def k(3) power_add mult.commute)
  qed
  have init: "initNode C root (0, ?n) = Some root'"
    unfolding root'_def using k(1) by (intro initNode_result [OF ok r first last]) (simp_all add: root_def)
  have inv: "tree_inv C 0 [root']"
    using r in_range_cong [OF same, of C] edge_cong [OF same, of C]
    by (simp add: tree_inv_def fresh_def) (simp add: root'_def bin_range_def)
  obtain tree where t: "BuildOffline_loop C [root'] [0] = Some tree" "tree_inv C (length tree) tree" "extends [root'] tree"
      "length tree \<le> potential C 0 [root']"
    using BuildOffline_loop_result [OF ok inv] by auto
  have "max_level C \<le> cp_shift C" unfolding max_level_def by (rule div_le_dividend)
  then have "?n * max_level C \<le> ?n * LENGTH('w)" using k(6) by (intro mult_le_mono2) linarith
  moreover have "potential C 0 [root'] = ?n * max_level C + 2"
    using edge_cong [OF same, of C] first last by (simp add: potential_def weight_def same) (simp add: root_def)
  ultimately have small: "length tree < 2 ^ 31" using t(4) k(9) by linarith
  have ne: "tree \<noteq> []" using t(3) by (auto simp: extends_def)
  then have hd: "hd tree = tree ! 0" by (rule hd_conv_nth)
  have "nd_level (tree ! 0) = 0" "nd_lower (tree ! 0) = 0" using t(3) same by (simp_all add: extends_def root_def)
  then have "cht_tree C tree"
    unfolding cht_tree_def hd using ne small t(2) by (auto simp: tree_inv_def in_set_conv_nth)
  moreover have "BuildOffline C = Some tree"
    using init t(1) by (simp add: BuildOffline_def root_def offsets_def Let_def)
  ultimately show ?thesis by blast
qed

end
