(* ===== verification/Ts_Cht_Correct.thy ===== *)
theory Ts_Cht_Correct
  imports Ts_Cht_Build
begin

text \<open>
  Lookups in the finished compact histogram tree: for every key of its range, the range of positions that \<^verbatim>\<open>GetSearchBound\<close> returns contains
  the lower bound of the key in the keys the tree was built on, with the flattened tree as well as with the radix table.
\<close>

subsection \<open>Flattening\<close>

lemma foldl_update_nth:
  assumes "inj_on f (set xs)" and "\<forall>x\<in>set xs. f x < length t"
  shows "length (foldl (\<lambda>t x. t[f x := g x]) t xs) = length t \<and>
    (\<forall>x\<in>set xs. foldl (\<lambda>t x. t[f x := g x]) t xs ! f x = g x) \<and>
    (\<forall>i. i \<notin> f ` set xs \<longrightarrow> foldl (\<lambda>t x. t[f x := g x]) t xs ! i = t ! i)"
  using assms
proof (induction xs arbitrary: t)
  case (Cons x xs)
  let ?t = "t[f x := g x]"
  have IH: "length (foldl (\<lambda>t x. t[f x := g x]) ?t xs) = length ?t"
    "\<forall>x\<in>set xs. foldl (\<lambda>t x. t[f x := g x]) ?t xs ! f x = g x"
    "\<forall>i. i \<notin> f ` set xs \<longrightarrow> foldl (\<lambda>t x. t[f x := g x]) ?t xs ! i = ?t ! i"
    using Cons.IH [of ?t] Cons.prems by auto
  have "foldl (\<lambda>t x. t[f x := g x]) ?t xs ! f x = g x"
  proof (cases "x \<in> set xs")
    case False
    then have "f x \<notin> f ` set xs" using Cons.prems(1) by (auto dest: inj_onD)
    then show ?thesis using IH(3) Cons.prems(2) by simp
  qed (use IH(2) in blast)
  then show ?case using IH by auto
qed simp

lemma cell_inj: "a < m \<Longrightarrow> b < m \<Longrightarrow> i * m + a = j * m + b \<Longrightarrow> i = j \<and> a = (b :: nat)"
  by (metis add.commute div_mult_self1 div_less mod_mult_self1 mod_less add_0 less_nat_zero_code)

lemma Flatten_table_nth:
  assumes B: "cp_num_bins C = 2 ^ cp_log_num_bins C" and v: "v < length tree" and i: "i < cp_num_bins C"
  shows "v * 2 ^ cp_log_num_bins C + i < length (Flatten_table C tree)"
    and "Flatten_table C tree ! (v * 2 ^ cp_log_num_bins C + i) = flat_entry (nd_bins (tree ! v) ! i)"
proof -
  let ?B = "2 ^ cp_log_num_bins C :: nat"
  let ?xs = "List.product [0..<length tree] [0..<?B]" and ?f = "\<lambda>p. fst p * ?B + snd p :: nat"
  have cell: "a * ?B + b < length tree * ?B" if "a < length tree" "b < ?B" for a b
  proof -
    have "(a + 1) * ?B \<le> length tree * ?B" using that(1) by (intro mult_le_mono1) simp
    then show ?thesis using that(2) by simp
  qed
  have inj: "inj_on ?f (set ?xs)" by (rule inj_onI) (auto dest: cell_inj)
  have "\<forall>x\<in>set ?xs. ?f x < length (replicate (length tree * ?B) (0::nat))" using cell by auto
  note nth = foldl_update_nth [OF inj this, of "\<lambda>p. flat_entry (nd_bins (tree ! fst p) ! snd p)"]
  have "(v, i) \<in> set ?xs" using v i B by auto
  then show "Flatten_table C tree ! (v * ?B + i) = flat_entry (nd_bins (tree ! v) ! i)"
    unfolding Flatten_table_def split_def B using nth by force
  show "v * ?B + i < length (Flatten_table C tree)"
    unfolding Flatten_table_def split_def B using nth cell [OF v] i B by simp
qed

lemma Flatten_table_length: "length (Flatten_table C tree) = length tree * cp_num_bins C"
proof -
  have "length (foldl (\<lambda>t p. t[f p := g p]) t xs) = length t" for f g and t :: "nat list" and xs :: "(nat \<times> nat) list"
    by (induction xs arbitrary: t) simp_all
  then show ?thesis unfolding Flatten_table_def split_def by simp
qed

subsection \<open>The loop of a lookup\<close>

lemma leaf_bits:
  assumes "e < 2 ^ 31"
  shows "bit (e OR Leaf) 31" and "take_bit 31 (e OR Leaf) = e" and "\<not> bit e 31"
proof -
  show "bit (e OR Leaf) 31" by (simp add: bit_or_iff bit_0)
  have "take_bit 31 Leaf = (0 :: nat)" by (simp add: take_bit_eq_mod)
  moreover have t: "take_bit 31 e = e" using assms by (simp add: take_bit_nat_eq_self)
  ultimately show "take_bit 31 (e OR Leaf) = e" unfolding take_bit_or by simp
  show "\<not> bit e 31" using t bit_take_bit_iff [of 31 e 31] by auto
qed

lemma or_leaf_bound:
  assumes "e < 2 ^ 31"
  shows "e OR Leaf < 2 ^ 32"
proof -
  have "take_bit 32 (e OR Leaf) = e OR Leaf" using assms by (simp add: take_bit_or take_bit_nat_eq_self)
  then show ?thesis by (metis take_bit_nat_less_exp)
qed

text \<open>The entries are values of type \<^verbatim>\<open>unsigned\<close>.\<close>

lemma Flatten_table_u32:
  assumes ok: "cht_ok C" and tree: "cht_tree C tree" and x: "x \<in> set (Flatten_table C tree)"
  shows "x < 2 ^ 32"
proof -
  note k = cht_okD [OF ok]
  let ?B = "2 ^ cp_log_num_bins C :: nat"
  obtain i where i: "i < length (Flatten_table C tree)" "Flatten_table C tree ! i = x" using x by (metis in_set_conv_nth)
  have "i < length tree * ?B" using i(1) unfolding Flatten_table_length k(3) .
  then have v: "i div ?B < length tree" by (simp add: div_less_iff_less_mult)
  have b: "i mod ?B < cp_num_bins C" unfolding k(3) by simp
  have "x = flat_entry (nd_bins (tree ! (i div ?B)) ! (i mod ?B))"
    using Flatten_table_nth(2) [OF k(3) v b] unfolding div_mult_mod_eq i(2) .
  moreover have "entry_ok C tree (tree ! (i div ?B)) (i mod ?B) (nd_bins (tree ! (i div ?B)) ! (i mod ?B))"
    using tree nth_mem [OF v] b by (auto simp: cht_tree_def)
  moreover have "edge C n j < 2 ^ 31" for n j using edge_le [of C n j] k(10) by linarith
  moreover have "c < 2 ^ 31" if "c < length tree" for c using that tree unfolding cht_tree_def by linarith
  ultimately show ?thesis
    using or_leaf_bound leaf_bits(1,3) by (fastforce simp: entry_ok_def flat_entry_def)
qed

lemma cht_loop_result:
  fixes C :: "'w::len word cht_params" and d :: "'w word"
  assumes ok: "cht_ok C" and tree: "cht_tree C tree" and t: "ct_table t = Flatten_table C tree" "ct_log_num_bins t = cp_log_num_bins C"
    and v: "v < length tree" and lo: "unat (nd_lower (tree ! v)) \<le> unat d"
    and hi: "unat d < unat (nd_lower (tree ! v)) + 2 ^ (width_of C (tree ! v) + cp_log_num_bins C)"
  shows "\<exists>r. cht_loop t (d - nd_lower (tree ! v)) (width_of C (tree ! v)) v = Some r \<and>
    r \<le> idx (offsets C) (unat d) \<and> idx (offsets C) (unat d) \<le> r + cp_max_error C"
  using v lo hi
proof (induction "width_of C (tree ! v)" arbitrary: v rule: less_induct)
  case less
  let ?n = "tree ! v" and ?l = "cp_log_num_bins C"
  let ?w = "width_of C ?n"
  note k = cht_okD [OF ok]
  have n: "in_range C ?n" "\<And>i. i < cp_num_bins C \<Longrightarrow> entry_ok C tree ?n i (nd_bins ?n ! i)"
    using tree nth_mem [OF less.prems(1)] by (auto simp: cht_tree_def)
  have sub: "unat (d - nd_lower ?n) = unat d - unat (nd_lower ?n)"
    using less.prems(2) by (intro unat_sub) (simp add: word_le_nat_alt)
  define bin where "bin = (unat d - unat (nd_lower ?n)) div 2 ^ ?w"
  have shr: "shr (d - nd_lower ?n) ?w = Some bin"
    using node_width_ok(2) [OF ok n(1)] unfolding shr_def bin_def unat_drop_bit_eq sub by (simp add: drop_bit_eq_div)
  have B: "bin < cp_num_bins C"
    unfolding bin_def k(3) using less.prems(2,3) by (simp add: div_less_iff_less_mult power_add mult.commute)
  have "bin * 2 ^ ?w \<le> unat d - unat (nd_lower ?n)" unfolding bin_def by simp
  moreover have "unat d - unat (nd_lower ?n) < (bin + 1) * 2 ^ ?w" unfolding bin_def using dividend_less_div_times [of "2 ^ ?w"] by simp
  ultimately have in_bin: "unat (nd_lower ?n) + bin * 2 ^ ?w \<le> unat d" "unat d < unat (nd_lower ?n) + (bin + 1) * 2 ^ ?w"
    using less.prems(2) by linarith+
  have pos: "edge C ?n bin \<le> idx (offsets C) (unat d)" "idx (offsets C) (unat d) \<le> edge C ?n (bin + 1)"
    unfolding edge_def using in_bin by (auto intro!: idx_mono)
  note cell = Flatten_table_nth [OF k(3) less.prems(1) B]
  have got: "get (ct_table t) (v * 2 ^ ?l + bin) = Some (flat_entry (nd_bins ?n ! bin))" using cell by (simp add: get_def t)
  have loop: "cht_loop t (d - nd_lower ?n) ?w v =
      (let next = flat_entry (nd_bins ?n ! bin)
       in if bit next 31 then Some (take_bit 31 next)
          else if ?w < ?l then None else cht_loop t (d - nd_lower ?n - push_bit ?w (of_nat bin)) (?w - ?l) next)"
    by (subst cht_loop.simps) (simp add: shr got t(2) Let_def)
  have small: "edge C ?n bin < 2 ^ 31" using edge_le [of C ?n bin] k(10) by linarith
  from n(2) [OF B] consider
    (leaf) "nd_bins ?n ! bin = (edge C ?n bin OR Leaf, edge C ?n (bin + 1))" "edge C ?n (bin + 1) \<le> edge C ?n bin + cp_max_error C"
  | (child) c where "c < length tree" "nd_bins ?n ! bin = (0, c)" "(nd_level (tree ! c), nd_lower (tree ! c)) = child_of C ?n bin"
    unfolding entry_ok_def by blast
  then show ?case
  proof cases
    case leaf
    then have "flat_entry (nd_bins ?n ! bin) = edge C ?n bin OR Leaf" using leaf_bits(1) [OF small] by (simp add: flat_entry_def)
    then show ?thesis using leaf_bits(1,2) [OF small] leaf(2) pos unfolding loop by (simp add: Let_def)
  next
    case child
    have c31: "c < 2 ^ 31" using child(1) tree unfolding cht_tree_def by linarith
    have c: "in_range C (tree ! c)" using tree nth_mem [OF child(1)] by (auto simp: cht_tree_def)
    have lev: "nd_level (tree ! c) = nd_level ?n + 1" "nd_lower (tree ! c) = nd_lower ?n + of_nat (bin * 2 ^ ?w)"
      using child(3) by (simp_all add: child_of_def)
    have w: "?l \<le> ?w" using c n(1) unfolding in_range_def lev width_of_def add_mult_distrib by linarith
    note cr = child_range [OF ok n(1) w B child(3)]
    have wc: "width_of C (tree ! c) = ?w - ?l" using cr(2) by linarith
    have arg: "d - nd_lower ?n - push_bit ?w (of_nat bin) = d - nd_lower (tree ! c)"
      unfolding lev push_bit_eq_mult by (simp add: algebra_simps)
    have "flat_entry (nd_bins ?n ! bin) = c" using child(2) leaf_bits(3) [OF c31] by (simp add: flat_entry_def)
    then have step: "cht_loop t (d - nd_lower ?n) ?w v = cht_loop t (d - nd_lower (tree ! c)) (width_of C (tree ! c)) c"
      unfolding loop arg wc using leaf_bits(3) [OF c31] w by (simp add: Let_def)
    have "width_of C (tree ! c) < ?w" using w k(4) unfolding wc by linarith
    then show ?thesis
      unfolding step by (rule less.hyps [OF _ child(1)]) (use in_bin in \<open>auto simp: cr(3) cr(2)\<close>)
  qed
qed

subsection \<open>The finished tree\<close>

text \<open>
  The tunings that the tree can be built with: a power of two of bins that is not above the range of the keys, and levels whose widths
  run out at the width of a single key, or stop at bins that are narrower than the error.
\<close>

definition cht_tuning :: "nat \<Rightarrow> nat \<Rightarrow> nat \<Rightarrow> bool" where
  "cht_tuning key_range num_bins max_error \<longleftrightarrow>
     (let l = nlen num_bins - 1
      in num_bins = 2 ^ l \<and> 1 \<le> l \<and> l \<le> nlen key_range \<and> (key_range AND (key_range - 1) = 0 \<longrightarrow> l < nlen key_range) \<and> 1 \<le> max_error \<and>
         (nlen key_range mod l = 0 \<or> 2 ^ (nlen key_range mod l) \<le> max_error))"

definition cht_bound_ok :: "'k::linorder list \<Rightarrow> 'k \<Rightarrow> SearchBound \<Rightarrow> bool" where
  "cht_bound_ok keys k s \<longleftrightarrow> sb_begin s \<le> key_position keys k \<and> key_position keys k \<le> sb_end s \<and> sb_end s \<le> length keys"

lemma power_and_pred: "2 ^ l AND (2 ^ l - 1) = (0 :: nat)"
proof -
  have "2 ^ l AND (2 ^ l - 1) = take_bit l (2 ^ l :: nat)" by (simp add: take_bit_eq_mask mask_eq_exp_minus_1)
  then show ?thesis by (simp add: take_bit_eq_mod)
qed

lemma nlen_bounds:
  assumes "0 < n"
  shows "n < 2 ^ nlen n" and "2 ^ (nlen n - 1) \<le> n" and "1 \<le> nlen n"
proof -
  show "n < 2 ^ nlen n" using nlen_le_iff [of n "nlen n"] by simp
  show one: "1 \<le> nlen n" using nlen_le_iff [of n 0] assms by (simp add: Suc_le_eq)
  have "\<not> nlen n \<le> nlen n - 1" using one by simp
  then show "2 ^ (nlen n - 1) \<le> n" unfolding nlen_le_iff by simp
qed

text \<open>The first level covers the range; its width is that of the radix table, too.\<close>

lemma cht_shifts:
  assumes "cht_tuning r num_bins e" and "0 < r" and "l = nlen num_bins - 1"
  shows "ComputeLog num_bins False = Some l" and "num_bins = 2 ^ l" and "1 \<le> l" and "l \<le> nlen r"
    and "\<exists>lg. ComputeLog r True = Some lg \<and> l \<le> lg \<and>
      lg - l + (if r AND (r - 1) = 0 \<and> num_bins AND (num_bins - 1) = 0 then 1 else 0) = nlen r - l"
    and "GetNumShiftBits r l = Some (nlen r - l)"
proof -
  have t: "num_bins = 2 ^ l" "1 \<le> l" "l \<le> nlen r" "r AND (r - 1) = 0 \<longrightarrow> l < nlen r"
    using assms(1,3) by (simp_all add: cht_tuning_def Let_def)
  then show "num_bins = 2 ^ l" "1 \<le> l" "l \<le> nlen r" by simp_all
  have "num_bins \<noteq> 0" by (subst t(1)) simp
  then show "ComputeLog num_bins False = Some l" using assms(3) by (simp add: ComputeLog_def)
  show "GetNumShiftBits r l = Some (nlen r - l)" using t(3) assms(2) by (simp add: GetNumShiftBits_def)
  have pow: "num_bins AND (num_bins - 1) = 0" unfolding t(1) by (rule power_and_pred)
  show "\<exists>lg. ComputeLog r True = Some lg \<and> l \<le> lg \<and>
      lg - l + (if r AND (r - 1) = 0 \<and> num_bins AND (num_bins - 1) = 0 then 1 else 0) = nlen r - l"
    unfolding pow using t(3,4) assms(2) nlen_bounds(3) [OF assms(2)]
    by (cases "r AND (r - 1) = 0") (auto simp: ComputeLog_def intro!: Suc_diff_Suc)
qed

lemma idx_position:
  fixes keys :: "'w::len word list"
  assumes "\<And>x. x \<in> set keys \<Longrightarrow> m \<le> x" and "m \<le> k"
  shows "idx (map (\<lambda>x. unat (x - m)) keys) (unat (k - m)) = key_position keys k"
proof -
  have "unat (x - m) < unat (k - m) \<longleftrightarrow> x < k" if "x \<in> set keys" for x
  proof -
    have "unat (x - m) = unat x - unat m" "unat (k - m) = unat k - unat m" using assms that by (simp_all add: unat_sub)
    moreover have "unat m \<le> unat x" "unat m \<le> unat k" using assms that by (simp_all add: word_le_nat_alt)
    ultimately show ?thesis unfolding word_less_nat_alt by linarith
  qed
  then have "takeWhile (\<lambda>x. unat (x - m) < unat (k - m)) keys = takeWhile (\<lambda>x. x < k) keys" by (intro takeWhile_cong) auto
  then show ?thesis by (simp add: idx_def key_position_def takeWhile_map o_def)
qed

lemma cht_params_ok:
  fixes keys :: "'w::len word list"
  assumes srt: "sorted_wrt (<) keys" and two: "2 \<le> length keys" and len: "length keys * LENGTH('w) + 2 < 2 ^ 31"
    and tun: "cht_tuning (unat (last keys - hd keys)) num_bins e"
    and C: "C = \<lparr>cp_min_key = hd keys, cp_keys = keys, cp_num_bins = num_bins, cp_log_num_bins = l,
      cp_max_error = e, cp_shift = nlen (unat (last keys - hd keys)) - l\<rparr>" and l: "l = nlen num_bins - 1"
  shows "cht_ok C"
proof -
  let ?r = "unat (last keys - hd keys)"
  have ge: "hd keys \<le> x" if "x \<in> set keys" for x using srt that by (cases keys) auto
  have le: "x \<le> last keys" if mem: "x \<in> set keys" for x
  proof -
    obtain i where i: "i < length keys" "x = keys ! i" using mem by (metis in_set_conv_nth)
    have "keys ! i \<le> keys ! (length keys - 1)" using i(1) by (intro sorted_nth_mono [OF strict_sorted_imp_sorted [OF srt]]) simp_all
    moreover have "last keys = keys ! (length keys - 1)" using i(1) by (intro last_conv_nth) auto
    ultimately show ?thesis using i(2) by simp
  qed
  have "hd keys < last keys" using srt two by (cases keys; cases "tl keys") auto
  then have pos: "0 < ?r" by (simp add: unat_gt_0)
  note s = cht_shifts [OF tun pos l]
  have sub: "unat (x - hd keys) = unat x - unat (hd keys)" if "x \<in> set keys" for x using ge [OF that] by (rule unat_sub)
  have mono: "unat (x - hd keys) < unat (y - hd keys)" if "x < y" "x \<in> set keys" "y \<in> set keys" for x y
    using that ge sub by (simp add: word_less_nat_alt word_le_nat_alt) (meson diff_less_mono)
  have "sorted_wrt (<) (offsets C)"
    unfolding offsets_def C sorted_wrt_map cht_params.simps by (rule sorted_wrt_mono_rel [OF _ srt]) (rule mono)
  moreover have "\<forall>d\<in>set (offsets C). d < 2 ^ (cp_shift C + cp_log_num_bins C)"
  proof
    fix d assume "d \<in> set (offsets C)"
    then obtain x where x: "x \<in> set keys" "d = unat (x - hd keys)" by (auto simp: offsets_def C)
    have "last keys \<in> set keys" using two by (cases keys) auto
    then have "d \<le> ?r" using le [OF x(1)] sub x by (simp add: word_le_nat_alt diff_le_mono)
    then show "d < 2 ^ (cp_shift C + cp_log_num_bins C)" using nlen_bounds(1) [OF pos] s(4) by (simp add: C)
  qed
  moreover have "nlen ?r \<le> LENGTH('w)" unfolding nlen_le_iff by (rule unsigned_less)
  moreover have "(nlen ?r - l) mod l = nlen ?r mod l" using s(4) by (simp add: mod_if)
  moreover have "1 \<le> e" "nlen ?r mod l = 0 \<or> 2 ^ (nlen ?r mod l) \<le> e" using tun unfolding cht_tuning_def Let_def l [symmetric] by blast+
  moreover have "keys \<noteq> []" using two by auto
  ultimately show ?thesis using len s(2,3,4) unfolding cht_ok_def C by simp
qed

text \<open>A tree of one node, transformed into a radix table.\<close>

lemma cht_radix:
  fixes C :: "'w::len word cht_params"
  assumes ok: "cht_ok C" and tree: "cht_tree C tree" and one: "length tree = 1" and r: "0 < r"
    and shift: "GetNumShiftBits r (cp_log_num_bins C) = Some (cp_shift C)" and top: "r < 2 ^ (cp_shift C + cp_log_num_bins C)"
    and w: "cp_shift C < LENGTH('w)"
  shows "\<exists>table. TransformIntoRadixTable C r (hd tree) = Some (table, cp_shift C) \<and>
    (\<forall>d::'w word. unat d \<le> r \<longrightarrow> (\<exists>p a b. shr d (cp_shift C) = Some p \<and> get table p = Some a \<and> get table (p + 1) = Some b \<and>
       a \<le> idx (offsets C) (unat d) \<and> idx (offsets C) (unat d) \<le> b \<and> b \<le> length (offsets C) \<and> b \<le> a + cp_max_error C)) \<and>
    (\<forall>x\<in>set table. x < 2 ^ 32)"
proof -
  let ?n = "hd tree" and ?B = "cp_num_bins C" and ?s = "cp_shift C"
  note k = cht_okD [OF ok]
  have ne: "tree \<noteq> []" using one by auto
  have n: "nd_level ?n = 0" "nd_lower ?n = 0" "length (nd_bins ?n) = ?B" using tree ne by (auto simp: cht_tree_def)
  have edge: "edge C ?n j = idx (offsets C) (j * 2 ^ ?s)" for j by (simp add: edge_def n width_of_def)
  have leaf: "nd_bins ?n ! j = (edge C ?n j OR Leaf, edge C ?n (j + 1)) \<and> edge C ?n (j + 1) \<le> edge C ?n j + cp_max_error C" if "j < ?B" for j
  proof -
    have "entry_ok C tree ?n j (nd_bins ?n ! j)" using tree ne that by (auto simp: cht_tree_def)
    moreover have "nd_level (tree ! c) \<noteq> nd_level ?n + 1" if "c < length tree" for c
      using that one ne hd_conv_nth [of tree] by (auto simp: n)
    ultimately show ?thesis by (auto simp: entry_ok_def child_of_def)
  qed
  then have bins: "nd_bins ?n ! j = (edge C ?n j OR Leaf, edge C ?n (j + 1))" if "j < ?B" for j using that by blast
  define m where "m = r div 2 ^ ?s"
  have m: "m < ?B" unfolding m_def k(3) using top by (simp add: div_less_iff_less_mult power_add mult.commute)
  define table where "table = map (\<lambda>index. take_bit 31 (fst (nd_bins ?n ! index))) [0..<m + 1] @ [snd (nd_bins ?n ! m)]"
  have run: "TransformIntoRadixTable C r ?n = Some (table, ?s)"
    using shift m by (simp add: TransformIntoRadixTable_def m_def [symmetric] table_def n(3) Let_def del: upt_Suc)
  have small: "edge C ?n j < 2 ^ 31" for j using edge_le [of C ?n j] k(10) by linarith
  have got: "get table j = Some (edge C ?n j)" if "j \<le> m + 1" for j
  proof (cases "j = m + 1")
    case True
    then show ?thesis using bins [OF m] by (simp add: get_def table_def nth_append del: upt_Suc)
  next
    case False
    then have "j < m + 1" "j < ?B" using that m by simp_all
    then show ?thesis using bins [of j] leaf_bits(2) [OF small] by (simp add: get_def table_def nth_append del: upt_Suc)
  qed
  have "\<exists>p a b. shr d ?s = Some p \<and> get table p = Some a \<and> get table (p + 1) = Some b \<and>
      a \<le> idx (offsets C) (unat d) \<and> idx (offsets C) (unat d) \<le> b \<and> b \<le> length (offsets C) \<and> b \<le> a + cp_max_error C" if d: "unat d \<le> r" for d :: "'w word"
  proof -
    let ?p = "unat d div 2 ^ ?s"
    have p: "?p \<le> m" unfolding m_def by (rule div_le_mono [OF d])
    have "shr d ?s = Some ?p" unfolding shr_def unat_drop_bit_eq using w by (simp add: drop_bit_eq_div)
    moreover have "edge C ?n ?p \<le> idx (offsets C) (unat d)" unfolding edge by (rule idx_mono) simp
    moreover have "unat d \<le> (?p + 1) * 2 ^ ?s" using dividend_less_div_times [of "2 ^ ?s" "unat d"] by simp
    then have "idx (offsets C) (unat d) \<le> edge C ?n (?p + 1)" unfolding edge by (rule idx_mono)
    moreover have "edge C ?n (?p + 1) \<le> edge C ?n ?p + cp_max_error C" using leaf [of ?p] p m by simp
    ultimately show ?thesis using got [of ?p] got [of "?p + 1"] p edge_le [of C ?n "?p + 1"] by auto
  qed
  moreover have "x < 2 ^ 32" if mem: "x \<in> set table" for x
  proof -
    obtain j where j: "j < length table" "table ! j = x" using mem by (metis in_set_conv_nth)
    then have "j \<le> m + 1" by (simp add: table_def del: upt_Suc)
    then have "x = edge C ?n j" using got [of j] j by (simp add: get_def)
    then show ?thesis using small [of j] by simp
  qed
  ultimately show ?thesis using run by blast
qed

text \<open>
  What \<^verbatim>\<open>Finalize\<close> returns for a builder that has got the keys, and the ranges it gives for the keys between the first and the last one.
\<close>

lemma cht_Finalize_result:
  fixes keys :: "'w::len word list"
  assumes srt: "sorted_wrt (<) keys" and two: "2 \<le> length keys" and len: "length keys * LENGTH('w) + 2 < 2 ^ 31"
    and tun: "cht_tuning (unat (last keys - hd keys)) num_bins e"
    and b: "b = \<lparr>cb_min_key = hd keys, cb_max_key = last keys, cb_prev_key = last keys, cb_keys = keys\<rparr>"
  shows "\<exists>t. cht_Finalize b num_bins e = Some t \<and>
    (\<forall>k. hd keys \<le> k \<and> k \<le> last keys \<longrightarrow> (\<exists>s. cht_GetSearchBound t k = Some s \<and> cht_bound_ok keys k s \<and> sb_end s \<le> sb_begin s + e + 1)) \<and>
    (\<forall>x\<in>set (ct_table t). x < 2 ^ 32)"
proof -
  let ?r = "unat (last keys - hd keys)"
  define l where "l = nlen num_bins - 1"
  define C where "C = \<lparr>cp_min_key = hd keys, cp_keys = keys, cp_num_bins = num_bins, cp_log_num_bins = l,
      cp_max_error = e, cp_shift = nlen ?r - l\<rparr>"
  have ok: "cht_ok C" by (rule cht_params_ok [OF srt two len tun C_def l_def])
  have ge: "hd keys \<le> x" if "x \<in> set keys" for x using srt that by (cases keys) auto
  have "hd keys < last keys" using srt two by (cases keys; cases "tl keys") auto
  then have pos: "0 < ?r" by (simp add: unat_gt_0)
  note s = cht_shifts [OF tun pos l_def]
  obtain lg where lg: "ComputeLog ?r True = Some lg" "l \<le> lg"
    "lg - l + (if ?r AND (?r - 1) = 0 \<and> num_bins AND (num_bins - 1) = 0 then 1 else 0) = nlen ?r - l" using s(5) by blast
  obtain tree where tree: "BuildOffline C = Some tree" "cht_tree C tree" using BuildOffline_result [OF ok] by blast
  have top: "?r < 2 ^ (cp_shift C + cp_log_num_bins C)" using nlen_bounds(1) [OF pos] s(4) by (simp add: C_def)
  have ofs: "offsets C = map (\<lambda>x. unat (x - hd keys)) keys" by (simp add: offsets_def C_def)
  have at: "idx (offsets C) (unat (k - hd keys)) = key_position keys k" if "hd keys \<le> k" for k
    unfolding ofs by (rule idx_position [OF ge that])
  have le: "key_position keys k \<le> length keys" for k unfolding key_position_def by (rule length_takeWhile_le)
  have inside: "unat (k - hd keys) \<le> ?r" if "hd keys \<le> k" "k \<le> last keys" for k
    using that by (simp add: unat_sub word_le_nat_alt diff_le_mono)
  define fin where "fin = (\<lambda>table shift. \<lparr>ct_single_layer = (length tree = 1), ct_min_key = hd keys, ct_max_key = last keys,
    ct_num_keys = length keys, ct_log_num_bins = l, ct_max_error = e, ct_shift = shift, ct_table = table\<rparr>)"
  have run: "cht_Finalize b num_bins e = do {
      (table, shift) \<leftarrow> (if length tree = 1 then TransformIntoRadixTable C ?r (hd tree) else Some (Flatten_table C tree, nlen ?r - l));
      Some (fin table shift) }"
    unfolding cht_Finalize_def b cht_builder.simps s(1) Let_def Option.bind.bind_lunit lg(1,3) C_def [symmetric]
    using lg(2) tree(1) by (simp add: fin_def C_def)
  show ?thesis
  proof (cases "length tree = 1")
    case True
    have "cp_shift C < LENGTH('w)" using cht_okD(4,6) [OF ok] by linarith
    moreover have "GetNumShiftBits ?r (cp_log_num_bins C) = Some (cp_shift C)" using s(6) by (simp add: C_def)
    ultimately obtain table where table: "TransformIntoRadixTable C ?r (hd tree) = Some (table, cp_shift C)"
      and u32: "\<forall>x\<in>set table. x < 2 ^ 32" and look: "\<And>d::'w word. unat d \<le> ?r \<Longrightarrow> \<exists>p a b. shr d (cp_shift C) = Some p \<and> get table p = Some a \<and> get table (p + 1) = Some b \<and>
        a \<le> idx (offsets C) (unat d) \<and> idx (offsets C) (unat d) \<le> b \<and> b \<le> length (offsets C) \<and> b \<le> a + cp_max_error C"
      using cht_radix [OF ok tree(2) True pos _ top] by blast
    have "\<exists>s. cht_GetSearchBound (fin table (cp_shift C)) k = Some s \<and> cht_bound_ok keys k s \<and> sb_end s \<le> sb_begin s + e + 1" if k: "hd keys \<le> k" "k \<le> last keys" for k
      using look [OF inside [OF k]] True unfolding at [OF k(1)]
      by (auto simp: cht_GetSearchBound_def fin_def cht_bound_ok_def ofs) (auto simp: C_def)
    then show ?thesis unfolding run using True table u32 by (simp add: fin_def)
  next
    case False
    let ?t = "fin (Flatten_table C tree) (nlen ?r - l)"
    have tbl: "ct_table ?t = Flatten_table C tree" "ct_log_num_bins ?t = cp_log_num_bins C" by (simp_all add: fin_def C_def)
    have ne: "tree \<noteq> []" and root: "nd_level (tree ! 0) = 0" "nd_lower (tree ! 0) = 0"
      using tree(2) hd_conv_nth [of tree] by (auto simp: cht_tree_def)
    have "\<exists>s. cht_GetSearchBound ?t k = Some s \<and> cht_bound_ok keys k s \<and> sb_end s \<le> sb_begin s + e + 1" if k: "hd keys \<le> k" "k \<le> last keys" for k
    proof -
      have w: "width_of C (tree ! 0) = nlen ?r - l" by (simp add: width_of_def root C_def)
      have "unat (k - hd keys) < 2 ^ (cp_shift C + cp_log_num_bins C)" using inside [OF k] top by simp
      then have "unat (k - hd keys) < unat (nd_lower (tree ! 0)) + 2 ^ (width_of C (tree ! 0) + cp_log_num_bins C)"
        unfolding w root by (simp add: C_def)
      from cht_loop_result [OF ok tree(2) tbl _ _ this]
      obtain r where "cht_loop ?t (k - hd keys) (nlen ?r - l) 0 = Some r" "r \<le> key_position keys k" "key_position keys k \<le> r + e"
        using ne unfolding w root at [OF k(1)] by (auto simp: C_def)
      moreover from this have "Lookup ?t k = Some r" by (simp add: Lookup_def fin_def)
      ultimately show ?thesis using False le [of k] by (auto simp: cht_GetSearchBound_def cht_bound_ok_def fin_def Let_def)
    qed
    then show ?thesis unfolding run using False Flatten_table_u32 [OF ok tree(2)] by (simp add: fin_def)
  qed
qed

subsection \<open>Properties\<close>

text \<open>The calls of \<^verbatim>\<open>AddKey\<close> for a list of keys.\<close>

fun cht_add_all :: "'k::linorder list \<Rightarrow> 'k cht_builder \<Rightarrow> 'k cht_builder option" where
  "cht_add_all [] b = Some b"
| "cht_add_all (key # keys) b = do { b \<leftarrow> cht_AddKey b key; cht_add_all keys b }"

lemma cht_add_all_result:
  assumes "sorted (cb_prev_key b # keys)" and "\<forall>k\<in>set keys. cb_min_key b \<le> k \<and> k \<le> cb_max_key b"
  shows "cht_add_all keys b = Some (b\<lparr>cb_keys := cb_keys b @ keys, cb_prev_key := last (cb_prev_key b # keys)\<rparr>)"
  using assms
proof (induction keys arbitrary: b)
  case (Cons k keys)
  let ?b = "b\<lparr>cb_keys := cb_keys b @ [k], cb_prev_key := k\<rparr>"
  have "cht_AddKey b k = Some ?b" using Cons.prems by (simp add: cht_AddKey_def)
  moreover have "cht_add_all keys ?b = Some (?b\<lparr>cb_keys := cb_keys ?b @ keys, cb_prev_key := last (cb_prev_key ?b # keys)\<rparr>)"
    using Cons.prems by (intro Cons.IH) simp_all
  ultimately show ?case by simp
qed simp

definition cht_build :: "'w::len word list \<Rightarrow> nat \<Rightarrow> nat \<Rightarrow> 'w word CompactHistTree option" where
  "cht_build keys num_bins max_error =
     do { b \<leftarrow> cht_add_all keys (cht_builder_init (hd keys) (last keys)); cht_Finalize b num_bins max_error }"

lemma cht_build_Finalize:
  fixes keys :: "'w::len word list"
  assumes "sorted_wrt (<) keys" and "2 \<le> length keys"
  shows "cht_build keys num_bins e =
    cht_Finalize \<lparr>cb_min_key = hd keys, cb_max_key = last keys, cb_prev_key = last keys, cb_keys = keys\<rparr> num_bins e"
proof -
  have srt: "sorted keys" by (rule strict_sorted_imp_sorted [OF assms(1)])
  have ne: "keys \<noteq> []" using assms(2) by auto
  have "hd keys \<le> x \<and> x \<le> last keys" if x: "x \<in> set keys" for x
  proof -
    obtain i where i: "i < length keys" "keys ! i = x" using x by (metis in_set_conv_nth)
    then have "keys ! 0 \<le> keys ! i" "keys ! i \<le> keys ! (length keys - 1)" by (auto intro!: sorted_nth_mono [OF srt])
    then show ?thesis using i ne by (simp add: hd_conv_nth last_conv_nth)
  qed
  then show ?thesis
    using cht_add_all_result [of "cht_builder_init (hd keys) (last keys)" keys] srt ne by (simp add: cht_build_def cht_builder_init_def)
qed

text \<open>C11. The compact histogram tree is right: built from two or more distinct sorted keys with a tuning that fits their range, it gives for
  every key between the first and the last one a range of positions that contains the lower bound of the key, lies inside the data and
  has at most one position more than the error of the tree. This holds for trees of any number of levels and for the radix table
  that a tree of one level becomes; building always ends, and every lookup does.\<close>

theorem cht_search_bound:
  fixes keys :: "'w::len word list"
  assumes "sorted_wrt (<) keys" and "2 \<le> length keys" and "length keys * LENGTH('w) + 2 < 2 ^ 31"
    and "cht_tuning (unat (last keys - hd keys)) num_bins max_error" and "hd keys \<le> k" and "k \<le> last keys"
  shows "\<exists>t s. cht_build keys num_bins max_error = Some t \<and> cht_GetSearchBound t k = Some s \<and>
    sb_begin s \<le> key_position keys k \<and> key_position keys k \<le> sb_end s \<and> sb_end s \<le> length keys \<and>
    sb_end s \<le> sb_begin s + max_error + 1"
  using cht_Finalize_result [OF assms(1-4) refl] assms(5,6) unfolding cht_build_Finalize [OF assms(1,2)] cht_bound_ok_def by blast

text \<open>Nine keys, four bins in a node, two keys in a leaf.\<close>

theorem cht_search_bound_witness:
  "\<exists>t s. cht_build [3, 4, 5, 6, 7, 8, 9, 10, 200 :: u32] 4 2 = Some t \<and> cht_GetSearchBound t 9 = Some s \<and>
     sb_begin s \<le> 6 \<and> 6 \<le> sb_end s \<and> sb_end s \<le> sb_begin s + 3"
proof -
  have "cht_tuning (unat (last [3, 4, 5, 6, 7, 8, 9, 10, 200 :: u32] - hd [3, 4, 5, 6, 7, 8, 9, 10, 200])) 4 2" by code_simp
  from cht_search_bound [OF _ _ _ this, of 9] show ?thesis by (auto simp: key_position_def)
qed

text \<open>C37. The entries of the table of a compact histogram tree are values of their type \<^verbatim>\<open>unsigned\<close>: partial sums with the bit of a
  leaf, pointers to nodes, and the positions in a radix table are below \<open>2 ^ 32\<close>, so that no entry is truncated.\<close>

theorem cht_table_u32:
  fixes keys :: "'w::len word list"
  assumes "sorted_wrt (<) keys" and "2 \<le> length keys" and "length keys * LENGTH('w) + 2 < 2 ^ 31"
    and "cht_tuning (unat (last keys - hd keys)) num_bins max_error"
  shows "\<exists>t. cht_build keys num_bins max_error = Some t \<and> list_all (\<lambda>x. x < 2 ^ 32) (ct_table t)"
  using cht_Finalize_result [OF assms refl] unfolding cht_build_Finalize [OF assms(1,2)] list_all_iff by blast

theorem cht_table_u32_witness:
  "\<exists>t. cht_build [3, 4, 5, 6, 7, 8, 9, 10, 200 :: u32] 4 2 = Some t \<and> list_all (\<lambda>x. x < 2 ^ 32) (ct_table t)"
proof -
  have "cht_tuning (unat (last [3, 4, 5, 6, 7, 8, 9, 10, 200 :: u32] - hd [3, 4, 5, 6, 7, 8, 9, 10, 200])) 4 2" by code_simp
  from cht_table_u32 [OF _ _ _ this] show ?thesis by simp
qed

end
