(* ===== verification/Ts_Spline_Correct.thy ===== *)
theory Ts_Spline_Correct
  imports Ts_Builder_Correct Ts_Cht_Correct
begin

text \<open>
  Building the TrieSpline succeeds, and the range of positions it returns for a key contains the position of the key in the data. The keys
  may occur several times, except the largest one: the builder adds it to the spline with the position of its last occurrence.
\<close>

subsection \<open>The finished spline\<close>

definition single_last :: "'k list \<Rightarrow> bool" where
  "single_last keys \<longleftrightarrow> 2 \<le> length keys \<and> keys ! (length keys - 2) \<noteq> last keys"

lemma single_last_cdf:
  assumes "single_last keys"
  shows "last (cdf keys) = (last keys, length keys - 1)" and "2 \<le> length (cdf keys)"
proof -
  have keys: "keys = butlast keys @ [last keys]" and ne: "butlast keys \<noteq> []"
    using assms by (auto simp: single_last_def simp flip: length_greater_0_conv)
  have "last (butlast keys) = butlast keys ! (length (butlast keys) - 1)" by (rule last_conv_nth [OF ne])
  also have "length (butlast keys) - 1 = length keys - 2" by simp
  also have "butlast keys ! (length keys - 2) = keys ! (length keys - 2)"
    by (rule nth_butlast) (use assms in \<open>auto simp: single_last_def\<close>)
  finally have "last (butlast keys) \<noteq> last keys" using assms by (simp add: single_last_def)
  then have "cdf (butlast keys @ [last keys]) = cdf (butlast keys) @ [(last keys, length keys - 1)]" by (simp add: cdf_snoc)
  then have cdf: "cdf keys = cdf (butlast keys) @ [(last keys, length keys - 1)]" using keys by simp
  then show "last (cdf keys) = (last keys, length keys - 1)" by simp
  have "cdf (butlast keys) \<noteq> []" using ne by simp
  then show "2 \<le> length (cdf keys)" unfolding cdf by (cases "cdf (butlast keys)") auto
qed

definition final_builder :: "nat \<Rightarrow> 'w::len word list \<Rightarrow> 'w word ts_builder option" where
  "final_builder e keys = do { b \<leftarrow> ts_add_all keys (ts_builder_init (hd keys) (last keys) e); Finalize_points b }"

definition final_ok :: "nat \<Rightarrow> 'w::len word list \<Rightarrow> 'w word ts_builder \<Rightarrow> bool" where
  "final_ok e keys b \<longleftrightarrow> tb_min_key b = hd keys \<and> tb_max_key b = last keys \<and> tb_spline_max_error b = e \<and>
     tb_curr_num_keys b = length keys \<and> cht_holds (hd keys) (last keys) b \<and>
     (\<exists>S. spline_at e (cdf keys) S \<and> 2 \<le> length S \<and> last S = length (cdf keys) - 1 \<and> tb_spline_points b = points_of (cdf keys) S)"

lemma final_builder_ok:
  fixes keys :: "'w::len word list"
  assumes srt: "sorted keys" and one: "single_last keys" and ex: "exact_products (hd keys) (last keys) M" and len: "length keys + e \<le> M"
  shows "\<exists>b. final_builder e keys = Some b \<and> final_ok e keys b"
proof -
  let ?lo = "hd keys" and ?hi = "last keys" and ?cs = "cdf keys"
  note last_cs = single_last_cdf [OF one]
  have two: "2 \<le> length keys" using one by (simp add: single_last_def)
  then obtain k ks where keys: "keys = k # ks" by (cases keys) auto
  have le: "?lo \<le> ?hi" using ex by (auto simp: exact_products_def)
  obtain b1 where b1: "ts_AddKey ?lo (ts_builder_init ?lo ?hi e) = Some b1" "ts_inv ?lo ?hi e M [?lo] b1" using ts_first [OF le] by blast
  have "x \<le> ?hi" if x: "x \<in> set keys" for x
  proof -
    obtain i where i: "i < length keys" "keys ! i = x" using x by (metis in_set_conv_nth)
    then have "keys ! i \<le> keys ! (length keys - 1)" by (intro sorted_nth_mono [OF srt]) simp_all
    moreover have "?hi = keys ! (length keys - 1)" using i by (intro last_conv_nth) auto
    ultimately show ?thesis using i by simp
  qed
  then obtain b where b: "ts_add_all ks b1 = Some b" "ts_inv ?lo ?hi e M keys b"
    using ts_add_all_inv [OF ex b1(2), of ks] srt len by (auto simp: keys)
  have f: "tb_min_key b = ?lo" "tb_max_key b = ?hi" "tb_spline_max_error b = e" "tb_curr_num_keys b = length keys"
    "tb_prev_key b = ?hi" "tb_prev_position b = length keys - 1" "cht_holds ?lo ?hi b" using b(2) by (simp_all add: ts_inv_def)
  obtain S where S: "spline_at e ?cs S" "tb_spline_points b = points_of ?cs S"
      "limits_hold ?hi e M ?cs (last S) (tb_upper_limit b) (tb_lower_limit b)"
    using b(2) last_cs(2) by (auto simp: ts_inv_def)
  obtain u l where cor: "corridor e ?cs (last S) (length ?cs - 1) u l" using S(3) unfolding limits_hold_def by blast
  have inc: "increasing ?cs" using cdf_sorted [OF srt] by (simp add: increasing_def)
  have ne: "?cs \<noteq> []" "S \<noteq> []" "tb_spline_points b \<noteq> []" using last_cs(2) S by (auto simp: spline_at_def points_of_def)
  have lst: "?cs ! (length ?cs - 1) = (?hi, length keys - 1)" using last_cs(1) last_conv_nth [OF ne(1)] by simp
  have lt: "last S < length ?cs - 1" using cor by (simp add: corridor_def)
  have below: "co_x (last (tb_spline_points b)) < ?hi"
    using increasingD(1) [OF inc lt] lst ne(1) S(2) by (simp add: last_points_of [OF ne(2)])
  have "length keys - 1 \<le> 2 ^ 53" using len exact_productsD(2) [OF ex] by simp
  then have pos: "nat_double (length keys - 1) = of_nat (length keys - 1)" by (rule nat_double_exact)
  have pt: "\<lparr>co_x = ?hi, co_y = of_nat (length keys - 1)\<rparr> = cdf_point (last ?cs)" using last_cs(1) by (simp add: cdf_point_def)
  obtain c where c: "AddKeyToSpline ?hi (of_nat (length keys - 1)) b =
      Some (b\<lparr>tb_spline_points := tb_spline_points b @ [cdf_point (last ?cs)], tb_chtb := c\<rparr>)"
      "cht_holds ?lo ?hi (b\<lparr>tb_spline_points := tb_spline_points b @ [cdf_point (last ?cs)], tb_chtb := c\<rparr>)"
    using AddKeyToSpline_ok [OF f(7) ne(3) le order_refl less_imp_le [OF below], of "of_nat (length keys - 1)"] unfolding pt by blast
  let ?b = "b\<lparr>tb_spline_points := tb_spline_points b @ [cdf_point (last ?cs)], tb_chtb := c\<rparr>" and ?S = "S @ [length ?cs - 1]"
  have "Finalize_points b = Some ?b" using f below ne(3) c(1) pos two by (auto simp: Finalize_points_def)
  then have "final_builder e keys = Some ?b" using b1(1) b(1) by (simp add: final_builder_def keys)
  moreover have "spline_at e ?cs ?S" by (rule spline_at_snoc [OF S(1) corridor_segment [OF inc cor]])
  moreover have "points_of ?cs ?S = tb_spline_points b @ [cdf_point (last ?cs)]" using S(2) last_conv_nth [OF ne(1)] by simp
  moreover have "2 \<le> length ?S" using ne(2) by (cases S) auto
  ultimately show ?thesis using f c(2) unfolding final_ok_def by (intro exI [of _ ?b] conjI exI [of _ ?S]) simp_all
qed

text \<open>The tuning that is chosen for the keys has to fit their range.\<close>

definition tuning_fits :: "('w::len word ts_builder \<Rightarrow> (nat \<times> nat) option) \<Rightarrow> nat \<Rightarrow> 'w word list \<Rightarrow> bool" where
  "tuning_fits tuning e keys \<longleftrightarrow>
     (case final_builder e keys of None \<Rightarrow> True
      | Some b \<Rightarrow> (case tuning b of None \<Rightarrow> False
          | Some (num_bins, max_error) \<Rightarrow> cht_tuning (unat (last keys - hd keys)) num_bins max_error))"

definition ts_fits :: "('w::len word ts_builder \<Rightarrow> (nat \<times> nat) option) \<Rightarrow> nat \<Rightarrow> 'w word list \<Rightarrow> bool" where
  "ts_fits tuning e keys \<longleftrightarrow> sorted keys \<and> single_last keys \<and> exact_products (hd keys) (last keys) (length keys + e) \<and>
     length keys * LENGTH('w) + 2 < 2 ^ 31 \<and> tuning_fits tuning e keys"

definition trie_ok :: "nat \<Rightarrow> 'w::len word list \<Rightarrow> 'w word TrieSpline \<Rightarrow> bool" where
  "trie_ok e keys t \<longleftrightarrow> sorted keys \<and> single_last keys \<and> exact_products (hd keys) (last keys) (length keys + e) \<and>
     length keys * LENGTH('w) + 2 < 2 ^ 31 \<and>
     tr_min_key t = hd keys \<and> tr_max_key t = last keys \<and> tr_num_keys t = length keys \<and> tr_spline_max_error t = e \<and>
     (\<exists>S. spline_at e (cdf keys) S \<and> last S = length (cdf keys) - 1 \<and> tr_spline_points t = points_of (cdf keys) S) \<and>
     (\<forall>k. hd keys \<le> k \<and> k \<le> last keys \<longrightarrow>
        (\<exists>s. cht_GetSearchBound (tr_cht t) k = Some s \<and> cht_bound_ok (map co_x (tr_spline_points t)) k s))"

lemma spline_length:
  assumes "spline_at e (cdf keys) S"
  shows "length S \<le> length keys"
proof -
  have "distinct S" using spline_at_sorted [OF assms] by (simp add: strict_sorted_iff)
  moreover have "set S \<subseteq> {..<length (cdf keys)}" using spline_at_less [OF assms] by auto
  ultimately have "length S \<le> length (cdf keys)" using card_mono [of "{..<length (cdf keys)}" "set S"] distinct_card [of S] by simp
  also have "\<dots> \<le> length keys" unfolding cdf_def length_map using length_filter_le [of _ "[0..<length keys]"] by simp
  finally show ?thesis .
qed

lemma few_keys:
  assumes "n * LENGTH('w::len) + 2 < 2 ^ 31"
  shows "n < 2 ^ 31"
proof -
  have "n * 1 \<le> n * LENGTH('w)" using len_gt_0 [where 'a = 'w] by (intro mult_le_mono2) linarith
  then show ?thesis using assms by linarith
qed

lemma points_sorted:
  assumes "increasing cs" and "spline_at e cs S"
  shows "sorted_wrt (<) (map co_x (points_of cs S))"
proof -
  have "sorted_wrt (\<lambda>i j. fst (cs ! i) < fst (cs ! j)) S"
    by (rule sorted_wrt_mono_rel [OF _ spline_at_sorted [OF assms(2)]]) (use spline_at_less [OF assms(2)] increasingD(1) [OF assms(1)] in blast)
  then show ?thesis by (simp add: points_of_def sorted_wrt_map)
qed

lemma ts_Finalize_ok:
  fixes keys :: "'w::len word list"
  assumes "ts_fits tuning e keys"
  shows "\<exists>t. (do { b \<leftarrow> ts_add_all keys (ts_builder_init (hd keys) (last keys) e); ts_Finalize tuning b }) = Some t \<and> trie_ok e keys t"
proof -
  have fits: "sorted keys" "single_last keys" "exact_products (hd keys) (last keys) (length keys + e)"
    "length keys * LENGTH('w) + 2 < 2 ^ 31" "tuning_fits tuning e keys" using assms by (simp_all add: ts_fits_def)
  let ?cs = "cdf keys"
  obtain b where b: "final_builder e keys = Some b" "final_ok e keys b" using final_builder_ok [OF fits(1-3)] by auto
  obtain nb te where tun: "tuning b = Some (nb, te)" "cht_tuning (unat (last keys - hd keys)) nb te"
    using fits(5) b(1) by (auto simp: tuning_fits_def split: option.splits)
  obtain S where S: "spline_at e ?cs S" "2 \<le> length S" "last S = length ?cs - 1" "tb_spline_points b = points_of ?cs S"
    using b(2) by (auto simp: final_ok_def)
  have f: "tb_min_key b = hd keys" "tb_max_key b = last keys" "tb_spline_max_error b = e" "tb_curr_num_keys b = length keys"
    "cht_holds (hd keys) (last keys) b" using b(2) by (simp_all add: final_ok_def)
  have inc: "increasing ?cs" using cdf_sorted [OF fits(1)] by (simp add: increasing_def)
  let ?xs = "map co_x (points_of ?cs S)"
  have ne: "S \<noteq> []" "?cs \<noteq> []" "keys \<noteq> []" using S fits(2) by (auto simp: single_last_def)
  have ends: "hd ?xs = hd keys" "last ?xs = last keys"
  proof -
    have "hd S = 0" using S(1) by (simp add: spline_at_def)
    moreover have "fst (?cs ! 0) = hd keys" using hd_cdf [OF ne(3)] hd_conv_nth [OF ne(2)] by simp
    ultimately show "hd ?xs = hd keys" using ne(1) by (simp add: points_of_def hd_map)
    show "last ?xs = last keys"
      using ne S(3) last_cdf [OF ne(3)] last_conv_nth [OF ne(2)] by (simp add: points_of_def last_map)
  qed
  have srt: "sorted_wrt (<) ?xs" by (rule points_sorted [OF inc S(1)])
  have "length S \<le> length keys" by (rule spline_length [OF S(1)])
  then have "length ?xs * LENGTH('w) \<le> length keys * LENGTH('w)" by (simp add: points_of_def)
  then have small: "length ?xs * LENGTH('w) + 2 < 2 ^ 31" using fits(4) by linarith
  have two: "2 \<le> length ?xs" using S(2) by (simp add: points_of_def)
  have tun': "cht_tuning (unat (last ?xs - hd ?xs)) nb te" unfolding ends by (rule tun(2))
  have chtb: "tb_chtb b = \<lparr>cb_min_key = hd ?xs, cb_max_key = last ?xs, cb_prev_key = last ?xs, cb_keys = ?xs\<rparr>"
    using f(5) S(4) ends ne(1) by (simp add: cht_holds_def last_map points_of_def)
  obtain cht where cht: "cht_Finalize (tb_chtb b) nb te = Some cht"
    "\<forall>k. hd ?xs \<le> k \<and> k \<le> last ?xs \<longrightarrow> (\<exists>s. cht_GetSearchBound cht k = Some s \<and> cht_bound_ok ?xs k s)"
    using cht_Finalize_result [OF srt two small tun' chtb] by blast
  let ?t = "\<lparr>tr_min_key = hd keys, tr_max_key = last keys, tr_num_keys = length keys, tr_spline_max_error = e,
    tr_spline_points = points_of ?cs S, tr_cht = cht\<rparr>"
  have "(do { b \<leftarrow> ts_add_all keys (ts_builder_init (hd keys) (last keys) e); ts_Finalize tuning b }) = Some ?t"
    using b(1) tun(1) cht(1) S(4) f by (auto simp: final_builder_def ts_Finalize_def bind_eq_Some_conv)
  moreover have "trie_ok e keys ?t" using fits S cht(2) unfolding trie_ok_def ends by auto
  ultimately show ?thesis by blast
qed

subsection \<open>The segment of a key\<close>

text \<open>The first point of the distribution function that is not below a key has the position of the key.\<close>

lemma cdf_position:
  fixes keys :: "'k::linorder list"
  assumes srt: "sorted keys" and q: "key_position keys k < length keys"
  shows "\<exists>i<length (cdf keys). cdf keys ! i = (keys ! key_position keys k, key_position keys k)"
proof -
  let ?q = "key_position keys k"
  note t = key_position [OF srt, where k = k]
  have "keys ! (?q - 1) \<noteq> keys ! ?q" if "?q \<noteq> 0"
  proof -
    have "keys ! (?q - 1) < k" using t(2) [of "?q - 1"] that by simp
    also have "k \<le> keys ! ?q" using t(3) [OF order_refl q] .
    finally show ?thesis by simp
  qed
  then have "(keys ! ?q, ?q) \<in> set (cdf keys)" using q by (auto simp: cdf_def)
  then show ?thesis by (metis in_set_conv_nth)
qed

lemma cdf_distinct:
  assumes "distinct keys" and "p < length keys"
  shows "\<exists>i<length (cdf keys). cdf keys ! i = (keys ! p, p)"
proof -
  have "keys ! (p - 1) \<noteq> keys ! p" if "p \<noteq> 0" using assms that by (simp add: nth_eq_iff_index_eq)
  then have "(keys ! p, p) \<in> set (cdf keys)" using assms(2) by (auto simp: cdf_def)
  then show ?thesis by (metis in_set_conv_nth)
qed

lemma increasing_index:
  assumes "increasing cs" and "i < length cs" and "j < length cs"
  shows "fst (cs ! i) < fst (cs ! j) \<longleftrightarrow> i < j" and "snd (cs ! i) < snd (cs ! j) \<longleftrightarrow> i < j"
  using increasingD(1,2) [OF assms(1), of i j] increasingD(1,2) [OF assms(1), of j i] assms(2,3)
  by (cases i j rule: linorder_cases; fastforce)+

text \<open>The exact line of a segment at a key, compared to the position of the key in the data.\<close>

lemma segment_position:
  fixes keys :: "'w::len word list"
  assumes srt: "sorted keys" and seg: "segment_ok e (cdf keys) s t" and k: "fst (cdf keys ! s) < k" "k \<le> fst (cdf keys ! t)"
    and v: "v = cy (cdf keys) s + chord (cdf keys) s t * (key_rat k - cx (cdf keys) s)"
  shows "v \<le> of_nat (key_position keys k) + of_nat e"
    and "k \<in> set keys \<or> distinct keys \<Longrightarrow> of_nat (key_position keys k) - 1 - of_nat e \<le> v"
proof -
  let ?cs = "cdf keys" and ?q = "key_position keys k"
  have inc: "increasing ?cs" using cdf_sorted [OF srt] by (simp add: increasing_def)
  have st: "s < t" "t < length ?cs" "s < length ?cs" using seg by (auto simp: segment_ok_def)
  note q = key_position [OF srt, where k = k]
  have pt: "snd p < length keys" "keys ! snd p = fst p" if "p \<in> set ?cs" for p using set_cdf [of "fst p" "snd p" keys] that by simp_all
  have sq: "snd (?cs ! s) < ?q" using q(3) [of "snd (?cs ! s)"] pt [of "?cs ! s"] k(1) st(3) by (metis not_le nth_mem)
  have tq: "?q \<le> snd (?cs ! t)" using q(2) [of "snd (?cs ! t)"] pt [of "?cs ! t"] k(2) st(2) by (metis not_le nth_mem)
  then have ql: "?q < length keys" using pt(1) [of "?cs ! t"] st(2) by simp
  obtain i where i: "i < length ?cs" "?cs ! i = (keys ! ?q, ?q)" using cdf_position [OF srt ql] by blast
  have si: "s < i" using increasing_index(2) [OF inc st(3) i(1)] sq i(2) by simp
  have it: "i \<le> t" using increasing_index(2) [OF inc st(2) i(1)] tq i(2) by simp
  have ki: "k \<le> fst (?cs ! i)" using q(3) [OF order_refl ql] i(2) by simp
  have chord: "0 \<le> chord ?cs s t" using increasingD(3,4) [OF inc st(1,2)] by (simp add: chord_def)
  let ?at = "\<lambda>x. cy ?cs s + chord ?cs s t * (x - cx ?cs s)"
  have mono: "?at x \<le> ?at y" if "x \<le> y" for x y using chord that by (intro add_left_mono mult_left_mono) simp_all
  have acc: "\<bar>?at (cx ?cs j) - cy ?cs j\<bar> \<le> of_nat e" if "s < j" "j \<le> t" for j using seg that by (simp add: segment_ok_def)
  have cyi: "cy ?cs i = of_nat ?q" by (simp add: cy_def i(2))
  have "v \<le> ?at (cx ?cs i)" unfolding v by (rule mono) (simp add: cx_def ki)
  then show "v \<le> of_nat ?q + of_nat e" using acc [OF si it] cyi by (simp add: abs_le_iff)
  show "of_nat ?q - 1 - of_nat e \<le> v" if pres: "k \<in> set keys \<or> distinct keys"
  proof (cases "k \<in> set keys")
    case True
    then have "cx ?cs i = key_rat k" using q(4) i(2) by (simp add: cx_def)
    then have "v = ?at (cx ?cs i)" by (simp add: v)
    then show ?thesis using acc [OF si it] cyi by (simp add: abs_le_iff)
  next
    case False
    then have "distinct keys" "?q - 1 < length keys" using pres ql by auto
    then obtain j where j: "j < length ?cs" "?cs ! j = (keys ! (?q - 1), ?q - 1)" using cdf_distinct by blast
    have q0: "0 < ?q" using sq by simp
    have sj: "s \<le> j" using increasing_index(2) [OF inc j(1) st(3)] sq j(2) by auto
    have "j < i" using increasing_index(2) [OF inc j(1) i(1)] q0 i(2) j(2) by simp
    then have jt: "j \<le> t" using it by simp
    have "keys ! (?q - 1) < k" using q(2) [of "?q - 1"] q0 by simp
    then have "?at (cx ?cs j) \<le> v" unfolding v by (intro mono) (simp add: cx_def j(2) less_imp_le)
    moreover have "cy ?cs j - of_nat e \<le> ?at (cx ?cs j)"
    proof (cases "j = s")
      case False
      then show ?thesis using acc [OF _ jt] sj by (simp add: abs_le_iff)
    qed simp
    moreover have "cy ?cs j = of_nat ?q - 1" using q0 by (simp add: cy_def j(2) of_nat_diff)
    ultimately show ?thesis by simp
  qed
qed

subsection \<open>Interpolation\<close>

lemma interpolate_near:
  fixes cs :: "('w::len word \<times> nat) list"
  assumes inc: "increasing cs" and st: "s < t" "t < length cs" and k: "fst (cs ! s) < k" "k \<le> fst (cs ! t)"
    and ex: "exact_products lo hi M" and b: "lo \<le> fst (cs ! s)" "fst (cs ! t) \<le> hi" and n: "snd (cs ! t) \<le> N" "N \<le> 2 ^ 50"
    and p: "0 < p" "p < length points" "points ! (p - 1) = cdf_point (cs ! s)" "points ! p = cdf_point (cs ! t)"
  shows "\<exists>est. interpolate points p k = Some est \<and> 0 \<le> est \<and> est \<le> of_nat (4 * N) \<and>
    \<bar>est - (cy cs s + chord cs s t * (key_rat k - cx cs s))\<bar> \<le> 1 / 2"
proof -
  let ?xs = "fst (cs ! s)" and ?xt = "fst (cs ! t)"
  note i = increasingD [OF inc st]
  define dx dy kd where "dx = cx cs t - cx cs s" and "dy = cy cs t - cy cs s" and "kd = key_rat k - cx cs s"
  have d: "0 < dx" "0 < dy" "0 < kd" "kd \<le> dx" using i k by (simp_all add: dx_def dy_def kd_def cx_def)
  have xd: "to_double (?xt - ?xs) = dx" using key_diff_exact(3) [OF ex b(1) less_imp_le [OF i(1)] b(2)] by (simp add: dx_def cx_def)
  have kx: "to_double (k - ?xs) = kd" using key_diff_exact(3) [OF ex b(1) less_imp_le [OF k(1)]] k(2) b(2) by (simp add: kd_def cx_def)
  have yd: "double_round (of_nat (snd (cs ! t)) - of_nat (snd (cs ! s))) = dy"
    using nat_diff_exact [of "snd (cs ! t)" "2 ^ 53" "snd (cs ! s)"] i(2) n by (simp add: dy_def cy_def)
  define slope where "slope = double_round (dy / dx)"
  define est where "est = double_round (kd * slope + cy cs s)"
  have run: "interpolate points p k = Some est"
    using p d(1) by (simp add: interpolate_def Let_def xd yd kx fma_def est_def slope_def) (simp add: cy_def)
  have cN: "cy cs t \<le> of_nat N" "0 \<le> cy cs s" "cy cs s < cy cs t" using n(1) i(4) by (simp_all add: cy_def)
  have NN: "0 \<le> (of_nat N :: rat)" by simp
  have ch: "chord cs s t = dy / dx" by (simp add: chord_def dx_def dy_def)
  have pos: "0 \<le> dy / dx" using d by simp
  have s1: "\<bar>slope - dy / dx\<bar> \<le> dy / dx / 2 ^ 53" unfolding slope_def using dbl.rnd_error [of "dy / dx"] pos by simp
  have s0: "0 \<le> slope" unfolding slope_def by (rule double.rnd_nonneg [OF pos])
  have kdy: "kd * (dy / dx) \<le> dy"
  proof -
    have "kd * (dy / dx) \<le> dx * (dy / dx)" using d(4) pos by (rule mult_right_mono)
    then show ?thesis using d(1) by simp
  qed
  have "\<bar>kd * slope - kd * (dy / dx)\<bar> = kd * \<bar>slope - dy / dx\<bar>" 
    unfolding right_diff_distrib [symmetric] abs_mult using d(3) by simp
  also have "\<dots> \<le> kd * (dy / dx / 2 ^ 53)" using s1 d(3) by (intro mult_left_mono) simp_all
  also have "\<dots> = kd * (dy / dx) / 2 ^ 53" by simp
  also have "\<dots> \<le> dy / 2 ^ 53" by (rule divide_right_mono [OF kdy]) simp
  also have "\<dots> \<le> of_nat N / 2 ^ 53" using cN by (intro divide_right_mono) (simp_all add: dy_def)
  finally have e1: "\<bar>(kd * slope + cy cs s) - (kd * (dy / dx) + cy cs s)\<bar> \<le> of_nat N / 2 ^ 53" by simp
  have sm: "of_nat N / 2 ^ 53 \<le> (of_nat N :: rat)" using divide_left_mono [of 1 "2 ^ 53" "of_nat N :: rat"] by simp
  have w0: "0 \<le> kd * slope + cy cs s" using d(3) s0 cN(2) by simp
  have "kd * (dy / dx) + cy cs s \<le> of_nat N" using kdy cN by (simp add: dy_def)
  then have w1: "kd * slope + cy cs s \<le> 2 * of_nat N" using e1 sm by (simp only: abs_le_iff) linarith
  have e2: "\<bar>est - (kd * (dy / dx) + cy cs s)\<bar> \<le> of_nat N / 2 ^ 53 + 2 * of_nat N / 2 ^ 53"
    unfolding est_def using w0 w1 by (intro dbl.rnd_near [OF e1]) simp
  have "of_nat N \<le> (of_nat (2 ^ 50) :: rat)" using n(2) by (simp only: of_nat_le_iff)
  then have small: "of_nat N / 2 ^ 53 + 2 * of_nat N / 2 ^ 53 \<le> (1 / 2 :: rat)" by simp
  have "0 \<le> est" unfolding est_def by (rule double.rnd_nonneg [OF w0])
  moreover have "est \<le> of_nat (4 * N)"
    unfolding est_def using dbl.rnd_twice [of "kd * slope + cy cs s" "2 * of_nat N"] w0 w1 by simp
  moreover have "\<bar>est - (cy cs s + chord cs s t * (key_rat k - cx cs s))\<bar> \<le> 1 / 2"
    using e2 small by (simp add: ch kd_def [symmetric] mult.commute add.commute)
  ultimately show ?thesis using run by blast
qed

subsection \<open>The range of positions\<close>

text \<open>The search in the range of the tree ends at the point of the spline at or after the key.\<close>

lemma GetSplineSegment_ok:
  fixes keys :: "'w::len word list"
  assumes sc: "search_class lb ub" and t: "trie_ok e keys t" and k: "hd keys < k" "k < last keys"
    and S: "spline_at e (cdf keys) S" "last S = length (cdf keys) - 1" "tr_spline_points t = points_of (cdf keys) S"
  shows "\<exists>p. GetSplineSegment lb t k = Some p \<and> 0 < p \<and> p < length S \<and>
    fst (cdf keys ! (S ! (p - 1))) < k \<and> k \<le> fst (cdf keys ! (S ! p))"
proof -
  let ?cs = "cdf keys" and ?xs = "map co_x (tr_spline_points t)"
  let ?p = "key_position ?xs k"
  have srt: "sorted keys" and one: "single_last keys" and n: "length keys * LENGTH('w) + 2 < 2 ^ 31" using t by (simp_all add: trie_ok_def)
  have ne: "keys \<noteq> []" "S \<noteq> []" using one S(1) by (auto simp: single_last_def spline_at_def)
  have inc: "increasing ?cs" using cdf_sorted [OF srt] by (simp add: increasing_def)
  have xs: "?xs ! j = fst (?cs ! (S ! j))" if "j < length S" for j using that S(3) by (simp add: points_of_def)
  have lenS: "length ?xs = length S" using S(3) by (simp add: points_of_def)
  have sx: "sorted ?xs" unfolding S(3) by (rule strict_sorted_imp_sorted [OF points_sorted [OF inc S(1)]])
  note p = key_position [OF sx, where k = k]
  have first: "S ! 0 = 0" using S(1) ne(2) hd_conv_nth [OF ne(2)] by (simp add: spline_at_def)
  have "fst (?cs ! 0) = hd keys" using hd_cdf [OF ne(1)] hd_conv_nth [of ?cs] ne(1) by simp
  then have x0: "?xs ! 0 < k" using xs [of 0] ne(2) first k(1) by simp
  have p0: "0 < ?p"
  proof (rule ccontr)
    assume "\<not> 0 < ?p"
    then have "k \<le> ?xs ! 0" using ne(2) lenS by (intro p(3)) simp_all
    then show False using x0 by simp
  qed
  have lastx: "fst (?cs ! (length ?cs - 1)) = last keys" using last_cdf [OF ne(1)] last_conv_nth [of ?cs] ne(1) by simp
  have lastx': "?xs ! (length S - 1) = last keys" using xs [of "length S - 1"] ne(2) S(2) lastx last_conv_nth [OF ne(2)] by simp
  have pl: "?p < length S"
  proof (rule ccontr)
    assume "\<not> ?p < length S"
    moreover have "0 < length S" using ne(2) by simp
    ultimately have "length S - 1 < ?p" by linarith
    then have "?xs ! (length S - 1) < k" by (rule p(2))
    then show False using lastx' k(2) by simp
  qed
  obtain r where r: "cht_GetSearchBound (tr_cht t) k = Some r" "cht_bound_ok ?xs k r"
    using t k by (auto simp: trie_ok_def intro: less_imp_le)
  have rb: "sb_begin r \<le> ?p" "?p \<le> sb_end r" "sb_end r \<le> length ?xs" using r(2) by (simp_all add: cht_bound_ok_def)
  have "length S \<le> 2 ^ 53" using spline_length [OF S(1)] few_keys [OF n] by simp
  then have "lb (int (sb_begin r)) (int (sb_end r)) k (int (sb_begin r)) (list_reader ?xs) = Some (int ?p)"
    using window_search [OF sc sx, of "sb_begin r" "sb_begin r" "sb_end r" k] rb lenS by (simp add: min_absorb2)
  then have "GetSplineSegment lb t k = Some ?p" using r(1) by (simp add: GetSplineSegment_def)
  moreover have "fst (?cs ! (S ! (?p - 1))) < k" using p(2) [of "?p - 1"] xs [of "?p - 1"] p0 pl by simp
  moreover have "k \<le> fst (?cs ! (S ! ?p))" using p(3) [OF order_refl] xs [OF pl] pl lenS by simp
  ultimately show ?thesis using p0 pl by blast
qed

definition ts_window_ok :: "'w::len word list \<Rightarrow> 'w word \<Rightarrow> SearchBound \<Rightarrow> bool" where
  "ts_window_ok keys k sb \<longleftrightarrow> sb_begin sb \<le> sb_end sb \<and> sb_end sb \<le> length keys \<and> sb_begin sb \<le> key_position keys k \<and>
     (k \<in> set keys \<or> distinct keys \<longrightarrow> key_position keys k \<le> sb_end sb)"

text \<open>The range around an estimate that is at most one position further from the position of the key than the error allows.\<close>

lemma window_of_estimate:
  assumes est: "0 \<le> est" "est < 2 ^ 63" and q: "q \<le> n"
    and hi: "est \<le> of_nat q + of_nat e + 1 / 2" and lo: "P \<Longrightarrow> of_nat q - 1 - of_nat e - 1 / 2 \<le> (est :: rat)"
  defines "f \<equiv> nat \<lfloor>est\<rfloor>"
  shows "f - e \<le> min n (f + e + 2)" and "f - e \<le> q" and "P \<Longrightarrow> q \<le> min n (f + e + 2)"
proof -
  have f: "of_nat f \<le> est" "est < of_nat f + 1" unfolding f_def using est(1) by linarith+
  have "of_nat f < (of_nat (q + e + 1) :: rat)" using f(1) hi by simp
  then have "f < q + e + 1" by (simp only: of_nat_less_iff)
  then show b: "f - e \<le> q" by simp
  then show "f - e \<le> min n (f + e + 2)" using q by simp
  assume P
  then have "(of_nat q :: rat) < of_nat (f + e + 3)" using f(2) lo by simp
  then have "q < f + e + 3" by (simp only: of_nat_less_iff)
  then show "q \<le> min n (f + e + 2)" using q by simp
qed

lemma ts_window:
  fixes keys :: "'w::len word list"
  assumes sc: "search_class lb ub" and t: "trie_ok e keys t"
  shows "\<exists>sb. ts_GetSearchBound lb t k = Some sb \<and> ts_window_ok keys k sb"
proof -
  let ?n = "length keys" and ?q = "key_position keys k" and ?P = "k \<in> set keys \<or> distinct keys"
  have srt: "sorted keys" and one: "single_last keys" and ex: "exact_products (hd keys) (last keys) (length keys + e)"
    and small: "?n * LENGTH('w) + 2 < 2 ^ 31" using t by (simp_all add: trie_ok_def)
  have f: "tr_min_key t = hd keys" "tr_max_key t = last keys" "tr_num_keys t = ?n" "tr_spline_max_error t = e" using t by (simp_all add: trie_ok_def)
  have "?n < 2 ^ 31" by (rule few_keys [OF small])
  then have n: "?n \<le> 2 ^ 50" by simp
  have two: "2 \<le> ?n" and ne: "keys \<noteq> []" using one by (auto simp: single_last_def)
  note q = key_position [OF srt, where k = k]
  have "\<exists>est. GetEstimatedPosition lb t k = Some est \<and> 0 \<le> est \<and> est < 2 ^ 63 \<and> est \<le> of_nat ?q + of_nat e + 1 / 2 \<and>
    (?P \<longrightarrow> of_nat ?q - 1 - of_nat e - 1 / 2 \<le> est)"
  proof -
    consider "k \<le> hd keys" | "\<not> k \<le> hd keys" "last keys \<le> k" | "hd keys < k" "k < last keys" by fastforce
    then show ?thesis
    proof cases
      case 1
      have "\<not> 0 < ?q"
      proof
        assume "0 < ?q"
        then have "keys ! 0 < k" by (rule q(2))
        then show False using 1 hd_conv_nth [OF ne] by simp
      qed
      then show ?thesis using 1 f by (simp add: GetEstimatedPosition_def)
    next
      case 2
      have n1: "to_size_t (int ?n - 1) = ?n - 1" using to_size_t_int [of "?n - 1"] two n by (simp add: of_nat_diff)
      have est: "GetEstimatedPosition lb t k = Some (of_nat (?n - 1))"
        using 2 f n1 nat_double_exact [of "?n - 1"] n by (simp add: GetEstimatedPosition_def)
      have "?n - 1 \<le> ?q"
      proof (rule ccontr)
        assume "\<not> ?n - 1 \<le> ?q"
        then have lt: "?q \<le> ?n - 2" "?n - 2 < ?n" by auto
        then have "k \<le> keys ! (?n - 2)" by (intro q(3))
        moreover have "keys ! (?n - 2) \<le> keys ! (?n - 1)" using two by (intro sorted_nth_mono [OF srt]) simp_all
        moreover have "keys ! (?n - 1) = last keys" using ne by (rule last_conv_nth [symmetric])
        ultimately have "keys ! (?n - 2) = last keys" using 2(2) by (intro order.antisym) auto
        then show False using one by (simp add: single_last_def)
      qed
      then have "(of_nat (?n - 1) :: rat) \<le> of_nat ?q" "(of_nat ?q :: rat) \<le> of_nat (?n - 1) + 1" using q(1) two by (simp_all add: of_nat_diff)
      moreover have "(of_nat (?n - 1) :: rat) < of_nat (2 ^ 63)" unfolding of_nat_less_iff using n by simp
      ultimately show ?thesis unfolding est by auto
    next
      case 3
      obtain S where S: "spline_at e (cdf keys) S" "last S = length (cdf keys) - 1" "tr_spline_points t = points_of (cdf keys) S"
        using t by (auto simp: trie_ok_def)
      obtain p where p: "GetSplineSegment lb t k = Some p" "0 < p" "p < length S"
          "fst (cdf keys ! (S ! (p - 1))) < k" "k \<le> fst (cdf keys ! (S ! p))"
        using GetSplineSegment_ok [OF sc t 3 S] by blast
      let ?cs = "cdf keys" let ?s = "S ! (p - 1)" and ?t = "S ! p"
      have seg: "segment_ok e ?cs ?s ?t" using S(1) p(2,3) by (cases p) (simp_all add: spline_at_def)
      have inc: "increasing ?cs" using cdf_sorted [OF srt] by (simp add: increasing_def)
      have pt: "snd x < ?n" "keys ! snd x = fst x" if "x \<in> set ?cs" for x using set_cdf [of "fst x" "snd x" keys] that by simp_all
      have mem: "?cs ! ?s \<in> set ?cs" "?cs ! ?t \<in> set ?cs" using seg by (auto simp: segment_ok_def)
      have "hd keys \<le> fst (?cs ! ?s)" using pt [OF mem(1)] sorted_nth_mono [OF srt, of 0 "snd (?cs ! ?s)"] ne by (simp add: hd_conv_nth)
      moreover have "fst (?cs ! ?t) \<le> last keys"
        using pt [OF mem(2)] sorted_nth_mono [OF srt, of "snd (?cs ! ?t)" "?n - 1"] ne by (simp add: last_conv_nth)
      moreover have "snd (?cs ! ?t) \<le> ?n" using pt(1) [OF mem(2)] by simp
      moreover have "tr_spline_points t ! (p - 1) = cdf_point (?cs ! ?s)" "tr_spline_points t ! p = cdf_point (?cs ! ?t)" "p < length (tr_spline_points t)"
        using S(3) p(2,3) by (simp_all add: points_of_def)
      ultimately obtain est where est: "interpolate (tr_spline_points t) p k = Some est" "0 \<le> est" "est \<le> of_nat (4 * ?n)"
          "\<bar>est - (cy ?cs ?s + chord ?cs ?s ?t * (key_rat k - cx ?cs ?s))\<bar> \<le> 1 / 2"
        using interpolate_near [OF inc _ _ p(4,5) ex _ _ _ n p(2)] seg by (auto simp: segment_ok_def)
      have "(of_nat (4 * ?n) :: rat) < of_nat (2 ^ 63)" unfolding of_nat_less_iff using n by simp
      then have "est < 2 ^ 63" using est(3) by simp
      moreover note segment_position [OF srt seg p(4,5) refl]
      moreover have "\<not> k \<le> hd keys" "\<not> last keys \<le> k" using 3 by auto
      then have "GetEstimatedPosition lb t k = Some est"
        using p(1) est(1) unfolding GetEstimatedPosition_def f by simp
      ultimately show ?thesis using est(2,4) by (simp only: abs_le_iff) fastforce
    qed
  qed
  then obtain est where est: "GetEstimatedPosition lb t k = Some est" "0 \<le> est" "est < 2 ^ 63" "est \<le> of_nat ?q + of_nat e + 1 / 2"
    "?P \<longrightarrow> of_nat ?q - 1 - of_nat e - 1 / 2 \<le> est" by blast
  let ?f = "nat \<lfloor>est\<rfloor>"
  have "ts_GetSearchBound lb t k = Some \<lparr>sb_begin = ?f - e, sb_end = min ?n (?f + e + 2)\<rparr>"
    using est(1-3) f by (simp add: ts_GetSearchBound_def Let_def min_def)
  moreover have "ts_window_ok keys k \<lparr>sb_begin = ?f - e, sb_end = min ?n (?f + e + 2)\<rparr>"
    using window_of_estimate [OF est(2,3) q(1) est(4) est(5) [THEN mp]] by (simp add: ts_window_ok_def)
  ultimately show ?thesis by blast
qed

subsection \<open>The accuracy of the spline\<close>

definition spline_line :: "'w::len word Coord list \<Rightarrow> nat \<Rightarrow> 'w word \<Rightarrow> rat" where
  "spline_line points j k = co_y (points ! j) +
     (co_y (points ! Suc j) - co_y (points ! j)) / (key_rat (co_x (points ! Suc j)) - key_rat (co_x (points ! j))) *
     (key_rat k - key_rat (co_x (points ! j)))"

lemma segment_of_index:
  assumes "S ! 0 < i" and "i \<le> S ! n"
  shows "\<exists>j<n. S ! j < i \<and> i \<le> (S ! Suc j :: nat)"
  using assms(2)
proof (induction n)
  case (Suc n)
  show ?case
  proof (cases "i \<le> S ! n")
    case True
    then show ?thesis using Suc.IH by (meson less_SucI)
  next
    case False
    then show ?thesis using Suc.prems by (intro exI [of _ n]) simp
  qed
qed (use assms(1) in simp)



end
