(* ===== verification/Ts_Tuning_Correct.thy ===== *)
theory Ts_Tuning_Correct
  imports Ts_Tuning_Choice Ts_Spline_Correct
begin

text \<open>
  What the chosen tuning can be, when it fits the keys, and the ranges of keys for which there is none.
\<close>

subsection \<open>Candidates\<close>

lemma fold_opt_inv:
  assumes "fold_opt f xs s = Some s'" and "P s" and "\<And>x s s'. x \<in> set xs \<Longrightarrow> f x s = Some s' \<Longrightarrow> P s \<Longrightarrow> P s'"
  shows "P s'"
  using assms by (induction xs arbitrary: s) (auto simp: bind_eq_Some_conv)

lemma fold_opt_snoc: "fold_opt f (xs @ [x]) s = do { s \<leftarrow> fold_opt f xs s; f x s }"
  by (induction xs arbitrary: s) simp_all

text \<open>A radix table has at most 30 bits and no error; a tree has at most 20 bits and not more than the range has, and an error up to 1024.\<close>

definition candidate :: "nat \<Rightarrow> Statistics \<Rightarrow> bool" where
  "candidate lg s \<longleftrightarrow> (\<exists>l. st_numBins s = 2 ^ l \<and> 1 \<le> l \<and>
     (st_treeMaxError s = UINT_MAX \<and> l \<le> maxNumRadixBits \<or>
      1 \<le> st_treeMaxError s \<and> st_treeMaxError s \<le> maxPossibleTreeError \<and> l \<le> min maxNumPossibleBins lg))"

lemma radix_candidates:
  assumes "ComputeRadixTableStatistics b statistics = Some statistics'" and "\<forall>s\<in>set statistics. candidate lg s"
  shows "\<forall>s\<in>set statistics'. candidate lg s"
proof -
  obtain rs where "fold_opt (radix_finish (unat (tb_max_key b - tb_min_key b)) (tb_spline_points b) rs) [1..<maxNumRadixBits + 1] statistics =
      Some statistics'"
    using assms(1) by (auto simp: ComputeRadixTableStatistics_def bind_eq_Some_conv Let_def simp del: upt_Suc upt_rec_numeral)
  then show ?thesis
    by (rule fold_opt_inv [where P = "\<lambda>ss. \<forall>s\<in>set ss. candidate lg s"])
      (use assms(2) in \<open>auto simp: radix_finish_def bind_eq_Some_conv candidate_def split: if_splits\<close>)
qed

lemma UpdateWith_candidate:
  assumes "UpdateWith is_linear n (2 ^ l) m delta statistics = Some statistics'" and "\<forall>s\<in>set statistics. candidate lg s"
    and "1 \<le> l" and "l \<le> min maxNumPossibleBins lg" and "1 \<le> delta" and "delta \<le> maxPossibleTreeError"
  shows "\<forall>s\<in>set statistics'. candidate lg s"
  using assms by (auto simp: UpdateWith_def bind_eq_Some_conv candidate_def split: if_splits)

lemma prefix_sums_candidates:
  assumes run: "prefix_sums is_linear n matrix index statistics = Some statistics'" and "\<forall>s\<in>set statistics. candidate lg s"
    and l: "index + 1 \<le> min maxNumPossibleBins lg"
  shows "\<forall>s\<in>set statistics'. candidate lg s"
proof -
  let ?P = "\<lambda>ss. \<forall>s\<in>set ss. candidate lg s"
  obtain m ss m' where u: "UpdateWith is_linear n (2 ^ (index + 1)) m maxPossibleTreeError statistics = Some ss"
    and f: "fold_opt (prefix_step is_linear n (2 ^ (index + 1))) (rev [2..<maxPossibleTreeError + 1]) (m, ss) = Some (m', statistics')"
    using run unfolding prefix_sums_def by (auto simp: bind_eq_Some_conv simp del: upt_Suc upt_rec_numeral)
  have start: "?P ss" by (rule UpdateWith_candidate [OF u assms(2) _ l]) simp_all
  have step: "?P (snd s')" if d: "delta \<in> set (rev [2..<maxPossibleTreeError + 1])" and r: "prefix_step is_linear n (2 ^ (index + 1)) delta s = Some s'"
    and p: "?P (snd s)" for delta s s'
  proof -
    obtain m0 m1 where "UpdateWith is_linear n (2 ^ (index + 1)) m1 (delta - 1) (snd s) = Some (snd s')"
      using r by (cases s) (auto simp: prefix_step_def bind_eq_Some_conv split: prod.splits)
    then show ?thesis by (rule UpdateWith_candidate [OF _ p _ l]) (use d in \<open>auto simp del: upt_rec_numeral\<close>)
  qed
  have "?P (snd (m', statistics'))"
    by (rule fold_opt_inv [OF f, where P = "\<lambda>s. ?P (snd s)"]) (use start in simp, rule step)
  then show ?thesis by simp
qed

lemma cht_candidates:
  assumes run: "ComputeCHTStatistics is_linear b statistics = Some statistics'" and "\<forall>s\<in>set statistics. candidate lg s"
    and lg: "ComputeLog (unat (tb_max_key b - tb_min_key b)) True = Some lg"
  shows "\<forall>s\<in>set statistics'. candidate lg s"
proof -
  obtain n matrix where f: "fold_opt (prefix_sums is_linear n matrix) [0..<min maxNumPossibleBins lg] statistics = Some statistics'"
    using run lg by (auto simp: ComputeCHTStatistics_def bind_eq_Some_conv Let_def simp del: upt_Suc)
  then show ?thesis using assms(2)
  proof (rule fold_opt_inv)
    fix index ss ss'
    assume i: "index \<in> set [0..<min maxNumPossibleBins lg]" and r: "prefix_sums is_linear n matrix index ss = Some ss'"
      and p: "\<forall>s\<in>set ss. candidate lg s"
    show "\<forall>s\<in>set ss'. candidate lg s" by (rule prefix_sums_candidates [OF r p]) (use i in simp)
  qed
qed

lemma better_cases: "better limit x y = x \<or> better limit x y = y"
  by (simp add: better_def)

lemma fold_better: "fold (better limit) ss s \<in> set (s # ss)"
  using better_cases by (induction ss arbitrary: s) (auto, metis)

lemma tuning_candidate:
  assumes "ts_tuning is_linear b = Some (nb, te)" and lg: "ComputeLog (unat (tb_max_key b - tb_min_key b)) True = Some lg"
  shows "\<exists>s. candidate lg s \<and> st_numBins s = nb \<and> st_treeMaxError s = te"
proof -
  obtain s1 s2 s where s: "ComputeRadixTableStatistics b [] = Some s1" "ComputeCHTStatistics is_linear b s1 = Some s2" "InferTuning b s2 = Some s"
      "nb = st_numBins s" "te = st_treeMaxError s"
    using assms(1) by (auto simp: ts_tuning_def ComputeStatistics_def bind_eq_Some_conv)
  have "\<forall>s\<in>set s1. candidate lg s" by (rule radix_candidates [OF s(1)]) simp
  then have "\<forall>s\<in>set s2. candidate lg s" by (rule cht_candidates [OF s(2) _ lg])
  moreover have "s \<in> set s2" using s(3) fold_better by (auto simp: InferTuning_def split: list.splits)
  ultimately show ?thesis using s(4,5) by blast
qed

lemma nlen_power: "nlen (2 ^ l) = l + 1"
proof -
  have "nlen (2 ^ l) \<le> l + 1" unfolding nlen_le_iff by simp
  moreover have "\<not> nlen (2 ^ l) \<le> l" unfolding nlen_le_iff by simp
  ultimately show ?thesis by simp
qed

text \<open>Whether a candidate fits depends on the number of bits of the range only.\<close>

lemma candidate_fits:
  assumes c: "candidate lg s" and r: "0 < r" "r AND (r - 1) \<noteq> 0" and lg: "ComputeLog r True = Some lg"
    and "st_treeMaxError s = UINT_MAX \<and> st_numBins s \<le> 2 ^ nlen r \<or>
      nlen r mod (nlen (st_numBins s) - 1) = 0 \<or> 2 ^ (nlen r mod (nlen (st_numBins s) - 1)) \<le> st_treeMaxError s \<and> st_treeMaxError s \<noteq> UINT_MAX"
    and big: "st_treeMaxError s = UINT_MAX \<Longrightarrow> st_numBins s \<le> 2 ^ nlen r"
  shows "cht_tuning r (st_numBins s) (st_treeMaxError s)"
proof -
  obtain l where l: "st_numBins s = 2 ^ l" "1 \<le> l" and
    k: "st_treeMaxError s = UINT_MAX \<and> l \<le> 30 \<or> 1 \<le> st_treeMaxError s \<and> st_treeMaxError s \<le> 1024 \<and> l \<le> min 20 lg"
    using c by (auto simp: candidate_def)
  have lgr: "lg = nlen r" using lg r nlen_bounds(3) [OF r(1)] by (simp add: ComputeLog_def split: if_splits)
  have L: "nlen (2 ^ l) - 1 = l" by (simp add: nlen_power)
  have le: "l \<le> nlen r"
  proof (cases "st_treeMaxError s = UINT_MAX")
    case True
    then show ?thesis using big l(1) by simp
  next
    case False
    then show ?thesis using k lgr by simp
  qed
  have width: "nlen r mod l = 0 \<or> 2 ^ (nlen r mod l) \<le> st_treeMaxError s"
  proof (cases "st_treeMaxError s = UINT_MAX")
    case True
    then have "l \<le> 30" using k by (auto simp: UINT_MAX_def)
    moreover have "nlen r mod l < l" using l(2) by simp
    ultimately have "(2 :: nat) ^ (nlen r mod l) \<le> 2 ^ 30" by (intro power_increasing) simp_all
    also have "\<dots> \<le> UINT_MAX" by (simp add: UINT_MAX_def)
    finally show ?thesis using True by simp
  next
    case False
    then show ?thesis using assms(5) unfolding l(1) L by auto
  qed
  have "1 \<le> st_treeMaxError s" using k by (auto simp: UINT_MAX_def)
  then show ?thesis using l le width r(2) unfolding cht_tuning_def l(1) L Let_def by simp
qed

subsection \<open>Ranges without a tuning\<close>

text \<open>
  When the range of the keys is a power of two, the last two points of the spline have no common prefix at all, not even the bits that
  the range leaves out: the length of the prefix is below zero and the counter is outside its vector.
\<close>

lemma xor_top_bit:
  fixes x y :: "'w::len word"
  assumes x: "unat x = 2 ^ m" and y: "y < x"
  shows "nlen (unat (x XOR y)) = m + 1"
proof -
  have yx: "unat y < 2 ^ m" using y x by (simp add: word_less_nat_alt)
  have "take_bit m (unat y) = unat y" using yx by (simp add: take_bit_nat_eq_self)
  then have "\<not> bit (unat y) m" by (metis bit_take_bit_iff less_irrefl)
  then have "(2 ^ m) AND unat y = 0" by (intro bit_eqI) (auto simp: bit_and_iff bit_exp_iff)
  then have "2 ^ m + unat y = (2 ^ m) XOR unat y" by (rule disjunctive_add_eq_xor)
  also have "\<dots> = unat (x XOR y)" unfolding x [symmetric] by (rule unsigned_xor_eq [symmetric])
  finally have "unat (x XOR y) = 2 ^ m + unat y" by simp
  then have "unat (x XOR y) < 2 ^ (m + 1)" "\<not> unat (x XOR y) < 2 ^ m" using yx by simp_all
  then have "nlen (unat (x XOR y)) \<le> m + 1" "\<not> nlen (unat (x XOR y)) \<le> m" unfolding nlen_le_iff by simp_all
  then show ?thesis by simp
qed

lemma lcp_underflow:
  fixes x y :: "'w::len word"
  assumes x: "unat x = 2 ^ m" and y: "y < x" and w: "LENGTH('w) < 2 ^ 32"
  shows "\<exists>l. ComputeLcp x y = Some l \<and> usub l (usub (LENGTH('w)) m) = 2 ^ 32 - 1"
proof -
  let ?W = "LENGTH('w)"
  have "(2 :: nat) ^ m < 2 ^ ?W" unfolding x [symmetric] by (rule unsigned_less)
  then have m: "m < ?W" by simp
  have "usub ?W m = ?W - m" using m w by (simp add: usub_def of_nat_diff nat_diff_distrib)
  moreover have "ComputeLcp x y = Some (?W - (m + 1))" using xor_top_bit [OF x y] y by (auto simp: ComputeLcp_def)
  moreover have "(int (?W - (m + 1)) - int (?W - m)) mod 2 ^ 32 = 2 ^ 32 - 1"
  proof -
    have "int (?W - (m + 1)) - int (?W - m) = - 1" using m by (simp add: of_nat_diff)
    then show ?thesis by simp
  qed
  ultimately show ?thesis by (simp add: usub_def)
qed

lemma power_two_log:
  shows "ComputeLog (2 ^ m) True = Some m"
  using power_and_pred [of m] by (simp add: ComputeLog_def nlen_power)

text \<open>The last step of the loop over the prefixes fails.\<close>

lemma no_cht_statistics:
  fixes b :: "'w::len word ts_builder"
  assumes range: "unat (tb_max_key b - tb_min_key b) = 2 ^ m" and w: "LENGTH('w) < 2 ^ 31"
    and n: "2 \<le> length (tb_spline_points b)" and x: "co_x (last (tb_spline_points b)) = tb_max_key b"
    and y: "co_x (tb_spline_points b ! (length (tb_spline_points b) - 2)) - tb_min_key b < tb_max_key b - tb_min_key b"
  shows "ComputeCHTStatistics is_linear b statistics = None"
proof -
  let ?ps = "tb_spline_points b" let ?n = "length ?ps"
  let ?step = "lcp_step (tb_min_key b) ?ps (usub (LENGTH('w)) m)"
  have "(2 :: nat) ^ m < 2 ^ LENGTH('w)" unfolding range [symmetric] by (rule unsigned_less)
  then have m: "m < LENGTH('w)" by simp
  have "?ps ! (?n - 1) = last ?ps" using n by (intro last_conv_nth [symmetric]) auto
  then have lastx: "co_x (?ps ! (?n - 1)) = tb_max_key b" using x by simp
  obtain l where l: "ComputeLcp (tb_max_key b - tb_min_key b) (co_x (?ps ! (?n - 2)) - tb_min_key b) = Some l"
      "usub l (usub (LENGTH('w)) m) = 2 ^ 32 - 1" using lcp_underflow [OF range y] w by auto
  have "?n - 1 - 1 = ?n - 2" "?n - 1 < ?n" "?n - 2 < ?n" using n by auto
  then have e: "ExtractLCP (tb_min_key b) ?ps (usub (LENGTH('w)) m) (?n - 1) = Some (2 ^ 32 - 1)"
    using l lastx by (simp add: ExtractLCP_def at_opt_def)
  have fails: "?step (?n - 1) s = None" if "length (snd s) = 1 + m" for s
  proof -
    have "at_opt (snd s) (2 ^ 32 - 1) = None" using that m w by (simp add: at_opt_def)
    then show ?thesis using e by (cases s) (auto simp: lcp_step_def split: bind_splits)
  qed
  have "[1..<Suc (?n - 1)] = [1..<?n - 1] @ [?n - 1]" using n by (intro upt_Suc_append) simp
  moreover have "Suc (?n - 1) = ?n" using n by simp
  ultimately have up: "[1..<?n] = [1..<?n - 1] @ [?n - 1]" by (simp only:)
  have "fold_opt ?step [1..<?n] (lcp, replicate (1 + m) 0) = None" for lcp
  proof (cases "fold_opt ?step [1..<?n - 1] (lcp, replicate (1 + m) 0)")
    case (Some s)
    then have "length (snd s) = 1 + m"
      by (rule fold_opt_inv [where P = "\<lambda>s. length (snd s) = 1 + m"]) (auto simp: lcp_step_def bind_eq_Some_conv put_def split: if_splits)
    then show ?thesis unfolding up fold_opt_snoc using Some fails by simp
  next
    case None
    then show ?thesis unfolding up fold_opt_snoc by simp
  qed
  then show ?thesis
    unfolding ComputeCHTStatistics_def range power_two_log by (auto simp: Let_def split: bind_splits)
qed

text \<open>The points of the finished builder, and what the tuning makes of them.\<close>

lemma final_ok_points:
  assumes b: "final_ok e keys b" and srt: "sorted keys" and ne: "keys \<noteq> []" and len: "length keys \<le> 2 ^ 53"
  shows "points_ok (tb_min_key b) (tb_max_key b) (tb_spline_points b)" and "co_y (tb_spline_points b ! 0) = 0"
    and "co_x (last (tb_spline_points b)) = tb_max_key b"
proof -
  let ?cs = "cdf keys" let ?ps = "tb_spline_points b"
  obtain S where S: "spline_at e ?cs S" "2 \<le> length S" "last S = length ?cs - 1" "?ps = points_of ?cs S" using b by (auto simp: final_ok_def)
  have f: "tb_min_key b = hd keys" "tb_max_key b = last keys" using b by (simp_all add: final_ok_def)
  have inc: "increasing ?cs" using cdf_sorted [OF srt] by (simp add: increasing_def)
  have S0: "S \<noteq> []" "hd S = 0" "?cs \<noteq> []" using S(1) ne by (auto simp: spline_at_def)
  have mono: "sorted_wrt (\<lambda>p q. co_x p < co_x q \<and> co_y p < co_y q) ?ps"
    unfolding S(4) points_of_def sorted_wrt_map cdf_point_simps
  proof (rule sorted_wrt_mono_rel [OF _ spline_at_sorted [OF S(1)]])
    fix i j assume "i \<in> set S" "j \<in> set S" "i < j"
    then show "fst (?cs ! i) < fst (?cs ! j) \<and> (of_nat (snd (?cs ! i)) :: rat) < of_nat (snd (?cs ! j))"
      using increasingD(1,2) [OF inc] spline_at_less [OF S(1)] by auto
  qed
  have key: "hd keys \<le> fst p \<and> fst p \<le> last keys \<and> snd p < length keys" if "p \<in> set ?cs" for p
  proof -
    have p: "snd p < length keys" "keys ! snd p = fst p" using set_cdf [of "fst p" "snd p" keys] that by simp_all
    have "keys ! 0 \<le> keys ! snd p" "keys ! snd p \<le> keys ! (length keys - 1)" using p(1) by (auto intro!: sorted_nth_mono [OF srt])
    then show ?thesis using p ne by (simp add: hd_conv_nth last_conv_nth)
  qed
  have "\<forall>p\<in>set ?ps. hd keys \<le> co_x p \<and> co_x p \<le> last keys \<and> (\<exists>m. co_y p = of_nat m \<and> m \<le> 2 ^ 53)"
  proof
    fix p assume "p \<in> set ?ps"
    then obtain i where i: "i \<in> set S" "p = cdf_point (?cs ! i)" by (auto simp: S(4) points_of_def)
    have "?cs ! i \<in> set ?cs" using spline_at_less [OF S(1) i(1)] by simp
    from key [OF this] show "hd keys \<le> co_x p \<and> co_x p \<le> last keys \<and> (\<exists>m. co_y p = of_nat m \<and> m \<le> 2 ^ 53)"
      unfolding i(2) cdf_point_simps using len by (auto intro!: exI [of _ "snd (?cs ! i)"])
  qed
  then show "points_ok (tb_min_key b) (tb_max_key b) ?ps"
    unfolding points_ok_def f using mono S(2) by (simp add: S(4) points_of_def)
  have "?ps ! 0 = cdf_point (?cs ! 0)" using S0 by (cases S) (auto simp: S(4) points_of_def)
  moreover have "?cs ! 0 = (hd keys, 0)" using hd_cdf [OF ne] S0(3) by (simp add: hd_conv_nth)
  ultimately show "co_y (?ps ! 0) = 0" by simp
  show "co_x (last ?ps) = tb_max_key b"
    using S(3) last_cdf [OF ne] last_conv_nth [OF S0(3)] f by (simp add: S(4) last_points_of [OF S0(1)])
qed

lemma power_two_no_tuning:
  fixes b :: "'w::len word ts_builder"
  assumes ps: "points_ok (tb_min_key b) (tb_max_key b) (tb_spline_points b)" and x: "co_x (last (tb_spline_points b)) = tb_max_key b"
    and range: "unat (tb_max_key b - tb_min_key b) = 2 ^ m" and w: "LENGTH('w) < 2 ^ 31"
  shows "ts_tuning is_linear b = None"
proof -
  let ?ps = "tb_spline_points b"
  have n: "2 \<le> length ?ps" using ps by (simp add: points_ok_def)
  then have i: "length ?ps - 2 < length ?ps - 1" "length ?ps - 1 < length ?ps" "?ps \<noteq> []" by auto
  have "co_x (?ps ! (length ?ps - 2)) < co_x (last ?ps)" unfolding last_conv_nth [OF i(3)] by (rule points_ok_less(1) [OF ps i(1,2)])
  moreover have "tb_min_key b \<le> co_x (?ps ! (length ?ps - 2))" by (rule points_okD(1) [OF ps]) (use n in simp)
  ultimately have below: "co_x (?ps ! (length ?ps - 2)) - tb_min_key b < tb_max_key b - tb_min_key b"
    unfolding x by (simp add: word_less_nat_alt unat_sub word_le_nat_alt diff_less_mono)
  have "ComputeCHTStatistics is_linear b statistics = None" for statistics by (rule no_cht_statistics [OF range w n x below])
  then show ?thesis by (simp add: ts_tuning_def ComputeStatistics_def)
qed

text \<open>So no TrieSpline is built for such keys, with the tuning of the code.\<close>

lemma no_trie_spline:
  fixes keys :: "'w::len word list"
  assumes srt: "sorted keys" and one: "single_last keys" and ex: "exact_products (hd keys) (last keys) M" and len: "length keys + e \<le> M"
    and w: "LENGTH('w) < 2 ^ 31" and range: "unat (last keys - hd keys) = 2 ^ m"
  shows "do { b \<leftarrow> ts_add_all keys (ts_builder_init (hd keys) (last keys) e); ts_Finalize (ts_tuning is_linear) b } = None"
proof -
  obtain b where b: "final_builder e keys = Some b" "final_ok e keys b" using final_builder_ok [OF srt one ex len] by blast
  have ne: "keys \<noteq> []" and small: "length keys \<le> 2 ^ 53" using one len exact_productsD(2) [OF ex] by (auto simp: single_last_def)
  note ps = final_ok_points [OF b(2) srt ne small]
  have "unat (tb_max_key b - tb_min_key b) = 2 ^ m" using b(2) range by (simp add: final_ok_def)
  then have "ts_tuning is_linear b = None" by (rule power_two_no_tuning [OF ps(1,3) _ w])
  then show ?thesis
    using b(1) by (cases "ts_add_all keys (ts_builder_init (hd keys) (last keys) e)") (auto simp: final_builder_def ts_Finalize_def)
qed

text \<open>C12. The choice of the tuning succeeds exactly when the range of the keys is not a power of two: then the costs of all radix tables and of all
  trees are computed without leaving a vector, taking the logarithm of zero or failing an assertion, and the choice is a radix table of at
  most 30 bits or a tree of at most 20 bits, not more than the range has, with an error between 1 and 1024.\<close>

theorem ts_tuning_succeeds:
  fixes keys :: "'w::len word list"
  assumes "sorted keys" and "single_last keys" and "exact_products (hd keys) (last keys) (length keys + e)" and "LENGTH('w) < 2 ^ 31"
  shows "\<exists>b. final_builder e keys = Some b \<and>
    (case ts_tuning is_linear b of
       None \<Rightarrow> \<exists>m. unat (last keys - hd keys) = 2 ^ m
     | Some (num_bins, max_error) \<Rightarrow> (\<forall>m. unat (last keys - hd keys) \<noteq> 2 ^ m) \<and>
         (\<exists>l. num_bins = 2 ^ l \<and> 1 \<le> l \<and> (max_error = UINT_MAX \<and> l \<le> 30 \<or>
            1 \<le> max_error \<and> max_error \<le> 1024 \<and> l \<le> 20 \<and> l \<le> nlen (unat (last keys - hd keys)))))"
proof -
  obtain b where b: "final_builder e keys = Some b" "final_ok e keys b" using final_builder_ok [OF assms(1-3) order_refl] by blast
  have ne: "keys \<noteq> []" and small: "length keys \<le> 2 ^ 53" using assms(2) exact_productsD(2) [OF assms(3)] by (auto simp: single_last_def)
  note ps = final_ok_points [OF b(2) assms(1) ne small]
  have f: "tb_min_key b = hd keys" "tb_max_key b = last keys" using b(2) by (simp_all add: final_ok_def)
  have r: "tb_min_key b \<noteq> tb_max_key b" using assms(3) f by (auto simp: exact_products_def)
  show ?thesis
  proof (cases "\<exists>m. unat (last keys - hd keys) = 2 ^ m")
    case True
    then obtain m where "unat (tb_max_key b - tb_min_key b) = 2 ^ m" using f by auto
    then have "ts_tuning is_linear b = None" by (rule power_two_no_tuning [OF ps(1,3) _ assms(4)])
    then show ?thesis using b(1) True by simp
  next
    case False
    then have np: "\<And>m. unat (tb_max_key b - tb_min_key b) \<noteq> 2 ^ m" using f by simp
    obtain nb te where t: "ts_tuning is_linear b = Some (nb, te)" using tuning_ok [OF ps(1) r ps(2) np assms(4)] by blast
    have "ComputeLog (unat (tb_max_key b - tb_min_key b)) True = Some (nlen (unat (last keys - hd keys)))"
      using log_not_power [OF np] r f by (simp add: unat_eq_0)
    from tuning_candidate [OF t this] show ?thesis using b(1) t False by (auto simp: candidate_def)
  qed
qed

text \<open>Keys whose range, 29, is not a power of two.\<close>

theorem ts_tuning_succeeds_witness:
  "\<exists>b nb te. final_builder 1 [2, 5, 5, 11, 31 :: u64] = Some b \<and> ts_tuning True b = Some (nb, te)"
proof -
  let ?keys = "[2, 5, 5, 11, 31] :: u64 list"
  have "\<exists>b. final_builder 1 ?keys = Some b \<and>
    (case ts_tuning True b of
       None \<Rightarrow> \<exists>m. unat (last ?keys - hd ?keys) = 2 ^ m
     | Some (num_bins, max_error) \<Rightarrow> (\<forall>m. unat (last ?keys - hd ?keys) \<noteq> 2 ^ m) \<and>
         (\<exists>l. num_bins = 2 ^ l \<and> 1 \<le> l \<and> (max_error = UINT_MAX \<and> l \<le> 30 \<or>
            1 \<le> max_error \<and> max_error \<le> 1024 \<and> l \<le> 20 \<and> l \<le> nlen (unat (last ?keys - hd ?keys)))))"
    by (rule ts_tuning_succeeds) (simp_all add: single_last_def exact_products_def)
  moreover have "unat (last ?keys - hd ?keys) \<noteq> 2 ^ m" for m
  proof
    assume "unat (last ?keys - hd ?keys) = 2 ^ m"
    then have m: "(2 :: nat) ^ m = 29" by simp
    have "odd ((2 :: nat) ^ m)" unfolding m by simp
    then have "m = 0" by simp
    then show False using m by simp
  qed
  ultimately show ?thesis by (auto split: option.splits)
qed

end
