(* ===== verification/Ts_Bench.thy ===== *)
theory Ts_Bench
  imports Ts_Tuning_Correct Pgm_Bench
begin

text \<open>
  The wrapper \<^verbatim>\<open>TS\<close> of \<^verbatim>\<open>src/competitors/ts.h\<close> around the TrieSpline, its contract as an index of the benchmark, and its properties.
\<close>

subsection \<open>The wrapper\<close>

text \<open>The parameter of the constructor, the search class, and the choice of the tuning.\<close>

record 'k ts_params =
  tsp_spline_max_error :: nat
  tsp_lower :: "'k search"
  tsp_upper :: "'k search"
  tsp_tuning :: "'k ts_builder \<Rightarrow> (nat \<times> nat) option"

record 'k TS_fields =
  ts_ts :: "'k TrieSpline"
  ts_data :: "'k KeyValue list"

definition TS_Build :: "'w::len word ts_params \<Rightarrow> 'w word KeyValue list \<Rightarrow> 'w word TS_fields option" where
  "TS_Build C data = do {
     let min_key = (if data = [] then 0 else kv_key (hd data));
     let max_key = (if data = [] then - 1 else kv_key (last data));
     tsb \<leftarrow> ts_add_all (map kv_key data) (ts_builder_init min_key max_key (tsp_spline_max_error C));
     ts \<leftarrow> ts_Finalize (tsp_tuning C) tsb;
     Some \<lparr>ts_ts = ts, ts_data = data\<rparr>
   }"

definition TS_lower_bound :: "'w::len word ts_params \<Rightarrow> 'w word TS_fields \<Rightarrow> 'w word \<Rightarrow> nat option" where
  "TS_lower_bound C s key = do {
     sb \<leftarrow> ts_GetSearchBound (tsp_lower C) (ts_ts s) key;
     it \<leftarrow> tsp_lower C (int (sb_begin sb)) (int (sb_end sb)) key (int (sb_begin sb)) (list_reader (map kv_key (ts_data s)));
     Some (nat it)
   }"

definition TS_EqualityLookup :: "'w::len word ts_params \<Rightarrow> 'w word TS_fields \<Rightarrow> 'w word \<Rightarrow> u64 option" where
  "TS_EqualityLookup C s lookup_key = do {
     it \<leftarrow> TS_lower_bound C s lookup_key;
     if it = length (ts_data s) then Some OVERFLOW
     else if it > length (ts_data s) then None
     else if kv_key (ts_data s ! it) \<noteq> lookup_key then Some OVERFLOW
     else Some (of_nat it)
   }"

text \<open>The loop of \<^verbatim>\<open>RangeQuery\<close> on the data from the iterator on.\<close>

fun TS_sum :: "'k::linorder KeyValue list \<Rightarrow> 'k \<Rightarrow> u64 \<Rightarrow> u64" where
  "TS_sum [] upper_key result = result"
| "TS_sum (kv # kvs) upper_key result = (if kv_key kv \<le> upper_key then TS_sum kvs upper_key (result + kv_value kv) else result)"

definition TS_RangeQuery :: "'w::len word ts_params \<Rightarrow> 'w word TS_fields \<Rightarrow> 'w word \<Rightarrow> 'w word \<Rightarrow> u64 option" where
  "TS_RangeQuery C s lower_key upper_key = do {
     it \<leftarrow> TS_lower_bound C s lower_key;
     if it > length (ts_data s) then None
     else Some (TS_sum (drop it (ts_data s)) upper_key 0)
   }"

definition TS_size :: "u64 TS_fields \<Rightarrow> nat" where
  "TS_size s = ts_GetSize (ts_ts s) + (8 + 8) * length (ts_data s)"

text \<open>The base class ignores insertions.\<close>

definition TS :: "'w::len word ts_params \<Rightarrow> ('w word, 'w word TS_fields) index_ops" where
  "TS C =
     \<lparr>ix_Build = TS_Build C,
      ix_EqualityLookup = (\<lambda>s lookup_key thread_id. TS_EqualityLookup C s lookup_key),
      ix_RangeQuery = (\<lambda>s lower_key upper_key thread_id. TS_RangeQuery C s lower_key upper_key),
      ix_Insert = (\<lambda>data thread_id s. Some s)\<rparr>"

subsection \<open>Queries\<close>

definition TS_ok :: "'w::len word ts_params \<Rightarrow> 'w word TS_fields \<Rightarrow> bool" where
  "TS_ok C s \<longleftrightarrow> trie_ok (tsp_spline_max_error C) (map kv_key (ts_data s)) (ts_ts s)"

lemma TS_Build_ok:
  assumes "ts_fits (tsp_tuning C) (tsp_spline_max_error C) (map kv_key data)"
  shows "\<exists>s. TS_Build C data = Some s \<and> ts_data s = data \<and> TS_ok C s"
proof -
  have "data \<noteq> []" using assms by (auto simp: ts_fits_def single_last_def)
  then have "hd (map kv_key data) = kv_key (hd data)" "last (map kv_key data) = kv_key (last data)" by (simp_all add: hd_map last_map)
  then show ?thesis using ts_Finalize_ok [OF assms] \<open>data \<noteq> []\<close> by (auto simp: TS_Build_def TS_ok_def bind_eq_Some_conv)
qed

text \<open>The search ends at or before the position of the key, and there when the key is present or no key occurs twice.\<close>

lemma TS_lower_bound_result:
  assumes sc: "search_class (tsp_lower C) (tsp_upper C)" and s: "TS_ok C s"
  shows "\<exists>it. TS_lower_bound C s k = Some it \<and> it \<le> key_position (map kv_key (ts_data s)) k \<and>
    (k \<in> set (map kv_key (ts_data s)) \<or> distinct (map kv_key (ts_data s)) \<longrightarrow> it = key_position (map kv_key (ts_data s)) k)"
proof -
  let ?keys = "map kv_key (ts_data s)"
  have t: "trie_ok (tsp_spline_max_error C) ?keys (ts_ts s)" using s by (simp add: TS_ok_def)
  then have srt: "sorted ?keys" and n: "length ?keys * LENGTH('a) + 2 < 2 ^ 31" by (simp_all add: trie_ok_def)
  obtain sb where sb: "ts_GetSearchBound (tsp_lower C) (ts_ts s) k = Some sb" "ts_window_ok ?keys k sb" using ts_window [OF sc t] by blast
  note w = sb(2) [unfolded ts_window_ok_def]
  have "length ?keys \<le> 2 ^ 53" using few_keys [OF n] by simp
  then have "tsp_lower C (int (sb_begin sb)) (int (sb_end sb)) k (int (sb_begin sb)) (list_reader ?keys) =
      Some (int (min (sb_end sb) (key_position ?keys k)))" using w by (intro window_search [OF sc srt]) auto
  then show ?thesis using sb(1) w by (auto simp: TS_lower_bound_def min_def)
qed

lemma TS_EqualityLookup_result:
  assumes "search_class (tsp_lower C) (tsp_upper C)" and "TS_ok C s"
  shows "TS_EqualityLookup C s k =
    Some (if k \<in> set (map kv_key (ts_data s)) then of_nat (key_position (map kv_key (ts_data s)) k) else OVERFLOW)"
proof -
  have "sorted (map kv_key (ts_data s))" using assms(2) by (simp add: TS_ok_def trie_ok_def)
  note t = key_position [OF this, where k = k]
  obtain it where it: "TS_lower_bound C s k = Some it" "it \<le> key_position (map kv_key (ts_data s)) k"
      "k \<in> set (map kv_key (ts_data s)) \<Longrightarrow> it = key_position (map kv_key (ts_data s)) k"
    using TS_lower_bound_result [OF assms] by blast
  have len: "it \<le> length (ts_data s)" using it(2) t(1) by simp
  show ?thesis
  proof (cases "k \<in> set (map kv_key (ts_data s))")
    case True
    have lt: "it < length (ts_data s)" and "map kv_key (ts_data s) ! it = k" using it(3) [OF True] t(4) [OF True] by simp_all
    then have "kv_key (ts_data s ! it) = k" by simp
    then show ?thesis using it(1,3) lt True by (simp add: TS_EqualityLookup_def)
  next
    case False
    then have "kv_key (ts_data s ! it) \<noteq> k" if "it < length (ts_data s)" using that by auto
    then show ?thesis using it(1) len False by (auto simp: TS_EqualityLookup_def)
  qed
qed

lemma TS_sum_result: "TS_sum kvs hi r = r + sum_list (map kv_value (takeWhile (\<lambda>kv. kv_key kv \<le> hi) kvs))"
  by (induction kvs arbitrary: r) (auto simp: algebra_simps)

lemma TS_RangeQuery_result:
  assumes "search_class (tsp_lower C) (tsp_upper C)" and "TS_ok C s"
    and "lo \<in> set (map kv_key (ts_data s)) \<or> distinct (map kv_key (ts_data s))"
  shows "TS_RangeQuery C s lo hi = Some (pair_sum (kv_pairs (ts_data s)) lo hi)"
proof -
  let ?keys = "map kv_key (ts_data s)"
  have srt: "sorted ?keys" using assms(2) by (simp add: TS_ok_def trie_ok_def)
  have it: "TS_lower_bound C s lo = Some (key_position ?keys lo)" using TS_lower_bound_result [OF assms(1,2), of lo] assms(3) by blast
  have "key_position ?keys lo = length (takeWhile (\<lambda>kv. kv_key kv < lo) (ts_data s))" by (simp add: key_position_def takeWhile_map o_def)
  then have "drop (key_position ?keys lo) (ts_data s) = dropWhile (\<lambda>kv. kv_key kv < lo) (ts_data s)" by (simp add: dropWhile_eq_drop)
  moreover have "key_position ?keys lo \<le> length (ts_data s)" using key_position(1) [OF srt, of lo] by simp
  ultimately show ?thesis using it sorted_range_sum [OF srt] by (simp add: TS_RangeQuery_def TS_sum_result)
qed

subsection \<open>The contract with the benchmark\<close>

text \<open>As for the PGM-index, the values have to be the positions of their keys.\<close>

definition TS_represents :: "'w::len word ts_params \<Rightarrow> 'w word TS_fields \<Rightarrow> ('w word \<times> u64) list \<Rightarrow> bool" where
  "TS_represents C s kvs \<longleftrightarrow> TS_ok C s \<and> distinct (map kv_key (ts_data s)) \<and> kv_pairs (ts_data s) = kvs \<and>
     map snd kvs = map of_nat [0..<length kvs]"

definition TS_builds :: "'w::len word ts_params \<Rightarrow> ('w word \<times> u64) list \<Rightarrow> bool" where
  "TS_builds C kvs \<longleftrightarrow> ts_fits (tsp_tuning C) (tsp_spline_max_error C) (map fst kvs) \<and> distinct (map fst kvs) \<and>
     map snd kvs = map of_nat [0..<length kvs]"

lemma TS_contract:
  fixes C :: "'w::len word ts_params"
  assumes sc: "search_class (tsp_lower C) (tsp_upper C)"
  shows "index_contract (TS C) (TS_represents C) (TS_builds C) (\<lambda>_. False)"
proof
  fix data :: "'w word KeyValue list" assume b: "TS_builds C (kv_pairs data)"
  then have "ts_fits (tsp_tuning C) (tsp_spline_max_error C) (map kv_key data)" "distinct (map kv_key data)"
    unfolding TS_builds_def keys_of_pairs by blast+
  from TS_Build_ok [OF this(1)] this(2) b show "\<exists>i. ix_Build (TS C) data = Some i \<and> TS_represents C i (kv_pairs data)"
    by (auto simp: TS_def TS_represents_def TS_builds_def)
next
  fix i :: "'w word TS_fields" and kvs and k :: "'w word" and t assume r: "TS_represents C i kvs"
  have ok: "TS_ok C i" and kvs: "kv_pairs (ts_data i) = kvs" and pos: "map snd kvs = map of_nat [0..<length kvs]"
    using r by (simp_all add: TS_represents_def)
  have srt: "sorted (map kv_key (ts_data i))" using ok by (simp add: TS_ok_def trie_ok_def)
  have keys: "fst ` set kvs = set (map kv_key (ts_data i))" unfolding kvs [symmetric] keys_of_pairs [symmetric] by simp
  show "\<exists>r. ix_EqualityLookup (TS C) i k t = Some r \<and> (if k \<in> fst ` set kvs then (k, r) \<in> set kvs else r = OVERFLOW)"
    using TS_EqualityLookup_result [OF sc ok, of k] position_value [OF srt, of kvs k] kvs pos keys by (auto simp: TS_def)
next
  fix i :: "'w word TS_fields" and kvs and lo hi :: "'w word" and t assume r: "TS_represents C i kvs"
  then show "ix_RangeQuery (TS C) i lo hi t = Some (pair_sum kvs lo hi)"
    using TS_RangeQuery_result [OF sc] by (auto simp: TS_def TS_represents_def)
qed simp

subsection \<open>Evaluating a lookup\<close>

text \<open>The range of one key, from the finished builder and the interpolation, whatever the tree looks like.\<close>

definition builder_view :: "'k ts_builder \<Rightarrow> 'k Coord list \<times> 'k cht_builder \<times> 'k \<times> 'k \<times> nat \<times> nat" where
  "builder_view b = (tb_spline_points b, tb_chtb b, tb_min_key b, tb_max_key b, tb_curr_num_keys b, tb_spline_max_error b)"

definition window_at :: "nat \<Rightarrow> nat \<Rightarrow> rat \<Rightarrow> SearchBound" where
  "window_at n e est = \<lparr>sb_begin = nat \<lfloor>est\<rfloor> - e, sb_end = min n (nat \<lfloor>est\<rfloor> + e + 2)\<rparr>"

lemma ts_bound_at:
  fixes data :: "'w::len word KeyValue list" and xs :: "'w word list"
  assumes sc: "search_class (tsp_lower C) (tsp_upper C)" and data: "map kv_key data = keys" "data \<noteq> []"
    and xs: "sorted_wrt (<) xs" "2 \<le> length xs" "length xs * LENGTH('w) + 2 < 2 ^ 31" "hd xs = hd keys" "last xs = last keys" "map co_x pts = xs"
    and b: "map_option builder_view (final_builder (tsp_spline_max_error C) keys) =
      Some (pts, \<lparr>cb_min_key = hd xs, cb_max_key = last xs, cb_prev_key = last xs, cb_keys = xs\<rparr>, hd keys, last keys, length keys, e)"
    and tuning: "tsp_tuning C = (\<lambda>b. Some (nb, te))" "cht_tuning (unat (last xs - hd xs)) nb te"
    and k: "hd keys < k" "k < last keys" and est: "interpolate pts (key_position xs k) k = Some est" "0 \<le> est" "est < 2 ^ 64"
  shows "\<exists>s. TS_Build C data = Some s \<and> ts_data s = data \<and> ts_GetSearchBound (tsp_lower C) (ts_ts s) k = Some (window_at (length keys) e est)"
proof -
  obtain b where fb: "final_builder (tsp_spline_max_error C) keys = Some b" and
      f: "tb_spline_points b = pts" "tb_chtb b = \<lparr>cb_min_key = hd xs, cb_max_key = last xs, cb_prev_key = last xs, cb_keys = xs\<rparr>"
        "tb_min_key b = hd keys" "tb_max_key b = last keys" "tb_curr_num_keys b = length keys" "tb_spline_max_error b = e"
    using b by (auto simp: builder_view_def)
  obtain t where t: "cht_Finalize (tb_chtb b) nb te = Some t"
      "\<And>k. hd xs \<le> k \<Longrightarrow> k \<le> last xs \<Longrightarrow> \<exists>r. cht_GetSearchBound t k = Some r \<and> cht_bound_ok xs k r"
    using cht_Finalize_result [OF xs(1,2,3) tuning(2) f(2)] by blast
  let ?t = "\<lparr>tr_min_key = hd keys, tr_max_key = last keys, tr_num_keys = length keys, tr_spline_max_error = e,
    tr_spline_points = pts, tr_cht = t\<rparr>"
  have "hd keys = kv_key (hd data)" "last keys = kv_key (last data)" using data by (auto simp: hd_map last_map)
  then have build: "TS_Build C data = Some \<lparr>ts_ts = ?t, ts_data = data\<rparr>"
    using fb t(1) tuning(1) f data by (auto simp: TS_Build_def ts_Finalize_def final_builder_def bind_eq_Some_conv)
  obtain r where r: "cht_GetSearchBound t k = Some r" "cht_bound_ok xs k r"
    using t(2) [of k] k unfolding xs(4,5) by (auto intro: less_imp_le)
  have rb: "sb_begin r \<le> key_position xs k" "key_position xs k \<le> sb_end r" "sb_end r \<le> length xs" using r(2) by (simp_all add: cht_bound_ok_def)
  have srt: "sorted xs" by (rule strict_sorted_imp_sorted [OF xs(1)])
  have "length xs \<le> 2 ^ 53" using few_keys [OF xs(3)] by simp
  then have "tsp_lower C (int (sb_begin r)) (int (sb_end r)) k (int (sb_begin r)) (list_reader xs) = Some (int (key_position xs k))"
    using window_search [OF sc srt, of "sb_begin r" "sb_begin r" "sb_end r" k] rb by (simp add: min_absorb2)
  then have "GetSplineSegment (tsp_lower C) ?t k = Some (key_position xs k)" using r(1) xs(6) by (simp add: GetSplineSegment_def)
  moreover have "\<not> k \<le> hd keys" "\<not> last keys \<le> k" using k by auto
  ultimately have "GetEstimatedPosition (tsp_lower C) ?t k = Some est" using est(1) by (simp add: GetEstimatedPosition_def)
  then have "ts_GetSearchBound (tsp_lower C) ?t k = Some (window_at (length keys) e est)"
    using est(2,3) by (simp add: ts_GetSearchBound_def window_at_def Let_def min_def)
  then show ?thesis using build by auto
qed

definition ts64 :: "u64 ts_params" where
  "ts64 = \<lparr>tsp_spline_max_error = 1,
     tsp_lower = (\<lambda>a b key s at'. LinearSearch_lower_bound a b key s at' (<)),
     tsp_upper = (\<lambda>a b key s at'. LinearSearch_upper_bound a b key s at' (<)),
     tsp_tuning = (\<lambda>b. Some (4, 16))\<rparr>"

lemma ts64_class: "search_class (tsp_lower ts64) (tsp_upper ts64)"
  by (simp add: ts64_def linear.search_class_axioms)

definition pos_data :: "u64 list \<Rightarrow> u64 KeyValue list" where
  "pos_data keys = map2 (\<lambda>k v. \<lparr>kv_key = k, kv_value = of_nat v\<rparr>) keys [0..<length keys]"

subsection \<open>Properties\<close>

text \<open>C9. The wrapper of the TrieSpline answers lookups and range queries as the data does: a lookup returns the position of the first pair
  with the key, or OVERFLOW when there is none, and a range query that starts at a present key, or on data without duplicates, the sum
  of the values in the range. This holds for every search class, every error and every tuning that fits the range of the
  keys, for data in which only the largest key has to be single.\<close>

theorem ts_correct:
  fixes C :: "'w::len word ts_params" and data :: "'w word KeyValue list"
  assumes "search_class (tsp_lower C) (tsp_upper C)" and "ts_fits (tsp_tuning C) (tsp_spline_max_error C) (map kv_key data)"
  shows "\<exists>s. TS_Build C data = Some s \<and>
    (\<forall>k. TS_EqualityLookup C s k =
      Some (if k \<in> kv_key ` set data then of_nat (length (takeWhile (\<lambda>kv. kv_key kv < k) data)) else OVERFLOW)) \<and>
    (\<forall>lo hi. lo \<in> kv_key ` set data \<or> distinct (map kv_key data) \<longrightarrow> TS_RangeQuery C s lo hi = Some (pair_sum (kv_pairs data) lo hi))"
proof -
  obtain s where s: "TS_Build C data = Some s" "ts_data s = data" "TS_ok C s" using TS_Build_ok [OF assms(2)] by blast
  have "length (takeWhile (\<lambda>kv. kv_key kv < k) data) = key_position (map kv_key data) k" for k
    by (simp add: key_position_def takeWhile_map o_def)
  then show ?thesis using s TS_EqualityLookup_result [OF assms(1) s(3)] TS_RangeQuery_result [OF assms(1) s(3)] by simp
qed

text \<open>A key that occurs three times, an absent one, and a range.\<close>

theorem ts_correct_witness:
  "\<exists>s. TS_Build ts64 (pos_data [2, 5, 5, 5, 11, 30]) = Some s \<and> TS_EqualityLookup ts64 s 11 = Some 4 \<and>
     TS_EqualityLookup ts64 s 7 = Some OVERFLOW \<and> TS_RangeQuery ts64 s 5 11 = Some 10"
proof -
  let ?d = "pos_data [2, 5, 5, 5, 11, 30]"
  have keys: "map kv_key ?d = [2, 5, 5, 5, 11, 30]" by (simp add: pos_data_def)
  have "tuning_fits (tsp_tuning ts64) (tsp_spline_max_error ts64) [2, 5, 5, 5, 11, 30]" by code_simp
  then have "ts_fits (tsp_tuning ts64) (tsp_spline_max_error ts64) (map kv_key ?d)"
    unfolding keys by (simp add: ts_fits_def single_last_def exact_products_def ts64_def)
  then obtain s where s: "TS_Build ts64 ?d = Some s" and
    q: "\<And>k. TS_EqualityLookup ts64 s k =
      Some (if k \<in> kv_key ` set ?d then of_nat (length (takeWhile (\<lambda>kv. kv_key kv < k) ?d)) else OVERFLOW)"
    and r: "\<And>lo hi. lo \<in> kv_key ` set ?d \<Longrightarrow> TS_RangeQuery ts64 s lo hi = Some (pair_sum (kv_pairs ?d) lo hi)"
    using ts_correct [OF ts64_class, of ?d] by blast
  have "TS_EqualityLookup ts64 s 11 = Some 4" "TS_EqualityLookup ts64 s 7 = Some OVERFLOW" using q [of 11] q [of 7] by (simp_all add: pos_data_def)
  moreover have "TS_RangeQuery ts64 s 5 11 = Some 10" using r [of 5 11] by (simp add: pos_data_def pair_sum_def kv_pairs_def)
  ultimately show ?thesis using s by blast
qed

text \<open>No TrieSpline can be built for keys whose range is a power of two: the length of the common prefix of the last two points of the spline
  underflows, and the counter at this index is far outside its vector.\<close>

theorem ts_power_of_two_range:
  fixes data :: "u64 KeyValue list"
  assumes "sorted (map kv_key data)" and "single_last (map kv_key data)"
    and "exact_products (kv_key (hd data)) (kv_key (last data)) (length data + tsp_spline_max_error C)"
    and "unat (kv_key (last data) - kv_key (hd data)) = 2 ^ m" and "tsp_tuning C = ts_tuning is_linear"
  shows "TS_Build C data = None"
proof -
  have ne: "data \<noteq> []" using assms(2) by (auto simp: single_last_def)
  then have ends: "hd (map kv_key data) = kv_key (hd data)" "last (map kv_key data) = kv_key (last data)" by (simp_all add: hd_map last_map)
  have "do { b \<leftarrow> ts_add_all (map kv_key data) (ts_builder_init (kv_key (hd data)) (kv_key (last data)) (tsp_spline_max_error C));
      ts_Finalize (ts_tuning is_linear) b } = None"
    using no_trie_spline [OF assms(1,2), of "length data + tsp_spline_max_error C" "tsp_spline_max_error C" m is_linear] assms(3,4)
    unfolding ends by simp
  then show ?thesis using ne assms(5) by (auto simp: TS_Build_def split: bind_splits)
qed

theorem ts_power_of_two_range_witness:
  "TS_Build (ts64\<lparr>tsp_tuning := ts_tuning True\<rparr>) (pos_data [1, 4, 5, 20, 33]) = None"
  by (rule ts_power_of_two_range [where m = 5 and is_linear = True]) (simp_all add: pos_data_def ts64_def single_last_def exact_products_def)

text \<open>C38. The tuning of the code can choose a tree that its builder cannot build. For seven keys within 32 it takes eight bins and the error 1: the bins of the root
  are four keys wide, one of them has two points of the spline, and its node would have bins of half a key, a shift by a negative
  number of bits.\<close>

theorem ts_tuning_too_fine:
  "(\<exists>b. final_builder 1 [0, 15, 18, 18, 18, 19, 31 :: u64] = Some b \<and> ts_tuning False b = Some (8, 1)) \<and>
   TS_Build (ts64\<lparr>tsp_lower := (\<lambda>a b key s at'. BranchingBinarySearch_lower_bound a b key s at' (<)),
       tsp_upper := (\<lambda>a b key s at'. BranchingBinarySearch_upper_bound a b key s at' (<)), tsp_tuning := ts_tuning False\<rparr>)
     (pos_data [0, 15, 18, 18, 18, 19, 31]) = None"
proof -
  let ?keys = "[0, 15, 18, 18, 18, 19, 31] :: u64 list"
  have "map_option builder_view (final_builder 1 ?keys) =
      Some (fine_points, \<lparr>cb_min_key = 0, cb_max_key = 31, cb_prev_key = 31, cb_keys = [0, 18, 19, 31]\<rparr>, 0, 31, 7, 1)" by code_simp
  then obtain b where b: "final_builder 1 ?keys = Some b"
      "tb_chtb b = \<lparr>cb_min_key = 0, cb_max_key = 31, cb_prev_key = 31, cb_keys = [0, 18, 19, 31]\<rparr>"
    and f: "tb_spline_points b = fine_points" "tb_min_key b = 0" "tb_max_key b = 31"
    by (auto simp: builder_view_def)
  have t: "ts_tuning False b = Some (8, 1)" by (rule fine_tuning [OF f])
  obtain b0 where b0: "ts_add_all ?keys (ts_builder_init 0 31 1) = Some b0" "Finalize_points b0 = Some b"
    using b(1) by (auto simp: final_builder_def bind_eq_Some_conv)
  have "ts_Finalize (ts_tuning False) b0 = None" using b0(2) t fine_tree_fails b(2) by (simp add: ts_Finalize_def)
  then show ?thesis using b(1) t b0(1) by (simp add: TS_Build_def ts64_def pos_data_def del: ts_add_all.simps)
qed

text \<open>C39. When the largest key occurs several times, the builder adds it to the spline with the position of its last occurrence, and the segment before
  it becomes too steep: the lookup of another key, which is present, returns OVERFLOW.\<close>

theorem ts_largest_key_twice:
  "\<exists>s. TS_Build ts64 (pos_data [0, 10, 20, 20, 20, 20, 20]) = Some s \<and> TS_EqualityLookup ts64 s 10 = Some OVERFLOW"
proof -
  let ?keys = "[0, 10, 20, 20, 20, 20, 20] :: u64 list" and ?pts = "[\<lparr>co_x = 0 :: u64, co_y = 0\<rparr>, \<lparr>co_x = 20, co_y = 6\<rparr>]"
  have "map_option builder_view (final_builder (tsp_spline_max_error ts64) ?keys) =
      Some (?pts, \<lparr>cb_min_key = hd [0, 20], cb_max_key = last [0, 20], cb_prev_key = last [0, 20], cb_keys = [0, 20]\<rparr>,
        hd ?keys, last ?keys, length ?keys, 1)" by code_simp
  moreover have "cht_tuning (unat (last [0, 20 :: u64] - hd [0, 20])) 4 16" by code_simp
  moreover have "interpolate ?pts (key_position [0, 20 :: u64] 10) 10 = Some 3" by code_simp
  ultimately obtain s where s: "TS_Build ts64 (pos_data ?keys) = Some s" "ts_data s = pos_data ?keys"
      "ts_GetSearchBound (tsp_lower ts64) (ts_ts s) 10 = Some (window_at (length ?keys) 1 3)"
    using ts_bound_at [OF ts64_class, of "pos_data ?keys" ?keys "[0, 20]" ?pts 1 4 16 10 3] by (auto simp: pos_data_def ts64_def)
  moreover have "window_at (length ?keys) 1 3 = \<lparr>sb_begin = 2, sb_end = 6\<rparr>" by (simp add: window_at_def)
  moreover have "search_pre (list_reader ?keys) 2 6 2" by (rule search_pre_list) simp_all
  then have "tsp_lower ts64 2 6 10 2 (list_reader ?keys) = Some (ref_point (below (list_reader ?keys) 10) 2 6)"
    by (rule search_class.lower_bound_ref [OF ts64_class])
  moreover have "ref_point (below (list_reader ?keys) 10) 2 6 = 2" by code_simp
  moreover have "map kv_key (pos_data ?keys) = ?keys" by (simp add: pos_data_def)
  ultimately have "TS_lower_bound ts64 s 10 = Some 2" by (simp add: TS_lower_bound_def)
  then show ?thesis using s by (simp add: TS_EqualityLookup_def pos_data_def)
qed

text \<open>C40. A range query that starts at an absent key sums pairs below the range when the range of positions ends among the occurrences of the key
  before: unlike the wrapper of the PGM-index, this one does not skip them.\<close>

theorem ts_range_query_after_duplicates:
  "\<exists>s. TS_Build ts64 (pos_data [0, 5, 5, 5, 5, 5, 5, 5, 5, 10, 100]) = Some s \<and> TS_RangeQuery ts64 s 7 8 = Some 15 \<and>
     pair_sum (kv_pairs (ts_data s)) 7 8 = 0"
proof -
  let ?keys = "[0, 5, 5, 5, 5, 5, 5, 5, 5, 10, 100] :: u64 list"
  let ?xs = "[0, 5, 10, 100] :: u64 list" and ?pts = "map cdf_point [(0 :: u64, 0), (5, 1), (10, 9), (100, 10)]"
  have "map_option builder_view (final_builder (tsp_spline_max_error ts64) ?keys) =
      Some (?pts, \<lparr>cb_min_key = hd ?xs, cb_max_key = last ?xs, cb_prev_key = last ?xs, cb_keys = ?xs\<rparr>,
        hd ?keys, last ?keys, length ?keys, 1)" by code_simp
  moreover have "cht_tuning (unat (last ?xs - hd ?xs)) 4 16" by code_simp
  moreover have "case interpolate ?pts (key_position ?xs 7) 7 of None \<Rightarrow> False | Some est \<Rightarrow> 4 \<le> est \<and> est < 5" by code_simp
  then obtain est where est: "interpolate ?pts (key_position ?xs 7) 7 = Some est" "4 \<le> est" "est < 5" by (auto split: option.splits)
  ultimately obtain s where s: "TS_Build ts64 (pos_data ?keys) = Some s" "ts_data s = pos_data ?keys"
      "ts_GetSearchBound (tsp_lower ts64) (ts_ts s) 7 = Some (window_at (length ?keys) 1 est)"
    using ts_bound_at [OF ts64_class, of "pos_data ?keys" ?keys ?xs ?pts 1 4 16 7 est] by (auto simp: pos_data_def ts64_def)
  moreover have "\<lfloor>est\<rfloor> = 4" using est by linarith
  then have "window_at (length ?keys) 1 est = \<lparr>sb_begin = 3, sb_end = 7\<rparr>" by (simp add: window_at_def)
  moreover have "search_pre (list_reader ?keys) 3 7 3" by (rule search_pre_list) simp_all
  then have "tsp_lower ts64 3 7 7 3 (list_reader ?keys) = Some (ref_point (below (list_reader ?keys) 7) 3 7)"
    by (rule search_class.lower_bound_ref [OF ts64_class])
  moreover have "ref_point (below (list_reader ?keys) 7) 3 7 = 7" by code_simp
  moreover have "map kv_key (pos_data ?keys) = ?keys" by (simp add: pos_data_def)
  ultimately have "TS_lower_bound ts64 s 7 = Some 7" by (simp add: TS_lower_bound_def)
  then show ?thesis using s by (simp add: TS_RangeQuery_def pos_data_def pair_sum_def kv_pairs_def)
qed

end
