(* ===== verification/Workload_Indexes.thy ===== *)
theory Workload_Indexes
  imports Workload_Run Pgm_Bench Stx_Btree_Bench Ts_Bench
begin

text \<open>
  The dynamic PGM-index over the static one, as \<^verbatim>\<open>src/competitors/dynamic_pgm_index.h\<close> instantiates it, and generated
  workloads on all modelled indexes.
\<close>

subsection \<open>The static index in the levels of the dynamic one\<close>

definition static_pgm :: "nat \<Rightarrow> nat \<Rightarrow> nat \<Rightarrow> 'w::len word search \<Rightarrow> ('w word, 'w word pgm) pgm_ops" where
  "static_pgm MinLevel Error RecursiveError upper_bound =
     \<lparr>MinIndexedLevel = MinLevel,
      pgm_empty = pgm_default,
      pgm_build = (\<lambda>xs. PGMIndex Error RecursiveError (item_keys xs)),
      pgm_find = find_approximate_position upper_bound Error RecursiveError\<rparr>"

lemma item_lower_bound_position: "item_lower_bound xs k = key_position (item_keys xs) k"
  by (simp add: item_lower_bound_def key_position_def takeWhile_map o_def)

lemma pgm_fits_below:
  fixes keys :: "'w::len word list"
  assumes "sorted keys" and "keys \<noteq> []" and "- 1 \<notin> set keys" and "0 < Error"
    and "precise (2 ^ LENGTH('w) - 1) (int (N + 2 * max Error RecursiveError))" and "length keys \<le> N"
  shows "pgm_fits Error RecursiveError keys (2 ^ LENGTH('w) - 1)"
proof -
  let ?X = "2 ^ LENGTH('w) - 1 :: int"
  have "last keys \<noteq> - 1" using assms(2,3) last_in_set by metis
  moreover have "uint (- 1 :: 'w word) = ?X" by (simp add: unsigned_minus_1_eq_mask mask_eq_exp_minus_1)
  ultimately have "uint (last keys) \<noteq> ?X" by (metis word_uint_eqI)
  then have "uint (last keys) < ?X" using uint_lt2p [of "last keys"] by linarith
  moreover have "precise ?X (int (length keys + 2 * max Error RecursiveError))"
    using assms(2,4,6) by (intro precise_mono [OF assms(5)]) (cases keys; simp)+
  ultimately show ?thesis using assms(1,2,4) by (simp add: pgm_fits_def)
qed

text \<open>The guarantee of the static index is what the dynamic one needs of it, for all keys except the largest one.\<close>

lemma static_pgm_covers:
  fixes ub :: "'w::len word search"
  assumes "search_class lb ub" and "0 < Error" and "precise (2 ^ LENGTH('w) - 1) (int (N + 2 * max Error RecursiveError))"
  shows "pgm_covers (static_pgm MinLevel Error RecursiveError ub) {k. k \<noteq> - 1} N"
  unfolding pgm_covers_def
proof (intro conjI allI impI)
  show "N \<le> 2 ^ 53" using preciseD(3) [OF assms(3)] by simp
  fix xs :: "'w word item list"
  assume xs: "sorted_items xs \<and> xs \<noteq> [] \<and> set (item_keys xs) \<subseteq> {k. k \<noteq> - 1} \<and> length xs \<le> N"
  let ?X = "2 ^ LENGTH('w) - 1 :: int"
  have fits: "pgm_fits Error RecursiveError (item_keys xs) ?X"
    using assms(2) xs by (intro pgm_fits_below [OF _ _ _ _ assms(3)]) auto
  obtain levels where l: "PGMIndex Error RecursiveError (item_keys xs) = Some (pgm_of (item_keys xs) levels)"
    "pgm_levels_ok Error RecursiveError (item_keys xs) ?X levels" using pgm_index_exists [OF fits] by blast
  have "\<exists>ap. find_approximate_position ub Error RecursiveError (pgm_of (item_keys xs) levels) k = Some ap \<and> range_ok xs k ap" for k
  proof -
    have "uint k \<le> ?X" using uint_lt2p [of k] by linarith
    from approximate_position [OF assms(1) l(2) this] show ?thesis
      unfolding window_ok_def range_ok_def item_lower_bound_position by auto
  qed
  then show "\<exists>p. pgm_build (static_pgm MinLevel Error RecursiveError ub) xs = Some p \<and>
      (\<forall>k. \<exists>ap. pgm_find (static_pgm MinLevel Error RecursiveError ub) p k = Some ap \<and> range_ok xs k ap)"
    using l(1) by (simp add: static_pgm_def)
qed

text \<open>
  The index type of the wrapper: errors \<open>err\<close> and 16, the same search class as in the wrapper, and the default threshold 18
  of the dynamic index.
\<close>

definition wrapper_pgm :: "nat \<Rightarrow> ('w::len word, 'w word pgm) pgm_ops" where
  "wrapper_pgm err =
     static_pgm 18 err 16 (\<lambda>a b key s at'. BranchingBinarySearch_upper_bound a b key s at' (<))"

lemma wrapper_pgm_covers:
  assumes "0 < err" and "precise (2 ^ LENGTH('w) - 1) (int (N + 2 * max err 16))"
  shows "pgm_covers (wrapper_pgm err) {k::'w::len word. k \<noteq> - 1} N"
  using static_pgm_covers [OF binary.search_class_axioms assms] by (simp add: wrapper_pgm_def)

lemma wrapper_pgm_level: "min_level < MinIndexedLevel (wrapper_pgm err)"
  by (simp add: wrapper_pgm_def static_pgm_def min_level_def)

lemma precise32:
  assumes "0 < e" and "n + 2 * e \<le> 2 ^ 24"
  shows "precise (2 ^ LENGTH(32) - 1) (int (n + 2 * e))"
proof -
  have "(2 ^ 32 - 1) * int (n + 2 * e) \<le> (2 ^ 32 - 1) * 2 ^ 24" using assms(2) by (intro mult_left_mono) auto
  then show ?thesis using assms by (simp add: precise_def)
qed

subsection \<open>Properties\<close>



end
