(* ===== verification/Spec2Isabelle.thy ===== *)
theory Spec2Isabelle
  imports Linear_Search Exponential_Search Interpolation_Search Avx_Search Workload_Indexes
begin

text \<open>
  This development verifies the core of TLI, a testbed that runs learned and traditional indexes on generated
  workloads and checks their answers. The program has four parts. The \<^emph>\<open>generator\<close> (\<^verbatim>\<open>generate.cc\<close>) turns a file of sorted
  keys into a file of operations (lookups, range queries, insertions) with expected results, and into a file of pairs for
  bulk loading. The \<^emph>\<open>benchmark\<close> (\<^verbatim>\<open>benchmark.h\<close>) reads these files, builds an index, runs the operations in phases with
  one or several workers, verifies the results, and computes statistics. The \<^emph>\<open>indexes\<close> (\<^verbatim>\<open>competitors\<close>) implement the
  interface of \<^verbatim>\<open>competitors/base.h\<close>: \<^verbatim>\<open>Build\<close>, \<^verbatim>\<open>EqualityLookup\<close>, \<^verbatim>\<open>RangeQuery\<close> and \<^verbatim>\<open>Insert\<close>. The \<^emph>\<open>search classes\<close>
  (\<^verbatim>\<open>searches\<close>) are template arguments of the indexes, which call them to find a key inside a node or a window.

  \<^bold>\<open>Conventions.\<close> Every function that can fail (a failed check, an access outside an array or through a null pointer, an
  exhausted retry loop, an exception) returns an option, and \<open>None\<close> is that failure; so a theorem that a function returns \<open>Some\<close> includes
  that it never accesses memory it does not own. Positions in arrays are \<open>int\<close> or \<open>nat\<close>; keys, values, masks and
  the counters whose wrap-around matters are machine words; \<open>size_t\<close> arithmetic that can wrap is written out with \<open>to_size_t\<close>.
  Keys of an index are of any linear order unless the code needs machine words. A \<open>double\<close> is the rational number it stands for, and
  every operation on it is followed by the rounding \<open>double_round\<close>. Random numbers come from the
  state of the xorshift generator of \<^verbatim>\<open>util.h\<close>, which is passed along. Clocks are arguments.

  \<^bold>\<open>Theories.\<close>
  \<^item> \<open>Prelude\<close>: machine integers, partition points of ranges, and readers (an array as a partial function from positions).
  \<^item> \<open>Search_Class\<close> (\<^verbatim>\<open>searches/search.h\<close>): the recorded statistics, and the locale \<open>search_class\<close> of what an index may expect
    of a search class: both bounds of a sorted range, from any start position. \<open>Linear_Search\<close>, \<open>Binary_Search\<close>, \<open>Exponential_Search\<close>,
    \<open>Interpolation_Search\<close> (over the rounding of \<open>Doubles\<close>) and \<open>Avx_Search\<close> (with the AVX2 instructions it uses, lane by lane) model
    the five classes and interpret the locale. All are total: their loops are functions with a
    measure, or are proved to return.
  \<^item> \<open>Util\<close> (\<^verbatim>\<open>util.h\<close>): data types, files (the locale \<open>codec\<close> carries the round trips from elements to whole files), conversion of
    keys to strings, random draws.
  \<^item> \<open>Generate\<close> models \<^verbatim>\<open>generate.cc\<close>; \<open>Generate_Layout\<close> shows where the operations and the loaded pairs go, \<open>Generate_Queries\<close> that
    the drawn lookups and range queries have the right expected results, \<open>Generate_Correct\<close> combines them. The retries of the
    range queries are the bounded ones of the code; the loops that draw keys until one fits may not end
    and are partial functions, so theorems about their results assume that the generator has ended.
  \<^item> \<open>Benchmark\<close> models \<^verbatim>\<open>benchmark.h\<close>: the constructor, the phases, the core loop, the statistics, and interleaved workers
    as sequences of turns. \<open>Benchmark_Correct\<close> has the bounds of phases, slices and percentiles, and the progress of the workers.
    \<open>Benchmark_Verify\<close> has the locale \<open>index_contract\<close>, the contract of an index with the benchmark, and shows that an
    index that keeps it passes the verification of every consistent workload.
  \<^item> \<open>Piecewise_Linear\<close> models the construction of the segments in \<^verbatim>\<open>piecewise_linear_model.hpp\<close>: the two convex hulls, the extreme lines, and the
    segmentation of a sequence of points, in one or several parts. \<open>Hull_Geometry\<close> has the lines and hulls over the integers,
    \<open>Piecewise_Linear_Correct\<close> the invariant of \<^verbatim>\<open>add_point\<close> (the rectangle holds the extreme lines of all lines within the error), \<open>Segmentation\<close>
    that the segments cover the points, stay within the error and are as few as possible.
  \<^item> \<open>Pgm_Index\<close> models \<^verbatim>\<open>pgm_index.hpp\<close>, the static PGM-index, and the floating-point lines of the segments, with every \<^verbatim>\<open>long double\<close> and
    \<^verbatim>\<open>double\<close> operation rounded (\<open>Doubles\<close> has the rounding to nearest even with 64 and 53 digits, and the locale \<open>rounding_error\<close>
    of its errors). \<open>Segment_Accuracy\<close> bounds the errors: a segment predicts the position of each of its points up to the error and one.
    \<open>Pgm_Levels\<close> shows what the constructor builds (levels of decreasing size, each approximating the one below),
    \<open>Pgm_Index_Correct\<close> follows a lookup from the top to the bottom. \<open>Pgm_Bench\<close> models the wrapper \<^verbatim>\<open>competitors/pgm_index.h\<close> and has the properties.
  \<^item> \<open>Dynamic_Pgm\<close> models \<^verbatim>\<open>pgm_index_dynamic.hpp\<close> and its wrapper \<^verbatim>\<open>dynamic_pgm_index.h\<close>; the static index of each level is an
    argument, of which the proofs use \<open>pgm_covers\<close>: it builds on the keys of a set and a number of items, and its windows are right. \<open>Dynamic_Pgm_Merge\<close>, \<open>Dynamic_Pgm_Insert\<close>, \<open>Dynamic_Pgm_Lookup\<close> treat merging, insertion, and queries with
    their iterators; \<open>Dynamic_Pgm_Correct\<close> the whole index, and where the code accesses memory it does not own; \<open>Dynamic_Pgm_Bench\<close>
    the contract with the benchmark.
  \<^item> \<open>Stx_Btree\<close> models \<^verbatim>\<open>stx-btree-0.9/include/stx/btree.h\<close>. \<open>Stx_Btree_Inv\<close> has the invariant (shape, fill, order, the doubly linked
    chain of leaves in memory) and the queries, \<open>Stx_Btree_Insert\<close> insertion, \<open>Stx_Btree_Load\<close> bulk loading,
    \<open>Stx_Btree_Check\<close> the self-verification of the code, which succeeds exactly on small enough trees with the invariant.
    \<open>Stx_Btree_Bench\<close> models the wrapper \<^verbatim>\<open>stx_btree.h\<close> and has the properties.
  \<^item> \<open>Ts_Cht\<close> models the compact histogram tree of the TrieSpline (\<^verbatim>\<open>competitors/ts/include/ts/ts_cht\<close>): the builder, both layouts, the lookup.
    \<open>Ts_Cht_Node\<close> shows how one node divides its keys into bins, \<open>Ts_Cht_Build\<close> that the breadth-first splitting ends, with the invariant of the tree,
    \<open>Ts_Cht_Correct\<close> follows a lookup through the flattened table.
  \<^item> \<open>Ts_Spline\<close> models the builder of the spline and its queries (\<^verbatim>\<open>ts/builder.h\<close>, \<^verbatim>\<open>ts/ts.h\<close>), with every \<^verbatim>\<open>double\<close> operation rounded. \<open>Ts_Corridor\<close> has
    the corridor of the lines within the error, \<open>Ts_Builder_Correct\<close> the invariant of \<^verbatim>\<open>AddKey\<close>, \<open>Ts_Spline_Correct\<close> the accuracy of the estimated positions.
  \<^item> \<open>Ts_Tuning\<close> models how \<^verbatim>\<open>Finalize\<close> chooses the number of bins and the error of the tree. \<open>Ts_Histogram\<close> follows its counting sort and the rows of its
    histogram, \<open>Ts_Tuning_Total\<close> shows that no vector is left and that a radix table never costs less than one step, \<open>Ts_Tuning_Choice\<close> evaluates the choice for few
    points, \<open>Ts_Tuning_Correct\<close> shows which choices there are and for which ranges of keys there is none. The choice is an argument of \<open>ts_Finalize\<close>; \<open>ts_tuning\<close> is the one of the code.
  \<^item> \<open>Ts_Bench\<close> models the wrapper \<^verbatim>\<open>competitors/ts.h\<close> and has the contract with the benchmark and the properties.
  \<^item> \<open>Workload_Run\<close>: generator, benchmark and any index that keeps the contract, together. \<open>Workload_Indexes\<close> puts the static PGM-index into the
    dynamic one, as the wrapper does, and runs generated workloads on all modelled indexes.
  \<^item> this theory: the properties that span the search classes.

  \<^bold>\<open>Bounds.\<close> The theorems on the static PGM-index assume \<open>precise X M\<close>: \<open>X\<close> bounds the keys that are in the data or asked for, \<open>M\<close> is the number of keys plus twice
    the error, and \<open>X * M \<le> 2 ^ 56\<close>, \<open>M \<le> 2 ^ 31\<close>. The second is what \<^verbatim>\<open>int32_t intercept\<close> can hold; the first makes the rounding errors of the intersection, the slope and the
    intercept (64 and 53 digits) less than one position in sum. With 32-bit keys it leaves \<open>2 ^ 24\<close> keys; for larger data sets, and for 64-bit keys beyond the bound,
    the theorems say nothing. The theorems on the TrieSpline assume
    \<open>ts_fits\<close>: the largest key occurs once, the range of the keys times the number of keys and the error is at most \<open>2 ^ 53\<close>, so that the products that the corridor compares are exact,
    the number of keys times the width of a key is below \<open>2 ^ 31\<close>, so that positions and nodes fit the entries of the table, and the chosen tuning fits the range of the keys (\<open>cht_tuning\<close>).
    The last condition is about the choice of the code, which does not always satisfy it: there are keys for which the code chooses a tree that it cannot build. The compiler option \<^verbatim>\<open>-ffast-math\<close> of the build file, which lets the compiler
    reorder floating-point operations, is not modelled. No theorem depends on fuel: loops that may not end are partial functions, and
    that they end is proved.

  \<^bold>\<open>Not modelled.\<close> Command lines, file names of workloads, printing, CPU affinity, cache wiping and fences (input and output, or
  the machine); the erasure of the B+-tree, which no benchmark calls, and its copying, dumping and printing; the
  compressed PGM-index and the tuner; the cache-oblivious layout of the compact histogram tree, which nothing calls; the other indexes and their wrappers; vendored libraries.
\<close>

section \<open>Properties that span the search classes\<close>

text \<open>C26. On a sorted range of 64-bit keys the five search classes return the same positions,
  whatever the start position each of them is given: an index may be instantiated with any of
  them.\<close>

theorem search_classes_agree:
  assumes "search_pre at' first last' s1" and "search_pre at' first last' s2"
  shows "BranchingBinarySearch_lower_bound first last' (key :: u64) s1 at' (<) =
           LinearSearch_lower_bound first last' key s2 at' (<) \<and>
         ExponentialSearch_lower_bound first last' key s1 at' (<) =
           LinearSearch_lower_bound first last' key s2 at' (<) \<and>
         InterpolationSearch_lower_bound double_round first last' key s1 at' =
           LinearSearch_lower_bound first last' key s2 at' (<) \<and>
         LinearAVX_u64_lower_bound first last' key s1 at' at' (<) =
           LinearSearch_lower_bound first last' key s2 at' (<) \<and>
         BranchingBinarySearch_upper_bound first last' key s1 at' (<) =
           LinearSearch_upper_bound first last' key s2 at' (<) \<and>
         ExponentialSearch_upper_bound first last' key s1 at' (<) =
           LinearSearch_upper_bound first last' key s2 at' (<) \<and>
         InterpolationSearch_upper_bound double_round first last' key s1 at' =
           LinearSearch_upper_bound first last' key s2 at' (<) \<and>
         LinearAVX_u64_upper_bound first last' key s1 at' at' (<) =
           LinearSearch_upper_bound first last' key s2 at' (<)"
  using linear.lower_bound_ref [OF assms(2)] linear.upper_bound_ref [OF assms(2)]
    binary.lower_bound_ref [OF assms(1)] binary.upper_bound_ref [OF assms(1)]
    exponential.lower_bound_ref [OF assms(1)] exponential.upper_bound_ref [OF assms(1)]
    double.interpolation.lower_bound_ref [OF assms(1)]
    double.interpolation.upper_bound_ref [OF assms(1)]
    avx64.lower_bound_ref [OF assms(1)] avx64.upper_bound_ref [OF assms(1)]
  by simp

text \<open>Three keys, one search from the left end and one from the right end.\<close>

theorem search_classes_agree_witness:
  "ExponentialSearch_lower_bound 0 3 (7 :: u64) 3 (list_reader [4, 7, 8]) (<) =
     LinearSearch_lower_bound 0 3 7 0 (list_reader [4, 7, 8 :: u64]) (<)"
proof -
  have "search_pre (list_reader [4, 7, 8 :: u64]) 0 3 3"
    and "search_pre (list_reader [4, 7, 8 :: u64]) 0 3 0"
    by (rule search_pre_list; simp)+
  from search_classes_agree [OF this, of 7] show ?thesis by simp
qed




end
